(* ===== verification/Dream_Prelude.thy ===== *)
theory Dream_Prelude
  imports Main "HOL-Library.Monad_Syntax"
begin

text \<open>
  Shared vocabulary of the development. The compiler is written in Rust, where an index out of
  range, a failed \<open>expect\<close> or an arithmetic overflow in a debug build panics. A function that can
  panic is modelled in the option monad, with \<open>None\<close> for the panic, and the lemmas of the
  components show on which inputs \<open>None\<close> cannot arise. The theory holds the checked vector
  accesses, the two loop shapes of the passes (a fold that may panic, and a map over a vector
  that accumulates a changed flag), and the lemmas about them.
\<close>

named_theorems panic_simps \<open>equations that decide whether a checked access panics\<close>

section \<open>Checked vector accesses\<close>

definition nth_opt :: "'a list \<Rightarrow> nat \<Rightarrow> 'a option" where
  "nth_opt xs i = (if i < length xs then Some (xs ! i) else None)"

definition upd_opt :: "'a list \<Rightarrow> nat \<Rightarrow> 'a \<Rightarrow> 'a list option" where
  "upd_opt xs i v = (if i < length xs then Some (xs[i := v]) else None)"

lemma nth_opt_in [simp, panic_simps]: "i < length xs \<Longrightarrow> nth_opt xs i = Some (xs ! i)"
  by (simp add: nth_opt_def)

lemma nth_opt_out [simp, panic_simps]: "length xs \<le> i \<Longrightarrow> nth_opt xs i = None"
  by (simp add: nth_opt_def)

lemma nth_opt_Some_iff: "nth_opt xs i = Some x \<longleftrightarrow> i < length xs \<and> xs ! i = x"
  by (auto simp: nth_opt_def)

lemma nth_opt_None_iff: "nth_opt xs i = None \<longleftrightarrow> length xs \<le> i"
  by (auto simp: nth_opt_def)

lemma upd_opt_in [simp, panic_simps]: "i < length xs \<Longrightarrow> upd_opt xs i v = Some (xs[i := v])"
  by (simp add: upd_opt_def)

lemma upd_opt_Some_iff: "upd_opt xs i v = Some ys \<longleftrightarrow> i < length xs \<and> ys = xs[i := v]"
  by (auto simp: upd_opt_def)

lemma nth_opt_update:
  "i < length xs \<Longrightarrow> nth_opt (xs[i := v]) j = (if j = i then Some v else nth_opt xs j)"
  by (auto simp: nth_opt_def)

lemma nth_opt_map: "nth_opt (map f xs) i = map_option f (nth_opt xs i)"
  by (simp add: nth_opt_def)

lemma bind_Some_iff: "(Option.bind m f = Some y) \<longleftrightarrow> (\<exists>x. m = Some x \<and> f x = Some y)"
  by (cases m) auto

section \<open>Loops that may panic\<close>

text \<open>\<open>foldM f s xs\<close> is a \<open>for\<close> loop over \<open>xs\<close> whose body updates the state or panics.\<close>

fun foldM :: "('s \<Rightarrow> 'a \<Rightarrow> 's option) \<Rightarrow> 's \<Rightarrow> 'a list \<Rightarrow> 's option" where
  "foldM f s [] = Some s"
| "foldM f s (x # xs) = Option.bind (f s x) (\<lambda>s'. foldM f s' xs)"

lemma foldM_append: "foldM f s (xs @ ys) = Option.bind (foldM f s xs) (\<lambda>s'. foldM f s' ys)"
  by (induction xs arbitrary: s) (auto split: Option.bind_split)

lemma foldM_invariant:
  assumes "foldM f s xs = Some t" and "P s"
    and "\<And>s x t. x \<in> set xs \<Longrightarrow> P s \<Longrightarrow> f s x = Some t \<Longrightarrow> P t"
  shows "P t"
  using assms
proof (induction xs arbitrary: s)
  case Nil
  then show ?case by simp
next
  case (Cons x xs)
  from Cons.prems(1) obtain u where u: "f s x = Some u" "foldM f u xs = Some t"
    by (auto simp: bind_Some_iff)
  have "P u" by (rule Cons.prems(3)[OF _ Cons.prems(2) u(1)]) simp
  with u(2) Cons.IH Cons.prems(3) show ?case by auto
qed

lemma foldM_total:
  assumes "P s" and "\<And>s x. x \<in> set xs \<Longrightarrow> P s \<Longrightarrow> \<exists>t. f s x = Some t \<and> P t"
  shows "\<exists>t. foldM f s xs = Some t \<and> P t"
  using assms
proof (induction xs arbitrary: s)
  case Nil
  then show ?case by simp
next
  case (Cons x xs)
  then obtain u where u: "f s x = Some u" "P u" by fastforce
  with Cons.IH Cons.prems(2) obtain t where "foldM f u xs = Some t \<and> P t" by fastforce
  with u show ?case by auto
qed

lemma foldM_Some_eq_foldl:
  "(\<And>s x. x \<in> set xs \<Longrightarrow> f s x = Some (g s x)) \<Longrightarrow> foldM f s xs = Some (foldl g s xs)"
  by (induction xs arbitrary: s) auto

text \<open>
  \<open>map_changed f xs\<close> is the shape of a rewriting pass: every element of a vector is rewritten in
  place, and the pass reports whether any rewrite changed something.
\<close>

fun map_changed :: "('a \<Rightarrow> ('a \<times> bool) option) \<Rightarrow> 'a list \<Rightarrow> ('a list \<times> bool) option" where
  "map_changed f [] = Some ([], False)"
| "map_changed f (x # xs) =
     do {
       (y, c) \<leftarrow> f x;
       (ys, d) \<leftarrow> map_changed f xs;
       Some (y # ys, c \<or> d)
     }"

lemma map_changed_Some_iff:
  "map_changed f xs = Some (ys, c) \<longleftrightarrow>
     length ys = length xs \<and>
     (\<forall>i < length xs. \<exists>d. f (xs ! i) = Some (ys ! i, d)) \<and>
     (c \<longleftrightarrow> (\<exists>i < length xs. f (xs ! i) = Some (ys ! i, True)))"
proof (induction xs arbitrary: ys c)
  case Nil
  then show ?case by auto
next
  case (Cons x xs)
  show ?case
  proof
    assume "map_changed f (x # xs) = Some (ys, c)"
    then obtain y d zs e where r: "f x = Some (y, d)" "map_changed f xs = Some (zs, e)"
      "ys = y # zs" "c = (d \<or> e)"
      by (auto simp: bind_Some_iff)
    from r(2) Cons.IH[of zs e] have ih: "length zs = length xs"
      "\<forall>i < length xs. \<exists>d. f (xs ! i) = Some (zs ! i, d)"
      "e \<longleftrightarrow> (\<exists>i < length xs. f (xs ! i) = Some (zs ! i, True))" by auto
    show "length ys = length (x # xs) \<and>
      (\<forall>i < length (x # xs). \<exists>d. f ((x # xs) ! i) = Some (ys ! i, d)) \<and>
      (c \<longleftrightarrow> (\<exists>i < length (x # xs). f ((x # xs) ! i) = Some (ys ! i, True)))"
      using r ih by (simp add: All_less_Suc2 Ex_less_Suc2)
  next
    assume a: "length ys = length (x # xs) \<and>
      (\<forall>i < length (x # xs). \<exists>d. f ((x # xs) ! i) = Some (ys ! i, d)) \<and>
      (c \<longleftrightarrow> (\<exists>i < length (x # xs). f ((x # xs) ! i) = Some (ys ! i, True)))"
    then obtain y zs where ys: "ys = y # zs" by (cases ys) auto
    from a have "\<exists>d. f ((x # xs) ! 0) = Some (ys ! 0, d)" by blast
    then obtain d where d: "f x = Some (y, d)" using ys by auto
    have tl: "\<And>i. i < length xs \<Longrightarrow> \<exists>d. f (xs ! i) = Some (zs ! i, d)"
      using a ys by (simp add: All_less_Suc2)
    obtain e where e: "e \<longleftrightarrow> (\<exists>i < length xs. f (xs ! i) = Some (zs ! i, True))" by blast
    have "map_changed f xs = Some (zs, e)" using Cons.IH[of zs e] a ys tl e by auto
    moreover have "c = (d \<or> e)"
      using a ys d e by (simp add: Ex_less_Suc2)
    ultimately show "map_changed f (x # xs) = Some (ys, c)" using ys d by simp
  qed
qed

lemma map_changed_total:
  "(\<And>x. x \<in> set xs \<Longrightarrow> f x \<noteq> None) \<Longrightarrow> \<exists>ys c. map_changed f xs = Some (ys, c)"
  by (induction xs) fastforce+

lemma map_changed_unchanged:
  assumes "map_changed f xs = Some (ys, False)"
    and "\<And>x y. x \<in> set xs \<Longrightarrow> f x = Some (y, False) \<Longrightarrow> y = x"
  shows "ys = xs"
proof (rule nth_equalityI)
  from assms(1) show "length ys = length xs" by (simp add: map_changed_Some_iff)
  fix i assume "i < length ys"
  with assms(1) have i: "i < length xs" "\<exists>d. f (xs ! i) = Some (ys ! i, d)"
    "f (xs ! i) \<noteq> Some (ys ! i, True)"
    by (auto simp: map_changed_Some_iff)
  then have "f (xs ! i) = Some (ys ! i, False)" by (metis (full_types))
  with assms(2) i(1) show "ys ! i = xs ! i" by simp
qed

section \<open>Machine integers\<close>

text \<open>
  Rust's \<open>as\<close> casts between integer types keep the low bits of the source and read them as
  the target type. On mathematical integers they are \<open>take_bit\<close> (unsigned target) and
  \<open>signed_take_bit\<close> (signed target).
\<close>

abbreviation as_u8 :: "int \<Rightarrow> int" where "as_u8 v \<equiv> take_bit 8 v"
abbreviation as_u32 :: "int \<Rightarrow> int" where "as_u32 v \<equiv> take_bit 32 v"
abbreviation as_i32 :: "int \<Rightarrow> int" where "as_i32 v \<equiv> signed_take_bit 31 v"
abbreviation as_u64 :: "int \<Rightarrow> int" where "as_u64 v \<equiv> take_bit 64 v"
abbreviation as_i64 :: "int \<Rightarrow> int" where "as_i64 v \<equiv> signed_take_bit 63 v"
abbreviation as_i128 :: "int \<Rightarrow> int" where "as_i128 v \<equiv> signed_take_bit 127 v"

definition is_i64 :: "int \<Rightarrow> bool" where
  "is_i64 v \<longleftrightarrow> - (2 ^ 63) \<le> v \<and> v < 2 ^ 63"

definition is_i128 :: "int \<Rightarrow> bool" where
  "is_i128 v \<longleftrightarrow> - (2 ^ 127) \<le> v \<and> v < 2 ^ 127"

text \<open>Rust's \<open>/\<close> and \<open>%\<close> on signed integers truncate towards zero.\<close>

definition tdiv :: "int \<Rightarrow> int \<Rightarrow> int" where
  "tdiv a b = sgn a * sgn b * (\<bar>a\<bar> div \<bar>b\<bar>)"

definition tmod :: "int \<Rightarrow> int \<Rightarrow> int" where
  "tmod a b = a - b * tdiv a b"

lemma tdiv_nonneg: "0 \<le> a \<Longrightarrow> 0 \<le> b \<Longrightarrow> tdiv a b = a div b"
  by (cases "a = 0"; cases "b = 0") (auto simp: tdiv_def)

lemma tmod_nonneg: "0 \<le> a \<Longrightarrow> 0 \<le> b \<Longrightarrow> tmod a b = a mod b"
  by (simp add: tmod_def tdiv_nonneg minus_mult_div_eq_mod)

lemma as_i64_range: "is_i64 (as_i64 v)"
  using signed_take_bit_int_greater_eq_minus_exp[of 63 v] signed_take_bit_int_less_exp[of 63 v]
  by (simp add: is_i64_def)

lemma as_i64_id [simp]: "is_i64 v \<Longrightarrow> as_i64 v = v"
  by (simp add: is_i64_def signed_take_bit_int_eq_self_iff)

lemma as_i128_id [simp]: "is_i128 v \<Longrightarrow> as_i128 v = v"
  by (simp add: is_i128_def signed_take_bit_int_eq_self_iff)

end
