(* ===== verification/Dream_Types.thy ===== *)
theory Dream_Types
  imports Dream_Prelude
begin

text \<open>
  The interned type system of \<open>crates/dream-types\<close>: the primitive types and type shapes of
  \<open>kind.rs\<close>, the hash-consing interner of \<open>interner.rs\<close>, and the structural relations of
  \<open>compat.rs\<close> (numeric widening, assignability, overload viability). Type ids are positions in
  the interner's vector; a look-up of an id that was never handed out panics, so the queries are
  in the option monad. The lemmas show that the interner's two tables stay inverse to each other,
  so that equal ids denote equal types, and that the relations never panic on ids it handed out.
\<close>

section \<open>Type shapes\<close>

type_synonym type_id = nat

record def_id =
  def_module :: nat
  def_index :: nat

definition def_root :: "nat \<Rightarrow> def_id" where
  "def_root i = \<lparr>def_module = 0, def_index = i\<rparr>"

datatype prim_ty =
    PInt | PUInt | PLong | PULong | PISize | PUSize | PByte
  | PFloat | PFloat16 | PDouble | PBool | PChar | PString

fun prim_name :: "prim_ty \<Rightarrow> string" where
  "prim_name PInt = ''int''"
| "prim_name PUInt = ''uint''"
| "prim_name PLong = ''long''"
| "prim_name PULong = ''ulong''"
| "prim_name PISize = ''isize''"
| "prim_name PUSize = ''usize''"
| "prim_name PByte = ''byte''"
| "prim_name PFloat = ''float''"
| "prim_name PFloat16 = ''float16''"
| "prim_name PDouble = ''double''"
| "prim_name PBool = ''bool''"
| "prim_name PChar = ''char''"
| "prim_name PString = ''string''"

definition prim_from_name :: "string \<Rightarrow> prim_ty option" where
  "prim_from_name s =
     (if s = ''int'' then Some PInt
      else if s = ''uint'' then Some PUInt
      else if s = ''long'' then Some PLong
      else if s = ''ulong'' then Some PULong
      else if s = ''isize'' then Some PISize
      else if s = ''usize'' then Some PUSize
      else if s = ''byte'' then Some PByte
      else if s = ''float'' then Some PFloat
      else if s = ''float16'' then Some PFloat16
      else if s = ''double'' then Some PDouble
      else if s = ''bool'' then Some PBool
      else if s = ''char'' then Some PChar
      else if s = ''string'' then Some PString
      else None)"

definition prim_is_numeric :: "prim_ty \<Rightarrow> bool" where
  "prim_is_numeric p \<longleftrightarrow>
     p \<in> {PInt, PUInt, PLong, PULong, PISize, PUSize, PByte, PFloat, PFloat16, PDouble}"

definition prim_is_float :: "prim_ty \<Rightarrow> bool" where
  "prim_is_float p \<longleftrightarrow> p \<in> {PFloat16, PFloat, PDouble}"

definition prim_is_unsigned_integer :: "prim_ty \<Rightarrow> bool" where
  "prim_is_unsigned_integer p \<longleftrightarrow> p \<in> {PByte, PUInt, PULong, PUSize}"

text \<open>Size and alignment; the pointer-sized integers panic, their width is the target's.\<close>

fun prim_size_align :: "prim_ty \<Rightarrow> (nat \<times> nat) option" where
  "prim_size_align PBool = Some (1, 1)"
| "prim_size_align PByte = Some (1, 1)"
| "prim_size_align PFloat16 = Some (2, 2)"
| "prim_size_align PDouble = Some (8, 8)"
| "prim_size_align PLong = Some (8, 8)"
| "prim_size_align PULong = Some (8, 8)"
| "prim_size_align PChar = Some (4, 4)"
| "prim_size_align PInt = Some (4, 4)"
| "prim_size_align PUInt = Some (4, 4)"
| "prim_size_align PFloat = Some (4, 4)"
| "prim_size_align PString = Some (4, 4)"
| "prim_size_align PISize = None"
| "prim_size_align PUSize = None"

datatype ty_kind =
    K_Prim prim_ty
  | K_Object
  | K_Void
  | K_Error
  | K_Array type_id
  | K_Struct def_id "type_id list"
  | K_Union def_id "type_id list"
  | K_Interface def_id "type_id list"
  | K_Enum def_id
  | K_Func "type_id list" type_id
  | K_Tuple "type_id list"
  | K_Js

definition kind_is_reference :: "ty_kind \<Rightarrow> bool" where
  "kind_is_reference k =
     (case k of
        K_Prim PString \<Rightarrow> True
      | K_Object \<Rightarrow> True
      | K_Array _ \<Rightarrow> True
      | K_Struct _ _ \<Rightarrow> True
      | K_Union _ _ \<Rightarrow> True
      | K_Interface _ _ \<Rightarrow> True
      | K_Func _ _ \<Rightarrow> True
      | _ \<Rightarrow> False)"

definition kind_is_rc_tracked :: "ty_kind \<Rightarrow> bool" where
  "kind_is_rc_tracked k \<longleftrightarrow> kind_is_reference k \<or> k = K_Js"

section \<open>The interner\<close>

text \<open>
  The vector of kinds, its inverse index, and the sets of definitions and types with special
  value semantics. \<open>len() as u32\<close> keeps the low 32 bits of the vector's length.
\<close>

record type_interner =
  kinds :: "ty_kind list"
  dedup :: "ty_kind \<rightharpoonup> type_id"
  value_defs :: "def_id set"
  ref_struct_defs :: "def_id set"
  shared_defs :: "def_id set"
  static_defs :: "def_id set"
  value_unions :: "type_id set"
  niche_unions :: "type_id set"

definition lookup_kind :: "type_interner \<Rightarrow> ty_kind \<Rightarrow> type_id option" where
  "lookup_kind i k = dedup i k"

definition intern :: "type_interner \<Rightarrow> ty_kind \<Rightarrow> type_interner \<times> type_id" where
  "intern i k =
     (case dedup i k of
        Some tid \<Rightarrow> (i, tid)
      | None \<Rightarrow>
          (let tid = length (kinds i) mod 2 ^ 32
           in (i\<lparr>kinds := kinds i @ [k], dedup := (dedup i)(k \<mapsto> tid)\<rparr>, tid)))"

definition interner_empty :: type_interner where
  "interner_empty =
     \<lparr>kinds = [], dedup = Map.empty, value_defs = {}, ref_struct_defs = {}, shared_defs = {},
      static_defs = {}, value_unions = {}, niche_unions = {}\<rparr>"

definition preinterned :: "ty_kind list" where
  "preinterned =
     map K_Prim [PInt, PUInt, PLong, PULong, PISize, PUSize, PByte, PFloat, PDouble, PBool,
       PChar, PString]
     @ [K_Object, K_Void, K_Error, K_Js, K_Prim PFloat16]"

definition interner_new :: type_interner where
  "interner_new = foldl (\<lambda>i k. fst (intern i k)) interner_empty preinterned"

definition kind :: "type_interner \<Rightarrow> type_id \<Rightarrow> ty_kind option" where
  "kind i t = nth_opt (kinds i) t"

text \<open>The constructors of the composite types intern their kind.\<close>

definition prim_ty_of :: "type_interner \<Rightarrow> prim_ty \<Rightarrow> type_interner \<times> type_id" where
  "prim_ty_of i p = intern i (K_Prim p)"

definition array_ty :: "type_interner \<Rightarrow> type_id \<Rightarrow> type_interner \<times> type_id" where
  "array_ty i element = intern i (K_Array element)"

definition struct_ty :: "type_interner \<Rightarrow> def_id \<Rightarrow> type_id list \<Rightarrow> type_interner \<times> type_id" where
  "struct_ty i d args = intern i (K_Struct d args)"

definition union_ty :: "type_interner \<Rightarrow> def_id \<Rightarrow> type_id list \<Rightarrow> type_interner \<times> type_id" where
  "union_ty i d args = intern i (K_Union d args)"

definition interface_ty :: "type_interner \<Rightarrow> def_id \<Rightarrow> type_id list \<Rightarrow> type_interner \<times> type_id" where
  "interface_ty i d args = intern i (K_Interface d args)"

definition enum_ty :: "type_interner \<Rightarrow> def_id \<Rightarrow> type_interner \<times> type_id" where
  "enum_ty i d = intern i (K_Enum d)"

definition func_ty :: "type_interner \<Rightarrow> type_id list \<Rightarrow> type_id \<Rightarrow> type_interner \<times> type_id" where
  "func_ty i params ret = intern i (K_Func params ret)"

definition tuple_ty :: "type_interner \<Rightarrow> type_id list \<Rightarrow> type_interner \<times> type_id" where
  "tuple_ty i elems = intern i (K_Tuple elems)"

definition interner_len :: "type_interner \<Rightarrow> nat" where
  "interner_len i = length (kinds i)"

text \<open>The accessors of the pre-interned types index the map; a missing key would panic.\<close>

definition find_kind :: "type_interner \<Rightarrow> ty_kind \<Rightarrow> type_id option" where
  "find_kind i k = dedup i k"

definition int_type :: "type_interner \<Rightarrow> type_id option" where
  "int_type i = find_kind i (K_Prim PInt)"

definition uint_type :: "type_interner \<Rightarrow> type_id option" where
  "uint_type i = find_kind i (K_Prim PUInt)"

definition bool_type :: "type_interner \<Rightarrow> type_id option" where
  "bool_type i = find_kind i (K_Prim PBool)"

definition char_type :: "type_interner \<Rightarrow> type_id option" where
  "char_type i = find_kind i (K_Prim PChar)"

definition byte_type :: "type_interner \<Rightarrow> type_id option" where
  "byte_type i = find_kind i (K_Prim PByte)"

definition long_type :: "type_interner \<Rightarrow> type_id option" where
  "long_type i = find_kind i (K_Prim PLong)"

definition float_type :: "type_interner \<Rightarrow> type_id option" where
  "float_type i = find_kind i (K_Prim PFloat)"

definition float16_type :: "type_interner \<Rightarrow> type_id option" where
  "float16_type i = find_kind i (K_Prim PFloat16)"

definition double_type :: "type_interner \<Rightarrow> type_id option" where
  "double_type i = find_kind i (K_Prim PDouble)"

definition string_type :: "type_interner \<Rightarrow> type_id option" where
  "string_type i = find_kind i (K_Prim PString)"

definition object_type :: "type_interner \<Rightarrow> type_id option" where
  "object_type i = find_kind i (K_Object)"

definition void_type :: "type_interner \<Rightarrow> type_id option" where
  "void_type i = find_kind i (K_Void)"

definition error_type :: "type_interner \<Rightarrow> type_id option" where
  "error_type i = find_kind i (K_Error)"

definition js_type :: "type_interner \<Rightarrow> type_id option" where
  "js_type i = find_kind i (K_Js)"

definition unwrap_array :: "type_interner \<Rightarrow> type_id \<Rightarrow> type_id option option" where
  "unwrap_array i t =
     map_option (\<lambda>k. case k of K_Array e \<Rightarrow> Some e | _ \<Rightarrow> None) (kind i t)"

definition mark_value_def :: "type_interner \<Rightarrow> def_id \<Rightarrow> type_interner" where
  "mark_value_def i d = i\<lparr>value_defs := insert d (value_defs i)\<rparr>"

definition is_value_def :: "type_interner \<Rightarrow> def_id \<Rightarrow> bool" where
  "is_value_def i d \<longleftrightarrow> d \<in> value_defs i"

definition mark_ref_struct_def :: "type_interner \<Rightarrow> def_id \<Rightarrow> type_interner" where
  "mark_ref_struct_def i d = i\<lparr>ref_struct_defs := insert d (ref_struct_defs i)\<rparr>"

definition is_ref_struct_type :: "type_interner \<Rightarrow> type_id \<Rightarrow> bool option" where
  "is_ref_struct_type i t =
     map_option (\<lambda>k. case k of K_Struct d _ \<Rightarrow> d \<in> ref_struct_defs i | _ \<Rightarrow> False) (kind i t)"

definition mark_shared_def :: "type_interner \<Rightarrow> def_id \<Rightarrow> type_interner" where
  "mark_shared_def i d = i\<lparr>shared_defs := insert d (shared_defs i)\<rparr>"

definition is_shared_type :: "type_interner \<Rightarrow> type_id \<Rightarrow> bool option" where
  "is_shared_type i t =
     map_option (\<lambda>k. case k of K_Struct d _ \<Rightarrow> d \<in> shared_defs i | _ \<Rightarrow> False) (kind i t)"

definition mark_static_def :: "type_interner \<Rightarrow> def_id \<Rightarrow> type_interner" where
  "mark_static_def i d = i\<lparr>static_defs := insert d (static_defs i)\<rparr>"

definition is_static_type :: "type_interner \<Rightarrow> type_id \<Rightarrow> bool option" where
  "is_static_type i t =
     map_option (\<lambda>k. case k of K_Struct d _ \<Rightarrow> d \<in> static_defs i | _ \<Rightarrow> False) (kind i t)"

definition mark_value_union :: "type_interner \<Rightarrow> type_id \<Rightarrow> type_interner" where
  "mark_value_union i t = i\<lparr>value_unions := insert t (value_unions i)\<rparr>"

definition mark_niche_union :: "type_interner \<Rightarrow> type_id \<Rightarrow> type_interner" where
  "mark_niche_union i t = i\<lparr>niche_unions := insert t (niche_unions i)\<rparr>"

definition is_niche_union :: "type_interner \<Rightarrow> type_id \<Rightarrow> bool" where
  "is_niche_union i t \<longleftrightarrow> t \<in> niche_unions i"

definition is_value_type :: "type_interner \<Rightarrow> type_id \<Rightarrow> bool option" where
  "is_value_type i t =
     (if t \<in> value_unions i then Some True
      else map_option (\<lambda>k. case k of
             K_Tuple _ \<Rightarrow> True
           | K_Struct d _ \<Rightarrow> d \<in> value_defs i
           | _ \<Rightarrow> False) (kind i t))"

definition is_reference :: "type_interner \<Rightarrow> type_id \<Rightarrow> bool option" where
  "is_reference i t =
     (if t \<in> value_unions i then Some False
      else map_option (\<lambda>k. case k of
             K_Struct d _ \<Rightarrow> (if d \<in> value_defs i then False else kind_is_reference k)
           | _ \<Rightarrow> kind_is_reference k) (kind i t))"

definition is_rc_tracked :: "type_interner \<Rightarrow> type_id \<Rightarrow> bool option" where
  "is_rc_tracked i t =
     do {
       r \<leftarrow> is_reference i t;
       if r then Some True else map_option (\<lambda>k. k = K_Js) (kind i t)
     }"

section \<open>Widening, assignability and overload viability\<close>

definition numeric_widen :: "prim_ty \<Rightarrow> prim_ty \<Rightarrow> bool" where
  "numeric_widen from to \<longleftrightarrow>
     (from, to) \<in>
       {(PByte, PInt), (PByte, PISize), (PByte, PUSize), (PInt, PISize), (PUInt, PUSize),
        (PISize, PLong), (PUSize, PULong), (PISize, PFloat), (PISize, PDouble),
        (PUSize, PFloat), (PUSize, PDouble), (PByte, PUInt), (PByte, PLong), (PByte, PULong),
        (PByte, PFloat), (PByte, PDouble), (PInt, PLong), (PInt, PFloat), (PInt, PDouble),
        (PUInt, PLong), (PUInt, PULong), (PUInt, PFloat), (PUInt, PDouble), (PLong, PFloat),
        (PLong, PDouble), (PULong, PFloat), (PULong, PDouble), (PFloat, PDouble),
        (PFloat16, PFloat), (PFloat16, PDouble)}"

definition is_enum_int_pair :: "ty_kind \<Rightarrow> ty_kind \<Rightarrow> bool" where
  "is_enum_int_pair a b =
     (case (a, b) of
        (K_Enum _, K_Prim PInt) \<Rightarrow> True
      | (K_Prim PInt, K_Enum _) \<Rightarrow> True
      | _ \<Rightarrow> False)"

definition is_prim_or_struct :: "ty_kind \<Rightarrow> bool" where
  "is_prim_or_struct k = (case k of K_Prim _ \<Rightarrow> True | K_Struct _ _ \<Rightarrow> True | _ \<Rightarrow> False)"

text \<open>\<open>Iterator::all\<close> over a predicate that may panic: it stops at the first failure.\<close>

fun all_opt :: "('a \<Rightarrow> bool option) \<Rightarrow> 'a list \<Rightarrow> bool option" where
  "all_opt p [] = Some True"
| "all_opt p (x # xs) = do { b \<leftarrow> p x; if b then all_opt p xs else Some False }"

text \<open>
  Assignability descends into tuples. The recursion has no bound in the source, so the model
  spends fuel; \<open>assignable\<close> gives it one unit per interned type and one more, and
  \<open>assignable_total\<close> shows that this is enough.
\<close>

fun assignable_fuel :: "nat \<Rightarrow> type_interner \<Rightarrow> type_id \<Rightarrow> type_id \<Rightarrow> bool option" where
  "assignable_fuel 0 i target value = None"
| "assignable_fuel (Suc n) i target value =
     (if target = value then Some True
      else do {
        tk \<leftarrow> kind i target;
        vk \<leftarrow> kind i value;
        if tk = K_Error \<or> vk = K_Error then Some True
        else if tk = K_Object then Some True
        else if tk = K_Js then Some (is_prim_or_struct vk)
        else if vk = K_Js then Some (is_prim_or_struct tk)
        else if is_enum_int_pair tk vk then Some True
        else (case (vk, tk) of
            (K_Prim f, K_Prim t) \<Rightarrow> Some (numeric_widen f t)
          | (K_Tuple v_elems, K_Tuple t_elems) \<Rightarrow>
              (if length t_elems = length v_elems
               then all_opt (\<lambda>(t, v). assignable_fuel n i t v) (zip t_elems v_elems)
               else Some False)
          | _ \<Rightarrow> Some False)
      })"

definition assignable :: "type_interner \<Rightarrow> type_id \<Rightarrow> type_id \<Rightarrow> bool option" where
  "assignable i target value = assignable_fuel (Suc (length (kinds i))) i target value"

definition overload_compatible :: "type_interner \<Rightarrow> type_id \<Rightarrow> type_id \<Rightarrow> bool option" where
  "overload_compatible i param arg =
     (if param = arg then Some True
      else do {
        pk \<leftarrow> kind i param;
        ak \<leftarrow> kind i arg;
        if pk = K_Error \<or> ak = K_Error then Some True
        else if pk = K_Object then Some True
        else if is_enum_int_pair pk ak then Some True
        else (case (pk, ak) of
            (K_Prim p, K_Prim a) \<Rightarrow> Some (prim_is_numeric p \<and> prim_is_numeric a)
          | _ \<Rightarrow> Some False)
      })"

section \<open>Primitive types\<close>

lemma prim_from_name_name [simp]: "prim_from_name (prim_name p) = Some p"
  by (cases p) (simp_all add: prim_from_name_def)

lemma prim_name_from_name: "prim_from_name s = Some p \<Longrightarrow> s = prim_name p"
  by (auto simp: prim_from_name_def split: if_splits)

lemma numeric_widen_irrefl: "\<not> numeric_widen p p"
  by (cases p) (simp_all add: numeric_widen_def)

lemma numeric_widen_trans: "numeric_widen p q \<Longrightarrow> numeric_widen q r \<Longrightarrow> numeric_widen p r"
  unfolding numeric_widen_def by (cases p; cases q; simp; cases r; simp)

lemma numeric_widen_numeric: "numeric_widen p q \<Longrightarrow> prim_is_numeric p \<and> prim_is_numeric q"
  by (auto simp: numeric_widen_def prim_is_numeric_def)

section \<open>The interner keeps its two tables inverse\<close>

definition interner_ok :: "type_interner \<Rightarrow> bool" where
  "interner_ok i \<longleftrightarrow>
     length (kinds i) \<le> 2 ^ 32 \<and>
     (\<forall>k t. dedup i k = Some t \<longleftrightarrow> t < length (kinds i) \<and> kinds i ! t = k)"

lemma interner_ok_empty: "interner_ok interner_empty"
  by (simp add: interner_ok_def interner_empty_def)

lemma interner_ok_inj:
  "interner_ok i \<Longrightarrow> a < length (kinds i) \<Longrightarrow> b < length (kinds i) \<Longrightarrow>
     kinds i ! a = kinds i ! b \<Longrightarrow> a = b"
  unfolding interner_ok_def by (metis option.inject)

lemma interner_ok_intern:
  assumes "interner_ok i" and "length (kinds i) < 2 ^ 32"
  shows "interner_ok (fst (intern i k))"
proof (cases "dedup i k")
  case None
  then have new: "\<And>t. t < length (kinds i) \<Longrightarrow> kinds i ! t \<noteq> k"
    using assms(1) by (metis interner_ok_def option.distinct(1))
  from assms None show ?thesis
    by (auto simp: intern_def interner_ok_def Let_def nth_append less_Suc_eq new)
next
  case (Some t)
  with assms show ?thesis by (simp add: intern_def)
qed

lemma intern_kind:
  assumes "interner_ok i" and "length (kinds i) < 2 ^ 32"
  shows "kind (fst (intern i k)) (snd (intern i k)) = Some k"
proof (cases "dedup i k")
  case None
  with assms show ?thesis by (simp add: intern_def kind_def Let_def nth_opt_def)
next
  case (Some t)
  then have "t < length (kinds i) \<and> kinds i ! t = k"
    using assms(1) by (simp add: interner_ok_def)
  with Some show ?thesis by (simp add: intern_def kind_def)
qed

lemma intern_keeps_kinds:
  "kind i t = Some k \<Longrightarrow> kind (fst (intern i k')) t = Some k"
  by (auto simp: intern_def kind_def Let_def nth_opt_def nth_append split: option.splits if_splits)

lemma intern_again:
  assumes "interner_ok i" and "length (kinds i) < 2 ^ 32"
  shows "intern (fst (intern i k)) k = (fst (intern i k), snd (intern i k))"
  by (cases "dedup i k") (simp_all add: intern_def Let_def)

lemma length_intern: "length (kinds (fst (intern i k))) \<le> Suc (length (kinds i))"
  by (simp add: intern_def Let_def split: option.splits)

lemma interner_ok_fold:
  assumes "interner_ok i" and "length (kinds i) + length ks \<le> 2 ^ 32"
  shows "interner_ok (foldl (\<lambda>i k. fst (intern i k)) i ks)"
  using assms
proof (induction ks arbitrary: i)
  case Nil
  then show ?case by simp
next
  case (Cons k ks)
  have "interner_ok (fst (intern i k))"
    using Cons.prems by (intro interner_ok_intern) auto
  moreover have "length (kinds (fst (intern i k))) + length ks \<le> 2 ^ 32"
    using length_intern[of i k] Cons.prems(2) by simp
  ultimately show ?case using Cons.IH by simp
qed

lemma interner_ok_new: "interner_ok interner_new"
  unfolding interner_new_def
  by (rule interner_ok_fold[OF interner_ok_empty]) (simp add: interner_empty_def preinterned_def)

section \<open>The relations never panic on interned types\<close>

text \<open>A tuple can only be interned once its element types are, so its elements have smaller ids.\<close>

definition kind_below :: "nat \<Rightarrow> ty_kind \<Rightarrow> bool" where
  "kind_below n k = (case k of K_Tuple es \<Rightarrow> (\<forall>e \<in> set es. e < n) | _ \<Rightarrow> True)"

definition tuples_ok :: "type_interner \<Rightarrow> bool" where
  "tuples_ok i \<longleftrightarrow> (\<forall>t < length (kinds i). kind_below t (kinds i ! t))"

lemma tuples_ok_intern:
  "tuples_ok i \<Longrightarrow> kind_below (length (kinds i)) k \<Longrightarrow> tuples_ok (fst (intern i k))"
  by (auto simp: tuples_ok_def intern_def Let_def nth_append less_Suc_eq split: option.splits)

lemma tuples_ok_new: "tuples_ok interner_new"
  by (simp add: tuples_ok_def interner_new_def preinterned_def interner_empty_def intern_def
      kind_below_def less_Suc_eq nth_Cons split: nat.splits)

lemma tuples_okD:
  "tuples_ok i \<Longrightarrow> t < length (kinds i) \<Longrightarrow> kinds i ! t = K_Tuple es \<Longrightarrow> e \<in> set es \<Longrightarrow> e < t"
  by (force simp: tuples_ok_def kind_below_def)

lemma all_opt_total: "(\<And>x. x \<in> set xs \<Longrightarrow> p x \<noteq> None) \<Longrightarrow> all_opt p xs \<noteq> None"
proof (induction xs)
  case (Cons x xs)
  then obtain b where "p x = Some b" by auto
  with Cons show ?case by auto
qed simp

lemma assignable_fuel_returns:
  assumes "tuples_ok i" and "target < length (kinds i)" and "value < length (kinds i)"
    and "target < n"
  shows "assignable_fuel n i target value \<noteq> None"
  using assms(2-)
proof (induction n arbitrary: target "value")
  case 0
  then show ?case by simp
next
  case (Suc n)
  have rec: "all_opt (\<lambda>(t, v). assignable_fuel n i t v) (zip ts vs) \<noteq> None"
    if k: "kinds i ! target = K_Tuple ts" "kinds i ! value = K_Tuple vs" for ts vs
  proof (rule all_opt_total)
    fix x assume x: "x \<in> set (zip ts vs)"
    then have tv: "fst x \<in> set ts" "snd x \<in> set vs"
      by (metis prod.collapse set_zip_leftD, metis prod.collapse set_zip_rightD)
    have "fst x < target" "snd x < value" using tuples_okD[OF assms(1)] k tv Suc.prems by auto
    then show "(case x of (t, v) \<Rightarrow> assignable_fuel n i t v) \<noteq> None"
      using Suc.IH[of "fst x" "snd x"] Suc.prems by (auto simp: case_prod_beta)
  qed
  then show ?case
    using Suc.prems by (auto simp: kind_def split: ty_kind.splits)
qed

lemma assignable_total:
  assumes "tuples_ok i" and "target < length (kinds i)" and "value < length (kinds i)"
  shows "assignable i target value \<noteq> None"
  unfolding assignable_def using assms by (intro assignable_fuel_returns) auto

section \<open>The pre-interned types are always found\<close>

lemma intern_keeps_dedup: "dedup i k = Some t \<Longrightarrow> dedup (fst (intern i k')) k = Some t"
  by (auto simp: intern_def Let_def split: option.splits)

lemma intern_finds: "dedup (fst (intern i k)) k \<noteq> None"
  by (auto simp: intern_def Let_def split: option.splits)

lemma fold_intern_keeps: "dedup i k = Some t \<Longrightarrow> dedup (foldl (\<lambda>i k. fst (intern i k)) i ks) k = Some t"
  by (induction ks arbitrary: i) (auto dest: intern_keeps_dedup)

lemma fold_intern_finds: "k \<in> set ks \<Longrightarrow> dedup (foldl (\<lambda>i k. fst (intern i k)) i ks) k \<noteq> None"
proof (induction ks arbitrary: i)
  case (Cons k' ks)
  show ?case
  proof (cases "k = k'")
    case True
    from intern_finds[of i k'] obtain t where "dedup (fst (intern i k')) k' = Some t" by auto
    from fold_intern_keeps[OF this, of ks] True show ?thesis by simp
  qed (use Cons in simp)
qed simp

lemma preinterned_found:
  assumes "k \<in> set preinterned"
  shows "find_kind (foldl (\<lambda>i k. fst (intern i k)) interner_new ks) k = find_kind interner_new k"
    and "find_kind interner_new k \<noteq> None"
proof -
  show "find_kind interner_new k \<noteq> None"
    using fold_intern_finds[OF assms] by (simp add: find_kind_def interner_new_def)
  then show "find_kind (foldl (\<lambda>i k. fst (intern i k)) interner_new ks) k = find_kind interner_new k"
    using fold_intern_keeps[of interner_new k] by (auto simp: find_kind_def)
qed

section \<open>Properties\<close>

text \<open>
  C35: interning returns an id whose kind is the interned one, keeps the kind of every id handed out
  before, is idempotent (the same kind gets the same id and nothing grows), and keeps the two tables
  inverse to each other. The id is a 32-bit index, so the table must not be full.
\<close>

theorem intern_contract:
  assumes "interner_ok i" "length (kinds i) < 2 ^ 32" "intern i k = (j, t)"
  shows "interner_ok j \<and> kind j t = Some k \<and> (\<forall>u k'. kind i u = Some k' \<longrightarrow> kind j u = Some k') \<and>
    intern j k = (j, t)"
proof -
  have j: "j = fst (intern i k)" "t = snd (intern i k)" using assms(3) by simp_all
  have "interner_ok (foldl (\<lambda>i k. fst (intern i k)) i [k])"
    using assms(1,2) by (intro interner_ok_fold) simp_all
  then show ?thesis
    using intern_kind[OF assms(1,2)] intern_again[OF assms(1,2)] intern_keeps_kinds by (simp add: j)
qed

theorem intern_contract_witness:
  "interner_ok (fst (intern interner_empty (K_Array 0))) \<and>
     kind (fst (intern interner_empty (K_Array 0))) 0 = Some (K_Array 0)"
  using intern_contract[OF interner_ok_empty, of "K_Array 0" "fst (intern interner_empty (K_Array 0))" 0]
  by (simp add: interner_empty_def intern_def)

text \<open>
  The accessors of the pre-interned types never panic: whatever is interned after the interner
  was created, looking up a pre-interned kind returns the id it got at creation, which is not the
  panic.
\<close>

theorem preinterned_stable:
  assumes "k \<in> set preinterned"
  shows "find_kind interner_new k \<noteq> None \<and>
    find_kind (foldl (\<lambda>i k. fst (intern i k)) interner_new ks) k = find_kind interner_new k"
  using preinterned_found[OF assms] by simp

theorem preinterned_stable_witness:
  "K_Prim PString \<in> set preinterned \<and>
     find_kind (foldl (\<lambda>i k. fst (intern i k)) interner_new [K_Array 3, K_Prim PString]) (K_Prim PString) \<noteq> None"
  using preinterned_stable[of "K_Prim PString" "[K_Array 3, K_Prim PString]"] by (simp add: preinterned_def)

text \<open>
  C36: assignability returns on every pair of interned types. Its recursion into the element types
  of tuples ends because a tuple can only be interned after its elements.
\<close>

theorem assignable_returns:
  assumes "tuples_ok i" "target < length (kinds i)" "value < length (kinds i)"
  shows "assignable i target value \<noteq> None"
  using assms by (rule assignable_total)

theorem assignable_returns_witness:
  "tuples_ok (interner_empty\<lparr>kinds := [K_Prim PInt, K_Tuple [0, 0]]\<rparr>) \<and>
     assignable (interner_empty\<lparr>kinds := [K_Prim PInt, K_Tuple [0, 0]]\<rparr>) 1 1 \<noteq> None"
proof -
  have "tuples_ok (interner_empty\<lparr>kinds := [K_Prim PInt, K_Tuple [0, 0]]\<rparr>)"
    by (auto simp: tuples_ok_def kind_below_def less_Suc_eq)
  with assignable_returns[OF this, of 1 1] show ?thesis by simp
qed

text \<open>
  C37: implicit numeric widening is a strict order on the numeric primitive types: no type widens to
  itself, and widening twice is widening once.
\<close>

theorem numeric_widen_order:
  "\<not> numeric_widen p p \<and> (numeric_widen p q \<and> numeric_widen q r \<longrightarrow> numeric_widen p r) \<and>
   (numeric_widen p q \<longrightarrow> prim_is_numeric p \<and> prim_is_numeric q)"
  using numeric_widen_irrefl numeric_widen_trans numeric_widen_numeric by blast

theorem numeric_widen_order_witness: "numeric_widen PByte PInt \<and> numeric_widen PInt PDouble \<and> numeric_widen PByte PDouble"
proof -
  have "numeric_widen PByte PInt" "numeric_widen PInt PDouble" by (simp_all add: numeric_widen_def)
  with numeric_widen_order[of PByte PInt PDouble] show ?thesis by simp
qed

text \<open>
  Parsing a primitive type's name is inverse to printing it: a string is the name of a
  primitive exactly when it is the one the primitive prints.
\<close>

theorem prim_name_roundtrip: "prim_from_name s = Some p \<longleftrightarrow> s = prim_name p"
  using prim_name_from_name[of s p] by auto

end
