(* ===== verification/Mir_Syntax.thy ===== *)
theory Mir_Syntax
  imports Dream_Types "HOL-Library.Word"
begin

text \<open>
  The mid-level intermediate representation of \<open>crates/dream-mir/src/lib.rs\<close>: places, operands,
  constants, rvalues, statements, terminators, blocks and functions, with the operator
  vocabulary of \<open>crates/dream-hir/src/ops.rs\<close>. Every constructor of the source is a constructor
  here, with the fields in the source's order. Block, local and global ids are positions in the
  vectors of a function (the source's \<open>u32\<close> newtypes; a vector with more than \<open>2^32\<close> entries is
  not addressable by them), integer payloads are the \<open>i64\<close> values of the source as \<open>int\<close>, and
  floating-point payloads are their IEEE bit patterns. The theory also holds \<open>valid_cfg\<close>, the
  structural check of the MIR verifier (\<open>verify/mod.rs\<close>).
\<close>

type_synonym block_id = nat
type_synonym local = nat
type_synonym global = nat

section \<open>Operators\<close>

datatype bin_op =
    B_Add | B_Sub | B_Mul | B_Div | B_Rem
  | B_Eq | B_Ne | B_Lt | B_Le | B_Gt | B_Ge
  | B_And | B_Or
  | B_BitAnd | B_BitOr | B_BitXor | B_Shl | B_Shr

definition is_comparison :: "bin_op \<Rightarrow> bool" where
  "is_comparison op \<longleftrightarrow> op \<in> {B_Eq, B_Ne, B_Lt, B_Le, B_Gt, B_Ge}"

definition is_logical :: "bin_op \<Rightarrow> bool" where
  "is_logical op \<longleftrightarrow> op \<in> {B_And, B_Or}"

datatype un_op = U_Neg | U_Not | U_BitNot

datatype simd_lane = L_I8 | L_I32 | L_I64 | L_F32 | L_F64

section \<open>Constants, places and operands\<close>

datatype const =
    C_Int int
  | C_Long int
  | C_Float "64 word"
  | C_F32 "32 word"
  | C_F16 "16 word"
  | C_Bool bool
  | C_Char nat
  | C_Str string
  | C_Null

datatype place =
    P_Local local
  | P_Global global
  | P_Field local nat
  | P_Index local operand bool
  | P_Deref local type_id
and operand =
    O_Copy place
  | O_Const const

definition place_index :: "local \<Rightarrow> operand \<Rightarrow> place" where
  "place_index base idx = P_Index base idx False"

definition place_index_unchecked :: "local \<Rightarrow> operand \<Rightarrow> place" where
  "place_index_unchecked base idx = P_Index base idx True"

section \<open>Call targets\<close>

record new_ctor =
  nc_def :: def_id
  nc_take_params :: "bool list"
  nc_field_init :: bool

record callee =
  ca_borrowed_result :: bool
  ca_def :: def_id
  ca_args :: "type_id list"
  ca_ret :: type_id
  ca_take_params :: "bool list"

section \<open>Rvalues\<close>

datatype rvalue =
    R_RawLoad operand type_id
  | R_Zero type_id
  | R_ObservedLoad operand
  | R_Use operand
  | R_Move local "(type_id \<times> type_id) option"
  | R_Select operand operand operand
  | R_Binary bin_op operand operand
  | R_Unary un_op operand
  | R_CheckedBinary bin_op operand operand
  | R_CheckedNeg operand
  | R_StrLen operand
  | R_StrByteSize operand
  | R_CharAt operand operand bool
  | R_ByteAt operand operand bool
  | R_StrBytes operand
  | R_LoadU8 operand operand "operand option"
  | R_LoadU16 operand operand "operand option"
  | R_ArrayNew type_id operand bool
  | R_HashCode operand
  | R_ToString operand
  | R_Concat "operand list"
  | R_ConcatInt operand operand operand
  | R_EnumName operand "(int \<times> string) list"
  | R_Call callee "operand list"
  | R_IndirectCall operand type_id "operand list"
  | R_InterfaceCall operand nat nat type_id "operand list" type_id
  | R_FuncRef callee
  | R_New def_id type_id "new_ctor option" "operand list"
  | R_Tuple type_id "operand list"
  | R_UnionNew def_id type_id nat "operand list"
  | R_ArrayLit type_id "operand list"
  | R_ArrayLen operand
  | R_ToBytes operand type_id bool
  | R_FromBytes operand type_id bool
  | R_ArrayRealloc type_id operand operand
  | R_ArraySlotTake type_id operand operand
  | R_Cast operand type_id type_id
  | R_Discriminant operand type_id
  | R_UnionField operand type_id nat nat
  | R_IsType operand type_id
  | R_TypeName operand
  | R_JsCall callee operand "operand option" "operand option" "(operand \<times> type_id) list"

section \<open>Statements and terminators\<close>

datatype statement =
    S_RawStore operand operand type_id
  | S_Assign place rvalue
  | S_Retain operand
  | S_Release operand
  | S_Panic operand
  | S_Call callee "operand list"
  | S_JsCall callee operand "operand option" "operand option" "(operand \<times> type_id) list"
  | S_InterfaceCall operand nat nat type_id "operand list"
  | S_IndirectCall operand type_id "operand list"
  | S_Print operand type_id bool
  | S_Nop
  | S_DebugLine nat
  | S_SourceLine nat
  | S_ArrayElemsCopy type_id operand operand operand operand operand
  | S_ArrayElemsFill type_id operand operand operand
  | S_ArraySlotSwap type_id operand operand operand operand
  | S_ForceFree operand
  | S_LockAcquire operand
  | S_LockRelease operand
  | S_DeferEnter
  | S_DeferLeave operand
  | S_RegionEnter
  | S_RegionLeave
  | S_SimdV128 simd_lane bin_op operand operand operand operand "operand option" bool
  | S_ValueDrop local
  | S_ValueRetain local
  | S_ValueKill local

datatype terminator =
    T_Goto block_id
  | T_If operand block_id block_id
  | T_Switch operand "(int \<times> block_id) list" block_id
  | T_Return "operand option"
  | T_AsyncComplete "operand option"
  | T_Await operand "local option" block_id
  | T_TailCall callee "operand list"
  | T_Unreachable

fun successors :: "terminator \<Rightarrow> block_id list" where
  "successors (T_Goto b) = [b]"
| "successors (T_If c then_blk else_blk) = [then_blk, else_blk]"
| "successors (T_Switch v targets dflt) = map snd targets @ [dflt]"
| "successors (T_Await future dest resume) = [resume]"
| "successors (T_Return v) = []"
| "successors (T_AsyncComplete v) = []"
| "successors (T_TailCall c args) = []"
| "successors T_Unreachable = []"

section \<open>Blocks and functions\<close>

record basic_block =
  stmts :: "statement list"
  term_of :: terminator

definition default_block :: basic_block where
  "default_block = \<lparr>stmts = [], term_of = T_Unreachable\<rparr>"

record local_decl =
  ld_ty :: type_id
  ld_name :: "string option"
  ld_is_ref :: bool
  ld_is_take :: bool
  ld_is_cursor :: bool
  ld_manual_drop :: bool
  ld_borrows_refs :: bool

datatype inline_hint = Inline_Default | Inline_Prefer | Inline_Never

text \<open>
  A function. The typed HIR function an asynchronous function carries along
  (\<open>hir_fn\<close>) is opaque to every operation modelled here and is left out.
\<close>

record mir_function =
  fn_borrowed_result :: bool
  fn_def :: def_id
  fn_symbol :: string
  fn_instance :: "type_id list"
  fn_name :: string
  fn_params :: "local list"
  fn_ret :: type_id
  fn_locals :: "local_decl list"
  fn_blocks :: "basic_block list"
  fn_entry :: block_id
  fn_is_async :: bool
  fn_file :: "string option"
  fn_inline :: inline_hint

definition block :: "mir_function \<Rightarrow> block_id \<Rightarrow> basic_block option" where
  "block f b = nth_opt (fn_blocks f) b"

definition local_ty :: "mir_function \<Rightarrow> local \<Rightarrow> type_id option" where
  "local_ty f l = map_option ld_ty (nth_opt (fn_locals f) l)"

section \<open>The structural check of the verifier\<close>

text \<open>The two messages of the check; the source renders them as text.\<close>

datatype cfg_message = Entry_does_not_exist | Successor_does_not_exist block_id

record violation =
  v_func :: string
  v_block :: nat
  v_stmt :: nat
  v_msg :: cfg_message

definition entry_violations :: "mir_function \<Rightarrow> violation list" where
  "entry_violations f =
     (if length (fn_blocks f) \<le> fn_entry f
      then [\<lparr>v_func = fn_name f, v_block = fn_entry f, v_stmt = 0, v_msg = Entry_does_not_exist\<rparr>]
      else [])"

definition successor_violations :: "mir_function \<Rightarrow> nat \<times> basic_block \<Rightarrow> violation list" where
  "successor_violations f = (\<lambda>(bi, blk).
     map (\<lambda>t. \<lparr>v_func = fn_name f, v_block = bi, v_stmt = length (stmts blk), v_msg = Successor_does_not_exist t\<rparr>)
       (filter (\<lambda>t. length (fn_blocks f) \<le> t) (successors (term_of blk))))"

definition valid_cfg :: "mir_function \<Rightarrow> bool \<times> violation list" where
  "valid_cfg f =
     (let out = entry_violations f
        @ concat (map (successor_violations f) (enumerate 0 (fn_blocks f)))
      in (out = [], out))"

section \<open>Well-formed control flow\<close>

text \<open>\<open>cfg_ok\<close> is what a function satisfies when the verifier accepts its control flow.\<close>

definition cfg_ok :: "mir_function \<Rightarrow> bool" where
  "cfg_ok f \<longleftrightarrow>
     fn_entry f < length (fn_blocks f) \<and>
     (\<forall>blk \<in> set (fn_blocks f). \<forall>t \<in> set (successors (term_of blk)). t < length (fn_blocks f))"

lemma valid_cfg_iff: "fst (valid_cfg f) \<longleftrightarrow> cfg_ok f"
proof -
  have "(\<forall>p \<in> set (enumerate 0 (fn_blocks f)). successor_violations f p = []) \<longleftrightarrow>
    (\<forall>blk \<in> set (fn_blocks f). \<forall>t \<in> set (successors (term_of blk)). t < length (fn_blocks f))"
    (is "?l \<longleftrightarrow> ?r")
  proof -
    have "?l \<longleftrightarrow> (\<forall>i < length (fn_blocks f). successor_violations f (i, fn_blocks f ! i) = [])"
      by (force simp: in_set_enumerate_eq)
    also have "\<dots> \<longleftrightarrow> ?r"
      by (auto simp: successor_violations_def filter_empty_conv not_le all_set_conv_all_nth)
    finally show ?thesis .
  qed
  then show ?thesis
    by (auto simp: valid_cfg_def cfg_ok_def entry_violations_def Let_def not_le)
qed

lemma cfg_ok_entry [simp]: "cfg_ok f \<Longrightarrow> fn_entry f < length (fn_blocks f)"
  by (simp add: cfg_ok_def)

lemma cfg_ok_successor:
  "cfg_ok f \<Longrightarrow> b < length (fn_blocks f) \<Longrightarrow> t \<in> set (successors (term_of (fn_blocks f ! b))) \<Longrightarrow>
     t < length (fn_blocks f)"
  by (auto simp: cfg_ok_def)

lemma block_Some_iff: "block f b = Some blk \<longleftrightarrow> b < length (fn_blocks f) \<and> fn_blocks f ! b = blk"
  by (simp add: block_def nth_opt_Some_iff)

section \<open>Paths\<close>

definition cfg_edge :: "mir_function \<Rightarrow> block_id \<Rightarrow> block_id \<Rightarrow> bool" where
  "cfg_edge f a b \<longleftrightarrow> a < length (fn_blocks f) \<and> b \<in> set (successors (term_of (fn_blocks f ! a)))"

definition reachable :: "mir_function \<Rightarrow> block_id set" where
  "reachable f = {b. (cfg_edge f)\<^sup>*\<^sup>* (fn_entry f) b}"

lemma reachable_entry [simp]: "fn_entry f \<in> reachable f"
  by (simp add: reachable_def)

lemma reachable_edge: "a \<in> reachable f \<Longrightarrow> cfg_edge f a b \<Longrightarrow> b \<in> reachable f"
  by (auto simp: reachable_def)

lemma reachable_in_range: "cfg_ok f \<Longrightarrow> b \<in> reachable f \<Longrightarrow> b < length (fn_blocks f)"
  unfolding reachable_def mem_Collect_eq
  by (erule rtranclp_induct) (auto simp: cfg_edge_def intro: cfg_ok_successor)

section \<open>Sample functions\<close>

text \<open>A function with the given types of locals and blocks, entered at block 0.\<close>

definition sample_function :: "type_id list \<Rightarrow> basic_block list \<Rightarrow> mir_function" where
  "sample_function tys bs =
     \<lparr>fn_borrowed_result = False, fn_def = def_root 0, fn_symbol = ''f'', fn_instance = [],
      fn_name = ''f'', fn_params = [], fn_ret = 0,
      fn_locals = map (\<lambda>t. \<lparr>ld_ty = t, ld_name = None, ld_is_ref = False, ld_is_take = False,
        ld_is_cursor = False, ld_manual_drop = False, ld_borrows_refs = False\<rparr>) tys,
      fn_blocks = bs, fn_entry = 0, fn_is_async = False, fn_file = None, fn_inline = Inline_Default\<rparr>"

abbreviation int_lit :: "int \<Rightarrow> operand" where "int_lit v \<equiv> O_Const (C_Int v)"
abbreviation var :: "local \<Rightarrow> operand" where "var l \<equiv> O_Copy (P_Local l)"
abbreviation mk_block :: "statement list \<Rightarrow> terminator \<Rightarrow> basic_block" where
  "mk_block ss t \<equiv> \<lparr>stmts = ss, term_of = t\<rparr>"

section \<open>Properties\<close>

text \<open>
  The control-flow verifier accepts a function exactly when the entry and every successor of
  every block name an existing block, and it reports a violation exactly when it rejects.
\<close>

theorem valid_cfg_exact:
  "(fst (valid_cfg f) \<longleftrightarrow> cfg_ok f) \<and> (snd (valid_cfg f) = [] \<longleftrightarrow> cfg_ok f)"
  using valid_cfg_iff[of f] by (simp add: valid_cfg_def Let_def)

end
