(* ===== verification/Mir_Cfg.thy ===== *)
theory Mir_Cfg
  imports Mir_Syntax
begin

text \<open>
  The shared control-flow analyses of \<open>crates/dream-mir/src/passes/cfg.rs\<close>: predecessors, the
  reverse postorder of an iterative depth-first search, the dominator and postdominator trees of
  Cooper, Harvey and Kennedy, and natural loops. The two trees run the same search and the same
  iteration, once on the graph and once on its reverse with a synthetic exit, so both are stated
  once over the successor function and the predecessor lists. Loops without an evident bound are
  partial functions. The lemmas show that the predecessor lists are the edges of the graph, that
  the search ends and lists exactly the reachable blocks, once each, entry first, every other block
  after one of its predecessors, that the body of a loop is the set of blocks that reach its latch
  without passing the header, and that the walk to a common ancestor ends in the nearest one.
\<close>

section \<open>Predecessors\<close>

definition edges :: "mir_function \<Rightarrow> (block_id \<times> block_id) list" where
  "edges f = concat (map (\<lambda>(i, b). map (\<lambda>s. (i, s)) (successors (term_of b))) (enumerate 0 (fn_blocks f)))"

definition push_at :: "'a list list \<Rightarrow> nat \<times> 'a \<Rightarrow> 'a list list option" where
  "push_at xss = (\<lambda>(i, x). do { xs \<leftarrow> nth_opt xss i; upd_opt xss i (xs @ [x]) })"

definition predecessors :: "mir_function \<Rightarrow> block_id list list option" where
  "predecessors f =
     foldM push_at (replicate (length (fn_blocks f)) []) (map (\<lambda>(i, s). (s, i)) (edges f))"

section \<open>Depth-first search\<close>

text \<open>
  The frames of the explicit stack are a block and a cursor into its successors; \<open>post\<close> grows by
  the finished blocks.
\<close>

partial_function (option) dfs_loop ::
  "(block_id \<Rightarrow> block_id list option) \<Rightarrow> bool list \<Rightarrow> (block_id \<times> nat) list \<Rightarrow> block_id list \<Rightarrow> block_id list option" where
  "dfs_loop succs visited stack post =
     (case stack of
        [] \<Rightarrow> Some post
      | (b, cursor) # rest \<Rightarrow>
          Option.bind (succs b) (\<lambda>ss.
            if cursor < length ss
            then Option.bind (nth_opt visited (ss ! cursor)) (\<lambda>v.
              if \<not> v then dfs_loop succs (visited[ss ! cursor := True]) ((ss ! cursor, 0) # (b, Suc cursor) # rest) post
              else dfs_loop succs visited ((b, Suc cursor) # rest) post)
            else dfs_loop succs visited rest (post @ [b])))"

declare dfs_loop.simps [code]

definition search :: "(block_id \<Rightarrow> block_id list option) \<Rightarrow> nat \<Rightarrow> block_id \<Rightarrow> block_id list option" where
  "search succs n start =
     Option.bind (upd_opt (replicate n False) start True)
       (\<lambda>visited. map_option rev (dfs_loop succs visited [(start, 0)] []))"

definition block_succs :: "mir_function \<Rightarrow> block_id \<Rightarrow> block_id list option" where
  "block_succs f b = map_option (\<lambda>k. successors (term_of k)) (block f b)"

definition reverse_postorder :: "mir_function \<Rightarrow> block_id list option" where
  "reverse_postorder f = search (block_succs f) (length (fn_blocks f)) (fn_entry f)"

section \<open>Dominator trees\<close>

record dom_tree =
  dt_idom :: "block_id option list"
  dt_rpo_index :: "nat list"

definition rpo_unreachable :: nat where
  "rpo_unreachable = 2 ^ 32 - 1"

text \<open>The inner loops of \<open>intersect\<close>: one finger climbs until its index is not larger.\<close>

partial_function (option) climb :: "block_id option list \<Rightarrow> nat list \<Rightarrow> block_id \<Rightarrow> block_id \<Rightarrow> block_id option" where
  "climb idom idx a b =
     Option.bind (nth_opt idx a) (\<lambda>ia. Option.bind (nth_opt idx b) (\<lambda>ib.
       if ib < ia
       then Option.bind (nth_opt idom a) (\<lambda>p. Option.bind p (\<lambda>a'. climb idom idx a' b))
       else Some a))"

declare climb.simps [code]

partial_function (option) intersect :: "block_id option list \<Rightarrow> nat list \<Rightarrow> block_id \<Rightarrow> block_id \<Rightarrow> block_id option" where
  "intersect idom idx a b =
     (if a = b then Some a
      else Option.bind (climb idom idx a b) (\<lambda>a'.
        Option.bind (climb idom idx b a') (\<lambda>b'. intersect idom idx a' b')))"

declare intersect.simps [code]

definition index_order :: "nat \<Rightarrow> block_id list \<Rightarrow> nat list option" where
  "index_order n rpo =
     foldM (\<lambda>idx (i, b). upd_opt idx b i) (replicate n rpo_unreachable) (enumerate 0 rpo)"

text \<open>The meet over the predecessors that already have a dominator.\<close>

definition meet_preds ::
  "block_id option list \<Rightarrow> nat list \<Rightarrow> block_id list \<Rightarrow> block_id option option" where
  "meet_preds idom idx ps =
     foldM (\<lambda>acc p. do {
         d \<leftarrow> nth_opt idom p;
         if d = None then Some acc
         else (case acc of
                 None \<Rightarrow> Some (Some p)
               | Some cur \<Rightarrow> map_option Some (intersect idom idx p cur))
       }) None ps"

definition dom_visit ::
  "block_id \<Rightarrow> block_id list list \<Rightarrow> nat list \<Rightarrow> block_id option list \<times> bool \<Rightarrow> block_id \<Rightarrow>
     (block_id option list \<times> bool) option" where
  "dom_visit root preds idx st b =
     (let (idom, changed) = st in
      if b = root then Some st
      else do {
        ps \<leftarrow> nth_opt preds b;
        new_idom \<leftarrow> meet_preds idom idx ps;
        old \<leftarrow> nth_opt idom b;
        Some (if old \<noteq> new_idom then (idom[b := new_idom], True) else (idom, changed))
      })"

partial_function (option) dom_loop ::
  "block_id \<Rightarrow> block_id list list \<Rightarrow> block_id list \<Rightarrow> nat list \<Rightarrow> block_id option list \<Rightarrow> block_id option list option" where
  "dom_loop root preds rpo idx idom =
     Option.bind (foldM (dom_visit root preds idx) (idom, False) rpo) (\<lambda>st.
       if snd st then dom_loop root preds rpo idx (fst st) else Some (fst st))"

declare dom_loop.simps [code]

definition dominator_tree ::
  "nat \<Rightarrow> block_id \<Rightarrow> block_id list list \<Rightarrow> block_id list \<Rightarrow> dom_tree option" where
  "dominator_tree n root preds rpo =
     do {
       idx \<leftarrow> index_order n rpo;
       idom0 \<leftarrow> upd_opt (replicate n None) root (Some root);
       idom \<leftarrow> dom_loop root preds rpo idx idom0;
       Some \<lparr>dt_idom = idom, dt_rpo_index = idx\<rparr>
     }"

definition dom_compute :: "mir_function \<Rightarrow> block_id list list \<Rightarrow> block_id list \<Rightarrow> dom_tree option" where
  "dom_compute f preds rpo = dominator_tree (length (fn_blocks f)) (fn_entry f) preds rpo"

definition idom_of :: "dom_tree \<Rightarrow> block_id \<Rightarrow> block_id option option" where
  "idom_of t b = nth_opt (dt_idom t) b"

partial_function (option) dominates_from :: "block_id option list \<Rightarrow> block_id \<Rightarrow> block_id \<Rightarrow> bool option" where
  "dominates_from idom a cur =
     (if cur = a then Some True
      else Option.bind (nth_opt idom cur) (\<lambda>d.
        case d of
          Some nxt \<Rightarrow> (if nxt \<noteq> cur then dominates_from idom a nxt else Some False)
        | None \<Rightarrow> Some False))"

declare dominates_from.simps [code]

definition dominates :: "dom_tree \<Rightarrow> block_id \<Rightarrow> block_id \<Rightarrow> bool option" where
  "dominates t a b =
     do {
       i \<leftarrow> nth_opt (dt_rpo_index t) b;
       if i = rpo_unreachable then Some (a = b) else dominates_from (dt_idom t) a b
     }"

section \<open>Postdominators\<close>

definition is_exit_terminator :: "terminator \<Rightarrow> bool" where
  "is_exit_terminator t =
     (case t of
        T_Return _ \<Rightarrow> True | T_Unreachable \<Rightarrow> True | T_AsyncComplete _ \<Rightarrow> True | T_TailCall _ _ \<Rightarrow> True
      | _ \<Rightarrow> False)"

record post_dom_tree =
  pd_ipdom :: "block_id option list"
  pd_rpo_index :: "nat list"
  pd_exit :: block_id

text \<open>The reverse edges in the order the source adds them; \<open>n\<close> is the synthetic exit.\<close>

definition reverse_edges :: "mir_function \<Rightarrow> (block_id \<times> block_id) list" where
  "reverse_edges f =
     (let n = length (fn_blocks f) in
      concat (map (\<lambda>(i, b).
          (if successors (term_of b) = [] \<or> is_exit_terminator (term_of b) then [(n, i)] else [])
          @ map (\<lambda>s. (s, i)) (successors (term_of b))) (enumerate 0 (fn_blocks f))))"

definition post_dom_new :: "mir_function \<Rightarrow> post_dom_tree option" where
  "post_dom_new f =
     (let n = length (fn_blocks f); exit = n in
      do {
        rev_succs \<leftarrow> foldM push_at (replicate (Suc n) []) (reverse_edges f);
        rev_preds \<leftarrow> foldM push_at (replicate (Suc n) []) (map (\<lambda>(s, i). (i, s)) (reverse_edges f));
        post \<leftarrow> search (nth_opt rev_succs) (Suc n) exit;
        t \<leftarrow> dominator_tree (Suc n) exit rev_preds post;
        Some \<lparr>pd_ipdom = dt_idom t, pd_rpo_index = dt_rpo_index t, pd_exit = exit\<rparr>
      })"

partial_function (option) postdominates_from ::
  "block_id option list \<Rightarrow> block_id \<Rightarrow> block_id \<Rightarrow> block_id \<Rightarrow> bool option" where
  "postdominates_from ipdom exit a cur =
     Option.bind (nth_opt ipdom cur) (\<lambda>d.
       case d of
         Some nxt \<Rightarrow>
           (if nxt = cur then Some False
            else if nxt = a then Some True
            else if nxt = exit then Some False
            else postdominates_from ipdom exit a nxt)
       | None \<Rightarrow> Some False)"

declare postdominates_from.simps [code]

definition postdominates :: "post_dom_tree \<Rightarrow> block_id \<Rightarrow> block_id \<Rightarrow> bool option" where
  "postdominates t a b =
     (if a = b then Some True
      else if length (pd_rpo_index t) \<le> b \<or> pd_rpo_index t ! b = rpo_unreachable then Some False
      else postdominates_from (pd_ipdom t) (pd_exit t) a b)"

section \<open>Natural loops\<close>

record natural_loop =
  nl_header :: block_id
  nl_body :: "block_id set"
  nl_latches :: "block_id list"

text \<open>The inner loop: the predecessors that are new to the body are pushed on the stack.\<close>

fun visit_preds :: "block_id set \<Rightarrow> block_id list \<Rightarrow> block_id list \<Rightarrow> block_id set \<times> block_id list" where
  "visit_preds body stack [] = (body, stack)"
| "visit_preds body stack (p # ps) =
     (if p \<in> body then visit_preds body stack ps else visit_preds (insert p body) (p # stack) ps)"

partial_function (option) body_loop :: "block_id list list \<Rightarrow> block_id set \<Rightarrow> block_id list \<Rightarrow> block_id set option" where
  "body_loop preds body stack =
     (case stack of
        [] \<Rightarrow> Some body
      | x # rest \<Rightarrow>
          Option.bind (nth_opt preds x) (\<lambda>ps.
            let r = visit_preds body rest ps in body_loop preds (fst r) (snd r)))"

declare body_loop.simps [code]

definition loop_body :: "block_id list list \<Rightarrow> block_id \<Rightarrow> block_id \<Rightarrow> block_id set option" where
  "loop_body preds header tail =
     (if tail \<noteq> header then body_loop preds {tail, header} [tail] else Some {header})"

definition add_loop :: "natural_loop list \<Rightarrow> block_id \<Rightarrow> block_id set \<Rightarrow> block_id \<Rightarrow> natural_loop list" where
  "add_loop loops header body tail =
     (if list_ex (\<lambda>l. nl_header l = header) loops
      then map (\<lambda>l. if nl_header l = header
             then l\<lparr>nl_body := nl_body l \<union> body, nl_latches := nl_latches l @ [tail]\<rparr> else l) loops
      else loops @ [\<lparr>nl_header = header, nl_body = body, nl_latches = [tail]\<rparr>])"

definition natural_loops ::
  "mir_function \<Rightarrow> block_id list list \<Rightarrow> dom_tree \<Rightarrow> natural_loop list option" where
  "natural_loops f preds dt =
     map_option (sort_key nl_header)
       (foldM (\<lambda>loops (tail, header). do {
           d \<leftarrow> dominates dt header tail;
           if \<not> d then Some loops
           else map_option (\<lambda>body. add_loop loops header body tail) (loop_body preds header tail)
         }) [] (edges f))"

section \<open>The predecessor lists are the edges\<close>

lemma push_at_fold:
  "\<forall>(i, x) \<in> set es. i < length xss \<Longrightarrow>
     \<exists>yss. foldM push_at xss es = Some yss \<and> length yss = length xss \<and>
       (\<forall>i < length xss. yss ! i = xss ! i @ map snd (filter (\<lambda>e. fst e = i) es))"
proof (induction es arbitrary: xss)
  case (Cons e es)
  obtain i x where e: "e = (i, x)" by fastforce
  with Cons.prems have i: "i < length xss" by simp
  let ?xss = "xss[i := xss ! i @ [x]]"
  from Cons.IH[of ?xss] Cons.prems obtain yss where y: "foldM push_at ?xss es = Some yss"
    "length yss = length xss"
    "\<forall>j < length xss. yss ! j = ?xss ! j @ map snd (filter (\<lambda>e. fst e = j) es)" by auto
  have "push_at xss e = Some ?xss" using i by (simp add: push_at_def e)
  with y i show ?case by (auto simp: e nth_list_update)
qed simp

lemma set_edges: "(a, b) \<in> set (edges f) \<longleftrightarrow> cfg_edge f a b"
  by (force simp: edges_def cfg_edge_def in_set_enumerate_eq)

lemma predecessors_total:
  assumes "cfg_ok f"
  shows "\<exists>P. predecessors f = Some P \<and> length P = length (fn_blocks f) \<and>
    (\<forall>b < length (fn_blocks f). set (P ! b) = {a. cfg_edge f a b})"
proof -
  have "\<forall>(s, i) \<in> set (map (\<lambda>(i, s). (s, i)) (edges f)). s < length (replicate (length (fn_blocks f)) ([] :: block_id list))"
    using assms by (auto simp: set_edges cfg_edge_def intro: cfg_ok_successor)
  from push_at_fold[OF this] obtain P where P: "predecessors f = Some P" "length P = length (fn_blocks f)"
    "\<forall>b < length (fn_blocks f). P ! b = map snd (filter (\<lambda>e. fst e = b) (map (\<lambda>(i, s). (s, i)) (edges f)))"
    by (auto simp: predecessors_def)
  have "set (map snd (filter (\<lambda>e. fst e = b) (map (\<lambda>(i, s). (s, i)) (edges f)))) = {a. cfg_edge f a b}" for b
    by (force simp: set_edges[symmetric])
  with P show ?thesis by auto
qed

section \<open>The search lists the reachable blocks\<close>

definition succs_ok :: "(block_id \<Rightarrow> block_id list option) \<Rightarrow> nat \<Rightarrow> bool" where
  "succs_ok succs n \<longleftrightarrow> (\<forall>b < n. \<exists>ss. succs b = Some ss \<and> (\<forall>s \<in> set ss. s < n))"

definition edge_of :: "(block_id \<Rightarrow> block_id list option) \<Rightarrow> block_id \<Rightarrow> block_id \<Rightarrow> bool" where
  "edge_of succs a b \<longleftrightarrow> (\<exists>ss. succs a = Some ss \<and> b \<in> set ss)"

text \<open>The state of the search: finished blocks, the path to the current one, what was seen.\<close>

definition seen :: "block_id list \<Rightarrow> (block_id \<times> nat) list \<Rightarrow> block_id set" where
  "seen post stack = set post \<union> fst ` set stack"

definition dfs_inv ::
  "(block_id \<Rightarrow> block_id list option) \<Rightarrow> nat \<Rightarrow> block_id \<Rightarrow> bool list \<Rightarrow> (block_id \<times> nat) list \<Rightarrow> block_id list \<Rightarrow> bool" where
  "dfs_inv succs n start visited stack post \<longleftrightarrow>
     (length visited = n \<and> distinct (post @ map fst stack)) \<and>
     (\<forall>b. b < n \<and> visited ! b \<longleftrightarrow> b \<in> seen post stack) \<and>
     (\<forall>b \<in> set post. \<forall>s. edge_of succs b s \<longrightarrow> s \<in> seen post stack) \<and>
     (\<forall>(b, c) \<in> set stack. \<forall>ss. succs b = Some ss \<longrightarrow> set (take c ss) \<subseteq> seen post stack) \<and>
     (\<forall>b \<in> seen post stack. (edge_of succs)\<^sup>*\<^sup>* start b) \<and>
     (if stack = [] then post \<noteq> [] \<and> last post = start else fst (last stack) = start) \<and>
     (\<forall>i. Suc i < length stack \<longrightarrow> edge_of succs (fst (stack ! Suc i)) (fst (stack ! i))) \<and>
     (\<forall>i < length post. post ! i \<noteq> start \<longrightarrow>
        (\<exists>j. i < j \<and> j < length post \<and> edge_of succs (post ! j) (post ! i)) \<or>
        (\<exists>a \<in> fst ` set stack. edge_of succs a (post ! i)))"

lemma dfs_invD:
  assumes "dfs_inv succs n start visited stack post"
  shows "length visited = n" "distinct (post @ map fst stack)"
    "b < n \<and> visited ! b \<longleftrightarrow> b \<in> seen post stack"
    "b \<in> set post \<Longrightarrow> edge_of succs b s \<Longrightarrow> s \<in> seen post stack"
    "(b, c) \<in> set stack \<Longrightarrow> succs b = Some ss \<Longrightarrow> set (take c ss) \<subseteq> seen post stack"
    "b \<in> seen post stack \<Longrightarrow> (edge_of succs)\<^sup>*\<^sup>* start b"
    "if stack = [] then post \<noteq> [] \<and> last post = start else fst (last stack) = start"
    "Suc i < length stack \<Longrightarrow> edge_of succs (fst (stack ! Suc i)) (fst (stack ! i))"
    "i < length post \<Longrightarrow> post ! i \<noteq> start \<Longrightarrow>
        (\<exists>j. i < j \<and> j < length post \<and> edge_of succs (post ! j) (post ! i)) \<or>
        (\<exists>a \<in> fst ` set stack. edge_of succs a (post ! i))"
  using assms unfolding dfs_inv_def by blast+

lemma dfs_invI:
  assumes "length visited = n" "distinct (post @ map fst stack)"
    "\<And>b. b < n \<and> visited ! b \<longleftrightarrow> b \<in> seen post stack"
    "\<And>b s. b \<in> set post \<Longrightarrow> edge_of succs b s \<Longrightarrow> s \<in> seen post stack"
    "\<And>b c ss. (b, c) \<in> set stack \<Longrightarrow> succs b = Some ss \<Longrightarrow> set (take c ss) \<subseteq> seen post stack"
    "\<And>b. b \<in> seen post stack \<Longrightarrow> (edge_of succs)\<^sup>*\<^sup>* start b"
    "if stack = [] then post \<noteq> [] \<and> last post = start else fst (last stack) = start"
    "\<And>i. Suc i < length stack \<Longrightarrow> edge_of succs (fst (stack ! Suc i)) (fst (stack ! i))"
    "\<And>i. i < length post \<Longrightarrow> post ! i \<noteq> start \<Longrightarrow>
        (\<exists>j. i < j \<and> j < length post \<and> edge_of succs (post ! j) (post ! i)) \<or>
        (\<exists>a \<in> fst ` set stack. edge_of succs a (post ! i))"
  shows "dfs_inv succs n start visited stack post"
  unfolding dfs_inv_def using assms by blast

lemma dfs_inv_start:
  assumes "start < n"
  shows "dfs_inv succs n start ((replicate n False)[start := True]) [(start, 0)] []"
  using assms by (intro dfs_invI) (auto simp: nth_list_update seen_def)

lemma dfs_inv_advance:
  assumes inv: "dfs_inv succs n start visited ((b, c) # rest) post"
    and ss: "succs b = Some ss" "c < length ss" "ss ! c \<in> seen post ((b, c) # rest)"
  shows "dfs_inv succs n start visited ((b, Suc c) # rest) post"
proof -
  note d = dfs_invD[OF inv]
  have sn: "seen post ((b, Suc c) # rest) = seen post ((b, c) # rest)" by (simp add: seen_def)
  have fs: "fst ` set ((b, Suc c) # rest) = fst ` set ((b, c) # rest)" by simp
  have nth: "fst (((b, Suc c) # rest) ! i) = fst (((b, c) # rest) ! i)" for i by (cases i) simp_all
  show ?thesis
  proof (rule dfs_invI)
    fix b' c' ss' assume bc: "(b', c') \<in> set ((b, Suc c) # rest)" "succs b' = Some ss'"
    show "set (take c' ss') \<subseteq> seen post ((b, Suc c) # rest)"
    proof (cases "(b', c') = (b, Suc c)")
      case True
      with bc(2) ss d(5)[of b c ss] show ?thesis by (simp add: sn take_Suc_conv_app_nth)
    next
      case False
      with bc d(5)[of b' c' ss'] show ?thesis by (auto simp: sn)
    qed
  next
    show "if (b, Suc c) # rest = [] then post \<noteq> [] \<and> last post = start else fst (last ((b, Suc c) # rest)) = start"
      using d(7) by (simp split: if_splits)
  next
    fix i assume "Suc i < length ((b, Suc c) # rest)"
    then show "edge_of succs (fst (((b, Suc c) # rest) ! Suc i)) (fst (((b, Suc c) # rest) ! i))"
      using d(8)[of i] unfolding nth by simp
  qed (use d(1,2,3,4,6,9) sn fs in simp_all)
qed

lemma dfs_inv_push:
  assumes inv: "dfs_inv succs n start visited ((b, c) # rest) post"
    and ss: "edge_of succs b x" "x < n" "\<not> visited ! x"
  shows "dfs_inv succs n start (visited[x := True]) ((x, 0) # (b, c) # rest) post"
proof -
  note d = dfs_invD[OF inv]
  have sn: "seen post ((x, 0) # (b, c) # rest) = insert x (seen post ((b, c) # rest))" by (auto simp: seen_def)
  have new: "x \<notin> seen post ((b, c) # rest)" using d(3)[of x] ss(2,3) by simp
  show ?thesis
  proof (rule dfs_invI)
    show "distinct (post @ map fst ((x, 0) # (b, c) # rest))" using d(2) new by (auto simp: seen_def)
    show "y < n \<and> visited[x := True] ! y \<longleftrightarrow> y \<in> seen post ((x, 0) # (b, c) # rest)" for y
      using d(1) d(3)[of y] ss(2) unfolding sn by (cases "y = x") auto
    show "set (take c' ss') \<subseteq> seen post ((x, 0) # (b, c) # rest)"
      if "(b', c') \<in> set ((x, 0) # (b, c) # rest)" "succs b' = Some ss'" for b' c' ss'
    proof (cases "(b', c') = (x, 0)")
      case False
      with that(1) have "(b', c') \<in> set ((b, c) # rest)" by auto
      from d(5)[OF this that(2)] show ?thesis unfolding sn by blast
    qed simp
    have "(edge_of succs)\<^sup>*\<^sup>* start b" using d(6)[of b] by (simp add: seen_def)
    then show "(edge_of succs)\<^sup>*\<^sup>* start y" if "y \<in> seen post ((x, 0) # (b, c) # rest)" for y
      using that d(6)[of y] ss(1) unfolding sn by (auto intro: rtranclp.rtrancl_into_rtrancl)
    show "edge_of succs (fst (((x, 0) # (b, c) # rest) ! Suc i)) (fst (((x, 0) # (b, c) # rest) ! i))"
      if "Suc i < length ((x, 0) # (b, c) # rest)" for i
      using that d(8)[of "i - 1"] ss(1) by (cases i) simp_all
  qed (use d(1,4,7,9) sn in auto)
qed

lemma dfs_inv_push_next:
  assumes inv: "dfs_inv succs n start visited ((ss ! c, 0) # (b, c) # rest) post"
    and ss: "succs b = Some ss" "c < length ss"
  shows "dfs_inv succs n start visited ((ss ! c, 0) # (b, Suc c) # rest) post"
proof -
  note d = dfs_invD[OF inv]
  let ?s = "(ss ! c, 0) # (b, c) # rest" and ?t = "(ss ! c, 0) # (b, Suc c) # rest"
  have sn: "seen post ?t = seen post ?s" by (simp add: seen_def)
  have fs: "fst ` set ?t = fst ` set ?s" and fm: "map fst ?t = map fst ?s" by simp_all
  have nth: "fst (?t ! i) = fst (?s ! i)" if "i < length ?t" for i
    using that fm by (metis length_map nth_map length_Cons)
  show ?thesis
  proof (rule dfs_invI)
    show "set (take c' ss') \<subseteq> seen post ?t" if "(b', c') \<in> set ?t" "succs b' = Some ss'" for b' c' ss'
    proof (cases "(b', c') = (b, Suc c)")
      case True
      have "ss ! c \<in> seen post ?s" by (simp add: seen_def)
      moreover have "set (take c' ss') = insert (ss ! c) (set (take c ss))"
        using True that(2) ss by (simp add: take_Suc_conv_app_nth)
      ultimately show ?thesis using d(5)[of b c ss] ss(1) unfolding sn by simp
    next
      case False
      with that d(5)[of b' c' ss'] show ?thesis by (auto simp: sn)
    qed
    show "if ?t = [] then post \<noteq> [] \<and> last post = start else fst (last ?t) = start"
      using d(7) by (simp split: if_splits)
    show "edge_of succs (fst (?t ! Suc i)) (fst (?t ! i))" if "Suc i < length ?t" for i
      using d(8)[of i] that nth[of i] nth[of "Suc i"] by simp
  qed (use d(1,2,3,4,6,9) sn fs in simp_all)
qed

lemma dfs_inv_pop:
  assumes inv: "dfs_inv succs n start visited ((b, c) # rest) post"
    and ss: "succs b = Some ss" "length ss \<le> c"
  shows "dfs_inv succs n start visited rest (post @ [b])"
proof -
  note d = dfs_invD[OF inv]
  have sn: "seen (post @ [b]) rest = seen post ((b, c) # rest)" by (auto simp: seen_def)
  have parent: "rest \<noteq> [] \<Longrightarrow> edge_of succs (fst (hd rest)) b" using d(8)[of 0] by (cases rest) auto
  have root: "rest = [] \<Longrightarrow> b = start" using d(7) by simp
  show ?thesis
  proof (rule dfs_invI)
    show "length visited = n" by (rule d(1))
    show "distinct ((post @ [b]) @ map fst rest)" using d(2) by simp
    show "y < n \<and> visited ! y \<longleftrightarrow> y \<in> seen (post @ [b]) rest" for y unfolding sn by (rule d(3))
    show "s \<in> seen (post @ [b]) rest" if "y \<in> set (post @ [b])" "edge_of succs y s" for y s
      using that d(4)[of y s] d(5)[of b c ss] ss unfolding sn by (auto simp: edge_of_def)
    show "set (take c' ss') \<subseteq> seen (post @ [b]) rest" if "(b', c') \<in> set rest" "succs b' = Some ss'" for b' c' ss'
      using d(5)[of b' c' ss'] that unfolding sn by simp
    show "(edge_of succs)\<^sup>*\<^sup>* start y" if "y \<in> seen (post @ [b]) rest" for y using that d(6) unfolding sn by blast
    show "if rest = [] then post @ [b] \<noteq> [] \<and> last (post @ [b]) = start else fst (last rest) = start"
      using d(7) root by (simp split: if_splits)
    show "edge_of succs (fst (rest ! Suc i)) (fst (rest ! i))" if "Suc i < length rest" for i
      using d(8)[of "Suc i"] that by simp
    fix i assume i: "i < length (post @ [b])" "(post @ [b]) ! i \<noteq> start"
    show "(\<exists>j. i < j \<and> j < length (post @ [b]) \<and> edge_of succs ((post @ [b]) ! j) ((post @ [b]) ! i)) \<or>
        (\<exists>a \<in> fst ` set rest. edge_of succs a ((post @ [b]) ! i))"
    proof (cases "i = length post")
      case True
      with i(2) root parent show ?thesis by (cases rest) auto
    next
      case False
      with i have "i < length post" "post ! i \<noteq> start" by (auto simp: nth_append)
      from d(9)[OF this] \<open>i < length post\<close> show ?thesis
      proof (elim disjE exE conjE)
        fix j assume "i < j" "j < length post" "edge_of succs (post ! j) (post ! i)"
        then show ?thesis using \<open>i < length post\<close> by (intro disjI1 exI[of _ j]) (simp add: nth_append)
      next
        assume "\<exists>a \<in> fst ` set ((b, c) # rest). edge_of succs a (post ! i)"
        then obtain a where a: "a = b \<or> a \<in> fst ` set rest" "edge_of succs a (post ! i)" by auto
        then show ?thesis using \<open>i < length post\<close> by (auto simp: nth_append intro!: exI[of _ "length post"])
      qed
    qed
  qed
qed

abbreviation dfs_measure ::
  "(block_id \<Rightarrow> block_id list option) \<Rightarrow> nat \<Rightarrow> ((bool list \<times> (block_id \<times> nat) list \<times> block_id list) \<Rightarrow> nat) list" where
  "dfs_measure succs n \<equiv>
     [\<lambda>(visited, stack, post). card {b. b < n \<and> \<not> visited ! b},
      \<lambda>(visited, stack, post). sum_list (map (\<lambda>(b, c). case succs b of Some ss \<Rightarrow> length ss - c | None \<Rightarrow> 0) stack),
      \<lambda>(visited, stack, post). length stack]"

lemma visit_measure:
  assumes "x < n" "\<not> visited ! x" "length visited = n"
  shows "card {b. b < n \<and> \<not> visited[x := True] ! b} < card {b. b < n \<and> \<not> visited ! b}"
proof -
  have "{b. b < n \<and> \<not> visited[x := True] ! b} \<subset> {b. b < n \<and> \<not> visited ! b}"
    using assms by (auto simp: nth_list_update split: if_splits)
  then show ?thesis by (intro psubset_card_mono) auto
qed

lemma dfs_loop_total:
  assumes "succs_ok succs n"
  shows "dfs_inv succs n start visited stack post \<Longrightarrow>
    \<exists>post' visited'. dfs_loop succs visited stack post = Some post' \<and> dfs_inv succs n start visited' [] post'"
proof (induction "(visited, stack, post)" arbitrary: visited stack post
    rule: wf_induct_rule[OF wf_measures[of "dfs_measure succs n"]])
  case (1 visited stack post)
  show ?case
  proof (cases stack)
    case Nil
    with "1.prems" show ?thesis by (subst dfs_loop.simps) auto
  next
    case (Cons bc rest)
    obtain b c where bc: "bc = (b, c)" by fastforce
    note inv = "1.prems"[unfolded Cons bc] and d = dfs_invD[OF "1.prems"]
    have b: "b < n" using d(3)[of b] Cons bc by (simp add: seen_def)
    with assms obtain ss where ss: "succs b = Some ss" "\<forall>s \<in> set ss. s < n" by (auto simp: succs_ok_def)
    show ?thesis
    proof (cases "c < length ss")
      case False
      have "dfs_loop succs visited stack post = dfs_loop succs visited rest (post @ [b])"
        using Cons bc ss False by (subst dfs_loop.simps) simp
      moreover have "((visited, rest, post @ [b]), (visited, stack, post)) \<in> measures (dfs_measure succs n)"
        using Cons bc by (auto simp: le_less)
      ultimately show ?thesis using "1.hyps" dfs_inv_pop[OF inv ss(1)] False by fastforce
    next
      case True
      let ?x = "ss ! c"
      have x: "?x < n" "edge_of succs b ?x" using ss True by (auto simp: edge_of_def)
      have loop: "dfs_loop succs visited stack post =
          (if \<not> visited ! ?x then dfs_loop succs (visited[?x := True]) ((?x, 0) # (b, Suc c) # rest) post
           else dfs_loop succs visited ((b, Suc c) # rest) post)"
        using Cons bc ss(1) True x(1) d(1) by (subst dfs_loop.simps) simp
      show ?thesis
      proof (cases "visited ! ?x")
        case vis: True
        then have "?x \<in> seen post ((b, c) # rest)" using d(3)[of ?x] x(1) Cons bc by simp
        from dfs_inv_advance[OF inv ss(1) True this] loop vis "1.hyps"[of visited "(b, Suc c) # rest" post]
        show ?thesis using Cons bc ss(1) True by simp
      next
        case new: False
        have st: "dfs_inv succs n start (visited[?x := True]) ((?x, 0) # (b, c) # rest) post"
          by (rule dfs_inv_push[OF inv x(2,1) new])
        have "dfs_inv succs n start (visited[?x := True]) ((?x, 0) # (b, Suc c) # rest) post"
          using dfs_inv_push_next[OF st ss(1) True] .
        moreover have "((visited[?x := True], (?x, 0) # (b, Suc c) # rest, post), (visited, stack, post))
            \<in> measures (dfs_measure succs n)"
          using visit_measure[OF x(1) new d(1)] by simp
        ultimately show ?thesis using "1.hyps" loop new by fastforce
      qed
    qed
  qed
qed

lemma search_total:
  assumes "succs_ok succs n" "start < n"
  shows "\<exists>rpo. search succs n start = Some rpo \<and> distinct rpo \<and> set rpo = {b. (edge_of succs)\<^sup>*\<^sup>* start b} \<and>
    set rpo \<subseteq> {..<n} \<and> rpo \<noteq> [] \<and> hd rpo = start \<and>
    (\<forall>i < length rpo. rpo ! i \<noteq> start \<longrightarrow> (\<exists>j < i. edge_of succs (rpo ! j) (rpo ! i)))"
proof -
  from dfs_loop_total[OF assms(1) dfs_inv_start[OF assms(2)]] obtain post visited where
    post: "dfs_loop succs ((replicate n False)[start := True]) [(start, 0)] [] = Some post"
    and inv: "dfs_inv succs n start visited [] post" by blast
  note d = dfs_invD[OF inv]
  have sn: "seen post [] = set post" by (simp add: seen_def)
  have "(edge_of succs)\<^sup>*\<^sup>* start b \<Longrightarrow> b \<in> set post" for b
  proof (induction rule: rtranclp_induct)
    case base
    show ?case using d(7) last_in_set by fastforce
  next
    case (step y z)
    then show ?case using d(4)[of y z] sn by simp
  qed
  then have set: "set post = {b. (edge_of succs)\<^sup>*\<^sup>* start b}" using d(6) sn by blast
  have range: "set post \<subseteq> {..<n}" using d(3) sn by auto
  have before: "\<exists>j < i. edge_of succs (rev post ! j) (rev post ! i)"
    if "i < length post" "rev post ! i \<noteq> start" for i
  proof -
    let ?k = "length post - Suc i"
    have k: "?k < length post" "post ! ?k \<noteq> start" using that by (auto simp: rev_nth)
    from d(9)[OF k] obtain j where j: "?k < j" "j < length post" "edge_of succs (post ! j) (post ! ?k)" by auto
    then show ?thesis using that(1)
      by (intro exI[of _ "length post - Suc j"]) (auto simp: rev_nth)
  qed
  have "search succs n start = Some (rev post)" using post assms(2) by (simp add: search_def)
  moreover have "hd (rev post) = start" "rev post \<noteq> []" using d(7) by (auto simp: hd_rev)
  ultimately show ?thesis using d(2) set range before by auto
qed

lemma block_succs_ok: "cfg_ok f \<Longrightarrow> succs_ok (block_succs f) (length (fn_blocks f))"
  by (auto simp: succs_ok_def block_succs_def block_Some_iff intro: cfg_ok_successor)

lemma edge_of_block_succs: "edge_of (block_succs f) a b \<longleftrightarrow> cfg_edge f a b"
  by (auto simp: edge_of_def block_succs_def cfg_edge_def block_Some_iff)

lemma reverse_postorder_total:
  assumes "cfg_ok f"
  shows "\<exists>rpo. reverse_postorder f = Some rpo \<and> distinct rpo \<and> set rpo = {b. (cfg_edge f)\<^sup>*\<^sup>* (fn_entry f) b} \<and>
    set rpo \<subseteq> {..<length (fn_blocks f)} \<and> rpo \<noteq> [] \<and> hd rpo = fn_entry f \<and>
    (\<forall>i < length rpo. rpo ! i \<noteq> fn_entry f \<longrightarrow> (\<exists>j < i. cfg_edge f (rpo ! j) (rpo ! i)))"
proof -
  have "edge_of (block_succs f) = cfg_edge f" by (intro ext edge_of_block_succs)
  with search_total[OF block_succs_ok[OF assms] cfg_ok_entry[OF assms]] show ?thesis
    by (simp add: reverse_postorder_def)
qed

section \<open>The body of a loop\<close>

lemma visit_preds_spec:
  "visit_preds body stack ps = (body', stack') \<Longrightarrow>
     body' = body \<union> set ps \<and> set stack' = set stack \<union> (set ps - body)"
  by (induction ps arbitrary: body stack) (auto split: if_splits)

lemma visit_preds_same: "set ps \<subseteq> body \<Longrightarrow> visit_preds body stack ps = (body, stack)"
  by (induction ps) auto

definition avoiding :: "(block_id \<Rightarrow> block_id \<Rightarrow> bool) \<Rightarrow> block_id \<Rightarrow> block_id \<Rightarrow> block_id \<Rightarrow> bool" where
  "avoiding r h a b \<longleftrightarrow> r a b \<and> a \<noteq> h \<and> b \<noteq> h"

definition body_inv :: "block_id list list \<Rightarrow> block_id \<Rightarrow> block_id \<Rightarrow> block_id set \<Rightarrow> block_id list \<Rightarrow> bool" where
  "body_inv preds h t body stack \<longleftrightarrow>
     {h, t} \<subseteq> body \<and> body \<subseteq> {..<length preds} \<and> set stack \<subseteq> body - {h} \<and>
     (\<forall>x \<in> body - {h}. (avoiding (\<lambda>a b. a \<in> set (preds ! b)) h)\<^sup>*\<^sup>* x t) \<and>
     (\<forall>x \<in> body - {h} - set stack. set (preds ! x) \<subseteq> body)"

lemma body_inv_step:
  assumes inv: "body_inv preds h t body (x # rest)" and ok: "\<forall>ps \<in> set preds. set ps \<subseteq> {..<length preds}"
    and v: "visit_preds body rest (preds ! x) = (body', stack')"
  shows "body_inv preds h t body' stack'"
proof -
  from inv have x: "x \<in> body" "x \<noteq> h" "x < length preds"
    and reach: "\<And>y. y \<in> body - {h} \<Longrightarrow> (avoiding (\<lambda>a b. a \<in> set (preds ! b)) h)\<^sup>*\<^sup>* y t"
    and closed: "\<And>y. y \<in> body - {h} - set (x # rest) \<Longrightarrow> set (preds ! y) \<subseteq> body"
    and b: "{h, t} \<subseteq> body" "body \<subseteq> {..<length preds}" "set rest \<subseteq> body - {h}"
    unfolding body_inv_def by auto
  have bs: "body' = body \<union> set (preds ! x)" "set stack' = set rest \<union> (set (preds ! x) - body)"
    using visit_preds_spec[OF v] by auto
  have "set (preds ! x) \<subseteq> {..<length preds}" using ok x(3) by simp
  moreover have "(avoiding (\<lambda>a b. a \<in> set (preds ! b)) h)\<^sup>*\<^sup>* y t" if "y \<in> body' - {h}" for y
  proof (cases "y \<in> body")
    case False
    with that bs have "avoiding (\<lambda>a b. a \<in> set (preds ! b)) h y x" using x by (simp add: avoiding_def)
    then show ?thesis using reach[of x] x by (meson DiffI converse_rtranclp_into_rtranclp singletonD)
  qed (use that reach in blast)
  moreover have "set (preds ! y) \<subseteq> body'" if "y \<in> body' - {h} - set stack'" for y
    using that closed[of y] bs by (cases "y = x") auto
  moreover have "h \<in> body" using b by simp
  ultimately show ?thesis unfolding body_inv_def using b bs by auto
qed

lemma body_loop_total:
  assumes ok: "\<forall>ps \<in> set preds. set ps \<subseteq> {..<length preds}"
  shows "body_inv preds h t body stack \<Longrightarrow>
    \<exists>B. body_loop preds body stack = Some B \<and> body_inv preds h t B []"
proof (induction "(body, stack)" arbitrary: body stack
    rule: wf_induct_rule[OF wf_measures[of "[\<lambda>(body, stack). card ({..<length preds} - body), \<lambda>(body, stack). length stack]"]])
  case (1 body stack)
  show ?case
  proof (cases stack)
    case Nil
    with "1.prems" show ?thesis by (subst body_loop.simps) simp
  next
    case (Cons x rest)
    note inv = "1.prems"[unfolded Cons]
    have x: "x < length preds" using inv by (auto simp: body_inv_def)
    obtain body' stack' where v: "visit_preds body rest (preds ! x) = (body', stack')" by fastforce
    have "body_loop preds body stack = body_loop preds body' stack'"
      using Cons x v by (subst body_loop.simps) simp
    moreover have "((body', stack'), (body, stack)) \<in> measures
        [\<lambda>(body, stack). card ({..<length preds} - body), \<lambda>(body, stack). length stack]"
    proof (cases "set (preds ! x) \<subseteq> body")
      case True
      with v Cons show ?thesis by (simp add: visit_preds_same)
    next
      case False
      have "set (preds ! x) \<subseteq> {..<length preds}" using ok x by simp
      with False visit_preds_spec[OF v] have "{..<length preds} - body' \<subset> {..<length preds} - body" by auto
      then have "card ({..<length preds} - body') < card ({..<length preds} - body)"
        by (intro psubset_card_mono) auto
      then show ?thesis by simp
    qed
    ultimately show ?thesis using "1.hyps" body_inv_step[OF inv ok v] by simp
  qed
qed

lemma loop_body_total:
  assumes ok: "\<forall>ps \<in> set preds. set ps \<subseteq> {..<length preds}" and "h < length preds" "t < length preds"
  shows "loop_body preds h t = Some (insert h {x. (avoiding (\<lambda>a b. a \<in> set (preds ! b)) h)\<^sup>*\<^sup>* x t})"
proof (cases "t = h")
  case True
  have "(avoiding (\<lambda>a b. a \<in> set (preds ! b)) h)\<^sup>*\<^sup>* x h \<Longrightarrow> x = h" for x
    by (erule rtranclp.cases) (auto simp: avoiding_def)
  with True show ?thesis by (auto simp: loop_body_def)
next
  case False
  have "body_inv preds h t {t, h} [t]" using assms False by (auto simp: body_inv_def)
  from body_loop_total[OF ok this] obtain B where B: "body_loop preds {t, h} [t] = Some B" "body_inv preds h t B []"
    by blast
  have "x \<in> B" if "(avoiding (\<lambda>a b. a \<in> set (preds ! b)) h)\<^sup>*\<^sup>* x t" for x
    using that
  proof (induction rule: converse_rtranclp_induct)
    case base
    then show ?case using B(2) by (simp add: body_inv_def)
  next
    case (step y z)
    then show ?case using B(2) by (auto simp: body_inv_def avoiding_def)
  qed
  then have "B = insert h {x. (avoiding (\<lambda>a b. a \<in> set (preds ! b)) h)\<^sup>*\<^sup>* x t}"
    using B(2) unfolding body_inv_def by auto
  with B(1) False show ?thesis by (simp add: loop_body_def)
qed

section \<open>Properties\<close>

text \<open>A loop of two blocks behind an entry, with an exit.\<close>

definition sample_loop :: mir_function where
  "sample_loop = sample_function []
     [mk_block [] (T_Goto 1), mk_block [] (T_If (O_Const (C_Bool True)) 2 3),
      mk_block [] (T_Goto 1), mk_block [] (T_Return None)]"

lemma sample_loop_ok: "cfg_ok sample_loop"
  by (simp add: sample_loop_def sample_function_def cfg_ok_def)

lemma sample_loop_length [simp]: "length (fn_blocks sample_loop) = 4"
  by (simp add: sample_loop_def sample_function_def)

lemma sample_loop_preds: "predecessors sample_loop = Some [[], [0, 2], [1], [1]]"
  by code_simp

text \<open>
  On a function with valid control flow the predecessor lists are computed, one per block, and
  list exactly the blocks with an edge to it.
\<close>

theorem predecessors_exact:
  assumes "cfg_ok f"
  shows "\<exists>P. predecessors f = Some P \<and> length P = length (fn_blocks f) \<and>
    (\<forall>b < length (fn_blocks f). set (P ! b) = {a. cfg_edge f a b})"
  using assms by (rule predecessors_total)

theorem predecessors_exact_witness: "{a. cfg_edge sample_loop a 1} = {0, 2}"
proof -
  from predecessors_exact[OF sample_loop_ok]
  have all: "\<forall>b < 4. set ([[], [0, 2], [1], [1]] ! b) = {a. cfg_edge sample_loop a b}"
    by (simp add: sample_loop_preds)
  have "(1 :: nat) < 4" by simp
  from all[rule_format, OF this] show ?thesis by simp
qed

text \<open>
  C32: on a function with valid control flow the iterative depth-first search ends; the reverse
  postorder it returns lists exactly the blocks reachable from the entry, each once, the entry
  first, and every other block after at least one of its predecessors.
\<close>

theorem reverse_postorder_exact:
  assumes "cfg_ok f"
  shows "\<exists>rpo. reverse_postorder f = Some rpo \<and> distinct rpo \<and> set rpo = {b. (cfg_edge f)\<^sup>*\<^sup>* (fn_entry f) b} \<and>
    rpo \<noteq> [] \<and> hd rpo = fn_entry f \<and>
    (\<forall>i < length rpo. rpo ! i \<noteq> fn_entry f \<longrightarrow> (\<exists>j < i. cfg_edge f (rpo ! j) (rpo ! i)))"
  using reverse_postorder_total[OF assms] by blast

theorem reverse_postorder_exact_witness:
  "\<exists>rpo. reverse_postorder sample_loop = Some rpo \<and> distinct rpo \<and> hd rpo = 0"
  using reverse_postorder_exact[OF sample_loop_ok] by (auto simp: sample_loop_def sample_function_def)

text \<open>
  The body search of a natural loop ends, and the body is the header together with exactly the
  blocks from which the latch can be reached without passing the header.
\<close>

theorem loop_body_exact:
  assumes "cfg_ok f" "predecessors f = Some P" "h < length (fn_blocks f)" "t < length (fn_blocks f)"
  shows "loop_body P h t = Some (insert h {x. (avoiding (cfg_edge f) h)\<^sup>*\<^sup>* x t})"
proof -
  from predecessors_total[OF assms(1)] assms(2) have P: "length P = length (fn_blocks f)"
    "\<And>b. b < length (fn_blocks f) \<Longrightarrow> set (P ! b) = {a. cfg_edge f a b}" by auto
  have "\<forall>ps \<in> set P. set ps \<subseteq> {..<length P}"
    using P by (force simp: in_set_conv_nth cfg_edge_def)
  from loop_body_total[OF this] assms(3,4) P(1) have
    "loop_body P h t = Some (insert h {x. (avoiding (\<lambda>a b. a \<in> set (P ! b)) h)\<^sup>*\<^sup>* x t})" by simp
  moreover have "(avoiding (\<lambda>a b. a \<in> set (P ! b)) h)\<^sup>*\<^sup>* x t \<longleftrightarrow> (avoiding (cfg_edge f) h)\<^sup>*\<^sup>* x t" for x
  proof
    have e: "cfg_edge f a b \<longleftrightarrow> a \<in> set (P ! b)" if "b < length (fn_blocks f)" for a b using that P(2) by simp
    have mem: "a \<in> set (P ! b)" if "cfg_edge f a b" for a b
    proof -
      have "b < length (fn_blocks f)" using that assms(1) by (auto simp: cfg_edge_def intro: cfg_ok_successor)
      with e that show ?thesis by blast
    qed
    show "(avoiding (cfg_edge f) h)\<^sup>*\<^sup>* x t" if "(avoiding (\<lambda>a b. a \<in> set (P ! b)) h)\<^sup>*\<^sup>* x t"
      using that
    proof (induction rule: converse_rtranclp_induct)
      case (step y z)
      have "z < length (fn_blocks f)"
        using step.IH assms(4) by (cases rule: converse_rtranclpE) (auto simp: avoiding_def cfg_edge_def)
      with step e show ?case by (auto simp: avoiding_def intro: converse_rtranclp_into_rtranclp)
    qed simp
    show "(avoiding (\<lambda>a b. a \<in> set (P ! b)) h)\<^sup>*\<^sup>* x t" if "(avoiding (cfg_edge f) h)\<^sup>*\<^sup>* x t"
      using that by (rule rtranclp_mono[THEN predicate2D, rotated]) (auto simp: avoiding_def mem)
  qed
  ultimately show ?thesis by simp
qed

theorem loop_body_exact_witness:
  "loop_body [[], [0, 2], [1], [1]] 1 2 = Some (insert 1 {x. (avoiding (cfg_edge sample_loop) 1)\<^sup>*\<^sup>* x 2})"
  using loop_body_exact[OF sample_loop_ok sample_loop_preds, of 1 2] by simp

end
