(* ===== verification/Mir_Analyses.thy ===== *)
theory Mir_Analyses
  imports Mir_Cfg
begin

text \<open>
  The function-scoped analysis cache of \<open>crates/dream-mir/src/passes/analyses.rs\<close> and the pass
  interface of \<open>crates/dream-mir/src/passes/mod.rs\<close>. A pass is a record of its name, what it
  preserves and its transformation of a function and the cache; the interner and the layout table
  are fixed during a run and are arguments of the definitions that build a pass. What a pass
  promises is the locale \<open>mir_pass_contract\<close>: a pass that reports no change has made none, a pass
  that declares to preserve control flow does, and it leaves the cache in step with the function.
  The lemmas show that every cached analysis is a function of the control-flow shape alone, that the
  queries on a cache in step with the function return what a fresh computation returns, and that
  for a pass with the contract the assertions of \<open>run_pass\<close> never fire and the cache stays in step.
\<close>

section \<open>The cache\<close>

datatype preserved_analyses = Preserves_None | Preserves_ControlFlow

record function_analyses =
  fa_preds :: "block_id list list option"
  fa_rpo :: "block_id list option"
  fa_dom :: "dom_tree option"
  fa_postdom :: "post_dom_tree option"
  fa_loops :: "natural_loop list option"

definition analyses_default :: function_analyses where
  "analyses_default = \<lparr>fa_preds = None, fa_rpo = None, fa_dom = None, fa_postdom = None, fa_loops = None\<rparr>"

text \<open>A query returns the analysis and the cache, filled where it was empty.\<close>

definition query_predecessors ::
  "function_analyses \<Rightarrow> mir_function \<Rightarrow> (block_id list list \<times> function_analyses) option" where
  "query_predecessors a f =
     (case fa_preds a of
        Some p \<Rightarrow> Some (p, a)
      | None \<Rightarrow> map_option (\<lambda>p. (p, a\<lparr>fa_preds := Some p\<rparr>)) (predecessors f))"

definition query_reverse_postorder ::
  "function_analyses \<Rightarrow> mir_function \<Rightarrow> (block_id list \<times> function_analyses) option" where
  "query_reverse_postorder a f =
     (case fa_rpo a of
        Some r \<Rightarrow> Some (r, a)
      | None \<Rightarrow> map_option (\<lambda>r. (r, a\<lparr>fa_rpo := Some r\<rparr>)) (reverse_postorder f))"

definition query_dominators ::
  "function_analyses \<Rightarrow> mir_function \<Rightarrow> (dom_tree \<times> function_analyses) option" where
  "query_dominators a f =
     (case fa_dom a of
        Some d \<Rightarrow> Some (d, a)
      | None \<Rightarrow>
          do {
            (preds, a1) \<leftarrow> query_predecessors a f;
            (rpo, a2) \<leftarrow> query_reverse_postorder a1 f;
            d \<leftarrow> dom_compute f preds rpo;
            Some (d, a2\<lparr>fa_dom := Some d\<rparr>)
          })"

definition query_postdominators ::
  "function_analyses \<Rightarrow> mir_function \<Rightarrow> (post_dom_tree \<times> function_analyses) option" where
  "query_postdominators a f =
     (case fa_postdom a of
        Some t \<Rightarrow> Some (t, a)
      | None \<Rightarrow> map_option (\<lambda>t. (t, a\<lparr>fa_postdom := Some t\<rparr>)) (post_dom_new f))"

definition query_natural_loops ::
  "function_analyses \<Rightarrow> mir_function \<Rightarrow> (natural_loop list \<times> function_analyses) option" where
  "query_natural_loops a f =
     (case fa_loops a of
        Some ls \<Rightarrow> Some (ls, a)
      | None \<Rightarrow>
          do {
            (preds, a1) \<leftarrow> query_predecessors a f;
            (d, a2) \<leftarrow> query_dominators a1 f;
            ls \<leftarrow> natural_loops f preds d;
            Some (ls, a2\<lparr>fa_loops := Some ls\<rparr>)
          })"

section \<open>Passes\<close>

record mir_pass =
  pass_name :: string
  pass_preserves :: preserved_analyses
  pass_transform :: "mir_function \<Rightarrow> function_analyses \<Rightarrow> (mir_function \<times> bool \<times> function_analyses) option"

record cfg_shape =
  cs_entry :: block_id
  cs_successors :: "block_id list list"

definition cfg_shape_of :: "mir_function \<Rightarrow> cfg_shape" where
  "cfg_shape_of f = \<lparr>cs_entry = fn_entry f, cs_successors = map (\<lambda>b. successors (term_of b)) (fn_blocks f)\<rparr>"

text \<open>
  With \<open>verify\<close> the shape is compared before and after the pass, and a violated assertion is a
  panic.
\<close>

definition run_pass ::
  "bool \<Rightarrow> mir_pass \<Rightarrow> function_analyses \<Rightarrow> mir_function \<Rightarrow> (mir_function \<times> bool \<times> function_analyses) option" where
  "run_pass verify p a f =
     do {
       (g, changed, a') \<leftarrow> pass_transform p f a;
       let cfg_changed = (cfg_shape_of f \<noteq> cfg_shape_of g);
       if verify \<and> cfg_changed \<and> \<not> changed then None
       else if verify \<and> cfg_changed \<and> pass_preserves p \<noteq> Preserves_None then None
       else Some (g, changed,
         if changed \<and> pass_preserves p = Preserves_None then analyses_default else a')
     }"

definition run_with_layouts :: "bool \<Rightarrow> mir_pass \<Rightarrow> mir_function \<Rightarrow> (mir_function \<times> bool) option" where
  "run_with_layouts verify p f =
     map_option (\<lambda>(g, changed, _). (g, changed)) (run_pass verify p analyses_default f)"

section \<open>The analyses depend on the shape alone\<close>

lemma cfg_shape_eqD:
  assumes "cfg_shape_of f = cfg_shape_of g"
  shows "fn_entry f = fn_entry g"
    "map (\<lambda>b. successors (term_of b)) (fn_blocks f) = map (\<lambda>b. successors (term_of b)) (fn_blocks g)"
    "length (fn_blocks f) = length (fn_blocks g)"
  using assms map_eq_imp_length_eq by (auto simp: cfg_shape_of_def)

lemma concat_enumerate_map:
  "concat (map (\<lambda>(i, x). h i (k x)) (enumerate n xs)) = concat (map (\<lambda>(i, y). h i y) (enumerate n (map k xs)))"
  by (induction xs arbitrary: n) simp_all

lemma edges_shape: "edges f = concat (map (\<lambda>(i, ss). map (Pair i) ss) (enumerate 0 (cs_successors (cfg_shape_of f))))"
  unfolding edges_def cfg_shape_of_def cfg_shape.simps
  by (rule concat_enumerate_map[where h = "\<lambda>i. map (Pair i)" and k = "\<lambda>b. successors (term_of b)"])

lemma exit_no_successors: "is_exit_terminator t \<Longrightarrow> successors t = []"
  by (cases t) (auto simp: is_exit_terminator_def)

lemma reverse_edges_shape:
  "reverse_edges f = (let sss = cs_successors (cfg_shape_of f) in
     concat (map (\<lambda>(i, ss). (if ss = [] then [(length sss, i)] else []) @ map (\<lambda>s. (s, i)) ss) (enumerate 0 sss)))"
proof -
  have e: "successors t = [] \<or> is_exit_terminator t \<longleftrightarrow> successors t = []" for t using exit_no_successors by auto
  show ?thesis unfolding reverse_edges_def cfg_shape_of_def cfg_shape.simps Let_def e length_map
    by (rule concat_enumerate_map[where k = "\<lambda>b. successors (term_of b)" and
          h = "\<lambda>i ss. (if ss = [] then [(length (fn_blocks f), i)] else []) @ map (\<lambda>s. (s, i)) ss"])
qed

lemma block_succs_shape: "block_succs f = nth_opt (cs_successors (cfg_shape_of f))"
  by (intro ext) (simp add: block_succs_def cfg_shape_of_def block_def nth_opt_def)

lemma length_shape: "length (fn_blocks f) = length (cs_successors (cfg_shape_of f))"
  and entry_shape: "fn_entry f = cs_entry (cfg_shape_of f)"
  by (simp_all add: cfg_shape_of_def)

lemma analyses_shape:
  assumes "cfg_shape_of f = cfg_shape_of g"
  shows "predecessors f = predecessors g" "reverse_postorder f = reverse_postorder g"
    "dom_compute f = dom_compute g" "post_dom_new f = post_dom_new g" "natural_loops f = natural_loops g"
  using assms
  unfolding predecessors_def reverse_postorder_def dom_compute_def post_dom_new_def natural_loops_def
    edges_shape reverse_edges_shape block_succs_shape length_shape entry_shape by simp_all

section \<open>A cache in step with the function\<close>

text \<open>What the analyses are when nothing is cached.\<close>

definition fresh_dominators :: "mir_function \<Rightarrow> dom_tree option" where
  "fresh_dominators f = do { p \<leftarrow> predecessors f; r \<leftarrow> reverse_postorder f; dom_compute f p r }"

definition fresh_loops :: "mir_function \<Rightarrow> natural_loop list option" where
  "fresh_loops f = do { p \<leftarrow> predecessors f; d \<leftarrow> fresh_dominators f; natural_loops f p d }"

definition in_step :: "function_analyses \<Rightarrow> mir_function \<Rightarrow> bool" where
  "in_step a f \<longleftrightarrow>
     (fa_preds a \<noteq> None \<longrightarrow> fa_preds a = predecessors f) \<and>
     (fa_rpo a \<noteq> None \<longrightarrow> fa_rpo a = reverse_postorder f) \<and>
     (fa_dom a \<noteq> None \<longrightarrow> fa_dom a = fresh_dominators f) \<and>
     (fa_postdom a \<noteq> None \<longrightarrow> fa_postdom a = post_dom_new f) \<and>
     (fa_loops a \<noteq> None \<longrightarrow> fa_loops a = fresh_loops f)"

lemma in_step_default [simp]: "in_step analyses_default f"
  by (simp add: in_step_def analyses_default_def)

lemma in_stepD:
  assumes "in_step a f"
  shows "fa_preds a = Some p \<Longrightarrow> predecessors f = Some p" "fa_rpo a = Some r \<Longrightarrow> reverse_postorder f = Some r"
    "fa_dom a = Some d \<Longrightarrow> fresh_dominators f = Some d" "fa_postdom a = Some t \<Longrightarrow> post_dom_new f = Some t"
    "fa_loops a = Some ls \<Longrightarrow> fresh_loops f = Some ls"
  using assms by (simp_all add: in_step_def)

lemma in_step_shape:
  assumes "cfg_shape_of f = cfg_shape_of g"
  shows "in_step a f \<longleftrightarrow> in_step a g"
  using analyses_shape[OF assms] by (simp add: in_step_def fresh_dominators_def fresh_loops_def)

text \<open>A query answers as a fresh computation does, and leaves the cache in step.\<close>

definition answers :: "mir_function \<Rightarrow> ('r \<times> function_analyses) option \<Rightarrow> 'r option \<Rightarrow> bool" where
  "answers f q fresh \<longleftrightarrow>
     (case q of None \<Rightarrow> fresh = None | Some (r, a) \<Rightarrow> fresh = Some r \<and> in_step a f)"

lemma answers_bind:
  assumes "answers f q fresh" "\<And>r a. fresh = Some r \<Longrightarrow> in_step a f \<Longrightarrow> answers f (k (r, a)) (k' r)"
  shows "answers f (Option.bind q k) (Option.bind fresh k')"
proof (cases q)
  case None
  with assms(1) show ?thesis by (simp add: answers_def)
next
  case (Some ra)
  with assms(1) have "fresh = Some (fst ra)" "in_step (snd ra) f" by (auto simp: answers_def case_prod_beta)
  with Some assms(2)[of "fst ra" "snd ra"] show ?thesis by simp
qed

lemma answers_hit: "in_step a f \<Longrightarrow> fresh = Some r \<Longrightarrow> answers f (Some (r, a)) fresh"
  by (simp add: answers_def)

lemma answers_cached:
  assumes "in_step a f" "\<And>r. x = Some r \<Longrightarrow> fresh = Some r" "\<And>r. fresh = Some r \<Longrightarrow> in_step (put r) f"
  shows "answers f (case x of Some r \<Rightarrow> Some (r, a) | None \<Rightarrow> map_option (\<lambda>r. (r, put r)) fresh) fresh"
  using assms by (cases x; cases fresh) (auto simp: answers_def)

lemma query_predecessors_answers: "in_step a f \<Longrightarrow> answers f (query_predecessors a f) (predecessors f)"
  unfolding query_predecessors_def by (rule answers_cached) (simp_all add: in_stepD, simp add: in_step_def)

lemma query_reverse_postorder_answers:
  "in_step a f \<Longrightarrow> answers f (query_reverse_postorder a f) (reverse_postorder f)"
  unfolding query_reverse_postorder_def by (rule answers_cached) (simp_all add: in_stepD, simp add: in_step_def)

lemma query_postdominators_answers: "in_step a f \<Longrightarrow> answers f (query_postdominators a f) (post_dom_new f)"
  unfolding query_postdominators_def by (rule answers_cached) (simp_all add: in_stepD, simp add: in_step_def)

lemma query_dominators_answers:
  assumes "in_step a f"
  shows "answers f (query_dominators a f) (fresh_dominators f)"
proof (cases "fa_dom a")
  case (Some d)
  with assms show ?thesis by (auto simp: query_dominators_def intro: answers_hit in_stepD)
next
  case None
  have store: "answers f (dom_compute f ps rs \<bind> (\<lambda>d. Some (d, a'\<lparr>fa_dom := Some d\<rparr>))) (dom_compute f ps rs)"
    if "predecessors f = Some ps" "reverse_postorder f = Some rs" "in_step a' f" for ps rs a'
    using that by (cases "dom_compute f ps rs") (auto simp: answers_def in_step_def fresh_dominators_def)
  show ?thesis using assms unfolding query_dominators_def fresh_dominators_def None option.case
    by (auto intro!: answers_bind query_predecessors_answers query_reverse_postorder_answers store)
qed

lemma query_natural_loops_answers:
  assumes "in_step a f"
  shows "answers f (query_natural_loops a f) (fresh_loops f)"
proof (cases "fa_loops a")
  case (Some d)
  with assms show ?thesis by (auto simp: query_natural_loops_def intro: answers_hit in_stepD)
next
  case None
  have store: "answers f (natural_loops f ps d \<bind> (\<lambda>ls. Some (ls, a'\<lparr>fa_loops := Some ls\<rparr>))) (natural_loops f ps d)"
    if "predecessors f = Some ps" "fresh_dominators f = Some d" "in_step a' f" for ps d a'
    using that by (cases "natural_loops f ps d") (auto simp: answers_def in_step_def fresh_loops_def)
  show ?thesis using assms unfolding query_natural_loops_def fresh_loops_def None option.case
    by (auto intro!: answers_bind query_predecessors_answers query_dominators_answers store)
qed

section \<open>The contract of a pass\<close>

locale mir_pass_contract =
  fixes p :: mir_pass
  assumes honest: "in_step a f \<Longrightarrow> pass_transform p f a = Some (g, False, a') \<Longrightarrow> g = f"
    and keeps_shape: "in_step a f \<Longrightarrow> pass_transform p f a = Some (g, c, a') \<Longrightarrow>
      pass_preserves p = Preserves_ControlFlow \<Longrightarrow> cfg_shape_of g = cfg_shape_of f"
    and keeps_step: "in_step a f \<Longrightarrow> pass_transform p f a = Some (g, c, a') \<Longrightarrow>
      c \<longrightarrow> pass_preserves p = Preserves_ControlFlow \<Longrightarrow> in_step a' g"
    and cache_free: "in_step a f \<Longrightarrow> in_step b f \<Longrightarrow>
      map_option (\<lambda>(g, c, _). (g, c)) (pass_transform p f a) = map_option (\<lambda>(g, c, _). (g, c)) (pass_transform p f b)"
begin

text \<open>The assertions of \<open>run_pass\<close> never fire.\<close>

lemma run_pass_no_assert:
  assumes "in_step a f"
  shows "run_pass verify p a f = run_pass False p a f"
proof (cases "pass_transform p f a")
  case None
  then show ?thesis by (simp add: run_pass_def)
next
  case (Some r)
  obtain g c a' where r: "r = (g, c, a')" by (metis prod_cases3)
  have "cfg_shape_of f \<noteq> cfg_shape_of g \<Longrightarrow> c \<and> pass_preserves p = Preserves_None"
    using honest[OF assms, of g a'] keeps_shape[OF assms, of g c a'] Some r by (cases "pass_preserves p"; cases c) auto
  with Some r show ?thesis by (auto simp: run_pass_def Let_def)
qed

lemma run_pass_result:
  assumes "in_step a f" "run_pass verify p a f = Some (g, c, a')"
  shows "in_step a' g" "\<not> c \<Longrightarrow> g = f"
proof -
  from assms(2) obtain a1 where t: "pass_transform p f a = Some (g, c, a1)"
    and a': "a' = (if c \<and> pass_preserves p = Preserves_None then analyses_default else a1)"
    unfolding run_pass_def by (cases "pass_transform p f a") (auto simp: Let_def split: if_split_asm)
  show "\<not> c \<Longrightarrow> g = f" using honest[OF assms(1)] t by simp
  show "in_step a' g"
    using keeps_step[OF assms(1) t] a' by (cases "pass_preserves p") auto
qed

text \<open>Running with a cache in step is running with an empty one.\<close>

lemma run_pass_cache_free:
  assumes "in_step a f"
  shows "map_option (\<lambda>(g, c, _). (g, c)) (run_pass verify p a f) = run_with_layouts verify p f"
proof -
  have e: "map_option (\<lambda>(g, c, _). (g, c)) (run_pass False p b f) =
      map_option (\<lambda>(g, c, _). (g, c)) (pass_transform p f b)" for b
    by (cases "pass_transform p f b") (auto simp: run_pass_def)
  have "map_option (\<lambda>(g, c, _). (g, c)) (run_pass verify p a f) =
      map_option (\<lambda>(g, c, _). (g, c)) (run_pass False p analyses_default f)"
    unfolding run_pass_no_assert[OF assms, of verify] e using cache_free[OF assms in_step_default] .
  then show ?thesis
    unfolding run_with_layouts_def run_pass_no_assert[OF in_step_default, of verify] .
qed

end

section \<open>Passes that do not use the cache\<close>

definition plain_pass ::
  "string \<Rightarrow> preserved_analyses \<Rightarrow> (mir_function \<Rightarrow> (mir_function \<times> bool) option) \<Rightarrow> mir_pass" where
  "plain_pass name preserves t =
     \<lparr>pass_name = name, pass_preserves = preserves,
      pass_transform = (\<lambda>f a. map_option (\<lambda>(g, c). (g, c, a)) (t f))\<rparr>"

lemma plain_pass_simps [simp]:
  "pass_name (plain_pass name preserves t) = name"
  "pass_preserves (plain_pass name preserves t) = preserves"
  "pass_transform (plain_pass name preserves t) f a = map_option (\<lambda>(g, c). (g, c, a)) (t f)"
  by (simp_all add: plain_pass_def)

locale plain_transform =
  fixes name :: string and preserves :: preserved_analyses
    and t :: "mir_function \<Rightarrow> (mir_function \<times> bool) option"
  assumes unchanged: "t f = Some (g, False) \<Longrightarrow> g = f"
    and shape: "preserves = Preserves_ControlFlow \<Longrightarrow> t f = Some (g, c) \<Longrightarrow> cfg_shape_of g = cfg_shape_of f"
begin

sublocale mir_pass_contract "plain_pass name preserves t"
proof unfold_locales
  fix a f g c a'
  assume step: "in_step a f" and tr: "pass_transform (plain_pass name preserves t) f a = Some (g, c, a')"
    and pres: "c \<longrightarrow> pass_preserves (plain_pass name preserves t) = Preserves_ControlFlow"
  from tr have "t f = Some (g, c)" "a' = a" by auto
  moreover from this pres have "cfg_shape_of g = cfg_shape_of f"
    using unchanged[of f g] shape[of f g c] by (cases c) simp_all
  ultimately show "in_step a' g" using step in_step_shape by blast
qed (auto dest: unchanged shape simp: option.map_comp comp_def case_prod_beta)

end

section \<open>Passes that query the cache\<close>

text \<open>
  Such a pass computes from the cache what a reference computes from fresh analyses, and leaves the
  cache in step with the function it was given; it keeps the control flow.
\<close>

definition computes ::
  "mir_function \<Rightarrow> (mir_function \<times> bool \<times> function_analyses) option \<Rightarrow> (mir_function \<times> bool) option \<Rightarrow> bool" where
  "computes f q fresh \<longleftrightarrow>
     (case q of None \<Rightarrow> fresh = None | Some (g, c, a) \<Rightarrow> fresh = Some (g, c) \<and> in_step a f)"

lemma computes_query:
  assumes "answers f q fresh" "\<And>r a. fresh = Some r \<Longrightarrow> in_step a f \<Longrightarrow> computes f (k (r, a)) (k' r)"
  shows "computes f (Option.bind q k) (Option.bind fresh k')"
proof (cases q)
  case None
  with assms(1) show ?thesis by (simp add: answers_def computes_def)
next
  case (Some ra)
  with assms(1) have "fresh = Some (fst ra)" "in_step (snd ra) f" by (auto simp: answers_def case_prod_beta)
  with Some assms(2)[of "fst ra" "snd ra"] show ?thesis by simp
qed

lemma computes_bind: "(\<And>r. computes f (k r) (k' r)) \<Longrightarrow> computes f (Option.bind x k) (Option.bind x k')"
  by (cases x) (simp_all add: computes_def)

lemma computes_done: "in_step a f \<Longrightarrow> computes f (map_option (\<lambda>(g, c). (g, c, a)) x) x"
  by (cases x) (auto simp: computes_def)

locale query_transform =
  fixes name :: string and t :: "mir_function \<Rightarrow> function_analyses \<Rightarrow> (mir_function \<times> bool \<times> function_analyses) option"
    and fresh :: "mir_function \<Rightarrow> (mir_function \<times> bool) option"
  assumes computes: "in_step a f \<Longrightarrow> computes f (t f a) (fresh f)"
    and fresh_unchanged: "fresh f = Some (g, False) \<Longrightarrow> g = f"
    and fresh_shape: "fresh f = Some (g, c) \<Longrightarrow> cfg_shape_of g = cfg_shape_of f"
begin

lemma result: "in_step a f \<Longrightarrow> t f a = Some (g, c, a') \<Longrightarrow> fresh f = Some (g, c) \<and> in_step a' f"
  using computes[of a f] by (simp add: computes_def)

lemma result_iff: "in_step a f \<Longrightarrow> map_option (\<lambda>(g, c, _). (g, c)) (t f a) = fresh f"
  using computes[of a f] by (auto simp: computes_def split: option.splits)

lemma returned:
  assumes "in_step a f" "fresh f = Some (g, c)"
  shows "\<exists>a'. t f a = Some (g, c, a') \<and> in_step a' g"
proof -
  from result_iff[OF assms(1)] assms(2) obtain a' where a': "t f a = Some (g, c, a')" by auto
  with result[OF assms(1) a'] fresh_shape[OF assms(2)] show ?thesis using in_step_shape by blast
qed

sublocale mir_pass_contract "\<lparr>pass_name = name, pass_preserves = Preserves_ControlFlow, pass_transform = t\<rparr>"
proof unfold_locales
  fix a f g c a'
  assume step: "in_step a f" and tr: "pass_transform \<lparr>pass_name = name, pass_preserves = Preserves_ControlFlow, pass_transform = t\<rparr> f a = Some (g, c, a')"
  from result[OF step, of g c a'] tr have r: "fresh f = Some (g, c)" "in_step a' f" by auto
  with fresh_shape[OF r(1)] show "in_step a' g" using in_step_shape by blast
next
  fix a f g a'
  assume "in_step a f" "pass_transform \<lparr>pass_name = name, pass_preserves = Preserves_ControlFlow, pass_transform = t\<rparr> f a = Some (g, False, a')"
  then show "g = f" using result[of a f g False a'] fresh_unchanged by simp
next
  fix a f g c a'
  assume "in_step a f" "pass_transform \<lparr>pass_name = name, pass_preserves = Preserves_ControlFlow, pass_transform = t\<rparr> f a = Some (g, c, a')"
  then show "cfg_shape_of g = cfg_shape_of f" using result[of a f g c a'] fresh_shape by simp
qed (simp add: result_iff)

lemma run_with_layouts_fresh:
  "run_with_layouts False \<lparr>pass_name = name, pass_preserves = Preserves_ControlFlow, pass_transform = t\<rparr> f = fresh f"
proof -
  have "map_option (\<lambda>(g, c, _). (g, c)) (run_pass False \<lparr>pass_name = name, pass_preserves = Preserves_ControlFlow, pass_transform = t\<rparr> analyses_default f) =
      map_option (\<lambda>(g, c, _). (g, c)) (t f analyses_default)"
    by (cases "t f analyses_default") (auto simp: run_pass_def)
  then show ?thesis by (simp add: run_with_layouts_def result_iff)
qed

end

text \<open>The common shape of the passes that rewrite statements one by one.\<close>

definition rewrite_stmts ::
  "(statement \<Rightarrow> (statement \<times> bool) option) \<Rightarrow> mir_function \<Rightarrow> (mir_function \<times> bool) option" where
  "rewrite_stmts t f =
     do {
       (bs, changed) \<leftarrow> map_changed (\<lambda>blk. do { (ss, c) \<leftarrow> map_changed t (stmts blk); Some (blk\<lparr>stmts := ss\<rparr>, c) }) (fn_blocks f);
       Some (f\<lparr>fn_blocks := bs\<rparr>, changed)
     }"

lemma rewrite_stmts_shape:
  assumes "rewrite_stmts t f = Some (g, c)"
  shows "cfg_shape_of g = cfg_shape_of f" "length (fn_blocks g) = length (fn_blocks f)"
    "\<And>i. i < length (fn_blocks f) \<Longrightarrow> \<exists>ss d. map_changed t (stmts (fn_blocks f ! i)) = Some (ss, d) \<and>
       fn_blocks g ! i = (fn_blocks f ! i)\<lparr>stmts := ss\<rparr>"
    "g = f\<lparr>fn_blocks := fn_blocks g\<rparr>"
proof -
  from assms obtain bs where g: "g = f\<lparr>fn_blocks := bs\<rparr>" and
    bs: "map_changed (\<lambda>blk. do { (ss, c) \<leftarrow> map_changed t (stmts blk); Some (blk\<lparr>stmts := ss\<rparr>, c) }) (fn_blocks f) = Some (bs, c)"
    by (auto simp: rewrite_stmts_def bind_Some_iff)
  then have len: "length bs = length (fn_blocks f)" by (simp add: map_changed_Some_iff)
  show nth: "\<exists>ss d. map_changed t (stmts (fn_blocks f ! i)) = Some (ss, d) \<and>
      fn_blocks g ! i = (fn_blocks f ! i)\<lparr>stmts := ss\<rparr>" if "i < length (fn_blocks f)" for i
  proof -
    have "\<exists>d. (do { (ss, c) \<leftarrow> map_changed t (stmts (fn_blocks f ! i)); Some ((fn_blocks f ! i)\<lparr>stmts := ss\<rparr>, c) }) = Some (bs ! i, d)"
      using bs that unfolding map_changed_Some_iff by blast
    then show ?thesis using g by (auto simp: bind_Some_iff)
  qed
  have "term_of (bs ! i) = term_of (fn_blocks f ! i)" if "i < length (fn_blocks f)" for i
    using nth[OF that] g by auto
  then show "cfg_shape_of g = cfg_shape_of f"
    using g len by (auto simp: cfg_shape_of_def intro: nth_equalityI)
  show "length (fn_blocks g) = length (fn_blocks f)" "g = f\<lparr>fn_blocks := fn_blocks g\<rparr>" using g len by simp_all
qed

lemma rewrite_stmts_unchanged:
  assumes "rewrite_stmts t f = Some (g, False)" "\<And>s s'. t s = Some (s', False) \<Longrightarrow> s' = s"
  shows "g = f"
proof -
  from assms(1) obtain bs where g: "g = f\<lparr>fn_blocks := bs\<rparr>" and
    bs: "map_changed (\<lambda>blk. do { (ss, c) \<leftarrow> map_changed t (stmts blk); Some (blk\<lparr>stmts := ss\<rparr>, c) }) (fn_blocks f) = Some (bs, False)"
    by (auto simp: rewrite_stmts_def bind_Some_iff)
  have "bs = fn_blocks f"
  proof (rule map_changed_unchanged[OF bs])
    fix blk blk' assume "(do { (ss, c) \<leftarrow> map_changed t (stmts blk); Some (blk\<lparr>stmts := ss\<rparr>, c) }) = Some (blk', False)"
    then obtain ss where "map_changed t (stmts blk) = Some (ss, False)" "blk' = blk\<lparr>stmts := ss\<rparr>"
      by (auto simp: bind_Some_iff)
    with map_changed_unchanged[OF this(1) assms(2)] show "blk' = blk" by simp
  qed
  with g show ?thesis by simp
qed

lemma rewrite_stmts_total:
  assumes "\<And>blk s. blk \<in> set (fn_blocks f) \<Longrightarrow> s \<in> set (stmts blk) \<Longrightarrow> t s \<noteq> None"
  shows "rewrite_stmts t f \<noteq> None"
proof -
  have "\<exists>ss c. map_changed t (stmts blk) = Some (ss, c)" if "blk \<in> set (fn_blocks f)" for blk
    by (rule map_changed_total) (use assms that in blast)
  then have "\<exists>bs c. map_changed (\<lambda>blk. do { (ss, c) \<leftarrow> map_changed t (stmts blk); Some (blk\<lparr>stmts := ss\<rparr>, c) }) (fn_blocks f) = Some (bs, c)"
    by (intro map_changed_total) fastforce
  then show ?thesis by (auto simp: rewrite_stmts_def)
qed

text \<open>The common shape of the passes that rewrite the blocks of an order one by one.\<close>

definition rewrite_at ::
  "(block_id \<Rightarrow> basic_block \<Rightarrow> (basic_block \<times> bool) option) \<Rightarrow> mir_function \<times> bool \<Rightarrow> block_id \<Rightarrow>
     (mir_function \<times> bool) option" where
  "rewrite_at t = (\<lambda>(f, changed) b.
     do {
       blk \<leftarrow> block f b;
       (blk', c) \<leftarrow> t b blk;
       bs \<leftarrow> upd_opt (fn_blocks f) b blk';
       Some (f\<lparr>fn_blocks := bs\<rparr>, changed \<or> c)
     })"

lemma rewrite_at_fold:
  assumes "distinct bs" "\<forall>b \<in> set bs. b < length (fn_blocks f) \<and> t b (fn_blocks f ! b) \<noteq> None"
  shows "\<exists>g c. foldM (rewrite_at t) (f, ch) bs = Some (g, c) \<and> g = f\<lparr>fn_blocks := fn_blocks g\<rparr> \<and>
    length (fn_blocks g) = length (fn_blocks f) \<and>
    (\<forall>b < length (fn_blocks f). fn_blocks g ! b =
       (if b \<in> set bs then fst (the (t b (fn_blocks f ! b))) else fn_blocks f ! b)) \<and>
    c = (ch \<or> (\<exists>b \<in> set bs. snd (the (t b (fn_blocks f ! b)))))"
  using assms
proof (induction bs arbitrary: f ch)
  case (Cons a bs)
  have a: "a < length (fn_blocks f)" "a \<notin> set bs" "distinct bs" using Cons.prems by auto
  from Cons.prems obtain r where r: "t a (fn_blocks f ! a) = Some r" by auto
  let ?f = "f\<lparr>fn_blocks := (fn_blocks f)[a := fst r]\<rparr>"
  have old: "fn_blocks ?f ! b = fn_blocks f ! b" if "b \<in> set bs" for b using that a(2) by (cases "b = a") auto
  from Cons.IH[OF a(3), of ?f "ch \<or> snd r"] Cons.prems old obtain g c where
    g: "foldM (rewrite_at t) (?f, ch \<or> snd r) bs = Some (g, c)" "g = ?f\<lparr>fn_blocks := fn_blocks g\<rparr>"
      "length (fn_blocks g) = length (fn_blocks f)"
      "\<forall>b < length (fn_blocks f). fn_blocks g ! b =
         (if b \<in> set bs then fst (the (t b (fn_blocks ?f ! b))) else fn_blocks ?f ! b)"
      "c = ((ch \<or> snd r) \<or> (\<exists>b \<in> set bs. snd (the (t b (fn_blocks ?f ! b)))))" by auto
  have "rewrite_at t (f, ch) a = Some (?f, ch \<or> snd r)"
    using a(1) r by (simp add: rewrite_at_def block_def case_prod_beta)
  with g(1) have "foldM (rewrite_at t) (f, ch) (a # bs) = Some (g, c)" by simp
  moreover have "g = f\<lparr>fn_blocks := fn_blocks g\<rparr>" by (subst g(2)) simp
  moreover have "\<forall>b < length (fn_blocks f). fn_blocks g ! b =
      (if b \<in> set (a # bs) then fst (the (t b (fn_blocks f ! b))) else fn_blocks f ! b)"
    using g(4) old a(1,2) r by (auto simp: nth_list_update)
  moreover have "c = (ch \<or> (\<exists>b \<in> set (a # bs). snd (the (t b (fn_blocks f ! b)))))"
    using g(5) old r by auto
  ultimately show ?case using g(3) by blast
qed simp

lemma rewrite_at_shape:
  assumes "\<And>b blk blk' c. t b blk = Some (blk', c) \<Longrightarrow>
      successors (term_of blk') = successors (term_of blk) \<and> (\<not> c \<longrightarrow> blk' = blk)"
    and "foldM (rewrite_at t) (f, ch) bs = Some (g, c)"
  shows "(\<not> c \<longrightarrow> \<not> ch \<and> g = f) \<and> cfg_shape_of g = cfg_shape_of f"
  using assms(2)
proof (induction bs arbitrary: f ch)
  case (Cons b bs)
  then obtain f1 c1 where f1: "rewrite_at t (f, ch) b = Some (f1, c1)" "foldM (rewrite_at t) (f1, c1) bs = Some (g, c)"
    by (auto simp: bind_Some_iff)
  then obtain blk' d where b: "b < length (fn_blocks f)" and t: "t b (fn_blocks f ! b) = Some (blk', d)"
    and g: "f1 = f\<lparr>fn_blocks := (fn_blocks f)[b := blk']\<rparr>" "c1 = (ch \<or> d)"
    by (auto simp: rewrite_at_def bind_Some_iff block_def nth_opt_Some_iff upd_opt_Some_iff)
  have "map (successors \<circ> term_of) (fn_blocks f1) = map (successors \<circ> term_of) (fn_blocks f)"
    using assms(1)[OF t] by (simp add: g(1) map_update list_update_same_conv b)
  then have "cfg_shape_of f1 = cfg_shape_of f" by (simp add: cfg_shape_of_def comp_def g(1))
  moreover have "\<not> c1 \<longrightarrow> \<not> ch \<and> f1 = f" using assms(1)[OF t] by (auto simp: g)
  ultimately show ?case using Cons.IH[OF f1(2)] by auto
qed auto

end
