(* ===== verification/Pass_Manager.thy ===== *)
theory Pass_Manager
  imports Mir_Analyses
begin

text \<open>
  The pass manager of \<open>crates/dream-mir/src/passes/manager.rs\<close>: rounds over the passes until none
  reports a change or the iteration cap is hit, with one analysis cache per function, and with the
  bookkeeping that skips a pass when the function has not changed since the pass last left it alone.
  Tracing and dumps are output only. The reference is the manager without bookkeeping and without a
  cache; on passes with the contract of \<open>mir_pass_contract\<close> both return the same function and agree
  on whether the cap was hit. The locale \<open>pass_pipeline\<close> carries what a client needs: when every
  pass returns, keeps an invariant and refines its input, so does the whole run.
\<close>

section \<open>The manager\<close>

record pass_manager =
  pm_passes :: "mir_pass list"
  pm_max_iterations :: nat

definition manager_new :: pass_manager where
  "manager_new = \<lparr>pm_passes = [], pm_max_iterations = 16\<rparr>"

definition manager_add :: "pass_manager \<Rightarrow> mir_pass \<Rightarrow> pass_manager" where
  "manager_add pm p = pm\<lparr>pm_passes := pm_passes pm @ [p]\<rparr>"

record manager_state =
  ms_func :: mir_function
  ms_analyses :: function_analyses
  ms_revision :: nat
  ms_unchanged_at :: "nat option list"

text \<open>One pass of a round: skipped when it left this revision of the function alone.\<close>

definition manager_step ::
  "bool \<Rightarrow> manager_state \<times> bool \<Rightarrow> nat \<times> mir_pass \<Rightarrow> (manager_state \<times> bool) option" where
  "manager_step verify = (\<lambda>(st, changed) (index, p).
     do {
       u \<leftarrow> nth_opt (ms_unchanged_at st) index;
       if u = Some (ms_revision st) then Some (st, changed)
       else do {
         (g, pass_changed, a) \<leftarrow> run_pass verify p (ms_analyses st) (ms_func st);
         let revision = (if pass_changed then Suc (ms_revision st) else ms_revision st);
         unchanged_at \<leftarrow> upd_opt (ms_unchanged_at st) index (if pass_changed then None else Some (ms_revision st));
         Some (\<lparr>ms_func = g, ms_analyses = a, ms_revision = revision, ms_unchanged_at = unchanged_at\<rparr>,
           changed \<or> pass_changed)
       }
     })"

definition manager_round :: "bool \<Rightarrow> mir_pass list \<Rightarrow> manager_state \<Rightarrow> (manager_state \<times> bool) option" where
  "manager_round verify ps st = foldM (manager_step verify) (st, False) (enumerate 0 ps)"

text \<open>The rounds that are left; the Boolean says that the cap was hit with a change in the last one.\<close>

fun manager_rounds :: "bool \<Rightarrow> mir_pass list \<Rightarrow> nat \<Rightarrow> manager_state \<Rightarrow> (manager_state \<times> bool) option" where
  "manager_rounds verify ps 0 st = Some (st, False)"
| "manager_rounds verify ps (Suc n) st =
     do {
       (st', changed) \<leftarrow> manager_round verify ps st;
       if \<not> changed then Some (st', False)
       else if n = 0 then Some (st', True)
       else manager_rounds verify ps n st'
     }"

definition run_layouts_dumped :: "bool \<Rightarrow> pass_manager \<Rightarrow> mir_function \<Rightarrow> (mir_function \<times> bool) option" where
  "run_layouts_dumped verify pm f =
     map_option (\<lambda>(st, hit). (ms_func st, hit))
       (manager_rounds verify (pm_passes pm) (pm_max_iterations pm)
         \<lparr>ms_func = f, ms_analyses = analyses_default, ms_revision = 0,
          ms_unchanged_at = replicate (length (pm_passes pm)) None\<rparr>)"

section \<open>The reference: every pass in every round, without a cache\<close>

definition plain_round :: "mir_pass list \<Rightarrow> mir_function \<Rightarrow> (mir_function \<times> bool) option" where
  "plain_round ps f =
     foldM (\<lambda>(f, changed) p. map_option (\<lambda>(g, c). (g, changed \<or> c)) (run_with_layouts False p f)) (f, False) ps"

fun plain_rounds :: "mir_pass list \<Rightarrow> nat \<Rightarrow> mir_function \<Rightarrow> (mir_function \<times> bool) option" where
  "plain_rounds ps 0 f = Some (f, False)"
| "plain_rounds ps (Suc n) f =
     do {
       (g, changed) \<leftarrow> plain_round ps f;
       if \<not> changed then Some (g, False) else if n = 0 then Some (g, True) else plain_rounds ps n g
     }"

section \<open>Skipping and caching change nothing\<close>

definition contracts :: "mir_pass list \<Rightarrow> bool" where
  "contracts ps \<longleftrightarrow> (\<forall>p \<in> set ps. mir_pass_contract p)"

text \<open>The bookkeeping: what is marked unchanged at the current revision would change nothing.\<close>

definition manager_inv :: "mir_pass list \<Rightarrow> manager_state \<Rightarrow> bool" where
  "manager_inv ps st \<longleftrightarrow>
     in_step (ms_analyses st) (ms_func st) \<and> length (ms_unchanged_at st) = length ps \<and>
     (\<forall>i < length ps. \<forall>r. ms_unchanged_at st ! i = Some r \<longrightarrow> r \<le> ms_revision st \<and>
        (r = ms_revision st \<longrightarrow> run_with_layouts False (ps ! i) (ms_func st) = Some (ms_func st, False)))"

definition follows ::
  "mir_pass list \<Rightarrow> (manager_state \<times> bool) option \<Rightarrow> (mir_function \<times> bool) option \<Rightarrow> bool" where
  "follows ps x y \<longleftrightarrow>
     (case y of
        None \<Rightarrow> x = None
      | Some (g, c) \<Rightarrow> (\<exists>st. x = Some (st, c) \<and> ms_func st = g \<and> manager_inv ps st))"

lemma manager_inv_run:
  assumes inv: "manager_inv ps st" and i: "i < length ps" and p: "mir_pass_contract (ps ! i)"
    and run: "run_pass verify (ps ! i) (ms_analyses st) (ms_func st) = Some (g, c, a)"
  shows "manager_inv ps \<lparr>ms_func = g, ms_analyses = a,
      ms_revision = (if c then Suc (ms_revision st) else ms_revision st),
      ms_unchanged_at = (ms_unchanged_at st)[i := if c then None else Some (ms_revision st)]\<rparr>"
proof -
  from inv have step: "in_step (ms_analyses st) (ms_func st)" by (simp add: manager_inv_def)
  note r = mir_pass_contract.run_pass_result[OF p step run]
  have "run_with_layouts False (ps ! i) (ms_func st) = run_with_layouts verify (ps ! i) (ms_func st)"
    using mir_pass_contract.run_pass_cache_free[OF p step] mir_pass_contract.run_pass_no_assert[OF p step] by metis
  also have "\<dots> = Some (g, c)" using mir_pass_contract.run_pass_cache_free[OF p step, of verify] run by simp
  finally have e: "run_with_layouts False (ps ! i) (ms_func st) = Some (g, c)" .
  show ?thesis
  proof (cases c)
    case True
    with inv i r(1) show ?thesis by (fastforce simp: manager_inv_def nth_list_update split: if_splits)
  next
    case False
    with r(2) have "g = ms_func st" by simp
    with False inv i r(1) e show ?thesis by (auto simp: manager_inv_def nth_list_update split: if_splits)
  qed
qed

lemma manager_step_follows:
  assumes inv: "manager_inv ps st" and i: "i < length ps" and p: "mir_pass_contract (ps ! i)"
  shows "follows ps (manager_step verify (st, ch) (i, ps ! i))
    (map_option (\<lambda>(g, c). (g, ch \<or> c)) (run_with_layouts False (ps ! i) (ms_func st)))"
proof (cases "ms_unchanged_at st ! i = Some (ms_revision st)")
  case True
  with inv i have "run_with_layouts False (ps ! i) (ms_func st) = Some (ms_func st, False)"
    by (simp add: manager_inv_def)
  with True inv i show ?thesis by (simp add: follows_def manager_step_def manager_inv_def)
next
  case False
  from inv have step: "in_step (ms_analyses st) (ms_func st)" and len: "length (ms_unchanged_at st) = length ps"
    by (simp_all add: manager_inv_def)
  have e: "run_with_layouts False (ps ! i) (ms_func st) =
      map_option (\<lambda>(g, c, _). (g, c)) (run_pass verify (ps ! i) (ms_analyses st) (ms_func st))"
    using mir_pass_contract.run_pass_cache_free[OF p step] mir_pass_contract.run_pass_no_assert[OF p step] by metis
  show ?thesis
  proof (cases "run_pass verify (ps ! i) (ms_analyses st) (ms_func st)")
    case None
    with False i len e show ?thesis by (simp add: follows_def manager_step_def)
  next
    case (Some r)
    obtain g c a where r: "r = (g, c, a)" by (metis prod_cases3)
    from manager_inv_run[OF inv i p Some[unfolded r]] Some r False i len e show ?thesis
      by (simp add: follows_def manager_step_def Let_def)
  qed
qed

lemma manager_fold_follows:
  assumes "contracts ps" "manager_inv ps st" "k + length qs = length ps" "qs = drop k ps"
  shows "follows ps (foldM (manager_step verify) (st, ch) (enumerate k qs))
    (foldM (\<lambda>(f, changed) p. map_option (\<lambda>(g, c). (g, changed \<or> c)) (run_with_layouts False p f)) (ms_func st, ch) qs)"
  using assms(2-4)
proof (induction qs arbitrary: k st ch)
  case Nil
  then show ?case by (simp add: follows_def)
next
  case (Cons q qs)
  have k: "k < length ps" using Cons.prems(2) by simp
  with Cons.prems(3) Cons_nth_drop_Suc[OF k] have q: "q = ps ! k" "qs = drop (Suc k) ps"
    by (metis list.inject)+
  have c: "mir_pass_contract (ps ! k)" using assms(1) k by (simp add: contracts_def)
  note step = manager_step_follows[OF Cons.prems(1) k c, of verify ch, folded q(1)]
  show ?case
  proof (cases "run_with_layouts False q (ms_func st)")
    case None
    with step show ?thesis by (simp add: follows_def)
  next
    case (Some gc)
    obtain g d where gc: "gc = (g, d)" by fastforce
    from step Some gc obtain st' where st': "manager_step verify (st, ch) (k, q) = Some (st', ch \<or> d)"
      "ms_func st' = g" "manager_inv ps st'" by (auto simp: follows_def)
    have "Suc k + length qs = length ps" using Cons.prems(2) by simp
    from Cons.IH[OF st'(3) this q(2), of "ch \<or> d"] st'(1,2) Some gc show ?thesis by simp
  qed
qed

lemma manager_round_follows:
  "contracts ps \<Longrightarrow> manager_inv ps st \<Longrightarrow> follows ps (manager_round verify ps st) (plain_round ps (ms_func st))"
  unfolding manager_round_def plain_round_def by (rule manager_fold_follows) simp_all

lemma manager_rounds_follow:
  "contracts ps \<Longrightarrow> manager_inv ps st \<Longrightarrow>
     map_option (\<lambda>(st, hit). (ms_func st, hit)) (manager_rounds verify ps n st) = plain_rounds ps n (ms_func st)"
proof (induction n arbitrary: st)
  case (Suc n)
  from manager_round_follows[OF Suc.prems, of verify] Suc.IH[OF Suc.prems(1)] show ?case
    by (cases "plain_round ps (ms_func st)") (auto simp: follows_def)
qed simp

lemma run_layouts_plain:
  "contracts (pm_passes pm) \<Longrightarrow>
     run_layouts_dumped verify pm f = plain_rounds (pm_passes pm) (pm_max_iterations pm) f"
  unfolding run_layouts_dumped_def
  by (subst manager_rounds_follow) (auto simp: manager_inv_def)

section \<open>What the passes keep, the run keeps\<close>

text \<open>
  A pipeline whose passes return on the functions with an invariant \<open>good\<close>, keep it, and relate
  input and output by a reflexive and transitive relation.
\<close>

locale pass_pipeline =
  fixes ps :: "mir_pass list" and good :: "mir_function \<Rightarrow> bool" and rel :: "mir_function \<Rightarrow> mir_function \<Rightarrow> bool"
  assumes contract: "p \<in> set ps \<Longrightarrow> mir_pass_contract p"
    and pass_step: "p \<in> set ps \<Longrightarrow> good f \<Longrightarrow> \<exists>g c. run_with_layouts False p f = Some (g, c) \<and> good g \<and> rel f g"
    and rel_refl: "rel f f"
    and rel_trans: "rel f g \<Longrightarrow> rel g h \<Longrightarrow> rel f h"
begin

lemma plain_fold_keeps:
  "set qs \<subseteq> set ps \<Longrightarrow> good f \<Longrightarrow>
     \<exists>g c. foldM (\<lambda>(f, changed) p. map_option (\<lambda>(g, c). (g, changed \<or> c)) (run_with_layouts False p f)) (f, ch) qs
       = Some (g, c) \<and> good g \<and> rel f g"
proof (induction qs arbitrary: f ch)
  case Nil
  then show ?case by (simp add: rel_refl)
next
  case (Cons q qs)
  from pass_step[of q f] Cons.prems obtain g c where g: "run_with_layouts False q f = Some (g, c)" "good g" "rel f g"
    by auto
  with Cons.IH[of g "ch \<or> c"] Cons.prems rel_trans show ?case by fastforce
qed

lemma plain_rounds_keep:
  "set qs \<subseteq> set ps \<Longrightarrow> good f \<Longrightarrow> \<exists>g hit. plain_rounds qs n f = Some (g, hit) \<and> good g \<and> rel f g"
proof (induction n arbitrary: f)
  case 0
  then show ?case by (intro exI[of _ f] exI[of _ False]) (simp add: rel_refl)
next
  case (Suc n)
  from plain_fold_keeps[OF Suc.prems, of False] obtain g c where
    g: "plain_round qs f = Some (g, c)" "good g" "rel f g" by (auto simp: plain_round_def)
  with Suc.IH[OF Suc.prems(1) g(2)] rel_trans show ?case by fastforce
qed

lemma run_keeps:
  assumes "set (pm_passes pm) \<subseteq> set ps" "good f"
  shows "\<exists>g hit. run_layouts_dumped verify pm f = Some (g, hit) \<and> good g \<and> rel f g"
proof -
  have "contracts (pm_passes pm)" using assms(1) contract by (auto simp: contracts_def)
  from plain_rounds_keep[OF assms, of "pm_max_iterations pm"] show ?thesis
    by (simp only: run_layouts_plain[OF \<open>contracts (pm_passes pm)\<close>])
qed

end

end
