(* ===== verification/Int_Ty.thy ===== *)
theory Int_Ty
  imports Mir_Syntax
begin

text \<open>
  Integer signedness and width (\<open>crates/dream-mir/src/int_ty.rs\<close>), the vocabulary constant
  folding and the backend share. A payload is an \<open>i64\<close>; \<open>it_value\<close> reads it as the
  mathematical value of an integer type and \<open>it_wrap\<close> writes a mathematical value back as the
  canonical payload. The lemmas connect both with machine words: reading a payload is \<open>uint\<close> or
  \<open>sint\<close> of the word of the type's width, wrapping keeps exactly the value modulo the width.
\<close>

datatype int_ty = IT_Byte | IT_Int | IT_UInt | IT_Long | IT_ULong

text \<open>The integer type of an interned type; the outer option is the interner's panic.\<close>

definition int_ty_of_kind :: "ty_kind \<Rightarrow> nat \<Rightarrow> int_ty option" where
  "int_ty_of_kind k ptr_size =
     (case k of
        K_Prim PByte \<Rightarrow> Some IT_Byte
      | K_Prim PInt \<Rightarrow> Some IT_Int
      | K_Prim PChar \<Rightarrow> Some IT_Int
      | K_Enum _ \<Rightarrow> Some IT_Int
      | K_Prim PUInt \<Rightarrow> Some IT_UInt
      | K_Prim PLong \<Rightarrow> Some IT_Long
      | K_Prim PULong \<Rightarrow> Some IT_ULong
      | K_Prim PISize \<Rightarrow> Some (if ptr_size = 8 then IT_Long else IT_Int)
      | K_Prim PUSize \<Rightarrow> Some (if ptr_size = 8 then IT_ULong else IT_UInt)
      | _ \<Rightarrow> None)"

definition int_ty_of :: "type_interner \<Rightarrow> type_id \<Rightarrow> nat \<Rightarrow> int_ty option option" where
  "int_ty_of i t ptr_size = map_option (\<lambda>k. int_ty_of_kind k ptr_size) (kind i t)"

definition int_ty_of_prim :: "type_interner \<Rightarrow> type_id \<Rightarrow> nat \<Rightarrow> int_ty option option" where
  "int_ty_of_prim i t ptr_size =
     map_option (\<lambda>k. case k of
         K_Prim p \<Rightarrow> (if p = PChar then None else int_ty_of_kind k ptr_size)
       | _ \<Rightarrow> None) (kind i t)"

fun it_bits :: "int_ty \<Rightarrow> nat" where
  "it_bits IT_Byte = 8"
| "it_bits IT_Int = 32"
| "it_bits IT_UInt = 32"
| "it_bits IT_Long = 64"
| "it_bits IT_ULong = 64"

definition it_signed :: "int_ty \<Rightarrow> bool" where
  "it_signed ty \<longleftrightarrow> ty \<in> {IT_Int, IT_Long}"

definition it_is_64 :: "int_ty \<Rightarrow> bool" where
  "it_is_64 ty \<longleftrightarrow> it_bits ty = 64"

definition it_min :: "int_ty \<Rightarrow> int" where
  "it_min ty = (if it_signed ty then - push_bit (it_bits ty - 1) 1 else 0)"

definition it_max :: "int_ty \<Rightarrow> int" where
  "it_max ty =
     (if it_signed ty then push_bit (it_bits ty - 1) 1 - 1 else push_bit (it_bits ty) 1 - 1)"

fun it_value :: "int_ty \<Rightarrow> int \<Rightarrow> int" where
  "it_value IT_Byte p = as_u8 p"
| "it_value IT_Int p = as_i32 p"
| "it_value IT_UInt p = as_u32 p"
| "it_value IT_Long p = p"
| "it_value IT_ULong p = as_u64 p"

fun it_wrap :: "int_ty \<Rightarrow> int \<Rightarrow> int" where
  "it_wrap IT_Byte v = as_u8 v"
| "it_wrap IT_Int v = as_i32 v"
| "it_wrap IT_UInt v = as_u32 v"
| "it_wrap IT_Long v = as_i64 v"
| "it_wrap IT_ULong v = as_i64 (as_u64 v)"

definition it_fits :: "int_ty \<Rightarrow> int \<Rightarrow> bool" where
  "it_fits ty v \<longleftrightarrow> it_min ty \<le> v \<and> v \<le> it_max ty"

section \<open>Values are representatives modulo the width\<close>

text \<open>A payload is canonical when reading and writing it back leaves it alone.\<close>

definition it_canonical :: "int_ty \<Rightarrow> int \<Rightarrow> bool" where
  "it_canonical ty p \<longleftrightarrow> is_i64 p \<and> it_wrap ty (it_value ty p) = p"

lemma it_bits_pos [simp]: "0 < it_bits ty"
  by (cases ty) simp_all

lemma it_value_take_bit:
  "is_i64 p \<Longrightarrow> take_bit (it_bits ty) (it_value ty p) = take_bit (it_bits ty) p"
  by (cases ty) (simp_all add: take_bit_signed_take_bit)

lemma it_wrap_take_bit [simp]: "take_bit (it_bits ty) (it_wrap ty v) = take_bit (it_bits ty) v"
  by (cases ty) (simp_all add: take_bit_signed_take_bit)

lemma it_wrap_i64: "is_i64 (it_wrap ty v)"
proof (cases ty)
  case IT_Int
  then show ?thesis
    using signed_take_bit_int_greater_eq_minus_exp[of 31 v] signed_take_bit_int_less_exp[of 31 v]
    by (simp add: is_i64_def)
next
  case IT_Byte
  then show ?thesis
    using take_bit_int_less_exp[of 8 v]
    by (auto simp: is_i64_def intro: order_trans[OF _ take_bit_nonnegative])
next
  case IT_UInt
  then show ?thesis
    using take_bit_int_less_exp[of 32 v]
    by (auto simp: is_i64_def intro: order_trans[OF _ take_bit_nonnegative])
qed (simp_all add: as_i64_range)

lemma it_fits_value: "is_i64 p \<Longrightarrow> it_fits ty (it_value ty p)"
proof (cases ty)
  case IT_Byte
  then show ?thesis
    using take_bit_int_less_exp[of 8 p] by (simp add: it_fits_def it_min_def it_max_def it_signed_def)
next
  case IT_Int
  then show ?thesis
    using signed_take_bit_int_greater_eq_minus_exp[of 31 p] signed_take_bit_int_less_exp[of 31 p]
    by (simp add: it_fits_def it_min_def it_max_def it_signed_def)
next
  case IT_UInt
  then show ?thesis
    using take_bit_int_less_exp[of 32 p] by (simp add: it_fits_def it_min_def it_max_def it_signed_def)
next
  case IT_ULong
  then show ?thesis
    using take_bit_int_less_exp[of 64 p] by (simp add: it_fits_def it_min_def it_max_def it_signed_def)
qed (simp add: it_fits_def it_min_def it_max_def it_signed_def is_i64_def)

lemma it_value_wrap_fits: "it_fits ty v \<Longrightarrow> it_value ty (it_wrap ty v) = v"
  by (cases ty) (auto simp: it_fits_def it_min_def it_max_def it_signed_def
      signed_take_bit_int_eq_self_iff take_bit_int_eq_self_iff take_bit_signed_take_bit)

text \<open>Reading a wrapped value: the one value of the type that agrees with it modulo the width.\<close>

lemma it_fits_repr:
  "it_fits ty a \<Longrightarrow>
     if it_signed ty then signed_take_bit (it_bits ty - 1) a = a else take_bit (it_bits ty) a = a"
  by (cases ty) (auto simp: it_fits_def it_min_def it_max_def it_signed_def
      signed_take_bit_int_eq_self_iff take_bit_int_eq_self_iff)

lemma it_fits_unique:
  assumes "it_fits ty a" and "it_fits ty b" and "take_bit (it_bits ty) a = take_bit (it_bits ty) b"
  shows "a = b"
proof -
  have "signed_take_bit (it_bits ty - 1) a = signed_take_bit (it_bits ty - 1) b"
    using assms(3) signed_take_bit_eq_iff_take_bit_eq[of "it_bits ty - 1" a b]
    by (cases ty) simp_all
  with assms(3) it_fits_repr[OF assms(1)] it_fits_repr[OF assms(2)] show ?thesis
    by (auto split: if_splits)
qed

lemma it_value_wrap:
  "it_value ty (it_wrap ty v) =
     (THE r. it_fits ty r \<and> take_bit (it_bits ty) r = take_bit (it_bits ty) v)"
proof (rule the_equality[symmetric])
  show "it_fits ty (it_value ty (it_wrap ty v)) \<and>
    take_bit (it_bits ty) (it_value ty (it_wrap ty v)) = take_bit (it_bits ty) v"
    by (simp add: it_fits_value it_value_take_bit it_wrap_i64)
  then show "r = it_value ty (it_wrap ty v)"
    if "it_fits ty r \<and> take_bit (it_bits ty) r = take_bit (it_bits ty) v" for r
    using that it_fits_unique[of ty r "it_value ty (it_wrap ty v)"] by simp
qed

lemma it_fits_iff: "it_fits ty v \<longleftrightarrow> it_value ty (it_wrap ty v) = v"
  using it_value_wrap_fits[of ty v] it_fits_value[OF it_wrap_i64, of ty ty v] by metis

lemma it_wrap_canonical: "it_canonical ty (it_wrap ty v)"
proof -
  have "it_wrap ty (it_value ty (it_wrap ty v)) = it_wrap ty v"
    by (cases ty) (simp_all add: take_bit_signed_take_bit)
  then show ?thesis by (simp add: it_canonical_def it_wrap_i64)
qed

section \<open>Machine words\<close>

lemma word_of_it_value:
  "is_i64 p \<Longrightarrow> LENGTH('a::len) = it_bits ty \<Longrightarrow> (word_of_int (it_value ty p) :: 'a word) = word_of_int p"
  using it_value_take_bit[of p ty] by (metis word_of_int_eq_iff)

lemma word_of_it_wrap:
  "LENGTH('a::len) = it_bits ty \<Longrightarrow> (word_of_int (it_wrap ty v) :: 'a word) = word_of_int v"
  using it_wrap_take_bit[of ty v] by (metis word_of_int_eq_iff)

lemma it_value_uint:
  assumes "is_i64 p" and "LENGTH('a::len) = it_bits ty" and "\<not> it_signed ty"
  shows "it_value ty p = uint (word_of_int p :: 'a word)"
  using assms by (cases ty) (simp_all add: uint_word_of_int_eq it_signed_def)

lemma it_value_sint:
  assumes "is_i64 p" and "LENGTH('a::len) = it_bits ty" and "it_signed ty"
  shows "it_value ty p = sint (word_of_int p :: 'a word)"
  using assms by (cases ty) (simp_all add: sint_sbintrunc' it_signed_def)

end
