(* ===== verification/Ieee_Floats.thy ===== *)
theory Ieee_Floats
  imports Mir_Syntax
begin

text \<open>
  The floating-point operations of the Rust language that constant folding evaluates at compile
  time: IEEE 754 binary64 and binary32 addition, subtraction, multiplication, division,
  comparison and the casts between the two formats, on bit patterns. A format is given by its
  exponent width \<open>eb\<close> and fraction width \<open>mb\<close>. Operations decode to a sign, a significand and a
  power of two, compute exactly, and round to nearest, ties to even. Rust leaves the bits of a
  produced NaN open; the model produces the canonical quiet NaN.
\<close>

section \<open>Decoding and rounding\<close>

datatype fval = F_NaN | F_Inf bool | F_Fin bool nat int

definition f_emin :: "nat \<Rightarrow> nat \<Rightarrow> int" where
  "f_emin eb mb = 2 - 2 ^ (eb - 1) - int mb"

definition f_decode :: "nat \<Rightarrow> nat \<Rightarrow> nat \<Rightarrow> fval" where
  "f_decode eb mb bits =
     (let frac = bits mod 2 ^ mb;
          ex = (bits div 2 ^ mb) mod 2 ^ eb;
          s = odd (bits div 2 ^ (eb + mb))
      in if ex = 2 ^ eb - 1 then (if frac = 0 then F_Inf s else F_NaN)
         else if ex = 0 then F_Fin s frac (f_emin eb mb)
         else F_Fin s (2 ^ mb + frac) (f_emin eb mb + int ex - 1))"

fun bitlen :: "nat \<Rightarrow> nat" where
  "bitlen n = (if n = 0 then 0 else Suc (bitlen (n div 2)))"

declare bitlen.simps [simp del]

text \<open>Division by \<open>2 ^ k\<close>, rounded to nearest with ties to even.\<close>

definition round_ne :: "nat \<Rightarrow> nat \<Rightarrow> nat" where
  "round_ne n k =
     (let q = n div 2 ^ k; r = n mod 2 ^ k
      in if 2 * r < 2 ^ k then q
         else if 2 ^ k < 2 * r then Suc q
         else if even q then q else Suc q)"

definition f_sign_bits :: "nat \<Rightarrow> nat \<Rightarrow> bool \<Rightarrow> nat" where
  "f_sign_bits eb mb s = (if s then 2 ^ (eb + mb) else 0)"

text \<open>The unit of the last place of the result is \<open>2 ^ q\<close>; a carry of the rounding moves into
  the exponent field by the addition itself.\<close>

definition f_round :: "nat \<Rightarrow> nat \<Rightarrow> bool \<Rightarrow> nat \<Rightarrow> int \<Rightarrow> nat" where
  "f_round eb mb s m e =
     (let q = max (f_emin eb mb) (e + int (bitlen m) - int mb - 1);
          m' = (if q \<le> e then m * 2 ^ nat (e - q) else round_ne m (nat (q - e)));
          bits = m' + nat (q - f_emin eb mb) * 2 ^ mb;
          inf = (2 ^ eb - 1) * 2 ^ mb
      in f_sign_bits eb mb s + (if m = 0 then 0 else if inf \<le> bits then inf else bits))"

definition f_nan :: "nat \<Rightarrow> nat \<Rightarrow> nat" where
  "f_nan eb mb = (2 ^ eb - 1) * 2 ^ mb + 2 ^ (mb - 1)"

fun f_encode :: "nat \<Rightarrow> nat \<Rightarrow> fval \<Rightarrow> nat" where
  "f_encode eb mb F_NaN = f_nan eb mb"
| "f_encode eb mb (F_Inf s) = f_sign_bits eb mb s + (2 ^ eb - 1) * 2 ^ mb"
| "f_encode eb mb (F_Fin s m e) = f_round eb mb s m e"

section \<open>Arithmetic on decoded values\<close>

fun f_negate :: "fval \<Rightarrow> fval" where
  "f_negate F_NaN = F_NaN"
| "f_negate (F_Inf s) = F_Inf (\<not> s)"
| "f_negate (F_Fin s m e) = F_Fin (\<not> s) m e"

definition f_signed :: "bool \<Rightarrow> nat \<Rightarrow> int" where
  "f_signed s m = (if s then - int m else int m)"

fun f_add :: "fval \<Rightarrow> fval \<Rightarrow> fval" where
  "f_add F_NaN y = F_NaN"
| "f_add x F_NaN = F_NaN"
| "f_add (F_Inf s) (F_Inf t) = (if s = t then F_Inf s else F_NaN)"
| "f_add (F_Inf s) (F_Fin _ _ _) = F_Inf s"
| "f_add (F_Fin _ _ _) (F_Inf t) = F_Inf t"
| "f_add (F_Fin s m d) (F_Fin t n e) =
     (let lo = min d e;
          v = f_signed s m * 2 ^ nat (d - lo) + f_signed t n * 2 ^ nat (e - lo)
      in F_Fin (if v = 0 then s \<and> t else v < 0) (nat \<bar>v\<bar>) lo)"

fun f_mul :: "fval \<Rightarrow> fval \<Rightarrow> fval" where
  "f_mul F_NaN y = F_NaN"
| "f_mul x F_NaN = F_NaN"
| "f_mul (F_Inf s) (F_Inf t) = F_Inf (s \<noteq> t)"
| "f_mul (F_Inf s) (F_Fin t n _) = (if n = 0 then F_NaN else F_Inf (s \<noteq> t))"
| "f_mul (F_Fin s m _) (F_Inf t) = (if m = 0 then F_NaN else F_Inf (s \<noteq> t))"
| "f_mul (F_Fin s m d) (F_Fin t n e) = F_Fin (s \<noteq> t) (m * n) (d + e)"

text \<open>A quotient is not exact: it is taken to \<open>mb + 3\<close> bits, with the remainder folded into a
  sticky last bit, which rounding to \<open>mb + 1\<close> bits cannot tell from the exact value.\<close>

fun f_div :: "nat \<Rightarrow> fval \<Rightarrow> fval \<Rightarrow> fval" where
  "f_div mb F_NaN y = F_NaN"
| "f_div mb x F_NaN = F_NaN"
| "f_div mb (F_Inf _) (F_Inf _) = F_NaN"
| "f_div mb (F_Inf s) (F_Fin t _ _) = F_Inf (s \<noteq> t)"
| "f_div mb (F_Fin s _ e) (F_Inf t) = F_Fin (s \<noteq> t) 0 e"
| "f_div mb (F_Fin s m d) (F_Fin t n e) =
     (if n = 0 then (if m = 0 then F_NaN else F_Inf (s \<noteq> t))
      else (let k = mb + 3 + bitlen n;
                num = m * 2 ^ k
            in F_Fin (s \<noteq> t) (2 * (num div n) + (if num mod n = 0 then 0 else 1))
                 (d - e - int k - 1)))"

text \<open>The partial order of IEEE comparison; a NaN is not even equal to itself.\<close>

fun f_eq :: "fval \<Rightarrow> fval \<Rightarrow> bool" where
  "f_eq (F_Inf s) (F_Inf t) = (s = t)"
| "f_eq (F_Fin s m d) (F_Fin t n e) =
     (f_signed s m * 2 ^ nat (d - min d e) = f_signed t n * 2 ^ nat (e - min d e))"
| "f_eq x y = False"

fun f_lt :: "fval \<Rightarrow> fval \<Rightarrow> bool" where
  "f_lt (F_Inf s) (F_Inf t) = (s \<and> \<not> t)"
| "f_lt (F_Inf s) (F_Fin _ _ _) = s"
| "f_lt (F_Fin _ _ _) (F_Inf t) = (\<not> t)"
| "f_lt (F_Fin s m d) (F_Fin t n e) =
     (f_signed s m * 2 ^ nat (d - min d e) < f_signed t n * 2 ^ nat (e - min d e))"
| "f_lt x y = False"

section \<open>The formats of the language\<close>

definition f64_val :: "64 word \<Rightarrow> fval" where
  "f64_val x = f_decode 11 52 (unat x)"

definition f64_of :: "fval \<Rightarrow> 64 word" where
  "f64_of v = word_of_nat (f_encode 11 52 v)"

definition f32_val :: "32 word \<Rightarrow> fval" where
  "f32_val x = f_decode 8 23 (unat x)"

definition f32_of :: "fval \<Rightarrow> 32 word" where
  "f32_of v = word_of_nat (f_encode 8 23 v)"

definition f16_val :: "16 word \<Rightarrow> fval" where
  "f16_val x = f_decode 5 10 (unat x)"

definition f64_add :: "64 word \<Rightarrow> 64 word \<Rightarrow> 64 word" where
  "f64_add x y = f64_of (f_add (f64_val x) (f64_val y))"

definition f64_sub :: "64 word \<Rightarrow> 64 word \<Rightarrow> 64 word" where
  "f64_sub x y = f64_of (f_add (f64_val x) (f_negate (f64_val y)))"

definition f64_mul :: "64 word \<Rightarrow> 64 word \<Rightarrow> 64 word" where
  "f64_mul x y = f64_of (f_mul (f64_val x) (f64_val y))"

definition f64_div :: "64 word \<Rightarrow> 64 word \<Rightarrow> 64 word" where
  "f64_div x y = f64_of (f_div 52 (f64_val x) (f64_val y))"

definition f64_eq :: "64 word \<Rightarrow> 64 word \<Rightarrow> bool" where
  "f64_eq x y \<longleftrightarrow> f_eq (f64_val x) (f64_val y)"

definition f64_lt :: "64 word \<Rightarrow> 64 word \<Rightarrow> bool" where
  "f64_lt x y \<longleftrightarrow> f_lt (f64_val x) (f64_val y)"

definition f64_le :: "64 word \<Rightarrow> 64 word \<Rightarrow> bool" where
  "f64_le x y \<longleftrightarrow> f64_lt x y \<or> f64_eq x y"

definition f32_eq :: "32 word \<Rightarrow> 32 word \<Rightarrow> bool" where
  "f32_eq x y \<longleftrightarrow> f_eq (f32_val x) (f32_val y)"

definition f32_to_f64 :: "32 word \<Rightarrow> 64 word" where
  "f32_to_f64 x = f64_of (f32_val x)"

definition f64_to_f32 :: "64 word \<Rightarrow> 32 word" where
  "f64_to_f32 x = f32_of (f64_val x)"

text \<open>Negation flips the sign bit, of a NaN too.\<close>

definition f64_neg :: "64 word \<Rightarrow> 64 word" where
  "f64_neg x = x + 2 ^ 63"

definition f32_neg :: "32 word \<Rightarrow> 32 word" where
  "f32_neg x = x + 2 ^ 31"

section \<open>Equality of constants\<close>

text \<open>
  The derived \<open>PartialEq\<close> of \<open>Const\<close>: structural, except that floating-point payloads compare
  as numbers, so that the two zeros are equal and a NaN differs from itself. A \<open>float16\<close> is kept
  as an integer and compares by its bits.
\<close>

fun const_eq :: "const \<Rightarrow> const \<Rightarrow> bool" where
  "const_eq (C_Float x) (C_Float y) = f64_eq x y"
| "const_eq (C_F32 x) (C_F32 y) = f32_eq x y"
| "const_eq a b = (a = b)"

lemma f_eq_sym: "f_eq x y = f_eq y x"
  by (cases x; cases y) (auto simp: min.commute)

lemma f_eq_irrefl_nan: "\<not> f_eq F_NaN y" "\<not> f_eq x F_NaN"
  by (cases y; simp) (cases x; simp)

lemma f_eq_refl: "f_eq x x \<longleftrightarrow> x \<noteq> F_NaN"
  by (cases x) auto

lemma f_lt_irrefl: "\<not> f_lt x x"
  by (cases x) auto

lemma const_eq_sym: "const_eq a b = const_eq b a"
  by (cases a; cases b) (auto simp: f64_eq_def f32_eq_def f_eq_sym)

text \<open>Constants whose derived equality is the identity.\<close>

definition exact_const :: "const \<Rightarrow> bool" where
  "exact_const c = (case c of C_Float _ \<Rightarrow> False | C_F32 _ \<Rightarrow> False | _ \<Rightarrow> True)"

lemma const_eq_exact: "exact_const a \<Longrightarrow> const_eq a b \<longleftrightarrow> a = b"
  by (cases a; cases b) (auto simp: exact_const_def)

lemma const_eq_refl: "exact_const a \<Longrightarrow> const_eq a a"
  by (simp add: const_eq_exact)

lemma zeros_are_equal: "const_eq (C_Float 0) (C_Float 0x8000000000000000)"
  by (simp add: f64_eq_def f64_val_def f_decode_def f_signed_def)

end
