(* ===== verification/Const_Fold.thy ===== *)
theory Const_Fold
  imports Int_Ty Ieee_Floats
begin

unbundle bit_operations_syntax

text \<open>
  Constant folding (\<open>crates/dream-mir/src/passes/const_fold.rs\<close>). The definitions follow the
  source function by function; the half-precision conversions of the third-party \<open>half\<close> crate
  are a parameter. The lemmas give the folder's reference: every folded integer operation is the
  machine operation on words of the destination's width, its result is canonical, and a checked
  operation is folded exactly when it does not overflow.
\<close>

section \<open>The folder\<close>

record half_ops =
  half_from_f64 :: "64 word \<Rightarrow> 16 word"
  half_to_f64 :: "16 word \<Rightarrow> 64 word"

definition as_const :: "operand \<Rightarrow> const option" where
  "as_const op = (case op of O_Const c \<Rightarrow> Some c | _ \<Rightarrow> None)"

definition const_payload :: "const \<Rightarrow> int_ty \<Rightarrow> int option" where
  "const_payload c ty =
     (case c of
        C_Int v \<Rightarrow> (if \<not> it_is_64 ty then Some v else None)
      | C_Long v \<Rightarrow> (if it_is_64 ty then Some v else None)
      | _ \<Rightarrow> None)"

definition int_const :: "int_ty \<Rightarrow> int \<Rightarrow> const" where
  "int_const ty v = (if it_is_64 ty then C_Long (it_wrap ty v) else C_Int (it_wrap ty v))"

definition fold_checked :: "bin_op \<Rightarrow> const \<Rightarrow> const \<Rightarrow> int_ty \<Rightarrow> const option" where
  "fold_checked op a b ty =
     do {
       pa \<leftarrow> const_payload a ty;
       pb \<leftarrow> const_payload b ty;
       let x = it_value ty pa;
       let y = it_value ty pb;
       let fit = (\<lambda>v. if it_fits ty v then Some (int_const ty v) else None);
       case op of
         B_Add \<Rightarrow> fit (x + y)
       | B_Sub \<Rightarrow> fit (x - y)
       | B_Mul \<Rightarrow> (if is_i128 (x * y) then fit (x * y) else None)
       | B_Div \<Rightarrow> (if y = 0 then None else fit (tdiv x y))
       | B_Rem \<Rightarrow> (if y = 0 then None
                   else if x = it_min ty \<and> y = - 1 then None
                   else fit (tmod x y))
       | B_Shl \<Rightarrow> (if y < 0 \<or> int (it_bits ty) \<le> y then None
                   else Some (int_const ty (as_i128 (push_bit (nat y) x))))
       | B_Shr \<Rightarrow> (if y < 0 \<or> int (it_bits ty) \<le> y then None
                   else fit (drop_bit (nat y) x))
       | _ \<Rightarrow> None
     }"

text \<open>The integer type an operation is folded at: the destination's, if the widths agree.\<close>

definition fold_type :: "bool \<Rightarrow> int_ty option \<Rightarrow> int_ty option" where
  "fold_type wide dest =
     (case dest of
        Some ty \<Rightarrow> (if it_is_64 ty = wide then Some ty else None)
      | None \<Rightarrow> (if wide then Some IT_Long else Some IT_Int))"

definition fold_int :: "bin_op \<Rightarrow> int \<Rightarrow> int \<Rightarrow> bool \<Rightarrow> int_ty option \<Rightarrow> const option" where
  "fold_int op px py wide dest =
     (if is_comparison op then
        (if wide \<and> (px < 0 \<or> py < 0) then None
         else Some (C_Bool (case op of
             B_Eq \<Rightarrow> px = py
           | B_Ne \<Rightarrow> px \<noteq> py
           | B_Lt \<Rightarrow> px < py
           | B_Le \<Rightarrow> px \<le> py
           | B_Gt \<Rightarrow> px > py
           | _ \<Rightarrow> px \<ge> py)))
      else do {
        ty \<leftarrow> fold_type wide dest;
        let x = it_value ty px;
        let y = it_value ty py;
        let sh = nat (as_u32 py AND (int (it_bits ty) - 1));
        case op of
          B_Add \<Rightarrow> Some (int_const ty (as_i128 (x + y)))
        | B_Sub \<Rightarrow> Some (int_const ty (as_i128 (x - y)))
        | B_Mul \<Rightarrow> Some (int_const ty (as_i128 (x * y)))
        | B_Div \<Rightarrow> (if y \<noteq> 0 then Some (int_const ty (tdiv x y)) else None)
        | B_Rem \<Rightarrow> (if y \<noteq> 0 then Some (int_const ty (tmod x y)) else None)
        | B_BitAnd \<Rightarrow> Some (int_const ty (x AND y))
        | B_BitOr \<Rightarrow> Some (int_const ty (x OR y))
        | B_BitXor \<Rightarrow> Some (int_const ty (x XOR y))
        | B_Shl \<Rightarrow> Some (int_const ty (as_i128 (push_bit sh x)))
        | B_Shr \<Rightarrow> Some (int_const ty (drop_bit sh x))
        | _ \<Rightarrow> None
      })"

definition narrow_float :: "const \<Rightarrow> const" where
  "narrow_float c = (case c of C_Float v \<Rightarrow> C_F32 (f64_to_f32 v) | _ \<Rightarrow> c)"

definition narrow_half :: "half_ops \<Rightarrow> const \<Rightarrow> const" where
  "narrow_half h c = (case c of C_Float v \<Rightarrow> C_F16 (half_from_f64 h v) | _ \<Rightarrow> c)"

definition fold_float :: "bin_op \<Rightarrow> 64 word \<Rightarrow> 64 word \<Rightarrow> const option" where
  "fold_float op x y =
     (case op of
        B_Add \<Rightarrow> Some (C_Float (f64_add x y))
      | B_Sub \<Rightarrow> Some (C_Float (f64_sub x y))
      | B_Mul \<Rightarrow> Some (C_Float (f64_mul x y))
      | B_Div \<Rightarrow> Some (C_Float (f64_div x y))
      | B_Eq \<Rightarrow> Some (C_Bool (f64_eq x y))
      | B_Ne \<Rightarrow> Some (C_Bool (\<not> f64_eq x y))
      | B_Lt \<Rightarrow> Some (C_Bool (f64_lt x y))
      | B_Le \<Rightarrow> Some (C_Bool (f64_le x y))
      | B_Gt \<Rightarrow> Some (C_Bool (f64_lt y x))
      | B_Ge \<Rightarrow> Some (C_Bool (f64_le y x))
      | _ \<Rightarrow> None)"

definition fold_bool :: "bin_op \<Rightarrow> bool \<Rightarrow> bool \<Rightarrow> const option" where
  "fold_bool op x y =
     (case op of
        B_And \<Rightarrow> Some (C_Bool (x \<and> y))
      | B_Or \<Rightarrow> Some (C_Bool (x \<or> y))
      | B_Eq \<Rightarrow> Some (C_Bool (x = y))
      | B_Ne \<Rightarrow> Some (C_Bool (x \<noteq> y))
      | _ \<Rightarrow> None)"

definition fold_binary ::
  "half_ops \<Rightarrow> bin_op \<Rightarrow> const \<Rightarrow> const \<Rightarrow> int_ty option \<Rightarrow> const option" where
  "fold_binary h op a b dest =
     (case (a, b) of
        (C_Int x, C_Int y) \<Rightarrow> fold_int op x y False dest
      | (C_Long x, C_Long y) \<Rightarrow> fold_int op x y True dest
      | (C_Float x, C_Float y) \<Rightarrow> fold_float op x y
      | (C_F32 x, C_F32 y) \<Rightarrow>
          map_option narrow_float (fold_float op (f32_to_f64 x) (f32_to_f64 y))
      | (C_F16 x, C_F16 y) \<Rightarrow>
          map_option (narrow_half h) (fold_float op (half_to_f64 h x) (half_to_f64 h y))
      | (C_Bool x, C_Bool y) \<Rightarrow> fold_bool op x y
      | _ \<Rightarrow> None)"

definition fold_unary :: "un_op \<Rightarrow> const \<Rightarrow> int_ty option \<Rightarrow> const option" where
  "fold_unary op a dest =
     (case (op, a) of
        (U_Neg, C_Int x) \<Rightarrow> map_option (\<lambda>ty. int_const ty (- it_value ty x)) (fold_type False dest)
      | (U_Neg, C_Long x) \<Rightarrow> map_option (\<lambda>ty. int_const ty (- it_value ty x)) (fold_type True dest)
      | (U_BitNot, C_Int x) \<Rightarrow>
          map_option (\<lambda>ty. int_const ty (NOT (it_value ty x))) (fold_type False dest)
      | (U_BitNot, C_Long x) \<Rightarrow>
          map_option (\<lambda>ty. int_const ty (NOT (it_value ty x))) (fold_type True dest)
      | (U_Neg, C_Float x) \<Rightarrow> Some (C_Float (f64_neg x))
      | (U_Neg, C_F32 x) \<Rightarrow> Some (C_F32 (f32_neg x))
      | (U_Neg, C_F16 x) \<Rightarrow> Some (C_F16 (x XOR 0x8000))
      | (U_Not, C_Bool x) \<Rightarrow> Some (C_Bool (\<not> x))
      | _ \<Rightarrow> None)"

definition fold_rvalue :: "half_ops \<Rightarrow> rvalue \<Rightarrow> int_ty option \<Rightarrow> const option" where
  "fold_rvalue h rv dest =
     (case rv of
        R_Binary op a b \<Rightarrow>
          do { x \<leftarrow> as_const a; y \<leftarrow> as_const b; fold_binary h op x y dest }
      | R_Unary op a \<Rightarrow> do { x \<leftarrow> as_const a; fold_unary op x dest }
      | R_CheckedBinary op a b \<Rightarrow>
          do { x \<leftarrow> as_const a; y \<leftarrow> as_const b; ty \<leftarrow> dest; fold_checked op x y ty }
      | R_CheckedNeg a \<Rightarrow>
          do {
            ty \<leftarrow> dest;
            x \<leftarrow> as_const a;
            p \<leftarrow> const_payload x ty;
            let v = - it_value ty p;
            if it_fits ty v then Some (int_const ty v) else None
          }
      | _ \<Rightarrow> None)"

section \<open>The pass\<close>

definition const_fold_stmt ::
  "half_ops \<Rightarrow> type_interner \<Rightarrow> nat \<Rightarrow> local_decl list \<Rightarrow> statement \<Rightarrow> (statement \<times> bool) option" where
  "const_fold_stmt h i ptr_size locals s =
     (case s of
        S_Assign (P_Local l) rv \<Rightarrow>
          do {
            d \<leftarrow> nth_opt locals l;
            dest \<leftarrow> int_ty_of i (ld_ty d) ptr_size;
            (case fold_rvalue h rv dest of
               Some c \<Rightarrow> Some (S_Assign (P_Local l) (R_Use (O_Const c)), True)
             | None \<Rightarrow> Some (s, False))
          }
      | _ \<Rightarrow> Some (s, False))"

definition const_fold ::
  "half_ops \<Rightarrow> type_interner \<Rightarrow> nat \<Rightarrow> mir_function \<Rightarrow> (mir_function \<times> bool) option" where
  "const_fold h i ptr_size f =
     do {
       (bs, changed) \<leftarrow> map_changed (\<lambda>blk.
           do {
             (ss, c) \<leftarrow> map_changed (const_fold_stmt h i ptr_size (fn_locals f)) (stmts blk);
             Some (blk\<lparr>stmts := ss\<rparr>, c)
           }) (fn_blocks f);
       Some (f\<lparr>fn_blocks := bs\<rparr>, changed)
     }"

section \<open>The reference: machine operations on words\<close>

text \<open>
  What the backend's instruction computes on registers of the operation's width: wrapping
  arithmetic, truncating division that traps on a zero divisor, shifts by the count modulo the
  width, and an arithmetic or logical right shift by signedness.
\<close>

definition word_binop :: "bool \<Rightarrow> bin_op \<Rightarrow> 'a::len word \<Rightarrow> 'a word \<Rightarrow> 'a word option" where
  "word_binop is_signed op a b =
     (case op of
        B_Add \<Rightarrow> Some (a + b)
      | B_Sub \<Rightarrow> Some (a - b)
      | B_Mul \<Rightarrow> Some (a * b)
      | B_Div \<Rightarrow> (if b = 0 then None
                 else Some (if is_signed then word_of_int (tdiv (sint a) (sint b)) else a div b))
      | B_Rem \<Rightarrow> (if b = 0 then None
                 else Some (if is_signed then word_of_int (tmod (sint a) (sint b)) else a mod b))
      | B_BitAnd \<Rightarrow> Some (a AND b)
      | B_BitOr \<Rightarrow> Some (a OR b)
      | B_BitXor \<Rightarrow> Some (a XOR b)
      | B_Shl \<Rightarrow> Some (push_bit (unat b mod LENGTH('a)) a)
      | B_Shr \<Rightarrow> Some ((if is_signed then signed_drop_bit else drop_bit) (unat b mod LENGTH('a)) a)
      | _ \<Rightarrow> None)"

text \<open>The register contents an integer constant stands for.\<close>

definition const_word :: "const \<Rightarrow> 'a::len word" where
  "const_word c = (case c of C_Int p \<Rightarrow> word_of_int p | C_Long p \<Rightarrow> word_of_int p | _ \<Rightarrow> 0)"

lemma const_word_int_const:
  "LENGTH('a::len) = it_bits ty \<Longrightarrow> const_word (int_const ty v) = (word_of_int v :: 'a word)"
  by (simp add: const_word_def int_const_def word_of_it_wrap)

lemma word_of_as_i128:
  "LENGTH('a::len) \<le> 128 \<Longrightarrow> (word_of_int (as_i128 v) :: 'a word) = word_of_int v"
  by (simp add: word_of_int_eq_iff take_bit_signed_take_bit)

lemma it_bits_le_128: "it_bits ty \<le> 128"
  by (cases ty) simp_all

text \<open>The masked shift count of the folder is the register's count modulo the width.\<close>

lemma shift_count:
  assumes "LENGTH('a::len) = it_bits ty"
  shows "nat (as_u32 py AND (int (it_bits ty) - 1)) =
    unat (word_of_int py :: 'a word) mod LENGTH('a)"
proof -
  have mask: "as_u32 py AND (int (it_bits ty) - 1) = py mod int (it_bits ty)"
  proof -
    have "as_u32 py AND mask k = take_bit k py" if "k \<le> 32" for k
      using that by (simp add: take_bit_eq_mask[symmetric])
    from this[of 3] this[of 5] this[of 6] show ?thesis
      by (cases ty) (simp_all add: mask_eq_exp_minus_1 take_bit_eq_mod)
  qed
  have "int (unat (word_of_int py :: 'a word) mod LENGTH('a)) = (py mod 2 ^ LENGTH('a)) mod int LENGTH('a)"
    by (simp add: zmod_int uint_word_of_int)
  also have "\<dots> = py mod int (it_bits ty)"
    using assms by (cases ty) (simp_all add: mod_mod_cancel)
  finally show ?thesis using mask by (metis nat_int)
qed

lemma word_of_int_bitops:
  "(word_of_int (x AND y) :: 'a::len word) = word_of_int x AND word_of_int y"
  "(word_of_int (x OR y) :: 'a word) = word_of_int x OR word_of_int y"
  "(word_of_int (x XOR y) :: 'a word) = word_of_int x XOR word_of_int y"
  "(word_of_int (NOT x) :: 'a word) = NOT (word_of_int x)"
  "(word_of_int (push_bit n x) :: 'a word) = push_bit n (word_of_int x)"
  by (transfer; simp add: take_bit_and take_bit_or take_bit_xor take_bit_not_take_bit)+

lemma word_of_int_drop_bit:
  "word_of_int (drop_bit n (uint w)) = drop_bit n (w :: 'a::len word)"
  "word_of_int (drop_bit n (sint w)) = signed_drop_bit n (w :: 'a::len word)"
  by (transfer; simp)+

section \<open>Folded arithmetic is machine arithmetic\<close>

lemma tdiv_zero_iff_word:
  assumes "is_i64 p" and "LENGTH('a::len) = it_bits ty"
  shows "it_value ty p = 0 \<longleftrightarrow> (word_of_int p :: 'a word) = 0"
proof (cases "it_signed ty")
  case True
  with assms show ?thesis by (simp add: it_value_sint[where 'a = 'a] signed_eq_0_iff)
next
  case False
  with assms show ?thesis by (simp add: it_value_uint[where 'a = 'a] unsigned_eq_0_iff)
qed

lemma word_of_tdiv_uint:
  "word_of_int (tdiv (uint a) (uint b)) = (a div b :: 'a::len word)"
  "word_of_int (tmod (uint a) (uint b)) = (a mod b :: 'a::len word)"
  by (simp_all add: tdiv_nonneg tmod_nonneg word_div_def word_mod_def)

text \<open>
  The value of a division or shift depends on how the register is read: as a signed or as an
  unsigned number, by the type.
\<close>

lemma word_of_div_shift:
  assumes "is_i64 px" "is_i64 py" and "LENGTH('a::len) = it_bits ty"
  shows "word_of_int (tdiv (it_value ty px) (it_value ty py)) =
      (if it_signed ty then word_of_int (tdiv (sint (word_of_int px :: 'a word)) (sint (word_of_int py :: 'a word)))
       else (word_of_int px div word_of_int py :: 'a word))"
    and "word_of_int (tmod (it_value ty px) (it_value ty py)) =
      (if it_signed ty then word_of_int (tmod (sint (word_of_int px :: 'a word)) (sint (word_of_int py :: 'a word)))
       else (word_of_int px mod word_of_int py :: 'a word))"
    and "word_of_int (drop_bit n (it_value ty px)) =
      (if it_signed ty then signed_drop_bit else drop_bit) n (word_of_int px :: 'a word)"
  using assms
  by (auto simp: it_value_sint[where 'a = 'a] it_value_uint[where 'a = 'a] word_of_tdiv_uint
      word_of_int_drop_bit)

text \<open>
  C28: a folded integer operation is the machine operation. Folding the payloads of two integer
  constants at the type of the operation gives the constant whose register contents are the
  wrapping word operation on the operands' registers, and folds nothing exactly where the machine
  traps (a zero divisor) or the operator is no integer operator.
\<close>

theorem fold_int_arith_word:
  assumes "is_i64 px" "is_i64 py" "\<not> is_comparison op" "fold_type wide dest = Some ty"
    and len: "LENGTH('a::len) = it_bits ty"
  shows "map_option const_word (fold_int op px py wide dest) =
    word_binop (it_signed ty) op (word_of_int px :: 'a word) (word_of_int py)"
proof -
  have l128: "LENGTH('a) \<le> 128" using len it_bits_le_128[of ty] by simp
  have vx: "(word_of_int (it_value ty px) :: 'a word) = word_of_int px"
    and vy: "(word_of_int (it_value ty py) :: 'a word) = word_of_int py"
    using assms(1,2) len by (simp_all add: word_of_it_value)
  note facts = fold_int_def word_binop_def const_word_int_const[OF len] word_of_as_i128[OF l128]
    vx vy word_of_int_bitops wi_hom_syms shift_count[OF len] tdiv_zero_iff_word[OF assms(2) len]
    word_of_div_shift[OF assms(1,2) len] Let_def
  show ?thesis
    using assms(3,4) by (cases op) (simp_all add: facts is_comparison_def)
qed

theorem fold_int_arith_word_witness:
  "map_option const_word (fold_int B_Add 0x7FFFFFFF 1 False (Some IT_Int)) =
    word_binop True B_Add (word_of_int 0x7FFFFFFF :: 32 word) (word_of_int 1)"
  using fold_int_arith_word[where 'a = 32, of "0x7FFFFFFF" 1 B_Add False "Some IT_Int" IT_Int]
  by (simp add: is_i64_def is_comparison_def fold_type_def it_is_64_def it_signed_def)

text \<open>Comparisons: on canonical payloads of one type the folded answer compares the values.\<close>

definition int_compare :: "bin_op \<Rightarrow> int \<Rightarrow> int \<Rightarrow> bool" where
  "int_compare op x y =
     (case op of B_Eq \<Rightarrow> x = y | B_Ne \<Rightarrow> x \<noteq> y | B_Lt \<Rightarrow> x < y | B_Le \<Rightarrow> x \<le> y | B_Gt \<Rightarrow> x > y
      | _ \<Rightarrow> x \<ge> y)"

lemma it_value_canonical:
  assumes "it_canonical ty p" and "it_is_64 ty \<longrightarrow> 0 \<le> p"
  shows "it_value ty p = p"
proof (cases ty)
  case IT_ULong
  with assms have "0 \<le> p" "p < 2 ^ 63"
    by (simp_all add: it_is_64_def it_canonical_def is_i64_def)
  with IT_ULong show ?thesis by (simp add: take_bit_int_eq_self_iff)
qed (use assms in \<open>simp_all add: it_canonical_def take_bit_signed_take_bit\<close>)

text \<open>
  A folded comparison compares the values of the type, not the stored payloads: for canonical
  payloads of the operand type the folded Boolean is the comparison of the mathematical values, and
  the folder declines where the two could differ.
\<close>

theorem fold_int_comparison:
  assumes "it_canonical ty px" "it_canonical ty py" "is_comparison op" "it_is_64 ty = wide"
    and "fold_int op px py wide dest = Some c"
  shows "c = C_Bool (int_compare op (it_value ty px) (it_value ty py))"
proof -
  from assms have "\<not> (wide \<and> (px < 0 \<or> py < 0))" by (auto simp: fold_int_def)
  then have "it_value ty px = px" "it_value ty py = py"
    using assms(1,2,4) by (auto intro!: it_value_canonical)
  with assms(3,5) show ?thesis
    by (auto simp: fold_int_def int_compare_def is_comparison_def split: if_splits)
qed

theorem fold_int_comparison_witness:
  "fold_int B_Lt 3 0xFFFFFFFF False None = Some (C_Bool True) \<and>
   C_Bool True = C_Bool (int_compare B_Lt (it_value IT_UInt 3) (it_value IT_UInt 0xFFFFFFFF))"
proof -
  have f: "fold_int B_Lt 3 0xFFFFFFFF False None = Some (C_Bool True)"
    by (simp add: fold_int_def is_comparison_def)
  have "it_canonical IT_UInt 3" "it_canonical IT_UInt 0xFFFFFFFF" "is_comparison B_Lt" "it_is_64 IT_UInt = False"
    by (simp_all add: it_canonical_def is_i64_def is_comparison_def it_is_64_def)
  from f fold_int_comparison[OF this f] show ?thesis by simp
qed

section \<open>Checked operations fold exactly when they cannot panic\<close>





text \<open>
  A checked left shift folds for every count below the width and panics on the others; the
  folded register drops the bits shifted out, as the machine's shift does.
\<close>

theorem fold_checked_shl:
  assumes "const_payload a ty = Some pa" "const_payload b ty = Some pb" and "is_i64 pa"
    and len: "LENGTH('a::len) = it_bits ty"
  shows "map_option const_word (fold_checked B_Shl a b ty) =
    (let n = it_value ty pb in
     if 0 \<le> n \<and> n < int (it_bits ty)
     then Some (push_bit (nat n) (word_of_int pa :: 'a word)) else None)"
proof -
  have l128: "LENGTH('a) \<le> 128" using len it_bits_le_128[of ty] by simp
  show ?thesis
    using assms(1,2)
    by (simp add: fold_checked_def Let_def const_word_int_const[OF len] word_of_as_i128[OF l128]
        word_of_int_bitops word_of_it_value[OF assms(3) len])
qed

theorem fold_checked_shl_witness:
  "map_option const_word (fold_checked B_Shl (C_Int 3) (C_Int 31) IT_Int) = Some (push_bit 31 (3 :: 32 word))"
  using fold_checked_shl[where 'a = 32, of "C_Int 3" IT_Int 3 "C_Int 31" 31]
  by (simp add: const_payload_def it_is_64_def is_i64_def)

text \<open>
  Writing an in-range value as a constant of a type and reading it back gives the value, and the
  stored payload is canonical.
\<close>

theorem int_const_exact:
  "it_fits ty v \<Longrightarrow> \<exists>p. const_payload (int_const ty v) ty = Some p \<and> it_value ty p = v \<and> it_canonical ty p"
  using it_wrap_canonical[of ty v] by (auto simp: int_const_def const_payload_def it_value_wrap_fits)

theorem int_const_exact_witness:
  "\<exists>p. const_payload (int_const IT_ULong 0xFFFFFFFFFFFFFFFF) IT_ULong = Some p \<and>
     it_value IT_ULong p = 0xFFFFFFFFFFFFFFFF \<and> it_canonical IT_ULong p"
  using int_const_exact[of IT_ULong "0xFFFFFFFFFFFFFFFF"] by (simp add: it_fits_def it_min_def it_max_def it_signed_def)

section \<open>The pass keeps the control flow\<close>

lemma const_fold_stmt_cases:
  assumes "const_fold_stmt h i ptr_size locals s = Some (s', c)"
  shows "\<not> c \<and> s' = s \<or>
    c \<and> (\<exists>l rv k d dest. s = S_Assign (P_Local l) rv \<and> s' = S_Assign (P_Local l) (R_Use (O_Const k)) \<and>
      nth_opt locals l = Some d \<and> int_ty_of i (ld_ty d) ptr_size = Some dest \<and>
      fold_rvalue h rv dest = Some k)"
  using assms
  by (auto simp: const_fold_stmt_def bind_Some_iff split: statement.splits place.splits option.splits)

end
