(* ===== verification/Mir_Machine.thy ===== *)
theory Mir_Machine
  imports Mir_Syntax
begin

text \<open>
  An operational semantics of the mid-level representation, against which the passes are proved
  correct. What a runtime, a callee or the heap does is a parameter, the record \<open>machine\<close>: the
  values of constants, loads and stores through memory places, the effect of every rvalue and
  statement that is not a plain data movement, the settled value of a future. What the
  representation itself promises is fixed here: locals are private registers, operands are
  evaluated without effects and may fault, \<open>Use\<close> and \<open>Select\<close> move values, statements run in
  order, terminators choose the next block, \<open>Unreachable\<close> has no behaviour at all.

  A value-typed local names a slot of the heap: reading it gives the slot's address and assigning
  to it copies into the slot. The rvalues whose meaning depends on the static type of an operand
  (\<open>to_string\<close>, \<open>hash_code\<close>, \<open>type_name\<close> and the comparisons) see the operands themselves, all
  others see only the operands' values.
\<close>

section \<open>Operands of rvalues, statements and terminators\<close>

fun rvalue_operands :: "rvalue \<Rightarrow> operand list" where
  "rvalue_operands (R_RawLoad o1 t) = [o1]"
| "rvalue_operands (R_Zero t) = []"
| "rvalue_operands (R_ObservedLoad o1) = [o1]"
| "rvalue_operands (R_Use o1) = [o1]"
| "rvalue_operands (R_Move l k) = []"
| "rvalue_operands (R_Select c a b) = [c, a, b]"
| "rvalue_operands (R_Binary op a b) = [a, b]"
| "rvalue_operands (R_Unary op a) = [a]"
| "rvalue_operands (R_CheckedBinary op a b) = [a, b]"
| "rvalue_operands (R_CheckedNeg a) = [a]"
| "rvalue_operands (R_StrLen a) = [a]"
| "rvalue_operands (R_StrByteSize a) = [a]"
| "rvalue_operands (R_CharAt a b u) = [a, b]"
| "rvalue_operands (R_ByteAt a b u) = [a, b]"
| "rvalue_operands (R_StrBytes a) = [a]"
| "rvalue_operands (R_LoadU8 a b n) = [a, b] @ (case n of None \<Rightarrow> [] | Some x \<Rightarrow> [x])"
| "rvalue_operands (R_LoadU16 a b n) = [a, b] @ (case n of None \<Rightarrow> [] | Some x \<Rightarrow> [x])"
| "rvalue_operands (R_ArrayNew t a z) = [a]"
| "rvalue_operands (R_HashCode a) = [a]"
| "rvalue_operands (R_ToString a) = [a]"
| "rvalue_operands (R_Concat ps) = ps"
| "rvalue_operands (R_ConcatInt p v s) = [p, v, s]"
| "rvalue_operands (R_EnumName a ns) = [a]"
| "rvalue_operands (R_Call c as) = as"
| "rvalue_operands (R_IndirectCall x t as) = x # as"
| "rvalue_operands (R_InterfaceCall x i j t as r) = x # as"
| "rvalue_operands (R_FuncRef c) = []"
| "rvalue_operands (R_New d t c as) = as"
| "rvalue_operands (R_Tuple t es) = es"
| "rvalue_operands (R_UnionNew d t v as) = as"
| "rvalue_operands (R_ArrayLit t es) = es"
| "rvalue_operands (R_ArrayLen a) = [a]"
| "rvalue_operands (R_ToBytes a t u) = [a]"
| "rvalue_operands (R_FromBytes a t u) = [a]"
| "rvalue_operands (R_ArrayRealloc t a n) = [a, n]"
| "rvalue_operands (R_ArraySlotTake t a n) = [a, n]"
| "rvalue_operands (R_Cast a t u) = [a]"
| "rvalue_operands (R_Discriminant a t) = [a]"
| "rvalue_operands (R_UnionField a t v i) = [a]"
| "rvalue_operands (R_IsType a t) = [a]"
| "rvalue_operands (R_TypeName a) = [a]"
| "rvalue_operands (R_JsCall c x via meth as) =
     x # (case via of None \<Rightarrow> [] | Some v \<Rightarrow> [v]) @ (case meth of None \<Rightarrow> [] | Some v \<Rightarrow> [v]) @ map fst as"

fun map_rvalue_operands :: "(operand \<Rightarrow> operand) \<Rightarrow> rvalue \<Rightarrow> rvalue" where
  "map_rvalue_operands g (R_RawLoad o1 t) = R_RawLoad (g o1) t"
| "map_rvalue_operands g (R_Zero t) = R_Zero t"
| "map_rvalue_operands g (R_ObservedLoad o1) = R_ObservedLoad (g o1)"
| "map_rvalue_operands g (R_Use o1) = R_Use (g o1)"
| "map_rvalue_operands g (R_Move l k) = R_Move l k"
| "map_rvalue_operands g (R_Select c a b) = R_Select (g c) (g a) (g b)"
| "map_rvalue_operands g (R_Binary op a b) = R_Binary op (g a) (g b)"
| "map_rvalue_operands g (R_Unary op a) = R_Unary op (g a)"
| "map_rvalue_operands g (R_CheckedBinary op a b) = R_CheckedBinary op (g a) (g b)"
| "map_rvalue_operands g (R_CheckedNeg a) = R_CheckedNeg (g a)"
| "map_rvalue_operands g (R_StrLen a) = R_StrLen (g a)"
| "map_rvalue_operands g (R_StrByteSize a) = R_StrByteSize (g a)"
| "map_rvalue_operands g (R_CharAt a b u) = R_CharAt (g a) (g b) u"
| "map_rvalue_operands g (R_ByteAt a b u) = R_ByteAt (g a) (g b) u"
| "map_rvalue_operands g (R_StrBytes a) = R_StrBytes (g a)"
| "map_rvalue_operands g (R_LoadU8 a b n) = R_LoadU8 (g a) (g b) (map_option g n)"
| "map_rvalue_operands g (R_LoadU16 a b n) = R_LoadU16 (g a) (g b) (map_option g n)"
| "map_rvalue_operands g (R_ArrayNew t a z) = R_ArrayNew t (g a) z"
| "map_rvalue_operands g (R_HashCode a) = R_HashCode (g a)"
| "map_rvalue_operands g (R_ToString a) = R_ToString (g a)"
| "map_rvalue_operands g (R_Concat ps) = R_Concat (map g ps)"
| "map_rvalue_operands g (R_ConcatInt p v s) = R_ConcatInt (g p) (g v) (g s)"
| "map_rvalue_operands g (R_EnumName a ns) = R_EnumName (g a) ns"
| "map_rvalue_operands g (R_Call c as) = R_Call c (map g as)"
| "map_rvalue_operands g (R_IndirectCall x t as) = R_IndirectCall (g x) t (map g as)"
| "map_rvalue_operands g (R_InterfaceCall x i j t as r) = R_InterfaceCall (g x) i j t (map g as) r"
| "map_rvalue_operands g (R_FuncRef c) = R_FuncRef c"
| "map_rvalue_operands g (R_New d t c as) = R_New d t c (map g as)"
| "map_rvalue_operands g (R_Tuple t es) = R_Tuple t (map g es)"
| "map_rvalue_operands g (R_UnionNew d t v as) = R_UnionNew d t v (map g as)"
| "map_rvalue_operands g (R_ArrayLit t es) = R_ArrayLit t (map g es)"
| "map_rvalue_operands g (R_ArrayLen a) = R_ArrayLen (g a)"
| "map_rvalue_operands g (R_ToBytes a t u) = R_ToBytes (g a) t u"
| "map_rvalue_operands g (R_FromBytes a t u) = R_FromBytes (g a) t u"
| "map_rvalue_operands g (R_ArrayRealloc t a n) = R_ArrayRealloc t (g a) (g n)"
| "map_rvalue_operands g (R_ArraySlotTake t a n) = R_ArraySlotTake t (g a) (g n)"
| "map_rvalue_operands g (R_Cast a t u) = R_Cast (g a) t u"
| "map_rvalue_operands g (R_Discriminant a t) = R_Discriminant (g a) t"
| "map_rvalue_operands g (R_UnionField a t v i) = R_UnionField (g a) t v i"
| "map_rvalue_operands g (R_IsType a t) = R_IsType (g a) t"
| "map_rvalue_operands g (R_TypeName a) = R_TypeName (g a)"
| "map_rvalue_operands g (R_JsCall c x via meth as) =
     R_JsCall c (g x) (map_option g via) (map_option g meth) (map (\<lambda>(a, t). (g a, t)) as)"

text \<open>The operands of a statement; those of an assignment are its rvalue's.\<close>

fun stmt_operands :: "statement \<Rightarrow> operand list" where
  "stmt_operands (S_RawStore a v t) = [a, v]"
| "stmt_operands (S_Assign p rv) = rvalue_operands rv"
| "stmt_operands (S_Retain a) = [a]"
| "stmt_operands (S_Release a) = [a]"
| "stmt_operands (S_Panic a) = [a]"
| "stmt_operands (S_Call c as) = as"
| "stmt_operands (S_JsCall c x via meth as) =
     x # (case via of None \<Rightarrow> [] | Some v \<Rightarrow> [v]) @ (case meth of None \<Rightarrow> [] | Some v \<Rightarrow> [v]) @ map fst as"
| "stmt_operands (S_InterfaceCall x i j t as) = x # as"
| "stmt_operands (S_IndirectCall x t as) = x # as"
| "stmt_operands (S_Print a t n) = [a]"
| "stmt_operands S_Nop = []"
| "stmt_operands (S_DebugLine n) = []"
| "stmt_operands (S_SourceLine n) = []"
| "stmt_operands (S_ArrayElemsCopy t d x s y c) = [d, x, s, y, c]"
| "stmt_operands (S_ArrayElemsFill t d x c) = [d, x, c]"
| "stmt_operands (S_ArraySlotSwap t a l b r) = [a, l, b, r]"
| "stmt_operands (S_ForceFree a) = [a]"
| "stmt_operands (S_LockAcquire a) = [a]"
| "stmt_operands (S_LockRelease a) = [a]"
| "stmt_operands S_DeferEnter = []"
| "stmt_operands (S_DeferLeave a) = [a]"
| "stmt_operands S_RegionEnter = []"
| "stmt_operands S_RegionLeave = []"
| "stmt_operands (S_SimdV128 ln op d l r i sp fma) = [d, l, r, i] @ (case sp of None \<Rightarrow> [] | Some x \<Rightarrow> [x])"
| "stmt_operands (S_ValueDrop l) = []"
| "stmt_operands (S_ValueRetain l) = []"
| "stmt_operands (S_ValueKill l) = []"

fun map_stmt_operands :: "(operand \<Rightarrow> operand) \<Rightarrow> statement \<Rightarrow> statement" where
  "map_stmt_operands g (S_RawStore a v t) = S_RawStore (g a) (g v) t"
| "map_stmt_operands g (S_Assign p rv) = S_Assign p (map_rvalue_operands g rv)"
| "map_stmt_operands g (S_Retain a) = S_Retain (g a)"
| "map_stmt_operands g (S_Release a) = S_Release (g a)"
| "map_stmt_operands g (S_Panic a) = S_Panic (g a)"
| "map_stmt_operands g (S_Call c as) = S_Call c (map g as)"
| "map_stmt_operands g (S_JsCall c x via meth as) =
     S_JsCall c (g x) (map_option g via) (map_option g meth) (map (\<lambda>(a, t). (g a, t)) as)"
| "map_stmt_operands g (S_InterfaceCall x i j t as) = S_InterfaceCall (g x) i j t (map g as)"
| "map_stmt_operands g (S_IndirectCall x t as) = S_IndirectCall (g x) t (map g as)"
| "map_stmt_operands g (S_Print a t n) = S_Print (g a) t n"
| "map_stmt_operands g S_Nop = S_Nop"
| "map_stmt_operands g (S_DebugLine n) = S_DebugLine n"
| "map_stmt_operands g (S_SourceLine n) = S_SourceLine n"
| "map_stmt_operands g (S_ArrayElemsCopy t d x s y c) = S_ArrayElemsCopy t (g d) (g x) (g s) (g y) (g c)"
| "map_stmt_operands g (S_ArrayElemsFill t d x c) = S_ArrayElemsFill t (g d) (g x) (g c)"
| "map_stmt_operands g (S_ArraySlotSwap t a l b r) = S_ArraySlotSwap t (g a) (g l) (g b) (g r)"
| "map_stmt_operands g (S_ForceFree a) = S_ForceFree (g a)"
| "map_stmt_operands g (S_LockAcquire a) = S_LockAcquire (g a)"
| "map_stmt_operands g (S_LockRelease a) = S_LockRelease (g a)"
| "map_stmt_operands g S_DeferEnter = S_DeferEnter"
| "map_stmt_operands g (S_DeferLeave a) = S_DeferLeave (g a)"
| "map_stmt_operands g S_RegionEnter = S_RegionEnter"
| "map_stmt_operands g S_RegionLeave = S_RegionLeave"
| "map_stmt_operands g (S_SimdV128 ln op d l r i sp fma) =
     S_SimdV128 ln op (g d) (g l) (g r) (g i) (map_option g sp) fma"
| "map_stmt_operands g (S_ValueDrop l) = S_ValueDrop l"
| "map_stmt_operands g (S_ValueRetain l) = S_ValueRetain l"
| "map_stmt_operands g (S_ValueKill l) = S_ValueKill l"

fun term_operands :: "terminator \<Rightarrow> operand list" where
  "term_operands (T_If c t e) = [c]"
| "term_operands (T_Switch v ts d) = [v]"
| "term_operands (T_Return v) = (case v of None \<Rightarrow> [] | Some x \<Rightarrow> [x])"
| "term_operands (T_AsyncComplete v) = (case v of None \<Rightarrow> [] | Some x \<Rightarrow> [x])"
| "term_operands (T_Await fut d r) = [fut]"
| "term_operands (T_TailCall c as) = as"
| "term_operands (T_Goto b) = []"
| "term_operands T_Unreachable = []"

lemma rvalue_operands_map: "rvalue_operands (map_rvalue_operands g rv) = map g (rvalue_operands rv)"
  by (cases rv) (auto split: option.splits)

lemma stmt_operands_map: "stmt_operands (map_stmt_operands g st) = map g (stmt_operands st)"
  by (cases st) (auto simp: rvalue_operands_map split: option.splits)

lemma map_rvalue_operands_comp:
  "map_rvalue_operands g (map_rvalue_operands h rv) = map_rvalue_operands (g \<circ> h) rv"
  by (cases rv) (auto simp: option.map_comp)

lemma map_stmt_operands_comp:
  "map_stmt_operands g (map_stmt_operands h st) = map_stmt_operands (g \<circ> h) st"
  by (cases st) (auto simp: option.map_comp map_rvalue_operands_comp)

lemma map_args_cong:
  "\<forall>x \<in> set as. g (fst x) = h (fst x) \<Longrightarrow> map (\<lambda>(a, t). (g a, t)) as = map (\<lambda>(a, t). (h a, t)) as"
  by (auto split: prod.splits)

lemma map_opt_cong: "\<forall>x \<in> set_option v. g x = h x \<Longrightarrow> map_option g v = map_option h v"
  by (cases v) auto

lemma map_rvalue_operands_cong:
  assumes "\<forall>x \<in> set (rvalue_operands rv). g x = h x"
  shows "map_rvalue_operands g rv = map_rvalue_operands h rv"
  using assms by (cases rv) (simp_all add: map_args_cong map_opt_cong split: option.splits, force)

lemma map_stmt_operands_cong:
  assumes "\<forall>x \<in> set (stmt_operands st). g x = h x"
  shows "map_stmt_operands g st = map_stmt_operands h st"
  using assms
  by (cases st) (simp_all add: map_args_cong map_opt_cong map_rvalue_operands_cong split: option.splits, force)

section \<open>The machine\<close>

datatype ('a, 'h) eff = Ok 'a 'h | Trap 'h

text \<open>
  The hooks: constants, the truth value and the switch key of a value, memory loads and stores (by
  the place, the values of its base and index, and the heap; \<open>None\<close> is a fault), rvalues and
  statements (by their shape, the operands' values and the heap), the result of awaiting a future
  and of a tail call, and which locals are value-typed.
\<close>

record ('v, 'h) machine =
  m_const :: "const \<Rightarrow> 'v"
  m_truth :: "'v \<Rightarrow> bool"
  m_key :: "'v \<Rightarrow> int"
  m_load :: "place \<Rightarrow> 'v list \<Rightarrow> 'h \<Rightarrow> 'v option"
  m_store :: "place \<Rightarrow> 'v list \<Rightarrow> 'v \<Rightarrow> 'h \<Rightarrow> 'h option"
  m_rvalue :: "place \<Rightarrow> rvalue \<Rightarrow> 'v list \<Rightarrow> 'h \<Rightarrow> ('v, 'h) eff"
  m_stmt :: "statement \<Rightarrow> 'v list \<Rightarrow> 'h \<Rightarrow> (unit, 'h) eff"
  m_await :: "'v \<Rightarrow> 'h \<Rightarrow> ('v, 'h) eff"
  m_tail :: "callee \<Rightarrow> 'v list \<Rightarrow> 'h \<Rightarrow> ('v option, 'h) eff"
  m_is_value :: "local \<Rightarrow> bool"

record ('v, 'h) state =
  loc :: "local \<Rightarrow> 'v"
  heap :: 'h

datatype ('v, 'h) outcome =
    Returned "'v option" 'h
  | Completed "'v option" 'h
  | Panicked 'h

text \<open>The machine keeps exactly the value-typed locals of a function in memory.\<close>

definition machine_types :: "('v, 'h) machine \<Rightarrow> type_interner \<Rightarrow> local_decl list \<Rightarrow> bool" where
  "machine_types m interner locals \<longleftrightarrow>
     (\<forall>l. m_is_value m l \<longleftrightarrow>
        l < length locals \<and> is_value_type interner (ld_ty (locals ! l)) = Some True)"

section \<open>Evaluation\<close>

definition erase_place :: "place \<Rightarrow> place" where
  "erase_place p = (case p of P_Index b i u \<Rightarrow> P_Index b (O_Const C_Null) u | _ \<Rightarrow> p)"

fun eval_operand :: "('v, 'h) machine \<Rightarrow> ('v, 'h) state \<Rightarrow> operand \<Rightarrow> 'v option"
and place_args :: "('v, 'h) machine \<Rightarrow> ('v, 'h) state \<Rightarrow> place \<Rightarrow> 'v list option" where
  "eval_operand m s (O_Const c) = Some (m_const m c)"
| "eval_operand m s (O_Copy (P_Local l)) = Some (loc s l)"
| "eval_operand m s (O_Copy p) =
     Option.bind (place_args m s p) (\<lambda>vs. m_load m (erase_place p) vs (heap s))"
| "place_args m s (P_Local l) = Some [loc s l]"
| "place_args m s (P_Global g) = Some []"
| "place_args m s (P_Field b i) = Some [loc s b]"
| "place_args m s (P_Index b i u) = map_option (\<lambda>v. [loc s b, v]) (eval_operand m s i)"
| "place_args m s (P_Deref l t) = Some [loc s l]"

fun eval_operands :: "('v, 'h) machine \<Rightarrow> ('v, 'h) state \<Rightarrow> operand list \<Rightarrow> 'v list option" where
  "eval_operands m s [] = Some []"
| "eval_operands m s (x # xs) =
     do { v \<leftarrow> eval_operand m s x; vs \<leftarrow> eval_operands m s xs; Some (v # vs) }"

text \<open>Rvalues whose operation is picked by the static type of an operand.\<close>

definition operand_typed :: "rvalue \<Rightarrow> bool" where
  "operand_typed rv =
     (case rv of
        R_TypeName _ \<Rightarrow> True | R_HashCode _ \<Rightarrow> True | R_ToString _ \<Rightarrow> True
      | R_Binary op _ _ \<Rightarrow> is_comparison op
      | _ \<Rightarrow> False)"

definition rvalue_key :: "rvalue \<Rightarrow> rvalue" where
  "rvalue_key rv =
     (if operand_typed rv then rv else map_rvalue_operands (\<lambda>_. O_Const C_Null) rv)"

definition stmt_key :: "statement \<Rightarrow> statement" where
  "stmt_key st = map_stmt_operands (\<lambda>_. O_Const C_Null) st"

definition rvalue_locals :: "rvalue \<Rightarrow> local list" where
  "rvalue_locals rv = (case rv of R_Move l _ \<Rightarrow> [l] | _ \<Rightarrow> [])"

definition stmt_locals :: "statement \<Rightarrow> local list" where
  "stmt_locals st =
     (case st of S_ValueDrop l \<Rightarrow> [l] | S_ValueRetain l \<Rightarrow> [l] | S_ValueKill l \<Rightarrow> [l] | _ \<Rightarrow> [])"

definition eval_rvalue ::
  "('v, 'h) machine \<Rightarrow> place \<Rightarrow> rvalue \<Rightarrow> ('v, 'h) state \<Rightarrow> ('v, 'h) eff" where
  "eval_rvalue m p rv s =
     (case eval_operands m s (rvalue_operands rv) of
        None \<Rightarrow> Trap (heap s)
      | Some vs \<Rightarrow>
          (case rv of
             R_Use _ \<Rightarrow> Ok (vs ! 0) (heap s)
           | R_Select _ _ _ \<Rightarrow> Ok (if m_truth m (vs ! 0) then vs ! 1 else vs ! 2) (heap s)
           | _ \<Rightarrow> m_rvalue m (erase_place p) (rvalue_key rv)
                    (map (loc s) (rvalue_locals rv) @ vs) (heap s)))"

definition store_place ::
  "('v, 'h) machine \<Rightarrow> place \<Rightarrow> 'v \<Rightarrow> ('v, 'h) state \<Rightarrow> ('v, 'h) state option" where
  "store_place m p v s =
     do {
       vs \<leftarrow> place_args m s p;
       h \<leftarrow> m_store m (erase_place p) vs v (heap s);
       Some (s\<lparr>heap := h\<rparr>)
     }"

definition write_place ::
  "('v, 'h) machine \<Rightarrow> place \<Rightarrow> 'v \<Rightarrow> ('v, 'h) state \<Rightarrow> ('v, 'h) state option" where
  "write_place m p v s =
     (case p of
        P_Local l \<Rightarrow>
          (if m_is_value m l then store_place m p v s else Some (s\<lparr>loc := (loc s)(l := v)\<rparr>))
      | _ \<Rightarrow> store_place m p v s)"

datatype ('v, 'h) res = Next "('v, 'h) state" | Fault 'h

definition exec_stmt ::
  "('v, 'h) machine \<Rightarrow> statement \<Rightarrow> ('v, 'h) state \<Rightarrow> ('v, 'h) res" where
  "exec_stmt m st s =
     (case st of
        S_Nop \<Rightarrow> Next s
      | S_Assign p rv \<Rightarrow>
          (case eval_rvalue m p rv s of
             Trap h \<Rightarrow> Fault h
           | Ok v h \<Rightarrow>
               (case write_place m p v (s\<lparr>heap := h\<rparr>) of None \<Rightarrow> Fault h | Some s' \<Rightarrow> Next s'))
      | _ \<Rightarrow>
          (case eval_operands m s (stmt_operands st) of
             None \<Rightarrow> Fault (heap s)
           | Some vs \<Rightarrow>
               (case m_stmt m (stmt_key st) (map (loc s) (stmt_locals st) @ vs) (heap s) of
                  Trap h \<Rightarrow> Fault h
                | Ok _ h \<Rightarrow> Next (s\<lparr>heap := h\<rparr>))))"

fun exec_stmts ::
  "('v, 'h) machine \<Rightarrow> statement list \<Rightarrow> ('v, 'h) state \<Rightarrow> ('v, 'h) res" where
  "exec_stmts m [] s = Next s"
| "exec_stmts m (st # sts) s =
     (case exec_stmt m st s of Fault h \<Rightarrow> Fault h | Next s' \<Rightarrow> exec_stmts m sts s')"

section \<open>Control\<close>

datatype ('v, 'h) step =
    Jump block_id "('v, 'h) state"
  | Stop "('v, 'h) outcome"
  | Stuck

definition switch_target :: "(int \<times> block_id) list \<Rightarrow> int \<Rightarrow> block_id \<Rightarrow> block_id" where
  "switch_target targets k dflt = (case map_of targets k of Some b \<Rightarrow> b | None \<Rightarrow> dflt)"

text \<open>The optional result of a return.\<close>

definition eval_result ::
  "('v, 'h) machine \<Rightarrow> ('v, 'h) state \<Rightarrow> operand option \<Rightarrow> 'v option option" where
  "eval_result m s v = (case v of None \<Rightarrow> Some None | Some x \<Rightarrow> map_option Some (eval_operand m s x))"

definition exec_term ::
  "('v, 'h) machine \<Rightarrow> terminator \<Rightarrow> ('v, 'h) state \<Rightarrow> ('v, 'h) step" where
  "exec_term m t s =
     (case t of
        T_Goto b \<Rightarrow> Jump b s
      | T_If c b e \<Rightarrow>
          (case eval_operand m s c of
             None \<Rightarrow> Stop (Panicked (heap s))
           | Some v \<Rightarrow> Jump (if m_truth m v then b else e) s)
      | T_Switch c targets dflt \<Rightarrow>
          (case eval_operand m s c of
             None \<Rightarrow> Stop (Panicked (heap s))
           | Some v \<Rightarrow> Jump (switch_target targets (m_key m v) dflt) s)
      | T_Return v \<Rightarrow>
          (case eval_result m s v of
             None \<Rightarrow> Stop (Panicked (heap s)) | Some r \<Rightarrow> Stop (Returned r (heap s)))
      | T_AsyncComplete v \<Rightarrow>
          (case eval_result m s v of
             None \<Rightarrow> Stop (Panicked (heap s)) | Some r \<Rightarrow> Stop (Completed r (heap s)))
      | T_Await fut dest resume \<Rightarrow>
          (case eval_operand m s fut of
             None \<Rightarrow> Stop (Panicked (heap s))
           | Some v \<Rightarrow>
               (case m_await m v (heap s) of
                  Trap h \<Rightarrow> Stop (Panicked h)
                | Ok r h \<Rightarrow>
                    (case dest of
                       None \<Rightarrow> Jump resume (s\<lparr>heap := h\<rparr>)
                     | Some d \<Rightarrow>
                         (case write_place m (P_Local d) r (s\<lparr>heap := h\<rparr>) of
                            None \<Rightarrow> Stop (Panicked h) | Some s' \<Rightarrow> Jump resume s'))))
      | T_TailCall c args \<Rightarrow>
          (case eval_operands m s args of
             None \<Rightarrow> Stop (Panicked (heap s))
           | Some vs \<Rightarrow>
               (case m_tail m c vs (heap s) of
                  Trap h \<Rightarrow> Stop (Panicked h) | Ok r h \<Rightarrow> Stop (Returned r h)))
      | T_Unreachable \<Rightarrow> Stuck)"

definition exec_block ::
  "('v, 'h) machine \<Rightarrow> basic_block \<Rightarrow> ('v, 'h) state \<Rightarrow> ('v, 'h) step" where
  "exec_block m blk s =
     (case exec_stmts m (stmts blk) s of
        Fault h \<Rightarrow> Stop (Panicked h) | Next s' \<Rightarrow> exec_term m (term_of blk) s')"

definition block_step ::
  "('v, 'h) machine \<Rightarrow> mir_function \<Rightarrow> block_id \<Rightarrow> ('v, 'h) state \<Rightarrow> ('v, 'h) step" where
  "block_step m f b s = (case block f b of None \<Rightarrow> Stuck | Some blk \<Rightarrow> exec_block m blk s)"

text \<open>\<open>runs m f b s r\<close>: started at block \<open>b\<close> in state \<open>s\<close>, the function ends with outcome \<open>r\<close>.\<close>

inductive runs ::
  "('v, 'h) machine \<Rightarrow> mir_function \<Rightarrow> block_id \<Rightarrow> ('v, 'h) state \<Rightarrow> ('v, 'h) outcome \<Rightarrow> bool"
  for m f where
  runs_stop: "block_step m f b s = Stop r \<Longrightarrow> runs m f b s r"
| runs_jump: "block_step m f b s = Jump b' s' \<Longrightarrow> runs m f b' s' r \<Longrightarrow> runs m f b s r"

text \<open>An executable version with a bound on the number of blocks.\<close>

fun run_fuel ::
  "nat \<Rightarrow> ('v, 'h) machine \<Rightarrow> mir_function \<Rightarrow> block_id \<Rightarrow> ('v, 'h) state \<Rightarrow> ('v, 'h) outcome option" where
  "run_fuel 0 m f b s = None"
| "run_fuel (Suc n) m f b s =
     (case block_step m f b s of
        Stuck \<Rightarrow> None
      | Stop r \<Rightarrow> Some r
      | Jump b' s' \<Rightarrow> run_fuel n m f b' s')"

section \<open>Basic facts\<close>

inductive_cases runs_cases: "runs m f b s r"

lemma runs_iff:
  "runs m f b s r \<longleftrightarrow>
     (case block_step m f b s of Stop r' \<Rightarrow> r' = r | Jump b' s' \<Rightarrow> runs m f b' s' r | Stuck \<Rightarrow> False)"
  by (auto intro: runs.intros elim: runs_cases split: step.splits)

lemma runs_run_fuel: "runs m f b s r \<longleftrightarrow> (\<exists>n. run_fuel n m f b s = Some r)"
proof
  assume "runs m f b s r"
  then show "\<exists>n. run_fuel n m f b s = Some r"
  proof induction
    case (runs_stop b s r)
    then have "run_fuel 1 m f b s = Some r" by simp
    then show ?case ..
  next
    case (runs_jump b s b' s' r)
    then obtain n where "run_fuel n m f b' s' = Some r" by blast
    with runs_jump have "run_fuel (Suc n) m f b s = Some r" by simp
    then show ?case ..
  qed
next
  assume "\<exists>n. run_fuel n m f b s = Some r"
  then obtain n where "run_fuel n m f b s = Some r" ..
  then show "runs m f b s r"
    by (induction n arbitrary: b s) (auto intro: runs.intros split: step.splits)
qed

lemma runs_deterministic: "runs m f b s r \<Longrightarrow> runs m f b s r' \<Longrightarrow> r = r'"
proof (induction arbitrary: r' rule: runs.induct)
  case (runs_stop b s r)
  from runs_stop.prems runs_stop.hyps show ?case by (subst (asm) runs_iff) simp
next
  case (runs_jump b s b' s' r)
  from runs_jump.prems runs_jump.hyps(1) have "runs m f b' s' r'" by (subst (asm) runs_iff) simp
  then show ?case by (rule runs_jump.IH)
qed

lemma exec_stmts_append:
  "exec_stmts m (xs @ ys) s =
     (case exec_stmts m xs s of Fault h \<Rightarrow> Fault h | Next s' \<Rightarrow> exec_stmts m ys s')"
  by (induction xs arbitrary: s) (auto split: res.splits)

lemma switch_target_in: "switch_target ts k d = d \<or> switch_target ts k d \<in> snd ` set ts"
  by (force simp: switch_target_def dest: map_of_SomeD split: option.splits)

lemma exec_term_Jump:
  assumes "exec_term m t s = Jump b s'"
  shows "b \<in> set (successors t)"
proof (cases t)
  case (T_Switch c ts d)
  with assms switch_target_in[of ts _ d] show ?thesis by (auto simp: exec_term_def split: option.splits)
next
  case (T_Await fut dest resume)
  with assms show ?thesis by (simp add: exec_term_def split: option.splits eff.splits)
qed (use assms in \<open>simp_all add: exec_term_def split: option.splits eff.splits if_splits\<close>)

lemma block_step_Jump:
  assumes "block_step m f b s = Jump b' s'"
  shows "b < length (fn_blocks f) \<and> b' \<in> set (successors (term_of (fn_blocks f ! b)))"
  using assms
  by (auto simp: block_step_def exec_block_def block_Some_iff dest!: exec_term_Jump
      split: option.splits res.splits)

text \<open>
  Simulation: if two functions take matching steps in related states, every run of the first that
  ends in a chosen outcome is a run of the second. The outcomes in \<open>skip\<close> are not tracked.
\<close>

lemma runs_simulation:
  assumes "runs m f b s r" and "R b s t" and "\<not> skip r"
    and stop: "\<And>b s t r. R b s t \<Longrightarrow> block_step m f b s = Stop r \<Longrightarrow> \<not> skip r \<Longrightarrow> runs m g b t r"
    and jump: "\<And>b s t b' s'. R b s t \<Longrightarrow> block_step m f b s = Jump b' s' \<Longrightarrow>
      \<exists>t'. R b' s' t' \<and> (\<forall>r. runs m g b' t' r \<longrightarrow> runs m g b t r)"
  shows "runs m g b t r"
  using assms(1-3)
proof (induction arbitrary: t)
  case (runs_stop b s r)
  then show ?case using stop by blast
next
  case (runs_jump b s b' s' r)
  then show ?case using jump by meson
qed

text \<open>Two functions whose blocks step alike have the same runs.\<close>

lemma runs_cong:
  assumes "\<And>b s. block_step m f b s = block_step m g b s"
  shows "runs m f b s r \<longleftrightarrow> runs m g b s r"
proof -
  have "runs m g b s r" if "runs m f b s r" "\<And>b s. block_step m f b s = block_step m g b s" for f g
    using that by (induction) (auto intro: runs.intros)
  from this[of f g] this[of g f] assms show ?thesis by auto
qed

text \<open>As do two functions whose blocks step alike in all states that an invariant allows.\<close>

lemma runs_invariant_cong:
  assumes "P b s" "\<And>b s. P b s \<Longrightarrow> block_step m g b s = block_step m f b s"
    and "\<And>b s b' s'. P b s \<Longrightarrow> block_step m f b s = Jump b' s' \<Longrightarrow> P b' s'"
  shows "runs m f b s r \<longleftrightarrow> runs m g b s r"
proof
  assume "runs m f b s r"
  from this assms(1) show "runs m g b s r"
  proof (induction)
    case (runs_stop b s r)
    with assms(2) show ?case by (auto intro: runs.runs_stop)
  next
    case (runs_jump b s b' s' r)
    with assms(2,3) show ?case by (auto intro: runs.runs_jump)
  qed
next
  assume "runs m g b s r"
  from this assms(1) show "runs m f b s r"
  proof (induction)
    case (runs_stop b s r)
    with assms(2) show ?case by (auto intro: runs.runs_stop)
  next
    case (runs_jump b s b' s' r)
    then have j: "block_step m f b s = Jump b' s'" using assms(2) by simp
    with runs_jump assms(3) show ?case by (blast intro: runs.runs_jump)
  qed
qed

section \<open>Refinement between functions\<close>

text \<open>
  An optimisation may remove a computation that would have panicked, but nothing else: a run that
  ends without a panic is kept, and a run of the optimised function is a run of the original,
  unless the original panics from that state.
\<close>

definition is_panic :: "('v, 'h) outcome \<Rightarrow> bool" where
  "is_panic r = (case r of Panicked _ \<Rightarrow> True | _ \<Rightarrow> False)"

definition refines_at :: "('v, 'h) machine \<Rightarrow> mir_function \<Rightarrow> mir_function \<Rightarrow> block_id \<Rightarrow> bool" where
  "refines_at m f g b \<longleftrightarrow>
     (\<forall>s r. runs m f b s r \<longrightarrow> \<not> is_panic r \<longrightarrow> runs m g b s r) \<and>
     (\<forall>s r. runs m g b s r \<longrightarrow> runs m f b s r \<or> (\<exists>h. runs m f b s (Panicked h)))"

definition refines :: "('v, 'h) machine \<Rightarrow> mir_function \<Rightarrow> mir_function \<Rightarrow> bool" where
  "refines m f g \<longleftrightarrow> fn_entry g = fn_entry f \<and> refines_at m f g (fn_entry f)"

lemma is_panic_Panicked [simp]: "is_panic (Panicked h)"
  by (simp add: is_panic_def)

lemma refines_at_trans [trans]: "refines_at m f g b \<Longrightarrow> refines_at m g h b \<Longrightarrow> refines_at m f h b"
  unfolding refines_at_def by (metis is_panic_def outcome.exhaust outcome.simps(10-12))

lemma refines_refl [simp]: "refines m f f"
  by (simp add: refines_def refines_at_def)

lemma refines_trans [trans]: "refines m f g \<Longrightarrow> refines m g h \<Longrightarrow> refines m f h"
  unfolding refines_def using refines_at_trans by metis

lemma refinesI_same:
  assumes "fn_entry g = fn_entry f" and "\<And>s r. runs m f (fn_entry f) s r \<longleftrightarrow> runs m g (fn_entry f) s r"
  shows "refines m f g"
  using assms by (auto simp: refines_def refines_at_def)

text \<open>A step that differs only where the original panics.\<close>

lemma refines_weaken:
  assumes step: "\<And>b s. block_step m f b s = block_step m g b s \<or> (\<exists>h. block_step m f b s = Stop (Panicked h))"
    and "fn_entry g = fn_entry f"
  shows "refines m f g"
proof -
  have "runs m g b s r" if "runs m f b s r" "\<not> is_panic r" for b s r
    using that
  proof (induction)
    case (runs_stop b s r)
    with step[of b s] show ?case by (auto intro: runs.runs_stop)
  next
    case (runs_jump b s b' s' r)
    with step[of b s] have "block_step m g b s = Jump b' s'" by auto
    with runs_jump show ?case by (auto intro: runs.runs_jump)
  qed
  moreover have "runs m f b s r \<or> (\<exists>h. runs m f b s (Panicked h))" if "runs m g b s r" for b s r
    using that
  proof (induction)
    case (runs_stop b s r)
    with step[of b s] show ?case by (auto intro: runs.runs_stop)
  next
    case (runs_jump b s b' s' r)
    with step[of b s] show ?case by (metis runs.runs_jump runs.runs_stop)
  qed
  ultimately show ?thesis using assms(2) by (auto simp: refines_def refines_at_def)
qed

text \<open>A block that takes the step of the block it would have jumped to.\<close>

lemma runs_shortcut:
  assumes step: "\<And>b s. block_step m g b s = block_step m f b s \<or>
      (\<exists>t s'. block_step m f b s = Jump t s' \<and> block_step m f t s' = block_step m g b s \<and>
        block_step m g t s' = block_step m f t s')"
  shows "runs m f b s r \<longleftrightarrow> runs m g b s r"
proof
  assume "runs m f b s r"
  then show "runs m g b s r"
  proof (induction)
    case (runs_stop b s r)
    with step[of b s] show ?case by (auto intro: runs.runs_stop)
  next
    case (runs_jump b s b' s' r)
    with step[of b s] show ?case
      by (metis runs.runs_jump runs_iff step.inject(1))
  qed
next
  assume "runs m g b s r"
  then show "runs m f b s r"
  proof (induction)
    case (runs_stop b s r)
    with step[of b s] show ?case by (metis runs.runs_jump runs.runs_stop)
  next
    case (runs_jump b s b' s' r)
    with step[of b s] show ?case by (metis runs.runs_jump)
  qed
qed

text \<open>
  The general form: matching steps in related states, from the blocks of a set that the jumps do
  not leave, except where the original panics.
\<close>

lemma refines_sim:
  assumes step: "\<And>b s t. b \<in> B \<Longrightarrow> R b s t \<Longrightarrow>
      (case block_step m f b s of
         Stop r \<Rightarrow> is_panic r \<or> block_step m g b t = Stop r
       | Jump b' s' \<Rightarrow> b' \<in> B \<and> (\<exists>t'. block_step m g b t = Jump b' t' \<and> R b' s' t')
       | Stuck \<Rightarrow> block_step m g b t = Stuck)"
    and entry: "fn_entry f \<in> B" "fn_entry g = fn_entry f" and start: "\<And>s. S s \<Longrightarrow> R (fn_entry f) s s"
  shows "S s \<Longrightarrow> runs m f (fn_entry f) s r \<Longrightarrow> \<not> is_panic r \<Longrightarrow> runs m g (fn_entry g) s r"
    and "S s \<Longrightarrow> runs m g (fn_entry g) s r \<Longrightarrow>
      runs m f (fn_entry f) s r \<or> (\<exists>h. runs m f (fn_entry f) s (Panicked h))"
proof -
  have fwd: "runs m g b t r" if "runs m f b s r" "b \<in> B" "R b s t" "\<not> is_panic r" for b s t r
    using that
  proof (induction arbitrary: t)
    case (runs_stop b s r)
    with step[of b s t] show ?case by (auto intro: runs.runs_stop)
  next
    case (runs_jump b s b' s' r)
    with step[of b s t] obtain t' where "b' \<in> B" "block_step m g b t = Jump b' t'" "R b' s' t'" by auto
    with runs_jump show ?case by (auto intro: runs.runs_jump)
  qed
  have bwd: "runs m f b s r \<or> (\<exists>h. runs m f b s (Panicked h))"
    if "runs m g b t r" "b \<in> B" "R b s t" for b s t r
    using that
  proof (induction arbitrary: s)
    case (runs_stop b t r)
    with step[of b s t] show ?case
      by (auto simp: is_panic_def intro: runs.runs_stop split: step.splits outcome.splits)
  next
    case (runs_jump b t b' t' r)
    show ?case
    proof (cases "block_step m f b s")
      case (Jump c s')
      with step[OF runs_jump.prems] runs_jump.hyps(1) have "c = b'" "b' \<in> B" "R b' s' t'" by auto
      with runs_jump.IH[of s'] Jump show ?thesis by (auto intro: runs.runs_jump)
    next
      case (Stop u)
      with step[OF runs_jump.prems] runs_jump.hyps(1) show ?thesis
        by (auto simp: is_panic_def intro: runs.runs_stop split: outcome.splits)
    next
      case Stuck
      with step[OF runs_jump.prems] runs_jump.hyps(1) show ?thesis by simp
    qed
  qed
  show "S s \<Longrightarrow> runs m f (fn_entry f) s r \<Longrightarrow> \<not> is_panic r \<Longrightarrow> runs m g (fn_entry g) s r"
    using fwd entry start by metis
  show "S s \<Longrightarrow> runs m g (fn_entry g) s r \<Longrightarrow>
      runs m f (fn_entry f) s r \<or> (\<exists>h. runs m f (fn_entry f) s (Panicked h))"
    using bwd entry start by metis
qed

end
