(* ===== verification/Fold_Machine.thy ===== *)
theory Fold_Machine
  imports Const_Fold Mir_Machine Mir_Analyses
begin

text \<open>
  Constant folding against the machine: on a machine that evaluates the operations on constants as
  the folder does, the pass keeps every run. The same hypothesis carries the constants of
  conditional constant propagation. That the folder's results are the ones of word arithmetic is
  the subject of \<open>Const_Fold\<close>.
\<close>

definition machine_folds :: "half_ops \<Rightarrow> (local \<Rightarrow> int_ty option) \<Rightarrow> ('v, 'h) machine \<Rightarrow> bool" where
  "machine_folds h tys m \<longleftrightarrow>
     (\<forall>op a b x y c l hp. fold_rvalue h (R_Binary op (O_Const x) (O_Const y)) (tys l) = Some c \<longrightarrow>
        m_rvalue m (P_Local l) (rvalue_key (R_Binary op a b)) [m_const m x, m_const m y] hp = Ok (m_const m c) hp) \<and>
     (\<forall>op a b x y c l hp. fold_rvalue h (R_CheckedBinary op (O_Const x) (O_Const y)) (tys l) = Some c \<longrightarrow>
        m_rvalue m (P_Local l) (rvalue_key (R_CheckedBinary op a b)) [m_const m x, m_const m y] hp = Ok (m_const m c) hp) \<and>
     (\<forall>op a x c l hp. fold_rvalue h (R_Unary op (O_Const x)) (tys l) = Some c \<longrightarrow>
        m_rvalue m (P_Local l) (rvalue_key (R_Unary op a)) [m_const m x] hp = Ok (m_const m c) hp) \<and>
     (\<forall>a x c l hp. fold_rvalue h (R_CheckedNeg (O_Const x)) (tys l) = Some c \<longrightarrow>
        m_rvalue m (P_Local l) (rvalue_key (R_CheckedNeg a)) [m_const m x] hp = Ok (m_const m c) hp)"

text \<open>The integer types of the declared locals.\<close>

definition dest_types :: "type_interner \<Rightarrow> nat \<Rightarrow> mir_function \<Rightarrow> (local \<Rightarrow> int_ty option) \<Rightarrow> bool" where
  "dest_types i ptr_size f tys \<longleftrightarrow>
     (\<forall>l < length (fn_locals f). int_ty_of i (ld_ty (fn_locals f ! l)) ptr_size = Some (tys l))"

text \<open>An operand that has the value of a constant.\<close>

definition holds_const :: "('v, 'h) machine \<Rightarrow> ('v, 'h) state \<Rightarrow> operand \<Rightarrow> const \<Rightarrow> bool" where
  "holds_const m s a c \<longleftrightarrow> eval_operand m s a = Some (m_const m c)"

lemma holds_const_Const [simp]: "holds_const m s (O_Const c) c"
  by (simp add: holds_const_def)

lemma fold_machine_eval:
  assumes "machine_folds h tys m"
  shows "holds_const m s a x \<Longrightarrow> holds_const m s b y \<Longrightarrow> fold_rvalue h (R_Binary op (O_Const x) (O_Const y)) (tys l) = Some c \<Longrightarrow>
      eval_rvalue m (P_Local l) (R_Binary op a b) s = Ok (m_const m c) (heap s)"
    and "holds_const m s a x \<Longrightarrow> holds_const m s b y \<Longrightarrow> fold_rvalue h (R_CheckedBinary op (O_Const x) (O_Const y)) (tys l) = Some c \<Longrightarrow>
      eval_rvalue m (P_Local l) (R_CheckedBinary op a b) s = Ok (m_const m c) (heap s)"
    and "holds_const m s a x \<Longrightarrow> fold_rvalue h (R_Unary uop (O_Const x)) (tys l) = Some c \<Longrightarrow>
      eval_rvalue m (P_Local l) (R_Unary uop a) s = Ok (m_const m c) (heap s)"
    and "holds_const m s a x \<Longrightarrow> fold_rvalue h (R_CheckedNeg (O_Const x)) (tys l) = Some c \<Longrightarrow>
      eval_rvalue m (P_Local l) (R_CheckedNeg a) s = Ok (m_const m c) (heap s)"
  using assms unfolding machine_folds_def
  by (simp_all add: eval_rvalue_def holds_const_def erase_place_def rvalue_locals_def)

lemma fold_rvalue_eval:
  assumes "machine_folds h tys m" "fold_rvalue h rv (tys l) = Some c"
  shows "eval_rvalue m (P_Local l) rv s = Ok (m_const m c) (heap s)"
proof -
  have const: "\<exists>x. a = O_Const x" if "as_const a \<noteq> None" for a using that by (auto simp: as_const_def split: operand.splits)
  note ev = fold_machine_eval[OF assms(1), of s]
  show ?thesis
  proof (cases rv)
    case (R_Binary op a b)
    with assms(2) obtain x y where "a = O_Const x" "b = O_Const y"
      by (auto simp: fold_rvalue_def bind_Some_iff dest!: const[of a, OF not_None_eq[THEN iffD2, OF exI]] const[of b, OF not_None_eq[THEN iffD2, OF exI]])
    with R_Binary assms(2) ev(1)[of a x b y op l c] show ?thesis by simp
  next
    case (R_CheckedBinary op a b)
    with assms(2) obtain x y where "a = O_Const x" "b = O_Const y"
      by (auto simp: fold_rvalue_def bind_Some_iff dest!: const[of a, OF not_None_eq[THEN iffD2, OF exI]] const[of b, OF not_None_eq[THEN iffD2, OF exI]])
    with R_CheckedBinary assms(2) ev(2)[of a x b y op l c] show ?thesis by simp
  next
    case (R_Unary op a)
    with assms(2) obtain x where "a = O_Const x"
      by (auto simp: fold_rvalue_def bind_Some_iff dest!: const[of a, OF not_None_eq[THEN iffD2, OF exI]])
    with R_Unary assms(2) ev(3)[of a x op l c] show ?thesis by simp
  next
    case (R_CheckedNeg a)
    with assms(2) obtain x where "a = O_Const x"
      by (auto simp: fold_rvalue_def bind_Some_iff dest!: const[of a, OF not_None_eq[THEN iffD2, OF exI]])
    with R_CheckedNeg assms(2) ev(4)[of a x l c] show ?thesis by simp
  qed (use assms(2) in \<open>simp_all add: fold_rvalue_def\<close>)
qed

section \<open>The pass keeps the runs\<close>

lemma const_fold_rewrite: "const_fold h i ptr_size f = rewrite_stmts (const_fold_stmt h i ptr_size (fn_locals f)) f"
  by (simp add: const_fold_def rewrite_stmts_def)

lemma const_fold_stmt_exec:
  assumes "machine_folds h tys m" "dest_types i ptr_size f tys"
    and "const_fold_stmt h i ptr_size (fn_locals f) st = Some (st', c)"
  shows "exec_stmt m st' s = exec_stmt m st s"
proof (cases "st' = st")
  case False
  with const_fold_stmt_cases[OF assms(3)] obtain l rv k d dest where
    st: "st = S_Assign (P_Local l) rv" "st' = S_Assign (P_Local l) (R_Use (O_Const k))"
    and d: "nth_opt (fn_locals f) l = Some d" "int_ty_of i (ld_ty d) ptr_size = Some dest" "fold_rvalue h rv dest = Some k"
    by blast
  with assms(2) have "fold_rvalue h rv (tys l) = Some k" by (auto simp: dest_types_def nth_opt_Some_iff)
  from fold_rvalue_eval[OF assms(1) this, of s] show ?thesis
    by (simp add: st exec_stmt_def) (simp add: eval_rvalue_def)
qed simp

lemma exec_stmts_map_changed:
  assumes "map_changed t ss = Some (ss', c)"
    and "\<And>st st' c s. t st = Some (st', c) \<Longrightarrow> exec_stmt m st' s = exec_stmt m st s"
  shows "exec_stmts m ss' s = exec_stmts m ss s"
  using assms(1)
proof (induction ss arbitrary: ss' c s)
  case (Cons st ss)
  from Cons.prems obtain st' d ss1 e where t: "t st = Some (st', d)" "map_changed t ss = Some (ss1, e)" "ss' = st' # ss1"
    by (auto simp: bind_Some_iff)
  from Cons.IH[OF t(2)] show ?case by (simp add: t(3) assms(2)[OF t(1)] split: res.split)
qed simp

lemma rewrite_stmts_runs:
  assumes "rewrite_stmts t f = Some (g, c)"
    and "\<And>st st' c s. t st = Some (st', c) \<Longrightarrow> exec_stmt m st' s = exec_stmt m st s"
  shows "runs m f b s r \<longleftrightarrow> runs m g b s r"
proof (rule runs_cong)
  fix b s
  note g = rewrite_stmts_shape[OF assms(1)]
  show "block_step m f b s = block_step m g b s"
  proof (cases "b < length (fn_blocks f)")
    case True
    with g(3)[OF True] obtain ss d where "map_changed t (stmts (fn_blocks f ! b)) = Some (ss, d)"
      "fn_blocks g ! b = (fn_blocks f ! b)\<lparr>stmts := ss\<rparr>" by blast
    moreover have "exec_stmts m ss s = exec_stmts m (stmts (fn_blocks f ! b)) s"
      by (rule exec_stmts_map_changed[OF calculation(1)]) (rule assms(2))
    ultimately show ?thesis using True g(2)
      by (simp add: block_step_def block_def exec_block_def split: res.split)
  qed (use g(2) in \<open>simp add: block_step_def block_def\<close>)
qed

lemma const_fold_runs:
  assumes "const_fold h i ptr_size f = Some (g, c)" "machine_folds h tys m" "dest_types i ptr_size f tys"
  shows "runs m f b s r \<longleftrightarrow> runs m g b s r"
  using assms(1) unfolding const_fold_rewrite
  by (rule rewrite_stmts_runs) (rule const_fold_stmt_exec[OF assms(2,3)])

lemma const_fold_stmt_unchanged: "const_fold_stmt h i ptr_size ls st = Some (st', False) \<Longrightarrow> st' = st"
  by (auto dest: const_fold_stmt_cases)

lemma const_fold_unchanged: "const_fold h i ptr_size f = Some (g, False) \<Longrightarrow> g = f"
  unfolding const_fold_rewrite by (erule rewrite_stmts_unchanged) (rule const_fold_stmt_unchanged)

end
