(* ===== verification/Copy_Prop.thy ===== *)
theory Copy_Prop
  imports Mir_Machine
begin

text \<open>
  Copy and constant propagation inside a block (\<open>crates/dream-mir/src/passes/prop.rs\<close>). The
  insertion-ordered map of known values is an association list. The substitution of a statement's
  reads is the source's match: which operands of which rvalue, statement or terminator are
  substituted, and with which restriction. The lemmas show that every binding in the map is true
  of the state at that point of the block, and that the rewritten block executes exactly as the
  original, panics included.
\<close>

type_synonym known = "(local \<times> operand) list"

section \<open>Resolving operands\<close>

text \<open>The bounded walk along copies: at most one visit per binding, and one more to stop.\<close>

fun resolve_loop :: "nat \<Rightarrow> known \<Rightarrow> local \<Rightarrow> operand \<Rightarrow> operand option" where
  "resolve_loop 0 known start v = None"
| "resolve_loop (Suc n) known start v =
     (case v of
        O_Copy p \<Rightarrow>
          (case p of
             P_Local l \<Rightarrow>
               (case map_of known l of
                  Some nxt \<Rightarrow> resolve_loop n known start nxt
                | None \<Rightarrow> (if l = start then None else Some v))
           | _ \<Rightarrow> Some v)
      | O_Const _ \<Rightarrow> Some v)"

fun resolve :: "operand \<Rightarrow> known \<Rightarrow> operand option" where
  "resolve (O_Copy (P_Local l)) known = resolve_loop (Suc (length known)) known l (O_Copy (P_Local l))"
| "resolve op known = None"

definition subst_operand :: "known \<Rightarrow> operand \<Rightarrow> operand \<times> bool" where
  "subst_operand known op = (case resolve op known of Some v \<Rightarrow> (v, True) | None \<Rightarrow> (op, False))"

definition subst_unless_const :: "(const \<Rightarrow> bool) \<Rightarrow> known \<Rightarrow> operand \<Rightarrow> operand \<times> bool" where
  "subst_unless_const keep_local known op =
     (case resolve op known of
        Some (O_Const c) \<Rightarrow> (if keep_local c then (op, False) else (O_Const c, True))
      | None \<Rightarrow> (op, False)
      | Some v \<Rightarrow> (v, True))"

definition prop_is_int_const :: "const \<Rightarrow> bool" where
  "prop_is_int_const c = (case c of C_Int _ \<Rightarrow> True | C_Long _ \<Rightarrow> True | _ \<Rightarrow> False)"

definition is_sign_ambiguous_const :: "const \<Rightarrow> bool" where
  "is_sign_ambiguous_const c = (case c of C_Long v \<Rightarrow> v < 0 | _ \<Rightarrow> False)"

section \<open>Substituting reads\<close>

definition subst_place_reads :: "known \<Rightarrow> place \<Rightarrow> place \<times> bool" where
  "subst_place_reads known p =
     (case p of
        P_Index base idx u \<Rightarrow> (let (idx', c) = subst_operand known idx in (P_Index base idx' u, c))
      | _ \<Rightarrow> (p, False))"

text \<open>How the operands of an rvalue are substituted.\<close>

definition rvalue_subst :: "rvalue \<Rightarrow> known \<Rightarrow> operand \<Rightarrow> operand \<times> bool" where
  "rvalue_subst rv =
     (case rv of
        R_TypeName _ \<Rightarrow> subst_unless_const prop_is_int_const
      | R_HashCode _ \<Rightarrow> subst_unless_const prop_is_int_const
      | R_ToString _ \<Rightarrow> subst_unless_const prop_is_int_const
      | R_Binary op _ _ \<Rightarrow>
          (if is_comparison op then subst_unless_const is_sign_ambiguous_const else subst_operand)
      | _ \<Rightarrow> subst_operand)"

definition subst_rvalue_reads :: "known \<Rightarrow> rvalue \<Rightarrow> rvalue \<times> bool" where
  "subst_rvalue_reads known rv =
     (map_rvalue_operands (\<lambda>x. fst (rvalue_subst rv known x)) rv,
      list_ex (\<lambda>x. snd (rvalue_subst rv known x)) (rvalue_operands rv))"

definition subst_stmt_reads :: "known \<Rightarrow> statement \<Rightarrow> statement \<times> bool" where
  "subst_stmt_reads known st =
     (case st of
        S_Assign p rv \<Rightarrow>
          (let (p', c) = subst_place_reads known p; (rv', d) = subst_rvalue_reads known rv
           in (S_Assign p' rv', c \<or> d))
      | S_Retain _ \<Rightarrow> (st, False)
      | S_Release _ \<Rightarrow> (st, False)
      | _ \<Rightarrow> (map_stmt_operands (\<lambda>x. fst (subst_operand known x)) st,
              list_ex (\<lambda>x. snd (subst_operand known x)) (stmt_operands st)))"

definition subst_terminator_reads :: "known \<Rightarrow> terminator \<Rightarrow> terminator \<times> bool" where
  "subst_terminator_reads known t =
     (case t of
        T_If cond b e \<Rightarrow> (let (x, c) = subst_operand known cond in (T_If x b e, c))
      | T_Switch v ts d \<Rightarrow> (let (x, c) = subst_operand known v in (T_Switch x ts d, c))
      | T_Return (Some v) \<Rightarrow> (let (x, c) = subst_operand known v in (T_Return (Some x), c))
      | T_AsyncComplete (Some v) \<Rightarrow> (let (x, c) = subst_operand known v in (T_AsyncComplete (Some x), c))
      | T_TailCall callee args \<Rightarrow>
          (T_TailCall callee (map (\<lambda>x. fst (subst_operand known x)) args),
           list_ex (\<lambda>x. snd (subst_operand known x)) args)
      | _ \<Rightarrow> (t, False))"

section \<open>The known values after a statement\<close>

definition invalidate :: "local \<Rightarrow> known \<Rightarrow> known" where
  "invalidate dest known =
     filter (\<lambda>(_, v). v \<noteq> O_Copy (P_Local dest)) (filter (\<lambda>(k, _). k \<noteq> dest) known)"

text \<open>Insertion replaces the value in place if the key is present and appends otherwise.\<close>

definition known_insert :: "local \<Rightarrow> operand \<Rightarrow> known \<Rightarrow> known" where
  "known_insert l v known =
     (if map_of known l = None then known @ [(l, v)]
      else map (\<lambda>(k, w). if k = l then (k, v) else (k, w)) known)"

definition update_known :: "bool list \<Rightarrow> statement \<Rightarrow> known \<Rightarrow> known" where
  "update_known value_local st known =
     (let is_value = (\<lambda>l. nth_opt value_local l = Some True) in
      case st of
        S_Assign (P_Local dest) rv \<Rightarrow>
          (let known' = invalidate dest known in
           case rv of
             R_Use (O_Const c) \<Rightarrow>
               (if is_value dest then known' else known_insert dest (O_Const c) known')
           | R_Use (O_Copy (P_Local src)) \<Rightarrow>
               (if is_value dest \<or> is_value src \<or> src = dest then known'
                else known_insert dest (O_Copy (P_Local src)) known')
           | _ \<Rightarrow> known')
      | S_Assign _ _ \<Rightarrow> filter (\<lambda>(_, v). case v of O_Const _ \<Rightarrow> True | _ \<Rightarrow> False) known
      | S_ValueDrop l \<Rightarrow> invalidate l known
      | S_ValueRetain l \<Rightarrow> invalidate l known
      | S_ValueKill l \<Rightarrow> invalidate l known
      | _ \<Rightarrow> known)"

section \<open>The pass\<close>

fun prop_stmts :: "bool list \<Rightarrow> known \<Rightarrow> statement list \<Rightarrow> statement list \<times> bool \<times> known" where
  "prop_stmts vl known [] = ([], False, known)"
| "prop_stmts vl known (st # sts) =
     (let (st', c) = subst_stmt_reads known st;
          (sts', d, known') = prop_stmts vl (update_known vl st' known) sts
      in (st' # sts', c \<or> d, known'))"

definition prop_block :: "bool list \<Rightarrow> basic_block \<Rightarrow> basic_block \<times> bool" where
  "prop_block vl blk =
     (let (ss, c, known) = prop_stmts vl [] (stmts blk);
          (t, d) = subst_terminator_reads known (term_of blk)
      in (blk\<lparr>stmts := ss, term_of := t\<rparr>, c \<or> d))"

text \<open>The vector of value-typed locals; a type the interner does not know panics.\<close>

fun value_locals :: "type_interner \<Rightarrow> local_decl list \<Rightarrow> bool list option" where
  "value_locals interner [] = Some []"
| "value_locals interner (d # ds) =
     do { v \<leftarrow> is_value_type interner (ld_ty d); vs \<leftarrow> value_locals interner ds; Some (v # vs) }"

definition copy_const_prop :: "type_interner \<Rightarrow> mir_function \<Rightarrow> (mir_function \<times> bool) option" where
  "copy_const_prop interner f =
     do {
       vl \<leftarrow> value_locals interner (fn_locals f);
       Some (f\<lparr>fn_blocks := map (\<lambda>blk. fst (prop_block vl blk)) (fn_blocks f)\<rparr>,
             list_ex (\<lambda>blk. snd (prop_block vl blk)) (fn_blocks f))
     }"

section \<open>Resolution is the end of the copy chain\<close>

lemma resolve_loop_rel:
  assumes "resolve_loop n known start v = Some w" and "P v v"
    and "\<And>l u. (l, u) \<in> set known \<Longrightarrow> P v (O_Copy (P_Local l)) \<Longrightarrow> P v u"
  shows "P v w"
proof -
  have "P v w" if "resolve_loop n known start u = Some w" "P v u" for u
    using that
  proof (induction n arbitrary: u)
    case (Suc n)
    show ?case
    proof (cases "\<exists>l nxt. u = O_Copy (P_Local l) \<and> map_of known l = Some nxt")
      case True
      then obtain l nxt where u: "u = O_Copy (P_Local l)" "map_of known l = Some nxt" by blast
      with Suc.prems have "resolve_loop n known start nxt = Some w" by simp
      moreover have "P v nxt" using u assms(3)[OF map_of_SomeD[OF u(2)]] Suc.prems(2) by simp
      ultimately show ?thesis by (rule Suc.IH)
    next
      case False
      with Suc.prems show ?thesis by (auto split: operand.splits place.splits option.splits if_splits)
    qed
  qed simp
  from this[OF assms(1,2)] show ?thesis .
qed

text \<open>Whatever holds along the bindings holds between an operand and what it resolves to.\<close>

lemma resolve_rel:
  assumes "resolve op known = Some w" and "P op op"
    and "\<And>l u. (l, u) \<in> set known \<Longrightarrow> P op (O_Copy (P_Local l)) \<Longrightarrow> P op u"
  shows "P op w"
proof -
  from assms(1) obtain l where "op = O_Copy (P_Local l)"
    "resolve_loop (Suc (length known)) known l op = Some w"
    by (cases "(op, known)" rule: resolve.cases) auto
  with assms(2,3) resolve_loop_rel[of "Suc (length known)" known l op w P] show ?thesis by blast
qed

section \<open>Substitution keeps the meaning\<close>

text \<open>
  Operands of the same static type: an operation picked by the operand's type does the same for
  both. Integer constants do not record their signedness, so nothing is asked of them under the
  operations that print or hash a value, and nothing of negative 64-bit constants in comparisons.
\<close>

definition typed_alike :: "('v, 'h) machine \<Rightarrow> operand \<Rightarrow> operand \<Rightarrow> bool" where
  "typed_alike m a b \<longleftrightarrow>
     (case b of O_Const c \<Rightarrow> prop_is_int_const c | _ \<Rightarrow> False) \<or>
       (\<forall>p vs h. m_rvalue m p (R_TypeName b) vs h = m_rvalue m p (R_TypeName a) vs h \<and>
          m_rvalue m p (R_HashCode b) vs h = m_rvalue m p (R_HashCode a) vs h \<and>
          m_rvalue m p (R_ToString b) vs h = m_rvalue m p (R_ToString a) vs h)"

definition compared_alike :: "('v, 'h) machine \<Rightarrow> operand \<Rightarrow> operand \<Rightarrow> bool" where
  "compared_alike m a b \<longleftrightarrow>
     (case b of O_Const c \<Rightarrow> is_sign_ambiguous_const c | _ \<Rightarrow> False) \<or>
       (\<forall>op p x vs h. is_comparison op \<longrightarrow>
          m_rvalue m p (R_Binary op b x) vs h = m_rvalue m p (R_Binary op a x) vs h \<and>
          m_rvalue m p (R_Binary op x b) vs h = m_rvalue m p (R_Binary op x a) vs h)"

lemma alike_refl: "typed_alike m a a" "compared_alike m a a"
  by (simp_all add: typed_alike_def compared_alike_def)

lemma alike_trans:
  "typed_alike m a (O_Copy p) \<Longrightarrow> typed_alike m (O_Copy p) b \<Longrightarrow> typed_alike m a b"
  "compared_alike m a (O_Copy p) \<Longrightarrow> compared_alike m (O_Copy p) b \<Longrightarrow> compared_alike m a b"
  by (auto simp: typed_alike_def compared_alike_def)

text \<open>A binding is true of a state: both sides have the same value and the same static type.\<close>

definition same_value :: "('v, 'h) machine \<Rightarrow> ('v, 'h) state \<Rightarrow> operand \<Rightarrow> operand \<Rightarrow> bool" where
  "same_value m s a b \<longleftrightarrow>
     eval_operand m s b = eval_operand m s a \<and> typed_alike m a b \<and> compared_alike m a b"

definition reg_operand :: "operand \<Rightarrow> bool" where
  "reg_operand op = (case op of O_Const _ \<Rightarrow> True | O_Copy (P_Local _) \<Rightarrow> True | _ \<Rightarrow> False)"

definition known_ok :: "('v, 'h) machine \<Rightarrow> ('v, 'h) state \<Rightarrow> known \<Rightarrow> bool" where
  "known_ok m s known \<longleftrightarrow>
     (\<forall>(l, v) \<in> set known. reg_operand v \<and> same_value m s (O_Copy (P_Local l)) v)"

lemma same_value_refl [simp]: "same_value m s a a"
  by (simp add: same_value_def alike_refl)

lemma same_value_trans:
  "same_value m s a (O_Copy p) \<Longrightarrow> same_value m s (O_Copy p) b \<Longrightarrow> same_value m s a b"
  by (auto simp: same_value_def intro: alike_trans)

lemma resolve_same_value:
  assumes "known_ok m s known" "resolve op known = Some v"
  shows "same_value m s op v" and "reg_operand v"
proof -
  show "same_value m s op v"
    by (rule resolve_rel[OF assms(2)]) (use assms(1) in \<open>auto simp: known_ok_def intro: same_value_trans\<close>)
  from assms(2) have "reg_operand op" by (cases "(op, known)" rule: resolve.cases) (auto simp: reg_operand_def)
  then show "reg_operand v"
    by (intro resolve_rel[OF assms(2), where P = "\<lambda>_. reg_operand"]) (use assms(1) in \<open>auto simp: known_ok_def\<close>)
qed

lemma subst_operand_eval:
  assumes "known_ok m s known"
  shows "eval_operand m s (fst (subst_operand known op)) = eval_operand m s op"
  using resolve_same_value(1)[OF assms, of op] by (auto simp: subst_operand_def same_value_def split: option.splits)

lemma subst_unless_const_same:
  assumes "known_ok m s known"
  shows "same_value m s op (fst (subst_unless_const keep known op))"
    and "fst (subst_unless_const keep known op) = O_Const c \<Longrightarrow> op = O_Const c \<or> \<not> keep c"
  using resolve_same_value(1)[OF assms, of op]
  by (auto simp: subst_unless_const_def split: option.splits operand.splits if_splits)

lemma rvalue_subst_eval:
  assumes "known_ok m s known"
  shows "eval_operand m s (fst (rvalue_subst rv known x)) = eval_operand m s x"
  using subst_operand_eval[OF assms, of x] subst_unless_const_same(1)[OF assms, of x]
  by (auto simp: rvalue_subst_def same_value_def split: rvalue.splits)

lemma eval_operands_map:
  "(\<And>x. eval_operand m s (g x) = eval_operand m s x) \<Longrightarrow> eval_operands m s (map g xs) = eval_operands m s xs"
  by (induction xs) simp_all

lemma rvalue_locals_map: "rvalue_locals (map_rvalue_operands g rv) = rvalue_locals rv"
  by (cases rv) (simp_all add: rvalue_locals_def)

lemma operand_typed_map: "operand_typed (map_rvalue_operands g rv) = operand_typed rv"
  by (cases rv) (simp_all add: operand_typed_def)

text \<open>What \<open>eval_rvalue\<close> does once the operands have values.\<close>

definition apply_rvalue ::
  "('v, 'h) machine \<Rightarrow> place \<Rightarrow> rvalue \<Rightarrow> 'v list \<Rightarrow> ('v, 'h) state \<Rightarrow> ('v, 'h) eff" where
  "apply_rvalue m p rv vs s =
     (case rv of
        R_Use _ \<Rightarrow> Ok (vs ! 0) (heap s)
      | R_Select _ _ _ \<Rightarrow> Ok (if m_truth m (vs ! 0) then vs ! 1 else vs ! 2) (heap s)
      | _ \<Rightarrow> m_rvalue m (erase_place p) (rvalue_key rv) (map (loc s) (rvalue_locals rv) @ vs) (heap s))"

lemma eval_rvalue_apply:
  "eval_rvalue m p rv s =
     (case eval_operands m s (rvalue_operands rv) of None \<Rightarrow> Trap (heap s) | Some vs \<Rightarrow> apply_rvalue m p rv vs s)"
  by (simp add: eval_rvalue_def apply_rvalue_def split: option.splits)

lemma apply_rvalue_untyped:
  assumes "\<not> operand_typed rv"
  shows "apply_rvalue m p (map_rvalue_operands g rv) vs s = apply_rvalue m p rv vs s"
proof -
  have "rvalue_key (map_rvalue_operands g rv) = rvalue_key rv"
    using assms by (simp add: rvalue_key_def operand_typed_map map_rvalue_operands_comp comp_def)
  moreover have "rvalue_locals (map_rvalue_operands g rv) = rvalue_locals rv" by (rule rvalue_locals_map)
  ultimately show ?thesis by (cases rv) (simp_all add: apply_rvalue_def)
qed

lemma apply_rvalue_typed:
  assumes "known_ok m s known" "operand_typed rv"
  shows "apply_rvalue m p (map_rvalue_operands (\<lambda>x. fst (rvalue_subst rv known x)) rv) vs s = apply_rvalue m p rv vs s"
proof -
  have un: "m_rvalue m q (u (fst (subst_unless_const prop_is_int_const known a))) ws h = m_rvalue m q (u a) ws h"
    if "u = R_TypeName \<or> u = R_HashCode \<or> u = R_ToString" for q u a ws h
    using subst_unless_const_same[OF assms(1), where op = a and keep = prop_is_int_const] that
    by (cases "fst (subst_unless_const prop_is_int_const known a)")
      (auto simp: same_value_def typed_alike_def)
  let ?g = "\<lambda>x. fst (subst_unless_const is_sign_ambiguous_const known x)"
  have l: "m_rvalue m q (R_Binary op (?g a) b) ws h = m_rvalue m q (R_Binary op a b) ws h"
    and r: "m_rvalue m q (R_Binary op b (?g a)) ws h = m_rvalue m q (R_Binary op b a) ws h"
    if "is_comparison op" for q op a b ws h
    using subst_unless_const_same[OF assms(1), where op = a and keep = is_sign_ambiguous_const] that
    by (cases "?g a", auto simp: same_value_def compared_alike_def)+
  show ?thesis
    using assms(2)
    by (cases rv)
      (simp_all add: apply_rvalue_def rvalue_key_def operand_typed_def rvalue_subst_def rvalue_locals_def un l r)
qed

lemma subst_rvalue_eval:
  assumes "known_ok m s known"
  shows "eval_rvalue m p (fst (subst_rvalue_reads known rv)) s = eval_rvalue m p rv s"
proof -
  let ?g = "\<lambda>x. fst (rvalue_subst rv known x)"
  have "eval_operands m s (rvalue_operands (map_rvalue_operands ?g rv)) = eval_operands m s (rvalue_operands rv)"
    by (simp add: rvalue_operands_map eval_operands_map rvalue_subst_eval[OF assms])
  moreover have "apply_rvalue m p (map_rvalue_operands ?g rv) vs s = apply_rvalue m p rv vs s" for vs
    using apply_rvalue_untyped apply_rvalue_typed[OF assms] by blast
  ultimately show ?thesis by (simp add: eval_rvalue_apply subst_rvalue_reads_def split: option.split)
qed

lemma subst_place_args:
  assumes "known_ok m s known"
  shows "place_args m s (fst (subst_place_reads known p)) = place_args m s p"
    and "erase_place (fst (subst_place_reads known p)) = erase_place p"
    and "fst (subst_place_reads known p) = P_Local l \<longleftrightarrow> p = P_Local l"
  using subst_operand_eval[OF assms]
  by (cases p; simp add: subst_place_reads_def erase_place_def case_prod_beta)+

lemma store_place_heap: "store_place m p v s = Some s' \<Longrightarrow> loc s' = loc s"
  by (auto simp: store_place_def bind_Some_iff)

text \<open>The bindings are about locals and constants, so they survive a change of the heap.\<close>

lemma known_ok_loc:
  assumes "known_ok m s known" "\<And>l v. (l, v) \<in> set known \<Longrightarrow> loc t l = loc s l"
    and "\<And>l k. (l, O_Copy (P_Local k)) \<in> set known \<Longrightarrow> loc t k = loc s k"
  shows "known_ok m t known"
  unfolding known_ok_def
proof (clarify)
  fix l v assume lv: "(l, v) \<in> set known"
  with assms(1) have ok: "reg_operand v" "same_value m s (O_Copy (P_Local l)) v" by (auto simp: known_ok_def)
  have "eval_operand m t v = eval_operand m s v"
    using ok(1) lv assms(3) by (auto simp: reg_operand_def split: operand.splits place.splits)
  with ok assms(2)[OF lv] show "reg_operand v \<and> same_value m t (O_Copy (P_Local l)) v"
    by (simp add: same_value_def)
qed

lemma known_ok_heap [simp]: "known_ok m (s\<lparr>heap := h\<rparr>) known \<longleftrightarrow> known_ok m s known"
  using known_ok_loc[of m s known "s\<lparr>heap := h\<rparr>"] known_ok_loc[of m "s\<lparr>heap := h\<rparr>" known s] by auto

lemma write_subst_place:
  assumes "known_ok m s known"
  shows "write_place m (fst (subst_place_reads known p)) v s = write_place m p v s"
proof -
  have "store_place m (fst (subst_place_reads known p)) v s = store_place m p v s"
    by (simp add: store_place_def subst_place_args[OF assms])
  then show ?thesis
    by (cases p) (simp_all add: write_place_def subst_place_reads_def case_prod_beta)
qed

lemma exec_stmt_other:
  "\<forall>p rv. st \<noteq> S_Assign p rv \<Longrightarrow> st \<noteq> S_Nop \<Longrightarrow>
     exec_stmt m st s =
       (case eval_operands m s (stmt_operands st) of
          None \<Rightarrow> Fault (heap s)
        | Some vs \<Rightarrow>
            (case m_stmt m (stmt_key st) (map (loc s) (stmt_locals st) @ vs) (heap s) of
               Trap h \<Rightarrow> Fault h | Ok _ h \<Rightarrow> Next (s\<lparr>heap := h\<rparr>)))"
  by (simp add: exec_stmt_def split: statement.split)

lemma exec_map_stmt:
  assumes "\<And>x. eval_operand m s (g x) = eval_operand m s x" and "\<forall>p rv. st \<noteq> S_Assign p rv"
  shows "exec_stmt m (map_stmt_operands g st) s = exec_stmt m st s"
proof (cases "st = S_Nop")
  case False
  have ne: "\<forall>p rv. map_stmt_operands g st \<noteq> S_Assign p rv" "map_stmt_operands g st \<noteq> S_Nop"
    using assms(2) False by (cases st; simp)+
  have "stmt_key (map_stmt_operands g st) = stmt_key st"
    by (simp add: stmt_key_def map_stmt_operands_comp comp_def)
  moreover have "stmt_locals (map_stmt_operands g st) = stmt_locals st"
    by (cases st) (simp_all add: stmt_locals_def)
  moreover have "eval_operands m s (stmt_operands (map_stmt_operands g st)) = eval_operands m s (stmt_operands st)"
    by (simp add: stmt_operands_map eval_operands_map[OF assms(1)])
  ultimately show ?thesis
    unfolding exec_stmt_other[OF ne] exec_stmt_other[OF assms(2) False] by (simp only:)
qed simp

lemma eval_rvalue_erase: "erase_place p = erase_place q \<Longrightarrow> eval_rvalue m p rv s = eval_rvalue m q rv s"
  unfolding eval_rvalue_def by (simp only:)

lemma subst_stmt_exec:
  assumes "known_ok m s known"
  shows "exec_stmt m (fst (subst_stmt_reads known st)) s = exec_stmt m st s"
proof (cases "\<exists>p rv. st = S_Assign p rv")
  case True
  then obtain p rv where st: "st = S_Assign p rv" by blast
  have "eval_rvalue m (fst (subst_place_reads known p)) (fst (subst_rvalue_reads known rv)) s = eval_rvalue m p rv s"
    using subst_rvalue_eval[OF assms] eval_rvalue_erase[OF subst_place_args(2)[OF assms]] by metis
  with write_subst_place[of m "s\<lparr>heap := _\<rparr>" known] assms show ?thesis
    by (simp add: st subst_stmt_reads_def exec_stmt_def case_prod_beta split: eff.splits)
next
  case False
  have "fst (subst_stmt_reads known st) = st \<or>
      fst (subst_stmt_reads known st) = map_stmt_operands (\<lambda>x. fst (subst_operand known x)) st"
    using False by (simp add: subst_stmt_reads_def split: statement.split)
  with False exec_map_stmt[of m s "\<lambda>x. fst (subst_operand known x)" st] subst_operand_eval[OF assms]
  show ?thesis by auto
qed

lemma subst_terminator_exec:
  assumes "known_ok m s known"
  shows "exec_term m (fst (subst_terminator_reads known t)) s = exec_term m t s"
  using subst_operand_eval[OF assms] eval_operands_map[of m s "\<lambda>x. fst (subst_operand known x)"]
  by (cases t) (auto simp: subst_terminator_reads_def exec_term_def eval_result_def case_prod_beta split: option.splits)

section \<open>The bindings stay true\<close>

text \<open>The copies and constants a function assigns have the static type of their destination.\<close>

definition copies_alike :: "('v, 'h) machine \<Rightarrow> mir_function \<Rightarrow> bool" where
  "copies_alike m f \<longleftrightarrow>
     (\<forall>blk \<in> set (fn_blocks f). \<forall>st \<in> set (stmts blk). \<forall>l v.
        st = S_Assign (P_Local l) (R_Use v) \<longrightarrow> reg_operand v \<longrightarrow>
        typed_alike m (O_Copy (P_Local l)) v \<and> compared_alike m (O_Copy (P_Local l)) v)"

lemma known_ok_subset: "known_ok m s known \<Longrightarrow> set known' \<subseteq> set known \<Longrightarrow> known_ok m s known'"
  by (auto simp: known_ok_def)

lemma known_ok_invalidate: "known_ok m s known \<Longrightarrow> known_ok m s (invalidate d known)"
  by (rule known_ok_subset) (auto simp: invalidate_def)

lemma known_ok_write:
  assumes "known_ok m s known"
  shows "known_ok m (s\<lparr>loc := (loc s)(d := v)\<rparr>) (invalidate d known)"
  by (rule known_ok_loc[OF known_ok_invalidate[OF assms]]) (auto simp: invalidate_def)

lemma invalidate_fresh: "map_of (invalidate d known) d = None"
  by (auto simp: invalidate_def map_of_eq_None_iff)

lemma exec_assign_Next:
  assumes "exec_stmt m (S_Assign p rv) s = Next s'"
  obtains v h where "eval_rvalue m p rv s = Ok v h" "write_place m p v (s\<lparr>heap := h\<rparr>) = Some s'"
  using assms by (auto simp: exec_stmt_def split: eff.splits option.splits)

lemma exec_keeps_locals:
  assumes "exec_stmt m st s = Next s'" and "\<And>d rv. st = S_Assign (P_Local d) rv \<Longrightarrow> m_is_value m d"
  shows "loc s' = loc s"
proof (cases "\<exists>p rv. st = S_Assign p rv")
  case True
  then obtain p rv where st: "st = S_Assign p rv" by blast
  with assms(1) obtain v h where w: "write_place m p v (s\<lparr>heap := h\<rparr>) = Some s'"
    by (auto elim: exec_assign_Next)
  have "write_place m p v (s\<lparr>heap := h\<rparr>) = store_place m p v (s\<lparr>heap := h\<rparr>)"
    using assms(2) st by (cases p) (simp_all add: write_place_def)
  with w show ?thesis by (auto dest: store_place_heap)
next
  case False
  with assms(1) show ?thesis
    by (cases "st = S_Nop") (auto simp: exec_stmt_other exec_stmt_def[of m S_Nop] split: option.splits eff.splits)
qed

lemma known_ok_assign:
  assumes "known_ok m s known" "exec_stmt m (S_Assign (P_Local d) rv) s = Next s'"
  shows "known_ok m s' (invalidate d known)"
proof (cases "m_is_value m d")
  case True
  then have "loc s' = loc s" using exec_keeps_locals[OF assms(2)] by simp
  then show ?thesis by (intro known_ok_loc[OF known_ok_invalidate[OF assms(1)]]) auto
next
  case False
  from assms(2) obtain v h where "write_place m (P_Local d) v (s\<lparr>heap := h\<rparr>) = Some s'" by (rule exec_assign_Next)
  with False have "s' = s\<lparr>heap := h, loc := (loc s)(d := v)\<rparr>" by (simp add: write_place_def)
  with known_ok_write[of m "s\<lparr>heap := h\<rparr>" known d v] assms(1) show ?thesis by simp
qed

lemma known_ok_insert:
  assumes "known_ok m s known" "map_of known d = None" "reg_operand v" "same_value m s (O_Copy (P_Local d)) v"
  shows "known_ok m s (known_insert d v known)"
  using assms by (auto simp: known_insert_def known_ok_def)

lemma known_ok_copy:
  assumes "known_ok m s known" "exec_stmt m (S_Assign (P_Local d) (R_Use v)) s = Next s'"
    and "\<not> m_is_value m d" "reg_operand v" "v \<noteq> O_Copy (P_Local d)"
    and "typed_alike m (O_Copy (P_Local d)) v" "compared_alike m (O_Copy (P_Local d)) v"
  shows "known_ok m s' (known_insert d v (invalidate d known))"
proof -
  from assms(2) obtain w h where "eval_rvalue m (P_Local d) (R_Use v) s = Ok w h"
    "write_place m (P_Local d) w (s\<lparr>heap := h\<rparr>) = Some s'" by (rule exec_assign_Next)
  with assms(3) have s': "s' = s\<lparr>loc := (loc s)(d := w)\<rparr>" "eval_operand m s v = Some w"
    by (auto simp: write_place_def eval_rvalue_def bind_Some_iff split: option.splits)
  have "eval_operand m s' v = eval_operand m s v"
    using assms(4,5) s'(1) by (auto simp: reg_operand_def split: operand.splits place.splits)
  with s' assms(6,7) have "same_value m s' (O_Copy (P_Local d)) v" by (simp add: same_value_def)
  then show ?thesis
    using known_ok_assign[OF assms(1,2)] invalidate_fresh assms(4) by (intro known_ok_insert)
qed

lemma update_known_ok:
  assumes "known_ok m s known" "exec_stmt m st s = Next s'"
    and "\<And>d v. st = S_Assign (P_Local d) (R_Use v) \<Longrightarrow> reg_operand v \<Longrightarrow>
      typed_alike m (O_Copy (P_Local d)) v \<and> compared_alike m (O_Copy (P_Local d)) v"
    and vl: "\<And>l rv. st = S_Assign (P_Local l) rv \<Longrightarrow> m_is_value m l \<Longrightarrow> nth_opt vl l = Some True"
  shows "known_ok m s' (update_known vl st known)"
proof (cases "\<exists>d rv. st = S_Assign (P_Local d) rv")
  case True
  then obtain d rv where st: "st = S_Assign (P_Local d) rv" by blast
  note inv = known_ok_assign[OF assms(1), of d rv s'] and ex = assms(2)[unfolded st]
  have new: "known_ok m s' (known_insert d v (invalidate d known))"
    if "rv = R_Use v" "reg_operand v" "v \<noteq> O_Copy (P_Local d)" "nth_opt vl d \<noteq> Some True" for v
    using that known_ok_copy[OF assms(1), of d v s'] ex assms(3)[of d v] vl[of d rv] st by auto
  show ?thesis
    using inv ex new
    by (auto simp: st update_known_def Let_def reg_operand_def split: rvalue.split operand.split place.split)
next
  case False
  then have "loc s' = loc s" using exec_keeps_locals[OF assms(2)] by blast
  then have ok: "known_ok m s' known" by (intro known_ok_loc[OF assms(1)]) auto
  have "set (update_known vl st known) \<subseteq> set known"
    using False by (auto simp: update_known_def Let_def invalidate_def split: statement.splits place.splits)
  with ok show ?thesis by (rule known_ok_subset)
qed

section \<open>The pass keeps every run\<close>

text \<open>The substituted copy still has the static type of its destination.\<close>

lemma subst_stmt_alike:
  assumes "known_ok m s known" "fst (subst_stmt_reads known st) = S_Assign (P_Local d) (R_Use w)" "reg_operand w"
    and alike: "\<And>l v. st = S_Assign (P_Local l) (R_Use v) \<Longrightarrow> reg_operand v \<Longrightarrow>
      typed_alike m (O_Copy (P_Local l)) v \<and> compared_alike m (O_Copy (P_Local l)) v"
  shows "typed_alike m (O_Copy (P_Local d)) w \<and> compared_alike m (O_Copy (P_Local d)) w"
proof -
  from assms(2) obtain p rv where st: "st = S_Assign p rv"
    by (cases st) (auto simp: subst_stmt_reads_def)
  with assms(2) have p: "p = P_Local d"
    by (cases p) (auto simp: subst_stmt_reads_def subst_place_reads_def case_prod_beta)
  from assms(2) st obtain v where v: "rv = R_Use v" "w = fst (subst_operand known v)"
    by (cases rv) (auto simp: subst_stmt_reads_def subst_rvalue_reads_def rvalue_subst_def case_prod_beta)
  show ?thesis
  proof (cases "resolve v known")
    case None
    with v assms(3) st p alike show ?thesis by (auto simp: subst_operand_def)
  next
    case (Some u)
    then obtain q where q: "v = O_Copy (P_Local q)" by (cases "(v, known)" rule: resolve.cases) auto
    then have "typed_alike m (O_Copy (P_Local d)) v \<and> compared_alike m (O_Copy (P_Local d)) v"
      using alike[of d v] st p v(1) by (simp add: reg_operand_def)
    moreover have "w = u" using Some v(2) by (simp add: subst_operand_def)
    ultimately show ?thesis
      using resolve_same_value(1)[OF assms(1) Some] q alike_trans by (metis same_value_def)
  qed
qed

lemma subst_stmt_dest:
  "fst (subst_stmt_reads known st) = S_Assign (P_Local l) rv \<Longrightarrow> \<exists>rv'. st = S_Assign (P_Local l) rv'"
  by (cases st)
    (auto simp: subst_stmt_reads_def subst_place_reads_def case_prod_beta split: place.splits)

lemma prop_stmts_exec:
  assumes "known_ok m s known"
    and "\<And>st l v. st \<in> set ss \<Longrightarrow> st = S_Assign (P_Local l) (R_Use v) \<Longrightarrow> reg_operand v \<Longrightarrow>
      typed_alike m (O_Copy (P_Local l)) v \<and> compared_alike m (O_Copy (P_Local l)) v"
    and vl: "\<And>l. m_is_value m l \<Longrightarrow> nth_opt vl l = Some True"
  shows "exec_stmts m (fst (prop_stmts vl known ss)) s = exec_stmts m ss s \<and>
    (\<forall>s'. exec_stmts m ss s = Next s' \<longrightarrow> known_ok m s' (snd (snd (prop_stmts vl known ss))))"
  using assms(1,2)
proof (induction ss arbitrary: s known)
  case (Cons st ss)
  let ?st = "fst (subst_stmt_reads known st)"
  have ex: "exec_stmt m ?st s = exec_stmt m st s" by (rule subst_stmt_exec[OF Cons.prems(1)])
  show ?case
  proof (cases "exec_stmt m st s")
    case (Next s1)
    have "known_ok m s1 (update_known vl ?st known)"
    proof (rule update_known_ok[OF Cons.prems(1)])
      show "exec_stmt m ?st s = Next s1" using ex Next by simp
      show "typed_alike m (O_Copy (P_Local d)) v \<and> compared_alike m (O_Copy (P_Local d)) v"
        if "?st = S_Assign (P_Local d) (R_Use v)" "reg_operand v" for d v
        using subst_stmt_alike[OF Cons.prems(1) that] Cons.prems(2) by simp
      show "nth_opt vl l = Some True" if "m_is_value m l" for l using vl[OF that] .
    qed
    from Cons.IH[OF this] Cons.prems(2) Next ex show ?thesis by (simp add: case_prod_beta)
  qed (simp add: ex case_prod_beta)
qed simp

lemma prop_block_exec:
  assumes "\<And>st l v. st \<in> set (stmts blk) \<Longrightarrow> st = S_Assign (P_Local l) (R_Use v) \<Longrightarrow> reg_operand v \<Longrightarrow>
      typed_alike m (O_Copy (P_Local l)) v \<and> compared_alike m (O_Copy (P_Local l)) v"
    and "\<And>l. m_is_value m l \<Longrightarrow> nth_opt vl l = Some True"
  shows "exec_block m (fst (prop_block vl blk)) s = exec_block m blk s"
proof -
  have "known_ok m s []" by (simp add: known_ok_def)
  from prop_stmts_exec[OF this assms] show ?thesis
    by (auto simp: prop_block_def exec_block_def case_prod_beta subst_terminator_exec split: res.splits)
qed

lemma value_locals_nth:
  "value_locals interner ds = Some vl \<Longrightarrow>
     length vl = length ds \<and> (\<forall>l < length ds. is_value_type interner (ld_ty (ds ! l)) = Some (vl ! l))"
  by (induction ds arbitrary: vl) (auto simp: bind_Some_iff nth_Cons split: nat.splits)

lemma copy_const_prop_runs:
  assumes "copy_const_prop interner f = Some (g, c)"
    and "machine_types m interner (fn_locals f)" "copies_alike m f"
  shows "runs m f b s r \<longleftrightarrow> runs m g b s r"
proof (rule runs_cong)
  fix b s
  from assms(1) obtain vl where vl: "value_locals interner (fn_locals f) = Some vl"
    and g: "g = f\<lparr>fn_blocks := map (\<lambda>blk. fst (prop_block vl blk)) (fn_blocks f)\<rparr>"
    by (auto simp: copy_const_prop_def bind_Some_iff)
  have isv: "nth_opt vl l = Some True" if "m_is_value m l" for l
    using that assms(2) value_locals_nth[OF vl] by (auto simp: machine_types_def nth_opt_Some_iff)
  have "exec_block m (fst (prop_block vl blk)) s = exec_block m blk s" if "blk \<in> set (fn_blocks f)" for blk
    using assms(3) that by (intro prop_block_exec isv) (auto simp: copies_alike_def)
  then show "block_step m f b s = block_step m g b s"
    by (auto simp: block_step_def block_def g nth_opt_map nth_opt_def)
qed

section \<open>A pass that reports no change made none\<close>

lemma subst_operand_unchanged: "\<not> snd (subst_operand known op) \<Longrightarrow> fst (subst_operand known op) = op"
  by (auto simp: subst_operand_def split: option.splits)

lemma subst_unless_const_unchanged:
  "\<not> snd (subst_unless_const keep known op) \<Longrightarrow> fst (subst_unless_const keep known op) = op"
  by (auto simp: subst_unless_const_def split: option.splits operand.splits if_splits)

lemma rvalue_subst_unchanged: "\<not> snd (rvalue_subst rv known op) \<Longrightarrow> fst (rvalue_subst rv known op) = op"
  by (cases rv) (auto simp: rvalue_subst_def dest: subst_operand_unchanged subst_unless_const_unchanged)

lemma map_rvalue_operands_id: "map_rvalue_operands id rv = rv"
  by (cases rv) (simp_all add: option.map_id case_prod_beta)

lemma map_stmt_operands_id: "map_stmt_operands id st = st"
  by (cases st) (simp_all add: option.map_id case_prod_beta map_rvalue_operands_id)

lemma subst_rvalue_unchanged:
  assumes "\<not> snd (subst_rvalue_reads known rv)"
  shows "fst (subst_rvalue_reads known rv) = rv"
proof -
  have "map_rvalue_operands (\<lambda>x. fst (rvalue_subst rv known x)) rv = map_rvalue_operands id rv"
    using assms by (intro map_rvalue_operands_cong)
      (auto simp: subst_rvalue_reads_def list_ex_iff dest: rvalue_subst_unchanged)
  then show ?thesis by (simp add: subst_rvalue_reads_def map_rvalue_operands_id)
qed

lemma subst_stmt_unchanged:
  assumes "\<not> snd (subst_stmt_reads known st)"
  shows "fst (subst_stmt_reads known st) = st"
proof (cases "\<exists>p rv. st = S_Assign p rv")
  case True
  then obtain p rv where st: "st = S_Assign p rv" by blast
  have "fst (subst_place_reads known p) = p" if "\<not> snd (subst_place_reads known p)"
    using that subst_operand_unchanged by (cases p) (auto simp: subst_place_reads_def case_prod_beta)
  with assms subst_rvalue_unchanged[of known rv] show ?thesis
    by (simp add: st subst_stmt_reads_def case_prod_beta)
next
  case False
  let ?g = "\<lambda>x. fst (subst_operand known x)"
  have "fst (subst_stmt_reads known st) = st \<or>
    subst_stmt_reads known st = (map_stmt_operands ?g st, list_ex (\<lambda>x. snd (subst_operand known x)) (stmt_operands st))"
    using False by (simp add: subst_stmt_reads_def split: statement.split)
  then consider "fst (subst_stmt_reads known st) = st"
    | "subst_stmt_reads known st = (map_stmt_operands ?g st, list_ex (\<lambda>x. snd (subst_operand known x)) (stmt_operands st))"
    by blast
  then show ?thesis
  proof cases
    case 2
    have "map_stmt_operands ?g st = map_stmt_operands id st"
      using assms 2 by (intro map_stmt_operands_cong) (auto simp: list_ex_iff dest: subst_operand_unchanged)
    with 2 show ?thesis by (simp add: map_stmt_operands_id)
  qed
qed

lemma subst_terminator_unchanged:
  assumes "\<not> snd (subst_terminator_reads known t)"
  shows "fst (subst_terminator_reads known t) = t"
proof (cases t)
  case (T_TailCall c args)
  with assms have "map (\<lambda>x. fst (subst_operand known x)) args = args"
    by (intro map_idI) (auto simp: subst_terminator_reads_def list_ex_iff dest: subst_operand_unchanged)
  with T_TailCall show ?thesis by (simp add: subst_terminator_reads_def)
qed (use assms in \<open>auto simp: subst_terminator_reads_def case_prod_beta dest: subst_operand_unchanged split: option.splits\<close>)

lemma subst_terminator_successors [simp]:
  "successors (fst (subst_terminator_reads known t)) = successors t"
  by (cases t) (auto simp: subst_terminator_reads_def case_prod_beta split: option.splits)

lemma prop_stmts_unchanged: "\<not> fst (snd (prop_stmts vl known ss)) \<Longrightarrow> fst (prop_stmts vl known ss) = ss"
proof (induction ss arbitrary: known)
  case (Cons st ss)
  then have "\<not> snd (subst_stmt_reads known st)" by (simp add: case_prod_beta)
  with Cons subst_stmt_unchanged[OF this] show ?case by (simp add: case_prod_beta)
qed simp

lemma prop_block_unchanged: "\<not> snd (prop_block vl blk) \<Longrightarrow> fst (prop_block vl blk) = blk"
  using prop_stmts_unchanged[of vl "[]" "stmts blk"]
    subst_terminator_unchanged[of "snd (snd (prop_stmts vl [] (stmts blk)))" "term_of blk"]
  by (simp add: prop_block_def case_prod_beta)

lemma copy_const_prop_unchanged:
  assumes "copy_const_prop interner f = Some (g, False)"
  shows "g = f"
proof -
  from assms obtain vl where vl: "\<forall>blk \<in> set (fn_blocks f). \<not> snd (prop_block vl blk)"
    "g = f\<lparr>fn_blocks := map (\<lambda>blk. fst (prop_block vl blk)) (fn_blocks f)\<rparr>"
    by (auto simp: copy_const_prop_def bind_Some_iff list_ex_iff)
  from vl(1) have "map (\<lambda>blk. fst (prop_block vl blk)) (fn_blocks f) = fn_blocks f"
    by (intro map_idI) (simp add: prop_block_unchanged)
  with vl(2) show ?thesis by simp
qed

lemma copy_const_prop_total:
  assumes "\<forall>d \<in> set (fn_locals f). ld_ty d < length (kinds interner)"
  shows "copy_const_prop interner f \<noteq> None"
proof -
  have "value_locals interner ds \<noteq> None" if "\<forall>d \<in> set ds. ld_ty d < length (kinds interner)" for ds
    using that by (induction ds) (auto simp: is_value_type_def kind_def)
  with assms obtain vl where "value_locals interner (fn_locals f) = Some vl" by blast
  then show ?thesis by (simp add: copy_const_prop_def)
qed

end
