(* ===== verification/Simplify_Cfg.thy ===== *)
theory Simplify_Cfg
  imports Mir_Machine
begin

text \<open>
  CFG simplification (\<open>crates/dream-mir/src/passes/simplify_cfg.rs\<close>): constant branches, branches
  with one target, jumps through empty blocks, if-conversion and block merging, composed in the
  order of the pass. The definitions follow the source function by function; \<open>None\<close> is an index
  panic. The lemmas show for every step that the function keeps its runs, and for the whole pass
  that it returns on every function with valid control flow and keeps the control flow valid.
\<close>

section \<open>Branches whose outcome is known\<close>

text \<open>Both functions compute a new terminator per block and report whether one was found.\<close>

definition rewrite_terms ::
  "(terminator \<Rightarrow> terminator option) \<Rightarrow> mir_function \<Rightarrow> mir_function \<times> bool" where
  "rewrite_terms new_term f =
     (f\<lparr>fn_blocks := map (\<lambda>blk. case new_term (term_of blk) of
          Some t \<Rightarrow> blk\<lparr>term_of := t\<rparr> | None \<Rightarrow> blk) (fn_blocks f)\<rparr>,
      list_ex (\<lambda>blk. new_term (term_of blk) \<noteq> None) (fn_blocks f))"

definition constant_branch :: "terminator \<Rightarrow> terminator option" where
  "constant_branch t =
     (case t of
        T_If (O_Const (C_Bool b)) then_blk else_blk \<Rightarrow> Some (T_Goto (if b then then_blk else else_blk))
      | T_Switch (O_Const (C_Int v)) targets dflt \<Rightarrow>
          Some (T_Goto (case find (\<lambda>(k, _). k = v) targets of Some (_, b) \<Rightarrow> b | None \<Rightarrow> dflt))
      | _ \<Rightarrow> None)"

definition fold_constant_branches :: "mir_function \<Rightarrow> mir_function \<times> bool" where
  "fold_constant_branches f = rewrite_terms constant_branch f"

definition same_target_branch :: "terminator \<Rightarrow> terminator option" where
  "same_target_branch t =
     (case t of
        T_If c then_blk else_blk \<Rightarrow> (if then_blk = else_blk then Some (T_Goto then_blk) else None)
      | T_Switch v targets dflt \<Rightarrow>
          (if list_all (\<lambda>(_, b). b = dflt) targets then Some (T_Goto dflt) else None)
      | _ \<Rightarrow> None)"

definition collapse_same_target_branches :: "mir_function \<Rightarrow> mir_function \<times> bool" where
  "collapse_same_target_branches f = rewrite_terms same_target_branch f"

section \<open>Jumps through empty blocks\<close>

definition set_term :: "mir_function \<Rightarrow> block_id \<Rightarrow> terminator \<Rightarrow> mir_function" where
  "set_term f i t = f\<lparr>fn_blocks := (fn_blocks f)[i := (fn_blocks f ! i)\<lparr>term_of := t\<rparr>]\<rparr>"

definition thread_empty_jump :: "mir_function \<times> bool \<Rightarrow> block_id \<Rightarrow> (mir_function \<times> bool) option" where
  "thread_empty_jump fc i =
     (let (f, changed) = fc in
      case term_of (fn_blocks f ! i) of
        T_Goto t \<Rightarrow>
          (if t = i then Some (f, changed)
           else do {
             blk \<leftarrow> block f t;
             if stmts blk = [] \<and> term_of blk \<noteq> T_Goto t
             then Some (set_term f i (term_of blk), True)
             else Some (f, changed)
           })
      | _ \<Rightarrow> Some (f, changed))"

definition thread_empty_jumps :: "mir_function \<Rightarrow> (mir_function \<times> bool) option" where
  "thread_empty_jumps f = foldM thread_empty_jump (f, False) [0..<length (fn_blocks f)]"

text \<open>One-hop forwarding targets: empty blocks that end in a jump elsewhere.\<close>

definition forward_of :: "mir_function \<Rightarrow> block_id \<Rightarrow> block_id option" where
  "forward_of f i =
     (let blk = fn_blocks f ! i in
      case term_of blk of
        T_Goto t \<Rightarrow> (if stmts blk = [] \<and> t \<noteq> i then Some t else None)
      | _ \<Rightarrow> None)"

definition forwards :: "mir_function \<Rightarrow> block_id option list" where
  "forwards f = map (forward_of f) [0..<length (fn_blocks f)]"

function chase_from :: "block_id option list \<Rightarrow> block_id set \<Rightarrow> block_id \<Rightarrow> block_id option" where
  "chase_from fwd seen cur =
     (if cur \<in> seen then Some cur
      else (case nth_opt fwd cur of
              None \<Rightarrow> None
            | Some None \<Rightarrow> Some cur
            | Some (Some t) \<Rightarrow> chase_from fwd (insert cur seen) t))"
  by pat_completeness auto
termination
proof (relation "measure (\<lambda>(fwd, seen, cur). card ({..<length fwd} - seen))", simp, clarsimp)
  fix fwd :: "block_id option list" and seen cur t
  assume "cur \<notin> seen" "nth_opt fwd cur = Some (Some t)"
  then have "cur \<in> {..<length fwd} - seen" by (auto simp: nth_opt_Some_iff)
  then have "{..<length fwd} - insert cur seen \<subset> {..<length fwd} - seen" by blast
  then show "card ({..<length fwd} - insert cur seen) < card ({..<length fwd} - seen)"
    by (intro psubset_card_mono) auto
qed

declare chase_from.simps [simp del]

definition chase :: "block_id option list \<Rightarrow> block_id \<Rightarrow> block_id option" where
  "chase fwd start = chase_from fwd {} start"

definition edit :: "block_id option list \<Rightarrow> block_id \<Rightarrow> (block_id \<times> bool) option" where
  "edit fwd b = map_option (\<lambda>t. (t, t \<noteq> b)) (chase fwd b)"

definition thread_term :: "block_id option list \<Rightarrow> terminator \<Rightarrow> (terminator \<times> bool) option" where
  "thread_term fwd t =
     (case t of
        T_Goto b \<Rightarrow> map_option (\<lambda>(b', c). (T_Goto b', c)) (edit fwd b)
      | T_If cond then_blk else_blk \<Rightarrow>
          do {
            (tb, c1) \<leftarrow> edit fwd then_blk;
            (eb, c2) \<leftarrow> edit fwd else_blk;
            Some (T_If cond tb eb, c1 \<or> c2)
          }
      | T_Switch v targets dflt \<Rightarrow>
          do {
            (ts, c1) \<leftarrow> map_changed (\<lambda>(k, b). map_option (\<lambda>(b', c). ((k, b'), c)) (edit fwd b)) targets;
            (d, c2) \<leftarrow> edit fwd dflt;
            Some (T_Switch v ts d, c1 \<or> c2)
          }
      | _ \<Rightarrow> Some (t, False))"

definition thread_branch_targets :: "mir_function \<Rightarrow> (mir_function \<times> bool) option" where
  "thread_branch_targets f =
     do {
       (bs, changed) \<leftarrow> map_changed (\<lambda>blk.
           map_option (\<lambda>(t, c). (blk\<lparr>term_of := t\<rparr>, c)) (thread_term (forwards f) (term_of blk)))
         (fn_blocks f);
       Some (f\<lparr>fn_blocks := bs\<rparr>, changed)
     }"

section \<open>If-conversion\<close>

definition all_edges :: "mir_function \<Rightarrow> block_id list" where
  "all_edges f = concat (map (\<lambda>blk. successors (term_of blk)) (fn_blocks f))"

definition predecessor_counts :: "mir_function \<Rightarrow> block_id \<rightharpoonup> nat" where
  "predecessor_counts f =
     foldl (\<lambda>m s. m(s \<mapsto> Suc (case m s of None \<Rightarrow> 0 | Some c \<Rightarrow> c))) Map.empty (all_edges f)"

definition pred_count :: "(block_id \<rightharpoonup> nat) \<Rightarrow> block_id \<Rightarrow> nat" where
  "pred_count preds b = (case preds b of None \<Rightarrow> 0 | Some c \<Rightarrow> c)"

text \<open>The outer option is the index panic, the inner one the source's result.\<close>

definition single_select_arm ::
  "mir_function \<Rightarrow> block_id \<Rightarrow> (local \<times> operand \<times> block_id) option option" where
  "single_select_arm f b =
     map_option (\<lambda>blk.
       case stmts blk of
         [S_Assign (P_Local x) (R_Use val)] \<Rightarrow>
           (case val of
              O_Copy p \<Rightarrow>
                (case (p, term_of blk) of (P_Local _, T_Goto j) \<Rightarrow> Some (x, val, j) | _ \<Rightarrow> None)
            | O_Const _ \<Rightarrow> (case term_of blk of T_Goto j \<Rightarrow> Some (x, val, j) | _ \<Rightarrow> None))
       | _ \<Rightarrow> None) (block f b)"

text \<open>The diamond at block \<open>i\<close>, with its arms, if every guard of the source holds.\<close>

definition select_diamond ::
  "type_interner \<Rightarrow> (block_id \<rightharpoonup> nat) \<Rightarrow> mir_function \<Rightarrow> block_id \<Rightarrow>
     (operand \<times> block_id \<times> block_id \<times> local \<times> operand \<times> operand \<times> block_id) option option" where
  "select_diamond interner preds f i =
     (case term_of (fn_blocks f ! i) of
        T_If cond t e \<Rightarrow>
          (if t = e \<or> t = i \<or> e = i then Some None
           else if pred_count preds t \<noteq> 1 \<or> pred_count preds e \<noteq> 1 then Some None
           else do {
             at \<leftarrow> single_select_arm f t;
             case at of None \<Rightarrow> Some None | Some (xt, av, jt) \<Rightarrow> do {
               ae \<leftarrow> single_select_arm f e;
               case ae of None \<Rightarrow> Some None | Some (xe, ev, je) \<Rightarrow>
                 (if xt \<noteq> xe \<or> jt \<noteq> je then Some None
                  else do {
                    ty \<leftarrow> local_ty f xt;
                    is_val \<leftarrow> is_value_type interner ty;
                    Some (if is_val then None else Some (cond, t, e, xt, av, ev, jt))
                  })
             }
           })
      | _ \<Rightarrow> Some None)"

text \<open>Rewriting the branch block and detaching the two arms.\<close>

definition convert_diamond ::
  "mir_function \<Rightarrow> block_id \<Rightarrow> operand \<Rightarrow> block_id \<Rightarrow> block_id \<Rightarrow> local \<Rightarrow> operand \<Rightarrow> operand \<Rightarrow> block_id \<Rightarrow>
     mir_function" where
  "convert_diamond f i cond t e x av ev j =
     f\<lparr>fn_blocks := (fn_blocks f)
        [i := \<lparr>stmts = stmts (fn_blocks f ! i) @ [S_Assign (P_Local x) (R_Select cond av ev)],
              term_of = T_Goto j\<rparr>,
         t := \<lparr>stmts = [], term_of = T_Unreachable\<rparr>,
         e := \<lparr>stmts = [], term_of = T_Unreachable\<rparr>]\<rparr>"

definition if_convert_at ::
  "type_interner \<Rightarrow> (block_id \<rightharpoonup> nat) \<Rightarrow> mir_function \<times> bool \<Rightarrow> block_id \<Rightarrow> (mir_function \<times> bool) option" where
  "if_convert_at interner preds fc i =
     (let (f, changed) = fc in
      do {
        d \<leftarrow> select_diamond interner preds f i;
        Some (case d of
            None \<Rightarrow> (f, changed)
          | Some (cond, t, e, x, av, ev, j) \<Rightarrow> (convert_diamond f i cond t e x av ev j, True))
      })"

definition if_convert :: "type_interner \<Rightarrow> mir_function \<Rightarrow> (mir_function \<times> bool) option" where
  "if_convert interner f =
     foldM (if_convert_at interner (predecessor_counts f)) (f, False) [0..<length (fn_blocks f)]"

section \<open>Merging blocks\<close>

definition merge_target :: "mir_function \<Rightarrow> (block_id \<rightharpoonup> nat) \<Rightarrow> block_id \<Rightarrow> block_id option" where
  "merge_target f preds i =
     (case term_of (fn_blocks f ! i) of
        T_Goto t \<Rightarrow> (if t = i \<or> t = fn_entry f \<or> pred_count preds t \<noteq> 1 then None else Some t)
      | _ \<Rightarrow> None)"

definition merge_pick :: "mir_function \<Rightarrow> (block_id \<times> block_id) option" where
  "merge_pick f =
     (let preds = predecessor_counts f in
      case find (\<lambda>i. merge_target f preds i \<noteq> None) [0..<length (fn_blocks f)] of
        None \<Rightarrow> None
      | Some i \<Rightarrow> map_option (\<lambda>t. (i, t)) (merge_target f preds i))"

definition merge_at :: "mir_function \<Rightarrow> block_id \<Rightarrow> block_id \<Rightarrow> mir_function option" where
  "merge_at f i t =
     map_option (\<lambda>blk.
       f\<lparr>fn_blocks := (fn_blocks f)
          [t := \<lparr>stmts = [], term_of = T_Unreachable\<rparr>,
           i := \<lparr>stmts = stmts (fn_blocks f ! i) @ stmts blk, term_of = term_of blk\<rparr>]\<rparr>) (block f t)"

text \<open>The blocks that still end in something; every merge removes one of their jumps.\<close>

definition live_terms :: "mir_function \<Rightarrow> nat" where
  "live_terms f = length (filter (\<lambda>blk. term_of blk \<noteq> T_Unreachable) (fn_blocks f))"

lemma merge_pick_Some:
  assumes "merge_pick f = Some (i, t)"
  shows "i < length (fn_blocks f)" "term_of (fn_blocks f ! i) = T_Goto t" "t \<noteq> i" "t \<noteq> fn_entry f"
    "pred_count (predecessor_counts f) t = 1"
proof -
  let ?p = "\<lambda>i. merge_target f (predecessor_counts f) i"
  from assms have fnd: "find (\<lambda>i. ?p i \<noteq> None) [0..<length (fn_blocks f)] = Some i" and tg: "?p i = Some t"
    by (auto simp: merge_pick_def Let_def split: option.splits)
  from fnd show "i < length (fn_blocks f)" by (auto simp: find_Some_iff)
  from tg show "term_of (fn_blocks f ! i) = T_Goto t" "t \<noteq> i" "t \<noteq> fn_entry f"
    "pred_count (predecessor_counts f) t = 1"
    by (auto simp: merge_target_def split: terminator.splits if_splits)
qed

lemma length_filter_list_update:
  "i < length xs \<Longrightarrow>
     length (filter P (xs[i := v])) + (if P (xs ! i) then 1 else 0) = length (filter P xs) + (if P v then 1 else 0)"
proof (induction xs arbitrary: i)
  case (Cons x xs)
  then show ?case using Cons.IH[of "i - 1"] by (cases i) auto
qed simp

lemma merge_at_live_terms:
  assumes "merge_pick f = Some (i, t)" and "merge_at f i t = Some g"
  shows "live_terms g < live_terms f"
proof -
  note p = merge_pick_Some[OF assms(1)]
  let ?P = "\<lambda>blk. term_of blk \<noteq> T_Unreachable"
  let ?bs = "fn_blocks f"
  let ?bt = "\<lparr>stmts = [], term_of = T_Unreachable\<rparr>"
  let ?bi = "\<lparr>stmts = stmts (?bs ! i) @ stmts (?bs ! t), term_of = term_of (?bs ! t)\<rparr>"
  from assms(2) have t: "t < length ?bs" and g: "fn_blocks g = ?bs[t := ?bt, i := ?bi]"
    by (auto simp: merge_at_def block_Some_iff)
  have 1: "length (filter ?P (?bs[t := ?bt])) + (if ?P (?bs ! t) then 1 else 0) = length (filter ?P ?bs)"
    using length_filter_list_update[OF t, of ?P ?bt] by simp
  have 2: "length (filter ?P (fn_blocks g)) + 1 =
      length (filter ?P (?bs[t := ?bt])) + (if ?P (?bs ! t) then 1 else 0)"
    using length_filter_list_update[of i "?bs[t := ?bt]" ?P ?bi] p g by simp
  from 1 2 show ?thesis by (simp add: live_terms_def)
qed

function merge_single_pred_blocks :: "mir_function \<Rightarrow> (mir_function \<times> bool) option" where
  "merge_single_pred_blocks f =
     (case merge_pick f of
        None \<Rightarrow> Some (f, False)
      | Some (i, t) \<Rightarrow>
          (case merge_at f i t of
             None \<Rightarrow> None
           | Some g \<Rightarrow> map_option (\<lambda>(h, _). (h, True)) (merge_single_pred_blocks g)))"
  by pat_completeness auto
termination
  by (relation "measure live_terms") (auto intro: merge_at_live_terms)

declare merge_single_pred_blocks.simps [simp del]

section \<open>The pass\<close>

definition simplify_cfg :: "type_interner \<Rightarrow> mir_function \<Rightarrow> (mir_function \<times> bool) option" where
  "simplify_cfg interner f0 =
     (let (f1, c1) = fold_constant_branches f0;
          (f2, c2) = collapse_same_target_branches f1
      in do {
        (f3, c3) \<leftarrow> thread_empty_jumps f2;
        (f4, c4) \<leftarrow> thread_branch_targets f3;
        (f5, c5) \<leftarrow> if_convert interner f4;
        (f6, c6) \<leftarrow> merge_single_pred_blocks f5;
        Some (f6, c1 \<or> c2 \<or> c3 \<or> c4 \<or> c5 \<or> c6)
      })"

section \<open>Known branches keep the runs\<close>

text \<open>What the branch folder relies on: constant conditions and constant switch values mean themselves.\<close>

definition machine_consts :: "('v, 'h) machine \<Rightarrow> bool" where
  "machine_consts m \<longleftrightarrow>
     (\<forall>b. m_truth m (m_const m (C_Bool b)) = b) \<and> (\<forall>v. m_key m (m_const m (C_Int v)) = v)"

lemma find_switch_target:
  "(case find (\<lambda>(k, _). k = v) targets of Some (_, b) \<Rightarrow> b | None \<Rightarrow> dflt) = switch_target targets v dflt"
  by (induction targets) (auto simp: switch_target_def)

lemma constant_branch_exec:
  assumes "machine_consts m" and "constant_branch t = Some t'"
  shows "exec_term m t' s = exec_term m t s"
  using assms
  by (auto simp: constant_branch_def exec_term_def machine_consts_def find_switch_target
      split: terminator.splits operand.splits const.splits)

lemma switch_target_same: "list_all (\<lambda>(_, b). b = dflt) targets \<Longrightarrow> switch_target targets k dflt = dflt"
  by (induction targets) (auto simp: switch_target_def)

lemma same_target_exec:
  assumes "same_target_branch t = Some t'"
  shows "exec_term m t s = exec_term m t' s \<or> (\<exists>h. exec_term m t s = Stop (Panicked h))"
  using assms
  by (auto simp: same_target_branch_def exec_term_def switch_target_same
      split: terminator.splits if_splits option.splits)

lemma rewrite_terms_step:
  "block_step m (fst (rewrite_terms nt f)) b s =
     (case block f b of
        None \<Rightarrow> Stuck
      | Some blk \<Rightarrow>
          (case exec_stmts m (stmts blk) s of
             Fault h \<Rightarrow> Stop (Panicked h)
           | Next s' \<Rightarrow> exec_term m (case nt (term_of blk) of Some t \<Rightarrow> t | None \<Rightarrow> term_of blk) s'))"
  by (auto simp: block_step_def rewrite_terms_def block_def nth_opt_map exec_block_def
      split: option.splits res.splits)

lemma fold_constant_branches_runs:
  assumes "machine_consts m"
  shows "refines m f (fst (fold_constant_branches f))"
proof (rule refines_weaken)
  show "block_step m f b s = block_step m (fst (fold_constant_branches f)) b s \<or>
    (\<exists>h. block_step m f b s = Stop (Panicked h))" for b s
    using constant_branch_exec[OF assms]
    by (auto simp: fold_constant_branches_def rewrite_terms_step block_step_def[of m f] exec_block_def
        split: option.splits res.splits)
qed (simp add: fold_constant_branches_def rewrite_terms_def)

lemma collapse_same_target_branches_runs: "refines m f (fst (collapse_same_target_branches f))"
proof (rule refines_weaken)
  show "block_step m f b s = block_step m (fst (collapse_same_target_branches f)) b s \<or>
    (\<exists>h. block_step m f b s = Stop (Panicked h))" for b s
    using same_target_exec
    by (fastforce simp: collapse_same_target_branches_def rewrite_terms_step block_step_def[of m f] exec_block_def
        split: option.splits res.splits)
qed (simp add: collapse_same_target_branches_def rewrite_terms_def)

section \<open>Edges never appear\<close>

text \<open>No step of the pass invents a jump target, so valid control flow stays valid.\<close>

definition targets_of :: "mir_function \<Rightarrow> block_id set" where
  "targets_of f = set (all_edges f)"

definition shrinks :: "mir_function \<Rightarrow> mir_function \<Rightarrow> bool" where
  "shrinks f g \<longleftrightarrow>
     fn_entry g = fn_entry f \<and> length (fn_blocks g) = length (fn_blocks f) \<and>
     fn_locals g = fn_locals f \<and> fn_params g = fn_params f \<and> targets_of g \<subseteq> targets_of f"

lemma targets_of_alt: "targets_of f = (\<Union>blk \<in> set (fn_blocks f). set (successors (term_of blk)))"
  by (simp add: targets_of_def all_edges_def)

lemma targets_ofI: "i < length (fn_blocks f) \<Longrightarrow> t \<in> set (successors (term_of (fn_blocks f ! i))) \<Longrightarrow> t \<in> targets_of f"
  by (auto simp: targets_of_alt)

lemma targets_ofE:
  assumes "t \<in> targets_of f"
  obtains i where "i < length (fn_blocks f)" "t \<in> set (successors (term_of (fn_blocks f ! i)))"
  using assms by (auto simp: targets_of_alt set_conv_nth[of "fn_blocks f"])

lemma cfg_ok_targets: "cfg_ok f \<longleftrightarrow> fn_entry f < length (fn_blocks f) \<and> (\<forall>t \<in> targets_of f. t < length (fn_blocks f))"
  by (auto simp: cfg_ok_def targets_of_alt)

lemma shrinks_refl [simp]: "shrinks f f"
  by (simp add: shrinks_def)

lemma shrinks_trans [trans]: "shrinks f g \<Longrightarrow> shrinks g h \<Longrightarrow> shrinks f h"
  by (auto simp: shrinks_def)

lemma shrinks_cfg_ok: "shrinks f g \<Longrightarrow> cfg_ok f \<Longrightarrow> cfg_ok g"
  by (auto simp: shrinks_def cfg_ok_targets)

lemma shrinks_update:
  assumes "i < length (fn_blocks f)" and "set (successors (term_of blk)) \<subseteq> targets_of f"
  shows "shrinks f (f\<lparr>fn_blocks := (fn_blocks f)[i := blk]\<rparr>)"
proof -
  have "targets_of (f\<lparr>fn_blocks := (fn_blocks f)[i := blk]\<rparr>) \<subseteq> targets_of f"
    using assms(2) by (auto simp: targets_of_alt dest!: set_update_subset_insert[THEN subsetD])
  then show ?thesis by (simp add: shrinks_def)
qed

lemma shrinks_rewrite_terms:
  assumes "\<And>t t'. nt t = Some t' \<Longrightarrow> set (successors t') \<subseteq> set (successors t)"
  shows "shrinks f (fst (rewrite_terms nt f))"
  using assms by (fastforce simp: shrinks_def rewrite_terms_def targets_of_alt split: option.splits)

lemma switch_target_cases: "switch_target ts k d \<notin> snd ` set ts \<Longrightarrow> switch_target ts k d = d"
  using switch_target_in by blast

lemma shrinks_fold_constant: "shrinks f (fst (fold_constant_branches f))"
  unfolding fold_constant_branches_def
proof (rule shrinks_rewrite_terms)
  fix t t' assume "constant_branch t = Some t'"
  then show "set (successors t') \<subseteq> set (successors t)"
    by (auto simp: constant_branch_def find_switch_target dest: switch_target_cases
        split: terminator.splits operand.splits const.splits)
qed

lemma shrinks_collapse: "shrinks f (fst (collapse_same_target_branches f))"
  unfolding collapse_same_target_branches_def
  by (rule shrinks_rewrite_terms)
    (auto simp: same_target_branch_def split: terminator.splits if_splits)

section \<open>Threading jumps through empty blocks keeps the runs\<close>

lemma block_step_update:
  "i < length (fn_blocks f) \<Longrightarrow>
     block_step m (f\<lparr>fn_blocks := (fn_blocks f)[i := blk]\<rparr>) b s =
       (if b = i then exec_block m blk s else block_step m f b s)"
  by (simp add: block_step_def block_def nth_opt_update)

lemma block_step_at: "b < length (fn_blocks f) \<Longrightarrow> block_step m f b s = exec_block m (fn_blocks f ! b) s"
  by (simp add: block_step_def block_def)

lemma exec_block_empty: "stmts blk = [] \<Longrightarrow> exec_block m blk s = exec_term m (term_of blk) s"
  by (simp add: exec_block_def)

lemma exec_term_Goto [simp]: "exec_term m (T_Goto b) s = Jump b s"
  by (simp add: exec_term_def)

lemma exec_term_Unreachable [simp]: "exec_term m T_Unreachable s = Stuck"
  by (simp add: exec_term_def)

lemma exec_block_Goto:
  "term_of blk = T_Goto t \<Longrightarrow>
     exec_block m blk s =
       (case exec_stmts m (stmts blk) s of Fault h \<Rightarrow> Stop (Panicked h) | Next s' \<Rightarrow> Jump t s')"
  by (simp add: exec_block_def split: res.split)

lemma set_term_runs:
  assumes "i < length (fn_blocks f)" "term_of (fn_blocks f ! i) = T_Goto t" "t \<noteq> i"
    and "block f t = Some blk" "stmts blk = []"
  shows "runs m f b s r \<longleftrightarrow> runs m (set_term f i (term_of blk)) b s r"
proof (rule runs_shortcut)
  fix b s
  let ?g = "set_term f i (term_of blk)"
  have g: "block_step m ?g c u =
      (if c = i then exec_block m ((fn_blocks f ! i)\<lparr>term_of := term_of blk\<rparr>) u else block_step m f c u)" for c u
    using assms(1) by (simp add: set_term_def block_step_update)
  have t: "block_step m f t u = exec_term m (term_of blk) u" for u
    using assms(4,5) by (simp add: block_step_def exec_block_empty)
  show "block_step m ?g b s = block_step m f b s \<or>
    (\<exists>t s'. block_step m f b s = Jump t s' \<and> block_step m f t s' = block_step m ?g b s \<and>
      block_step m ?g t s' = block_step m f t s')"
    using assms(3) t
    by (auto simp: g block_step_at[OF assms(1)] exec_block_def assms(2) split: res.splits)
qed

lemma thread_empty_jump_step:
  assumes "i < length (fn_blocks f)" and "thread_empty_jump (f, c) i = Some (g, d)"
  shows "shrinks f g \<and> (\<forall>b s r. runs m f b s r \<longleftrightarrow> runs m g b s r)"
proof (cases "g = f")
  case False
  with assms(2) obtain t blk where t: "term_of (fn_blocks f ! i) = T_Goto t" "t \<noteq> i"
    "block f t = Some blk" "stmts blk = []" and g: "g = set_term f i (term_of blk)"
    by (auto simp: thread_empty_jump_def bind_Some_iff split: terminator.splits if_splits)
  from t(3) have "set (successors (term_of blk)) \<subseteq> targets_of f"
    by (auto simp: block_Some_iff intro: targets_ofI)
  then have "shrinks f g" using shrinks_update[OF assms(1)] by (simp add: g set_term_def)
  with set_term_runs[OF assms(1) t] g show ?thesis by blast
qed simp

lemma thread_empty_jumps_runs:
  assumes "thread_empty_jumps f = Some (g, c)"
  shows "shrinks f g" and "runs m f b s r \<longleftrightarrow> runs m g b s r"
proof -
  let ?P = "\<lambda>(h, c). shrinks f h \<and> (\<forall>b s r. runs m f b s r \<longleftrightarrow> runs m h b s r)"
  have "?P (g, c)"
  proof (rule foldM_invariant[where P = ?P])
    show "foldM thread_empty_jump (f, False) [0..<length (fn_blocks f)] = Some (g, c)"
      using assms by (simp add: thread_empty_jumps_def)
    fix u i v assume i: "i \<in> set [0..<length (fn_blocks f)]" and u: "?P u"
      and v: "thread_empty_jump u i = Some v"
    obtain h d h' d' where uv: "u = (h, d)" "v = (h', d')" by fastforce
    with u i have "i < length (fn_blocks h)" by (simp add: shrinks_def)
    from thread_empty_jump_step[OF this v[unfolded uv], of m] u uv show "?P v"
      by (auto intro: shrinks_trans)
  qed simp
  then show "shrinks f g" and "runs m f b s r \<longleftrightarrow> runs m g b s r" by auto
qed

lemma thread_empty_jump_total:
  assumes "cfg_ok f" and "i < length (fn_blocks f)"
  shows "thread_empty_jump (f, c) i \<noteq> None"
proof -
  have "block f t \<noteq> None" if "term_of (fn_blocks f ! i) = T_Goto t" for t
    using cfg_ok_successor[OF assms, of t] that by (simp add: block_def)
  then show ?thesis
    by (fastforce simp: thread_empty_jump_def Let_def bind_eq_None_conv split: terminator.splits)
qed

lemma thread_empty_jumps_total:
  assumes "cfg_ok f"
  shows "\<exists>g c. thread_empty_jumps f = Some (g, c)"
proof -
  let ?P = "\<lambda>(h, c :: bool). shrinks f h"
  have "\<exists>t. foldM thread_empty_jump (f, False) [0..<length (fn_blocks f)] = Some t \<and> ?P t"
  proof (rule foldM_total)
    fix u i assume i: "i \<in> set [0..<length (fn_blocks f)]" and u: "?P u"
    obtain h d where uh: "u = (h, d)" by fastforce
    with u i assms have h: "cfg_ok h" "i < length (fn_blocks h)"
      using shrinks_cfg_ok by (auto simp: shrinks_def)
    from thread_empty_jump_total[OF this, of d] obtain k e where k: "thread_empty_jump u i = Some (k, e)"
      using uh by auto
    with thread_empty_jump_step[OF h(2), of d k e] uh u show "\<exists>t. thread_empty_jump u i = Some t \<and> ?P t"
      by (auto intro: shrinks_trans)
  qed simp
  then show ?thesis by (auto simp: thread_empty_jumps_def)
qed

section \<open>Threading the targets of branches keeps the runs\<close>

abbreviation hop :: "block_id option list \<Rightarrow> block_id \<Rightarrow> block_id \<Rightarrow> bool" where
  "hop fwd a b \<equiv> nth_opt fwd a = Some (Some b)"

definition chain_end :: "block_id option list \<Rightarrow> block_id \<Rightarrow> block_id \<Rightarrow> bool" where
  "chain_end fwd b e \<longleftrightarrow> (hop fwd)\<^sup>*\<^sup>* b e \<and> nth_opt fwd e = Some None"

lemma chase_from_hops: "chase_from fwd seen b = Some e \<Longrightarrow> (hop fwd)\<^sup>*\<^sup>* b e"
proof (induction fwd seen b rule: chase_from.induct)
  case (1 fwd seen cur)
  then show ?case
    by (subst (asm) (2) chase_from.simps)
      (auto split: if_splits option.splits intro: converse_rtranclp_into_rtranclp)
qed

lemma cycle_closed:
  assumes "(hop fwd)\<^sup>*\<^sup>* c e" and "(hop fwd)\<^sup>+\<^sup>+ c c"
  shows "(hop fwd)\<^sup>+\<^sup>+ e e"
  using assms
proof (induction rule: rtranclp_induct)
  case (step y z)
  then obtain x where x: "hop fwd y x" "(hop fwd)\<^sup>*\<^sup>* x y" by (meson tranclpD)
  with step.hyps(2) have "x = z" by simp
  with x step.hyps(2) show ?case by (meson rtranclp_into_tranclp1)
qed

lemma chain_no_cycle:
  assumes "chain_end fwd c e"
  shows "\<not> (hop fwd)\<^sup>+\<^sup>+ c c"
proof
  assume "(hop fwd)\<^sup>+\<^sup>+ c c"
  with assms have "(hop fwd)\<^sup>+\<^sup>+ e e" by (auto simp: chain_end_def intro: cycle_closed)
  then obtain z where "hop fwd e z" by (auto dest: tranclpD)
  with assms show False by (simp add: chain_end_def)
qed

lemma chase_from_chain:
  assumes "chain_end fwd b e" and "\<forall>x \<in> seen. (hop fwd)\<^sup>+\<^sup>+ x b"
  shows "chase_from fwd seen b = Some e"
  using assms
proof (induction fwd seen b rule: chase_from.induct)
  case (1 fwd seen cur)
  have ns: "cur \<notin> seen" using chain_no_cycle[OF "1.prems"(1)] "1.prems"(2) by blast
  show ?case
  proof (cases "nth_opt fwd cur")
    case None
    with "1.prems"(1) show ?thesis by (auto simp: chain_end_def elim: converse_rtranclpE)
  next
    case (Some v)
    show ?thesis
    proof (cases v)
      case None
      with Some "1.prems"(1) ns show ?thesis
        by (auto simp: chain_end_def chase_from.simps[of fwd seen cur] elim: converse_rtranclpE)
    next
      case (Some t)
      with \<open>nth_opt fwd cur = Some v\<close> have h: "hop fwd cur t" by simp
      with "1.prems"(1) have "chain_end fwd t e" by (auto simp: chain_end_def elim: converse_rtranclpE)
      moreover have "\<forall>x \<in> insert cur seen. (hop fwd)\<^sup>+\<^sup>+ x t" using "1.prems"(2) h
        by (auto intro: tranclp.trancl_into_trancl)
      ultimately show ?thesis
        using "1.IH" ns h by (simp add: chase_from.simps[of fwd seen cur])
    qed
  qed
qed

lemma chase_chain: "chain_end fwd b e \<Longrightarrow> chase fwd b = Some e"
  by (simp add: chase_def chase_from_chain)

lemma chase_from_total:
  assumes "b < length fwd" and "\<And>a t. hop fwd a t \<Longrightarrow> t < length fwd"
  shows "chase_from fwd seen b \<noteq> None"
  using assms
proof (induction fwd seen b rule: chase_from.induct)
  case (1 fwd seen cur)
  show ?case
  proof (cases "cur \<in> seen \<or> fwd ! cur = None")
    case True
    with "1.prems" show ?thesis by (auto simp: chase_from.simps[of fwd seen cur])
  next
    case False
    then obtain t where t: "hop fwd cur t" using "1.prems"(1) by auto
    then have "chase_from fwd (insert cur seen) t \<noteq> None" using "1.IH" "1.prems" False by blast
    with t False show ?thesis by (simp add: chase_from.simps[of fwd seen cur])
  qed
qed

lemma forwards_nth:
  "nth_opt (forwards f) b = (if b < length (fn_blocks f) then Some (forward_of f b) else None)"
  by (simp add: forwards_def nth_opt_def)

lemma forward_of_Some:
  "forward_of f b = Some t \<longleftrightarrow>
     stmts (fn_blocks f ! b) = [] \<and> term_of (fn_blocks f ! b) = T_Goto t \<and> t \<noteq> b"
  by (auto simp: forward_of_def Let_def split: terminator.splits)

lemma hop_forwards:
  "hop (forwards f) b t \<longleftrightarrow>
     b < length (fn_blocks f) \<and> stmts (fn_blocks f ! b) = [] \<and> term_of (fn_blocks f ! b) = T_Goto t \<and> t \<noteq> b"
  by (simp add: forwards_nth forward_of_Some)

lemma hop_step: "hop (forwards f) b t \<Longrightarrow> block_step m f b s = Jump t s"
  by (simp add: hop_forwards block_step_at exec_block_empty)

lemma hops_run: "(hop (forwards f))\<^sup>*\<^sup>* b t \<Longrightarrow> runs m f b s r \<longleftrightarrow> runs m f t s r"
proof (induction rule: rtranclp_induct)
  case (step y z)
  have "runs m f y s r \<longleftrightarrow> runs m f z s r" by (subst runs_iff) (simp add: hop_step[OF step.hyps(2)])
  with step.IH show ?case by simp
qed simp

lemma runs_chain_end: "runs m f b s r \<Longrightarrow> \<exists>e. chain_end (forwards f) b e"
proof (induction rule: runs.induct)
  case (runs_stop b s r)
  then have "b < length (fn_blocks f)" by (auto simp: block_step_def block_def nth_opt_def split: if_splits)
  moreover have "forward_of f b = None"
    using hop_step[of f b _ m s] runs_stop calculation by (cases "forward_of f b") (auto simp: forwards_nth)
  ultimately have "chain_end (forwards f) b b" by (simp add: chain_end_def forwards_nth)
  then show ?case ..
next
  case (runs_jump b s b' s' r)
  from runs_jump.hyps(1) have b: "b < length (fn_blocks f)"
    by (auto simp: block_step_def block_def nth_opt_def split: if_splits)
  show ?case
  proof (cases "forward_of f b")
    case None
    with b have "chain_end (forwards f) b b" by (simp add: chain_end_def forwards_nth)
    then show ?thesis ..
  next
    case (Some t)
    with b have h: "hop (forwards f) b t" by (simp add: forwards_nth)
    with hop_step[OF h, of m s] runs_jump.hyps(1) have "t = b'" by simp
    with h runs_jump.IH show ?thesis
      by (auto simp: chain_end_def intro: converse_rtranclp_into_rtranclp)
  qed
qed

lemma edit_Some_iff: "edit fwd b = Some (b', c) \<longleftrightarrow> chase fwd b = Some b' \<and> c = (b' \<noteq> b)"
  by (auto simp: edit_def)

lemma switch_target_chase:
  assumes "map_changed (\<lambda>(k, b). map_option (\<lambda>(b', c). ((k, b'), c)) (edit fwd b)) targets = Some (ts, c)"
    and "chase fwd d = Some d'"
  shows "chase fwd (switch_target targets k d) = Some (switch_target ts k d')"
  using assms(1)
proof (induction targets arbitrary: ts c)
  case Nil
  with assms(2) show ?case by (simp add: switch_target_def)
next
  case (Cons kb targets)
  then obtain b' c1 ts' c2 where "edit fwd (snd kb) = Some (b', c1)"
    "map_changed (\<lambda>(k, b). map_option (\<lambda>(b', c). ((k, b'), c)) (edit fwd b)) targets = Some (ts', c2)"
    "ts = (fst kb, b') # ts'"
    by (cases kb) (auto simp: bind_Some_iff)
  with Cons.IH show ?case
    by (cases kb) (auto simp: switch_target_def edit_Some_iff)
qed

text \<open>The threaded terminator does what the original did, with the chased target.\<close>

lemma thread_term_exec:
  assumes "thread_term fwd t = Some (t', c)"
  shows "case exec_term m t s of
      Jump b s' \<Rightarrow> (\<exists>b'. exec_term m t' s = Jump b' s' \<and> (b' = b \<or> chase fwd b = Some b'))
    | x \<Rightarrow> exec_term m t' s = x"
proof (cases t)
  case (T_Goto b)
  with assms show ?thesis by (auto simp: thread_term_def edit_Some_iff)
next
  case (T_If cond a b)
  with assms show ?thesis
    by (auto simp: thread_term_def edit_Some_iff bind_Some_iff exec_term_def split: option.splits)
next
  case (T_Switch v targets d)
  with assms switch_target_chase[of fwd targets] show ?thesis
    by (auto simp: thread_term_def edit_Some_iff bind_Some_iff exec_term_def split: option.splits)
qed (use assms in \<open>auto simp: thread_term_def split: step.splits\<close>)

lemma thread_branch_targets_block:
  assumes "thread_branch_targets f = Some (g, c)"
  shows "fn_entry g = fn_entry f \<and> length (fn_blocks g) = length (fn_blocks f) \<and>
      fn_locals g = fn_locals f \<and> fn_params g = fn_params f"
    and "b < length (fn_blocks f) \<Longrightarrow> stmts (fn_blocks g ! b) = stmts (fn_blocks f ! b) \<and>
      (\<exists>d. thread_term (forwards f) (term_of (fn_blocks f ! b)) = Some (term_of (fn_blocks g ! b), d))"
proof -
  let ?h = "\<lambda>blk. map_option (\<lambda>(t, c). (blk\<lparr>term_of := t\<rparr>, c)) (thread_term (forwards f) (term_of blk))"
  from assms obtain bs where bs: "map_changed ?h (fn_blocks f) = Some (bs, c)" and g: "g = f\<lparr>fn_blocks := bs\<rparr>"
    by (auto simp: thread_branch_targets_def bind_Some_iff)
  from bs have len: "length bs = length (fn_blocks f)" by (simp add: map_changed_Some_iff)
  with g show "fn_entry g = fn_entry f \<and> length (fn_blocks g) = length (fn_blocks f) \<and>
      fn_locals g = fn_locals f \<and> fn_params g = fn_params f" by simp
  assume "b < length (fn_blocks f)"
  with bs obtain d where "?h (fn_blocks f ! b) = Some (bs ! b, d)" by (auto simp: map_changed_Some_iff)
  with g show "stmts (fn_blocks g ! b) = stmts (fn_blocks f ! b) \<and>
      (\<exists>d. thread_term (forwards f) (term_of (fn_blocks f ! b)) = Some (term_of (fn_blocks g ! b), d))"
    by (auto dest!: sym[of _ "bs ! b"])
qed

lemma thread_branch_targets_step:
  assumes "thread_branch_targets f = Some (g, c)"
  shows "case block_step m f b s of
      Jump t s' \<Rightarrow> (\<exists>t'. block_step m g b s = Jump t' s' \<and> (t' = t \<or> chase (forwards f) t = Some t'))
    | x \<Rightarrow> block_step m g b s = x"
proof (cases "b < length (fn_blocks f)")
  case True
  note blk = thread_branch_targets_block[OF assms]
  from blk(2)[OF True] obtain d where
    t: "thread_term (forwards f) (term_of (fn_blocks f ! b)) = Some (term_of (fn_blocks g ! b), d)" by blast
  show ?thesis
  proof (cases "exec_stmts m (stmts (fn_blocks f ! b)) s")
    case (Next s')
    then have "block_step m g b s = exec_term m (term_of (fn_blocks g ! b)) s'"
      using blk(1) blk(2)[OF True] True by (simp add: block_step_at exec_block_def)
    with Next show ?thesis
      using thread_term_exec[OF t, of m s'] True by (simp add: block_step_at exec_block_def split: step.splits)
  next
    case (Fault h)
    then show ?thesis using blk True by (simp add: block_step_at exec_block_def)
  qed
next
  case False
  then show ?thesis
    using thread_branch_targets_block(1)[OF assms] by (simp add: block_step_def block_def)
qed

lemma thread_branch_targets_runs:
  assumes "thread_branch_targets f = Some (g, c)"
  shows "runs m f b s r \<longleftrightarrow> runs m g b s r"
proof
  note step = thread_branch_targets_step[OF assms, of m]
  have walk: "runs m g e s r" if "runs m g b s r" "chain_end (forwards f) b e" for b e s r
  proof (cases "b = e")
    case False
    with that(2) obtain t where t: "hop (forwards f) b t" "chain_end (forwards f) t e"
      by (auto simp: chain_end_def elim: converse_rtranclpE)
    have "stmts (fn_blocks g ! b) = [] \<and> term_of (fn_blocks g ! b) = T_Goto e"
      using chase_chain[OF t(2)] thread_branch_targets_block(2)[OF assms, of b] t(1)
      by (auto simp: hop_forwards thread_term_def edit_Some_iff)
    then have "block_step m g b s = Jump e s"
      using t(1) thread_branch_targets_block(1)[OF assms]
      by (simp add: hop_forwards block_step_at exec_block_empty)
    with that(1) show ?thesis by (subst (asm) runs_iff) simp
  qed (use that in simp)
  show "runs m f b s r \<Longrightarrow> runs m g b s r"
  proof (induction rule: runs.induct)
    case (runs_stop b s r)
    with step[of b s] show ?case by (auto intro: runs.runs_stop)
  next
    case (runs_jump b s b' s' r)
    from step[of b s] runs_jump.hyps(1) obtain t' where
      t': "block_step m g b s = Jump t' s'" "t' = b' \<or> chase (forwards f) b' = Some t'" by auto
    from runs_chain_end[OF runs_jump.hyps(2)] obtain e where e: "chain_end (forwards f) b' e" ..
    have "runs m g t' s' r"
      using t'(2) chase_chain[OF e] walk[OF runs_jump.IH e] runs_jump.IH by auto
    with t'(1) show ?case by (rule runs.runs_jump)
  qed
  show "runs m g b s r \<Longrightarrow> runs m f b s r"
  proof (induction rule: runs.induct)
    case (runs_stop b s r)
    with step[of b s] show ?case by (cases "block_step m f b s") (auto intro: runs.runs_stop)
  next
    case (runs_jump b s b' s' r)
    from step[of b s] runs_jump.hyps(1) obtain t where
      t: "block_step m f b s = Jump t s'" "b' = t \<or> chase (forwards f) t = Some b'"
      by (cases "block_step m f b s") auto
    have "runs m f t s' r"
      using t(2) runs_jump.IH chase_from_hops[of "forwards f" "{}" t b'] hops_run[of f t b' m s' r]
      by (auto simp: chase_def)
    with t(1) show ?case by (rule runs.runs_jump)
  qed
qed

lemma shrinks_thread_branch_targets:
  assumes "thread_branch_targets f = Some (g, c)"
  shows "shrinks f g"
proof -
  have hops: "t \<in> targets_of f \<Longrightarrow> (hop (forwards f))\<^sup>*\<^sup>* t u \<Longrightarrow> u \<in> targets_of f" for t u
    by (erule rtranclp_induct) (auto simp: hop_forwards intro: targets_ofI)
  have chased: "t \<in> targets_of f \<Longrightarrow> chase (forwards f) t = Some u \<Longrightarrow> u \<in> targets_of f" for t u
    using hops chase_from_hops by (auto simp: chase_def)
  have switch: "set (map snd ts) \<subseteq> targets_of f"
    if "map_changed (\<lambda>(k, b). map_option (\<lambda>(b', c). ((k, b'), c)) (edit (forwards f) b)) targets = Some (ts, d)"
      "snd ` set targets \<subseteq> targets_of f" for targets ts d
  proof
    fix u assume "u \<in> set (map snd ts)"
    then obtain i where i: "i < length ts" "u = snd (ts ! i)" by (auto simp: in_set_conv_nth)
    with that(1) obtain e where i': "i < length targets"
      "(case targets ! i of (k, b) \<Rightarrow> map_option (\<lambda>(b', c). ((k, b'), c)) (edit (forwards f) b)) = Some (ts ! i, e)"
      by (auto simp: map_changed_Some_iff)
    then have "chase (forwards f) (snd (targets ! i)) = Some u"
      using i(2) by (cases "targets ! i") (auto simp: edit_Some_iff dest!: sym[of _ "ts ! i"])
    moreover have "snd (targets ! i) \<in> targets_of f" using that(2) i'(1) by auto
    ultimately show "u \<in> targets_of f" by (rule chased[rotated])
  qed
  have one: "set (successors t') \<subseteq> targets_of f"
    if "thread_term (forwards f) t = Some (t', d)" "set (successors t) \<subseteq> targets_of f" for t t' d
  proof (cases t)
    case (T_Switch v targets dflt)
    with that(1) obtain ts c1 d' where ts:
      "map_changed (\<lambda>(k, b). map_option (\<lambda>(b', c). ((k, b'), c)) (edit (forwards f) b)) targets = Some (ts, c1)"
      "chase (forwards f) dflt = Some d'" "t' = T_Switch v ts d'"
      by (auto simp: thread_term_def bind_Some_iff edit_Some_iff)
    have "set (map snd ts) \<subseteq> targets_of f" using switch[OF ts(1)] that(2) T_Switch by simp
    moreover have "d' \<in> targets_of f" using chased[OF _ ts(2)] that(2) T_Switch by simp
    ultimately show ?thesis using ts(3) by simp
  qed (use that in \<open>auto simp: thread_term_def bind_Some_iff edit_Some_iff intro: chased\<close>)
  have "targets_of g \<subseteq> targets_of f"
  proof
    fix u assume "u \<in> targets_of g"
    then obtain i where i: "i < length (fn_blocks g)" "u \<in> set (successors (term_of (fn_blocks g ! i)))"
      by (rule targets_ofE)
    with thread_branch_targets_block[OF assms] obtain d where
      "thread_term (forwards f) (term_of (fn_blocks f ! i)) = Some (term_of (fn_blocks g ! i), d)"
      "i < length (fn_blocks f)" by fastforce
    with one[OF this(1)] i(2) show "u \<in> targets_of f" by (auto intro: targets_ofI)
  qed
  with thread_branch_targets_block(1)[OF assms] show ?thesis by (simp add: shrinks_def)
qed

lemma chase_total:
  assumes "cfg_ok f" and "b < length (fn_blocks f)"
  shows "chase (forwards f) b \<noteq> None"
  unfolding chase_def
proof (rule chase_from_total)
  have len: "length (forwards f) = length (fn_blocks f)" by (simp add: forwards_def)
  show "b < length (forwards f)" using assms(2) len by simp
  show "t < length (forwards f)" if "hop (forwards f) a t" for a t
    using that cfg_ok_successor[OF assms(1), of a t] by (simp add: hop_forwards len)
qed

lemma thread_branch_targets_total:
  assumes "cfg_ok f"
  shows "thread_branch_targets f \<noteq> None"
proof -
  have e: "edit (forwards f) b \<noteq> None" if "b < length (fn_blocks f)" for b
    using chase_total[OF assms that] by (simp add: edit_def)
  have sw: "\<exists>ts c. map_changed (\<lambda>(k, b). map_option (\<lambda>(b', c). ((k, b'), c)) (edit (forwards f) b)) targets = Some (ts, c)"
    if "\<forall>b \<in> snd ` set targets. b < length (fn_blocks f)" for targets :: "(int \<times> block_id) list"
    using that e by (intro map_changed_total) force
  have "thread_term (forwards f) (term_of blk) \<noteq> None" if "blk \<in> set (fn_blocks f)" for blk
  proof (cases "term_of blk")
    case (T_Switch v targets d)
    with that assms have "\<forall>b \<in> snd ` set targets. b < length (fn_blocks f)" "d < length (fn_blocks f)"
      by (force simp: cfg_ok_def)+
    with sw e[of d] T_Switch show ?thesis by (fastforce simp: thread_term_def)
  next
    case (T_If c a b)
    with that assms have "a < length (fn_blocks f)" "b < length (fn_blocks f)" by (force simp: cfg_ok_def)+
    with e[of a] e[of b] T_If show ?thesis by (fastforce simp: thread_term_def)
  next
    case (T_Goto b)
    with that assms e[of b] show ?thesis by (force simp: thread_term_def cfg_ok_def)
  qed (simp_all add: thread_term_def)
  then have "\<exists>bs c. map_changed (\<lambda>blk. map_option (\<lambda>(t, c). (blk\<lparr>term_of := t\<rparr>, c))
      (thread_term (forwards f) (term_of blk))) (fn_blocks f) = Some (bs, c)"
    by (intro map_changed_total) auto
  then show ?thesis by (auto simp: thread_branch_targets_def)
qed

section \<open>Absorbing blocks with one predecessor\<close>

text \<open>
  A block \<open>i\<close> takes over the step of the blocks it jumps to, and those blocks, which nothing else
  reaches, are given up. Both if-conversion and merging are of this form.
\<close>

lemma runs_absorb:
  assumes other: "\<And>b s. b \<notin> D \<Longrightarrow> b \<noteq> i \<Longrightarrow> block_step m g b s = block_step m f b s"
    and leave: "\<And>b s b' s'. b \<notin> D \<Longrightarrow> b \<noteq> i \<Longrightarrow> block_step m f b s = Jump b' s' \<Longrightarrow> b' \<notin> D"
    and leaveD: "\<And>b s b' s'. b \<in> D \<Longrightarrow> block_step m f b s = Jump b' s' \<Longrightarrow> b' \<notin> D"
    and at: "\<And>s. block_step m g i s = block_step m f i s \<and> (\<forall>t s'. block_step m f i s \<noteq> Jump t s') \<or>
      (\<exists>t s'. t \<in> D \<and> block_step m f i s = Jump t s' \<and> block_step m g i s = block_step m f t s')"
    and i: "i \<notin> D" and b: "b \<notin> D"
  shows "runs m f b s r \<longleftrightarrow> runs m g b s r"
proof
  have "(b \<notin> D \<longrightarrow> runs m g b s r) \<and>
      (b \<in> D \<longrightarrow> (\<forall>s0. block_step m g i s0 = block_step m f b s \<longrightarrow> runs m g i s0 r))"
    if "runs m f b s r" for b s r
    using that
  proof (induction rule: runs.induct)
    case (runs_stop b s r)
    then show ?case using other[of b s] at[of s] by (cases "b = i") (auto intro: runs.runs_stop)
  next
    case (runs_jump b s b' s' r)
    show ?case
    proof (cases "b = i")
      case True
      with at[of s] runs_jump.hyps(1) have "b' \<in> D" "block_step m g i s = block_step m f b' s'" by auto
      with runs_jump.IH True i show ?thesis by blast
    next
      case False
      then have "b' \<notin> D" using leave leaveD runs_jump.hyps(1) by blast
      with False other[of b s] runs_jump show ?thesis by (auto intro: runs.runs_jump)
    qed
  qed
  then show "runs m f b s r \<Longrightarrow> runs m g b s r" using b by blast
  have "b \<notin> D \<longrightarrow> runs m f b s r" if "runs m g b s r" for b s r
    using that
  proof (induction rule: runs.induct)
    case (runs_stop b s r)
    show ?case
    proof (cases "b = i")
      case True
      with runs_stop at[of s] show ?thesis by (metis runs.runs_jump runs.runs_stop)
    qed (use runs_stop other[of b s] in \<open>auto intro: runs.runs_stop\<close>)
  next
    case (runs_jump b s b' s' r)
    show ?case
    proof (cases "b = i")
      case True
      with runs_jump.hyps(1) at[of s] obtain t u where t: "t \<in> D" "block_step m f i s = Jump t u"
        "block_step m f t u = Jump b' s'" by metis
      with leaveD runs_jump.IH have "runs m f t u r" by (blast intro: runs.runs_jump)
      with t(2) True show ?thesis by (blast intro: runs.runs_jump)
    next
      case False
      show ?thesis using False runs_jump other[of b s] leave by (metis runs.runs_jump)
    qed
  qed
  then show "runs m g b s r \<Longrightarrow> runs m f b s r" using b by blast
qed

lemma pred_count_eq: "pred_count (predecessor_counts f) t = count_list (all_edges f) t"
proof -
  let ?h = "\<lambda>m s. m(s \<mapsto> Suc (case m s of None \<Rightarrow> 0 | Some c \<Rightarrow> c))"
  have "pred_count (foldl ?h p xs) t = pred_count p t + count_list xs t" for p xs
    by (induction xs arbitrary: p) (auto simp: pred_count_def)
  from this[of Map.empty] show ?thesis by (simp add: predecessor_counts_def pred_count_def)
qed

lemma count_concat_unique:
  assumes "count_list (concat xss) t \<le> 1" and "i < length xss" "j < length xss"
    and "t \<in> set (xss ! i)" "t \<in> set (xss ! j)"
  shows "i = j"
  using assms
proof (induction xss arbitrary: i j)
  case (Cons xs xss)
  have z: "count_list (concat xss) t = 0" if "t \<in> set xs"
    using that Cons.prems(1) count_list_0_iff[of xs t] by (cases "count_list xs t") auto
  have n: "t \<notin> set (xss ! k)" if "t \<in> set xs" "k < length xss" for k
    using z[OF that(1)] that(2) by (auto simp: count_list_0_iff)
  show ?case
  proof (cases i)
    case 0
    with n Cons.prems show ?thesis by (cases j) auto
  next
    case (Suc i')
    with n Cons show ?thesis by (cases j) auto
  qed
qed simp

lemma unique_pred:
  assumes "count_list (all_edges f) t \<le> 1" and "i < length (fn_blocks f)" "j < length (fn_blocks f)"
    and "t \<in> set (successors (term_of (fn_blocks f ! i)))" "t \<in> set (successors (term_of (fn_blocks f ! j)))"
  shows "i = j"
  using assms count_concat_unique[of "map (\<lambda>blk. successors (term_of blk)) (fn_blocks f)" t i j]
  by (simp add: all_edges_def)

lemma step_targets:
  "block_step m f b s = Jump b' s' \<Longrightarrow> count_list (all_edges f) b' \<le> 1 \<Longrightarrow>
     i < length (fn_blocks f) \<Longrightarrow> b' \<in> set (successors (term_of (fn_blocks f ! i))) \<Longrightarrow> b = i"
  using block_step_Jump[of m f b s b' s'] unique_pred[of f b' b i] by blast

lemma merge_at_step:
  assumes "merge_pick f = Some (i, t)" and "merge_at f i t = Some g"
  shows "shrinks f g" and "b \<noteq> t \<Longrightarrow> runs m f b s r \<longleftrightarrow> runs m g b s r"
proof -
  note p = merge_pick_Some[OF assms(1)]
  let ?u = "\<lparr>stmts = [], term_of = T_Unreachable\<rparr>"
  let ?bi = "\<lparr>stmts = stmts (fn_blocks f ! i) @ stmts (fn_blocks f ! t), term_of = term_of (fn_blocks f ! t)\<rparr>"
  from assms(2) have t: "t < length (fn_blocks f)"
    and g: "g = f\<lparr>fn_blocks := (fn_blocks f)[t := ?u, i := ?bi]\<rparr>"
    by (auto simp: merge_at_def block_Some_iff)
  have "set (successors (term_of blk)) \<subseteq> targets_of f" if "blk \<in> set (fn_blocks g)" for blk
    using that t by (auto simp: g targets_of_alt intro!: bexI[of _ "fn_blocks f ! t"]
        dest!: set_update_subset_insert[THEN subsetD])
  then show "shrinks f g" by (auto simp: shrinks_def g targets_of_alt)
  have one: "count_list (all_edges f) t \<le> 1" using p(5) by (simp add: pred_count_eq)
  have only_i: "b' \<noteq> t" if "block_step m f b s = Jump b' s'" "b \<noteq> i" for b s b' s'
    using step_targets[OF that(1)] that(2) one p(1,2) by auto
  have bi: "block_step m g i s =
      (case exec_stmts m (stmts (fn_blocks f ! i)) s of
         Fault h \<Rightarrow> Stop (Panicked h) | Next s' \<Rightarrow> exec_block m (fn_blocks f ! t) s')" for s
    using p(1,3) t by (simp add: g block_step_at exec_block_def exec_stmts_append split: res.splits)
  have other: "block_step m g b s = block_step m f b s" if "b \<noteq> t" "b \<noteq> i" for b s
    using that p(1) t by (simp add: g block_step_def block_def nth_opt_update)
  show "b \<noteq> t \<Longrightarrow> runs m f b s r \<longleftrightarrow> runs m g b s r"
  proof (rule runs_absorb[where D = "{t}" and i = i])
    fix s
    show "block_step m g i s = block_step m f i s \<and> (\<forall>t s'. block_step m f i s \<noteq> Jump t s') \<or>
      (\<exists>ta s'. ta \<in> {t} \<and> block_step m f i s = Jump ta s' \<and> block_step m g i s = block_step m f ta s')"
      using p(1) t
      by (auto simp: bi block_step_at exec_block_Goto[OF p(2)] split: res.splits)
  qed (use p(3) in \<open>auto simp: other dest: only_i\<close>)
qed

lemma merge_single_pred_blocks_runs:
  assumes "merge_single_pred_blocks f = Some (g, c)"
  shows "shrinks f g \<and> (\<forall>s r. runs m f (fn_entry f) s r \<longleftrightarrow> runs m g (fn_entry f) s r)"
  using assms
proof (induction f arbitrary: g c rule: merge_single_pred_blocks.induct)
  case (1 f)
  show ?case
  proof (cases "merge_pick f")
    case None
    with "1.prems" show ?thesis by (simp add: merge_single_pred_blocks.simps[of f])
  next
    case (Some it)
    obtain i t where it: "it = (i, t)" by fastforce
    from Some it "1.prems" obtain h d where h: "merge_at f i t = Some h"
      "merge_single_pred_blocks h = Some (g, d)"
      by (subst (asm) merge_single_pred_blocks.simps) (auto split: option.splits)
    from "1.IH"[OF Some[unfolded it] refl h] have ih: "shrinks h g"
      "\<forall>s r. runs m h (fn_entry h) s r \<longleftrightarrow> runs m g (fn_entry h) s r" by auto
    note st = merge_at_step[OF Some[unfolded it] h(1)]
    have "fn_entry f \<noteq> t" using merge_pick_Some(4)[OF Some[unfolded it]] by simp
    then have "runs m f (fn_entry f) s r \<longleftrightarrow> runs m h (fn_entry f) s r" for s r by (rule st(2))
    with ih st(1) show ?thesis using shrinks_trans[OF st(1) ih(1)] by (simp add: shrinks_def)
  qed
qed

lemma merge_single_pred_blocks_total:
  "cfg_ok f \<Longrightarrow> merge_single_pred_blocks f \<noteq> None"
proof (induction f rule: merge_single_pred_blocks.induct)
  case (1 f)
  show ?case
  proof (cases "merge_pick f")
    case None
    then show ?thesis by (simp add: merge_single_pred_blocks.simps[of f])
  next
    case (Some it)
    obtain i t where it: "it = (i, t)" by fastforce
    note p = merge_pick_Some[OF Some[unfolded it]]
    from p(1,2) "1.prems" have "t < length (fn_blocks f)" using cfg_ok_successor[of f i t] by simp
    then obtain h where h: "merge_at f i t = Some h" by (simp add: merge_at_def block_def)
    with merge_at_step(1)[OF Some[unfolded it]] "1.prems" have "cfg_ok h" using shrinks_cfg_ok by blast
    with "1.IH"[OF Some[unfolded it] refl h] Some it h show ?thesis
      by (simp add: merge_single_pred_blocks.simps[of f])
  qed
qed

section \<open>If-conversion keeps the runs\<close>

definition simple_operand :: "operand \<Rightarrow> bool" where
  "simple_operand op = (case op of O_Const _ \<Rightarrow> True | O_Copy (P_Local _) \<Rightarrow> True | _ \<Rightarrow> False)"

lemma eval_simple: "simple_operand op \<Longrightarrow> eval_operand m s op \<noteq> None"
  by (auto simp: simple_operand_def split: operand.splits place.splits)

lemma single_select_arm_Some:
  assumes "single_select_arm f b = Some (Some (x, v, j))"
  shows "b < length (fn_blocks f)" "stmts (fn_blocks f ! b) = [S_Assign (P_Local x) (R_Use v)]"
    "term_of (fn_blocks f ! b) = T_Goto j" "simple_operand v"
  using assms
  by (auto simp: single_select_arm_def block_Some_iff simple_operand_def
      split: list.splits statement.splits place.splits rvalue.splits operand.splits terminator.splits)

lemma select_diamond_Some:
  assumes "select_diamond interner preds f i = Some (Some (cond, t, e, x, av, ev, j))"
  shows "term_of (fn_blocks f ! i) = T_If cond t e" "t \<noteq> e" "t \<noteq> i" "e \<noteq> i"
    "pred_count preds t = 1" "pred_count preds e = 1"
    "single_select_arm f t = Some (Some (x, av, j))" "single_select_arm f e = Some (Some (x, ev, j))"
    "\<exists>ty. local_ty f x = Some ty \<and> is_value_type interner ty = Some False"
  using assms
  by (auto simp: select_diamond_def bind_Some_iff split: terminator.splits if_splits option.splits) metis

lemma sum_list_map_update:
  fixes w :: "'a \<Rightarrow> nat"
  shows "i < length xs \<Longrightarrow> sum_list (map w (xs[i := v])) + w (xs ! i) = sum_list (map w xs) + w v"
proof (induction xs arbitrary: i)
  case (Cons x xs)
  then show ?case using Cons.IH[of "i - 1"] by (cases i) auto
qed simp

lemma count_all_edges:
  "count_list (all_edges f) b = sum_list (map (\<lambda>blk. count_list (successors (term_of blk)) b) (fn_blocks f))"
proof -
  have "count_list (concat xss) b = sum_list (map (\<lambda>xs. count_list xs b) xss)" for xss
    by (induction xss) auto
  then show ?thesis by (simp add: all_edges_def comp_def)
qed

lemma exec_block_select_arm:
  assumes "stmts blk = [S_Assign (P_Local x) (R_Use v)]" "term_of blk = T_Goto j" "\<not> m_is_value m x"
    and "eval_operand m s v = Some w"
  shows "exec_block m blk s = Jump j (s\<lparr>loc := (loc s)(x := w)\<rparr>)"
  using assms by (simp add: exec_block_def exec_stmt_def eval_rvalue_def write_place_def)

lemma exec_select:
  assumes "\<not> m_is_value m x" and "eval_operand m s av = Some a" "eval_operand m s ev = Some b"
  shows "exec_stmt m (S_Assign (P_Local x) (R_Select cond av ev)) s =
    (case eval_operand m s cond of
       None \<Rightarrow> Fault (heap s)
     | Some v \<Rightarrow> Next (s\<lparr>loc := (loc s)(x := if m_truth m v then a else b)\<rparr>))"
  using assms by (simp add: exec_stmt_def eval_rvalue_def write_place_def split: option.splits)

lemma convert_diamond_edges:
  assumes d: "select_diamond interner preds f i = Some (Some (cond, t, e, x, av, ev, j))"
    and i: "i < length (fn_blocks f)"
  shows "shrinks f (convert_diamond f i cond t e x av ev j)"
    and "count_list (all_edges (convert_diamond f i cond t e x av ev j)) b \<le> count_list (all_edges f) b"
proof -
  note p = select_diamond_Some[OF d]
  note arm_t = single_select_arm_Some[OF p(7)] and arm_e = single_select_arm_Some[OF p(8)]
  let ?g = "convert_diamond f i cond t e x av ev j"
  let ?u = "\<lparr>stmts = [], term_of = T_Unreachable\<rparr>"
  let ?bi = "\<lparr>stmts = stmts (fn_blocks f ! i) @ [S_Assign (P_Local x) (R_Select cond av ev)], term_of = T_Goto j\<rparr>"
  have g: "fn_blocks ?g = (fn_blocks f)[i := ?bi, t := ?u, e := ?u]" by (simp add: convert_diamond_def)
  have "j \<in> targets_of f" using arm_t(1,3) by (intro targets_ofI[of t]) simp_all
  then have "targets_of ?g \<subseteq> targets_of f"
    unfolding targets_of_alt[of ?g] g
    by (auto simp: targets_of_alt dest!: set_update_subset_insert[THEN subsetD])
  then show "shrinks f ?g" by (simp add: shrinks_def g) (simp add: convert_diamond_def)
  let ?w = "\<lambda>blk. count_list (successors (term_of blk)) b"
  let ?s = "\<lambda>xs. sum_list (map ?w xs)"
  have 1: "?s ((fn_blocks f)[i := ?bi]) + ?w (fn_blocks f ! i) = ?s (fn_blocks f) + ?w ?bi"
    by (rule sum_list_map_update[OF i])
  have 2: "?s ((fn_blocks f)[i := ?bi, t := ?u]) + ?w (fn_blocks f ! t) = ?s ((fn_blocks f)[i := ?bi])"
    using sum_list_map_update[of t "(fn_blocks f)[i := ?bi]" ?w ?u] arm_t(1) p(3) by simp
  have 3: "?s ((fn_blocks f)[i := ?bi, t := ?u, e := ?u]) \<le> ?s ((fn_blocks f)[i := ?bi, t := ?u])"
    using sum_list_map_update[of e "(fn_blocks f)[i := ?bi, t := ?u]" ?w ?u] arm_e(1) by simp
  have "?w ?bi = ?w (fn_blocks f ! t)" using arm_t(3) by simp
  with 1 2 3 show "count_list (all_edges ?g) b \<le> count_list (all_edges f) b"
    unfolding count_all_edges g by linarith
qed

lemma convert_diamond_runs:
  assumes d: "select_diamond interner preds f i = Some (Some (cond, t, e, x, av, ev, j))"
    and i: "i < length (fn_blocks f)"
    and cnt: "\<And>b. count_list (all_edges f) b \<le> pred_count preds b"
    and ty: "machine_types m interner (fn_locals f)"
    and b: "b \<noteq> t" "b \<noteq> e"
  shows "runs m f b s r \<longleftrightarrow> runs m (convert_diamond f i cond t e x av ev j) b s r"
proof -
  note p = select_diamond_Some[OF d]
  note arm_t = single_select_arm_Some[OF p(7)] and arm_e = single_select_arm_Some[OF p(8)]
  let ?g = "convert_diamond f i cond t e x av ev j"
  have x: "\<not> m_is_value m x" using p(9) ty by (auto simp: machine_types_def local_ty_def nth_opt_Some_iff)
  have only: "b' \<noteq> t \<and> b' \<noteq> e" if "block_step m f b s = Jump b' s'" "b \<noteq> i" for b s b' s'
    using step_targets[OF that(1)] that(2) cnt[of t] cnt[of e] i p(1,5,6) by auto
  have other: "block_step m ?g b s = block_step m f b s" if "b \<noteq> t" "b \<noteq> e" "b \<noteq> i" for b s
    using that i arm_t(1) arm_e(1)
    by (simp add: convert_diamond_def block_step_def block_def nth_opt_update)
  have gi: "block_step m ?g i s = exec_block m \<lparr>stmts = stmts (fn_blocks f ! i) @
      [S_Assign (P_Local x) (R_Select cond av ev)], term_of = T_Goto j\<rparr> s" for s
    using i p(3,4) by (simp add: convert_diamond_def block_step_at)
  show ?thesis
  proof (rule runs_absorb[where D = "{t, e}" and i = i])
    fix s
    show "block_step m ?g i s = block_step m f i s \<and> (\<forall>t s'. block_step m f i s \<noteq> Jump t s') \<or>
      (\<exists>ta s'. ta \<in> {t, e} \<and> block_step m f i s = Jump ta s' \<and> block_step m ?g i s = block_step m f ta s')"
    proof (cases "exec_stmts m (stmts (fn_blocks f ! i)) s")
      case (Fault h)
      then show ?thesis using i by (simp add: gi block_step_at exec_block_def exec_stmts_append)
    next
      case (Next s')
      obtain a c where ac: "eval_operand m s' av = Some a" "eval_operand m s' ev = Some c"
        using eval_simple[OF arm_t(4), of m s'] eval_simple[OF arm_e(4), of m s'] by auto
      have arms: "block_step m f t s' = Jump j (s'\<lparr>loc := (loc s')(x := a)\<rparr>)"
        "block_step m f e s' = Jump j (s'\<lparr>loc := (loc s')(x := c)\<rparr>)"
        using exec_block_select_arm[OF arm_t(2,3) x ac(1)] exec_block_select_arm[OF arm_e(2,3) x ac(2)]
        by (simp_all add: block_step_at[OF arm_t(1)] block_step_at[OF arm_e(1)])
      show ?thesis
        using Next i arms
        by (cases "eval_operand m s' cond")
          (simp_all add: gi block_step_at exec_block_def exec_stmts_append exec_select[OF x ac]
            p(1) exec_term_def[of m "T_If cond t e"])
    qed
  qed (use p(3,4) b in \<open>auto simp: other dest: only\<close>)
qed

definition no_edge_to_entry :: "mir_function \<Rightarrow> bool" where
  "no_edge_to_entry f \<longleftrightarrow> list_all (\<lambda>blk. fn_entry f \<notin> set (successors (term_of blk))) (fn_blocks f)"

lemma no_edge_to_entry_targets: "no_edge_to_entry f \<longleftrightarrow> fn_entry f \<notin> targets_of f"
  by (auto simp: no_edge_to_entry_def targets_of_alt list_all_iff)

lemma shrinks_no_edge: "shrinks f g \<Longrightarrow> no_edge_to_entry f \<Longrightarrow> no_edge_to_entry g"
  by (auto simp: shrinks_def no_edge_to_entry_targets)

lemma if_convert_at_step:
  assumes "if_convert_at interner preds (f, c) i = Some (g, d)" and "i < length (fn_blocks f)"
    and "\<And>b. count_list (all_edges f) b \<le> pred_count preds b"
  shows "shrinks f g" and "count_list (all_edges g) b \<le> pred_count preds b"
    and "machine_types m interner (fn_locals f) \<Longrightarrow> no_edge_to_entry f \<Longrightarrow>
      runs m f (fn_entry f) s r \<longleftrightarrow> runs m g (fn_entry f) s r"
proof -
  consider "g = f" | cond t e x av ev j where
    "select_diamond interner preds f i = Some (Some (cond, t, e, x, av, ev, j))"
    "g = convert_diamond f i cond t e x av ev j"
    using assms(1) by (auto simp: if_convert_at_def bind_Some_iff split: option.splits)
  then have "shrinks f g \<and> count_list (all_edges g) b \<le> pred_count preds b \<and>
    (machine_types m interner (fn_locals f) \<longrightarrow> no_edge_to_entry f \<longrightarrow>
      (runs m f (fn_entry f) s r \<longleftrightarrow> runs m g (fn_entry f) s r))"
  proof cases
    case 1
    with assms(3) show ?thesis by simp
  next
    case 2
    note p = select_diamond_Some[OF 2(1)] and q = convert_diamond_edges[OF 2(1) assms(2)]
    have "t \<in> targets_of f" "e \<in> targets_of f" using p(1) assms(2) by (auto intro: targets_ofI)
    then have ne: "no_edge_to_entry f \<Longrightarrow> fn_entry f \<noteq> t \<and> fn_entry f \<noteq> e"
      by (auto simp: no_edge_to_entry_targets)
    have "shrinks f g" using q(1) 2(2) by simp
    moreover have "count_list (all_edges g) b \<le> pred_count preds b"
      using q(2)[of b] assms(3)[of b] 2(2) by simp
    moreover have "machine_types m interner (fn_locals f) \<Longrightarrow> no_edge_to_entry f \<Longrightarrow>
        runs m f (fn_entry f) s r \<longleftrightarrow> runs m g (fn_entry f) s r"
      using convert_diamond_runs[OF 2(1) assms(2,3), of m "fn_entry f" s r] ne 2(2) by blast
    ultimately show ?thesis by blast
  qed
  then show "shrinks f g" and "count_list (all_edges g) b \<le> pred_count preds b"
    and "machine_types m interner (fn_locals f) \<Longrightarrow> no_edge_to_entry f \<Longrightarrow>
      runs m f (fn_entry f) s r \<longleftrightarrow> runs m g (fn_entry f) s r" by blast+
qed

lemma if_convert_runs:
  assumes "if_convert interner f = Some (g, c)"
  shows "shrinks f g"
    and "machine_types m interner (fn_locals f) \<Longrightarrow> no_edge_to_entry f \<Longrightarrow>
      runs m f (fn_entry f) s r \<longleftrightarrow> runs m g (fn_entry f) s r"
proof -
  let ?preds = "predecessor_counts f"
  let ?P = "\<lambda>(h, c :: bool). shrinks f h \<and> (\<forall>b. count_list (all_edges h) b \<le> pred_count ?preds b) \<and>
    (machine_types m interner (fn_locals f) \<longrightarrow> no_edge_to_entry f \<longrightarrow>
      (\<forall>s r. runs m f (fn_entry f) s r \<longleftrightarrow> runs m h (fn_entry f) s r))"
  have "?P (g, c)"
  proof (rule foldM_invariant[where P = ?P])
    show "foldM (if_convert_at interner ?preds) (f, False) [0..<length (fn_blocks f)] = Some (g, c)"
      using assms by (simp add: if_convert_def)
    show "?P (f, False)" by (simp add: pred_count_eq)
    fix u i v assume i: "i \<in> set [0..<length (fn_blocks f)]" and u: "?P u"
      and v: "if_convert_at interner ?preds u i = Some v"
    obtain h d h' d' where uv: "u = (h, d)" "v = (h', d')" by fastforce
    from u uv i have h: "shrinks f h" "i < length (fn_blocks h)"
      "\<And>b. count_list (all_edges h) b \<le> pred_count ?preds b" by (auto simp: shrinks_def)
    note st = if_convert_at_step[OF v[unfolded uv] h(2,3)]
    have "fn_entry h = fn_entry f" "fn_locals h = fn_locals f"
      "no_edge_to_entry f \<Longrightarrow> no_edge_to_entry h"
      using h(1) shrinks_no_edge by (auto simp: shrinks_def)
    moreover have "runs m h (fn_entry h) s r \<longleftrightarrow> runs m h' (fn_entry h) s r"
      if "machine_types m interner (fn_locals h)" "no_edge_to_entry h" for s r
      using that by (rule st(3))
    ultimately show "?P v" using u uv st(2) shrinks_trans[OF h(1) st(1)] by simp
  qed
  then show "shrinks f g"
    and "machine_types m interner (fn_locals f) \<Longrightarrow> no_edge_to_entry f \<Longrightarrow>
      runs m f (fn_entry f) s r \<longleftrightarrow> runs m g (fn_entry f) s r" by auto
qed

text \<open>The types of all locals were handed out by the interner.\<close>

definition locals_typed :: "type_interner \<Rightarrow> local_decl list \<Rightarrow> bool" where
  "locals_typed interner locals \<longleftrightarrow> list_all (\<lambda>d. ld_ty d < length (kinds interner)) locals"

text \<open>Every local a block assigns is declared.\<close>

definition dests_declared :: "mir_function \<Rightarrow> bool" where
  "dests_declared f \<longleftrightarrow>
     list_all (\<lambda>blk. list_all (\<lambda>st. case st of
         S_Assign (P_Local x) _ \<Rightarrow> x < length (fn_locals f) | _ \<Rightarrow> True) (stmts blk)) (fn_blocks f)"

lemma select_diamond_total:
  assumes "cfg_ok f" "i < length (fn_blocks f)" "locals_typed interner (fn_locals f)" "dests_declared f"
  shows "select_diamond interner preds f i \<noteq> None"
proof (cases "term_of (fn_blocks f ! i)")
  case (T_If cond t e)
  with cfg_ok_successor[OF assms(1,2)] have "t < length (fn_blocks f)" "e < length (fn_blocks f)" by auto
  then have arms: "single_select_arm f t \<noteq> None" "single_select_arm f e \<noteq> None"
    by (simp_all add: single_select_arm_def block_def)
  have x: "\<exists>ty. local_ty f x = Some ty \<and> is_value_type interner ty \<noteq> None"
    if "single_select_arm f t = Some (Some (x, v, j))" for x v j
  proof -
    note a = single_select_arm_Some[OF that]
    have "fn_blocks f ! t \<in> set (fn_blocks f)" using a(1) by simp
    then have "x < length (fn_locals f)" using a(2) assms(4) by (fastforce simp: dests_declared_def list_all_iff)
    with assms(3) show ?thesis
      by (auto simp: local_ty_def locals_typed_def list_all_length is_value_type_def kind_def)
  qed
  show ?thesis
    using T_If arms x by (fastforce simp: select_diamond_def split: option.splits)
qed (simp_all add: select_diamond_def)

lemma dests_declared_update:
  assumes "dests_declared f"
    and "\<And>st x rv. st \<in> set (stmts blk) \<Longrightarrow> st = S_Assign (P_Local x) rv \<Longrightarrow> x < length (fn_locals f)"
  shows "dests_declared (f\<lparr>fn_blocks := (fn_blocks f)[i := blk]\<rparr>)"
  using assms
  by (fastforce simp: dests_declared_def list_all_iff dest!: set_update_subset_insert[THEN subsetD]
      split: statement.splits place.splits)

lemma dests_declaredD:
  "dests_declared f \<Longrightarrow> b < length (fn_blocks f) \<Longrightarrow> S_Assign (P_Local x) rv \<in> set (stmts (fn_blocks f ! b)) \<Longrightarrow>
     x < length (fn_locals f)"
  by (force simp: dests_declared_def list_all_length in_set_conv_nth)

lemma convert_diamond_declared:
  assumes "dests_declared f" "select_diamond interner preds f i = Some (Some (cond, t, e, x, av, ev, j))"
    and "i < length (fn_blocks f)"
  shows "dests_declared (convert_diamond f i cond t e x av ev j)"
proof -
  note p = select_diamond_Some[OF assms(2)]
  note arm = single_select_arm_Some[OF p(7)]
  have x: "x < length (fn_locals f)" using dests_declaredD[OF assms(1) arm(1)] arm(2) by simp
  have upd: "dests_declared (h\<lparr>fn_blocks := (fn_blocks h)[k := \<lparr>stmts = [], term_of = T_Unreachable\<rparr>]\<rparr>)"
    if "dests_declared h" for h k using that by (rule dests_declared_update) simp
  let ?h = "f\<lparr>fn_blocks := (fn_blocks f)[i := \<lparr>stmts = stmts (fn_blocks f ! i) @
      [S_Assign (P_Local x) (R_Select cond av ev)], term_of = T_Goto j\<rparr>]\<rparr>"
  have "dests_declared ?h"
    by (rule dests_declared_update[OF assms(1)]) (use x dests_declaredD[OF assms(1,3)] in auto)
  from upd[OF upd[OF this, of t], of e] show ?thesis by (simp add: convert_diamond_def)
qed

lemma if_convert_total:
  assumes "cfg_ok f" "locals_typed interner (fn_locals f)" "dests_declared f"
  shows "\<exists>g c. if_convert interner f = Some (g, c) \<and> dests_declared g"
proof -
  let ?preds = "predecessor_counts f"
  let ?P = "\<lambda>(h, c :: bool). shrinks f h \<and> dests_declared h \<and>
    (\<forall>b. count_list (all_edges h) b \<le> pred_count ?preds b)"
  have "\<exists>t. foldM (if_convert_at interner ?preds) (f, False) [0..<length (fn_blocks f)] = Some t \<and> ?P t"
  proof (rule foldM_total)
    show "?P (f, False)" using assms(3) by (simp add: pred_count_eq)
    fix u i assume i: "i \<in> set [0..<length (fn_blocks f)]" and u: "?P u"
    obtain h d where uh: "u = (h, d)" by fastforce
    with u i have h: "shrinks f h" "i < length (fn_blocks h)" "dests_declared h"
      "\<And>b. count_list (all_edges h) b \<le> pred_count ?preds b" "fn_locals h = fn_locals f"
      by (auto simp: shrinks_def)
    have "select_diamond interner ?preds h i \<noteq> None"
      using select_diamond_total[OF shrinks_cfg_ok[OF h(1) assms(1)] h(2) _ h(3)] h(5) assms(2) by simp
    then obtain h' d' where v: "if_convert_at interner ?preds (h, d) i = Some (h', d')"
      by (fastforce simp: if_convert_at_def)
    moreover have "dests_declared h'"
      using v convert_diamond_declared[OF h(3) _ h(2)] h(3)
      by (auto simp: if_convert_at_def bind_Some_iff split: option.splits)
    ultimately show "\<exists>t. if_convert_at interner ?preds u i = Some t \<and> ?P t"
      using if_convert_at_step(1,2)[OF v h(2,4)] shrinks_trans[OF h(1)] uh by auto
  qed
  then show ?thesis by (auto simp: if_convert_def)
qed

lemma merge_declared:
  "merge_single_pred_blocks f = Some (g, c) \<Longrightarrow> dests_declared f \<Longrightarrow> dests_declared g"
proof (induction f arbitrary: g c rule: merge_single_pred_blocks.induct)
  case (1 f)
  show ?case
  proof (cases "merge_pick f")
    case None
    with "1.prems" show ?thesis by (simp add: merge_single_pred_blocks.simps[of f])
  next
    case (Some it)
    obtain i t where it: "it = (i, t)" by fastforce
    from Some it "1.prems"(1) obtain h d where h: "merge_at f i t = Some h" "merge_single_pred_blocks h = Some (g, d)"
      by (subst (asm) merge_single_pred_blocks.simps) (auto split: option.splits)
    note p = merge_pick_Some[OF Some[unfolded it]]
    from h(1) have t: "t < length (fn_blocks f)" by (auto simp: merge_at_def block_def nth_opt_Some_iff)
    have "dests_declared (f\<lparr>fn_blocks := (fn_blocks f)[t := \<lparr>stmts = [], term_of = T_Unreachable\<rparr>]\<rparr>)" (is "dests_declared ?f1")
      by (rule dests_declared_update[OF "1.prems"(2)]) simp
    from dests_declared_update[OF this, of "\<lparr>stmts = stmts (fn_blocks f ! i) @ stmts (fn_blocks f ! t), term_of = term_of (fn_blocks f ! t)\<rparr>" i]
    have "dests_declared h"
      using h(1) t dests_declaredD[OF "1.prems"(2) p(1)] dests_declaredD[OF "1.prems"(2) t]
      by (auto simp: merge_at_def block_def)
    from "1.IH"[OF Some[unfolded it] refl h(1,2) this] show ?thesis .
  qed
qed

lemma dests_declared_cong:
  assumes "map stmts (fn_blocks g) = map stmts (fn_blocks f)" "fn_locals g = fn_locals f"
  shows "dests_declared g \<longleftrightarrow> dests_declared f"
proof -
  have "dests_declared h = list_all (list_all (\<lambda>st. case st of
      S_Assign (P_Local x) _ \<Rightarrow> x < length (fn_locals h) | _ \<Rightarrow> True)) (map stmts (fn_blocks h))" for h
    by (simp add: dests_declared_def list.pred_map comp_def)
  then show ?thesis using assms by metis
qed

lemma rewrite_terms_stmts: "map stmts (fn_blocks (fst (rewrite_terms nt f))) = map stmts (fn_blocks f)"
  by (simp add: rewrite_terms_def split: option.splits)

lemma thread_empty_jumps_stmts:
  assumes "thread_empty_jumps f = Some (g, c)"
  shows "map stmts (fn_blocks g) = map stmts (fn_blocks f)"
proof -
  have "(\<lambda>(h, c :: bool). map stmts (fn_blocks h) = map stmts (fn_blocks f)) (g, c)"
    using assms unfolding thread_empty_jumps_def
  proof (rule foldM_invariant)
    fix u i v assume "case u of (h, c) \<Rightarrow> map stmts (fn_blocks h) = map stmts (fn_blocks f)"
      and "thread_empty_jump u i = Some v"
    moreover have "map stmts (fn_blocks (set_term h i t)) = map stmts (fn_blocks h)" for h t
      by (cases "i < length (fn_blocks h)") (simp_all add: set_term_def map_update list_update_same_conv list_update_beyond)
    ultimately show "case v of (h, c) \<Rightarrow> map stmts (fn_blocks h) = map stmts (fn_blocks f)"
      by (auto simp: thread_empty_jump_def bind_Some_iff split: terminator.splits if_splits)
  qed simp
  then show ?thesis by simp
qed

lemma thread_branch_targets_stmts:
  "thread_branch_targets f = Some (g, c) \<Longrightarrow> map stmts (fn_blocks g) = map stmts (fn_blocks f)"
  using thread_branch_targets_block[of f g c] by (intro nth_equalityI) auto

section \<open>The whole pass\<close>

text \<open>What the pass needs to know of its input; the last two are what the lowering produces.\<close>

definition simplify_input :: "type_interner \<Rightarrow> mir_function \<Rightarrow> bool" where
  "simplify_input interner f \<longleftrightarrow>
     cfg_ok f \<and> locals_typed interner (fn_locals f) \<and> dests_declared f"

lemma simplify_cfg_stages:
  assumes "simplify_cfg interner f = Some (g, c)"
  obtains f3 c3 f4 c4 f5 c5 c6 where
    "thread_empty_jumps (fst (collapse_same_target_branches (fst (fold_constant_branches f)))) = Some (f3, c3)"
    "thread_branch_targets f3 = Some (f4, c4)" "if_convert interner f4 = Some (f5, c5)"
    "merge_single_pred_blocks f5 = Some (g, c6)"
    "c = (snd (fold_constant_branches f) \<or> snd (collapse_same_target_branches (fst (fold_constant_branches f))) \<or>
      c3 \<or> c4 \<or> c5 \<or> c6)"
proof -
  let ?c1 = "snd (fold_constant_branches f)"
  let ?c2 = "snd (collapse_same_target_branches (fst (fold_constant_branches f)))"
  from assms obtain p3 p4 p5 p6 where p:
    "thread_empty_jumps (fst (collapse_same_target_branches (fst (fold_constant_branches f)))) = Some p3"
    "thread_branch_targets (fst p3) = Some p4" "if_convert interner (fst p4) = Some p5"
    "merge_single_pred_blocks (fst p5) = Some p6"
    "(g, c) = (fst p6, ?c1 \<or> ?c2 \<or> snd p3 \<or> snd p4 \<or> snd p5 \<or> snd p6)"
    unfolding simplify_cfg_def Let_def case_prod_beta bind_Some_iff by (metis option.inject)
  show thesis
    by (rule that[of "fst p3" "snd p3" "fst p4" "snd p4" "fst p5" "snd p5" "snd p6"]) (use p in simp_all)
qed

lemma simplify_cfg_shrinks:
  assumes "simplify_cfg interner f = Some (g, c)"
  shows "shrinks f g"
  using assms
proof (rule simplify_cfg_stages)
  let ?f2 = "fst (collapse_same_target_branches (fst (fold_constant_branches f)))"
  fix f3 c3 f4 c4 f5 c5 c6
  assume st: "thread_empty_jumps ?f2 = Some (f3, c3)" "thread_branch_targets f3 = Some (f4, c4)"
    "if_convert interner f4 = Some (f5, c5)" "merge_single_pred_blocks f5 = Some (g, c6)"
  note shrinks_fold_constant[of f]
  also note shrinks_collapse
  also note thread_empty_jumps_runs(1)[OF st(1)]
  also note shrinks_thread_branch_targets[OF st(2)]
  also note if_convert_runs(1)[OF st(3)]
  also note conjunct1[OF merge_single_pred_blocks_runs[OF st(4)]]
  finally show ?thesis .
qed

lemma simplify_cfg_refines_lemma:
  assumes "simplify_cfg interner f = Some (g, c)"
    and "machine_consts m" "machine_types m interner (fn_locals f)" "no_edge_to_entry f"
  shows "refines m f g"
  using assms(1)
proof (rule simplify_cfg_stages)
  let ?f1 = "fst (fold_constant_branches f)"
  let ?f2 = "fst (collapse_same_target_branches ?f1)"
  fix f3 c3 f4 c4 f5 c5 c6
  assume st: "thread_empty_jumps ?f2 = Some (f3, c3)" "thread_branch_targets f3 = Some (f4, c4)"
    "if_convert interner f4 = Some (f5, c5)" "merge_single_pred_blocks f5 = Some (g, c6)"
  have s4: "shrinks f f4"
    using shrinks_fold_constant[of f] shrinks_collapse[of ?f1] thread_empty_jumps_runs(1)[OF st(1)]
      shrinks_thread_branch_targets[OF st(2)] by (blast intro: shrinks_trans)
  note s3 = thread_empty_jumps_runs(1)[OF st(1)] and s4' = shrinks_thread_branch_targets[OF st(2)]
  note s5 = if_convert_runs(1)[OF st(3)] and s6 = merge_single_pred_blocks_runs[OF st(4)]
  note fold_constant_branches_runs[OF assms(2), of f]
  also note collapse_same_target_branches_runs
  also have "refines m ?f2 f3"
    using s3 thread_empty_jumps_runs(2)[OF st(1)] by (intro refinesI_same) (auto simp: shrinks_def)
  also have "refines m f3 f4"
    using s4' thread_branch_targets_runs[OF st(2)] by (intro refinesI_same) (auto simp: shrinks_def)
  also have "refines m f4 f5"
    using s5 if_convert_runs(2)[OF st(3), of m] s4 assms(3,4) shrinks_no_edge[OF s4]
    by (intro refinesI_same) (auto simp: shrinks_def)
  also have "refines m f5 g" using s6[of m] by (intro refinesI_same) (auto simp: shrinks_def)
  finally show ?thesis .
qed

lemma simplify_cfg_total:
  assumes "simplify_input interner f"
  shows "\<exists>g c. simplify_cfg interner f = Some (g, c) \<and> dests_declared g"
proof -
  let ?f2 = "fst (collapse_same_target_branches (fst (fold_constant_branches f)))"
  from assms have f: "cfg_ok f" "locals_typed interner (fn_locals f)" "dests_declared f"
    by (auto simp: simplify_input_def)
  have s2: "shrinks f ?f2" using shrinks_trans[OF shrinks_fold_constant shrinks_collapse] .
  have d2: "map stmts (fn_blocks ?f2) = map stmts (fn_blocks f)"
    by (simp add: collapse_same_target_branches_def fold_constant_branches_def rewrite_terms_stmts)
  from thread_empty_jumps_total[OF shrinks_cfg_ok[OF s2 f(1)]] obtain f3 c3 where
    f3: "thread_empty_jumps ?f2 = Some (f3, c3)" by blast
  have s3: "shrinks f f3" using shrinks_trans[OF s2 thread_empty_jumps_runs(1)[OF f3]] .
  from thread_branch_targets_total[OF shrinks_cfg_ok[OF s3 f(1)]] obtain f4 c4 where
    f4: "thread_branch_targets f3 = Some (f4, c4)" by auto
  have s4: "shrinks f f4" using shrinks_trans[OF s3 shrinks_thread_branch_targets[OF f4]] .
  have "dests_declared f4"
    using d2 thread_empty_jumps_stmts[OF f3] thread_branch_targets_stmts[OF f4] s4 f(3)
    by (subst dests_declared_cong[of f4 f]) (auto simp: shrinks_def)
  then obtain f5 c5 where f5: "if_convert interner f4 = Some (f5, c5)" and d5: "dests_declared f5"
    using if_convert_total[OF shrinks_cfg_ok[OF s4 f(1)], of interner] s4 f(2) by (auto simp: shrinks_def)
  have "cfg_ok f5" using shrinks_cfg_ok[OF shrinks_trans[OF s4 if_convert_runs(1)[OF f5]] f(1)] .
  from merge_single_pred_blocks_total[OF this] obtain f6 c6 where f6: "merge_single_pred_blocks f5 = Some (f6, c6)" by auto
  from merge_declared[OF f6 d5] f3 f4 f5 f6 show ?thesis
    by (auto simp: simplify_cfg_def Let_def case_prod_beta)
qed

section \<open>A pass that reports no change made none\<close>

lemma rewrite_terms_unchanged: "\<not> snd (rewrite_terms nt f) \<Longrightarrow> fst (rewrite_terms nt f) = f"
proof -
  assume "\<not> snd (rewrite_terms nt f)"
  then have "\<forall>blk \<in> set (fn_blocks f). nt (term_of blk) = None" by (simp add: rewrite_terms_def list_ex_iff)
  then have "map (\<lambda>blk. case nt (term_of blk) of Some t \<Rightarrow> blk\<lparr>term_of := t\<rparr> | None \<Rightarrow> blk) (fn_blocks f) = fn_blocks f"
    by (intro map_idI) auto
  then show ?thesis by (simp add: rewrite_terms_def)
qed

text \<open>A loop whose body only clears no flag and edits only when it sets it.\<close>

lemma foldM_unchanged:
  assumes "foldM h (f, False) xs = Some (g, False)"
    and "\<And>f c x g d. h (f, c) x = Some (g, d) \<Longrightarrow> (c \<longrightarrow> d) \<and> (\<not> d \<longrightarrow> g = f)"
  shows "g = f"
proof -
  have "(c \<longrightarrow> d) \<and> (\<not> d \<longrightarrow> g = f)" if "foldM h (f, c) xs = Some (g, d)" for f c g d
    using that
  proof (induction xs arbitrary: f c)
    case (Cons x xs)
    then obtain k e where k: "h (f, c) x = Some (k, e)" "foldM h (k, e) xs = Some (g, d)"
      by (auto simp: bind_Some_iff)
    from assms(2)[OF k(1)] Cons.IH[OF k(2)] show ?case by auto
  qed simp
  from this[OF assms(1)] show ?thesis by simp
qed

lemma thread_empty_jumps_unchanged: "thread_empty_jumps f = Some (g, False) \<Longrightarrow> g = f"
  unfolding thread_empty_jumps_def
  by (erule foldM_unchanged)
    (auto simp: thread_empty_jump_def bind_Some_iff split: terminator.splits if_splits)

lemma if_convert_unchanged: "if_convert interner f = Some (g, False) \<Longrightarrow> g = f"
  unfolding if_convert_def
  by (erule foldM_unchanged) (auto simp: if_convert_at_def bind_Some_iff split: option.splits)

lemma thread_term_unchanged: "thread_term fwd t = Some (t', False) \<Longrightarrow> t' = t"
proof (cases t)
  case (T_Switch v targets d)
  assume "thread_term fwd t = Some (t', False)"
  with T_Switch obtain ts where
    "map_changed (\<lambda>(k, b). map_option (\<lambda>(b', c). ((k, b'), c)) (edit fwd b)) targets = Some (ts, False)"
    "t' = T_Switch v ts d"
    by (auto simp: thread_term_def bind_Some_iff edit_Some_iff)
  moreover from this(1) have "ts = targets"
    by (rule map_changed_unchanged) (auto simp: edit_Some_iff)
  ultimately show ?thesis using T_Switch by simp
qed (auto simp: thread_term_def bind_Some_iff edit_Some_iff)

lemma thread_branch_targets_unchanged: "thread_branch_targets f = Some (g, False) \<Longrightarrow> g = f"
proof -
  assume "thread_branch_targets f = Some (g, False)"
  then obtain bs where bs: "map_changed (\<lambda>blk. map_option (\<lambda>(t, c). (blk\<lparr>term_of := t\<rparr>, c))
      (thread_term (forwards f) (term_of blk))) (fn_blocks f) = Some (bs, False)" "g = f\<lparr>fn_blocks := bs\<rparr>"
    by (auto simp: thread_branch_targets_def bind_Some_iff)
  from bs(1) have "bs = fn_blocks f" 
    by (rule map_changed_unchanged) (auto dest!: thread_term_unchanged)
  with bs(2) show ?thesis by simp
qed

lemma merge_unchanged: "merge_single_pred_blocks f = Some (g, False) \<Longrightarrow> g = f"
  by (subst (asm) merge_single_pred_blocks.simps) (auto split: option.splits)

lemma simplify_cfg_unchanged:
  assumes "simplify_cfg interner f = Some (g, False)"
  shows "g = f"
  using assms
proof (rule simplify_cfg_stages)
  let ?f1 = "fst (fold_constant_branches f)"
  let ?f2 = "fst (collapse_same_target_branches ?f1)"
  fix f3 c3 f4 c4 f5 c5 c6
  assume st: "thread_empty_jumps ?f2 = Some (f3, c3)" "thread_branch_targets f3 = Some (f4, c4)"
    "if_convert interner f4 = Some (f5, c5)" "merge_single_pred_blocks f5 = Some (g, c6)"
    and c: "False = (snd (fold_constant_branches f) \<or> snd (collapse_same_target_branches ?f1) \<or> c3 \<or> c4 \<or> c5 \<or> c6)"
  have "?f1 = f" using c rewrite_terms_unchanged[of constant_branch f] by (simp add: fold_constant_branches_def)
  moreover have "?f2 = ?f1"
    using c rewrite_terms_unchanged[of same_target_branch ?f1] by (simp add: collapse_same_target_branches_def)
  moreover have "f3 = ?f2" "f4 = f3" "f5 = f4" "g = f5"
    using c st thread_empty_jumps_unchanged thread_branch_targets_unchanged if_convert_unchanged merge_unchanged
    by auto
  ultimately show ?thesis by simp
qed

end
