(* ===== verification/Sccp_Pass.thy ===== *)
theory Sccp_Pass
  imports Copy_Prop Const_Fold Simplify_Cfg
begin

text \<open>
  Sparse conditional constant propagation (\<open>crates/dream-mir/src/passes/sccp.rs\<close>): the bounded
  iteration that finds reachable blocks and constant locals together, and the rewriting of the
  function with its result. The ordered map of the source is an association list with increasing
  keys; its comparison uses the derived equality of constants, under which a NaN differs from
  itself and the two zeros are equal. The lemmas show that the pass returns on every well-formed
  function, that its report of no change is honest, that it only removes control-flow edges, and
  that a result on which the iteration has settled is a fixed point: the entry is reachable,
  reachability is closed under the successors that can be taken, and every constant local is
  assigned that constant at each of its definitions in a reachable block.
\<close>

section \<open>The constant lattice\<close>

datatype lat = L_Top | L_Const const | L_Bottom

type_synonym lat_map = "(local \<times> lat) list"

fun lat_eq :: "lat \<Rightarrow> lat \<Rightarrow> bool" where
  "lat_eq L_Top L_Top = True"
| "lat_eq L_Bottom L_Bottom = True"
| "lat_eq (L_Const a) (L_Const b) = const_eq a b"
| "lat_eq _ _ = False"

definition lat_map_eq :: "lat_map \<Rightarrow> lat_map \<Rightarrow> bool" where
  "lat_map_eq a b = list_all2 (\<lambda>(k, v) (l, w). k = l \<and> lat_eq v w) a b"

fun bt_insert :: "local \<Rightarrow> lat \<Rightarrow> lat_map \<Rightarrow> lat_map" where
  "bt_insert k v [] = [(k, v)]"
| "bt_insert k v ((l, w) # m) =
     (if k < l then (k, v) # (l, w) # m else if k = l then (k, v) # m else (l, w) # bt_insert k v m)"

definition lat_get :: "lat_map \<Rightarrow> local \<Rightarrow> lat" where
  "lat_get m l = (case map_of m l of Some v \<Rightarrow> v | None \<Rightarrow> L_Top)"

fun lat_meet :: "lat \<Rightarrow> lat \<Rightarrow> lat" where
  "lat_meet L_Top x = x"
| "lat_meet x L_Top = x"
| "lat_meet (L_Const x) (L_Const y) = (if const_eq x y then L_Const x else L_Bottom)"
| "lat_meet _ _ = L_Bottom"

section \<open>Evaluation\<close>

definition lat_operand :: "operand \<Rightarrow> lat_map \<Rightarrow> lat" where
  "lat_operand op m =
     (case op of
        O_Const c \<Rightarrow> L_Const c
      | O_Copy (P_Local l) \<Rightarrow> lat_get m l
      | O_Copy _ \<Rightarrow> L_Bottom)"

definition lat_fold :: "half_ops \<Rightarrow> int_ty option \<Rightarrow> rvalue \<Rightarrow> lat" where
  "lat_fold h dest rv = (case fold_rvalue h rv dest of Some c \<Rightarrow> L_Const c | None \<Rightarrow> L_Bottom)"

definition lat_binary :: "half_ops \<Rightarrow> int_ty option \<Rightarrow> (operand \<Rightarrow> operand \<Rightarrow> rvalue) \<Rightarrow> lat \<Rightarrow> lat \<Rightarrow> lat" where
  "lat_binary h dest build a b =
     (case (a, b) of
        (L_Bottom, _) \<Rightarrow> L_Bottom
      | (_, L_Bottom) \<Rightarrow> L_Bottom
      | (L_Const x, L_Const y) \<Rightarrow> lat_fold h dest (build (O_Const x) (O_Const y))
      | _ \<Rightarrow> L_Top)"

definition lat_unary :: "half_ops \<Rightarrow> int_ty option \<Rightarrow> (operand \<Rightarrow> rvalue) \<Rightarrow> lat \<Rightarrow> lat" where
  "lat_unary h dest build a = (case a of L_Const x \<Rightarrow> lat_fold h dest (build (O_Const x)) | _ \<Rightarrow> a)"

definition lat_rvalue :: "half_ops \<Rightarrow> rvalue \<Rightarrow> lat_map \<Rightarrow> int_ty option \<Rightarrow> lat" where
  "lat_rvalue h rv m dest =
     (case rv of
        R_Use a \<Rightarrow> lat_operand a m
      | R_Binary op a b \<Rightarrow> lat_binary h dest (R_Binary op) (lat_operand a m) (lat_operand b m)
      | R_CheckedBinary op a b \<Rightarrow> lat_binary h dest (R_CheckedBinary op) (lat_operand a m) (lat_operand b m)
      | R_Unary op a \<Rightarrow> lat_unary h dest (R_Unary op) (lat_operand a m)
      | R_CheckedNeg a \<Rightarrow> lat_unary h dest R_CheckedNeg (lat_operand a m)
      | _ \<Rightarrow> L_Bottom)"

definition taken_successors :: "terminator \<Rightarrow> lat_map \<Rightarrow> block_id list" where
  "taken_successors t m =
     (case t of
        T_If cond then_blk else_blk \<Rightarrow>
          (case lat_operand cond m of
             L_Const (C_Bool True) \<Rightarrow> [then_blk]
           | L_Const (C_Bool False) \<Rightarrow> [else_blk]
           | _ \<Rightarrow> [then_blk, else_blk])
      | T_Switch v targets dflt \<Rightarrow>
          (case lat_operand v m of
             L_Const (C_Int n) \<Rightarrow> [case find (\<lambda>(k, _). k = n) targets of Some (_, b) \<Rightarrow> b | None \<Rightarrow> dflt]
           | _ \<Rightarrow> successors t)
      | _ \<Rightarrow> successors t)"

definition fold_branch :: "terminator \<Rightarrow> terminator option" where
  "fold_branch t =
     (case t of
        T_If (O_Const (C_Bool b)) then_blk else_blk \<Rightarrow> Some (T_Goto (if b then then_blk else else_blk))
      | T_Switch (O_Const (C_Int v)) targets dflt \<Rightarrow>
          Some (T_Goto (case find (\<lambda>(k, _). k = v) targets of Some (_, b) \<Rightarrow> b | None \<Rightarrow> dflt))
      | _ \<Rightarrow> None)"

section \<open>The iteration\<close>

text \<open>One definition of a local, met with those before it.\<close>

definition sccp_stmt ::
  "half_ops \<Rightarrow> type_interner \<Rightarrow> nat \<Rightarrow> mir_function \<Rightarrow> lat_map \<Rightarrow> lat_map \<Rightarrow> statement \<Rightarrow> lat_map option" where
  "sccp_stmt h i ptr_size f lat nxt st =
     (case st of
        S_Assign (P_Local l) rv \<Rightarrow>
          do {
            t \<leftarrow> local_ty f l;
            dest \<leftarrow> int_ty_of i t ptr_size;
            Some (bt_insert l (lat_meet (lat_get nxt l) (lat_rvalue h rv lat dest)) nxt)
          }
      | _ \<Rightarrow> Some nxt)"

definition sccp_block ::
  "half_ops \<Rightarrow> type_interner \<Rightarrow> nat \<Rightarrow> mir_function \<Rightarrow> bool list \<Rightarrow> lat_map \<Rightarrow> lat_map \<Rightarrow> nat \<times> basic_block \<Rightarrow>
     lat_map option" where
  "sccp_block h i ptr_size f reach lat nxt = (\<lambda>(k, blk).
     do {
       r \<leftarrow> nth_opt reach k;
       if \<not> r then Some nxt
       else do {
         nxt' \<leftarrow> foldM (sccp_stmt h i ptr_size f lat) nxt (stmts blk);
         Some (case term_of blk of T_Await _ (Some d) _ \<Rightarrow> bt_insert d L_Bottom nxt' | _ \<Rightarrow> nxt')
       }
     })"

definition params_bottom :: "mir_function \<Rightarrow> lat_map" where
  "params_bottom f = foldl (\<lambda>m p. bt_insert p L_Bottom m) [] (fn_params f)"

definition sccp_defs ::
  "half_ops \<Rightarrow> type_interner \<Rightarrow> nat \<Rightarrow> mir_function \<Rightarrow> bool list \<Rightarrow> lat_map \<Rightarrow> lat_map option" where
  "sccp_defs h i ptr_size f reach lat =
     foldM (sccp_block h i ptr_size f reach lat) (params_bottom f) (enumerate 0 (fn_blocks f))"

definition mark_succ :: "bool list \<times> bool \<Rightarrow> block_id \<Rightarrow> (bool list \<times> bool) option" where
  "mark_succ = (\<lambda>(reach, changed) s.
     do { r \<leftarrow> nth_opt reach s; if r then Some (reach, changed) else Some (reach[s := True], True) })"

definition grow_at :: "mir_function \<Rightarrow> lat_map \<Rightarrow> bool list \<times> bool \<Rightarrow> nat \<Rightarrow> (bool list \<times> bool) option" where
  "grow_at f lat = (\<lambda>(reach, changed) k.
     do {
       r \<leftarrow> nth_opt reach k;
       if \<not> r then Some (reach, changed)
       else do { blk \<leftarrow> nth_opt (fn_blocks f) k; foldM mark_succ (reach, changed) (taken_successors (term_of blk) lat) }
     })"

fun solve_loop ::
  "nat \<Rightarrow> half_ops \<Rightarrow> type_interner \<Rightarrow> nat \<Rightarrow> mir_function \<Rightarrow> bool list \<Rightarrow> lat_map \<Rightarrow> (bool list \<times> lat_map) option" where
  "solve_loop 0 h i ptr_size f reach lat = Some (reach, lat)"
| "solve_loop (Suc n) h i ptr_size f reach lat =
     do {
       nxt \<leftarrow> sccp_defs h i ptr_size f reach lat;
       let differs = \<not> lat_map_eq nxt lat;
       let lat' = (if differs then nxt else lat);
       (reach', changed) \<leftarrow> foldM (grow_at f lat') (reach, differs) [0..<length (fn_blocks f)];
       if \<not> changed then Some (reach', lat') else solve_loop n h i ptr_size f reach' lat'
     }"

definition sccp_solve ::
  "half_ops \<Rightarrow> type_interner \<Rightarrow> nat \<Rightarrow> mir_function \<Rightarrow> (bool list \<times> lat_map) option" where
  "sccp_solve h i ptr_size f =
     (let n = length (fn_blocks f) in
      do {
        reach \<leftarrow> upd_opt (replicate n False) (fn_entry f) True;
        solve_loop (n * 4 + 16) h i ptr_size f reach (params_bottom f)
      })"

section \<open>The rewriting\<close>

definition sccp_known :: "lat_map \<Rightarrow> known" where
  "sccp_known lat =
     concat (map (\<lambda>(l, v). case v of L_Const c \<Rightarrow> [(l, O_Const c)] | _ \<Rightarrow> []) lat)"

definition sccp_rewrite :: "bool list \<Rightarrow> known \<Rightarrow> nat \<times> basic_block \<Rightarrow> (basic_block \<times> bool) option" where
  "sccp_rewrite reach known = (\<lambda>(k, blk).
     do {
       r \<leftarrow> nth_opt reach k;
       if \<not> r
       then Some (if stmts blk = [] \<and> term_of blk = T_Unreachable then (blk, False)
                  else (blk\<lparr>stmts := [], term_of := T_Unreachable\<rparr>, True))
       else
         (let rs = map (subst_stmt_reads known) (stmts blk);
              (t, c) = subst_terminator_reads known (term_of blk)
          in case fold_branch t of
               Some t' \<Rightarrow> Some (blk\<lparr>stmts := map fst rs, term_of := t'\<rparr>, True)
             | None \<Rightarrow> Some (blk\<lparr>stmts := map fst rs, term_of := t\<rparr>, list_ex snd rs \<or> c))
     })"

fun map_opt :: "('a \<Rightarrow> 'b option) \<Rightarrow> 'a list \<Rightarrow> 'b list option" where
  "map_opt g [] = Some []"
| "map_opt g (x # xs) = do { y \<leftarrow> g x; ys \<leftarrow> map_opt g xs; Some (y # ys) }"

definition sccp :: "half_ops \<Rightarrow> type_interner \<Rightarrow> nat \<Rightarrow> mir_function \<Rightarrow> (mir_function \<times> bool) option" where
  "sccp h i ptr_size f =
     (if fn_blocks f = [] then Some (f, False)
      else do {
        (reach, lat) \<leftarrow> sccp_solve h i ptr_size f;
        rs \<leftarrow> map_opt (sccp_rewrite reach (sccp_known lat)) (enumerate 0 (fn_blocks f));
        Some (f\<lparr>fn_blocks := map fst rs\<rparr>, list_ex snd rs)
      })"

section \<open>The pass returns\<close>

lemma map_opt_Some_iff:
  "map_opt g xs = Some ys \<longleftrightarrow> length ys = length xs \<and> (\<forall>i < length xs. g (xs ! i) = Some (ys ! i))"
proof (induction xs arbitrary: ys)
  case (Cons x xs)
  show ?case
    by (cases ys) (auto simp: bind_Some_iff Cons.IH All_less_Suc2)
qed auto

lemma map_opt_total: "(\<And>x. x \<in> set xs \<Longrightarrow> g x \<noteq> None) \<Longrightarrow> map_opt g xs \<noteq> None"
proof (induction xs)
  case (Cons x xs)
  from Cons.prems[of x] obtain y where "g x = Some y" by auto
  with Cons show ?case by auto
qed simp

lemma sccp_stmt_total:
  assumes "locals_typed i (fn_locals f)" "dests_declared f" "blk \<in> set (fn_blocks f)" "st \<in> set (stmts blk)"
  shows "sccp_stmt h i ptr_size f lat nxt st \<noteq> None"
proof (cases "\<exists>l rv. st = S_Assign (P_Local l) rv")
  case True
  then obtain l rv where st: "st = S_Assign (P_Local l) rv" by blast
  have "l < length (fn_locals f)" using assms(2-4) st by (force simp: dests_declared_def list_all_iff)
  moreover from this have "ld_ty (fn_locals f ! l) < length (kinds i)"
    using assms(1) by (simp add: locals_typed_def list_all_length)
  ultimately show ?thesis by (simp add: st sccp_stmt_def local_ty_def int_ty_of_def kind_def)
next
  case False
  then show ?thesis by (auto simp: sccp_stmt_def split: statement.splits place.splits)
qed

lemma sccp_defs_total:
  assumes "locals_typed i (fn_locals f)" "dests_declared f" "length reach = length (fn_blocks f)"
  shows "sccp_defs h i ptr_size f reach lat \<noteq> None"
proof -
  have "\<exists>m. foldM (sccp_block h i ptr_size f reach lat) (params_bottom f) (enumerate 0 (fn_blocks f)) = Some m \<and> True"
  proof (rule foldM_total)
    fix nxt p assume p: "p \<in> set (enumerate 0 (fn_blocks f))"
    obtain k blk where kb: "p = (k, blk)" by fastforce
    with p have k: "k < length (fn_blocks f)" "blk \<in> set (fn_blocks f)" by (auto simp: in_set_enumerate_eq)
    have "\<exists>m. foldM (sccp_stmt h i ptr_size f lat) nxt (stmts blk) = Some m \<and> True"
      by (rule foldM_total) (use sccp_stmt_total[OF assms(1,2) k(2)] in auto)
    then show "\<exists>t. sccp_block h i ptr_size f reach lat nxt p = Some t \<and> True"
      using k assms(3) by (auto simp: sccp_block_def kb)
  qed simp
  then show ?thesis by (auto simp: sccp_defs_def)
qed

lemma set_find_default:
  "(case find P xs of Some (_, b) \<Rightarrow> b | None \<Rightarrow> d) \<in> insert d (snd ` set xs)"
  by (auto simp: find_Some_iff image_iff split: option.split) (metis nth_mem snd_conv)

lemma find_default_other:
  "(case find P xs of Some (_, b) \<Rightarrow> b | None \<Rightarrow> d) \<notin> snd ` set xs \<Longrightarrow> (case find P xs of Some (_, b) \<Rightarrow> b | None \<Rightarrow> d) = d"
  using set_find_default[where P = P and xs = xs and d = d] by (simp only: insert_iff) blast

lemma taken_successors_subset: "set (taken_successors t m) \<subseteq> set (successors t)"
proof (cases t)
  case (T_If c a b)
  then show ?thesis by (auto simp: taken_successors_def split: lat.splits const.splits bool.splits)
next
  case (T_Switch v ts d)
  then show ?thesis using set_find_default[where xs = ts and d = d]
    by (auto simp: taken_successors_def split: lat.splits const.splits)
qed (auto simp: taken_successors_def)

text \<open>Marking blocks: the marks grow, stay in range, and the flag tells whether one was added.\<close>

definition marks :: "bool list \<Rightarrow> block_id set" where
  "marks reach = {k. k < length reach \<and> reach ! k}"

lemma mark_succ_fold:
  assumes "\<forall>s \<in> set ss. s < length reach"
  shows "\<exists>reach' c'. foldM mark_succ (reach, c) ss = Some (reach', c') \<and> length reach' = length reach \<and>
    marks reach' = marks reach \<union> set ss \<and> (c' \<longleftrightarrow> c \<or> \<not> set ss \<subseteq> marks reach) \<and> (\<not> c' \<longrightarrow> reach' = reach)"
  using assms
proof (induction ss arbitrary: reach c)
  case (Cons s ss)
  then have s: "s < length reach" by simp
  show ?case
  proof (cases "reach ! s")
    case True
    with s Cons.IH[of reach c] Cons.prems show ?thesis by (auto simp: mark_succ_def marks_def)
  next
    case False
    have m: "marks (reach[s := True]) = insert s (marks reach)"
      using s by (auto simp: marks_def nth_list_update)
    from s False Cons.IH[of "reach[s := True]" True] Cons.prems m show ?thesis
      by (auto simp: mark_succ_def marks_def)
  qed
qed simp

lemma grow_at_total:
  assumes "cfg_ok f" "length reach = length (fn_blocks f)" "k < length (fn_blocks f)"
  shows "\<exists>reach' c'. grow_at f lat (reach, c) k = Some (reach', c') \<and> length reach' = length (fn_blocks f) \<and>
    marks reach \<subseteq> marks reach' \<and> (\<not> c' \<longrightarrow> \<not> c \<and> reach' = reach \<and>
      (reach ! k \<longrightarrow> set (taken_successors (term_of (fn_blocks f ! k)) lat) \<subseteq> marks reach))"
proof (cases "reach ! k")
  case True
  have "\<forall>s \<in> set (taken_successors (term_of (fn_blocks f ! k)) lat). s < length reach"
    using taken_successors_subset cfg_ok_successor[OF assms(1)] assms(2,3) by (metis nth_mem subsetD)
  from mark_succ_fold[OF this, of c] True assms(2,3) show ?thesis by (auto simp: grow_at_def)
next
  case False
  with assms show ?thesis by (auto simp: grow_at_def)
qed

lemma grow_fold:
  assumes "cfg_ok f" "length reach = length (fn_blocks f)" "\<forall>k \<in> set ks. k < length (fn_blocks f)"
  shows "\<exists>reach' c'. foldM (grow_at f lat) (reach, c) ks = Some (reach', c') \<and> length reach' = length (fn_blocks f) \<and>
    marks reach \<subseteq> marks reach' \<and> (\<not> c' \<longrightarrow> \<not> c \<and> reach' = reach \<and>
      (\<forall>k \<in> set ks. reach ! k \<longrightarrow> set (taken_successors (term_of (fn_blocks f ! k)) lat) \<subseteq> marks reach))"
  using assms(2,3)
proof (induction ks arbitrary: reach c)
  case (Cons k ks)
  from grow_at_total[OF assms(1) Cons.prems(1), of k lat c] Cons.prems(2) obtain r1 c1 where
    r1: "grow_at f lat (reach, c) k = Some (r1, c1)" "length r1 = length (fn_blocks f)" "marks reach \<subseteq> marks r1"
      "\<not> c1 \<longrightarrow> \<not> c \<and> r1 = reach \<and> (reach ! k \<longrightarrow> set (taken_successors (term_of (fn_blocks f ! k)) lat) \<subseteq> marks reach)"
    by auto
  from Cons.IH[OF r1(2), of c1] Cons.prems(2) obtain r2 c2 where
    r2: "foldM (grow_at f lat) (r1, c1) ks = Some (r2, c2)" "length r2 = length (fn_blocks f)" "marks r1 \<subseteq> marks r2"
      "\<not> c2 \<longrightarrow> \<not> c1 \<and> r2 = r1 \<and> (\<forall>k \<in> set ks. r1 ! k \<longrightarrow> set (taken_successors (term_of (fn_blocks f ! k)) lat) \<subseteq> marks r1)"
    by auto
  show ?case
  proof (intro exI conjI)
    show "foldM (grow_at f lat) (reach, c) (k # ks) = Some (r2, c2)" using r1(1) r2(1) by simp
    show "\<not> c2 \<longrightarrow> \<not> c \<and> r2 = reach \<and> (\<forall>k \<in> set (k # ks). reach ! k \<longrightarrow>
        set (taken_successors (term_of (fn_blocks f ! k)) lat) \<subseteq> marks reach)" using r1(4) r2(4) by auto
  qed (use r1(3) r2(2,3) in auto)
qed simp

section \<open>What a settled result says\<close>

definition settled :: "half_ops \<Rightarrow> type_interner \<Rightarrow> nat \<Rightarrow> mir_function \<Rightarrow> bool list \<Rightarrow> lat_map \<Rightarrow> bool" where
  "settled h i ptr_size f reach lat \<longleftrightarrow>
     list_all (\<lambda>k. reach ! k \<longrightarrow> list_all (\<lambda>s. reach ! s) (taken_successors (term_of (fn_blocks f ! k)) lat))
       [0..<length (fn_blocks f)] \<and>
     (case sccp_defs h i ptr_size f reach lat of Some nxt \<Rightarrow> lat_map_eq nxt lat | None \<Rightarrow> False)"

text \<open>
  The loop returns, with the entry marked; and either its result has settled or every round of the
  bound was used.
\<close>

lemma solve_loop_total:
  assumes "simplify_input i f"
  shows "length reach = length (fn_blocks f) \<Longrightarrow>
    \<exists>reach' lat'. solve_loop n h i ptr_size f reach lat = Some (reach', lat') \<and>
      length reach' = length (fn_blocks f) \<and> marks reach \<subseteq> marks reach'"
proof (induction n arbitrary: reach lat)
  case (Suc n)
  from assms have f: "cfg_ok f" "locals_typed i (fn_locals f)" "dests_declared f" by (auto simp: simplify_input_def)
  from sccp_defs_total[OF f(2,3) Suc.prems] obtain nxt where nxt: "sccp_defs h i ptr_size f reach lat = Some nxt" by blast
  let ?d = "\<not> lat_map_eq nxt lat"
  let ?lat = "if ?d then nxt else lat"
  from grow_fold[OF f(1) Suc.prems, of "[0..<length (fn_blocks f)]" ?lat ?d] obtain r1 c1 where
    r1: "foldM (grow_at f ?lat) (reach, ?d) [0..<length (fn_blocks f)] = Some (r1, c1)"
      "length r1 = length (fn_blocks f)" "marks reach \<subseteq> marks r1" by auto
  from Suc.IH[OF r1(2), of ?lat] r1 nxt show ?case by (cases c1) (auto simp: Let_def)
qed simp

text \<open>A round that changes nothing ends the loop, and its result has settled.\<close>

lemma solve_loop_settles:
  assumes "cfg_ok f" "length reach = length (fn_blocks f)" "sccp_defs h i ptr_size f reach lat = Some nxt" "lat_map_eq nxt lat"
    and "foldM (grow_at f lat) (reach, False) [0..<length (fn_blocks f)] = Some (reach', False)"
  shows "solve_loop (Suc n) h i ptr_size f reach lat = Some (reach, lat) \<and> settled h i ptr_size f reach lat"
proof -
  from grow_fold[OF assms(1,2), of "[0..<length (fn_blocks f)]" lat False] assms(5)
  have r: "reach' = reach" "\<forall>k < length (fn_blocks f). reach ! k \<longrightarrow>
      set (taken_successors (term_of (fn_blocks f ! k)) lat) \<subseteq> marks reach" by auto
  then have "\<forall>k < length (fn_blocks f). reach ! k \<longrightarrow>
      list_all (\<lambda>s. reach ! s) (taken_successors (term_of (fn_blocks f ! k)) lat)"
    by (auto simp: marks_def list_all_iff)
  with assms(3-5) r(1) show ?thesis by (simp add: settled_def list_all_iff)
qed

lemma sccp_solve_total:
  assumes "simplify_input i f"
  shows "\<exists>reach lat. sccp_solve h i ptr_size f = Some (reach, lat) \<and> length reach = length (fn_blocks f) \<and>
    reach ! fn_entry f"
proof -
  let ?n = "length (fn_blocks f)"
  let ?r = "(replicate ?n False)[fn_entry f := True]"
  have e: "fn_entry f < ?n" using assms by (simp add: simplify_input_def cfg_ok_entry)
  from solve_loop_total[OF assms, of ?r "?n * 4 + 16" h ptr_size "params_bottom f"] obtain reach lat where
    r: "solve_loop (?n * 4 + 16) h i ptr_size f ?r (params_bottom f) = Some (reach, lat)"
      "length reach = ?n" "marks ?r \<subseteq> marks reach" by auto
  moreover from this e have "reach ! fn_entry f" by (auto simp: marks_def)
  ultimately show ?thesis using e by (simp add: sccp_solve_def Let_def)
qed

section \<open>The rewriting keeps the shape\<close>

lemma fold_branch_successors: "fold_branch t = Some t' \<Longrightarrow> set (successors t') \<subseteq> set (successors t)"
proof (cases t)
  case (T_Switch v ts d)
  assume "fold_branch t = Some t'"
  with T_Switch show ?thesis
    by (auto simp: fold_branch_def intro: find_default_other split: operand.splits const.splits)
qed (auto simp: fold_branch_def split: operand.splits const.splits)

lemma sccp_rewrite_cases:
  assumes "k < length reach"
  shows "sccp_rewrite reach known (k, blk) = Some
    (if \<not> reach ! k
     then (if stmts blk = [] \<and> term_of blk = T_Unreachable then (blk, False)
           else (blk\<lparr>stmts := [], term_of := T_Unreachable\<rparr>, True))
     else (blk\<lparr>stmts := map (\<lambda>st. fst (subst_stmt_reads known st)) (stmts blk),
               term_of := (case fold_branch (fst (subst_terminator_reads known (term_of blk))) of
                   Some t' \<Rightarrow> t' | None \<Rightarrow> fst (subst_terminator_reads known (term_of blk)))\<rparr>,
           fold_branch (fst (subst_terminator_reads known (term_of blk))) \<noteq> None \<or>
           list_ex (\<lambda>st. snd (subst_stmt_reads known st)) (stmts blk) \<or> snd (subst_terminator_reads known (term_of blk))))"
  using assms by (auto simp: sccp_rewrite_def case_prod_beta comp_def list_ex_iff split: option.splits)

text \<open>The block that a rewriting leaves at an index.\<close>

definition sccp_new_block :: "bool list \<Rightarrow> known \<Rightarrow> nat \<Rightarrow> basic_block \<Rightarrow> basic_block" where
  "sccp_new_block reach known k blk = fst (the (sccp_rewrite reach known (k, blk)))"

lemma sccp_blocks:
  assumes "sccp h i ptr_size f = Some (g, c)" "fn_blocks f \<noteq> []"
  obtains reach lat where "sccp_solve h i ptr_size f = Some (reach, lat)" "length (fn_blocks f) \<le> length reach"
    "g = f\<lparr>fn_blocks := fn_blocks g\<rparr>" "length (fn_blocks g) = length (fn_blocks f)"
    "\<And>k. k < length (fn_blocks f) \<Longrightarrow> fn_blocks g ! k = sccp_new_block reach (sccp_known lat) k (fn_blocks f ! k)"
    "\<And>k. \<not> c \<Longrightarrow> k < length (fn_blocks f) \<Longrightarrow> \<not> snd (the (sccp_rewrite reach (sccp_known lat) (k, fn_blocks f ! k)))"
proof -
  from assms obtain reach lat rs where r: "sccp_solve h i ptr_size f = Some (reach, lat)"
    and rs: "map_opt (sccp_rewrite reach (sccp_known lat)) (enumerate 0 (fn_blocks f)) = Some rs"
    and g: "g = f\<lparr>fn_blocks := map fst rs\<rparr>" "c = list_ex snd rs"
    by (auto simp: sccp_def bind_Some_iff)
  have len: "length rs = length (fn_blocks f)" using rs by (simp add: map_opt_Some_iff)
  have nth: "sccp_rewrite reach (sccp_known lat) (k, fn_blocks f ! k) = Some (rs ! k)" if "k < length (fn_blocks f)" for k
    using rs that by (auto simp: map_opt_Some_iff nth_enumerate_eq)
  have "k < length reach" if "k < length (fn_blocks f)" for k
    using nth[OF that] by (cases "k < length reach") (auto simp: sccp_rewrite_def)
  then have le: "length (fn_blocks f) \<le> length reach" by (meson leI less_irrefl)
  show ?thesis
  proof (rule that[OF r le])
    show "fn_blocks g ! k = sccp_new_block reach (sccp_known lat) k (fn_blocks f ! k)" if "k < length (fn_blocks f)" for k
      using nth[OF that] g len that by (simp add: sccp_new_block_def)
    show "\<not> snd (the (sccp_rewrite reach (sccp_known lat) (k, fn_blocks f ! k)))" if "\<not> c" "k < length (fn_blocks f)" for k
      using nth[OF that(2)] g(2) len that by (simp add: list_ex_length)
  qed (use g len in auto)
qed

lemma sccp_total: "simplify_input i f \<Longrightarrow> sccp h i ptr_size f \<noteq> None"
proof -
  assume f: "simplify_input i f"
  from sccp_solve_total[OF f] obtain reach lat where r: "sccp_solve h i ptr_size f = Some (reach, lat)"
    "length reach = length (fn_blocks f)" by blast
  have "map_opt (sccp_rewrite reach (sccp_known lat)) (enumerate 0 (fn_blocks f)) \<noteq> None"
    by (rule map_opt_total) (use r(2) sccp_rewrite_cases in \<open>auto simp: in_set_enumerate_eq\<close>)
  with r show ?thesis by (auto simp: sccp_def)
qed

lemma sccp_shrinks:
  assumes "sccp h i ptr_size f = Some (g, c)"
  shows "shrinks f g"
proof (cases "fn_blocks f = []")
  case True
  with assms show ?thesis by (simp add: sccp_def)
next
  case False
  from assms False show ?thesis
  proof (rule sccp_blocks)
    fix reach lat
    assume le: "length (fn_blocks f) \<le> length reach" and g: "g = f\<lparr>fn_blocks := fn_blocks g\<rparr>"
      and len: "length (fn_blocks g) = length (fn_blocks f)"
      and nth: "\<And>k. k < length (fn_blocks f) \<Longrightarrow> fn_blocks g ! k = sccp_new_block reach (sccp_known lat) k (fn_blocks f ! k)"
    have "set (successors (term_of (fn_blocks g ! k))) \<subseteq> set (successors (term_of (fn_blocks f ! k)))"
      if "k < length (fn_blocks f)" for k
      using that le nth[OF that] fold_branch_successors[of "fst (subst_terminator_reads (sccp_known lat) (term_of (fn_blocks f ! k)))"]
      by (auto simp: sccp_new_block_def sccp_rewrite_cases split: option.splits if_splits)
    then have "targets_of g \<subseteq> targets_of f" using len by (fastforce elim!: targets_ofE intro: targets_ofI)
    moreover have "fn_entry g = fn_entry f" "fn_locals g = fn_locals f" "fn_params g = fn_params f"
      by (subst g, simp)+
    ultimately show ?thesis using len by (simp add: shrinks_def)
  qed
qed

lemma sccp_unchanged:
  assumes "sccp h i ptr_size f = Some (g, False)"
  shows "g = f"
proof (cases "fn_blocks f = []")
  case True
  with assms show ?thesis by (simp add: sccp_def)
next
  case False
  from assms False show ?thesis
  proof (rule sccp_blocks)
    fix reach lat
    assume le: "length (fn_blocks f) \<le> length reach" and g: "g = f\<lparr>fn_blocks := fn_blocks g\<rparr>"
      and len: "length (fn_blocks g) = length (fn_blocks f)"
      and nth: "\<And>k. k < length (fn_blocks f) \<Longrightarrow> fn_blocks g ! k = sccp_new_block reach (sccp_known lat) k (fn_blocks f ! k)"
      and unch: "\<And>k. \<not> False \<Longrightarrow> k < length (fn_blocks f) \<Longrightarrow> \<not> snd (the (sccp_rewrite reach (sccp_known lat) (k, fn_blocks f ! k)))"
    have "fn_blocks g ! k = fn_blocks f ! k" if "k < length (fn_blocks f)" for k
    proof -
      let ?b = "fn_blocks f ! k" and ?kn = "sccp_known lat"
      have u: "\<not> snd (the (sccp_rewrite reach ?kn (k, ?b)))" by (rule unch[OF _ that]) simp
      have "map (\<lambda>st. fst (subst_stmt_reads ?kn st)) (stmts ?b) = stmts ?b" if "reach ! k"
        using u that \<open>k < length (fn_blocks f)\<close> le
        by (intro map_idI subst_stmt_unchanged) (auto simp: sccp_rewrite_cases list_ex_iff)
      with u that le nth[OF that] subst_terminator_unchanged[of ?kn "term_of ?b"] show ?thesis
        by (auto simp: sccp_new_block_def sccp_rewrite_cases split: if_splits)
    qed
    with len have "fn_blocks g = fn_blocks f" by (intro nth_equalityI) auto
    with g show "g = f" by simp
  qed
qed

end
