(* ===== verification/Sccp_Sound.thy ===== *)
theory Sccp_Sound
  imports Sccp_Pass Fold_Machine
begin

text \<open>
  Soundness of conditional constant propagation. The lattice of the pass is per local and ignores
  the flow, so its constants are true of a run only where the local has been assigned: the pass
  relies on programs that assign a local before they read it, as the front end guarantees. The
  locals assigned before each block are given by a map \<open>D\<close>, and \<open>assigned_before_read\<close> checks the
  function against it. On a settled result without floating-point constants the rewritten function
  then has exactly the runs of the original from its entry. Both side conditions are real: the
  iteration stops after a fixed number of rounds whether it has settled or not, and the two zeros
  are equal under the comparison that merges definitions.
\<close>

section \<open>Assigned before read\<close>

definition direct_local :: "operand \<Rightarrow> local set" where
  "direct_local a = (case a of O_Copy (P_Local l) \<Rightarrow> {l} | _ \<Rightarrow> {})"

definition place_reads :: "place \<Rightarrow> local set" where
  "place_reads p = (case p of P_Index _ idx _ \<Rightarrow> direct_local idx | _ \<Rightarrow> {})"

definition stmt_reads :: "statement \<Rightarrow> local set" where
  "stmt_reads st =
     \<Union> (set (map direct_local (stmt_operands st))) \<union> (case st of S_Assign p _ \<Rightarrow> place_reads p | _ \<Rightarrow> {})"

definition stmt_def :: "statement \<Rightarrow> local set" where
  "stmt_def st = (case st of S_Assign (P_Local l) _ \<Rightarrow> {l} | _ \<Rightarrow> {})"

definition term_reads :: "terminator \<Rightarrow> local set" where
  "term_reads t = \<Union> (set (map direct_local (term_operands t)))"

definition term_def :: "terminator \<Rightarrow> local set" where
  "term_def t = (case t of T_Await _ (Some d) _ \<Rightarrow> {d} | _ \<Rightarrow> {})"

fun stmts_assigned :: "local set \<Rightarrow> statement list \<Rightarrow> bool" where
  "stmts_assigned A [] = True"
| "stmts_assigned A (st # sts) = (stmt_reads st \<subseteq> A \<and> stmts_assigned (A \<union> stmt_def st) sts)"

definition assigned_after :: "local set \<Rightarrow> statement list \<Rightarrow> local set" where
  "assigned_after A sts = A \<union> \<Union> (set (map stmt_def sts))"

definition assigned_before_read :: "mir_function \<Rightarrow> (block_id \<Rightarrow> local set) \<Rightarrow> bool" where
  "assigned_before_read f D \<longleftrightarrow>
     D (fn_entry f) \<subseteq> set (fn_params f) \<and>
     list_all (\<lambda>(b, blk).
       let A = assigned_after (D b) (stmts blk) in
       stmts_assigned (D b) (stmts blk) \<and> term_reads (term_of blk) \<subseteq> A \<and>
       list_all (\<lambda>t. D t \<subseteq> A \<union> term_def (term_of blk)) (successors (term_of blk)))
       (enumerate 0 (fn_blocks f))"

section \<open>What the definitions of a settled result say\<close>

definition below :: "lat \<Rightarrow> lat \<Rightarrow> bool" where
  "below x v \<longleftrightarrow> x = L_Bottom \<or> v = L_Top \<or> x = v \<or> (\<exists>c d. x = L_Const c \<and> v = L_Const d \<and> const_eq c d)"

lemma below_meet: "below (lat_meet a v) v" "below a w \<Longrightarrow> below (lat_meet a v) w"
  by (cases a; cases v; auto simp: below_def)+

lemma lat_get_insert [simp]: "lat_get (bt_insert k v m) l = (if l = k then v else lat_get m l)"
proof (induction m)
  case (Cons p m)
  obtain j w where p: "p = (j, w)" by fastforce
  show ?case using Cons.IH by (auto simp: p lat_get_def)
qed (simp add: lat_get_def)

text \<open>A fold that meets values into the map stays below every value it has met.\<close>

lemma sccp_stmt_below:
  assumes "sccp_stmt h i ptr_size f lat nxt st = Some nxt'"
  shows "below (lat_get nxt l) w \<Longrightarrow> below (lat_get nxt' l) w"
    and "st = S_Assign (P_Local l) rv \<Longrightarrow> local_ty f l = Some t \<Longrightarrow> int_ty_of i t ptr_size = Some dest \<Longrightarrow>
      below (lat_get nxt' l) (lat_rvalue h rv lat dest)"
  using assms by (auto simp: sccp_stmt_def bind_Some_iff below_meet split: statement.splits place.splits)

lemma sccp_stmts_below:
  assumes "foldM (sccp_stmt h i ptr_size f lat) nxt ss = Some nxt'"
  shows "below (lat_get nxt l) w \<Longrightarrow> below (lat_get nxt' l) w"
    and "S_Assign (P_Local l) rv \<in> set ss \<Longrightarrow> local_ty f l = Some t \<Longrightarrow> int_ty_of i t ptr_size = Some dest \<Longrightarrow>
      below (lat_get nxt' l) (lat_rvalue h rv lat dest)"
proof -
  have keep: "below (lat_get m l) w \<Longrightarrow> foldM (sccp_stmt h i ptr_size f lat) m ss = Some m' \<Longrightarrow> below (lat_get m' l) w"
    for m m' ss w
    by (induction ss arbitrary: m) (auto simp: bind_Some_iff dest: sccp_stmt_below(1))
  show "below (lat_get nxt l) w \<Longrightarrow> below (lat_get nxt' l) w" using keep assms by blast
  assume ty: "local_ty f l = Some t" "int_ty_of i t ptr_size = Some dest"
  show "S_Assign (P_Local l) rv \<in> set ss \<Longrightarrow> below (lat_get nxt' l) (lat_rvalue h rv lat dest)"
    using assms
  proof (induction ss arbitrary: nxt)
    case (Cons st ss)
    from Cons.prems(2) obtain m where m: "sccp_stmt h i ptr_size f lat nxt st = Some m"
      "foldM (sccp_stmt h i ptr_size f lat) m ss = Some nxt'" by (auto simp: bind_Some_iff)
    show ?case
    proof (cases "st = S_Assign (P_Local l) rv")
      case True
      from sccp_stmt_below(2)[OF m(1) True ty] m(2) show ?thesis by (rule keep)
    qed (use Cons.prems(1) Cons.IH[OF _ m(2)] in auto)
  qed simp
qed

lemma sccp_block_below:
  assumes "sccp_block h i ptr_size f reach lat nxt (k, blk) = Some nxt'"
  shows "below (lat_get nxt l) w \<Longrightarrow> below (lat_get nxt' l) w"
    and "reach ! k \<Longrightarrow> S_Assign (P_Local l) rv \<in> set (stmts blk) \<Longrightarrow> local_ty f l = Some t \<Longrightarrow>
      int_ty_of i t ptr_size = Some dest \<Longrightarrow> below (lat_get nxt' l) (lat_rvalue h rv lat dest)"
    and "reach ! k \<Longrightarrow> term_of blk = T_Await fut (Some d) r \<Longrightarrow> below (lat_get nxt' d) L_Bottom"
proof -
  have bot: "below L_Bottom w" for w by (simp add: below_def)
  from assms consider "\<not> reach ! k" "nxt' = nxt" | m where "reach ! k" "foldM (sccp_stmt h i ptr_size f lat) nxt (stmts blk) = Some m"
    "nxt' = (case term_of blk of T_Await _ (Some d) _ \<Rightarrow> bt_insert d L_Bottom m | _ \<Rightarrow> m)"
    by (auto simp: sccp_block_def bind_Some_iff nth_opt_Some_iff split: if_splits)
  note c = this
  show "below (lat_get nxt l) w \<Longrightarrow> below (lat_get nxt' l) w"
    using c by cases (auto simp: bot dest: sccp_stmts_below(1) split: terminator.split option.split)
  show "reach ! k \<Longrightarrow> S_Assign (P_Local l) rv \<in> set (stmts blk) \<Longrightarrow> local_ty f l = Some t \<Longrightarrow>
      int_ty_of i t ptr_size = Some dest \<Longrightarrow> below (lat_get nxt' l) (lat_rvalue h rv lat dest)"
    using c by cases (auto simp: bot dest: sccp_stmts_below(2) split: terminator.split option.split)
  show "reach ! k \<Longrightarrow> term_of blk = T_Await fut (Some d) r \<Longrightarrow> below (lat_get nxt' d) L_Bottom"
    using c by cases (auto simp: bot)
qed

lemma params_bottom_get: "p \<in> set (fn_params f) \<Longrightarrow> lat_get (params_bottom f) p = L_Bottom"
proof -
  have "lat_get (foldl (\<lambda>m p. bt_insert p L_Bottom m) m ps) p = (if p \<in> set ps then L_Bottom else lat_get m p)" for m ps
    by (induction ps arbitrary: m) auto
  then show "p \<in> set (fn_params f) \<Longrightarrow> lat_get (params_bottom f) p = L_Bottom" by (simp add: params_bottom_def)
qed

lemma sccp_defs_below:
  assumes "sccp_defs h i ptr_size f reach lat = Some nxt"
  shows "p \<in> set (fn_params f) \<Longrightarrow> below (lat_get nxt p) L_Bottom"
    and "k < length (fn_blocks f) \<Longrightarrow> reach ! k \<Longrightarrow> S_Assign (P_Local l) rv \<in> set (stmts (fn_blocks f ! k)) \<Longrightarrow>
      local_ty f l = Some t \<Longrightarrow> int_ty_of i t ptr_size = Some dest \<Longrightarrow> below (lat_get nxt l) (lat_rvalue h rv lat dest)"
    and "k < length (fn_blocks f) \<Longrightarrow> reach ! k \<Longrightarrow> term_of (fn_blocks f ! k) = T_Await fut (Some d) r \<Longrightarrow>
      below (lat_get nxt d) L_Bottom"
proof -
  let ?b = "sccp_block h i ptr_size f reach lat"
  have keep: "below (lat_get m l) w \<Longrightarrow> foldM ?b m ps = Some m' \<Longrightarrow> below (lat_get m' l) w" for m m' ps l w
    by (induction ps arbitrary: m) (auto simp: bind_Some_iff dest: sccp_block_below(1))
  have at: "\<exists>m m'. ?b m p = Some m' \<and> (\<forall>l w. below (lat_get m' l) w \<longrightarrow> below (lat_get nxt l) w)"
    if "p \<in> set ps" "foldM ?b m0 ps = Some nxt" for p ps m0
    using that
  proof (induction ps arbitrary: m0)
    case (Cons q ps)
    then obtain m1 where "?b m0 q = Some m1" "foldM ?b m1 ps = Some nxt" by (auto simp: bind_Some_iff)
    with Cons keep show ?case by (cases "p = q") (force, auto)
  qed simp
  note fold = assms[unfolded sccp_defs_def]
  show "p \<in> set (fn_params f) \<Longrightarrow> below (lat_get nxt p) L_Bottom"
    by (rule keep[OF _ fold]) (simp add: params_bottom_get below_def)
  assume k: "k < length (fn_blocks f)" "reach ! k"
  then have "(k, fn_blocks f ! k) \<in> set (enumerate 0 (fn_blocks f))" by (simp add: in_set_enumerate_eq)
  from at[OF this fold] obtain m m' where m: "?b m (k, fn_blocks f ! k) = Some m'"
    "\<And>l w. below (lat_get m' l) w \<Longrightarrow> below (lat_get nxt l) w" by blast
  show "S_Assign (P_Local l) rv \<in> set (stmts (fn_blocks f ! k)) \<Longrightarrow> local_ty f l = Some t \<Longrightarrow>
      int_ty_of i t ptr_size = Some dest \<Longrightarrow> below (lat_get nxt l) (lat_rvalue h rv lat dest)"
    using sccp_block_below(2)[OF m(1) k(2)] m(2) by blast
  show "term_of (fn_blocks f ! k) = T_Await fut (Some d) r \<Longrightarrow> below (lat_get nxt d) L_Bottom"
    using sccp_block_below(3)[OF m(1) k(2)] m(2) by blast
qed

section \<open>The constants are true where a local is assigned\<close>

definition exact_lat :: "lat_map \<Rightarrow> bool" where
  "exact_lat lat \<longleftrightarrow> list_all (\<lambda>(_, v). case v of L_Const c \<Rightarrow> exact_const c | _ \<Rightarrow> True) lat"

lemma exact_lat_get: "exact_lat lat \<Longrightarrow> lat_get lat l = L_Const c \<Longrightarrow> exact_const c"
  by (force simp: exact_lat_def list_all_iff lat_get_def dest!: map_of_SomeD split: option.splits)

lemma lat_map_eq_get: "lat_map_eq a b \<Longrightarrow> lat_eq (lat_get a l) (lat_get b l)"
  unfolding lat_map_eq_def by (induction rule: list_all2_induct) (auto simp: lat_get_def)

definition lat_def :: "lat_map \<Rightarrow> local \<Rightarrow> lat \<Rightarrow> bool" where
  "lat_def lat l v \<longleftrightarrow> lat_get lat l = L_Bottom \<or> v = L_Top \<or> lat_get lat l = v"

lemma below_lat_def:
  assumes "below (lat_get nxt l) v" "lat_map_eq nxt lat" "exact_lat lat"
  shows "lat_def lat l v"
proof -
  note e = lat_map_eq_get[OF assms(2), of l]
  show ?thesis
  proof (cases "lat_get lat l")
    case (L_Const c)
    with exact_lat_get[OF assms(3)] have x: "exact_const c" by blast
    from e L_Const obtain d where d: "lat_get nxt l = L_Const d" "const_eq d c" by (cases "lat_get nxt l") auto
    with x have "d = c" using const_eq_exact[OF x] const_eq_sym by metis
    with assms(1) d(1) L_Const show ?thesis using const_eq_exact[OF x] by (auto simp: below_def lat_def_def)
  next
    case L_Top
    with e have "lat_get nxt l = L_Top" by (cases "lat_get nxt l") auto
    with assms(1) L_Top show ?thesis by (auto simp: below_def lat_def_def)
  qed (simp add: lat_def_def)
qed

definition sccp_ok :: "('v, 'h) machine \<Rightarrow> lat_map \<Rightarrow> local set \<Rightarrow> ('v, 'h) state \<Rightarrow> bool" where
  "sccp_ok m lat A s \<longleftrightarrow>
     (\<forall>l \<in> A. lat_get lat l \<noteq> L_Top \<and> (\<forall>c. lat_get lat l = L_Const c \<longrightarrow> loc s l = m_const m c))"

lemma sccp_okD: "sccp_ok m lat A s \<Longrightarrow> l \<in> A \<Longrightarrow> lat_get lat l \<noteq> L_Top"
  "sccp_ok m lat A s \<Longrightarrow> l \<in> A \<Longrightarrow> lat_get lat l = L_Const c \<Longrightarrow> loc s l = m_const m c"
  by (auto simp: sccp_ok_def)

lemma sccp_ok_subset: "sccp_ok m lat A s \<Longrightarrow> B \<subseteq> A \<Longrightarrow> loc t = loc s \<Longrightarrow> sccp_ok m lat B t"
  by (auto simp: sccp_ok_def)

lemma sccp_ok_assign:
  assumes "sccp_ok m lat A s" "lat_get lat l \<noteq> L_Top" "\<And>c. lat_get lat l = L_Const c \<Longrightarrow> v = m_const m c"
    and "loc t = (loc s)(l := v)"
  shows "sccp_ok m lat (insert l A) t"
  using assms by (auto simp: sccp_ok_def)

lemma lat_operand_sound:
  assumes "sccp_ok m lat A s" "direct_local a \<subseteq> A"
  shows "lat_operand a lat \<noteq> L_Top" "lat_operand a lat = L_Const c \<Longrightarrow> holds_const m s a c"
  using assms sccp_okD[OF assms(1)]
  by (auto simp: lat_operand_def direct_local_def holds_const_def split: operand.splits place.splits)

lemma lat_fold_const: "lat_fold h dest rv = L_Const c \<Longrightarrow> fold_rvalue h rv dest = Some c"
  by (auto simp: lat_fold_def split: option.splits)

lemma lat_rvalue_not_top:
  assumes "sccp_ok m lat A s" "\<forall>a \<in> set (rvalue_operands rv). direct_local a \<subseteq> A"
  shows "lat_rvalue h rv lat dest \<noteq> L_Top"
proof -
  have f: "lat_fold h dest r \<noteq> L_Top" for r by (simp add: lat_fold_def split: option.split)
  have o: "lat_operand a lat \<noteq> L_Top" if "a \<in> set (rvalue_operands rv)" for a
    using lat_operand_sound(1)[OF assms(1)] assms(2) that by blast
  show ?thesis
    using o f by (cases rv) (auto simp: lat_rvalue_def lat_binary_def lat_unary_def split: lat.splits)
qed

lemma lat_rvalue_sound:
  assumes "sccp_ok m lat A s" "\<forall>a \<in> set (rvalue_operands rv). direct_local a \<subseteq> A" "machine_folds h tys m"
    and "lat_rvalue h rv lat (tys l) = L_Const c"
  shows "eval_rvalue m (P_Local l) rv s = Ok (m_const m c) (heap s)"
proof -
  have o: "holds_const m s a x" if "a \<in> set (rvalue_operands rv)" "lat_operand a lat = L_Const x" for a x
    using lat_operand_sound(2)[OF assms(1)] assms(2) that by blast
  note ev = fold_machine_eval[OF assms(3)]
  show ?thesis
  proof (cases rv)
    case (R_Use a)
    with assms(4) o[of a c] show ?thesis by (simp add: lat_rvalue_def eval_rvalue_def holds_const_def)
  next
    case (R_Binary op a b)
    with assms(4) obtain x y where xy: "lat_operand a lat = L_Const x" "lat_operand b lat = L_Const y"
      "lat_fold h (tys l) (R_Binary op (O_Const x) (O_Const y)) = L_Const c"
      by (auto simp: lat_rvalue_def lat_binary_def split: lat.splits)
    from R_Binary ev(1)[OF o[OF _ xy(1)] o[OF _ xy(2)] lat_fold_const[OF xy(3)]] show ?thesis by simp
  next
    case (R_CheckedBinary op a b)
    with assms(4) obtain x y where xy: "lat_operand a lat = L_Const x" "lat_operand b lat = L_Const y"
      "lat_fold h (tys l) (R_CheckedBinary op (O_Const x) (O_Const y)) = L_Const c"
      by (auto simp: lat_rvalue_def lat_binary_def split: lat.splits)
    from R_CheckedBinary ev(2)[OF o[OF _ xy(1)] o[OF _ xy(2)] lat_fold_const[OF xy(3)]] show ?thesis by simp
  next
    case (R_Unary op a)
    with assms(4) obtain x where xy: "lat_operand a lat = L_Const x" "lat_fold h (tys l) (R_Unary op (O_Const x)) = L_Const c"
      by (auto simp: lat_rvalue_def lat_unary_def split: lat.splits)
    from R_Unary ev(3)[OF o[OF _ xy(1)] lat_fold_const[OF xy(2)]] show ?thesis by simp
  next
    case (R_CheckedNeg a)
    with assms(4) obtain x where xy: "lat_operand a lat = L_Const x" "lat_fold h (tys l) (R_CheckedNeg (O_Const x)) = L_Const c"
      by (auto simp: lat_rvalue_def lat_unary_def split: lat.splits)
    from R_CheckedNeg ev(4)[OF o[OF _ xy(1)] lat_fold_const[OF xy(2)]] show ?thesis by simp
  qed (use assms(4) in \<open>simp_all add: lat_rvalue_def\<close>)
qed

text \<open>A statement whose definition the lattice accounts for keeps the constants true.\<close>

lemma sccp_ok_stmt:
  assumes ok: "sccp_ok m lat A s" and rd: "stmt_reads st \<subseteq> A" and folds: "machine_folds h tys m"
    and dfn: "\<And>l rv. st = S_Assign (P_Local l) rv \<Longrightarrow> lat_def lat l (lat_rvalue h rv lat (tys l))"
    and val: "\<And>l c. m_is_value m l \<Longrightarrow> lat_get lat l \<noteq> L_Const c"
    and ex: "exec_stmt m st s = Next s'"
  shows "sccp_ok m lat (A \<union> stmt_def st) s'"
proof (cases "\<exists>l rv. st = S_Assign (P_Local l) rv")
  case True
  then obtain l rv where st: "st = S_Assign (P_Local l) rv" by blast
  have ops: "\<forall>a \<in> set (rvalue_operands rv). direct_local a \<subseteq> A" using rd by (auto simp: st stmt_reads_def)
  have top: "lat_get lat l \<noteq> L_Top"
    using dfn[OF st] lat_rvalue_not_top[OF ok ops, of h "tys l"] by (auto simp: lat_def_def)
  from ex st obtain v hp where v: "eval_rvalue m (P_Local l) rv s = Ok v hp"
    "write_place m (P_Local l) v (s\<lparr>heap := hp\<rparr>) = Some s'" by (auto elim: exec_assign_Next)
  have c: "v = m_const m c" if "lat_get lat l = L_Const c" for c
  proof -
    have "lat_rvalue h rv lat (tys l) = L_Const c"
      using dfn[OF st] lat_rvalue_not_top[OF ok ops, of h "tys l"] that by (auto simp: lat_def_def)
    from lat_rvalue_sound[OF ok ops folds this] v(1) show ?thesis by simp
  qed
  show ?thesis
  proof (cases "m_is_value m l")
    case True
    then have "loc s' = loc s" using exec_keeps_locals[OF ex] st by simp
    with ok top val[OF True] show ?thesis by (auto simp: st stmt_def_def sccp_ok_def)
  next
    case False
    with v(2) have "loc s' = (loc s)(l := v)" by (auto simp: write_place_def)
    from sccp_ok_assign[OF ok top c this] show ?thesis by (simp add: st stmt_def_def)
  qed
next
  case False
  then have "loc s' = loc s" "stmt_def st = {}"
    using exec_keeps_locals[OF ex] by (auto simp: stmt_def_def split: statement.splits place.splits)
  with sccp_ok_subset[OF ok] show ?thesis by simp
qed

section \<open>Substituting the constants\<close>

definition restrict_known :: "local set \<Rightarrow> known \<Rightarrow> known" where
  "restrict_known A known = filter (\<lambda>(l, _). l \<in> A) known"

definition const_known :: "known \<Rightarrow> bool" where
  "const_known known \<longleftrightarrow> (\<forall>(l, v) \<in> set known. \<exists>c. v = O_Const c)"

lemma const_known_restrict: "const_known known \<Longrightarrow> const_known (restrict_known A known)"
  by (auto simp: const_known_def restrict_known_def)

lemma map_of_restrict: "map_of (restrict_known A known) l = (if l \<in> A then map_of known l else None)"
  by (induction known) (auto simp: restrict_known_def)

lemma resolve_const_known:
  assumes "const_known known"
  shows "resolve a known = (case a of O_Copy (P_Local l) \<Rightarrow> map_of known l | _ \<Rightarrow> None)"
proof (cases "(a, known)" rule: resolve.cases)
  case (1 l kn)
  show ?thesis
  proof (cases "map_of known l")
    case None
    with 1 show ?thesis by simp
  next
    case (Some v)
    from map_of_SomeD[OF Some] assms obtain c where "v = O_Const c" by (auto simp: const_known_def)
    moreover from Some have "known \<noteq> []" by auto
    then obtain n where "length known = Suc n" by (cases known) auto
    ultimately show ?thesis using 1 Some by simp
  qed
qed auto

lemma resolve_restrict:
  assumes "const_known known" "direct_local a \<subseteq> A"
  shows "resolve a (restrict_known A known) = resolve a known"
  using assms const_known_restrict[OF assms(1), of A]
  by (auto simp: resolve_const_known map_of_restrict direct_local_def split: operand.splits place.splits)

lemma subst_restrict:
  assumes "const_known known" "direct_local a \<subseteq> A"
  shows "subst_operand (restrict_known A known) a = subst_operand known a"
    "subst_unless_const k (restrict_known A known) a = subst_unless_const k known a"
    "rvalue_subst rv (restrict_known A known) a = rvalue_subst rv known a"
  using resolve_restrict[OF assms]
  by (simp_all add: subst_operand_def subst_unless_const_def rvalue_subst_def split: rvalue.split)

lemma subst_stmt_restrict:
  assumes "const_known known" "stmt_reads st \<subseteq> A"
  shows "fst (subst_stmt_reads (restrict_known A known) st) = fst (subst_stmt_reads known st)"
proof -
  have ops: "direct_local a \<subseteq> A" if "a \<in> set (stmt_operands st)" for a using that assms(2) by (auto simp: stmt_reads_def)
  show ?thesis
  proof (cases "\<exists>p rv. st = S_Assign p rv")
    case True
    then obtain p rv where st: "st = S_Assign p rv" by blast
    have "fst (subst_rvalue_reads (restrict_known A known) rv) = fst (subst_rvalue_reads known rv)"
      using ops by (auto simp: subst_rvalue_reads_def st subst_restrict(3)[OF assms(1)] intro!: map_rvalue_operands_cong)
    moreover have "place_reads p \<subseteq> A" using assms(2) by (auto simp: st stmt_reads_def)
    then have "fst (subst_place_reads (restrict_known A known) p) = fst (subst_place_reads known p)"
      by (auto simp: subst_place_reads_def place_reads_def subst_restrict(1)[OF assms(1)] split: place.splits)
    ultimately show ?thesis by (simp add: st subst_stmt_reads_def case_prod_beta)
  next
    case False
    have "map_stmt_operands (\<lambda>x. fst (subst_operand (restrict_known A known) x)) st = map_stmt_operands (\<lambda>x. fst (subst_operand known x)) st"
      using ops by (intro map_stmt_operands_cong) (simp add: subst_restrict(1)[OF assms(1)])
    with False show ?thesis by (auto simp: subst_stmt_reads_def split: statement.split)
  qed
qed

lemma subst_term_restrict:
  assumes "const_known known" "term_reads t \<subseteq> A"
  shows "fst (subst_terminator_reads (restrict_known A known) t) = fst (subst_terminator_reads known t)"
proof -
  have ops: "direct_local a \<subseteq> A" if "a \<in> set (term_operands t)" for a using that assms(2) by (auto simp: term_reads_def)
  show ?thesis
    using ops by (cases t) (auto simp: subst_terminator_reads_def case_prod_beta subst_restrict(1)[OF assms(1)] split: option.splits)
qed

lemma sccp_known_const: "const_known (sccp_known lat)"
  by (auto simp: const_known_def sccp_known_def split: lat.splits)

lemma sccp_known_get:
  assumes "distinct (map fst lat)" "(l, v) \<in> set (sccp_known lat)"
  shows "\<exists>c. v = O_Const c \<and> lat_get lat l = L_Const c"
  using assms by (force simp: sccp_known_def lat_get_def split: lat.splits)

text \<open>The static types of the locals that hold constants are those of the constants.\<close>

definition consts_alike :: "('v, 'h) machine \<Rightarrow> known \<Rightarrow> bool" where
  "consts_alike m known \<longleftrightarrow>
     (\<forall>(l, v) \<in> set known. typed_alike m (O_Copy (P_Local l)) v \<and> compared_alike m (O_Copy (P_Local l)) v)"

lemma sccp_known_ok:
  assumes "sccp_ok m lat A s" "distinct (map fst lat)" "consts_alike m (sccp_known lat)"
  shows "known_ok m s (restrict_known A (sccp_known lat))"
  unfolding known_ok_def
proof (intro ballI, clarify)
  fix l v assume lv: "(l, v) \<in> set (restrict_known A (sccp_known lat))"
  then have l: "l \<in> A" "(l, v) \<in> set (sccp_known lat)" by (auto simp: restrict_known_def)
  from sccp_known_get[OF assms(2) l(2)] obtain c where c: "v = O_Const c" "lat_get lat l = L_Const c" by blast
  with sccp_okD(2)[OF assms(1) l(1)] assms(3) l(2) show "reg_operand v \<and> same_value m s (O_Copy (P_Local l)) v"
    by (auto simp: reg_operand_def same_value_def consts_alike_def)
qed

section \<open>The map has one entry per local\<close>

definition keys_ok :: "lat_map \<Rightarrow> bool" where
  "keys_ok m \<longleftrightarrow> sorted_wrt (<) (map fst m)"

lemma keys_ok_distinct: "keys_ok m \<Longrightarrow> distinct (map fst m)"
  by (simp add: keys_ok_def strict_sorted_iff)

lemma set_bt_insert: "fst ` set (bt_insert k v m) = insert k (fst ` set m)"
proof (induction m)
  case (Cons p m)
  obtain l w where "p = (l, w)" by fastforce
  with Cons show ?case by (simp add: insert_commute)
qed simp

lemma keys_ok_Cons: "keys_ok ((l, w) # m) \<longleftrightarrow> (\<forall>x \<in> fst ` set m. l < x) \<and> keys_ok m"
  by (simp add: keys_ok_def)

lemma keys_ok_insert: "keys_ok m \<Longrightarrow> keys_ok (bt_insert k v m)"
proof (induction m)
  case (Cons p m)
  obtain l w where p: "p = (l, w)" by fastforce
  from Cons.prems have m: "keys_ok m" "\<forall>x \<in> fst ` set m. l < x" by (simp_all add: p keys_ok_Cons)
  consider "k < l" | "k = l" | "l < k" by linarith
  then show ?case
  proof cases
    case 1
    with m show ?thesis by (auto simp: p keys_ok_Cons)
  next
    case 2
    with m show ?thesis by (simp add: p keys_ok_Cons)
  next
    case 3
    with m Cons.IH[OF m(1)] show ?thesis by (simp add: p keys_ok_Cons set_bt_insert del: image_insert)
  qed
qed (simp add: keys_ok_def)

lemma keys_ok_params: "keys_ok (params_bottom f)"
proof -
  have "keys_ok m \<Longrightarrow> keys_ok (foldl (\<lambda>m p. bt_insert p L_Bottom m) m ps)" for m ps
    by (induction ps arbitrary: m) (auto intro: keys_ok_insert)
  from this[of "[]"] show ?thesis by (simp add: params_bottom_def keys_ok_def)
qed

lemma keys_ok_defs:
  assumes "sccp_defs h i ptr_size f reach lat = Some nxt"
  shows "keys_ok nxt"
proof -
  have stmt: "keys_ok m \<Longrightarrow> sccp_stmt h i ptr_size f lat m st = Some m' \<Longrightarrow> keys_ok m'" for m st m'
    by (auto simp: sccp_stmt_def bind_Some_iff intro: keys_ok_insert split: statement.splits place.splits)
  have stmts: "keys_ok m \<Longrightarrow> foldM (sccp_stmt h i ptr_size f lat) m ss = Some m' \<Longrightarrow> keys_ok m'" for m ss m'
    by (induction ss arbitrary: m) (auto simp: bind_Some_iff dest: stmt)
  have blk: "keys_ok m \<Longrightarrow> sccp_block h i ptr_size f reach lat m p = Some m' \<Longrightarrow> keys_ok m'" for m p m'
  proof -
    assume m: "keys_ok m" and b: "sccp_block h i ptr_size f reach lat m p = Some m'"
    then consider "m' = m" | m1 where "foldM (sccp_stmt h i ptr_size f lat) m (stmts (snd p)) = Some m1"
      "m' = (case term_of (snd p) of T_Await _ (Some d) _ \<Rightarrow> bt_insert d L_Bottom m1 | _ \<Rightarrow> m1)"
      by (auto simp: sccp_block_def bind_Some_iff case_prod_beta split: if_splits)
    then show "keys_ok m'"
      using m by cases (auto dest: stmts intro!: keys_ok_insert split: terminator.split option.split)
  qed
  have "keys_ok m \<Longrightarrow> foldM (sccp_block h i ptr_size f reach lat) m ps = Some m' \<Longrightarrow> keys_ok m'" for m ps m'
    by (induction ps arbitrary: m) (auto simp: bind_Some_iff dest: blk)
  from this[OF keys_ok_params assms[unfolded sccp_defs_def]] show ?thesis .
qed

lemma keys_ok_solve: "keys_ok lat \<Longrightarrow> solve_loop n h i ptr_size f reach lat = Some (reach', lat') \<Longrightarrow> keys_ok lat'"
proof (induction n arbitrary: reach lat)
  case (Suc n)
  from Suc.prems(2) obtain nxt where nxt: "sccp_defs h i ptr_size f reach lat = Some nxt" by (auto simp: bind_Some_iff)
  from keys_ok_defs[OF this] Suc show ?case
    by (auto simp: bind_Some_iff nxt Let_def split: if_splits)
qed simp

section \<open>The rewritten function has the runs of the original\<close>

text \<open>The statements of a block, rewritten and as they were.\<close>

lemma sccp_stmts_exec:
  assumes "sccp_ok m lat A s" "stmts_assigned A ss" "machine_folds h tys m"
    and dfn: "\<And>l rv. S_Assign (P_Local l) rv \<in> set ss \<Longrightarrow> lat_def lat l (lat_rvalue h rv lat (tys l))"
    and val: "\<And>l c. m_is_value m l \<Longrightarrow> lat_get lat l \<noteq> L_Const c"
    and kn: "distinct (map fst lat)" "consts_alike m (sccp_known lat)"
  shows "exec_stmts m (map (\<lambda>st. fst (subst_stmt_reads (sccp_known lat) st)) ss) s = exec_stmts m ss s"
    and "exec_stmts m ss s = Next s' \<Longrightarrow> sccp_ok m lat (assigned_after A ss) s'"
proof -
  have "exec_stmts m (map (\<lambda>st. fst (subst_stmt_reads (sccp_known lat) st)) ss) s = exec_stmts m ss s \<and>
      (\<forall>s'. exec_stmts m ss s = Next s' \<longrightarrow> sccp_ok m lat (assigned_after A ss) s')"
    using assms(1,2) dfn
  proof (induction ss arbitrary: A s)
    case Nil
    then show ?case by (auto simp: assigned_after_def)
  next
    case (Cons st ss)
    have rd: "stmt_reads st \<subseteq> A" using Cons.prems(2) by simp
    have e: "exec_stmt m (fst (subst_stmt_reads (sccp_known lat) st)) s = exec_stmt m st s"
      using subst_stmt_exec[OF sccp_known_ok[OF Cons.prems(1) kn]] subst_stmt_restrict[OF sccp_known_const rd] by metis
    show ?case
    proof (cases "exec_stmt m st s")
      case (Next s1)
      have "sccp_ok m lat (A \<union> stmt_def st) s1"
        by (rule sccp_ok_stmt[OF Cons.prems(1) rd assms(3) _ val Next]) (use Cons.prems(3) in auto)
      from Cons.IH[OF this] Cons.prems(2,3) e Next show ?thesis
        by (simp add: assigned_after_def Un_assoc)
    qed (use e in simp)
  qed
  then show "exec_stmts m (map (\<lambda>st. fst (subst_stmt_reads (sccp_known lat) st)) ss) s = exec_stmts m ss s"
    and "exec_stmts m ss s = Next s' \<Longrightarrow> sccp_ok m lat (assigned_after A ss) s'" by auto
qed

text \<open>A terminator jumps to a successor that the lattice says can be taken.\<close>

lemma taken_successors_sound:
  assumes "sccp_ok m lat A s" "term_reads t \<subseteq> A" "machine_consts m" "exec_term m t s = Jump b s'"
  shows "b \<in> set (taken_successors t lat)"
proof (cases t)
  case (T_If c x y)
  have rd: "direct_local c \<subseteq> A" using assms(2) T_If by (simp add: term_reads_def)
  from assms(4) T_If obtain v where v: "eval_operand m s c = Some v" "b = (if m_truth m v then x else y)"
    by (auto simp: exec_term_def split: option.splits)
  show ?thesis
  proof (cases "\<exists>q. lat_operand c lat = L_Const (C_Bool q)")
    case True
    then obtain q where q: "lat_operand c lat = L_Const (C_Bool q)" by blast
    from lat_operand_sound(2)[OF assms(1) rd q] v assms(3) have "b = (if q then x else y)"
      by (auto simp: holds_const_def machine_consts_def)
    with q T_If show ?thesis by (cases q) (simp_all add: taken_successors_def)
  next
    case False
    with T_If v show ?thesis
      by (auto simp: taken_successors_def split: lat.splits const.splits bool.splits)
  qed
next
  case (T_Switch c ts d)
  have rd: "direct_local c \<subseteq> A" using assms(2) T_Switch by (simp add: term_reads_def)
  from assms(4) T_Switch obtain v where v: "eval_operand m s c = Some v" "b = switch_target ts (m_key m v) d"
    by (auto simp: exec_term_def split: option.splits)
  show ?thesis
  proof (cases "\<exists>k. lat_operand c lat = L_Const (C_Int k)")
    case True
    then obtain k where k: "lat_operand c lat = L_Const (C_Int k)" by blast
    from lat_operand_sound(2)[OF assms(1) rd k] v assms(3) have "b = switch_target ts k d"
      by (auto simp: holds_const_def machine_consts_def)
    with k T_Switch show ?thesis by (simp add: taken_successors_def find_switch_target)
  next
    case False
    with T_Switch exec_term_Jump[OF assms(4)] show ?thesis
      by (auto simp: taken_successors_def split: lat.splits const.splits)
  qed
qed (use exec_term_Jump[OF assms(4)] in \<open>simp_all add: taken_successors_def\<close>)

lemma sccp_ok_term:
  assumes "sccp_ok m lat A s" "exec_term m t s = Jump b s'"
    and "\<And>fut d r. t = T_Await fut (Some d) r \<Longrightarrow> lat_get lat d = L_Bottom"
  shows "sccp_ok m lat (A \<union> term_def t) s'"
proof (cases "\<exists>fut d r. t = T_Await fut (Some d) r")
  case True
  then obtain fut d r where t: "t = T_Await fut (Some d) r" by blast
  with assms(2) obtain v hp where w: "write_place m (P_Local d) v (s\<lparr>heap := hp\<rparr>) = Some s'"
    by (auto simp: exec_term_def split: option.splits eff.splits)
  have "loc s' = (loc s)(d := loc s' d)"
  proof (cases "m_is_value m d")
    case True
    with w have "loc s' = loc s" by (auto simp: write_place_def dest: store_place_heap)
    then show ?thesis by simp
  next
    case False
    with w show ?thesis by (auto simp: write_place_def)
  qed
  from sccp_ok_assign[OF assms(1) _ _ this] assms(3)[OF t] show ?thesis by (simp add: t term_def_def)
next
  case False
  then have "loc s' = loc s" "term_def t = {}"
    using assms(2) by (auto simp: exec_term_def term_def_def split: terminator.splits option.splits eff.splits)
  with sccp_ok_subset[OF assms(1)] show ?thesis by simp
qed

text \<open>
  What the machine and the solver's result must satisfy: the iteration has settled, no constant is a
  floating-point number, and no value-typed local is constant.
\<close>

definition sccp_result_ok ::
  "('v, 'h) machine \<Rightarrow> half_ops \<Rightarrow> type_interner \<Rightarrow> nat \<Rightarrow> mir_function \<Rightarrow> bool list \<Rightarrow> lat_map \<Rightarrow> bool" where
  "sccp_result_ok m h i ptr_size f reach lat \<longleftrightarrow>
     settled h i ptr_size f reach lat \<and> exact_lat lat \<and> consts_alike m (sccp_known lat) \<and>
     (\<forall>l c. m_is_value m l \<longrightarrow> lat_get lat l \<noteq> L_Const c)"

lemma settledD:
  assumes "settled h i ptr_size f reach lat"
  shows "k < length (fn_blocks f) \<Longrightarrow> reach ! k \<Longrightarrow> s \<in> set (taken_successors (term_of (fn_blocks f ! k)) lat) \<Longrightarrow> reach ! s"
    and "\<exists>nxt. sccp_defs h i ptr_size f reach lat = Some nxt \<and> lat_map_eq nxt lat"
  using assms by (auto simp: settled_def list_all_iff split: option.splits)

lemma settled_defs:
  assumes "settled h i ptr_size f reach lat" "exact_lat lat"
  shows "p \<in> set (fn_params f) \<Longrightarrow> lat_get lat p = L_Bottom"
    and "k < length (fn_blocks f) \<Longrightarrow> reach ! k \<Longrightarrow> S_Assign (P_Local l) rv \<in> set (stmts (fn_blocks f ! k)) \<Longrightarrow>
      local_ty f l = Some t \<Longrightarrow> int_ty_of i t ptr_size = Some dest \<Longrightarrow> lat_def lat l (lat_rvalue h rv lat dest)"
    and "k < length (fn_blocks f) \<Longrightarrow> reach ! k \<Longrightarrow> term_of (fn_blocks f ! k) = T_Await fut (Some d) r \<Longrightarrow>
      lat_get lat d = L_Bottom"
proof -
  from settledD(2)[OF assms(1)] obtain nxt where n: "sccp_defs h i ptr_size f reach lat = Some nxt" "lat_map_eq nxt lat" by blast
  have bot: "lat_def lat l L_Bottom \<Longrightarrow> lat_get lat l = L_Bottom" for l by (auto simp: lat_def_def)
  show "p \<in> set (fn_params f) \<Longrightarrow> lat_get lat p = L_Bottom"
    using below_lat_def[OF sccp_defs_below(1)[OF n(1)] n(2) assms(2)] bot by blast
  show "k < length (fn_blocks f) \<Longrightarrow> reach ! k \<Longrightarrow> S_Assign (P_Local l) rv \<in> set (stmts (fn_blocks f ! k)) \<Longrightarrow>
      local_ty f l = Some t \<Longrightarrow> int_ty_of i t ptr_size = Some dest \<Longrightarrow> lat_def lat l (lat_rvalue h rv lat dest)"
    using below_lat_def[OF sccp_defs_below(2)[OF n(1)] n(2) assms(2)] by blast
  show "k < length (fn_blocks f) \<Longrightarrow> reach ! k \<Longrightarrow> term_of (fn_blocks f ! k) = T_Await fut (Some d) r \<Longrightarrow>
      lat_get lat d = L_Bottom"
    using below_lat_def[OF sccp_defs_below(3)[OF n(1)] n(2) assms(2)] bot by blast
qed

lemma assigned_before_readD:
  assumes "assigned_before_read f D" "b < length (fn_blocks f)"
  shows "stmts_assigned (D b) (stmts (fn_blocks f ! b))"
    "term_reads (term_of (fn_blocks f ! b)) \<subseteq> assigned_after (D b) (stmts (fn_blocks f ! b))"
    "t \<in> set (successors (term_of (fn_blocks f ! b))) \<Longrightarrow>
      D t \<subseteq> assigned_after (D b) (stmts (fn_blocks f ! b)) \<union> term_def (term_of (fn_blocks f ! b))"
proof -
  have "(b, fn_blocks f ! b) \<in> set (enumerate 0 (fn_blocks f))" using assms(2) by (simp add: in_set_enumerate_eq)
  with assms(1) have "case (b, fn_blocks f ! b) of (b, blk) \<Rightarrow>
      let A = assigned_after (D b) (stmts blk) in stmts_assigned (D b) (stmts blk) \<and> term_reads (term_of blk) \<subseteq> A \<and>
       list_all (\<lambda>t. D t \<subseteq> A \<union> term_def (term_of blk)) (successors (term_of blk))"
    unfolding assigned_before_read_def list_all_iff by blast
  then show "stmts_assigned (D b) (stmts (fn_blocks f ! b))"
    "term_reads (term_of (fn_blocks f ! b)) \<subseteq> assigned_after (D b) (stmts (fn_blocks f ! b))"
    "t \<in> set (successors (term_of (fn_blocks f ! b))) \<Longrightarrow>
      D t \<subseteq> assigned_after (D b) (stmts (fn_blocks f ! b)) \<union> term_def (term_of (fn_blocks f ! b))"
    by (auto simp: Let_def list_all_iff)
qed

lemma sccp_block_exec:
  assumes res: "sccp_result_ok m h i ptr_size f reach lat" and kn: "distinct (map fst lat)"
    and m: "machine_folds h tys m" "dest_types i ptr_size f tys" "machine_consts m"
    and D: "assigned_before_read f D" and dd: "dests_declared f"
    and b: "b < length (fn_blocks f)" "reach ! b" "length (fn_blocks f) \<le> length reach" and ok: "sccp_ok m lat (D b) s"
  shows "exec_block m (sccp_new_block reach (sccp_known lat) b (fn_blocks f ! b)) s = exec_block m (fn_blocks f ! b) s"
    and "exec_block m (fn_blocks f ! b) s = Jump b' s' \<Longrightarrow> reach ! b' \<and> sccp_ok m lat (D b') s'"
proof -
  let ?blk = "fn_blocks f ! b" and ?kn = "sccp_known lat"
  let ?A = "assigned_after (D b) (stmts ?blk)"
  from res have st: "settled h i ptr_size f reach lat" "exact_lat lat" and al: "consts_alike m ?kn"
    and val: "\<And>l c. m_is_value m l \<Longrightarrow> lat_get lat l \<noteq> L_Const c" by (auto simp: sccp_result_ok_def)
  note da = assigned_before_readD[OF D b(1)]
  have dfn: "lat_def lat l (lat_rvalue h rv lat (tys l))" if "S_Assign (P_Local l) rv \<in> set (stmts ?blk)" for l rv
  proof -
    have "l < length (fn_locals f)" using dd b(1) that by (fastforce simp: dests_declared_def list_all_iff)
    with settled_defs(2)[OF st b(1,2) that] m(2) show ?thesis by (auto simp: dest_types_def local_ty_def)
  qed
  have ss: "exec_stmts m (map (\<lambda>st. fst (subst_stmt_reads ?kn st)) (stmts ?blk)) s = exec_stmts m (stmts ?blk) s"
    "\<And>s1. exec_stmts m (stmts ?blk) s = Next s1 \<Longrightarrow> sccp_ok m lat ?A s1"
    using sccp_stmts_exec[OF ok da(1) m(1) _ _ kn al] dfn val by blast+
  have tm: "exec_term m (case fold_branch (fst (subst_terminator_reads ?kn (term_of ?blk))) of
        Some t' \<Rightarrow> t' | None \<Rightarrow> fst (subst_terminator_reads ?kn (term_of ?blk))) s1 = exec_term m (term_of ?blk) s1"
    if s1: "sccp_ok m lat ?A s1" for s1
  proof -
    have "exec_term m (fst (subst_terminator_reads ?kn (term_of ?blk))) s1 = exec_term m (term_of ?blk) s1"
      using subst_terminator_exec[OF sccp_known_ok[OF s1 kn al]] subst_term_restrict[OF sccp_known_const da(2)] by metis
    moreover have "fold_branch t = constant_branch t" for t by (simp add: fold_branch_def constant_branch_def)
    ultimately show ?thesis using constant_branch_exec[OF m(3)] by (auto split: option.split)
  qed
  have new: "sccp_new_block reach ?kn b ?blk =
      ?blk\<lparr>stmts := map (\<lambda>st. fst (subst_stmt_reads ?kn st)) (stmts ?blk),
        term_of := (case fold_branch (fst (subst_terminator_reads ?kn (term_of ?blk))) of
          Some t' \<Rightarrow> t' | None \<Rightarrow> fst (subst_terminator_reads ?kn (term_of ?blk)))\<rparr>"
    using b by (simp add: sccp_new_block_def sccp_rewrite_cases)
  show "exec_block m (sccp_new_block reach ?kn b ?blk) s = exec_block m ?blk s"
    using ss tm by (auto simp: new exec_block_def split: res.split)
  assume "exec_block m ?blk s = Jump b' s'"
  then obtain s1 where s1: "exec_stmts m (stmts ?blk) s = Next s1" "exec_term m (term_of ?blk) s1 = Jump b' s'"
    by (auto simp: exec_block_def split: res.splits)
  note ok1 = ss(2)[OF s1(1)]
  have "reach ! b'" using settledD(1)[OF st(1) b(1,2) taken_successors_sound[OF ok1 da(2) m(3) s1(2)]] .
  moreover have "sccp_ok m lat (?A \<union> term_def (term_of ?blk)) s'"
    by (rule sccp_ok_term[OF ok1 s1(2)]) (rule settled_defs(3)[OF st b(1,2)])
  with da(3)[OF exec_term_Jump[OF s1(2)]] have "sccp_ok m lat (D b') s'" by (auto intro: sccp_ok_subset)
  ultimately show "reach ! b' \<and> sccp_ok m lat (D b') s'" by simp
qed

lemma sccp_runs:
  assumes "sccp h i ptr_size f = Some (g, c)" "sccp_solve h i ptr_size f = Some (reach, lat)" "simplify_input i f"
    and res: "sccp_result_ok m h i ptr_size f reach lat"
    and m: "machine_folds h tys m" "dest_types i ptr_size f tys" "machine_consts m"
    and D: "assigned_before_read f D"
  shows "runs m f (fn_entry f) s r \<longleftrightarrow> runs m g (fn_entry f) s r"
proof -
  have f: "cfg_ok f" "dests_declared f" using assms(3) by (auto simp: simplify_input_def)
  have e: "fn_entry f < length (fn_blocks f)" using f(1) by (rule cfg_ok_entry)
  then have ne: "fn_blocks f \<noteq> []" by auto
  from sccp_solve_total[OF assms(3), of h ptr_size] assms(2) have re: "reach ! fn_entry f" by auto
  have "keys_ok lat" using assms(2) by (auto simp: sccp_solve_def bind_Some_iff Let_def intro: keys_ok_solve[OF keys_ok_params])
  then have kn: "distinct (map fst lat)" by (rule keys_ok_distinct)
  have "\<exists>reach' lat'. sccp_solve h i ptr_size f = Some (reach', lat') \<and> length (fn_blocks f) \<le> length reach' \<and>
      length (fn_blocks g) = length (fn_blocks f) \<and>
      (\<forall>k < length (fn_blocks f). fn_blocks g ! k = sccp_new_block reach' (sccp_known lat') k (fn_blocks f ! k))"
    by (rule sccp_blocks[OF assms(1) ne]) blast
  with assms(2) have le: "length (fn_blocks f) \<le> length reach" and len: "length (fn_blocks g) = length (fn_blocks f)"
    and nth: "\<And>k. k < length (fn_blocks f) \<Longrightarrow> fn_blocks g ! k = sccp_new_block reach (sccp_known lat) k (fn_blocks f ! k)"
    by auto
  note ex = sccp_block_exec[OF res kn m D f(2)]
  let ?P = "\<lambda>b s. b < length (fn_blocks f) \<and> reach ! b \<and> sccp_ok m lat (D b) s"
  show ?thesis
  proof (rule runs_invariant_cong[where P = ?P])
    have "D (fn_entry f) \<subseteq> set (fn_params f)" using D by (simp add: assigned_before_read_def)
    moreover have "lat_get lat p = L_Bottom" if "p \<in> set (fn_params f)" for p
      using res settled_defs(1)[OF _ _ that] by (auto simp: sccp_result_ok_def)
    ultimately show "?P (fn_entry f) s" using e re by (auto simp: sccp_ok_def)
    fix b s assume P: "?P b s"
    then show "block_step m g b s = block_step m f b s"
      using ex(1)[of b s] nth[of b] le len by (simp add: block_step_def block_def)
    fix b' s' assume j: "block_step m f b s = Jump b' s'"
    then have "b' < length (fn_blocks f)" using cfg_ok_successor[OF f(1)] block_step_Jump[OF j] by (metis nth_mem)
    with P j ex(2)[of b s b' s'] le show "?P b' s'" by (simp add: block_step_def block_def)
  qed
qed

end
