(* ===== verification/Dce_Pass.thy ===== *)
theory Dce_Pass
  imports Mir_Machine
begin

text \<open>
  Dead-code elimination (\<open>crates/dream-mir/src/passes/dce.rs\<close>): blocks unreachable from the entry
  are emptied, assignments to locals that are never read are dropped when their rvalue is pure, and
  so are \<open>Nop\<close>s and self-copies. The lemmas show that the worklist computes reachability, that
  executing a statement depends only on the locals the pass counts as read, and that the pass
  keeps every run that does not panic. The last needs a hypothesis about \<open>Await\<close> terminators,
  whose future operand the pass does not count.
\<close>

section \<open>Unreachable blocks\<close>

function reach_loop :: "mir_function \<Rightarrow> block_id set \<Rightarrow> block_id list \<Rightarrow> block_id set option" where
  "reach_loop f seen [] = Some seen"
| "reach_loop f seen (b # stack) =
     (if b \<in> seen then reach_loop f seen stack
      else (case block f b of
              None \<Rightarrow> None
            | Some blk \<Rightarrow> reach_loop f (insert b seen) (rev (successors (term_of blk)) @ stack)))"
  by pat_completeness auto
termination
proof (relation "measures [\<lambda>(f, seen, stack). card ({..<length (fn_blocks f)} - seen),
    \<lambda>(f, seen, stack). length stack]", simp, simp)
  fix f :: mir_function and seen b stack blk
  assume "b \<notin> seen" "block f b = Some blk"
  then have "b \<in> {..<length (fn_blocks f)} - seen" by (simp add: block_Some_iff)
  then have "{..<length (fn_blocks f)} - insert b seen \<subset> {..<length (fn_blocks f)} - seen" by blast
  then have "card ({..<length (fn_blocks f)} - insert b seen) < card ({..<length (fn_blocks f)} - seen)"
    by (intro psubset_card_mono) auto
  then show "((f, insert b seen, rev (successors (term_of blk)) @ stack), (f, seen, b # stack))
    \<in> measures [\<lambda>(f, seen, stack). card ({..<length (fn_blocks f)} - seen),
      \<lambda>(f, seen, stack). length stack]" by simp
qed

definition reachable_blocks :: "mir_function \<Rightarrow> block_id set option" where
  "reachable_blocks f = reach_loop f {} [fn_entry f]"

definition drop_block :: "block_id set \<Rightarrow> nat \<times> basic_block \<Rightarrow> basic_block \<times> bool" where
  "drop_block live = (\<lambda>(i, blk).
     let already_empty = (stmts blk = [] \<and> term_of blk = T_Unreachable) in
     if i \<notin> live \<and> \<not> already_empty
     then (blk\<lparr>stmts := [], term_of := T_Unreachable\<rparr>, True) else (blk, False))"

definition drop_unreachable_blocks :: "mir_function \<Rightarrow> (mir_function \<times> bool) option" where
  "drop_unreachable_blocks f =
     do {
       live \<leftarrow> reachable_blocks f;
       let rs = map (drop_block live) (enumerate 0 (fn_blocks f));
       Some (f\<lparr>fn_blocks := map fst rs\<rparr>, list_ex snd rs)
     }"

section \<open>The locals a function reads\<close>

fun read_operand :: "operand \<Rightarrow> local set" where
  "read_operand (O_Const c) = {}"
| "read_operand (O_Copy (P_Local l)) = {l}"
| "read_operand (O_Copy (P_Global g)) = {}"
| "read_operand (O_Copy (P_Field base i)) = {base}"
| "read_operand (O_Copy (P_Index base idx u)) = insert base (read_operand idx)"
| "read_operand (O_Copy (P_Deref ptr t)) = {ptr}"

fun read_place_base :: "place \<Rightarrow> local set" where
  "read_place_base (P_Field base i) = {base}"
| "read_place_base (P_Index base idx u) = insert base (read_operand idx)"
| "read_place_base (P_Deref ptr t) = {ptr}"
| "read_place_base (P_Local l) = {}"
| "read_place_base (P_Global g) = {}"

text \<open>An rvalue reads the locals of all its operands, a \<open>Move\<close> its source.\<close>

definition read_rvalue :: "rvalue \<Rightarrow> local set" where
  "read_rvalue rv = set (rvalue_locals rv) \<union> (\<Union>op \<in> set (rvalue_operands rv). read_operand op)"

definition read_stmt :: "statement \<Rightarrow> local set" where
  "read_stmt st =
     (case st of
        S_Assign p rv \<Rightarrow> read_place_base p \<union> read_rvalue rv
      | S_ValueDrop l \<Rightarrow> {l}
      | S_ValueRetain l \<Rightarrow> {l}
      | S_ValueKill l \<Rightarrow> {l}
      | _ \<Rightarrow> (\<Union>op \<in> set (stmt_operands st). read_operand op))"

definition read_terminator :: "terminator \<Rightarrow> local set" where
  "read_terminator t =
     (case t of
        T_If cond _ _ \<Rightarrow> read_operand cond
      | T_Switch v _ _ \<Rightarrow> read_operand v
      | T_Return (Some x) \<Rightarrow> read_operand x
      | T_AsyncComplete (Some x) \<Rightarrow> read_operand x
      | T_TailCall _ args \<Rightarrow> (\<Union>op \<in> set args. read_operand op)
      | _ \<Rightarrow> {})"

definition collect_read_locals :: "mir_function \<Rightarrow> local set" where
  "collect_read_locals f =
     (\<Union>blk \<in> set (fn_blocks f). (\<Union>st \<in> set (stmts blk). read_stmt st) \<union> read_terminator (term_of blk))"

section \<open>Dead assignments\<close>

fun pure_divisor :: "operand \<Rightarrow> bool" where
  "pure_divisor (O_Const (C_Int v)) = (v \<noteq> 0)"
| "pure_divisor (O_Const (C_Long v)) = (v \<noteq> 0)"
| "pure_divisor (O_Const (C_Float v)) = True"
| "pure_divisor (O_Const (C_F32 v)) = True"
| "pure_divisor (O_Const (C_F16 v)) = True"
| "pure_divisor op = False"

definition is_pure :: "rvalue \<Rightarrow> bool" where
  "is_pure rv =
     (case rv of
        R_Binary op a b \<Rightarrow> (if op = B_Div \<or> op = B_Rem then pure_divisor b else True)
      | R_Use _ \<Rightarrow> True
      | R_Select _ _ _ \<Rightarrow> True
      | R_Unary _ _ \<Rightarrow> True
      | R_ArrayLen _ \<Rightarrow> True
      | R_StrLen _ \<Rightarrow> True
      | R_StrByteSize _ \<Rightarrow> True
      | R_CharAt _ _ u \<Rightarrow> u
      | R_ByteAt _ _ u \<Rightarrow> u
      | R_StrBytes _ \<Rightarrow> True
      | R_LoadU8 _ _ n \<Rightarrow> n = None
      | R_LoadU16 _ _ n \<Rightarrow> n = None
      | R_Concat _ \<Rightarrow> True
      | R_ConcatInt _ _ _ \<Rightarrow> True
      | R_EnumName _ _ \<Rightarrow> True
      | R_HashCode _ \<Rightarrow> True
      | R_ToString _ \<Rightarrow> True
      | R_Cast _ _ _ \<Rightarrow> True
      | R_IsType _ _ \<Rightarrow> True
      | R_TypeName _ \<Rightarrow> True
      | R_Discriminant _ _ \<Rightarrow> True
      | R_UnionField _ _ _ _ \<Rightarrow> True
      | R_FuncRef _ \<Rightarrow> True
      | R_Zero _ \<Rightarrow> True
      | _ \<Rightarrow> False)"

definition keep_stmt :: "local set \<Rightarrow> statement \<Rightarrow> bool" where
  "keep_stmt rd st =
     (case st of
        S_Nop \<Rightarrow> False
      | S_Assign (P_Local d) rv \<Rightarrow>
          (if rv = R_Use (O_Copy (P_Local d)) then False else d \<in> rd \<or> \<not> is_pure rv)
      | _ \<Rightarrow> True)"

definition remove_dead_assignments :: "mir_function \<Rightarrow> mir_function \<times> bool" where
  "remove_dead_assignments f =
     (let rd = collect_read_locals f;
          bs = map (\<lambda>blk. blk\<lparr>stmts := filter (keep_stmt rd) (stmts blk)\<rparr>) (fn_blocks f)
      in (f\<lparr>fn_blocks := bs\<rparr>,
          list_ex (\<lambda>blk. length (filter (keep_stmt rd) (stmts blk)) \<noteq> length (stmts blk)) (fn_blocks f)))"

section \<open>The pass\<close>

definition dce :: "mir_function \<Rightarrow> (mir_function \<times> bool) option" where
  "dce f =
     do {
       (f1, c1) \<leftarrow> drop_unreachable_blocks f;
       let (f2, c2) = remove_dead_assignments f1;
       Some (f2, c1 \<or> c2)
     }"

section \<open>The worklist computes reachability\<close>

lemma reach_loop_sound:
  assumes "reach_loop f seen stack = Some R" and "seen \<union> set stack \<subseteq> reachable f"
    and "\<And>a b. a \<in> seen \<Longrightarrow> cfg_edge f a b \<Longrightarrow> b \<in> seen \<union> set stack"
  shows "seen \<union> set stack \<subseteq> R \<and> R \<subseteq> reachable f \<and> (\<forall>a b. a \<in> R \<longrightarrow> cfg_edge f a b \<longrightarrow> b \<in> R)"
  using assms
proof (induction f seen stack rule: reach_loop.induct)
  case (1 f seen)
  then show ?case by auto
next
  case (2 f seen b stack)
  show ?case
  proof (cases "b \<in> seen")
    case True
    have "c \<in> seen \<union> set stack" if "a \<in> seen" "cfg_edge f a c" for a c
      using "2.prems"(3)[OF that] True by auto
    with "2.IH"(1)[OF True] "2.prems"(1,2) True show ?thesis by simp blast
  next
    case False
    from "2.prems"(1) False obtain blk where blk: "block f b = Some blk"
      and r: "reach_loop f (insert b seen) (rev (successors (term_of blk)) @ stack) = Some R"
      by (auto split: option.splits)
    have e: "cfg_edge f b c \<longleftrightarrow> c \<in> set (successors (term_of blk))" for c
      using blk by (auto simp: cfg_edge_def block_Some_iff)
    have "insert b seen \<union> set (rev (successors (term_of blk)) @ stack) \<subseteq> reachable f"
      using "2.prems"(2) e reachable_edge[of b f] by auto
    moreover have "c \<in> insert b seen \<union> set (rev (successors (term_of blk)) @ stack)"
      if "a \<in> insert b seen" "cfg_edge f a c" for a c
      using that "2.prems"(3)[of a c] e by auto
    ultimately show ?thesis using "2.IH"(2)[OF False blk r] by auto
  qed
qed

lemma reachable_blocks_reachable:
  assumes "reachable_blocks f = Some R"
  shows "R = reachable f"
proof -
  from reach_loop_sound[OF assms[unfolded reachable_blocks_def]] have
    r: "fn_entry f \<in> R" "R \<subseteq> reachable f" "\<And>a b. a \<in> R \<Longrightarrow> cfg_edge f a b \<Longrightarrow> b \<in> R" by auto
  have "b \<in> R" if "(cfg_edge f)\<^sup>*\<^sup>* (fn_entry f) b" for b
    using that by (induction rule: rtranclp_induct) (auto intro: r)
  with r(2) show ?thesis by (auto simp: reachable_def)
qed

lemma reach_loop_total:
  "cfg_ok f \<Longrightarrow> \<forall>b \<in> set stack. b < length (fn_blocks f) \<Longrightarrow> reach_loop f seen stack \<noteq> None"
proof (induction f seen stack rule: reach_loop.induct)
  case (2 f seen b stack)
  show ?case
  proof (cases "b \<in> seen")
    case False
    with "2.prems"(2) obtain blk where blk: "block f b = Some blk" by (auto simp: block_def)
    with "2.prems" cfg_ok_successor[of f b] have
      "\<forall>c \<in> set (rev (successors (term_of blk)) @ stack). c < length (fn_blocks f)"
      by (auto simp: block_Some_iff)
    with "2.IH"(2)[OF False blk "2.prems"(1)] blk False show ?thesis by simp
  qed (use 2 in auto)
qed simp

lemma reachable_blocks_total: "cfg_ok f \<Longrightarrow> reachable_blocks f = Some (reachable f)"
  using reach_loop_total[of f "[fn_entry f]" "{}"] reachable_blocks_reachable[of f]
  by (auto simp: reachable_blocks_def)

section \<open>Execution depends on the locals that are read\<close>

definition agree :: "('v, 'h) machine \<Rightarrow> local set \<Rightarrow> ('v, 'h) state \<Rightarrow> ('v, 'h) state \<Rightarrow> bool" where
  "agree m R s t \<longleftrightarrow> heap s = heap t \<and> (\<forall>l. l \<in> R \<or> m_is_value m l \<longrightarrow> loc s l = loc t l)"

lemma agree_refl [simp]: "agree m R s s"
  by (simp add: agree_def)

lemma agree_heap: "agree m R s t \<Longrightarrow> heap s = heap t"
  by (simp add: agree_def)

lemma agree_loc: "agree m R s t \<Longrightarrow> l \<in> R \<Longrightarrow> loc s l = loc t l"
  by (simp add: agree_def)

lemma agree_set_heap: "agree m R s t \<Longrightarrow> agree m R (s\<lparr>heap := h\<rparr>) (t\<lparr>heap := h\<rparr>)"
  by (simp add: agree_def)

lemma eval_operand_agree:
  "agree m R s t \<Longrightarrow> read_operand op \<subseteq> R \<Longrightarrow> eval_operand m s op = eval_operand m t op"
  by (induction op rule: read_operand.induct) (simp_all add: agree_def)

lemma eval_operands_agree:
  "agree m R s t \<Longrightarrow> (\<Union>op \<in> set ops. read_operand op) \<subseteq> R \<Longrightarrow> eval_operands m s ops = eval_operands m t ops"
  by (induction ops) (simp_all add: eval_operand_agree)

lemma place_args_agree:
  assumes "agree m R s t" "read_place_base p \<subseteq> R" and "\<And>l. p = P_Local l \<Longrightarrow> m_is_value m l"
  shows "place_args m s p = place_args m t p"
  using assms eval_operand_agree[OF assms(1)]
  by (cases p) (simp_all add: agree_def)

lemma eval_rvalue_agree:
  assumes "agree m R s t" "read_rvalue rv \<subseteq> R"
  shows "eval_rvalue m p rv s = eval_rvalue m p rv t"
proof -
  have "eval_operands m s (rvalue_operands rv) = eval_operands m t (rvalue_operands rv)"
    using assms eval_operands_agree by (fastforce simp: read_rvalue_def)
  moreover have "map (loc s) (rvalue_locals rv) = map (loc t) (rvalue_locals rv)"
    using assms by (auto simp: agree_def read_rvalue_def)
  ultimately show ?thesis unfolding eval_rvalue_def using agree_heap[OF assms(1)] by (simp only:)
qed

lemma store_place_agree:
  assumes "agree m R s t" "read_place_base p \<subseteq> R" and "\<And>l. p = P_Local l \<Longrightarrow> m_is_value m l"
  shows "rel_option (agree m R) (store_place m p v s) (store_place m p v t)"
  using place_args_agree[OF assms] agree_heap[OF assms(1)] agree_set_heap[OF assms(1)]
  by (auto simp: store_place_def split: Option.bind_split)

lemma write_place_agree:
  assumes "agree m R s t" "read_place_base p \<subseteq> R"
  shows "rel_option (agree m R) (write_place m p v s) (write_place m p v t)"
proof (cases "\<exists>l. p = P_Local l \<and> \<not> m_is_value m l")
  case True
  with assms(1) show ?thesis by (auto simp: write_place_def agree_def)
next
  case False
  then have "write_place m p v s = store_place m p v s" "write_place m p v t = store_place m p v t"
    by (auto simp: write_place_def split: place.splits)
  with store_place_agree[OF assms] False show ?thesis by auto
qed

definition agree_res ::
  "('v, 'h) machine \<Rightarrow> local set \<Rightarrow> ('v, 'h) res \<Rightarrow> ('v, 'h) res \<Rightarrow> bool" where
  "agree_res m R x y =
     (case (x, y) of (Next s, Next t) \<Rightarrow> agree m R s t | (Fault h, Fault k) \<Rightarrow> h = k | _ \<Rightarrow> False)"

lemma exec_assign_agree:
  assumes "agree m R s t" "read_place_base p \<subseteq> R" "read_rvalue rv \<subseteq> R"
  shows "agree_res m R (exec_stmt m (S_Assign p rv) s) (exec_stmt m (S_Assign p rv) t)"
proof (cases "eval_rvalue m p rv t")
  case (Ok v h)
  then show ?thesis
    using write_place_agree[OF agree_set_heap[OF assms(1)] assms(2), of v h] eval_rvalue_agree[OF assms(1,3)]
    by (auto simp: exec_stmt_def agree_res_def option_rel_Some1 option_rel_Some2 split: option.splits)
next
  case (Trap h)
  then show ?thesis using eval_rvalue_agree[OF assms(1,3)] by (simp add: exec_stmt_def agree_res_def)
qed

lemma exec_other_agree:
  assumes "agree m R s t" "(\<Union>op \<in> set (stmt_operands st). read_operand op) \<union> set (stmt_locals st) \<subseteq> R"
    and "\<And>p rv. st \<noteq> S_Assign p rv" "st \<noteq> S_Nop"
  shows "agree_res m R (exec_stmt m st s) (exec_stmt m st t)"
proof -
  have ex: "exec_stmt m st u = (case eval_operands m u (stmt_operands st) of
      None \<Rightarrow> Fault (heap u)
    | Some vs \<Rightarrow> (case m_stmt m (stmt_key st) (map (loc u) (stmt_locals st) @ vs) (heap u) of
        Trap h \<Rightarrow> Fault h | Ok _ h \<Rightarrow> Next (u\<lparr>heap := h\<rparr>)))" for u
    using assms(3,4) by (simp add: exec_stmt_def split: statement.split)
  have "eval_operands m s (stmt_operands st) = eval_operands m t (stmt_operands st)"
    using assms(1,2) eval_operands_agree by fastforce
  moreover have "map (loc s) (stmt_locals st) = map (loc t) (stmt_locals st)"
    using assms(1,2) by (auto simp: agree_def)
  ultimately have "agree_res m R (exec_stmt m st s) (exec_stmt m st t) =
    agree_res m R (case eval_operands m t (stmt_operands st) of
      None \<Rightarrow> Fault (heap t)
    | Some vs \<Rightarrow> (case m_stmt m (stmt_key st) (map (loc t) (stmt_locals st) @ vs) (heap t) of
        Trap h \<Rightarrow> Fault h | Ok _ h \<Rightarrow> Next (s\<lparr>heap := h\<rparr>))) (exec_stmt m st t)"
    unfolding ex using agree_heap[OF assms(1)] by (simp only:)
  then show ?thesis
    using agree_set_heap[OF assms(1)] by (simp add: ex agree_res_def split: option.splits eff.splits)
qed

lemma exec_stmt_agree:
  assumes "agree m R s t" "read_stmt st \<subseteq> R"
  shows "agree_res m R (exec_stmt m st s) (exec_stmt m st t)"
proof (cases "(\<exists>p rv. st = S_Assign p rv) \<or> st = S_Nop")
  case True
  then consider p rv where "st = S_Assign p rv" | "st = S_Nop" by blast
  then show ?thesis
  proof cases
    case 1
    with assms show ?thesis by (auto simp: read_stmt_def intro: exec_assign_agree)
  next
    case 2
    with assms(1) show ?thesis by (simp add: exec_stmt_def agree_res_def)
  qed
next
  case False
  have "(\<Union>op \<in> set (stmt_operands st). read_operand op) \<union> set (stmt_locals st) \<subseteq> R"
    using assms(2) False by (cases st) (simp_all add: read_stmt_def stmt_locals_def)
  with False assms(1) show ?thesis by (intro exec_other_agree) auto
qed

lemma eval_result_agree:
  "agree m R s t \<Longrightarrow> (\<And>x. v = Some x \<Longrightarrow> read_operand x \<subseteq> R) \<Longrightarrow> eval_result m s v = eval_result m t v"
  by (cases v) (simp_all add: eval_result_def eval_operand_agree)

text \<open>Terminators: an \<open>Await\<close> reads its future, which the pass does not count.\<close>

definition await_reads :: "terminator \<Rightarrow> local set" where
  "await_reads t = (case t of T_Await fut _ _ \<Rightarrow> read_operand fut | _ \<Rightarrow> {})"

definition agree_step ::
  "('v, 'h) machine \<Rightarrow> local set \<Rightarrow> ('v, 'h) step \<Rightarrow> ('v, 'h) step \<Rightarrow> bool" where
  "agree_step m R x y =
     (case (x, y) of
        (Jump b s, Jump c t) \<Rightarrow> b = c \<and> agree m R s t
      | (Stop r, Stop q) \<Rightarrow> r = q
      | (Stuck, Stuck) \<Rightarrow> True
      | _ \<Rightarrow> False)"

lemma exec_await_agree:
  assumes "agree m R s t" "read_operand fut \<subseteq> R"
  shows "agree_step m R (exec_term m (T_Await fut dest resume) s) (exec_term m (T_Await fut dest resume) t)"
proof (cases "eval_operand m t fut")
  case None
  then show ?thesis
    using eval_operand_agree[OF assms] agree_heap[OF assms(1)] by (simp add: exec_term_def agree_step_def)
next
  case (Some v)
  note ev = eval_operand_agree[OF assms] agree_heap[OF assms(1)] Some
  show ?thesis
  proof (cases "m_await m v (heap t)")
    case (Trap h)
    then show ?thesis using ev by (simp add: exec_term_def agree_step_def)
  next
    case (Ok r h)
    note hp = agree_set_heap[OF assms(1), of h]
    show ?thesis
    proof (cases dest)
      case None
      then show ?thesis using ev Ok hp by (simp add: exec_term_def agree_step_def)
    next
      case (Some d)
      have "rel_option (agree m R) (write_place m (P_Local d) r (s\<lparr>heap := h\<rparr>))
          (write_place m (P_Local d) r (t\<lparr>heap := h\<rparr>))"
        by (rule write_place_agree[OF hp]) simp
      then show ?thesis
        using ev Ok Some by (cases rule: option.rel_cases) (simp_all add: exec_term_def agree_step_def)
    qed
  qed
qed

lemma exec_term_agree:
  assumes "agree m R s t" "read_terminator tm \<union> await_reads tm \<subseteq> R"
  shows "agree_step m R (exec_term m tm s) (exec_term m tm t)"
proof (cases tm)
  case (T_Await fut dest resume)
  with assms show ?thesis by (auto simp: await_reads_def intro: exec_await_agree)
next
  case (T_Return v)
  have "eval_result m s v = eval_result m t v"
    using assms T_Return by (intro eval_result_agree) (auto simp: read_terminator_def)
  then show ?thesis
    using T_Return agree_heap[OF assms(1)] by (simp add: exec_term_def agree_step_def split: option.splits)
next
  case (T_AsyncComplete v)
  have "eval_result m s v = eval_result m t v"
    using assms T_AsyncComplete by (intro eval_result_agree) (auto simp: read_terminator_def)
  then show ?thesis
    using T_AsyncComplete agree_heap[OF assms(1)] by (simp add: exec_term_def agree_step_def split: option.splits)
next
  case (T_TailCall c args)
  have "eval_operands m s args = eval_operands m t args"
    using assms T_TailCall by (intro eval_operands_agree) (auto simp: read_terminator_def)
  then show ?thesis
    using T_TailCall agree_heap[OF assms(1)]
    by (simp add: exec_term_def agree_step_def split: option.splits eff.splits)
next
  case (T_If c b e)
  have "eval_operand m s c = eval_operand m t c"
    using assms T_If by (intro eval_operand_agree) (auto simp: read_terminator_def)
  then show ?thesis
    using T_If assms(1) agree_heap[OF assms(1)] by (simp add: exec_term_def agree_step_def split: option.splits)
next
  case (T_Switch c ts d)
  have "eval_operand m s c = eval_operand m t c"
    using assms T_Switch by (intro eval_operand_agree) (auto simp: read_terminator_def)
  then show ?thesis
    using T_Switch assms(1) agree_heap[OF assms(1)] by (simp add: exec_term_def agree_step_def split: option.splits)
qed (use assms in \<open>simp_all add: exec_term_def agree_step_def\<close>)

section \<open>Dropped statements do nothing that is read\<close>

text \<open>The contract of \<open>is_pure\<close>: evaluating such an rvalue leaves the heap as it was.\<close>

definition machine_pure :: "('v, 'h) machine \<Rightarrow> bool" where
  "machine_pure m \<longleftrightarrow>
     (\<forall>p rv vs h v h'. is_pure rv \<longrightarrow> m_rvalue m p (rvalue_key rv) vs h = Ok v h' \<longrightarrow> h' = h)"

text \<open>Every assignment to a value-typed local, which is a store to its slot, is kept.\<close>

definition slots_kept :: "('v, 'h) machine \<Rightarrow> mir_function \<Rightarrow> bool" where
  "slots_kept m f \<longleftrightarrow>
     list_all (\<lambda>blk. list_all (\<lambda>st. case st of
         S_Assign (P_Local d) _ \<Rightarrow> m_is_value m d \<longrightarrow> keep_stmt (collect_read_locals f) st
       | _ \<Rightarrow> True) (stmts blk)) (fn_blocks f)"

lemma eval_rvalue_pure:
  "machine_pure m \<Longrightarrow> is_pure rv \<Longrightarrow> eval_rvalue m p rv s = Ok v h \<Longrightarrow> h = heap s"
  unfolding eval_rvalue_def machine_pure_def by (cases rv) (auto split: option.splits)

lemma exec_dropped_agree:
  assumes "machine_pure m" "\<not> keep_stmt R st" "agree m R s t" "exec_stmt m st s = Next s'"
    and "\<And>d rv. st = S_Assign (P_Local d) rv \<Longrightarrow> \<not> m_is_value m d"
  shows "agree m R s' t"
proof -
  consider "st = S_Nop" | d where "st = S_Assign (P_Local d) (R_Use (O_Copy (P_Local d)))"
    | d rv where "st = S_Assign (P_Local d) rv" "d \<notin> R" "is_pure rv"
    using assms(2) by (auto simp: keep_stmt_def split: statement.splits place.splits if_splits)
  then show ?thesis
  proof cases
    case 1
    with assms(3,4) show ?thesis by (simp add: exec_stmt_def)
  next
    case 2
    with assms(3-5) show ?thesis
      by (simp add: exec_stmt_def eval_rvalue_def write_place_def)
  next
    case 3
    from 3(1) assms(4) obtain v h where ok: "eval_rvalue m (P_Local d) rv s = Ok v h"
      "write_place m (P_Local d) v (s\<lparr>heap := h\<rparr>) = Some s'"
      by (auto simp: exec_stmt_def split: eff.splits option.splits)
    from eval_rvalue_pure[OF assms(1) 3(3) ok(1)] have "h = heap s" .
    with ok(2) assms(5)[OF 3(1)] have "s' = s\<lparr>loc := (loc s)(d := v)\<rparr>" by (auto simp: write_place_def)
    with assms(3) 3(2) assms(5)[OF 3(1)] show ?thesis by (auto simp: agree_def)
  qed
qed

lemma exec_filter_agree:
  assumes "machine_pure m" "(\<Union>st \<in> set ss. read_stmt st) \<subseteq> R"
    and "\<And>d rv. S_Assign (P_Local d) rv \<in> set ss \<Longrightarrow> m_is_value m d \<Longrightarrow> keep_stmt R (S_Assign (P_Local d) rv)"
    and "agree m R s t"
  shows "case exec_stmts m ss s of
      Next s' \<Rightarrow> (\<exists>t'. exec_stmts m (filter (keep_stmt R) ss) t = Next t' \<and> agree m R s' t')
    | Fault h \<Rightarrow> True"
  using assms(2-)
proof (induction ss arbitrary: s t)
  case (Cons st ss)
  show ?case
  proof (cases "exec_stmt m st s")
    case (Next s1)
    show ?thesis
    proof (cases "keep_stmt R st")
      case True
      from exec_stmt_agree[OF Cons.prems(3), of st] Cons.prems(1) Next obtain t1 where
        "exec_stmt m st t = Next t1" "agree m R s1 t1"
        by (auto simp: agree_res_def split: res.splits)
      with True Next Cons.IH[of s1 t1] Cons.prems show ?thesis by (simp split: res.splits)
    next
      case False
      have "agree m R s1 t"
        by (rule exec_dropped_agree[OF assms(1) False Cons.prems(3) Next]) (use False Cons.prems(2) in auto)
      with False Next Cons.IH[of s1 t] Cons.prems show ?thesis by (simp split: res.splits)
    qed
  qed simp
qed simp

section \<open>The pass keeps the runs\<close>

definition awaits_read :: "mir_function \<Rightarrow> bool" where
  "awaits_read f \<longleftrightarrow> list_all (\<lambda>blk. await_reads (term_of blk) \<subseteq> collect_read_locals f) (fn_blocks f)"

lemma drop_unreachable_block:
  assumes "drop_unreachable_blocks f = Some (g, c)"
  shows "g = f\<lparr>fn_blocks := fn_blocks g\<rparr>" "length (fn_blocks g) = length (fn_blocks f)"
    and "b < length (fn_blocks f) \<Longrightarrow> fn_blocks g ! b =
      (if b \<in> reachable f then fn_blocks f ! b else \<lparr>stmts = [], term_of = T_Unreachable\<rparr>)"
proof -
  from assms obtain R where R: "reachable_blocks f = Some R"
    and g: "g = f\<lparr>fn_blocks := map fst (map (drop_block R) (enumerate 0 (fn_blocks f)))\<rparr>"
    by (auto simp: drop_unreachable_blocks_def bind_Some_iff Let_def)
  note r = reachable_blocks_reachable[OF R]
  show "g = f\<lparr>fn_blocks := fn_blocks g\<rparr>" "length (fn_blocks g) = length (fn_blocks f)" by (simp_all add: g)
  show "b < length (fn_blocks f) \<Longrightarrow> fn_blocks g ! b =
      (if b \<in> reachable f then fn_blocks f ! b else \<lparr>stmts = [], term_of = T_Unreachable\<rparr>)"
    by (cases "fn_blocks f ! b") (auto simp: g r drop_block_def nth_enumerate_eq Let_def)
qed

lemma remove_dead_block:
  "b < length (fn_blocks f) \<Longrightarrow> fn_blocks (fst (remove_dead_assignments f)) ! b =
     (fn_blocks f ! b)\<lparr>stmts := filter (keep_stmt (collect_read_locals f)) (stmts (fn_blocks f ! b))\<rparr>"
  by (simp add: remove_dead_assignments_def Let_def)

lemma collect_read_block:
  assumes "blk \<in> set (fn_blocks f)"
  shows "(\<Union>st \<in> set (stmts blk). read_stmt st) \<subseteq> collect_read_locals f"
    and "read_terminator (term_of blk) \<subseteq> collect_read_locals f"
  using assms by (auto simp: collect_read_locals_def)

lemma exec_block_dce:
  assumes "machine_pure m" "slots_kept m f" "awaits_read f" "blk \<in> set (fn_blocks f)"
    and "agree m (collect_read_locals f) s t"
  shows "case exec_block m blk s of
      Stop r \<Rightarrow> is_panic r \<or> exec_block m (blk\<lparr>stmts := filter (keep_stmt (collect_read_locals f)) (stmts blk)\<rparr>) t = Stop r
    | Jump b s' \<Rightarrow> (\<exists>t'. exec_block m (blk\<lparr>stmts := filter (keep_stmt (collect_read_locals f)) (stmts blk)\<rparr>) t = Jump b t' \<and>
        agree m (collect_read_locals f) s' t')
    | Stuck \<Rightarrow> exec_block m (blk\<lparr>stmts := filter (keep_stmt (collect_read_locals f)) (stmts blk)\<rparr>) t = Stuck"
proof (cases "exec_stmts m (stmts blk) s")
  case (Fault h)
  then show ?thesis by (simp add: exec_block_def)
next
  case (Next s1)
  let ?R = "collect_read_locals f"
  have keep: "keep_stmt ?R (S_Assign (P_Local d) rv)"
    if "S_Assign (P_Local d) rv \<in> set (stmts blk)" "m_is_value m d" for d rv
    using assms(2,4) that by (force simp: slots_kept_def list_all_iff)
  from exec_filter_agree[OF assms(1) collect_read_block(1)[OF assms(4)] keep assms(5)] Next obtain t1 where
    t1: "exec_stmts m (filter (keep_stmt ?R) (stmts blk)) t = Next t1" "agree m ?R s1 t1" by auto
  have "agree_step m ?R (exec_term m (term_of blk) s1) (exec_term m (term_of blk) t1)"
    using collect_read_block(2)[OF assms(4)] assms(3,4)
    by (intro exec_term_agree[OF t1(2)]) (auto simp: awaits_read_def list_all_iff)
  with Next t1(1) show ?thesis
    by (auto simp: exec_block_def agree_step_def split: step.splits)
qed

lemma dce_refines_lemma:
  assumes "dce f = Some (g, c)" "drop_unreachable_blocks f = Some (f1, c1)"
    and "machine_pure m" "slots_kept m f1" "awaits_read f1"
  shows "refines m f g"
proof -
  let ?R = "collect_read_locals f1"
  note dr = drop_unreachable_block[OF assms(2)]
  from assms(1,2) have g: "g = fst (remove_dead_assignments f1)"
    by (auto simp: dce_def case_prod_beta Let_def)
  have lg: "length (fn_blocks g) = length (fn_blocks f)" and eg: "fn_entry g = fn_entry f"
    using dr(2) arg_cong[OF dr(1), of fn_entry] by (simp_all add: g remove_dead_assignments_def Let_def)
  have step: "case block_step m f b s of
      Stop r \<Rightarrow> is_panic r \<or> block_step m g b t = Stop r
    | Jump b' s' \<Rightarrow> b' \<in> reachable f \<and> (\<exists>t'. block_step m g b t = Jump b' t' \<and> agree m ?R s' t')
    | Stuck \<Rightarrow> block_step m g b t = Stuck"
    if "b \<in> reachable f" "agree m ?R s t" for b s t
  proof (cases "b < length (fn_blocks f)")
    case True
    have f1: "fn_blocks f1 ! b = fn_blocks f ! b" using dr(3)[OF True] that(1) by simp
    then have "fn_blocks f ! b \<in> set (fn_blocks f1)" using True dr(2) by (metis nth_mem)
    moreover have "block_step m f b s = exec_block m (fn_blocks f ! b) s"
      "block_step m g b t = exec_block m ((fn_blocks f ! b)\<lparr>stmts := filter (keep_stmt ?R) (stmts (fn_blocks f ! b))\<rparr>) t"
      using True dr(2) lg f1 remove_dead_block[of b f1] by (simp_all add: block_step_def block_def g)
    ultimately have
      ex: "case block_step m f b s of
        Stop r \<Rightarrow> is_panic r \<or> block_step m g b t = Stop r
      | Jump b' s' \<Rightarrow> (\<exists>t'. block_step m g b t = Jump b' t' \<and> agree m ?R s' t')
      | Stuck \<Rightarrow> block_step m g b t = Stuck"
      using exec_block_dce[OF assms(3-5) _ that(2), of "fn_blocks f ! b"] by presburger
    have "b' \<in> reachable f" if "block_step m f b s = Jump b' s'" for b' s'
      using block_step_Jump[OF that] \<open>b \<in> reachable f\<close> reachable_edge[of b f b'] by (simp add: cfg_edge_def)
    with ex show ?thesis by (auto split: step.splits)
  next
    case False
    with lg show ?thesis by (simp add: block_step_def block_def)
  qed
  have entry: "fn_entry f \<in> reachable f" by simp
  have start: "agree m ?R s s" for s by simp
  note sim = refines_sim[where B = "reachable f" and R = "\<lambda>b. agree m ?R" and S = "\<lambda>_. True",
      OF step entry eg start]
  show ?thesis unfolding refines_def refines_at_def using sim eg by metis
qed

lemma dce_total: "cfg_ok f \<Longrightarrow> dce f \<noteq> None"
  by (simp add: dce_def drop_unreachable_blocks_def reachable_blocks_total Let_def case_prod_beta)

lemma dce_unchanged:
  assumes "dce f = Some (g, False)"
  shows "g = f"
proof -
  from assms obtain f1 where f1: "drop_unreachable_blocks f = Some (f1, False)"
    and g: "g = fst (remove_dead_assignments f1)" "\<not> snd (remove_dead_assignments f1)"
    by (auto simp: dce_def bind_Some_iff case_prod_beta Let_def)
  from f1 obtain R where R: "\<forall>p \<in> set (enumerate 0 (fn_blocks f)). \<not> snd (drop_block R p)"
    "f1 = f\<lparr>fn_blocks := map (fst \<circ> drop_block R) (enumerate 0 (fn_blocks f))\<rparr>"
    by (auto simp: drop_unreachable_blocks_def bind_Some_iff Let_def list_ex_iff)
  have "map (fst \<circ> drop_block R) (enumerate 0 (fn_blocks f)) = map snd (enumerate 0 (fn_blocks f))"
    using R(1) by (intro map_cong) (auto simp: drop_block_def Let_def split: if_splits)
  with R(2) have "f1 = f" by simp
  moreover have "fst (remove_dead_assignments f1) = f1"
  proof -
    have whole: "length (filter P xs) = length xs \<Longrightarrow> filter P xs = xs" for P and xs :: "statement list"
      using length_filter_less[of _ xs P] by (fastforce simp: filter_id_conv)
    from g(2) have "filter (keep_stmt (collect_read_locals f1)) (stmts blk) = stmts blk"
      if "blk \<in> set (fn_blocks f1)" for blk
      using that by (auto simp: remove_dead_assignments_def Let_def list_ex_iff intro: whole)
    then have "map (\<lambda>blk. blk\<lparr>stmts := filter (keep_stmt (collect_read_locals f1)) (stmts blk)\<rparr>) (fn_blocks f1) = fn_blocks f1"
      by (intro map_idI) simp
    then show ?thesis by (simp add: remove_dead_assignments_def Let_def)
  qed
  ultimately show ?thesis using g(1) by simp
qed

text \<open>
  The input the pass is correct for: valid control flow, no dropped store to a value-typed local,
  and no future that is read by an \<open>Await\<close> alone.
\<close>

definition dce_input :: "('v, 'h) machine \<Rightarrow> mir_function \<Rightarrow> bool" where
  "dce_input m f \<longleftrightarrow>
     cfg_ok f \<and>
     (case drop_unreachable_blocks f of
        None \<Rightarrow> False
      | Some (f1, _) \<Rightarrow> slots_kept m f1 \<and> awaits_read f1)"

lemma dce_correct_lemma:
  assumes "dce_input m f" "machine_pure m"
  shows "\<exists>g c. dce f = Some (g, c) \<and> refines m f g"
proof -
  from assms(1) obtain f1 c1 where f1: "drop_unreachable_blocks f = Some (f1, c1)"
    "slots_kept m f1" "awaits_read f1" and ok: "cfg_ok f"
    by (auto simp: dce_input_def split: option.splits)
  from dce_total[OF ok] obtain g c where g: "dce f = Some (g, c)" by auto
  with dce_refines_lemma[OF g f1(1) assms(2) f1(2,3)] show ?thesis by blast
qed

end
