(* ===== verification/Algebraic_Pass.thy ===== *)
theory Algebraic_Pass
  imports Const_Fold
begin

unbundle bit_operations_syntax

text \<open>
  Algebraic identities and strength reduction (\<open>crates/dream-mir/src/passes/algebraic.rs\<close>). The
  lemmas evaluate the rewritten and the original operation on machine words (with the reference
  \<open>word_binop\<close> of \<open>Const_Fold\<close>) and on booleans and show that they agree for every contents of
  the operands, including the traps of a division.
\<close>

section \<open>The rewriter\<close>

definition is_unsigned :: "type_interner \<Rightarrow> type_id \<Rightarrow> bool option" where
  "is_unsigned i t =
     map_option (\<lambda>k. case k of K_Prim p \<Rightarrow> p \<in> {PUInt, PULong, PUSize, PByte} | _ \<Rightarrow> False) (kind i t)"

definition is_float :: "type_interner \<Rightarrow> type_id \<Rightarrow> bool option" where
  "is_float i t = map_option (\<lambda>k. case k of K_Prim p \<Rightarrow> prim_is_float p | _ \<Rightarrow> False) (kind i t)"

definition bool_val :: "operand \<Rightarrow> bool option" where
  "bool_val op = (case op of O_Const (C_Bool b) \<Rightarrow> Some b | _ \<Rightarrow> None)"

definition int_val :: "operand \<Rightarrow> int option" where
  "int_val op = (case op of O_Const (C_Int v) \<Rightarrow> Some v | O_Const (C_Long v) \<Rightarrow> Some v | _ \<Rightarrow> None)"

definition is_int_const :: "operand \<Rightarrow> bool" where
  "is_int_const op = (case op of O_Const (C_Int _) \<Rightarrow> True | O_Const (C_Long _) \<Rightarrow> True | _ \<Rightarrow> False)"

definition shift_const :: "operand \<Rightarrow> int \<Rightarrow> operand" where
  "shift_const factor k =
     (case factor of O_Const (C_Long _) \<Rightarrow> O_Const (C_Long k) | _ \<Rightarrow> O_Const (C_Int k))"

fun trailing_zeros :: "nat \<Rightarrow> nat" where
  "trailing_zeros n = (if n = 0 then 64 else if odd n then 0 else Suc (trailing_zeros (n div 2)))"

declare trailing_zeros.simps [simp del]

definition log2_pow2 :: "int \<Rightarrow> int option" where
  "log2_pow2 v =
     (if 1 < v \<and> v AND (v - 1) = 0 then Some (int (trailing_zeros (nat v))) else None)"

definition mask_const :: "operand \<Rightarrow> int \<Rightarrow> operand" where
  "mask_const operand k =
     (let m = push_bit (nat k) 1 - 1 in
      case operand of O_Const (C_Long _) \<Rightarrow> O_Const (C_Long m) | _ \<Rightarrow> O_Const (C_Int m))"

text \<open>The first \<open>match\<close> of \<open>simplify\<close>: identities against a boolean constant.\<close>

definition simplify_bool :: "bin_op \<Rightarrow> operand \<Rightarrow> operand \<Rightarrow> rvalue option" where
  "simplify_bool op a b =
     (case op of
        B_And \<Rightarrow>
          (if bool_val b = Some True then Some (R_Use a)
           else if bool_val a = Some True then Some (R_Use b)
           else if bool_val b = Some False \<or> bool_val a = Some False
                then Some (R_Use (O_Const (C_Bool False)))
           else None)
      | B_Or \<Rightarrow>
          (if bool_val b = Some False then Some (R_Use a)
           else if bool_val a = Some False then Some (R_Use b)
           else if bool_val b = Some True \<or> bool_val a = Some True
                then Some (R_Use (O_Const (C_Bool True)))
           else None)
      | B_Eq \<Rightarrow>
          (if bool_val b = Some True then Some (R_Use a)
           else if bool_val a = Some True then Some (R_Use b)
           else if bool_val b = Some False then Some (R_Unary U_Not a)
           else if bool_val a = Some False then Some (R_Unary U_Not b)
           else None)
      | B_Ne \<Rightarrow>
          (if bool_val b = Some False then Some (R_Use a)
           else if bool_val a = Some False then Some (R_Use b)
           else if bool_val b = Some True then Some (R_Unary U_Not a)
           else if bool_val a = Some True then Some (R_Unary U_Not b)
           else None)
      | _ \<Rightarrow> None)"

text \<open>The second \<open>match\<close>: integer identities and strength reduction.\<close>

definition simplify_int :: "bin_op \<Rightarrow> operand \<Rightarrow> operand \<Rightarrow> bool \<Rightarrow> rvalue option" where
  "simplify_int op a b uns =
     (let ac = int_val a; bc = int_val b in
      case op of
        B_Add \<Rightarrow>
          (if bc = Some 0 then Some (R_Use a)
           else if ac = Some 0 then Some (R_Use b) else None)
      | B_Sub \<Rightarrow> (if bc = Some 0 then Some (R_Use a) else None)
      | B_Mul \<Rightarrow>
          (if bc = Some 0 \<and> is_int_const b then Some (R_Use b)
           else if ac = Some 0 \<and> is_int_const a then Some (R_Use a)
           else if bc = Some 1 then Some (R_Use a)
           else if ac = Some 1 then Some (R_Use b)
           else (case Option.bind bc log2_pow2 of
               Some k \<Rightarrow> Some (R_Binary B_Shl a (shift_const b k))
             | None \<Rightarrow> (case Option.bind ac log2_pow2 of
                 Some k \<Rightarrow> Some (R_Binary B_Shl b (shift_const a k))
               | None \<Rightarrow> None)))
      | B_Div \<Rightarrow>
          (if bc = Some 1 then Some (R_Use a)
           else (case (if uns then Option.bind bc log2_pow2 else None) of
               Some k \<Rightarrow> Some (R_Binary B_Shr a (shift_const b k))
             | None \<Rightarrow> None))
      | B_Rem \<Rightarrow>
          (case (if uns then Option.bind bc log2_pow2 else None) of
             Some k \<Rightarrow> Some (R_Binary B_BitAnd a (mask_const b k))
           | None \<Rightarrow> None)
      | B_BitOr \<Rightarrow>
          (if bc = Some 0 then Some (R_Use a)
           else if ac = Some 0 then Some (R_Use b) else None)
      | B_BitXor \<Rightarrow>
          (if bc = Some 0 then Some (R_Use a)
           else if ac = Some 0 then Some (R_Use b) else None)
      | B_BitAnd \<Rightarrow>
          (if bc = Some 0 \<and> is_int_const b then Some (R_Use b)
           else if ac = Some 0 \<and> is_int_const a then Some (R_Use a) else None)
      | B_Shl \<Rightarrow> (if bc = Some 0 then Some (R_Use a) else None)
      | B_Shr \<Rightarrow> (if bc = Some 0 then Some (R_Use a) else None)
      | _ \<Rightarrow> None)"

definition simplify :: "rvalue \<Rightarrow> bool \<Rightarrow> rvalue option" where
  "simplify rv uns =
     (case rv of
        R_Binary op a b \<Rightarrow>
          (case simplify_bool op a b of
             Some r \<Rightarrow> Some r
           | None \<Rightarrow> simplify_int op a b uns)
      | _ \<Rightarrow> None)"

section \<open>The pass\<close>

text \<open>The type of the destination, where it is a plain local.\<close>

definition dest_ty :: "type_id list \<Rightarrow> place \<Rightarrow> type_id option option" where
  "dest_ty local_tys p =
     (case p of P_Local l \<Rightarrow> map_option Some (nth_opt local_tys l) | _ \<Rightarrow> Some None)"

definition algebraic_stmt ::
  "type_interner \<Rightarrow> type_id list \<Rightarrow> statement \<Rightarrow> (statement \<times> bool) option" where
  "algebraic_stmt i local_tys s =
     (case s of
        S_Assign p rv \<Rightarrow>
          do {
            dt \<leftarrow> dest_ty local_tys p;
            fl \<leftarrow> (case dt of Some t \<Rightarrow> is_float i t | None \<Rightarrow> Some False);
            if fl then Some (s, False)
            else do {
              uns \<leftarrow> (case dt of Some t \<Rightarrow> is_unsigned i t | None \<Rightarrow> Some False);
              (case simplify rv uns of
                 Some simpler \<Rightarrow> Some (S_Assign p simpler, True)
               | None \<Rightarrow> Some (s, False))
            }
          }
      | _ \<Rightarrow> Some (s, False))"

definition algebraic :: "type_interner \<Rightarrow> mir_function \<Rightarrow> (mir_function \<times> bool) option" where
  "algebraic i f =
     do {
       (bs, changed) \<leftarrow> map_changed (\<lambda>blk.
           do {
             (ss, c) \<leftarrow> map_changed (algebraic_stmt i (map ld_ty (fn_locals f))) (stmts blk);
             Some (blk\<lparr>stmts := ss\<rparr>, c)
           }) (fn_blocks f);
       Some (f\<lparr>fn_blocks := bs\<rparr>, changed)
     }"

section \<open>Powers of two\<close>

lemma half_and: "(a AND b) div 2 = (a div 2) AND (b div 2)" for a b :: nat
  using drop_bit_and[of 1 a b] by (simp add: drop_bit_eq_div)

lemma pow2_nat: "n AND (n - 1) = 0 \<Longrightarrow> 0 < n \<Longrightarrow> n = 2 ^ trailing_zeros n" for n :: nat
proof (induction n rule: trailing_zeros.induct)
  case (1 n)
  show ?case
  proof (cases "odd n")
    case True
    then obtain m where m: "n = 2 * m + 1" by (auto elim: oddE)
    have "(n AND (n - 1)) div 2 = m" using m by (simp add: half_and)
    with "1.prems"(1) have "m = 0" by simp
    then show ?thesis using m by (simp add: trailing_zeros.simps)
  next
    case False
    then obtain m where m: "n = 2 * m" by (auto elim: evenE)
    with "1.prems"(2) have pos: "0 < m" by simp
    have "(n AND (n - 1)) div 2 = m AND (m - 1)"
      using m pos by (cases m) (simp_all add: half_and)
    with "1.prems"(1) have "m AND (m - 1) = 0" by simp
    with "1.IH" False m pos have "m = 2 ^ trailing_zeros m" by simp
    moreover have "trailing_zeros n = Suc (trailing_zeros m)"
      using m pos by (simp add: trailing_zeros.simps[of "2 * m"])
    ultimately show ?thesis using m by simp
  qed
qed

lemma log2_pow2_Some:
  assumes "log2_pow2 v = Some k"
  shows "0 < k \<and> v = 2 ^ nat k"
proof -
  from assms have v: "1 < v" "v AND (v - 1) = 0" "k = int (trailing_zeros (nat v))"
    by (auto simp: log2_pow2_def split: if_splits)
  have "int (nat v AND (nat v - 1)) = v AND (v - 1)"
    using v(1) by (simp add: of_nat_and_eq of_nat_diff)
  with v(2) have "nat v AND (nat v - 1) = 0" by simp
  with v(1) have p: "nat v = 2 ^ trailing_zeros (nat v)" by (intro pow2_nat) auto
  then have "v = 2 ^ nat k" using v(1,3) by (metis int_nat_eq less_le_not_le nat_int of_nat_numeral
    of_nat_power order_trans zero_le_one linorder_linear)
  moreover have "0 < k" using p v(1,3) by (cases "trailing_zeros (nat v)") auto
  ultimately show ?thesis by simp
qed

section \<open>The rewrites on machine words\<close>

text \<open>
  An operand's register contents: a constant's word, or whatever the environment holds at the
  place. \<open>None\<close> is the trap of a division by zero.
\<close>

definition operand_word :: "(place \<Rightarrow> 'a::len word) \<Rightarrow> operand \<Rightarrow> 'a word" where
  "operand_word env op = (case op of O_Const c \<Rightarrow> const_word c | O_Copy p \<Rightarrow> env p)"

definition eval_word :: "bool \<Rightarrow> (place \<Rightarrow> 'a::len word) \<Rightarrow> rvalue \<Rightarrow> 'a word option" where
  "eval_word is_signed env rv =
     (case rv of
        R_Use a \<Rightarrow> Some (operand_word env a)
      | R_Binary op a b \<Rightarrow> word_binop is_signed op (operand_word env a) (operand_word env b)
      | _ \<Rightarrow> None)"

text \<open>The constants of an operation at type \<open>ty\<close> have its width and are canonical.\<close>

definition operand_canonical :: "int_ty \<Rightarrow> operand \<Rightarrow> bool" where
  "operand_canonical ty op =
     (case op of
        O_Const (C_Int p) \<Rightarrow> \<not> it_is_64 ty \<and> it_canonical ty p
      | O_Const (C_Long p) \<Rightarrow> it_is_64 ty \<and> it_canonical ty p
      | _ \<Rightarrow> True)"

lemma operand_word_int_val:
  "int_val op = Some v \<Longrightarrow> operand_word env op = word_of_int v"
  by (auto simp: int_val_def operand_word_def const_word_def split: operand.splits const.splits)

lemma operand_canonical_int_val:
  "operand_canonical ty op \<Longrightarrow> int_val op = Some v \<Longrightarrow> it_canonical ty v"
  by (auto simp: int_val_def operand_canonical_def split: operand.splits const.splits)

lemma operand_word_shift_const [simp]: "operand_word env (shift_const op k) = word_of_int k"
  by (simp add: shift_const_def operand_word_def const_word_def split: operand.splits const.splits)

lemma operand_word_mask_const [simp]:
  "operand_word env (mask_const op k) = word_of_int (2 ^ nat k - 1)"
  by (simp add: mask_const_def operand_word_def const_word_def Let_def push_bit_eq_mult
      split: operand.splits const.splits)

lemma canonical_pow2_bound:
  assumes "it_canonical ty (2 ^ n)"
  shows "n < it_bits ty"
proof (rule ccontr)
  assume "\<not> n < it_bits ty"
  then have "take_bit (it_bits ty) ((2 :: int) ^ n) = 0" by (simp add: take_bit_eq_0_iff le_imp_power_dvd)
  moreover have "take_bit (it_bits ty) (it_value ty (2 ^ n)) = take_bit (it_bits ty) (2 ^ n)"
    using assms by (intro it_value_take_bit) (simp add: it_canonical_def)
  ultimately have "it_value ty (2 ^ n) = 0"
    using it_fits_unique[of ty "it_value ty (2 ^ n)" 0] it_fits_value[of "2 ^ n" ty] assms
    by (cases ty) (auto simp: it_canonical_def it_fits_def it_min_def it_max_def it_signed_def)
  then have "(2 :: int) ^ n = it_wrap ty 0" using assms by (simp add: it_canonical_def)
  also have "\<dots> = 0" by (cases ty) simp_all
  finally show False by simp
qed

lemma unat_word_of_small:
  assumes "n < LENGTH('a::len)"
  shows "unat (word_of_int (int n) :: 'a word) mod LENGTH('a) = n"
proof -
  have "n < 2 ^ LENGTH('a)" by (rule less_trans[OF assms less_exp])
  then show ?thesis using assms by (simp add: unat_of_nat)
qed

text \<open>Multiplication and unsigned division by a power of two are shifts, the remainder a mask.\<close>

lemma word_pow2:
  assumes "n < LENGTH('a::len)"
  shows "w * word_of_int (2 ^ n) = push_bit n (w :: 'a word)"
    and "w div word_of_int (2 ^ n) = drop_bit n (w :: 'a word)"
    and "w mod word_of_int (2 ^ n) = w AND word_of_int (2 ^ n - 1)"
    and "word_of_int (2 ^ n) \<noteq> (0 :: 'a word)"
proof -
  have e: "word_of_int (2 ^ n) = (2 ^ n :: 'a word)" by simp
  show "w * word_of_int (2 ^ n) = push_bit n w" by (simp add: push_bit_eq_mult)
  show "w div word_of_int (2 ^ n) = drop_bit n w" by (simp add: drop_bit_eq_div)
  have "w mod 2 ^ n = take_bit n w" by (simp add: take_bit_eq_mod)
  also have "\<dots> = w AND mask n" by (simp add: take_bit_eq_mask)
  finally show "w mod word_of_int (2 ^ n) = w AND word_of_int (2 ^ n - 1)"
    by (simp add: mask_eq_exp_minus_1)
  show "word_of_int (2 ^ n) \<noteq> (0 :: 'a word)" using assms by (simp add: e)
qed

lemma word_shift_pow2:
  assumes "0 < k" and "nat k < LENGTH('a::len)"
  shows "word_binop sg B_Shl (w :: 'a word) (word_of_int k) = Some (w * word_of_int (2 ^ nat k))"
    and "word_binop False B_Shr (w :: 'a word) (word_of_int k) = Some (w div word_of_int (2 ^ nat k))"
proof -
  have "unat (word_of_int k :: 'a word) mod LENGTH('a) = nat k"
    using unat_word_of_small[OF assms(2)] assms(1) by simp
  then show "word_binop sg B_Shl w (word_of_int k) = Some (w * word_of_int (2 ^ nat k))"
    and "word_binop False B_Shr w (word_of_int k) = Some (w div word_of_int (2 ^ nat k))"
    using word_pow2(1,2)[OF assms(2), of w] by (simp_all add: word_binop_def)
qed

lemma tdiv_1 [simp]: "tdiv a 1 = a"
  by (simp add: tdiv_def sgn_mult_abs mult.commute[of "sgn a"] abs_mult_sgn)

text \<open>
  C30: an algebraic rewrite of an integer operation keeps its result on machine words, for every
  contents of the registers: identities, zero and one laws, multiplication by a power of two as a
  shift, unsigned division and remainder by a power of two as a shift and a mask. The constants
  must be canonical at the operation's type, and the unsigned rewrites must only be asked for on
  unsigned types.
\<close>

theorem simplify_int_word:
  assumes simp: "simplify_int op a b uns = Some rv"
    and can: "operand_canonical ty a" "operand_canonical ty b"
    and uns: "uns \<longrightarrow> \<not> it_signed ty"
    and len: "LENGTH('a::len) = it_bits ty"
  shows "eval_word (it_signed ty) env rv =
    word_binop (it_signed ty) op (operand_word env a) (operand_word env b :: 'a word)"
proof -
  have pow: "0 < k \<and> nat k < LENGTH('a) \<and> operand_word env x = (word_of_int (2 ^ nat k) :: 'a word)"
    if "operand_canonical ty x" "int_val x = Some v" "log2_pow2 v = Some k" for x v k
    using log2_pow2_Some[OF that(3)] operand_canonical_int_val[OF that(1,2)]
      operand_word_int_val[OF that(2), of env] canonical_pow2_bound[of ty "nat k"] len by auto
  note word_facts = word_shift_pow2 word_pow2(3,4) word_pow2(3)[simplified] word_binop_def[of _ B_Mul]
    word_binop_def[of _ B_Div] word_binop_def[of _ B_Rem] word_binop_def[of _ B_BitAnd]
  note rule = simplify_int_def eval_word_def Let_def bind_Some_iff operand_word_int_val
  show ?thesis
  proof (cases op)
    case B_Mul
    with simp can show ?thesis
      by (auto simp: rule word_facts mult.commute split: if_splits option.splits dest!: pow)
  next
    case B_Div
    have "LENGTH('a) \<noteq> Suc 0" using len by (cases ty) simp_all
    with B_Div simp can uns show ?thesis
      by (auto simp: rule word_facts split: if_splits option.splits dest!: pow)
  next
    case B_Rem
    with simp obtain v k where k: "int_val b = Some v" "log2_pow2 v = Some k" and u: "uns"
      and rv: "rv = R_Binary B_BitAnd a (mask_const b k)"
      by (auto simp: simplify_int_def Let_def bind_Some_iff split: if_splits option.splits)
    with pow[OF can(2) k] uns B_Rem show ?thesis
      using word_pow2(3,4)[of "nat k", where 'a = 'a] by (simp add: eval_word_def word_binop_def)
  qed (use simp in \<open>auto simp: rule word_binop_def split: if_splits\<close>)
qed

theorem simplify_int_word_witness:
  "simplify_int B_Rem (O_Copy (P_Local 0)) (O_Const (C_Int 8)) True =
     Some (R_Binary B_BitAnd (O_Copy (P_Local 0)) (O_Const (C_Int 7))) \<and>
   eval_word False (\<lambda>_. 29 :: 32 word) (R_Binary B_BitAnd (O_Copy (P_Local 0)) (O_Const (C_Int 7))) =
     word_binop False B_Rem (operand_word (\<lambda>_. 29) (O_Copy (P_Local 0))) (operand_word (\<lambda>_. 29) (O_Const (C_Int 8)))"
proof -
  have s: "simplify_int B_Rem (O_Copy (P_Local 0)) (O_Const (C_Int 8)) True =
      Some (R_Binary B_BitAnd (O_Copy (P_Local 0)) (O_Const (C_Int 7)))" by code_simp
  have "operand_canonical IT_UInt (O_Copy (P_Local 0))" "operand_canonical IT_UInt (O_Const (C_Int 8))"
    "True \<longrightarrow> \<not> it_signed IT_UInt" "LENGTH(32) = it_bits IT_UInt"
    by (simp_all add: operand_canonical_def it_is_64_def it_canonical_def is_i64_def it_signed_def)
  from s simplify_int_word[OF s this, of "\<lambda>_. 29"] show ?thesis by (simp add: it_signed_def)
qed

section \<open>The rewrites on booleans\<close>

text \<open>Evaluation on booleans, for the operators with a boolean reading.\<close>

definition operand_bool :: "(place \<Rightarrow> bool) \<Rightarrow> operand \<Rightarrow> bool option" where
  "operand_bool env op =
     (case op of O_Const (C_Bool b) \<Rightarrow> Some b | O_Const _ \<Rightarrow> None | O_Copy p \<Rightarrow> Some (env p))"

definition bool_binop :: "bin_op \<Rightarrow> bool \<Rightarrow> bool \<Rightarrow> bool option" where
  "bool_binop op x y =
     (case op of
        B_And \<Rightarrow> Some (x \<and> y) | B_Or \<Rightarrow> Some (x \<or> y)
      | B_Eq \<Rightarrow> Some (x = y) | B_Ne \<Rightarrow> Some (x \<noteq> y)
      | _ \<Rightarrow> None)"

definition eval_bool :: "(place \<Rightarrow> bool) \<Rightarrow> rvalue \<Rightarrow> bool option" where
  "eval_bool env rv =
     (case rv of
        R_Use a \<Rightarrow> operand_bool env a
      | R_Unary U_Not a \<Rightarrow> map_option Not (operand_bool env a)
      | R_Binary op a b \<Rightarrow>
          do { x \<leftarrow> operand_bool env a; y \<leftarrow> operand_bool env b; bool_binop op x y }
      | _ \<Rightarrow> None)"

lemma bool_val_operand: "bool_val op = Some v \<Longrightarrow> operand_bool env op = Some v"
  by (auto simp: bool_val_def operand_bool_def split: operand.splits const.splits)

text \<open>
  An algebraic rewrite of a Boolean operation keeps its value for every value of its operands.
\<close>

theorem simplify_bool_eval:
  assumes "simplify_bool op a b = Some rv"
    and "operand_bool env a = Some x" and "operand_bool env b = Some y"
  shows "eval_bool env rv = bool_binop op x y"
proof -
  have v: "bool_val a = Some u \<Longrightarrow> u = x" "bool_val b = Some u \<Longrightarrow> u = y" for u
    using bool_val_operand[of a u env] bool_val_operand[of b u env] assms(2,3) by auto
  have c: "operand_bool env (O_Const (C_Bool u)) = Some u" for u by (simp add: operand_bool_def)
  show ?thesis
    using assms by (cases op)
      (auto simp: simplify_bool_def eval_bool_def bool_binop_def c dest: v split: if_splits)
qed

theorem simplify_bool_eval_witness:
  "simplify_bool B_And (O_Copy (P_Local 0)) (O_Const (C_Bool True)) = Some (R_Use (O_Copy (P_Local 0))) \<and>
   eval_bool (\<lambda>_. True) (R_Use (O_Copy (P_Local 0))) = bool_binop B_And True True"
proof -
  have s: "simplify_bool B_And (O_Copy (P_Local 0)) (O_Const (C_Bool True)) = Some (R_Use (O_Copy (P_Local 0)))"
    by code_simp
  from s simplify_bool_eval[OF s, of "\<lambda>_. True" True True] show ?thesis by (simp add: operand_bool_def)
qed

end
