(* ===== verification/Forward_Flow.thy ===== *)
theory Forward_Flow
  imports Dream_Prelude
begin

text \<open>
  The shape of the forward data-flow analyses that global propagation and value numbering share: a
  vector of facts per block is swept in reverse postorder until a sweep changes nothing. The locale
  carries the argument that the sweeps end and that the result is a fixpoint: facts only grow, since
  they start from none and the transfer is monotone, and each block has a bounded number of them.
\<close>

section \<open>Sweeping until nothing changes\<close>

partial_function (option) until_stable :: "('s \<Rightarrow> ('s \<times> bool) option) \<Rightarrow> 's \<Rightarrow> 's option" where
  "until_stable sweep s =
     Option.bind (sweep s) (\<lambda>r. if snd r then until_stable sweep (fst r) else Some (fst r))"

declare until_stable.simps [code]

lemma until_stable_total:
  fixes weight :: "'s \<Rightarrow> nat"
  assumes "good s"
    and "\<And>s. good s \<Longrightarrow> \<exists>s' c. sweep s = Some (s', c) \<and> good s' \<and> weight s' \<le> bound \<and>
      (c \<longrightarrow> weight s < weight s') \<and> (\<not> c \<longrightarrow> final s')"
  shows "\<exists>s'. until_stable sweep s = Some s' \<and> good s' \<and> final s'"
  using assms(1)
proof (induction "bound - weight s" arbitrary: s rule: less_induct)
  case less
  from assms(2)[OF less.prems] obtain s' c where s': "sweep s = Some (s', c)" "good s'" "weight s' \<le> bound"
    "c \<longrightarrow> weight s < weight s'" "\<not> c \<longrightarrow> final s'" by blast
  show ?case
  proof (cases c)
    case True
    with s'(3,4) have "bound - weight s' < bound - weight s" by simp
    from less.hyps[OF this s'(2)] True s'(1) show ?thesis by (simp add: until_stable.simps[of sweep s])
  next
    case False
    with s' show ?thesis by (simp add: until_stable.simps[of sweep s])
  qed
qed

section \<open>Analyses whose facts grow\<close>

locale growing_flow =
  fixes order :: "nat list" and n :: nat
    and inn :: "'f list \<Rightarrow> nat \<Rightarrow> 'i" and out :: "'f list \<Rightarrow> nat \<Rightarrow> 'f"
    and same :: "'f \<Rightarrow> 'f \<Rightarrow> bool" and elems :: "'f \<Rightarrow> 'e set" and ok :: "nat \<Rightarrow> 'f \<Rightarrow> bool" and bound :: nat
    and visit :: "'i list \<times> 'f list \<times> bool \<Rightarrow> nat \<Rightarrow> ('i list \<times> 'f list \<times> bool) option"
  assumes order_in: "b \<in> set order \<Longrightarrow> b < n"
    and out_mono: "length x = n \<Longrightarrow> length y = n \<Longrightarrow> \<forall>c < n. ok c (x ! c) \<Longrightarrow> \<forall>c < n. ok c (y ! c) \<Longrightarrow>
      \<forall>c < n. elems (x ! c) \<subseteq> elems (y ! c) \<Longrightarrow> b \<in> set order \<Longrightarrow> elems (out x b) \<subseteq> elems (out y b)"
    and out_ok: "length x = n \<Longrightarrow> \<forall>c < n. ok c (x ! c) \<Longrightarrow> b \<in> set order \<Longrightarrow> ok b (out x b)"
    and same_iff: "ok b u \<Longrightarrow> ok b v \<Longrightarrow> same u v \<longleftrightarrow> elems u = elems v"
    and bounded: "ok b u \<Longrightarrow> finite (elems u) \<and> card (elems u) \<le> bound"
    and visit: "length e = n \<Longrightarrow> length x = n \<Longrightarrow> \<forall>c < n. ok c (x ! c) \<Longrightarrow> b \<in> set order \<Longrightarrow>
      visit (e, x, ch) b = Some (e[b := inn x b], if same (out x b) (x ! b) then x else x[b := out x b],
        ch \<or> \<not> same (out x b) (x ! b))"
begin

definition rising :: "'f list \<Rightarrow> bool" where
  "rising x \<longleftrightarrow> length x = n \<and> (\<forall>c < n. ok c (x ! c)) \<and> (\<forall>b \<in> set order. elems (x ! b) \<subseteq> elems (out x b))"

definition weight :: "'f list \<Rightarrow> nat" where
  "weight x = (\<Sum>c < n. card (elems (x ! c)))"

lemma risingD: "rising x \<Longrightarrow> length x = n" "rising x \<Longrightarrow> \<forall>c < n. ok c (x ! c)"
  by (auto simp: rising_def)

lemma weight_le: "rising x \<Longrightarrow> weight x \<le> n * bound"
  using bounded sum_mono[of "{..<n}" "\<lambda>c. card (elems (x ! c))" "\<lambda>_. bound"]
  by (auto simp: weight_def rising_def)

lemma grow:
  assumes x: "rising x" and b: "b \<in> set order" and d: "\<not> same (out x b) (x ! b)"
  shows "rising (x[b := out x b])" "weight x < weight (x[b := out x b])"
proof -
  let ?y = "x[b := out x b]"
  note len = risingD(1)[OF x] and oks = risingD(2)[OF x] and bn = order_in[OF b]
  have okb: "ok b (out x b)" by (rule out_ok[OF len oks b])
  have le: "elems (x ! b) \<subseteq> elems (out x b)" using x b by (simp add: rising_def)
  have ok': "\<forall>c < n. ok c (?y ! c)" using oks okb len bn by (auto simp: nth_list_update)
  have sub: "\<forall>c < n. elems (x ! c) \<subseteq> elems (?y ! c)" using le len bn by (auto simp: nth_list_update)
  have "elems (?y ! c) \<subseteq> elems (out ?y c)" if c: "c \<in> set order" for c
  proof -
    have "elems (?y ! c) \<subseteq> elems (out x c)" using x b c len bn order_in[OF c] by (auto simp: rising_def nth_list_update)
    also have "\<dots> \<subseteq> elems (out ?y c)" by (rule out_mono[OF len _ oks ok' sub c]) (simp add: len)
    finally show ?thesis .
  qed
  with ok' len show "rising ?y" by (simp add: rising_def)
  have "elems (x ! b) \<noteq> elems (out x b)" using d same_iff[OF okb, of "x ! b"] oks bn by auto
  with le bounded[OF okb] have lt: "card (elems (x ! b)) < card (elems (?y ! b))"
    using len bn by (auto intro: psubset_card_mono)
  have fin: "finite (elems (?y ! c))" if "c < n" for c using that ok' bounded by blast
  show "weight x < weight ?y" unfolding weight_def
    by (rule sum_strict_mono_ex1) (use sub fin lt bn in \<open>auto intro: card_mono\<close>)
qed

lemma sweep_step:
  assumes "set bs \<subseteq> set order" "length e = n" "rising x"
  shows "\<exists>e' x' ch'. foldM visit (e, x, ch) bs = Some (e', x', ch') \<and> length e' = n \<and> rising x' \<and>
    weight x \<le> weight x' \<and> (ch \<longrightarrow> ch') \<and> (ch' \<longrightarrow> ch \<or> weight x < weight x') \<and>
    (\<not> ch' \<longrightarrow> x' = x \<and> (\<forall>b \<in> set bs. same (out x b) (x ! b) \<and> e' ! b = inn x b) \<and>
       (\<forall>b. b \<notin> set bs \<longrightarrow> e' ! b = e ! b))"
  using assms
proof (induction bs arbitrary: e x ch)
  case (Cons b bs)
  from Cons.prems have b: "b \<in> set order" and bs: "set bs \<subseteq> set order" by auto
  let ?s = "same (out x b) (x ! b)"
  let ?x = "if ?s then x else x[b := out x b]"
  have v: "visit (e, x, ch) b = Some (e[b := inn x b], ?x, ch \<or> \<not> ?s)"
    by (rule visit[OF Cons.prems(2) risingD[OF Cons.prems(3)] b])
  have r: "rising ?x" "weight x \<le> weight ?x" "\<not> ?s \<longrightarrow> weight x < weight ?x"
    using grow[OF Cons.prems(3) b] Cons.prems(3) by auto
  from Cons.IH[OF bs _ r(1), of "e[b := inn x b]" "ch \<or> \<not> ?s"] Cons.prems(2) obtain e' x' ch' where
    i: "foldM visit (e[b := inn x b], ?x, ch \<or> \<not> ?s) bs = Some (e', x', ch')" "length e' = n" "rising x'"
      "weight ?x \<le> weight x'" "ch \<or> \<not> ?s \<longrightarrow> ch'" "ch' \<longrightarrow> (ch \<or> \<not> ?s) \<or> weight ?x < weight x'"
      "\<not> ch' \<longrightarrow> x' = ?x \<and> (\<forall>b \<in> set bs. same (out ?x b) (?x ! b) \<and> e' ! b = inn ?x b) \<and>
         (\<forall>c. c \<notin> set bs \<longrightarrow> e' ! c = e[b := inn x b] ! c)" by auto
  show ?case
  proof (intro exI conjI)
    show "foldM visit (e, x, ch) (b # bs) = Some (e', x', ch')" using v i(1) by simp
    show "weight x \<le> weight x'" using r(2) i(4) by simp
    show "ch' \<longrightarrow> ch \<or> weight x < weight x'" using i(4,6) r(2,3) by auto
    show "\<not> ch' \<longrightarrow> x' = x \<and> (\<forall>b \<in> set (b # bs). same (out x b) (x ! b) \<and> e' ! b = inn x b) \<and>
       (\<forall>c. c \<notin> set (b # bs) \<longrightarrow> e' ! c = e ! c)"
    proof
      assume "\<not> ch'"
      with i(5,7) have s: "?s" and r': "x' = ?x" "\<forall>b \<in> set bs. same (out ?x b) (?x ! b) \<and> e' ! b = inn ?x b"
        "\<forall>c. c \<notin> set bs \<longrightarrow> e' ! c = e[b := inn x b] ! c" by auto
      with order_in[OF b] Cons.prems(2) show "x' = x \<and> (\<forall>b \<in> set (b # bs). same (out x b) (x ! b) \<and> e' ! b = inn x b) \<and>
         (\<forall>c. c \<notin> set (b # bs) \<longrightarrow> e' ! c = e ! c)" by (cases "b \<in> set bs") auto
    qed
  qed (use i(2,3,5) in auto)
qed auto

text \<open>The sweeps end, in a vector that another sweep would not change, with its entry facts.\<close>

definition sweep :: "'i list \<times> 'f list \<Rightarrow> (('i list \<times> 'f list) \<times> bool) option" where
  "sweep = (\<lambda>(e, x). map_option (\<lambda>(e, x, ch). ((e, x), ch)) (foldM visit (e, x, False) order))"

lemma solve_total:
  assumes "length e = n" "rising x"
  shows "\<exists>e' x'. until_stable sweep (e, x) = Some (e', x') \<and> length e' = n \<and> length x' = n \<and>
    (\<forall>c < n. ok c (x' ! c)) \<and> (\<forall>b \<in> set order. same (out x' b) (x' ! b) \<and> e' ! b = inn x' b)"
proof -
  let ?inv = "\<lambda>(e :: 'i list, x). length e = n \<and> rising x"
  let ?final = "\<lambda>(e :: 'i list, x). \<forall>b \<in> set order. same (out x b) (x ! b) \<and> e ! b = inn x b"
  have "\<exists>s'. until_stable sweep (e, x) = Some s' \<and> ?inv s' \<and> ?final s'"
  proof (rule until_stable_total[where good = ?inv and final = ?final and weight = "weight \<circ> snd" and bound = "n * bound"])
    fix s assume "?inv s"
    then obtain e x where s: "s = (e, x)" "length e = n" "rising x" by auto
    from sweep_step[OF subset_refl s(2,3), of False] obtain e' x' ch' where
      "foldM visit (e, x, False) order = Some (e', x', ch')" "length e' = n" "rising x'"
      "ch' \<longrightarrow> weight x < weight x'" "\<not> ch' \<longrightarrow> x' = x \<and> (\<forall>b \<in> set order. same (out x b) (x ! b) \<and> e' ! b = inn x b)"
      by auto
    then show "\<exists>s' c. sweep s = Some (s', c) \<and> ?inv s' \<and> (weight \<circ> snd) s' \<le> n * bound \<and>
      (c \<longrightarrow> (weight \<circ> snd) s < (weight \<circ> snd) s') \<and> (\<not> c \<longrightarrow> ?final s')"
      using weight_le[of x'] by (intro exI[of _ "(e', x')"] exI[of _ ch']) (auto simp: s(1) sweep_def)
  qed (use assms in auto)
  then show ?thesis by (auto simp: rising_def)
qed

end

end
