(* ===== verification/Global_Prop.thy ===== *)
theory Global_Prop
  imports Copy_Prop Mir_Analyses Forward_Flow Ieee_Floats
begin

text \<open>
  Global copy and constant propagation (\<open>crates/dream-mir/src/passes/global_prop.rs\<close>): the known
  values at the entry of a block are those on which the exits of all its predecessors agree, solved
  as a forward analysis over the cached predecessors and reverse postorder, and every block is
  rewritten as local propagation does it, from its entry facts. The lemmas show that the analysis
  ends, as an instance of \<open>growing_flow\<close>, that its facts are true on every run, and that the
  rewritten function has exactly the runs of the original.
\<close>

section \<open>The analysis\<close>

fun operand_eq :: "operand \<Rightarrow> operand \<Rightarrow> bool" where
  "operand_eq (O_Const (C_Float x)) (O_Const (C_Float y)) = (x = y)"
| "operand_eq (O_Const (C_F32 x)) (O_Const (C_F32 y)) = (x = y)"
| "operand_eq (O_Const x) (O_Const y) = const_eq x y"
| "operand_eq (O_Copy (P_Local x)) (O_Copy (P_Local y)) = (x = y)"
| "operand_eq _ _ = False"

definition agrees :: "known \<Rightarrow> local \<times> operand \<Rightarrow> bool" where
  "agrees other = (\<lambda>(k, v). case map_of other k of Some w \<Rightarrow> operand_eq v w | None \<Rightarrow> False)"

definition facts_eq :: "known \<Rightarrow> known \<Rightarrow> bool" where
  "facts_eq a b \<longleftrightarrow> length a = length b \<and> list_all (agrees b) a"

fun retain_facts :: "block_id list \<Rightarrow> known list \<Rightarrow> known \<Rightarrow> known option" where
  "retain_facts [] exit acc = Some acc"
| "retain_facts (p # ps) exit acc =
     do {
       other \<leftarrow> nth_opt exit p;
       let acc' = filter (agrees other) acc;
       if acc' = [] then Some acc' else retain_facts ps exit acc'
     }"

definition meet_facts :: "block_id list \<Rightarrow> known list \<Rightarrow> known option" where
  "meet_facts preds exit =
     (case preds of
        [] \<Rightarrow> Some []
      | p # ps \<Rightarrow> do { acc \<leftarrow> nth_opt exit p; retain_facts ps exit acc })"

definition gp_transfer :: "bool list \<Rightarrow> basic_block \<Rightarrow> known \<Rightarrow> known" where
  "gp_transfer vl blk st =
     (let st' = foldl (\<lambda>st stmt. update_known vl stmt st) st (stmts blk) in
      case term_of blk of T_Await _ (Some d) _ \<Rightarrow> invalidate d st' | _ \<Rightarrow> st')"

definition gp_visit ::
  "mir_function \<Rightarrow> bool list \<Rightarrow> block_id list list \<Rightarrow> known list \<times> known list \<times> bool \<Rightarrow> block_id \<Rightarrow>
     (known list \<times> known list \<times> bool) option" where
  "gp_visit f vl preds = (\<lambda>(entry, exit, changed) b.
     do {
       in_state \<leftarrow> (if b = fn_entry f then Some []
                    else do { ps \<leftarrow> nth_opt preds b; meet_facts ps exit });
       blk \<leftarrow> block f b;
       let st = gp_transfer vl blk in_state;
       old \<leftarrow> nth_opt exit b;
       let differs = \<not> facts_eq st old;
       exit' \<leftarrow> (if differs then upd_opt exit b st else Some exit);
       entry' \<leftarrow> upd_opt entry b in_state;
       Some (entry', exit', changed \<or> differs)
     })"

definition gp_sweep ::
  "mir_function \<Rightarrow> bool list \<Rightarrow> block_id list list \<Rightarrow> block_id list \<Rightarrow> known list \<times> known list \<Rightarrow>
     ((known list \<times> known list) \<times> bool) option" where
  "gp_sweep f vl preds rpo = (\<lambda>(entry, exit).
     map_option (\<lambda>(entry, exit, changed). ((entry, exit), changed))
       (foldM (gp_visit f vl preds) (entry, exit, False) rpo))"

section \<open>The rewriting\<close>

definition gp_block :: "bool list \<Rightarrow> known \<Rightarrow> basic_block \<Rightarrow> basic_block \<times> bool" where
  "gp_block vl st blk =
     (let (ss, c, known) = prop_stmts vl st (stmts blk);
          (t, d) = subst_terminator_reads known (term_of blk)
      in (blk\<lparr>stmts := ss, term_of := t\<rparr>, c \<or> d))"

definition gp_rewrite ::
  "bool list \<Rightarrow> known list \<Rightarrow> mir_function \<times> bool \<Rightarrow> block_id \<Rightarrow> (mir_function \<times> bool) option" where
  "gp_rewrite vl entry = (\<lambda>(f, rewrote) b.
     do {
       st \<leftarrow> nth_opt entry b;
       blk \<leftarrow> block f b;
       let (blk', c) = gp_block vl st blk;
       bs \<leftarrow> upd_opt (fn_blocks f) b blk';
       Some (f\<lparr>fn_blocks := bs\<rparr>, rewrote \<or> c)
     })"

definition global_prop ::
  "type_interner \<Rightarrow> mir_function \<Rightarrow> function_analyses \<Rightarrow> (mir_function \<times> bool \<times> function_analyses) option" where
  "global_prop i f a =
     (let n = length (fn_blocks f) in
      if n = 0 then Some (f, False, a)
      else do {
        vl \<leftarrow> value_locals i (fn_locals f);
        (preds, a1) \<leftarrow> query_predecessors a f;
        (rpo, a2) \<leftarrow> query_reverse_postorder a1 f;
        (entry, exit) \<leftarrow> until_stable (gp_sweep f vl preds rpo) (replicate n [], replicate n []);
        map_option (\<lambda>(g, rewrote). (g, rewrote, a2)) (foldM (gp_rewrite vl entry) (f, False) rpo)
      })"

section \<open>Facts as sets\<close>

text \<open>A fact is a local that holds a constant or a copy of another local; a vector of facts has one per local.\<close>

definition facts_ok :: "local set \<Rightarrow> known \<Rightarrow> bool" where
  "facts_ok L st \<longleftrightarrow> distinct (map fst st) \<and> fst ` set st \<subseteq> L \<and> (\<forall>(_, v) \<in> set st. reg_operand v)"

lemma operand_eq_iff: "reg_operand v \<Longrightarrow> operand_eq v w \<longleftrightarrow> v = w"
  by (cases "(v, w)" rule: operand_eq.cases) (auto simp: reg_operand_def)

lemma facts_okD: "facts_ok L st \<Longrightarrow> distinct (map fst st)" "facts_ok L st \<Longrightarrow> (k, v) \<in> set st \<Longrightarrow> reg_operand v"
  by (auto simp: facts_ok_def)

lemma agrees_iff:
  assumes "facts_ok L other" "reg_operand v"
  shows "agrees other (k, v) \<longleftrightarrow> (k, v) \<in> set other"
proof -
  have "(k, v) \<in> set other \<longleftrightarrow> map_of other k = Some v" using facts_okD(1)[OF assms(1)] by simp
  with assms(2) show ?thesis by (auto simp: agrees_def operand_eq_iff split: option.split)
qed

lemma facts_eq_iff:
  assumes "facts_ok L a" "facts_ok M b"
  shows "facts_eq a b \<longleftrightarrow> set a = set b"
proof -
  have d: "distinct a" "distinct b" using assms by (auto simp: facts_ok_def distinct_map)
  have "list_all (agrees b) a \<longleftrightarrow> set a \<subseteq> set b"
    using agrees_iff[OF assms(2)] facts_okD(2)[OF assms(1)] by (force simp: list_all_iff)
  moreover have "set a \<subseteq> set b \<Longrightarrow> length a = length b \<longleftrightarrow> set a = set b"
    using d by (metis card_subset_eq distinct_card finite_set)
  ultimately show ?thesis unfolding facts_eq_def by auto
qed

lemma facts_ok_filter: "facts_ok L st \<Longrightarrow> facts_ok L (filter P st)"
  by (auto simp: facts_ok_def distinct_map_filter)

lemma retain_facts_spec:
  assumes "facts_ok L acc" "\<And>p. p \<in> set ps \<Longrightarrow> p < length exit \<and> facts_ok L (exit ! p)"
  shows "\<exists>r. retain_facts ps exit acc = Some r \<and> facts_ok L r \<and>
    set r = {e \<in> set acc. \<forall>p \<in> set ps. e \<in> set (exit ! p)}"
  using assms
proof (induction ps arbitrary: acc)
  case (Cons p ps)
  let ?acc = "filter (agrees (exit ! p)) acc"
  have p: "p < length exit" "facts_ok L (exit ! p)" using Cons.prems(2) by auto
  have acc: "set ?acc = {e \<in> set acc. e \<in> set (exit ! p)}"
    using agrees_iff[OF p(2)] facts_okD(2)[OF Cons.prems(1)] by auto
  show ?case
  proof (cases "?acc = []")
    case True
    with acc have "set acc \<inter> set (exit ! p) = {}" by auto
    with True p(1) show ?thesis by (auto simp: facts_ok_def)
  next
    case False
    from Cons.IH[OF facts_ok_filter[OF Cons.prems(1)], of "agrees (exit ! p)"] Cons.prems(2) obtain r where
      "retain_facts ps exit ?acc = Some r" "facts_ok L r" "set r = {e \<in> set ?acc. \<forall>p \<in> set ps. e \<in> set (exit ! p)}"
      by auto
    with False p(1) acc show ?thesis by auto
  qed
qed simp

lemma meet_facts_spec:
  assumes "\<And>p. p \<in> set ps \<Longrightarrow> p < length exit \<and> facts_ok L (exit ! p)"
  shows "\<exists>r. meet_facts ps exit = Some r \<and> facts_ok L r \<and>
    set r = (if ps = [] then {} else {e. \<forall>p \<in> set ps. e \<in> set (exit ! p)})"
proof (cases ps)
  case (Cons p qs)
  with assms have p: "p < length exit" "facts_ok L (exit ! p)" by auto
  from retain_facts_spec[OF p(2), of qs exit] assms Cons p(1) show ?thesis by (auto simp: meet_facts_def)
qed (simp add: meet_facts_def facts_ok_def)

section \<open>The transfer as a function of sets\<close>

text \<open>Each fact passes a statement, or does not, by itself; what a statement adds does not depend on the facts.\<close>

definition gains :: "bool list \<Rightarrow> statement \<Rightarrow> (local \<times> operand) set" where
  "gains vl st = set (update_known vl st [])"

definition passes :: "bool list \<Rightarrow> statement \<Rightarrow> local \<times> operand \<Rightarrow> bool" where
  "passes vl st e \<longleftrightarrow> e \<in> set (update_known vl st [e])"

lemma set_insert_fresh: "map_of st l = None \<Longrightarrow> set (known_insert l v st) = insert (l, v) (set st)"
  by (simp add: known_insert_def)

lemma update_known_local:
  "(\<forall>k. update_known vl (S_Assign (P_Local d) rv) k = invalidate d k) \<or>
   (\<exists>v. reg_operand v \<and> (\<forall>k. update_known vl (S_Assign (P_Local d) rv) k = known_insert d v (invalidate d k)))"
proof (cases "\<exists>x. rv = R_Use x")
  case True
  then obtain x where rv: "rv = R_Use x" by blast
  show ?thesis
  proof (cases x)
    case (O_Copy p)
    show ?thesis
    proof (cases p)
      case (P_Local y)
      with O_Copy show ?thesis
        by (cases "nth_opt vl d = Some True \<or> nth_opt vl y = Some True \<or> y = d")
          (auto simp: rv update_known_def Let_def intro!: disjI2 exI[of _ x] simp: reg_operand_def)
    qed (simp_all add: O_Copy rv update_known_def)
  next
    case (O_Const c)
    then show ?thesis
      by (cases "nth_opt vl d = Some True")
        (auto simp: rv update_known_def Let_def reg_operand_def intro: exI[of _ x])
  qed
next
  case False
  then show ?thesis by (cases rv) (simp_all add: update_known_def)
qed

lemma update_known_other:
  assumes "\<And>d rv. st \<noteq> S_Assign (P_Local d) rv"
  shows "\<exists>P. \<forall>k. update_known vl st k = filter P k"
proof -
  have inv: "\<exists>P. \<forall>k. invalidate l k = filter P k" for l by (auto simp: invalidate_def)
  show ?thesis
  proof (cases st)
    case (S_Assign p rv)
    with assms show ?thesis by (cases p) (auto simp: update_known_def)
  qed (use inv in \<open>simp_all add: update_known_def\<close>, (rule exI[of _ "\<lambda>_. True"], simp)+)
qed

lemma set_update_known: "set (update_known vl st known) = {e \<in> set known. passes vl st e} \<union> gains vl st"
proof (cases "\<exists>d rv. st = S_Assign (P_Local d) rv")
  case True
  then obtain d rv where st: "st = S_Assign (P_Local d) rv" by blast
  from update_known_local[of vl d rv] show ?thesis
  proof (elim disjE exE conjE)
    assume "\<forall>k. update_known vl (S_Assign (P_Local d) rv) k = invalidate d k"
    then show ?thesis by (auto simp: st gains_def passes_def invalidate_def)
  next
    fix v assume "\<forall>k. update_known vl (S_Assign (P_Local d) rv) k = known_insert d v (invalidate d k)"
    then show ?thesis
      by (auto simp: st gains_def passes_def set_insert_fresh[OF invalidate_fresh] simp del: map_of_eq_None_iff)
        (auto simp: invalidate_def)
  qed
next
  case False
  then obtain P where "\<forall>k. update_known vl st k = filter P k" using update_known_other[of st vl] by blast
  then show ?thesis by (auto simp: gains_def passes_def)
qed

lemma facts_ok_update:
  assumes "facts_ok L st" "\<And>d rv. stmt = S_Assign (P_Local d) rv \<Longrightarrow> d \<in> L"
  shows "facts_ok L (update_known vl stmt st)"
proof (cases "\<exists>d rv. stmt = S_Assign (P_Local d) rv")
  case True
  then obtain d rv where st: "stmt = S_Assign (P_Local d) rv" by blast
  have inv: "facts_ok L (invalidate d st)" using assms(1) by (simp add: invalidate_def facts_ok_filter)
  have "facts_ok L (known_insert d v (invalidate d st))" if "reg_operand v" for v
    using inv that assms(2)[OF st] invalidate_fresh[of d st] by (auto simp: known_insert_def facts_ok_def map_of_eq_None_iff)
  with update_known_local[of vl d rv] inv show ?thesis unfolding st by auto
next
  case False
  then obtain P where "\<forall>k. update_known vl stmt k = filter P k" using update_known_other[of stmt vl] by blast
  with facts_ok_filter[OF assms(1)] show ?thesis by simp
qed

definition block_dests :: "basic_block \<Rightarrow> local set" where
  "block_dests blk = {d. \<exists>rv. S_Assign (P_Local d) rv \<in> set (stmts blk)}"

lemma gp_transfer_ok:
  assumes "facts_ok L st" "block_dests blk \<subseteq> L"
  shows "facts_ok L (gp_transfer vl blk st)"
proof -
  have "facts_ok L (foldl (\<lambda>st stmt. update_known vl stmt st) st ss)" if "set ss \<subseteq> set (stmts blk)" for ss
    using that assms(1)
  proof (induction ss arbitrary: st)
    case (Cons s ss)
    have "facts_ok L (update_known vl s st)"
      using Cons.prems assms(2) by (intro facts_ok_update) (auto simp: block_dests_def)
    with Cons.IH[OF _ this] Cons.prems(1) show ?case by simp
  qed simp
  from this[OF subset_refl] show ?thesis
    by (auto simp: gp_transfer_def Let_def invalidate_def facts_ok_filter split: terminator.split option.split)
qed

lemma gp_transfer_mono:
  assumes "set st \<subseteq> set st'"
  shows "set (gp_transfer vl blk st) \<subseteq> set (gp_transfer vl blk st')"
proof -
  have "set (foldl (\<lambda>st stmt. update_known vl stmt st) st ss) \<subseteq> set (foldl (\<lambda>st stmt. update_known vl stmt st) st' ss)" for ss
    using assms
  proof (induction ss arbitrary: st st')
    case (Cons s ss)
    have "set (update_known vl s st) \<subseteq> set (update_known vl s st')" using Cons.prems by (auto simp: set_update_known)
    from Cons.IH[OF this] show ?case by simp
  qed simp
  from this[of "stmts blk"] show ?thesis
    by (auto simp: gp_transfer_def Let_def invalidate_def split: terminator.split option.split)
qed

section \<open>The analysis ends\<close>

definition fn_dests :: "mir_function \<Rightarrow> local set" where
  "fn_dests f = \<Union> (set (map block_dests (fn_blocks f)))"

lemma finite_fn_dests: "finite (fn_dests f)"
proof -
  have "block_dests blk \<subseteq> (\<lambda>st. case st of S_Assign (P_Local d) _ \<Rightarrow> d | _ \<Rightarrow> 0) ` set (stmts blk)" for blk
    unfolding block_dests_def by (safe, rule rev_image_eqI, assumption, simp)
  then have "finite (block_dests blk)" for blk by (rule finite_subset) simp
  then show ?thesis by (simp add: fn_dests_def)
qed

definition gp_inn :: "mir_function \<Rightarrow> block_id list list \<Rightarrow> known list \<Rightarrow> block_id \<Rightarrow> known" where
  "gp_inn f preds exit b =
     (if b = fn_entry f then [] else case meet_facts (preds ! b) exit of Some r \<Rightarrow> r | None \<Rightarrow> [])"

definition gp_out :: "mir_function \<Rightarrow> bool list \<Rightarrow> block_id list list \<Rightarrow> known list \<Rightarrow> block_id \<Rightarrow> known" where
  "gp_out f vl preds exit b = gp_transfer vl (fn_blocks f ! b) (gp_inn f preds exit b)"

text \<open>The order of the sweeps, where all the block ids that are used as indices are in range.\<close>

definition preds_ok :: "mir_function \<Rightarrow> block_id list list \<Rightarrow> block_id list \<Rightarrow> bool" where
  "preds_ok f preds rpo \<longleftrightarrow>
     length preds = length (fn_blocks f) \<and>
     (\<forall>b \<in> set rpo. b < length (fn_blocks f) \<and> (\<forall>p \<in> set (preds ! b). p < length (fn_blocks f)))"

definition in_range_order :: "mir_function \<Rightarrow> block_id list list \<Rightarrow> block_id list \<Rightarrow> block_id list" where
  "in_range_order f preds rpo = (if preds_ok f preds rpo then rpo else [])"

lemma in_range_orderD:
  assumes "b \<in> set (in_range_order f preds rpo)"
  shows "b < length (fn_blocks f)" "length preds = length (fn_blocks f)" "p \<in> set (preds ! b) \<Longrightarrow> p < length (fn_blocks f)"
  using assms by (auto simp: in_range_order_def preds_ok_def split: if_splits)

lemma gp_inn_spec:
  assumes "length x = length (fn_blocks f)" "\<forall>c < length (fn_blocks f). facts_ok L (x ! c)"
    and "b \<in> set (in_range_order f preds rpo)"
  shows "facts_ok L (gp_inn f preds x b)"
    "set (gp_inn f preds x b) =
       (if b = fn_entry f \<or> preds ! b = [] then {} else {e. \<forall>p \<in> set (preds ! b). e \<in> set (x ! p)})"
    "b \<noteq> fn_entry f \<Longrightarrow> meet_facts (preds ! b) x = Some (gp_inn f preds x b)"
proof -
  have "\<exists>r. meet_facts (preds ! b) x = Some r \<and> facts_ok L r \<and>
      set r = (if preds ! b = [] then {} else {e. \<forall>p \<in> set (preds ! b). e \<in> set (x ! p)})"
    by (rule meet_facts_spec) (use in_range_orderD[OF assms(3)] assms(1,2) in auto)
  then obtain r where r: "meet_facts (preds ! b) x = Some r" "facts_ok L r"
    "set r = (if preds ! b = [] then {} else {e. \<forall>p \<in> set (preds ! b). e \<in> set (x ! p)})" by blast
  have "facts_ok L []" by (simp add: facts_ok_def)
  with r show "facts_ok L (gp_inn f preds x b)"
    "set (gp_inn f preds x b) =
       (if b = fn_entry f \<or> preds ! b = [] then {} else {e. \<forall>p \<in> set (preds ! b). e \<in> set (x ! p)})"
    "b \<noteq> fn_entry f \<Longrightarrow> meet_facts (preds ! b) x = Some (gp_inn f preds x b)"
    by (simp_all add: gp_inn_def meet_facts_def)
qed

interpretation gp: growing_flow "in_range_order f preds rpo" "length (fn_blocks f)" "gp_inn f preds" "gp_out f vl preds"
  facts_eq set "\<lambda>_. facts_ok (fn_dests f)" "card (fn_dests f)" "gp_visit f vl preds" for f vl preds rpo
proof
  fix b assume "b \<in> set (in_range_order f preds rpo)"
  then show "b < length (fn_blocks f)" by (rule in_range_orderD)
next
  fix x y b
  assume a: "length x = length (fn_blocks f)" "length y = length (fn_blocks f)"
    "\<forall>c < length (fn_blocks f). facts_ok (fn_dests f) (x ! c)" "\<forall>c < length (fn_blocks f). facts_ok (fn_dests f) (y ! c)"
    "\<forall>c < length (fn_blocks f). set (x ! c) \<subseteq> set (y ! c)" "b \<in> set (in_range_order f preds rpo)"
  have "set (gp_inn f preds x b) \<subseteq> set (gp_inn f preds y b)"
    unfolding gp_inn_spec(2)[OF a(1,3,6)] gp_inn_spec(2)[OF a(2,4,6)]
    using a(5) in_range_orderD(3)[OF a(6)] by (simp add: subset_iff Ball_def)
  then show "set (gp_out f vl preds x b) \<subseteq> set (gp_out f vl preds y b)" unfolding gp_out_def by (rule gp_transfer_mono)
next
  fix x b
  assume a: "length x = length (fn_blocks f)" "\<forall>c < length (fn_blocks f). facts_ok (fn_dests f) (x ! c)"
    "b \<in> set (in_range_order f preds rpo)"
  show "facts_ok (fn_dests f) (gp_out f vl preds x b)" unfolding gp_out_def
    by (rule gp_transfer_ok[OF gp_inn_spec(1)[OF a]]) (use nth_mem[OF in_range_orderD(1)[OF a(3)]] in \<open>auto simp: fn_dests_def\<close>)
next
  fix u v assume "facts_ok (fn_dests f) u" "facts_ok (fn_dests f) v"
  then show "facts_eq u v \<longleftrightarrow> set u = set v" by (rule facts_eq_iff)
next
  fix u :: known assume u: "facts_ok (fn_dests f) u"
  then have "card (set u) = card (fst ` set u)" by (auto simp: facts_ok_def distinct_map card_image)
  also have "\<dots> \<le> card (fn_dests f)" using u by (intro card_mono finite_fn_dests) (auto simp: facts_ok_def)
  finally show "finite (set u) \<and> card (set u) \<le> card (fn_dests f)" by simp
next
  fix e x :: "known list" and b ch
  assume a: "length e = length (fn_blocks f)" "length x = length (fn_blocks f)"
    "\<forall>c < length (fn_blocks f). facts_ok (fn_dests f) (x ! c)" "b \<in> set (in_range_order f preds rpo)"
  note b = in_range_orderD[OF a(4)] and m = gp_inn_spec(3)[OF a(2-4)]
  have "(if b = fn_entry f then Some [] else do { ps \<leftarrow> nth_opt preds b; meet_facts ps x }) = Some (gp_inn f preds x b)"
    using b(1,2) m by (simp add: gp_inn_def)
  then show "gp_visit f vl preds (e, x, ch) b =
    Some (e[b := gp_inn f preds x b], if facts_eq (gp_out f vl preds x b) (x ! b) then x else x[b := gp_out f vl preds x b],
      ch \<or> \<not> facts_eq (gp_out f vl preds x b) (x ! b))"
    using b(1) a(1,2) by (simp add: gp_visit_def gp_out_def block_def Let_def)
qed

text \<open>What the predecessors and the reverse postorder of a function with valid control flow are.\<close>

lemma analyses_of:
  assumes "cfg_ok f"
  shows "\<exists>preds rpo. predecessors f = Some preds \<and> reverse_postorder f = Some rpo \<and> preds_ok f preds rpo \<and>
    distinct rpo \<and> set rpo = reachable f \<and> (\<forall>b < length (fn_blocks f). set (preds ! b) = {a. cfg_edge f a b})"
proof -
  from predecessors_total[OF assms] obtain preds where p: "predecessors f = Some preds"
    "length preds = length (fn_blocks f)" "\<forall>b < length (fn_blocks f). set (preds ! b) = {a. cfg_edge f a b}" by blast
  from reverse_postorder_total[OF assms] obtain rpo where r: "reverse_postorder f = Some rpo" "distinct rpo"
    "set rpo = {b. (cfg_edge f)\<^sup>*\<^sup>* (fn_entry f) b}" "set rpo \<subseteq> {..<length (fn_blocks f)}" by blast
  have "preds_ok f preds rpo" using p r(4) by (auto simp: preds_ok_def cfg_edge_def)
  moreover have "set rpo = reachable f" using r(3) by (simp add: reachable_def)
  ultimately show ?thesis using p(1,3) r(1,2) by blast
qed

lemma gp_solve_total:
  assumes "preds_ok f preds rpo"
  shows "\<exists>entry exit. until_stable (gp_sweep f vl preds rpo)
      (replicate (length (fn_blocks f)) [], replicate (length (fn_blocks f)) []) = Some (entry, exit) \<and>
    length entry = length (fn_blocks f) \<and>
    (\<forall>b \<in> set rpo. entry ! b = gp_inn f preds exit b \<and> set (exit ! b) = set (gp_transfer vl (fn_blocks f ! b) (entry ! b)) \<and>
       set (entry ! b) = (if b = fn_entry f \<or> preds ! b = [] then {} else {e. \<forall>p \<in> set (preds ! b). e \<in> set (exit ! p)}))"
proof -
  let ?n = "length (fn_blocks f)"
  let ?x = "replicate ?n ([] :: known)"
  have order: "in_range_order f preds rpo = rpo" using assms by (simp add: in_range_order_def)
  have sweep: "gp_sweep f vl preds rpo = gp.sweep f preds rpo vl"
    unfolding gp_sweep_def gp.sweep_def by (simp add: order)
  have "gp.rising f preds rpo vl ?x" by (auto simp: gp.rising_def facts_ok_def dest: in_range_orderD(1))
  from gp.solve_total[OF _ this, of ?x] obtain entry exit where e: "until_stable (gp_sweep f vl preds rpo) (?x, ?x) = Some (entry, exit)"
    "length entry = ?n" "length exit = ?n" "\<forall>c < ?n. facts_ok (fn_dests f) (exit ! c)"
    "\<forall>b \<in> set rpo. facts_eq (gp_out f vl preds exit b) (exit ! b) \<and> entry ! b = gp_inn f preds exit b"
    by (auto simp: sweep order)
  have "set (exit ! b) = set (gp_transfer vl (fn_blocks f ! b) (entry ! b)) \<and>
       set (entry ! b) = (if b = fn_entry f \<or> preds ! b = [] then {} else {e. \<forall>p \<in> set (preds ! b). e \<in> set (exit ! p)})"
    if b: "b \<in> set rpo" for b
  proof -
    have b': "b \<in> set (in_range_order f preds rpo)" using b order by simp
    note inn = gp_inn_spec(1,2)[OF e(3,4) b']
    have "facts_ok (fn_dests f) (gp_out f vl preds exit b)" by (rule gp.out_ok[OF e(3,4) b'])
    then show ?thesis
      using e(5) b inn(2) facts_eq_iff[of "fn_dests f" "gp_out f vl preds exit b" "fn_dests f" "exit ! b"] e(4)
        in_range_orderD(1)[OF b'] by (simp add: gp_out_def)
  qed
  with e show ?thesis by blast
qed

section \<open>The facts are true\<close>

lemma gp_stmts_known:
  assumes "known_ok m s st" "exec_stmts m ss s = Next s'"
    and "\<And>stmt l v. stmt \<in> set ss \<Longrightarrow> stmt = S_Assign (P_Local l) (R_Use v) \<Longrightarrow> reg_operand v \<Longrightarrow>
      typed_alike m (O_Copy (P_Local l)) v \<and> compared_alike m (O_Copy (P_Local l)) v"
    and "\<And>l. m_is_value m l \<Longrightarrow> nth_opt vl l = Some True"
  shows "known_ok m s' (foldl (\<lambda>st stmt. update_known vl stmt st) st ss)"
  using assms(1-3)
proof (induction ss arbitrary: s st)
  case (Cons a ss)
  from Cons.prems(2) obtain s1 where s1: "exec_stmt m a s = Next s1" "exec_stmts m ss s1 = Next s'"
    by (auto split: res.splits)
  have "known_ok m s1 (update_known vl a st)"
    by (rule update_known_ok[OF Cons.prems(1) s1(1)]) (use Cons.prems(3) assms(4) in auto)
  from Cons.IH[OF this s1(2)] Cons.prems(3) show ?case by simp
qed simp

lemma await_known:
  assumes "known_ok m s st" "exec_term m t s = Jump b s'"
  shows "known_ok m s' (case t of T_Await _ (Some d) _ \<Rightarrow> invalidate d st | _ \<Rightarrow> st)"
proof (cases "\<exists>fut d r. t = T_Await fut (Some d) r")
  case True
  then obtain fut d r where t: "t = T_Await fut (Some d) r" by blast
  with assms(2) obtain v h where w: "write_place m (P_Local d) v (s\<lparr>heap := h\<rparr>) = Some s'"
    by (auto simp: exec_term_def split: option.splits eff.splits)
  have "known_ok m s' (invalidate d st)"
  proof (cases "m_is_value m d")
    case True
    with w have "loc s' = loc s" by (auto simp: write_place_def dest: store_place_heap)
    then show ?thesis by (intro known_ok_loc[OF known_ok_invalidate[OF assms(1)]]) auto
  next
    case False
    with w known_ok_write[of m "s\<lparr>heap := h\<rparr>" st d v] assms(1) show ?thesis by (auto simp: write_place_def)
  qed
  with t show ?thesis by simp
next
  case False
  with assms(2) have "loc s' = loc s"
    by (auto simp: exec_term_def split: terminator.splits option.splits eff.splits)
  then have "known_ok m s' st" by (intro known_ok_loc[OF assms(1)]) auto
  with False show ?thesis by (auto split: terminator.split option.split)
qed

lemma gp_transfer_known:
  assumes "known_ok m s st" "exec_block m blk s = Jump b s'"
    and "\<And>stmt l v. stmt \<in> set (stmts blk) \<Longrightarrow> stmt = S_Assign (P_Local l) (R_Use v) \<Longrightarrow> reg_operand v \<Longrightarrow>
      typed_alike m (O_Copy (P_Local l)) v \<and> compared_alike m (O_Copy (P_Local l)) v"
    and "\<And>l. m_is_value m l \<Longrightarrow> nth_opt vl l = Some True"
  shows "known_ok m s' (gp_transfer vl blk st)"
proof -
  from assms(2) obtain s1 where s1: "exec_stmts m (stmts blk) s = Next s1" "exec_term m (term_of blk) s1 = Jump b s'"
    by (auto simp: exec_block_def split: res.splits)
  have "known_ok m s1 (foldl (\<lambda>st stmt. update_known vl stmt st) st (stmts blk))"
    by (rule gp_stmts_known[OF assms(1) s1(1)]) (use assms(3,4) in auto)
  from await_known[OF this s1(2)] show ?thesis by (simp add: gp_transfer_def Let_def)
qed

lemma gp_block_exec:
  assumes "known_ok m s st"
    and "\<And>stmt l v. stmt \<in> set (stmts blk) \<Longrightarrow> stmt = S_Assign (P_Local l) (R_Use v) \<Longrightarrow> reg_operand v \<Longrightarrow>
      typed_alike m (O_Copy (P_Local l)) v \<and> compared_alike m (O_Copy (P_Local l)) v"
    and "\<And>l. m_is_value m l \<Longrightarrow> nth_opt vl l = Some True"
  shows "exec_block m (fst (gp_block vl st blk)) s = exec_block m blk s"
  using prop_stmts_exec[OF assms]
  by (auto simp: gp_block_def exec_block_def case_prod_beta subst_terminator_exec split: res.splits)

section \<open>The rewritten function\<close>

lemma gp_block_successors [simp]: "successors (term_of (fst (gp_block vl st blk))) = successors (term_of blk)"
  by (simp add: gp_block_def case_prod_beta Let_def)

lemma gp_block_unchanged: "\<not> snd (gp_block vl st blk) \<Longrightarrow> fst (gp_block vl st blk) = blk"
  using prop_stmts_unchanged[of vl st "stmts blk"] subst_terminator_unchanged
  by (auto simp: gp_block_def case_prod_beta Let_def)

lemma gp_rewrite_at:
  "gp_rewrite vl entry = rewrite_at (\<lambda>b blk. map_option (\<lambda>st. gp_block vl st blk) (nth_opt entry b))"
proof (intro ext, clarify)
  fix f ch b
  show "gp_rewrite vl entry (f, ch) b = rewrite_at (\<lambda>b blk. map_option (\<lambda>st. gp_block vl st blk) (nth_opt entry b)) (f, ch) b"
    by (cases "nth_opt entry b"; cases "block f b") (auto simp: gp_rewrite_def rewrite_at_def case_prod_beta Let_def)
qed

lemma gp_rewrite_fold:
  assumes "distinct bs" "\<forall>b \<in> set bs. b < length (fn_blocks f) \<and> b < length entry"
  shows "\<exists>g c. foldM (gp_rewrite vl entry) (f, ch) bs = Some (g, c) \<and> g = f\<lparr>fn_blocks := fn_blocks g\<rparr> \<and>
    length (fn_blocks g) = length (fn_blocks f) \<and>
    (\<forall>b < length (fn_blocks f). fn_blocks g ! b =
       (if b \<in> set bs then fst (gp_block vl (entry ! b) (fn_blocks f ! b)) else fn_blocks f ! b)) \<and>
    c = (ch \<or> (\<exists>b \<in> set bs. snd (gp_block vl (entry ! b) (fn_blocks f ! b))))"
  using rewrite_at_fold[OF assms(1), of f "\<lambda>b blk. map_option (\<lambda>st. gp_block vl st blk) (nth_opt entry b)" ch] assms(2)
  unfolding gp_rewrite_at by (simp add: Ball_def) (auto simp: nth_opt_in cong: if_cong)

lemma gp_rewrite_fold_shape:
  "foldM (gp_rewrite vl entry) (f, ch) bs = Some (g, c) \<Longrightarrow>
     (\<not> c \<longrightarrow> \<not> ch \<and> g = f) \<and> cfg_shape_of g = cfg_shape_of f"
  unfolding gp_rewrite_at
proof (erule rewrite_at_shape[rotated])
  fix b blk blk' c assume "map_option (\<lambda>st. gp_block vl st blk) (nth_opt entry b) = Some (blk', c)"
  then obtain st where "gp_block vl st blk = (blk', c)" by auto
  with gp_block_successors[of vl st blk] gp_block_unchanged[of vl st blk]
  show "successors (term_of blk') = successors (term_of blk) \<and> (\<not> c \<longrightarrow> blk' = blk)" by simp
qed

text \<open>The pass without the cache: what it computes from fresh analyses.\<close>

definition gp_result :: "type_interner \<Rightarrow> mir_function \<Rightarrow> (mir_function \<times> bool) option" where
  "gp_result i f =
     (let n = length (fn_blocks f) in
      if n = 0 then Some (f, False)
      else do {
        vl \<leftarrow> value_locals i (fn_locals f);
        preds \<leftarrow> predecessors f;
        rpo \<leftarrow> reverse_postorder f;
        (entry, exit) \<leftarrow> until_stable (gp_sweep f vl preds rpo) (replicate n [], replicate n []);
        foldM (gp_rewrite vl entry) (f, False) rpo
      })"

lemma global_prop_computes: "in_step a f \<Longrightarrow> computes f (global_prop i f a) (gp_result i f)"
  unfolding global_prop_def gp_result_def Let_def
  by (auto simp: computes_done computes_def[of f "Some _"]
      intro!: computes_bind computes_query query_predecessors_answers query_reverse_postorder_answers)

lemma gp_result_shape:
  assumes "gp_result i f = Some (g, c)"
  shows "cfg_shape_of g = cfg_shape_of f" "\<not> c \<Longrightarrow> g = f"
  using assms by (auto simp: gp_result_def Let_def bind_Some_iff split: if_splits dest: gp_rewrite_fold_shape)

interpretation global_prop_contract: query_transform "''global-prop''" "global_prop i" "gp_result i" for i
  by unfold_locales (auto intro: global_prop_computes dest: gp_result_shape)

text \<open>
  What the pass returns: the blocks are rewritten from facts that solve the equations of the
  analysis over the reachable blocks.
\<close>

definition gp_solution ::
  "mir_function \<Rightarrow> bool list \<Rightarrow> (block_id \<Rightarrow> block_id set) \<Rightarrow> known list \<Rightarrow> known list \<Rightarrow> bool" where
  "gp_solution f vl preds entry exit \<longleftrightarrow>
     (\<forall>b \<in> reachable f. set (exit ! b) = set (gp_transfer vl (fn_blocks f ! b) (entry ! b)) \<and>
        (b = fn_entry f \<longrightarrow> entry ! b = []) \<and> (\<forall>p \<in> preds b. set (entry ! b) \<subseteq> set (exit ! p)))"

definition gp_rewritten :: "mir_function \<Rightarrow> bool list \<Rightarrow> known list \<Rightarrow> mir_function \<Rightarrow> bool \<Rightarrow> bool" where
  "gp_rewritten f vl entry g c \<longleftrightarrow>
     g = f\<lparr>fn_blocks := fn_blocks g\<rparr> \<and> length (fn_blocks g) = length (fn_blocks f) \<and>
     (\<forall>b < length (fn_blocks f). fn_blocks g ! b =
        (if b \<in> reachable f then fst (gp_block vl (entry ! b) (fn_blocks f ! b)) else fn_blocks f ! b)) \<and>
     c = (\<exists>b \<in> reachable f. snd (gp_block vl (entry ! b) (fn_blocks f ! b)))"

lemma gp_result_eq:
  assumes "cfg_ok f" "value_locals i (fn_locals f) = Some vl"
  shows "\<exists>entry exit g c. gp_result i f = Some (g, c) \<and> gp_solution f vl (\<lambda>b. {a. cfg_edge f a b}) entry exit \<and>
    gp_rewritten f vl entry g c"
proof -
  have ne: "fn_blocks f \<noteq> []" using assms(1) by (auto simp: cfg_ok_def)
  from analyses_of[OF assms(1)] obtain preds rpo where a: "predecessors f = Some preds" "reverse_postorder f = Some rpo"
    "preds_ok f preds rpo" "distinct rpo" "set rpo = reachable f"
    "\<forall>b < length (fn_blocks f). set (preds ! b) = {a. cfg_edge f a b}" by blast
  from gp_solve_total[OF a(3), of vl] obtain entry exit where e:
    "until_stable (gp_sweep f vl preds rpo) (replicate (length (fn_blocks f)) [], replicate (length (fn_blocks f)) []) = Some (entry, exit)"
    "length entry = length (fn_blocks f)"
    "\<forall>b \<in> set rpo. set (exit ! b) = set (gp_transfer vl (fn_blocks f ! b) (entry ! b)) \<and>
       set (entry ! b) = (if b = fn_entry f \<or> preds ! b = [] then {} else {e. \<forall>p \<in> set (preds ! b). e \<in> set (exit ! p)})"
    by blast
  have r: "\<forall>b \<in> set rpo. b < length (fn_blocks f) \<and> b < length entry" using a(3) e(2) by (auto simp: preds_ok_def)
  from gp_rewrite_fold[OF a(4) this, of vl False] obtain g c where
    g: "foldM (gp_rewrite vl entry) (f, False) rpo = Some (g, c)" "g = f\<lparr>fn_blocks := fn_blocks g\<rparr>"
      "length (fn_blocks g) = length (fn_blocks f)"
      "\<forall>b < length (fn_blocks f). fn_blocks g ! b =
         (if b \<in> set rpo then fst (gp_block vl (entry ! b) (fn_blocks f ! b)) else fn_blocks f ! b)"
      "c = (\<exists>b \<in> set rpo. snd (gp_block vl (entry ! b) (fn_blocks f ! b)))" by auto
  have "gp_result i f = Some (g, c)" using ne assms(2) a(1,2) e(1) g(1) by (simp add: gp_result_def Let_def)
  moreover have "gp_rewritten f vl entry g c" unfolding gp_rewritten_def using g(2-5) a(5) by simp
  moreover have "gp_solution f vl (\<lambda>b. {a. cfg_edge f a b}) entry exit"
    unfolding gp_solution_def
  proof (intro ballI conjI impI)
    fix b assume b: "b \<in> reachable f"
    with e(3) a(5) show "set (exit ! b) = set (gp_transfer vl (fn_blocks f ! b) (entry ! b))" by simp
    from b a(5) have "b \<in> set rpo" by simp
    from bspec[OF e(3) this] have "set (entry ! b) = {}" if "b = fn_entry f" using that by simp
    then show "entry ! b = []" if "b = fn_entry f" using that by simp
    fix p assume "p \<in> {a. cfg_edge f a b}"
    with a(6) r b a(5) have "p \<in> set (preds ! b)" by auto
    with b e(3) a(5) show "set (entry ! b) \<subseteq> set (exit ! p)" by (cases "b = fn_entry f") auto
  qed
  ultimately show ?thesis by blast
qed

lemma gp_result_cases:
  assumes "gp_result i f = Some (g, c)" "cfg_ok f"
  shows "\<exists>vl entry exit. value_locals i (fn_locals f) = Some vl \<and>
    gp_solution f vl (\<lambda>b. {a. cfg_edge f a b}) entry exit \<and> gp_rewritten f vl entry g c"
proof -
  have "fn_blocks f \<noteq> []" using assms(2) by (auto simp: cfg_ok_def)
  with assms(1) obtain vl where vl: "value_locals i (fn_locals f) = Some vl"
    by (auto simp: gp_result_def bind_Some_iff Let_def)
  from gp_result_eq[OF assms(2) vl] assms(1) vl show ?thesis by auto
qed

lemma gp_result_total:
  assumes "cfg_ok f" "\<forall>d \<in> set (fn_locals f). ld_ty d < length (kinds i)"
  shows "gp_result i f \<noteq> None"
proof -
  from copy_const_prop_total[OF assms(2)] obtain vl where "value_locals i (fn_locals f) = Some vl"
    by (cases "value_locals i (fn_locals f)") (auto simp: copy_const_prop_def)
  from gp_result_eq[OF assms(1) this] show ?thesis by auto
qed

section \<open>The pass keeps the runs\<close>

lemma global_prop_runs:
  assumes g: "gp_result i f = Some (g, c)" and f: "cfg_ok f"
    and m: "machine_types m i (fn_locals f)" "copies_alike m f"
  shows "runs m f (fn_entry f) s r \<longleftrightarrow> runs m g (fn_entry f) s r"
proof -
  from gp_result_cases[OF g f] obtain vl entry exit where vl: "value_locals i (fn_locals f) = Some vl"
    and sol: "gp_solution f vl (\<lambda>b. {a. cfg_edge f a b}) entry exit" and rw: "gp_rewritten f vl entry g c" by blast
  have isv: "nth_opt vl l = Some True" if "m_is_value m l" for l
    using that m(1) value_locals_nth[OF vl] by (auto simp: machine_types_def nth_opt_Some_iff)
  have alike: "typed_alike m (O_Copy (P_Local l)) v \<and> compared_alike m (O_Copy (P_Local l)) v"
    if "b < length (fn_blocks f)" "stmt \<in> set (stmts (fn_blocks f ! b))" "stmt = S_Assign (P_Local l) (R_Use v)" "reg_operand v"
    for b stmt l v using m(2) that nth_mem[OF that(1)] unfolding copies_alike_def by blast
  note in_range = reachable_in_range[OF f]
  let ?P = "\<lambda>b s. b \<in> reachable f \<and> known_ok m s (entry ! b)"
  show ?thesis
  proof (rule runs_invariant_cong[where P = ?P])
    show "?P (fn_entry f) s" using sol by (auto simp: known_ok_def gp_solution_def)
  next
    fix b s assume P: "?P b s"
    then have b: "b < length (fn_blocks f)" using in_range by blast
    have "exec_block m (fst (gp_block vl (entry ! b) (fn_blocks f ! b))) s = exec_block m (fn_blocks f ! b) s"
      by (rule gp_block_exec) (use P alike[OF b] isv in auto)
    then show "block_step m g b s = block_step m f b s"
      using P b rw by (simp add: block_step_def block_def gp_rewritten_def)
  next
    fix b s b' s' assume P: "?P b s" and j: "block_step m f b s = Jump b' s'"
    then have b: "b < length (fn_blocks f)" using in_range by blast
    from block_step_Jump[OF j] have e: "cfg_edge f b b'" by (simp add: cfg_edge_def)
    with P have b': "b' \<in> reachable f" using reachable_edge by blast
    have "exec_block m (fn_blocks f ! b) s = Jump b' s'" using j b by (simp add: block_step_def block_def)
    then have "known_ok m s' (gp_transfer vl (fn_blocks f ! b) (entry ! b))"
      using gp_transfer_known[OF conjunct2[OF P], of "fn_blocks f ! b" b' s' vl] alike[OF b] isv by blast
    moreover have "set (entry ! b') \<subseteq> set (gp_transfer vl (fn_blocks f ! b) (entry ! b))"
    proof -
      have "set (entry ! b') \<subseteq> set (exit ! b)" using sol b' e by (simp add: gp_solution_def)
      moreover have "set (exit ! b) = set (gp_transfer vl (fn_blocks f ! b) (entry ! b))"
        using sol P by (simp add: gp_solution_def)
      ultimately show ?thesis by simp
    qed
    ultimately show "?P b' s'" using b' known_ok_subset by blast
  qed
qed

end
