(* ===== verification/Gvn_Pass.thy ===== *)
theory Gvn_Pass
  imports Global_Prop
begin

text \<open>
  Common-subexpression elimination (\<open>crates/dream-mir/src/passes/gvn.rs\<close> and
  \<open>scalar_operands.rs\<close>): the arithmetic expressions that are available at the entry of a block, each
  with the local that holds its value, solved as a forward analysis, and the assignments of an
  available expression rewritten to copies. The vectors of the analysis are compared as lists, so
  its termination needs that a set of available expressions determines their order.

  The pass keeps the runs of functions in which no such expression is assigned to a local it reads
  and whose entry is not a jump target; without either condition it does not.
\<close>

section \<open>Keys\<close>

datatype op_key =
    OK_Local local
  | OK_Int int
  | OK_Long int
  | OK_Bool bool
  | OK_Char nat
  | OK_F64 "64 word"
  | OK_F32 "32 word"
  | OK_F16 "16 word"

datatype gvn_key =
    GK_Binary bin_op op_key op_key
  | GK_Unary un_op op_key
  | GK_Checked bin_op op_key op_key
  | GK_CheckedNeg op_key

type_synonym avail = "(gvn_key \<times> local) list"

definition local_flag :: "type_interner \<Rightarrow> local_decl \<Rightarrow> bool option" where
  "local_flag i d = map_option (\<lambda>k. case k of K_Prim p \<Rightarrow> p \<noteq> PString | _ \<Rightarrow> False) (kind i (ld_ty d))"

fun local_flags :: "type_interner \<Rightarrow> local_decl list \<Rightarrow> bool list option" where
  "local_flags i [] = Some []"
| "local_flags i (d # ds) = do { b \<leftarrow> local_flag i d; bs \<leftarrow> local_flags i ds; Some (b # bs) }"

text \<open>The outer option is the panic on a local that is not declared.\<close>

definition op_key_of :: "operand \<Rightarrow> bool list \<Rightarrow> op_key option option" where
  "op_key_of op scalar =
     (case op of
        O_Copy (P_Local l) \<Rightarrow> do { s \<leftarrow> nth_opt scalar l; Some (if s then Some (OK_Local l) else None) }
      | O_Copy _ \<Rightarrow> Some None
      | O_Const (C_Int v) \<Rightarrow> Some (Some (OK_Int v))
      | O_Const (C_Long v) \<Rightarrow> Some (Some (OK_Long v))
      | O_Const (C_Bool b) \<Rightarrow> Some (Some (OK_Bool b))
      | O_Const (C_Char c) \<Rightarrow> Some (Some (OK_Char c))
      | O_Const (C_Float v) \<Rightarrow> Some (Some (OK_F64 v))
      | O_Const (C_F32 v) \<Rightarrow> Some (Some (OK_F32 v))
      | O_Const (C_F16 v) \<Rightarrow> Some (Some (OK_F16 v))
      | O_Const _ \<Rightarrow> Some None)"

definition pair_key :: "(op_key \<Rightarrow> op_key \<Rightarrow> gvn_key) \<Rightarrow> operand \<Rightarrow> operand \<Rightarrow> bool list \<Rightarrow> gvn_key option option" where
  "pair_key mk a b scalar =
     do {
       ka \<leftarrow> op_key_of a scalar;
       case ka of
         None \<Rightarrow> Some None
       | Some x \<Rightarrow> do { kb \<leftarrow> op_key_of b scalar; Some (map_option (mk x) kb) }
     }"

definition key_of :: "rvalue \<Rightarrow> bool list \<Rightarrow> gvn_key option option" where
  "key_of rv scalar =
     (case rv of
        R_Binary op a b \<Rightarrow> pair_key (GK_Binary op) a b scalar
      | R_Unary op a \<Rightarrow> map_option (map_option (GK_Unary op)) (op_key_of a scalar)
      | R_CheckedBinary op a b \<Rightarrow> pair_key (GK_Checked op) a b scalar
      | R_CheckedNeg a \<Rightarrow> map_option (map_option GK_CheckedNeg) (op_key_of a scalar)
      | _ \<Rightarrow> Some None)"

fun key_mentions :: "gvn_key \<Rightarrow> local \<Rightarrow> bool" where
  "key_mentions (GK_Binary op a b) l = (a = OK_Local l \<or> b = OK_Local l)"
| "key_mentions (GK_Checked op a b) l = (a = OK_Local l \<or> b = OK_Local l)"
| "key_mentions (GK_Unary op a) l = (a = OK_Local l)"
| "key_mentions (GK_CheckedNeg a) l = (a = OK_Local l)"

section \<open>The analysis\<close>

definition avail_invalidate :: "local \<Rightarrow> avail \<Rightarrow> avail" where
  "avail_invalidate dest avail = filter (\<lambda>(k, l). l \<noteq> dest \<and> \<not> key_mentions k dest) avail"

definition apply_avail :: "bool list \<Rightarrow> avail \<Rightarrow> statement \<Rightarrow> avail option" where
  "apply_avail scalar avail stmt =
     (case stmt of
        S_Assign (P_Local dest) rv \<Rightarrow>
          do {
            key \<leftarrow> key_of rv scalar;
            Some (avail_invalidate dest avail @ (case key of Some k \<Rightarrow> [(k, dest)] | None \<Rightarrow> []))
          }
      | _ \<Rightarrow> Some avail)"

definition transfer_avail :: "bool list \<Rightarrow> statement list \<Rightarrow> avail \<Rightarrow> avail option" where
  "transfer_avail scalar ss avail = foldM (apply_avail scalar) avail ss"

fun collect_states :: "block_id list \<Rightarrow> avail option list \<Rightarrow> avail list option option" where
  "collect_states [] exit = Some (Some [])"
| "collect_states (p # ps) exit =
     do {
       s \<leftarrow> nth_opt exit p;
       case s of
         None \<Rightarrow> Some None
       | Some x \<Rightarrow> map_option (map_option (\<lambda>xs. x # xs)) (collect_states ps exit)
     }"

definition meet_avail :: "block_id list \<Rightarrow> avail option list \<Rightarrow> avail option" where
  "meet_avail preds exit =
     do {
       states \<leftarrow> collect_states preds exit;
       Some (case states of
               None \<Rightarrow> []
             | Some [] \<Rightarrow> []
             | Some (acc # others) \<Rightarrow> foldl (\<lambda>acc other. filter (\<lambda>e. e \<in> set other) acc) acc others)
     }"

definition gvn_exit :: "bool list \<Rightarrow> basic_block \<Rightarrow> avail \<Rightarrow> avail option" where
  "gvn_exit scalar blk avail =
     do {
       exit \<leftarrow> transfer_avail scalar (stmts blk) avail;
       Some (case term_of blk of T_Await _ (Some d) _ \<Rightarrow> avail_invalidate d exit | _ \<Rightarrow> exit)
     }"

definition gvn_visit ::
  "mir_function \<Rightarrow> bool list \<Rightarrow> block_id list list \<Rightarrow> avail list \<times> avail option list \<times> bool \<Rightarrow> block_id \<Rightarrow>
     (avail list \<times> avail option list \<times> bool) option" where
  "gvn_visit f scalar preds = (\<lambda>(entry, exit, changed) b.
     do {
       ps \<leftarrow> nth_opt preds b;
       avail \<leftarrow> meet_avail ps exit;
       entry' \<leftarrow> upd_opt entry b avail;
       blk \<leftarrow> block f b;
       out \<leftarrow> gvn_exit scalar blk avail;
       old \<leftarrow> nth_opt exit b;
       exit' \<leftarrow> (if old = Some out then Some exit else upd_opt exit b (Some out));
       Some (entry', exit', changed \<or> old \<noteq> Some out)
     })"

definition gvn_sweep ::
  "mir_function \<Rightarrow> bool list \<Rightarrow> block_id list list \<Rightarrow> block_id list \<Rightarrow> avail list \<times> avail option list \<Rightarrow>
     ((avail list \<times> avail option list) \<times> bool) option" where
  "gvn_sweep f scalar preds rpo = (\<lambda>(entry, exit).
     map_option (\<lambda>(entry, exit, changed). ((entry, exit), changed))
       (foldM (gvn_visit f scalar preds) (entry, exit, False) rpo))"

section \<open>The rewriting\<close>

definition rewrite_cse :: "bool list \<Rightarrow> avail \<Rightarrow> statement \<Rightarrow> (statement \<times> bool \<times> avail) option" where
  "rewrite_cse scalar avail stmt =
     (case stmt of
        S_Assign (P_Local dest) rv \<Rightarrow>
          do {
            key \<leftarrow> key_of rv scalar;
            let found = (case key of
                           None \<Rightarrow> None
                         | Some k \<Rightarrow> find (\<lambda>(ak, l). ak = k \<and> l \<noteq> dest) avail);
            let (stmt', c) = (case found of
                                None \<Rightarrow> (stmt, False)
                              | Some (_, src) \<Rightarrow> (S_Assign (P_Local dest) (R_Use (O_Copy (P_Local src))), True));
            Some (stmt', c, avail_invalidate dest avail @ (case key of Some k \<Rightarrow> [(k, dest)] | None \<Rightarrow> []))
          }
      | _ \<Rightarrow> Some (stmt, False, avail))"

fun rewrite_stmts_cse :: "bool list \<Rightarrow> avail \<Rightarrow> statement list \<Rightarrow> (statement list \<times> bool) option" where
  "rewrite_stmts_cse scalar avail [] = Some ([], False)"
| "rewrite_stmts_cse scalar avail (st # sts) =
     do {
       (st', c, avail') \<leftarrow> rewrite_cse scalar avail st;
       (sts', d) \<leftarrow> rewrite_stmts_cse scalar avail' sts;
       Some (st' # sts', c \<or> d)
     }"

definition gvn_rewrite ::
  "bool list \<Rightarrow> avail list \<Rightarrow> mir_function \<times> bool \<Rightarrow> block_id \<Rightarrow> (mir_function \<times> bool) option" where
  "gvn_rewrite scalar entry = (\<lambda>(f, changed) b.
     do {
       avail \<leftarrow> nth_opt entry b;
       blk \<leftarrow> block f b;
       (ss, c) \<leftarrow> rewrite_stmts_cse scalar avail (stmts blk);
       bs \<leftarrow> upd_opt (fn_blocks f) b (blk\<lparr>stmts := ss\<rparr>);
       Some (f\<lparr>fn_blocks := bs\<rparr>, changed \<or> c)
     })"

definition gvn ::
  "type_interner \<Rightarrow> mir_function \<Rightarrow> function_analyses \<Rightarrow> (mir_function \<times> bool \<times> function_analyses) option" where
  "gvn i f a =
     (let n = length (fn_blocks f) in
      if n = 0 then Some (f, False, a)
      else do {
        scalar \<leftarrow> local_flags i (fn_locals f);
        (rpo, a1) \<leftarrow> query_reverse_postorder a f;
        (preds, a2) \<leftarrow> query_predecessors a1 f;
        (entry, exit) \<leftarrow> until_stable (gvn_sweep f scalar preds rpo) (replicate n [], replicate n None);
        map_option (\<lambda>(g, c). (g, c, a2)) (foldM (gvn_rewrite scalar entry) (f, False) rpo)
      })"

definition gvn_result :: "type_interner \<Rightarrow> mir_function \<Rightarrow> (mir_function \<times> bool) option" where
  "gvn_result i f =
     (let n = length (fn_blocks f) in
      if n = 0 then Some (f, False)
      else do {
        scalar \<leftarrow> local_flags i (fn_locals f);
        rpo \<leftarrow> reverse_postorder f;
        preds \<leftarrow> predecessors f;
        (entry, exit) \<leftarrow> until_stable (gvn_sweep f scalar preds rpo) (replicate n [], replicate n None);
        foldM (gvn_rewrite scalar entry) (f, False) rpo
      })"

lemma gvn_computes: "in_step a f \<Longrightarrow> computes f (gvn i f a) (gvn_result i f)"
  unfolding gvn_def gvn_result_def Let_def
  by (auto simp: computes_done computes_def[of f "Some _"]
      intro!: computes_bind computes_query query_predecessors_answers query_reverse_postorder_answers)

section \<open>Keys and expressions\<close>

text \<open>The key of an expression determines it.\<close>

fun key_operand :: "op_key \<Rightarrow> operand" where
  "key_operand (OK_Local l) = O_Copy (P_Local l)"
| "key_operand (OK_Int v) = O_Const (C_Int v)"
| "key_operand (OK_Long v) = O_Const (C_Long v)"
| "key_operand (OK_Bool b) = O_Const (C_Bool b)"
| "key_operand (OK_Char c) = O_Const (C_Char c)"
| "key_operand (OK_F64 v) = O_Const (C_Float v)"
| "key_operand (OK_F32 v) = O_Const (C_F32 v)"
| "key_operand (OK_F16 v) = O_Const (C_F16 v)"

fun key_rvalue :: "gvn_key \<Rightarrow> rvalue" where
  "key_rvalue (GK_Binary op a b) = R_Binary op (key_operand a) (key_operand b)"
| "key_rvalue (GK_Unary op a) = R_Unary op (key_operand a)"
| "key_rvalue (GK_Checked op a b) = R_CheckedBinary op (key_operand a) (key_operand b)"
| "key_rvalue (GK_CheckedNeg a) = R_CheckedNeg (key_operand a)"

lemma op_key_of_Some: "op_key_of op scalar = Some (Some k) \<Longrightarrow> op = key_operand k"
  by (auto simp: op_key_of_def bind_Some_iff split: operand.splits place.splits const.splits if_splits)

lemma pair_key_Some:
  "pair_key mk a b scalar = Some (Some k) \<Longrightarrow> \<exists>x y. a = key_operand x \<and> b = key_operand y \<and> k = mk x y"
  by (auto simp: pair_key_def bind_Some_iff split: option.splits) (metis op_key_of_Some)

lemma key_of_Some: "key_of rv scalar = Some (Some k) \<Longrightarrow> rv = key_rvalue k"
  by (auto simp: key_of_def dest: op_key_of_Some dest!: pair_key_Some split: rvalue.splits)

text \<open>The expressions a function assigns, with the locals they are assigned to.\<close>

definition assigned_keys :: "mir_function \<Rightarrow> bool list \<Rightarrow> (gvn_key \<times> local) set" where
  "assigned_keys f scalar =
     {(k, d). \<exists>blk \<in> set (fn_blocks f). \<exists>rv. S_Assign (P_Local d) rv \<in> set (stmts blk) \<and> key_of rv scalar = Some (Some k)}"

lemma assigned_keysI:
  "blk \<in> set (fn_blocks f) \<Longrightarrow> S_Assign (P_Local d) rv \<in> set (stmts blk) \<Longrightarrow> key_of rv scalar = Some (Some k) \<Longrightarrow>
     (k, d) \<in> assigned_keys f scalar"
  by (auto simp: assigned_keys_def)

lemma finite_assigned_keys: "finite (assigned_keys f scalar)"
proof -
  let ?g = "\<lambda>st. case st of S_Assign (P_Local d) rv \<Rightarrow> (the (the (key_of rv scalar)), d) | _ \<Rightarrow> undefined"
  have "assigned_keys f scalar \<subseteq> (\<Union>blk \<in> set (fn_blocks f). ?g ` set (stmts blk))"
  proof
    fix e assume "e \<in> assigned_keys f scalar"
    then obtain k d blk rv where e: "e = (k, d)" "blk \<in> set (fn_blocks f)" "S_Assign (P_Local d) rv \<in> set (stmts blk)"
      "key_of rv scalar = Some (Some k)" by (auto simp: assigned_keys_def)
    then have "e = ?g (S_Assign (P_Local d) rv)" by simp
    with e(2,3) show "e \<in> (\<Union>blk \<in> set (fn_blocks f). ?g ` set (stmts blk))" by blast
  qed
  then show ?thesis by (rule finite_subset) simp
qed

definition key_known :: "bool list \<Rightarrow> statement \<Rightarrow> bool" where
  "key_known scalar st = (case st of S_Assign (P_Local _) rv \<Rightarrow> key_of rv scalar \<noteq> None | _ \<Rightarrow> True)"

definition keys_total :: "mir_function \<Rightarrow> bool list \<Rightarrow> bool" where
  "keys_total f scalar \<longleftrightarrow> list_all (\<lambda>blk. list_all (key_known scalar) (stmts blk)) (fn_blocks f)"

section \<open>A block keeps some expressions and adds some\<close>

definition keeps_adds :: "(avail \<Rightarrow> avail option) \<Rightarrow> (gvn_key \<times> local \<Rightarrow> bool) \<Rightarrow> avail \<Rightarrow> bool" where
  "keeps_adds t K G \<longleftrightarrow> (\<forall>avail. t avail = Some (filter K avail @ G)) \<and> distinct G \<and> (\<forall>e \<in> set G. \<not> K e)"

lemma keeps_adds_id: "keeps_adds Some (\<lambda>_. True) []"
  by (simp add: keeps_adds_def)

lemma keeps_adds_comp:
  assumes "keeps_adds t K G" "keeps_adds u L H"
  shows "keeps_adds (\<lambda>avail. Option.bind (t avail) u) (\<lambda>e. K e \<and> L e) (filter L G @ H)"
  using assms by (auto simp: keeps_adds_def filter_filter conj_commute)

lemma keeps_adds_invalidate: "keeps_adds (\<lambda>a. Some (avail_invalidate d a)) (\<lambda>(k, l). l \<noteq> d \<and> \<not> key_mentions k d) []"
  by (simp add: keeps_adds_def avail_invalidate_def)

lemma apply_avail_form:
  assumes "key_known scalar st"
  shows "\<exists>K G. keeps_adds (\<lambda>avail. apply_avail scalar avail st) K G \<and>
    (\<forall>(k, d) \<in> set G. \<exists>rv. st = S_Assign (P_Local d) rv \<and> key_of rv scalar = Some (Some k))"
proof (cases "\<exists>d rv. st = S_Assign (P_Local d) rv")
  case True
  then obtain d rv where st: "st = S_Assign (P_Local d) rv" by blast
  with assms obtain key where key: "key_of rv scalar = Some key" by (auto simp: key_known_def)
  show ?thesis
    by (rule exI[of _ "\<lambda>(k, l). l \<noteq> d \<and> \<not> key_mentions k d"], rule exI[of _ "case key of Some k \<Rightarrow> [(k, d)] | None \<Rightarrow> []"])
      (auto simp: keeps_adds_def apply_avail_def st key avail_invalidate_def split: option.splits)
next
  case False
  then have "apply_avail scalar avail st = Some avail" for avail
    by (auto simp: apply_avail_def split: statement.split place.split)
  then show ?thesis by (intro exI[of _ "\<lambda>_. True"] exI[of _ "[]"]) (simp add: keeps_adds_def)
qed

lemma transfer_form:
  assumes "list_all (key_known scalar) ss"
  shows "\<exists>K G. keeps_adds (transfer_avail scalar ss) K G \<and>
    (\<forall>(k, d) \<in> set G. \<exists>rv. S_Assign (P_Local d) rv \<in> set ss \<and> key_of rv scalar = Some (Some k))"
  using assms
proof (induction ss)
  case Nil
  then show ?case using keeps_adds_id by (intro exI[of _ "\<lambda>_. True"] exI[of _ "[]"]) (auto simp: transfer_avail_def[abs_def])
next
  case (Cons st ss)
  from apply_avail_form[of scalar st] Cons.prems obtain K G where g: "keeps_adds (\<lambda>avail. apply_avail scalar avail st) K G"
    "\<forall>(k, d) \<in> set G. \<exists>rv. st = S_Assign (P_Local d) rv \<and> key_of rv scalar = Some (Some k)" by auto
  from Cons obtain L H where h: "keeps_adds (transfer_avail scalar ss) L H"
    "\<forall>(k, d) \<in> set H. \<exists>rv. S_Assign (P_Local d) rv \<in> set ss \<and> key_of rv scalar = Some (Some k)" by auto
  have "transfer_avail scalar (st # ss) = (\<lambda>avail. Option.bind (apply_avail scalar avail st) (transfer_avail scalar ss))"
    by (simp add: transfer_avail_def[abs_def])
  with keeps_adds_comp[OF g(1) h(1)] g(2) h(2) show ?case
    by (intro exI[of _ "\<lambda>e. K e \<and> L e"] exI[of _ "filter L G @ H"]) fastforce
qed

lemma exit_form:
  assumes "keys_total f scalar" "blk \<in> set (fn_blocks f)"
  shows "\<exists>K G. keeps_adds (gvn_exit scalar blk) K G \<and> set G \<subseteq> assigned_keys f scalar"
proof -
  have "list_all (key_known scalar) (stmts blk)" using assms by (simp add: keys_total_def list_all_iff)
  from transfer_form[OF this] obtain K G where g: "keeps_adds (transfer_avail scalar (stmts blk)) K G"
    "\<forall>(k, d) \<in> set G. \<exists>rv. S_Assign (P_Local d) rv \<in> set (stmts blk) \<and> key_of rv scalar = Some (Some k)" by blast
  have G: "set G \<subseteq> assigned_keys f scalar" using g(2) assms(2) by (auto intro: assigned_keysI)
  show ?thesis
  proof (cases "\<exists>fut d r. term_of blk = T_Await fut (Some d) r")
    case True
    then obtain fut d r where t: "term_of blk = T_Await fut (Some d) r" by blast
    have "gvn_exit scalar blk = (\<lambda>avail. Option.bind (transfer_avail scalar (stmts blk) avail) (\<lambda>a. Some (avail_invalidate d a)))"
      by (simp add: gvn_exit_def[abs_def] t)
    with keeps_adds_comp[OF g(1) keeps_adds_invalidate[of d]] G show ?thesis by (metis (no_types, lifting) append_Nil2 filter_is_subset subset_trans)
  next
    case False
    have "gvn_exit scalar blk avail = transfer_avail scalar (stmts blk) avail" for avail
      using False by (cases "transfer_avail scalar (stmts blk) avail")
        (auto simp: gvn_exit_def split: terminator.split option.split)
    then have "gvn_exit scalar blk = transfer_avail scalar (stmts blk)" by blast
    with g(1) G show ?thesis by auto
  qed
qed

definition block_adds :: "bool list \<Rightarrow> basic_block \<Rightarrow> avail" where
  "block_adds scalar blk = the (gvn_exit scalar blk [])"

definition block_keeps :: "bool list \<Rightarrow> basic_block \<Rightarrow> gvn_key \<times> local \<Rightarrow> bool" where
  "block_keeps scalar blk e \<longleftrightarrow> gvn_exit scalar blk [e] = Some (e # block_adds scalar blk)"

lemma gvn_exit_eq:
  assumes "keys_total f scalar" "blk \<in> set (fn_blocks f)"
  shows "gvn_exit scalar blk avail = Some (filter (block_keeps scalar blk) avail @ block_adds scalar blk)"
    "distinct (block_adds scalar blk)" "e \<in> set (block_adds scalar blk) \<Longrightarrow> \<not> block_keeps scalar blk e"
    "set (block_adds scalar blk) \<subseteq> assigned_keys f scalar"
proof -
  from exit_form[OF assms] obtain K G where k: "keeps_adds (gvn_exit scalar blk) K G" "set G \<subseteq> assigned_keys f scalar" by blast
  then have G: "block_adds scalar blk = G" by (simp add: block_adds_def keeps_adds_def)
  have "block_keeps scalar blk = K"
    using k(1) by (intro ext) (auto simp: block_keeps_def G keeps_adds_def)
  with G k show "gvn_exit scalar blk avail = Some (filter (block_keeps scalar blk) avail @ block_adds scalar blk)"
    "distinct (block_adds scalar blk)" "e \<in> set (block_adds scalar blk) \<Longrightarrow> \<not> block_keeps scalar blk e"
    "set (block_adds scalar blk) \<subseteq> assigned_keys f scalar" by (auto simp: keeps_adds_def)
qed

section \<open>The order of the available expressions\<close>

text \<open>
  Along the chain of first predecessors, what each block keeps of the lists before it and adds. The
  list of a block at any time of the analysis is a part of one of these, in its order, and a longer
  chain only puts more in front.
\<close>

fun chain_list :: "mir_function \<Rightarrow> bool list \<Rightarrow> block_id list list \<Rightarrow> nat \<Rightarrow> block_id \<Rightarrow> avail" where
  "chain_list f scalar preds 0 b = block_adds scalar (fn_blocks f ! b)"
| "chain_list f scalar preds (Suc k) b =
     (case preds ! b of
        [] \<Rightarrow> []
      | p # _ \<Rightarrow> filter (block_keeps scalar (fn_blocks f ! b)) (chain_list f scalar preds k p)) @
     block_adds scalar (fn_blocks f ! b)"

lemma chain_list_longer: "\<exists>ys. chain_list f scalar preds (Suc k) b = ys @ chain_list f scalar preds k b"
proof (induction k arbitrary: b)
  case 0
  show ?case by simp
next
  case (Suc k)
  show ?case
  proof (cases "preds ! b")
    case (Cons p ps)
    from Suc[of p] obtain ys where "chain_list f scalar preds (Suc k) p = ys @ chain_list f scalar preds k p" by blast
    with Cons show ?thesis by (simp del: chain_list.simps(2) add: chain_list.simps(2)[of f scalar preds _ b])
  qed simp
qed

lemma chain_list_mono: "k \<le> k' \<Longrightarrow> \<exists>ys. chain_list f scalar preds k' b = ys @ chain_list f scalar preds k b"
proof (induction rule: dec_induct)
  case base
  show ?case by simp
next
  case (step n)
  with chain_list_longer[of f scalar preds n b] show ?case by (metis append.assoc)
qed

definition in_order :: "mir_function \<Rightarrow> bool list \<Rightarrow> block_id list list \<Rightarrow> block_id \<Rightarrow> avail \<Rightarrow> bool" where
  "in_order f scalar preds b xs \<longleftrightarrow>
     set xs \<subseteq> assigned_keys f scalar \<and>
     (\<exists>k. distinct (chain_list f scalar preds k b) \<and> xs = filter (\<lambda>e. e \<in> set xs) (chain_list f scalar preds k b))"

lemma in_orderI:
  "set xs \<subseteq> assigned_keys f scalar \<Longrightarrow> distinct (chain_list f scalar preds k b) \<Longrightarrow>
     xs = filter (\<lambda>e. e \<in> set xs) (chain_list f scalar preds k b) \<Longrightarrow> in_order f scalar preds b xs"
  unfolding in_order_def by blast

lemma filter_suffix_eq:
  assumes "distinct (ys @ zs)" "set (filter P zs) = S" "set (filter P (ys @ zs)) = S"
  shows "filter P (ys @ zs) = filter P zs"
proof -
  have "set (filter P ys) \<subseteq> set ys \<inter> set zs" using assms(2,3) by auto
  with assms(1) have "filter P ys = []" by auto
  then show ?thesis by simp
qed

lemma in_order_le:
  assumes "distinct (chain_list f scalar preds k' b)" "k \<le> k'" "set xs = set ys"
    and "xs = filter (\<lambda>e. e \<in> set xs) (chain_list f scalar preds k b)"
    and "ys = filter (\<lambda>e. e \<in> set ys) (chain_list f scalar preds k' b)"
  shows "xs = ys"
proof -
  from chain_list_mono[OF assms(2)] obtain zs where z: "chain_list f scalar preds k' b = zs @ chain_list f scalar preds k b" by blast
  let ?P = "\<lambda>e. e \<in> set ys"
  have xs: "xs = filter ?P (chain_list f scalar preds k b)" using assms(3,4) by simp
  have ys: "ys = filter ?P (zs @ chain_list f scalar preds k b)" using assms(5) z by simp
  have "filter ?P (zs @ chain_list f scalar preds k b) = filter ?P (chain_list f scalar preds k b)"
    by (rule filter_suffix_eq[of _ _ _ "set ys"]) (use assms(1) z xs ys assms(3) in \<open>metis+\<close>)
  with xs ys show ?thesis by simp
qed

lemma in_order_unique: "in_order f scalar preds b xs \<Longrightarrow> in_order f scalar preds b ys \<Longrightarrow> set xs = set ys \<Longrightarrow> xs = ys"
  unfolding in_order_def using in_order_le[of f scalar preds _ b] by (metis nat_le_linear)

lemma in_order_filter:
  assumes "in_order f scalar preds b xs"
  shows "in_order f scalar preds b (filter P xs)"
proof -
  from assms obtain k where k: "distinct (chain_list f scalar preds k b)"
    "xs = filter (\<lambda>e. e \<in> set xs) (chain_list f scalar preds k b)" "set xs \<subseteq> assigned_keys f scalar" by (auto simp: in_order_def)
  have "filter P xs = filter (\<lambda>e. e \<in> set (filter P xs)) (chain_list f scalar preds k b)"
  proof -
    have "filter P xs = filter P (filter (\<lambda>e. e \<in> set xs) (chain_list f scalar preds k b))" using k(2) by simp
    also have "\<dots> = filter (\<lambda>e. e \<in> set (filter P xs)) (chain_list f scalar preds k b)" by (simp add: conj_commute)
    finally show ?thesis .
  qed
  moreover have "set (filter P xs) \<subseteq> assigned_keys f scalar" using k(3) by auto
  ultimately show ?thesis using k(1) by (intro in_orderI)
qed

text \<open>What a block passes on is in order if what comes from its first predecessor is.\<close>

lemma in_order_exit:
  assumes keys: "keys_total f scalar" "b < length (fn_blocks f)"
    and avail: "avail = [] \<or> (\<exists>p ps. preds ! b = p # ps \<and> in_order f scalar preds p avail)"
  shows "in_order f scalar preds b (filter (block_keeps scalar (fn_blocks f ! b)) avail @ block_adds scalar (fn_blocks f ! b))"
proof -
  let ?K = "block_keeps scalar (fn_blocks f ! b)" and ?G = "block_adds scalar (fn_blocks f ! b)"
  note ex = gvn_exit_eq[OF keys(1) nth_mem[OF keys(2)]]
  from avail show ?thesis
  proof (elim disjE exE conjE)
    assume a: "avail = []"
    show ?thesis unfolding in_order_def a
      by (intro conjI exI[of _ 0]) (use ex(2,4) in simp_all)
  next
    fix p ps assume p: "preds ! b = p # ps" and o: "in_order f scalar preds p avail"
    then obtain k where k: "distinct (chain_list f scalar preds k p)"
      "avail = filter (\<lambda>e. e \<in> set avail) (chain_list f scalar preds k p)" "set avail \<subseteq> assigned_keys f scalar"
      by (auto simp: in_order_def)
    have c: "chain_list f scalar preds (Suc k) b = filter ?K (chain_list f scalar preds k p) @ ?G" using p by simp
    have d: "distinct (chain_list f scalar preds (Suc k) b)" unfolding c using k(1) ex(2,3) by auto
    let ?out = "filter ?K avail @ ?G"
    have "filter (\<lambda>e. e \<in> set ?out) (filter ?K (chain_list f scalar preds k p)) =
        filter ?K (filter (\<lambda>e. e \<in> set avail) (chain_list f scalar preds k p))"
      using ex(3) by (auto intro!: filter_cong)
    then have "?out = filter (\<lambda>e. e \<in> set ?out) (chain_list f scalar preds (Suc k) b)"
      unfolding c using k(2) by simp
    moreover have "set ?out \<subseteq> assigned_keys f scalar" using k(3) ex(4) by auto
    ultimately show ?thesis using d by (intro in_orderI)
  qed
qed

section \<open>The analysis ends\<close>

lemma collect_states_spec:
  "\<forall>p \<in> set ps. p < length exit \<Longrightarrow>
     collect_states ps exit =
       Some (if \<exists>p \<in> set ps. exit ! p = None then None else Some (map (\<lambda>p. the (exit ! p)) ps))"
  by (induction ps) (auto split: option.split)

lemma foldl_filter: "foldl (\<lambda>acc other. filter (\<lambda>e. e \<in> set other) acc) acc xs = filter (\<lambda>e. \<forall>x \<in> set xs. e \<in> set x) acc"
  by (induction xs arbitrary: acc) (auto intro: filter_cong)

definition gvn_inn :: "block_id list list \<Rightarrow> avail option list \<Rightarrow> block_id \<Rightarrow> avail" where
  "gvn_inn preds exit b = the (meet_avail (preds ! b) exit)"

definition gvn_out :: "mir_function \<Rightarrow> bool list \<Rightarrow> block_id list list \<Rightarrow> avail option list \<Rightarrow> block_id \<Rightarrow> avail option" where
  "gvn_out f scalar preds exit b = gvn_exit scalar (fn_blocks f ! b) (gvn_inn preds exit b)"

definition avail_set :: "avail option \<Rightarrow> (gvn_key \<times> local) option set" where
  "avail_set u = (case u of None \<Rightarrow> {} | Some xs \<Rightarrow> insert None (Some ` set xs))"

definition avail_in_order :: "mir_function \<Rightarrow> bool list \<Rightarrow> block_id list list \<Rightarrow> block_id \<Rightarrow> avail option \<Rightarrow> bool" where
  "avail_in_order f scalar preds b u = (case u of None \<Rightarrow> True | Some xs \<Rightarrow> in_order f scalar preds b xs)"

definition gvn_order :: "mir_function \<Rightarrow> bool list \<Rightarrow> block_id list list \<Rightarrow> block_id list \<Rightarrow> block_id list" where
  "gvn_order f scalar preds rpo = (if keys_total f scalar then in_range_order f preds rpo else [])"

lemma gvn_orderD:
  assumes "b \<in> set (gvn_order f scalar preds rpo)"
  shows "keys_total f scalar" "b < length (fn_blocks f)" "length preds = length (fn_blocks f)"
    "p \<in> set (preds ! b) \<Longrightarrow> p < length (fn_blocks f)"
  using assms in_range_orderD by (auto simp: gvn_order_def split: if_splits)

lemma gvn_inn_spec:
  assumes "length x = length (fn_blocks f)" "b \<in> set (gvn_order f scalar preds rpo)"
  shows "meet_avail (preds ! b) x = Some (gvn_inn preds x b)"
    "set (gvn_inn preds x b) =
       (if preds ! b = [] then {} else {e. \<forall>p \<in> set (preds ! b). Some e \<in> avail_set (x ! p)})"
    "\<forall>c < length (fn_blocks f). avail_in_order f scalar preds c (x ! c) \<Longrightarrow>
       gvn_inn preds x b = [] \<or> (\<exists>p ps. preds ! b = p # ps \<and> in_order f scalar preds p (gvn_inn preds x b))"
proof -
  have r: "\<forall>p \<in> set (preds ! b). p < length x" using gvn_orderD(4)[OF assms(2)] assms(1) by simp
  have m: "meet_avail (preds ! b) x = Some (case preds ! b of [] \<Rightarrow> []
      | p # ps \<Rightarrow> if \<exists>q \<in> set (p # ps). x ! q = None then []
          else filter (\<lambda>e. \<forall>q \<in> set ps. e \<in> set (the (x ! q))) (the (x ! p)))"
    using collect_states_spec[OF r] by (cases "preds ! b") (auto simp: meet_avail_def foldl_filter)
  then show "meet_avail (preds ! b) x = Some (gvn_inn preds x b)" by (simp add: gvn_inn_def)
  show "set (gvn_inn preds x b) = (if preds ! b = [] then {} else {e. \<forall>p \<in> set (preds ! b). Some e \<in> avail_set (x ! p)})"
  proof (cases "preds ! b")
    case (Cons p ps)
    show ?thesis
    proof (cases "\<exists>q \<in> set (p # ps). x ! q = None")
      case True
      then obtain q where q: "q \<in> set (p # ps)" "x ! q = None" by blast
      then have "avail_set (x ! q) = {}" by (simp add: avail_set_def)
      with q(1) have "{e. \<forall>p \<in> set (p # ps). Some e \<in> avail_set (x ! p)} = {}" by blast
      with True Cons m show ?thesis by (simp add: gvn_inn_def)
    next
      case False
      then have "avail_set (x ! q) = insert None (Some ` set (the (x ! q)))" if "q \<in> set (p # ps)" for q
        using that by (auto simp: avail_set_def)
      with False Cons m show ?thesis by (auto simp: gvn_inn_def)
    qed
  qed (simp add: meet_avail_def gvn_inn_def)
  assume o: "\<forall>c < length (fn_blocks f). avail_in_order f scalar preds c (x ! c)"
  show "gvn_inn preds x b = [] \<or> (\<exists>p ps. preds ! b = p # ps \<and> in_order f scalar preds p (gvn_inn preds x b))"
  proof (cases "preds ! b")
    case (Cons p ps)
    show ?thesis
    proof (cases "\<exists>q \<in> set (p # ps). x ! q = None")
      case False
      then have "in_order f scalar preds p (the (x ! p))"
        using o gvn_orderD(4)[OF assms(2), of p] Cons by (auto simp: avail_in_order_def split: option.splits)
      with False Cons m in_order_filter show ?thesis by (auto simp: gvn_inn_def)
    qed (use Cons m in \<open>auto simp: gvn_inn_def\<close>)
  qed (simp add: meet_avail_def gvn_inn_def)
qed

lemma gvn_out_Some:
  assumes "b \<in> set (gvn_order f scalar preds rpo)"
  shows "gvn_out f scalar preds x b =
    Some (filter (block_keeps scalar (fn_blocks f ! b)) (gvn_inn preds x b) @ block_adds scalar (fn_blocks f ! b))"
  unfolding gvn_out_def using gvn_exit_eq(1)[OF gvn_orderD(1)[OF assms] nth_mem[OF gvn_orderD(2)[OF assms]]] .

interpretation gvn: growing_flow "gvn_order f scalar preds rpo" "length (fn_blocks f)" "gvn_inn preds"
  "gvn_out f scalar preds" "(=)" avail_set "avail_in_order f scalar preds" "Suc (card (assigned_keys f scalar))"
  "gvn_visit f scalar preds" for f scalar preds rpo
proof
  fix b assume "b \<in> set (gvn_order f scalar preds rpo)"
  then show "b < length (fn_blocks f)" by (rule gvn_orderD)
next
  fix x y b
  assume a: "length x = length (fn_blocks f)" "length y = length (fn_blocks f)"
    "\<forall>c < length (fn_blocks f). avail_set (x ! c) \<subseteq> avail_set (y ! c)" "b \<in> set (gvn_order f scalar preds rpo)"
  have "set (gvn_inn preds x b) \<subseteq> set (gvn_inn preds y b)"
    unfolding gvn_inn_spec(2)[OF a(1,4)] gvn_inn_spec(2)[OF a(2,4)]
    using a(3) gvn_orderD(4)[OF a(4)] by (simp add: subset_iff Ball_def)
  then show "avail_set (gvn_out f scalar preds x b) \<subseteq> avail_set (gvn_out f scalar preds y b)"
    by (auto simp: gvn_out_Some[OF a(4)] avail_set_def)
next
  fix x b
  assume a: "length x = length (fn_blocks f)" "\<forall>c < length (fn_blocks f). avail_in_order f scalar preds c (x ! c)"
    "b \<in> set (gvn_order f scalar preds rpo)"
  show "avail_in_order f scalar preds b (gvn_out f scalar preds x b)"
    using in_order_exit[OF gvn_orderD(1,2)[OF a(3)] gvn_inn_spec(3)[OF a(1,3,2)]]
    by (simp add: gvn_out_Some[OF a(3)] avail_in_order_def)
next
  fix b u v assume o: "avail_in_order f scalar preds b u" "avail_in_order f scalar preds b v"
  show "u = v \<longleftrightarrow> avail_set u = avail_set v"
  proof (cases "\<exists>xs ys. u = Some xs \<and> v = Some ys")
    case True
    then obtain xs ys where uv: "u = Some xs" "v = Some ys" by blast
    have "insert None (Some ` set xs) = insert None (Some ` set ys) \<longleftrightarrow> set xs = set ys" by auto
    with uv o in_order_unique show ?thesis by (auto simp: avail_in_order_def avail_set_def)
  qed (auto simp: avail_set_def split: option.splits)
next
  fix b u assume o: "avail_in_order f scalar preds b u"
  show "finite (avail_set u) \<and> card (avail_set u) \<le> Suc (card (assigned_keys f scalar))"
  proof (cases u)
    case (Some xs)
    with o have "set xs \<subseteq> assigned_keys f scalar" by (simp add: avail_in_order_def in_order_def)
    then have "card (Some ` set xs) \<le> card (assigned_keys f scalar)"
      using card_mono[OF finite_assigned_keys] card_image_le[of "set xs" Some] by (meson List.finite_set order_trans)
    then show ?thesis using card_insert_le_m1[of "Suc (card (assigned_keys f scalar))" "Some ` set xs" None]
      by (simp add: Some avail_set_def)
  qed (simp add: avail_set_def)
next
  fix e :: "avail list" and x :: "avail option list" and b ch
  assume a: "length e = length (fn_blocks f)" "length x = length (fn_blocks f)" "b \<in> set (gvn_order f scalar preds rpo)"
  note b = gvn_orderD[OF a(3)] and m = gvn_inn_spec(1)[OF a(2,3)] and out = gvn_out_Some[OF a(3), of x]
  show "gvn_visit f scalar preds (e, x, ch) b =
    Some (e[b := gvn_inn preds x b], if gvn_out f scalar preds x b = x ! b then x else x[b := gvn_out f scalar preds x b],
      ch \<or> \<not> gvn_out f scalar preds x b = x ! b)"
    using b(2,3) a(1,2) m out by (auto simp: gvn_visit_def block_def gvn_out_def)
qed

lemma gvn_solve_total:
  assumes "preds_ok f preds rpo" "keys_total f scalar"
  shows "\<exists>entry exit. until_stable (gvn_sweep f scalar preds rpo)
      (replicate (length (fn_blocks f)) [], replicate (length (fn_blocks f)) None) = Some (entry, exit) \<and>
    length entry = length (fn_blocks f) \<and>
    (\<forall>b \<in> set rpo. exit ! b = gvn_exit scalar (fn_blocks f ! b) (entry ! b) \<and> exit ! b \<noteq> None \<and>
       set (entry ! b) = (if preds ! b = [] then {} else {e. \<forall>p \<in> set (preds ! b). Some e \<in> avail_set (exit ! p)}))"
proof -
  let ?n = "length (fn_blocks f)"
  let ?e = "replicate ?n ([] :: avail)" and ?x = "replicate ?n (None :: avail option)"
  have order: "gvn_order f scalar preds rpo = rpo" using assms by (simp add: gvn_order_def in_range_order_def)
  have sweep: "gvn_sweep f scalar preds rpo = gvn.sweep f scalar preds rpo"
    unfolding gvn_sweep_def gvn.sweep_def by (simp add: order)
  have "gvn.rising f scalar preds rpo ?x"
    by (auto simp: gvn.rising_def avail_in_order_def avail_set_def dest: gvn_orderD(2))
  from gvn.solve_total[OF _ this, of ?e] obtain entry exit where e:
    "until_stable (gvn_sweep f scalar preds rpo) (?e, ?x) = Some (entry, exit)" "length entry = ?n" "length exit = ?n"
    "\<forall>b \<in> set rpo. gvn_out f scalar preds exit b = exit ! b \<and> entry ! b = gvn_inn preds exit b"
    by (auto simp: sweep order)
  have "exit ! b = gvn_exit scalar (fn_blocks f ! b) (entry ! b) \<and> exit ! b \<noteq> None \<and>
       set (entry ! b) = (if preds ! b = [] then {} else {e. \<forall>p \<in> set (preds ! b). Some e \<in> avail_set (exit ! p)})"
    if b: "b \<in> set rpo" for b
  proof -
    have b': "b \<in> set (gvn_order f scalar preds rpo)" using b order by simp
    from bspec[OF e(4) b] gvn_inn_spec(2)[OF e(3) b'] gvn_out_Some[OF b', of exit] show ?thesis
      by (simp add: gvn_out_def)
  qed
  with e(1,2) show ?thesis by blast
qed

section \<open>The rewriting\<close>

lemma rewrite_cse_total:
  "key_known scalar st \<Longrightarrow> \<exists>st' c avail'. rewrite_cse scalar avail st = Some (st', c, avail') \<and> apply_avail scalar avail st = Some avail'"
  by (auto simp: key_known_def rewrite_cse_def apply_avail_def case_prod_beta Let_def split: statement.split place.split)

lemma rewrite_stmts_cse_total: "list_all (key_known scalar) ss \<Longrightarrow> rewrite_stmts_cse scalar avail ss \<noteq> None"
proof (induction ss arbitrary: avail)
  case (Cons st ss)
  then obtain st' c avail' where "rewrite_cse scalar avail st = Some (st', c, avail')" using rewrite_cse_total[of scalar st avail] by auto
  moreover obtain r where "rewrite_stmts_cse scalar avail' ss = Some r" using Cons.IH[of avail'] Cons.prems by auto
  ultimately show ?case by (simp add: case_prod_beta)
qed simp

lemma rewrite_cse_unchanged: "rewrite_cse scalar avail st = Some (st', False, avail') \<Longrightarrow> st' = st"
  by (auto simp: rewrite_cse_def bind_Some_iff Let_def split: statement.splits place.splits option.splits)

lemma rewrite_stmts_cse_unchanged: "rewrite_stmts_cse scalar avail ss = Some (ss', False) \<Longrightarrow> ss' = ss"
  by (induction ss arbitrary: avail ss') (auto simp: bind_Some_iff dest: rewrite_cse_unchanged)

lemma gvn_rewrite_at:
  "gvn_rewrite scalar entry = rewrite_at (\<lambda>b blk. do { avail \<leftarrow> nth_opt entry b;
     map_option (\<lambda>(ss, c). (blk\<lparr>stmts := ss\<rparr>, c)) (rewrite_stmts_cse scalar avail (stmts blk)) })"
proof (intro ext, clarify)
  fix f ch b
  show "gvn_rewrite scalar entry (f, ch) b = rewrite_at (\<lambda>b blk. do { avail \<leftarrow> nth_opt entry b;
     map_option (\<lambda>(ss, c). (blk\<lparr>stmts := ss\<rparr>, c)) (rewrite_stmts_cse scalar avail (stmts blk)) }) (f, ch) b"
    by (cases "nth_opt entry b"; cases "block f b"; cases "rewrite_stmts_cse scalar (the (nth_opt entry b)) (stmts (the (block f b)))")
      (auto simp: gvn_rewrite_def rewrite_at_def case_prod_beta)
qed

lemma gvn_rewrite_fold_shape:
  "foldM (gvn_rewrite scalar entry) (f, ch) bs = Some (g, c) \<Longrightarrow>
     (\<not> c \<longrightarrow> \<not> ch \<and> g = f) \<and> cfg_shape_of g = cfg_shape_of f"
  unfolding gvn_rewrite_at
  by (erule rewrite_at_shape[rotated]) (auto simp: bind_Some_iff dest!: rewrite_stmts_cse_unchanged)

lemma gvn_result_shape:
  assumes "gvn_result i f = Some (g, c)"
  shows "cfg_shape_of g = cfg_shape_of f" "\<not> c \<Longrightarrow> g = f"
  using assms by (auto simp: gvn_result_def Let_def bind_Some_iff split: if_splits dest: gvn_rewrite_fold_shape)

interpretation gvn_contract: query_transform "''gvn''" "gvn i" "gvn_result i" for i
  by unfold_locales (auto intro: gvn_computes dest: gvn_result_shape)

end
