(* ===== verification/Gvn_Sound.thy ===== *)
theory Gvn_Sound
  imports Gvn_Pass Simplify_Cfg
begin

text \<open>
  Soundness of common-subexpression elimination: what the analysis calls available is true on every
  run, so the rewritten function has exactly the runs of the original. The conditions on the
  function are collected in \<open>gvn_input\<close>.
\<close>

section \<open>Available expressions hold their value\<close>

definition avail_ok :: "('v, 'h) machine \<Rightarrow> ('v, 'h) state \<Rightarrow> (gvn_key \<times> local) set \<Rightarrow> bool" where
  "avail_ok m s A \<longleftrightarrow> (\<forall>(k, l) \<in> A. eval_rvalue m (P_Local l) (key_rvalue k) s = Ok (loc s l) (heap s))"

text \<open>
  The assigned expressions are arithmetic on registers: evaluating them neither reads nor writes
  memory, their destinations are registers that they do not read, and the result does not depend on
  which of its destinations an expression is assigned to.
\<close>

definition gvn_input :: "('v, 'h) machine \<Rightarrow> mir_function \<Rightarrow> bool list \<Rightarrow> bool" where
  "gvn_input m f scalar \<longleftrightarrow>
     (\<forall>(k, d) \<in> assigned_keys f scalar.
        \<not> m_is_value m d \<and> \<not> key_mentions k d \<and>
        (\<forall>vs h h' v hp. m_rvalue m (P_Local d) (rvalue_key (key_rvalue k)) vs h = Ok v hp \<longrightarrow>
           hp = h \<and> m_rvalue m (P_Local d) (rvalue_key (key_rvalue k)) vs h' = Ok v h') \<and>
        (\<forall>d'. (k, d') \<in> assigned_keys f scalar \<longrightarrow>
           (\<forall>vs h. m_rvalue m (P_Local d') (rvalue_key (key_rvalue k)) vs h =
              m_rvalue m (P_Local d) (rvalue_key (key_rvalue k)) vs h)))"

lemma eval_key:
  "eval_rvalue m (P_Local d) (key_rvalue k) s =
     (case eval_operands m s (rvalue_operands (key_rvalue k)) of
        None \<Rightarrow> Trap (heap s)
      | Some vs \<Rightarrow> m_rvalue m (P_Local d) (rvalue_key (key_rvalue k)) vs (heap s))"
  by (cases k) (simp_all add: eval_rvalue_def erase_place_def rvalue_locals_def split: option.split)

lemma eval_key_Ok:
  "eval_rvalue m (P_Local d) (key_rvalue k) s = Ok v h \<longleftrightarrow>
     (\<exists>vs. eval_operands m s (rvalue_operands (key_rvalue k)) = Some vs \<and>
        m_rvalue m (P_Local d) (rvalue_key (key_rvalue k)) vs (heap s) = Ok v h)"
  by (simp add: eval_key split: option.split)

lemma eval_key_operand: "a \<noteq> OK_Local d \<Longrightarrow> eval_operand m (s\<lparr>loc := (loc s)(d := v)\<rparr>) (key_operand a) = eval_operand m s (key_operand a)"
  "eval_operand m (s\<lparr>heap := h\<rparr>) (key_operand a) = eval_operand m s (key_operand a)"
  by (cases a; simp)+

lemma eval_key_operands:
  "\<not> key_mentions k d \<Longrightarrow> eval_operands m (s\<lparr>loc := (loc s)(d := v)\<rparr>) (rvalue_operands (key_rvalue k)) =
     eval_operands m s (rvalue_operands (key_rvalue k))"
  "eval_operands m (s\<lparr>heap := h\<rparr>) (rvalue_operands (key_rvalue k)) = eval_operands m s (rvalue_operands (key_rvalue k))"
  by (cases k; simp add: eval_key_operand)+

lemma avail_ok_subset: "avail_ok m s A \<Longrightarrow> B \<subseteq> A \<Longrightarrow> avail_ok m s B"
  by (auto simp: avail_ok_def)

lemma avail_ok_heap:
  assumes "avail_ok m s A" "A \<subseteq> assigned_keys f scalar" "gvn_input m f scalar"
  shows "avail_ok m (s\<lparr>heap := h\<rparr>) A"
  unfolding avail_ok_def
proof (intro ballI, clarify)
  fix k l assume kl: "(k, l) \<in> A"
  with assms(1) have "eval_rvalue m (P_Local l) (key_rvalue k) s = Ok (loc s l) (heap s)" by (auto simp: avail_ok_def)
  then obtain vs where vs: "eval_operands m s (rvalue_operands (key_rvalue k)) = Some vs"
    "m_rvalue m (P_Local l) (rvalue_key (key_rvalue k)) vs (heap s) = Ok (loc s l) (heap s)"
    by (auto simp: eval_key_Ok)
  moreover have "(k, l) \<in> assigned_keys f scalar" using kl assms(2) by blast
  ultimately have "m_rvalue m (P_Local l) (rvalue_key (key_rvalue k)) vs h = Ok (loc s l) h"
    using assms(3) unfolding gvn_input_def by fast
  with vs(1) show "eval_rvalue m (P_Local l) (key_rvalue k) (s\<lparr>heap := h\<rparr>) = Ok (loc (s\<lparr>heap := h\<rparr>) l) (heap (s\<lparr>heap := h\<rparr>))"
    by (simp add: eval_key_Ok eval_key_operands)
qed

lemma avail_ok_write:
  assumes "avail_ok m s A"
  shows "avail_ok m (s\<lparr>loc := (loc s)(d := v)\<rparr>) {(k, l) \<in> A. l \<noteq> d \<and> \<not> key_mentions k d}"
  unfolding avail_ok_def
proof (intro ballI, clarify)
  fix k l assume "(k, l) \<in> A" "l \<noteq> d" "\<not> key_mentions k d"
  with assms show "eval_rvalue m (P_Local l) (key_rvalue k) (s\<lparr>loc := (loc s)(d := v)\<rparr>) =
      Ok (loc (s\<lparr>loc := (loc s)(d := v)\<rparr>) l) (heap (s\<lparr>loc := (loc s)(d := v)\<rparr>))"
    by (auto simp: avail_ok_def eval_key_Ok eval_key_operands)
qed

lemma avail_ok_same_locals:
  assumes "avail_ok m s A" "A \<subseteq> assigned_keys f scalar" "gvn_input m f scalar" "loc s' = loc s"
  shows "avail_ok m s' A"
proof -
  have "s' = s\<lparr>heap := heap s'\<rparr>" using assms(4) by simp
  with avail_ok_heap[OF assms(1-3), of "heap s'"] show ?thesis by metis
qed

text \<open>Writing a register makes the expressions that name it unavailable.\<close>

lemma avail_ok_write_place:
  assumes "avail_ok m s (set avail)" "set avail \<subseteq> assigned_keys f scalar" "gvn_input m f scalar"
    and "write_place m (P_Local d) v (s\<lparr>heap := h\<rparr>) = Some s'"
  shows "avail_ok m s' (set (avail_invalidate d avail))"
proof (cases "m_is_value m d")
  case True
  with assms(4) have "loc s' = loc s" by (auto simp: write_place_def dest: store_place_heap)
  from avail_ok_same_locals[OF assms(1-3) this] show ?thesis
    by (rule avail_ok_subset) (auto simp: avail_invalidate_def)
next
  case False
  with assms(4) have "s' = (s\<lparr>heap := h\<rparr>)\<lparr>loc := (loc (s\<lparr>heap := h\<rparr>))(d := v)\<rparr>" by (simp add: write_place_def)
  with avail_ok_write[OF avail_ok_heap[OF assms(1-3), of h], of d v] show ?thesis
    by (auto simp: avail_invalidate_def intro: avail_ok_subset)
qed

lemma avail_ok_apply:
  assumes "avail_ok m s (set avail)" "set avail \<subseteq> assigned_keys f scalar" "gvn_input m f scalar"
    and "exec_stmt m st s = Next s'" "apply_avail scalar avail st = Some avail'"
    and "blk \<in> set (fn_blocks f)" "st \<in> set (stmts blk)"
  shows "avail_ok m s' (set avail')" "set avail' \<subseteq> assigned_keys f scalar"
proof -
  have "avail_ok m s' (set avail') \<and> set avail' \<subseteq> assigned_keys f scalar"
  proof (cases "\<exists>d rv. st = S_Assign (P_Local d) rv")
    case True
    then obtain d rv where st: "st = S_Assign (P_Local d) rv" by blast
    with assms(5) obtain key where key: "key_of rv scalar = Some key"
      "avail' = avail_invalidate d avail @ (case key of Some k \<Rightarrow> [(k, d)] | None \<Rightarrow> [])"
      by (auto simp: apply_avail_def bind_Some_iff)
    from assms(4) st obtain v h where v: "eval_rvalue m (P_Local d) rv s = Ok v h"
      "write_place m (P_Local d) v (s\<lparr>heap := h\<rparr>) = Some s'" by (auto elim: exec_assign_Next)
    have old: "avail_ok m s' (set (avail_invalidate d avail))" by (rule avail_ok_write_place[OF assms(1-3) v(2)])
    have sub: "set (avail_invalidate d avail) \<subseteq> assigned_keys f scalar" using assms(2) by (auto simp: avail_invalidate_def)
    show ?thesis
    proof (cases key)
      case None
      with key(2) old sub show ?thesis by simp
    next
      case (Some k)
      then have rv: "rv = key_rvalue k" and kd: "(k, d) \<in> assigned_keys f scalar"
        using key(1) key_of_Some assigned_keysI[OF assms(6)] assms(7) st by auto
      with assms(3) have in': "\<not> m_is_value m d" "\<not> key_mentions k d"
        "\<And>vs h h' v hp. m_rvalue m (P_Local d) (rvalue_key (key_rvalue k)) vs h = Ok v hp \<Longrightarrow>
           hp = h \<and> m_rvalue m (P_Local d) (rvalue_key (key_rvalue k)) vs h' = Ok v h'"
        unfolding gvn_input_def by fast+
      from v(2) in'(1) have s': "s' = s\<lparr>heap := h\<rparr>\<lparr>loc := (loc (s\<lparr>heap := h\<rparr>))(d := v)\<rparr>" by (simp add: write_place_def)
      from v(1) rv obtain vs where vs: "eval_operands m s (rvalue_operands (key_rvalue k)) = Some vs"
        "m_rvalue m (P_Local d) (rvalue_key (key_rvalue k)) vs (heap s) = Ok v h"
        by (auto simp: eval_key_Ok)
      have "eval_operands m s' (rvalue_operands (key_rvalue k)) = Some vs"
        unfolding s' using vs(1) by (simp only: eval_key_operands(1)[OF in'(2)] eval_key_operands(2))
      moreover have "h = heap s" "m_rvalue m (P_Local d) (rvalue_key (key_rvalue k)) vs h = Ok v h"
        using in'(3)[OF vs(2), of h] by blast+
      ultimately have "eval_rvalue m (P_Local d) (key_rvalue k) s' = Ok (loc s' d) (heap s')"
        by (auto simp: eval_key_Ok s')
      with old sub kd key(2) Some show ?thesis by (auto simp: avail_ok_def)
    qed
  next
    case False
    then have "loc s' = loc s" "avail' = avail"
      using exec_keeps_locals[OF assms(4)] assms(5) by (auto simp: apply_avail_def split: statement.splits place.splits)
    with avail_ok_same_locals[OF assms(1-3)] assms(2) show ?thesis by auto
  qed
  then show "avail_ok m s' (set avail')" "set avail' \<subseteq> assigned_keys f scalar" by auto
qed

section \<open>A rewritten statement does the same\<close>

lemma rewrite_cse_exec:
  assumes "avail_ok m s (set avail)" "set avail \<subseteq> assigned_keys f scalar" "gvn_input m f scalar"
    and "rewrite_cse scalar avail st = Some (st', c, avail')" "blk \<in> set (fn_blocks f)" "st \<in> set (stmts blk)"
  shows "exec_stmt m st' s = exec_stmt m st s" "apply_avail scalar avail st = Some avail'"
proof -
  show "apply_avail scalar avail st = Some avail'"
    using assms(4) by (auto simp: rewrite_cse_def apply_avail_def bind_Some_iff Let_def case_prod_beta
        split: statement.splits place.splits)
  show "exec_stmt m st' s = exec_stmt m st s"
  proof (cases "st' = st")
    case False
    with assms(4) obtain d rv k k' src where st: "st = S_Assign (P_Local d) rv" "key_of rv scalar = Some (Some k)"
      "find (\<lambda>(ak, l). ak = k \<and> l \<noteq> d) avail = Some (k', src)"
      "st' = S_Assign (P_Local d) (R_Use (O_Copy (P_Local src)))"
      by (auto simp: rewrite_cse_def bind_Some_iff Let_def split: statement.splits place.splits option.splits)
    then have src: "(k, src) \<in> set avail" by (auto simp: find_Some_iff in_set_conv_nth)
    have rv: "rv = key_rvalue k" by (rule key_of_Some[OF st(2)])
    have "eval_rvalue m (P_Local src) (key_rvalue k) s = Ok (loc s src) (heap s)"
      using assms(1) src by (auto simp: avail_ok_def)
    moreover have "(k, d) \<in> assigned_keys f scalar" using assigned_keysI[OF assms(5)] assms(6) st(1,2) by auto
    then have "m_rvalue m (P_Local src) (rvalue_key (key_rvalue k)) vs h =
        m_rvalue m (P_Local d) (rvalue_key (key_rvalue k)) vs h" for vs h
      using assms(3) src assms(2) unfolding gvn_input_def by fast
    ultimately have "eval_rvalue m (P_Local d) rv s = Ok (loc s src) (heap s)" by (simp add: rv eval_key cong: option.case_cong)
    then show ?thesis by (simp add: st(1,4) exec_stmt_def) (simp add: eval_rvalue_def)
  qed simp
qed

lemma rewrite_stmts_exec:
  assumes "avail_ok m s (set avail)" "set avail \<subseteq> assigned_keys f scalar" "gvn_input m f scalar"
    and "rewrite_stmts_cse scalar avail ss = Some (ss', c)" "blk \<in> set (fn_blocks f)" "set ss \<subseteq> set (stmts blk)"
  shows "exec_stmts m ss' s = exec_stmts m ss s \<and>
    (\<forall>s'. exec_stmts m ss s = Next s' \<longrightarrow> (\<exists>avail'. transfer_avail scalar ss avail = Some avail' \<and>
       avail_ok m s' (set avail') \<and> set avail' \<subseteq> assigned_keys f scalar))"
  using assms(1,2,4,6)
proof (induction ss arbitrary: s avail ss' c)
  case Nil
  then show ?case by (simp add: transfer_avail_def)
next
  case (Cons st ss)
  from Cons.prems(3) obtain st' d avail1 ss1 e where r: "rewrite_cse scalar avail st = Some (st', d, avail1)"
    "rewrite_stmts_cse scalar avail1 ss = Some (ss1, e)" "ss' = st' # ss1"
    by (clarsimp simp: bind_Some_iff case_prod_beta)
  have st: "st \<in> set (stmts blk)" using Cons.prems(4) by simp
  note ex = rewrite_cse_exec[OF Cons.prems(1,2) assms(3) r(1) assms(5) st]
  show ?case
  proof (cases "exec_stmt m st s")
    case (Next s1)
    note ok = avail_ok_apply[OF Cons.prems(1,2) assms(3) Next ex(2) assms(5) st]
    from Cons.IH[OF ok r(2)] Cons.prems(4) Next ex r(3) show ?thesis by (simp add: transfer_avail_def)
  qed (simp add: ex(1) r(3))
qed

section \<open>The rewritten function\<close>

text \<open>
  The available expressions solve the equations of the analysis over the reachable blocks, and every
  reachable block is rewritten from what is available on entry to it.
\<close>

definition gvn_solution :: "mir_function \<Rightarrow> bool list \<Rightarrow> avail list \<Rightarrow> bool" where
  "gvn_solution f scalar entry \<longleftrightarrow>
     (\<forall>b \<in> reachable f. \<exists>exit. gvn_exit scalar (fn_blocks f ! b) (entry ! b) = Some exit \<and>
        (\<forall>b'. cfg_edge f b b' \<longrightarrow> set (entry ! b') \<subseteq> set exit)) \<and>
     ((\<nexists>p. cfg_edge f p (fn_entry f)) \<longrightarrow> entry ! fn_entry f = [])"

definition gvn_rewritten :: "mir_function \<Rightarrow> bool list \<Rightarrow> avail list \<Rightarrow> mir_function \<Rightarrow> bool" where
  "gvn_rewritten f scalar entry g \<longleftrightarrow>
     g = f\<lparr>fn_blocks := fn_blocks g\<rparr> \<and> length (fn_blocks g) = length (fn_blocks f) \<and>
     (\<forall>b \<in> reachable f. \<exists>ss c. rewrite_stmts_cse scalar (entry ! b) (stmts (fn_blocks f ! b)) = Some (ss, c) \<and>
        fn_blocks g ! b = (fn_blocks f ! b)\<lparr>stmts := ss\<rparr>)"

lemma gvn_result_eq:
  assumes "cfg_ok f" "local_flags i (fn_locals f) = Some scalar" "keys_total f scalar"
  shows "\<exists>entry g c. gvn_result i f = Some (g, c) \<and> gvn_solution f scalar entry \<and> gvn_rewritten f scalar entry g"
proof -
  have ne: "fn_blocks f \<noteq> []" using assms(1) by (auto simp: cfg_ok_def)
  from analyses_of[OF assms(1)] obtain preds rpo where a: "predecessors f = Some preds" "reverse_postorder f = Some rpo"
    "preds_ok f preds rpo" "distinct rpo" "set rpo = reachable f"
    "\<forall>b < length (fn_blocks f). set (preds ! b) = {a. cfg_edge f a b}" by blast
  from gvn_solve_total[OF a(3) assms(3)] obtain entry exit where e:
    "until_stable (gvn_sweep f scalar preds rpo)
       (replicate (length (fn_blocks f)) [], replicate (length (fn_blocks f)) None) = Some (entry, exit)"
    "length entry = length (fn_blocks f)"
    "\<forall>b \<in> set rpo. exit ! b = gvn_exit scalar (fn_blocks f ! b) (entry ! b) \<and> exit ! b \<noteq> None \<and>
       set (entry ! b) = (if preds ! b = [] then {} else {e. \<forall>p \<in> set (preds ! b). Some e \<in> avail_set (exit ! p)})"
    by blast
  let ?t = "\<lambda>b blk. do { avail \<leftarrow> nth_opt entry b;
     map_option (\<lambda>(ss, c). (blk\<lparr>stmts := ss\<rparr>, c)) (rewrite_stmts_cse scalar avail (stmts blk)) }"
  have r: "b < length (fn_blocks f)" "?t b (fn_blocks f ! b) =
      map_option (\<lambda>(ss, c). ((fn_blocks f ! b)\<lparr>stmts := ss\<rparr>, c)) (rewrite_stmts_cse scalar (entry ! b) (stmts (fn_blocks f ! b)))"
    "\<exists>ss c. rewrite_stmts_cse scalar (entry ! b) (stmts (fn_blocks f ! b)) = Some (ss, c)" if "b \<in> set rpo" for b
  proof -
    show b: "b < length (fn_blocks f)" using that a(3) by (auto simp: preds_ok_def)
    show "?t b (fn_blocks f ! b) =
      map_option (\<lambda>(ss, c). ((fn_blocks f ! b)\<lparr>stmts := ss\<rparr>, c)) (rewrite_stmts_cse scalar (entry ! b) (stmts (fn_blocks f ! b)))"
      using b e(2) by (simp add: nth_opt_in)
    have "list_all (key_known scalar) (stmts (fn_blocks f ! b))"
      using assms(3) nth_mem[OF b] by (auto simp: keys_total_def list_all_iff)
    from rewrite_stmts_cse_total[OF this, of "entry ! b"]
    show "\<exists>ss c. rewrite_stmts_cse scalar (entry ! b) (stmts (fn_blocks f ! b)) = Some (ss, c)" by auto
  qed
  have total: "\<forall>b \<in> set rpo. b < length (fn_blocks f) \<and> ?t b (fn_blocks f ! b) \<noteq> None"
  proof
    fix b assume "b \<in> set rpo"
    from r[OF this] show "b < length (fn_blocks f) \<and> ?t b (fn_blocks f ! b) \<noteq> None" by auto
  qed
  from rewrite_at_fold[OF a(4), of f ?t False] total obtain g c where
    g: "foldM (gvn_rewrite scalar entry) (f, False) rpo = Some (g, c)" "g = f\<lparr>fn_blocks := fn_blocks g\<rparr>"
      "length (fn_blocks g) = length (fn_blocks f)"
      "\<forall>b < length (fn_blocks f). fn_blocks g ! b = (if b \<in> set rpo then fst (the (?t b (fn_blocks f ! b))) else fn_blocks f ! b)"
    unfolding gvn_rewrite_at by blast
  have "gvn_result i f = Some (g, c)" using ne assms(2) a(1,2) e(1) g(1) by (simp add: gvn_result_def Let_def)
  moreover have "gvn_rewritten f scalar entry g"
    unfolding gvn_rewritten_def
  proof (intro conjI ballI)
    fix b assume "b \<in> reachable f"
    with a(5) have b: "b \<in> set rpo" by simp
    from r(3)[OF b] obtain ss d where ss: "rewrite_stmts_cse scalar (entry ! b) (stmts (fn_blocks f ! b)) = Some (ss, d)" by blast
    with g(4) r(1,2)[OF b] b have "fn_blocks g ! b = (fn_blocks f ! b)\<lparr>stmts := ss\<rparr>" by simp
    with ss show "\<exists>ss c. rewrite_stmts_cse scalar (entry ! b) (stmts (fn_blocks f ! b)) = Some (ss, c) \<and>
        fn_blocks g ! b = (fn_blocks f ! b)\<lparr>stmts := ss\<rparr>" by blast
  qed (use g in auto)
  moreover have "gvn_solution f scalar entry"
    unfolding gvn_solution_def
  proof (intro conjI ballI impI)
    fix b assume b: "b \<in> reachable f"
    with e(3) a(5) obtain x where x: "exit ! b = Some x" "gvn_exit scalar (fn_blocks f ! b) (entry ! b) = Some x" by force
    have "set (entry ! b') \<subseteq> set x" if edge: "cfg_edge f b b'" for b'
    proof -
      have b': "b' \<in> set rpo" using edge b a(5) reachable_edge by blast
      have "b \<in> set (preds ! b')" using a(6) r(1)[OF b'] edge by simp
      with bspec[OF e(3) b'] x(1) show ?thesis by (auto simp: avail_set_def split: if_splits)
    qed
    with x(2) show "\<exists>exit. gvn_exit scalar (fn_blocks f ! b) (entry ! b) = Some exit \<and>
        (\<forall>b'. cfg_edge f b b' \<longrightarrow> set (entry ! b') \<subseteq> set exit)" by blast
  next
    assume no: "\<nexists>p. cfg_edge f p (fn_entry f)"
    have en: "fn_entry f \<in> set rpo" using a(5) by (simp add: reachable_def)
    with no a(6) r(1)[OF en] have "set (preds ! fn_entry f) = {}" by simp
    with bspec[OF e(3) en] show "entry ! fn_entry f = []" by simp
  qed
  ultimately show ?thesis by blast
qed

lemma gvn_result_total:
  "cfg_ok f \<Longrightarrow> local_flags i (fn_locals f) = Some scalar \<Longrightarrow> keys_total f scalar \<Longrightarrow> gvn_result i f \<noteq> None"
  using gvn_result_eq by fastforce

section \<open>The pass keeps the runs\<close>

lemma gvn_block_avail:
  assumes "avail_ok m s (set avail)" "set avail \<subseteq> assigned_keys f scalar" "gvn_input m f scalar"
    and "blk \<in> set (fn_blocks f)" "rewrite_stmts_cse scalar avail (stmts blk) = Some (ss, c)"
    and "gvn_exit scalar blk avail = Some exit" "exec_block m blk s = Jump b s'"
  shows "avail_ok m s' (set exit)" "set exit \<subseteq> assigned_keys f scalar"
proof -
  from assms(7) obtain s1 where s1: "exec_stmts m (stmts blk) s = Next s1" "exec_term m (term_of blk) s1 = Jump b s'"
    by (auto simp: exec_block_def split: res.splits)
  from rewrite_stmts_exec[OF assms(1-3,5,4)] s1(1) obtain avail' where
    a: "transfer_avail scalar (stmts blk) avail = Some avail'" "avail_ok m s1 (set avail')" "set avail' \<subseteq> assigned_keys f scalar"
    by auto
  have "avail_ok m s' (set exit) \<and> set exit \<subseteq> assigned_keys f scalar"
  proof (cases "\<exists>fut d r. term_of blk = T_Await fut (Some d) r")
    case True
    then obtain fut d r where t: "term_of blk = T_Await fut (Some d) r" by blast
    with s1(2) obtain v h where w: "write_place m (P_Local d) v (s1\<lparr>heap := h\<rparr>) = Some s'"
      by (auto simp: exec_term_def split: option.splits eff.splits)
    have "exit = avail_invalidate d avail'" using assms(6) a(1) t by (simp add: gvn_exit_def)
    with avail_ok_write_place[OF a(2,3) assms(3) w] a(3) show ?thesis by (auto simp: avail_invalidate_def)
  next
    case False
    with s1(2) have "loc s' = loc s1"
      by (auto simp: exec_term_def split: terminator.splits option.splits eff.splits)
    moreover have "exit = avail'"
      using assms(6) a(1) False by (auto simp: gvn_exit_def split: terminator.splits option.splits)
    ultimately show ?thesis using avail_ok_same_locals[OF a(2,3) assms(3)] a(3) by auto
  qed
  then show "avail_ok m s' (set exit)" "set exit \<subseteq> assigned_keys f scalar" by auto
qed

lemma gvn_runs:
  assumes g: "gvn_result i f = Some (g, c)" and f: "cfg_ok f" "no_edge_to_entry f"
    and k: "local_flags i (fn_locals f) = Some scalar" "keys_total f scalar" and m: "gvn_input m f scalar"
  shows "runs m f (fn_entry f) s r \<longleftrightarrow> runs m g (fn_entry f) s r"
proof -
  from gvn_result_eq[OF f(1) k] g obtain entry where sol: "gvn_solution f scalar entry" and rw: "gvn_rewritten f scalar entry g"
    by auto
  note in_range = reachable_in_range[OF f(1)]
  have no: "\<nexists>p. cfg_edge f p (fn_entry f)"
    using f(2) by (auto simp: no_edge_to_entry_def cfg_edge_def list_all_length)
  let ?P = "\<lambda>b s. b \<in> reachable f \<and> avail_ok m s (set (entry ! b)) \<and> set (entry ! b) \<subseteq> assigned_keys f scalar"
  have blk: "fn_blocks f ! b \<in> set (fn_blocks f)" if "b \<in> reachable f" for b using in_range that by auto
  have step: "\<exists>ss c. rewrite_stmts_cse scalar (entry ! b) (stmts (fn_blocks f ! b)) = Some (ss, c) \<and>
      fn_blocks g ! b = (fn_blocks f ! b)\<lparr>stmts := ss\<rparr>" if "b \<in> reachable f" for b
    using rw that by (simp add: gvn_rewritten_def)
  show ?thesis
  proof (rule runs_invariant_cong[where P = ?P])
    show "?P (fn_entry f) s" using sol no by (simp add: gvn_solution_def avail_ok_def reachable_def)
  next
    fix b s assume P: "?P b s"
    from step P obtain ss d where ss: "rewrite_stmts_cse scalar (entry ! b) (stmts (fn_blocks f ! b)) = Some (ss, d)"
      "fn_blocks g ! b = (fn_blocks f ! b)\<lparr>stmts := ss\<rparr>" by blast
    have "exec_stmts m ss s = exec_stmts m (stmts (fn_blocks f ! b)) s"
      using rewrite_stmts_exec[OF _ _ m ss(1) blk] P by blast
    then show "block_step m g b s = block_step m f b s"
      using P rw in_range ss(2) by (simp add: block_step_def block_def gvn_rewritten_def exec_block_def cong: res.case_cong)
  next
    fix b s b' s' assume P: "?P b s" and j: "block_step m f b s = Jump b' s'"
    from step P obtain ss d where ss: "rewrite_stmts_cse scalar (entry ! b) (stmts (fn_blocks f ! b)) = Some (ss, d)" by blast
    from block_step_Jump[OF j] have e: "cfg_edge f b b'" by (simp add: cfg_edge_def)
    have ex: "exec_block m (fn_blocks f ! b) s = Jump b' s'" using j P in_range by (simp add: block_step_def block_def)
    from sol P obtain exit where x: "gvn_exit scalar (fn_blocks f ! b) (entry ! b) = Some exit"
      "\<forall>b'. cfg_edge f b b' \<longrightarrow> set (entry ! b') \<subseteq> set exit" unfolding gvn_solution_def by blast
    note ok = gvn_block_avail[OF _ _ m _ ss x(1) ex]
    have "avail_ok m s' (set exit)" "set exit \<subseteq> assigned_keys f scalar" using ok P blk by auto
    moreover have "set (entry ! b') \<subseteq> set exit" using x(2) e by blast
    moreover have "b' \<in> reachable f" using P e reachable_edge by blast
    ultimately show "?P b' s'" using avail_ok_subset by blast
  qed
qed

end
