(* ===== verification/Tco_Pass.thy ===== *)
theory Tco_Pass
  imports Mir_Analyses Simplify_Cfg
begin

text \<open>
  Tail-call optimisation (\<open>crates/dream-mir/src/passes/tco.rs\<close>): a call in return position becomes a
  tail-call terminator. The lemmas show that the pass returns on functions with declared locals and
  interned types, reports its changes, keeps the control flow, and keeps every run on a machine
  whose tail calls do what a call followed by a return does.
\<close>

section \<open>The pass\<close>

definition arg_scalar :: "mir_function \<Rightarrow> type_interner \<Rightarrow> operand \<Rightarrow> bool option" where
  "arg_scalar f i a =
     (case a of
        O_Const _ \<Rightarrow> Some True
      | O_Copy (P_Local l) \<Rightarrow> do { t \<leftarrow> local_ty f l; v \<leftarrow> is_value_type i t; Some (\<not> v) }
      | _ \<Rightarrow> Some False)"

fun args_all_scalar :: "mir_function \<Rightarrow> type_interner \<Rightarrow> operand list \<Rightarrow> bool option" where
  "args_all_scalar f i [] = Some True"
| "args_all_scalar f i (a # args) =
     do { ok \<leftarrow> arg_scalar f i a; if ok then args_all_scalar f i args else Some False }"

text \<open>The call that the block's last statement makes and its terminator returns, if it qualifies.\<close>

definition tail_call_of :: "mir_function \<Rightarrow> type_interner \<Rightarrow> basic_block \<Rightarrow> (callee \<times> operand list) option option" where
  "tail_call_of f i blk =
     (if stmts blk = [] then Some None
      else
        case (term_of blk, last (stmts blk)) of
          (T_Return (Some (O_Copy (P_Local d))), S_Assign (P_Local d2) (R_Call callee args)) \<Rightarrow>
            (if d \<noteq> d2 then Some None
             else do {
               v \<leftarrow> is_value_type i (fn_ret f);
               if v then Some None
               else do { ok \<leftarrow> args_all_scalar f i args; Some (if ok then Some (callee, args) else None) }
             })
        | (T_Return None, S_Call callee args) \<Rightarrow>
            do {
              void \<leftarrow> void_type i;
              if ca_ret callee \<noteq> void then Some None
              else do { ok \<leftarrow> args_all_scalar f i args; Some (if ok then Some (callee, args) else None) }
            }
        | _ \<Rightarrow> Some None)"

definition tco_block :: "mir_function \<Rightarrow> type_interner \<Rightarrow> basic_block \<Rightarrow> (basic_block \<times> bool) option" where
  "tco_block f i blk =
     map_option (\<lambda>r. case r of
         None \<Rightarrow> (blk, False)
       | Some (callee, args) \<Rightarrow> (blk\<lparr>stmts := butlast (stmts blk), term_of := T_TailCall callee args\<rparr>, True))
       (tail_call_of f i blk)"

definition tco :: "type_interner \<Rightarrow> mir_function \<Rightarrow> (mir_function \<times> bool) option" where
  "tco i f =
     (if fn_is_async f then Some (f, False)
      else do {
        (bs, changed) \<leftarrow> map_changed (tco_block f i) (fn_blocks f);
        Some (f\<lparr>fn_blocks := bs\<rparr>, changed)
      })"

section \<open>What a converted block looks like\<close>

lemma tail_call_of_Some:
  assumes "tail_call_of f i blk = Some (Some (callee, args))"
  obtains (assigned) ss d where "stmts blk = ss @ [S_Assign (P_Local d) (R_Call callee args)]"
      "term_of blk = T_Return (Some (O_Copy (P_Local d)))" "is_value_type i (fn_ret f) = Some False"
    | (plain) ss where "stmts blk = ss @ [S_Call callee args]" "term_of blk = T_Return None"
      "void_type i = Some (ca_ret callee)"
proof -
  from assms have ne: "stmts blk \<noteq> []" by (auto simp: tail_call_of_def)
  then have ss: "stmts blk = butlast (stmts blk) @ [last (stmts blk)]" by simp
  consider (a) d where "term_of blk = T_Return (Some (O_Copy (P_Local d)))"
      "last (stmts blk) = S_Assign (P_Local d) (R_Call callee args)" "is_value_type i (fn_ret f) = Some False"
    | (b) "term_of blk = T_Return None" "last (stmts blk) = S_Call callee args" "void_type i = Some (ca_ret callee)"
    using assms ne
    by (auto simp: tail_call_of_def bind_Some_iff split: terminator.splits option.splits operand.splits
        place.splits statement.splits rvalue.splits if_splits)
  then show ?thesis by cases (metis ss assigned plain)+
qed

lemma tco_block_cases:
  assumes "tco_block f i blk = Some (blk', c)"
  shows "\<not> c \<and> blk' = blk \<or> c \<and> (\<exists>callee args. tail_call_of f i blk = Some (Some (callee, args)) \<and>
    blk' = blk\<lparr>stmts := butlast (stmts blk), term_of := T_TailCall callee args\<rparr>)"
  using assms by (auto simp: tco_block_def split: option.splits)

lemma tco_blocks:
  assumes "tco i f = Some (g, c)"
  shows "g = f\<lparr>fn_blocks := fn_blocks g\<rparr>" "length (fn_blocks g) = length (fn_blocks f)"
    and "k < length (fn_blocks f) \<Longrightarrow> fn_blocks g ! k = fn_blocks f ! k \<or> (\<exists>d. tco_block f i (fn_blocks f ! k) = Some (fn_blocks g ! k, d))"
  using assms by (auto simp: tco_def bind_Some_iff map_changed_Some_iff split: if_splits)

lemma tco_unchanged: "tco i f = Some (g, False) \<Longrightarrow> g = f"
  by (auto simp: tco_def bind_Some_iff split: if_splits dest!: map_changed_unchanged dest: tco_block_cases)

lemma tco_shape:
  assumes "tco i f = Some (g, c)"
  shows "cfg_shape_of g = cfg_shape_of f"
proof -
  have "successors (term_of blk') = successors (term_of blk)" if "tco_block f i blk = Some (blk', d)" for blk blk' d
    using tco_block_cases[OF that] by (auto elim!: tail_call_of_Some)
  then have "map (successors \<circ> term_of) (fn_blocks g) = map (successors \<circ> term_of) (fn_blocks f)"
    using tco_blocks(2)[OF assms] tco_blocks(3)[OF assms] by (intro nth_equalityI[of "map _ _"]) fastforce+
  moreover have "fn_entry g = fn_entry f" by (subst tco_blocks(1)[OF assms]) simp
  ultimately show ?thesis by (simp add: cfg_shape_of_def comp_def)
qed

text \<open>
  The pass returns when the locals that are passed to calls are declared, all types are interned,
  and the interner knows the type void.
\<close>

definition call_args :: "statement \<Rightarrow> operand list" where
  "call_args st = (case st of S_Assign _ (R_Call _ args) \<Rightarrow> args | S_Call _ args \<Rightarrow> args | _ \<Rightarrow> [])"

definition calls_declared :: "mir_function \<Rightarrow> bool" where
  "calls_declared f \<longleftrightarrow>
     list_all (\<lambda>blk. list_all (\<lambda>st. list_all (\<lambda>a. case a of
         O_Copy (P_Local l) \<Rightarrow> l < length (fn_locals f) | _ \<Rightarrow> True) (call_args st)) (stmts blk)) (fn_blocks f)"

definition tco_input :: "type_interner \<Rightarrow> mir_function \<Rightarrow> bool" where
  "tco_input i f \<longleftrightarrow>
     calls_declared f \<and> locals_typed i (fn_locals f) \<and> fn_ret f < length (kinds i) \<and> void_type i \<noteq> None"

lemma args_all_scalar_total:
  assumes "locals_typed i (fn_locals f)"
    and "list_all (\<lambda>a. case a of O_Copy (P_Local l) \<Rightarrow> l < length (fn_locals f) | _ \<Rightarrow> True) args"
  shows "args_all_scalar f i args \<noteq> None"
  using assms(2)
proof (induction args)
  case (Cons a args)
  have "l < length (fn_locals f) \<Longrightarrow> ld_ty (fn_locals f ! l) < length (kinds i)" for l
    using assms(1) by (simp add: locals_typed_def list_all_length)
  with Cons.prems have "arg_scalar f i a \<noteq> None"
    by (auto simp: arg_scalar_def local_ty_def is_value_type_def kind_def nth_opt_in split: operand.splits place.splits)
  with Cons show ?case by (auto split: if_splits)
qed simp

lemma tail_call_of_total:
  assumes "tco_input i f" "blk \<in> set (fn_blocks f)"
  shows "tail_call_of f i blk \<noteq> None"
proof (cases "stmts blk = []")
  case False
  then have "last (stmts blk) \<in> set (stmts blk)" by simp
  with assms have "args_all_scalar f i (call_args (last (stmts blk))) \<noteq> None"
    by (intro args_all_scalar_total) (auto simp: tco_input_def calls_declared_def list_all_iff)
  moreover have "is_value_type i (fn_ret f) \<noteq> None" "void_type i \<noteq> None"
    using assms(1) by (auto simp: tco_input_def is_value_type_def kind_def)
  ultimately show ?thesis
    by (auto simp: tail_call_of_def call_args_def split: terminator.split option.split operand.split place.split
        statement.split rvalue.split)
qed (simp add: tail_call_of_def)

lemma tco_total: "tco_input i f \<Longrightarrow> \<exists>g c. tco i f = Some (g, c)"
  using map_changed_total[of "fn_blocks f" "tco_block f i"] tail_call_of_total[of i f]
  by (auto simp: tco_def tco_block_def)

section \<open>The pass keeps the runs\<close>

text \<open>
  A tail call returns what the call returns: for a callee with a result as the assignment of its
  value would, for a callee of type void as the statement would.
\<close>

definition machine_tails :: "('v, 'h) machine \<Rightarrow> type_id \<Rightarrow> bool" where
  "machine_tails m void \<longleftrightarrow>
     (\<forall>callee args d vs h. ca_ret callee \<noteq> void \<longrightarrow>
        m_tail m callee vs h =
          (case m_rvalue m (P_Local d) (rvalue_key (R_Call callee args)) vs h of
             Ok v h' \<Rightarrow> Ok (Some v) h' | Trap h' \<Rightarrow> Trap h')) \<and>
     (\<forall>callee args vs h. ca_ret callee = void \<longrightarrow>
        m_tail m callee vs h =
          (case m_stmt m (stmt_key (S_Call callee args)) vs h of
             Ok _ h' \<Rightarrow> Ok None h' | Trap h' \<Rightarrow> Trap h'))"

text \<open>Calls in return position are typed: they have a result, and it is a value exactly if the function's is.\<close>

definition returns_typed :: "('v, 'h) machine \<Rightarrow> type_interner \<Rightarrow> mir_function \<Rightarrow> bool" where
  "returns_typed m i f \<longleftrightarrow>
     (\<forall>blk \<in> set (fn_blocks f). \<forall>d callee args.
        S_Assign (P_Local d) (R_Call callee args) \<in> set (stmts blk) \<longrightarrow>
        term_of blk = T_Return (Some (O_Copy (P_Local d))) \<longrightarrow>
        void_type i \<noteq> Some (ca_ret callee) \<and> (is_value_type i (fn_ret f) = Some False \<longrightarrow> \<not> m_is_value m d))"

lemma tco_block_exec:
  assumes "tco_block f i blk = Some (blk', c)" "blk \<in> set (fn_blocks f)" "returns_typed m i f"
    and "machine_tails m void" "void_type i = Some void"
  shows "exec_block m blk' s = exec_block m blk s"
proof (cases c)
  case False
  with tco_block_cases[OF assms(1)] show ?thesis by simp
next
  case True
  with tco_block_cases[OF assms(1)] obtain callee args where t: "tail_call_of f i blk = Some (Some (callee, args))"
    and b: "blk' = blk\<lparr>stmts := butlast (stmts blk), term_of := T_TailCall callee args\<rparr>" by blast
  from t show ?thesis
  proof (cases rule: tail_call_of_Some)
    case (assigned ss d)
    then have "S_Assign (P_Local d) (R_Call callee args) \<in> set (stmts blk)" by simp
    with assigned(2,3) assms(2,3,5) have "ca_ret callee \<noteq> void" "\<not> m_is_value m d"
      unfolding returns_typed_def by blast+
    with assms(4) have tail: "m_tail m callee vs h =
        (case m_rvalue m (P_Local d) (rvalue_key (R_Call callee args)) vs h of
           Ok v h' \<Rightarrow> Ok (Some v) h' | Trap h' \<Rightarrow> Trap h')" for vs h unfolding machine_tails_def by blast
    from assigned \<open>\<not> m_is_value m d\<close> show ?thesis
      by (auto simp: b exec_block_def exec_stmts_append exec_term_def exec_stmt_def eval_rvalue_def erase_place_def
          rvalue_locals_def write_place_def eval_result_def tail split: res.split option.split eff.split)
  next
    case (plain ss)
    then have "ca_ret callee = void" using assms(5) by simp
    with assms(4) have tail: "m_tail m callee vs h =
        (case m_stmt m (stmt_key (S_Call callee args)) vs h of Ok _ h' \<Rightarrow> Ok None h' | Trap h' \<Rightarrow> Trap h')" for vs h
      unfolding machine_tails_def by blast
    from plain show ?thesis
      by (auto simp: b exec_block_def exec_stmts_append exec_term_def exec_stmt_def stmt_locals_def eval_result_def
          tail split: res.split option.split eff.split)
  qed
qed

lemma tco_runs:
  assumes "tco i f = Some (g, c)" "returns_typed m i f" "machine_tails m void" "void_type i = Some void"
  shows "runs m f b s r \<longleftrightarrow> runs m g b s r"
proof (rule runs_cong)
  fix b s
  note g = tco_blocks[OF assms(1)]
  show "block_step m f b s = block_step m g b s"
  proof (cases "b < length (fn_blocks f)")
    case True
    with g(3)[OF True] tco_block_exec[OF _ nth_mem[OF True] assms(2-4)] g(2) show ?thesis
      by (auto simp: block_step_def block_def)
  qed (use g(2) in \<open>simp add: block_step_def block_def\<close>)
qed

end
