(* ===== verification/Mir_Passes.thy ===== *)
theory Mir_Passes
  imports Pass_Manager Fold_Machine Sccp_Sound Dce_Pass Algebraic_Pass Copy_Prop Simplify_Cfg Global_Prop
    Gvn_Sound Tco_Pass
begin

text \<open>
  The modelled passes as clients of the pass interface, each an instance of the contract
  \<open>plain_transform\<close> or, where it queries the analysis cache, \<open>query_transform\<close>, and the pipelines that consist of modelled passes only: the debug pipelines of
  \<open>crates/dream-mir/src/passes/manager.rs\<close>. The lemmas show that any pipeline of these passes
  returns on every well-formed function, keeps it well-formed and only removes control-flow edges,
  and that the debug pipelines keep the runs of a function.
\<close>

section \<open>The passes\<close>

definition copy_const_prop_pass :: "type_interner \<Rightarrow> mir_pass" where
  "copy_const_prop_pass i = plain_pass ''copy-const-prop'' Preserves_ControlFlow (copy_const_prop i)"

definition sccp_pass :: "half_ops \<Rightarrow> type_interner \<Rightarrow> nat \<Rightarrow> mir_pass" where
  "sccp_pass h i ptr_size = plain_pass ''sccp'' Preserves_None (sccp h i ptr_size)"

definition const_fold_pass :: "half_ops \<Rightarrow> type_interner \<Rightarrow> nat \<Rightarrow> mir_pass" where
  "const_fold_pass h i ptr_size = plain_pass ''const-fold'' Preserves_ControlFlow (const_fold h i ptr_size)"

definition algebraic_pass :: "type_interner \<Rightarrow> mir_pass" where
  "algebraic_pass i = plain_pass ''algebraic'' Preserves_ControlFlow (algebraic i)"

definition simplify_cfg_pass :: "type_interner \<Rightarrow> mir_pass" where
  "simplify_cfg_pass i = plain_pass ''simplify-cfg'' Preserves_None (simplify_cfg i)"

definition dce_pass :: mir_pass where
  "dce_pass = plain_pass ''dce'' Preserves_None dce"

definition global_prop_pass :: "type_interner \<Rightarrow> mir_pass" where
  "global_prop_pass i =
     \<lparr>pass_name = ''global-prop'', pass_preserves = Preserves_ControlFlow, pass_transform = global_prop i\<rparr>"

definition gvn_pass :: "type_interner \<Rightarrow> mir_pass" where
  "gvn_pass i = \<lparr>pass_name = ''gvn'', pass_preserves = Preserves_ControlFlow, pass_transform = gvn i\<rparr>"

definition tco_pass :: "type_interner \<Rightarrow> mir_pass" where
  "tco_pass i = plain_pass ''tco'' Preserves_ControlFlow (tco i)"

definition debug_pipeline :: "half_ops \<Rightarrow> type_interner \<Rightarrow> nat \<Rightarrow> bool \<Rightarrow> pass_manager" where
  "debug_pipeline h i ptr_size debug_info =
     (let pm = manager_new\<lparr>pm_max_iterations := 1\<rparr>;
          pm1 = (if \<not> debug_info
                 then manager_add (manager_add (manager_add pm (copy_const_prop_pass i))
                        (const_fold_pass h i ptr_size)) dce_pass
                 else pm)
      in manager_add pm1 (simplify_cfg_pass i))"

section \<open>Each pass has the contract\<close>

lemma copy_const_prop_shape:
  assumes "copy_const_prop i f = Some (g, c)"
  shows "cfg_shape_of g = cfg_shape_of f" "g = f\<lparr>fn_blocks := fn_blocks g\<rparr>"
proof -
  from assms obtain vl where g: "g = f\<lparr>fn_blocks := map (\<lambda>blk. fst (prop_block vl blk)) (fn_blocks f)\<rparr>"
    by (auto simp: copy_const_prop_def bind_Some_iff)
  have "successors (term_of (fst (prop_block vl blk))) = successors (term_of blk)" for blk
    by (simp add: prop_block_def case_prod_beta Let_def)
  then show "cfg_shape_of g = cfg_shape_of f" by (simp add: cfg_shape_of_def g)
  show "g = f\<lparr>fn_blocks := fn_blocks g\<rparr>" by (simp add: g)
qed

lemma algebraic_rewrite: "algebraic i f = rewrite_stmts (algebraic_stmt i (map ld_ty (fn_locals f))) f"
  by (simp add: algebraic_def rewrite_stmts_def)

lemma algebraic_stmt_unchanged: "algebraic_stmt i tys st = Some (st', False) \<Longrightarrow> st' = st"
  by (auto simp: algebraic_stmt_def bind_Some_iff split: statement.splits if_splits option.splits)

interpretation copy_prop_contract: plain_transform "''copy-const-prop''" Preserves_ControlFlow "copy_const_prop i" for i
  by unfold_locales (auto dest: copy_const_prop_unchanged copy_const_prop_shape)

interpretation sccp_contract: plain_transform "''sccp''" Preserves_None "sccp h i ptr_size" for h i ptr_size
  by unfold_locales (auto dest: sccp_unchanged)

interpretation const_fold_contract: plain_transform "''const-fold''" Preserves_ControlFlow "const_fold h i ptr_size" for h i ptr_size
proof unfold_locales
  fix f g assume "const_fold h i ptr_size f = Some (g, False)"
  then show "g = f" by (rule const_fold_unchanged)
next
  fix f g c assume "const_fold h i ptr_size f = Some (g, c)"
  then show "cfg_shape_of g = cfg_shape_of f" unfolding const_fold_rewrite by (rule rewrite_stmts_shape(1))
qed

interpretation algebraic_contract: plain_transform "''algebraic''" Preserves_ControlFlow "algebraic i" for i
proof unfold_locales
  fix f g assume "algebraic i f = Some (g, False)"
  then show "g = f" unfolding algebraic_rewrite by (rule rewrite_stmts_unchanged) (rule algebraic_stmt_unchanged)
next
  fix f g c assume "algebraic i f = Some (g, c)"
  then show "cfg_shape_of g = cfg_shape_of f" unfolding algebraic_rewrite by (rule rewrite_stmts_shape(1))
qed

interpretation simplify_cfg_contract: plain_transform "''simplify-cfg''" Preserves_None "simplify_cfg i" for i
  by unfold_locales (auto dest: simplify_cfg_unchanged)

interpretation dce_contract: plain_transform "''dce''" Preserves_None dce
  by unfold_locales (auto dest: dce_unchanged)

interpretation tco_contract: plain_transform "''tco''" Preserves_ControlFlow "tco i" for i
  by unfold_locales (auto dest: tco_unchanged tco_shape)

lemmas pass_defs = copy_const_prop_pass_def sccp_pass_def const_fold_pass_def algebraic_pass_def
  simplify_cfg_pass_def dce_pass_def global_prop_pass_def gvn_pass_def tco_pass_def

lemmas pass_contracts = copy_prop_contract.mir_pass_contract_axioms sccp_contract.mir_pass_contract_axioms
  const_fold_contract.mir_pass_contract_axioms algebraic_contract.mir_pass_contract_axioms
  simplify_cfg_contract.mir_pass_contract_axioms dce_contract.mir_pass_contract_axioms
  global_prop_contract.mir_pass_contract_axioms gvn_contract.mir_pass_contract_axioms tco_contract.mir_pass_contract_axioms

lemma run_plain_pass: "run_with_layouts False (plain_pass n p t) f = t f"
  by (cases "t f") (auto simp: run_with_layouts_def run_pass_def)

section \<open>Each pass keeps functions well-formed\<close>

definition keeps_input :: "type_interner \<Rightarrow> (mir_function \<Rightarrow> (mir_function \<times> bool) option) \<Rightarrow> bool" where
  "keeps_input i t \<longleftrightarrow>
     (\<forall>f. simplify_input i f \<longrightarrow> (\<exists>g c. t f = Some (g, c) \<and> simplify_input i g \<and> shrinks f g))"

lemma shape_shrinks:
  assumes "cfg_shape_of g = cfg_shape_of f" "g = f\<lparr>fn_blocks := fn_blocks g\<rparr>"
  shows "shrinks f g"
proof -
  have "targets_of h = \<Union> (set (map set (cs_successors (cfg_shape_of h))))" for h
    by (auto simp: targets_of_alt cfg_shape_of_def)
  moreover have "fn_locals g = fn_locals f" "fn_params g = fn_params f" by (subst assms(2), simp)+
  moreover have "length (fn_blocks g) = length (fn_blocks f)" "fn_entry g = fn_entry f"
    using arg_cong[OF assms(1), of "length \<circ> cs_successors"] arg_cong[OF assms(1), of cs_entry]
    by (simp_all add: cfg_shape_of_def)
  ultimately show ?thesis using assms(1) by (simp add: shrinks_def)
qed

lemma keeps_inputI:
  assumes "\<And>f. simplify_input i f \<Longrightarrow> \<exists>g c. t f = Some (g, c) \<and> shrinks f g \<and> dests_declared g"
  shows "keeps_input i t"
  unfolding keeps_input_def
proof (intro allI impI)
  fix f assume f: "simplify_input i f"
  from assms[OF f] obtain g c where g: "t f = Some (g, c)" "shrinks f g" "dests_declared g" by blast
  moreover have "simplify_input i g"
    using f g shrinks_cfg_ok[OF g(2)] by (simp add: simplify_input_def shrinks_def)
  ultimately show "\<exists>g c. t f = Some (g, c) \<and> simplify_input i g \<and> shrinks f g" by blast
qed

lemma simplify_cfg_keeps: "keeps_input i (simplify_cfg i)"
  by (rule keeps_inputI) (use simplify_cfg_total simplify_cfg_shrinks in blast)

text \<open>The local a statement assigns.\<close>

definition dest_local :: "statement \<Rightarrow> local option" where
  "dest_local st = (case st of S_Assign (P_Local x) _ \<Rightarrow> Some x | _ \<Rightarrow> None)"

definition dests_of :: "mir_function \<Rightarrow> local set" where
  "dests_of f = {x. \<exists>blk \<in> set (fn_blocks f). \<exists>st \<in> set (stmts blk). dest_local st = Some x}"

lemma dests_declared_alt: "dests_declared f \<longleftrightarrow> (\<forall>x \<in> dests_of f. x < length (fn_locals f))"
proof -
  have "(case st of S_Assign (P_Local x) _ \<Rightarrow> x < n | _ \<Rightarrow> True) \<longleftrightarrow> (\<forall>x. dest_local st = Some x \<longrightarrow> x < n)" for st n
    by (auto simp: dest_local_def split: statement.splits place.splits)
  then have "dests_declared f \<longleftrightarrow>
      (\<forall>blk \<in> set (fn_blocks f). \<forall>st \<in> set (stmts blk). \<forall>x. dest_local st = Some x \<longrightarrow> x < length (fn_locals f))"
    by (simp only: dests_declared_def list_all_iff)
  then show ?thesis unfolding dests_of_def by blast
qed

lemma dests_declared_mono:
  "dests_declared f \<Longrightarrow> fn_locals g = fn_locals f \<Longrightarrow> dests_of g \<subseteq> dests_of f \<Longrightarrow> dests_declared g"
  by (auto simp: dests_declared_alt)

lemma dests_of_blocks:
  assumes "length (fn_blocks g) = length (fn_blocks f)"
    and "\<And>k. k < length (fn_blocks f) \<Longrightarrow>
      set (map dest_local (stmts (fn_blocks g ! k))) \<subseteq> insert None (set (map dest_local (stmts (fn_blocks f ! k))))"
  shows "dests_of g \<subseteq> dests_of f"
proof
  fix x assume "x \<in> dests_of g"
  then obtain k st where k: "k < length (fn_blocks f)" "st \<in> set (stmts (fn_blocks g ! k))" "dest_local st = Some x"
    using assms(1) by (auto simp: dests_of_def in_set_conv_nth[of _ "fn_blocks g"])
  with assms(2)[OF k(1)] have "Some x \<in> set (map dest_local (stmts (fn_blocks f ! k)))" by force
  with k(1) show "x \<in> dests_of f" by (force simp: dests_of_def)
qed

lemma rewrite_stmts_dests:
  assumes "rewrite_stmts t f = Some (g, c)" "\<And>st st' c. t st = Some (st', c) \<Longrightarrow> dest_local st' = dest_local st"
  shows "dests_of g \<subseteq> dests_of f"
proof (rule dests_of_blocks)
  note g = rewrite_stmts_shape[OF assms(1)]
  show "length (fn_blocks g) = length (fn_blocks f)" by (rule g(2))
  fix k assume "k < length (fn_blocks f)"
  from g(3)[OF this] obtain ss d where ss: "map_changed t (stmts (fn_blocks f ! k)) = Some (ss, d)"
    "fn_blocks g ! k = (fn_blocks f ! k)\<lparr>stmts := ss\<rparr>" by blast
  then have "map dest_local ss = map dest_local (stmts (fn_blocks f ! k))"
    using assms(2) by (force intro!: nth_equalityI simp: map_changed_Some_iff)
  with ss(2) show "set (map dest_local (stmts (fn_blocks g ! k))) \<subseteq> insert None (set (map dest_local (stmts (fn_blocks f ! k))))"
    by auto
qed

lemma subst_stmt_dest_local: "dest_local (fst (subst_stmt_reads known st)) = dest_local st"
proof (cases st)
  case (S_Assign p rv)
  then show ?thesis
    by (cases p) (simp_all add: subst_stmt_reads_def subst_place_reads_def dest_local_def case_prod_beta)
qed (simp_all add: subst_stmt_reads_def dest_local_def case_prod_beta)

lemma const_fold_stmt_dest: "const_fold_stmt h i ptr_size ls st = Some (st', c) \<Longrightarrow> dest_local st' = dest_local st"
  by (auto simp: dest_local_def dest!: const_fold_stmt_cases)

lemma algebraic_stmt_dest: "algebraic_stmt i tys st = Some (st', c) \<Longrightarrow> dest_local st' = dest_local st"
  by (auto simp: algebraic_stmt_def bind_Some_iff dest_local_def split: statement.splits if_splits option.splits)

lemma declared_dest:
  assumes "simplify_input i f" "blk \<in> set (fn_blocks f)" "S_Assign (P_Local x) rv \<in> set (stmts blk)"
  shows "x < length (fn_locals f)" "ld_ty (fn_locals f ! x) < length (kinds i)"
proof -
  show x: "x < length (fn_locals f)"
    using assms by (force simp: simplify_input_def dests_declared_alt dests_of_def dest_local_def)
  then show "ld_ty (fn_locals f ! x) < length (kinds i)"
    using assms(1) by (simp add: simplify_input_def locals_typed_def list_all_length)
qed

lemma rewrite_stmts_keeps:
  assumes "\<And>f blk st. simplify_input i f \<Longrightarrow> blk \<in> set (fn_blocks f) \<Longrightarrow> st \<in> set (stmts blk) \<Longrightarrow> t f st \<noteq> None"
    and "\<And>f st st' c. t f st = Some (st', c) \<Longrightarrow> dest_local st' = dest_local st"
  shows "keeps_input i (\<lambda>f. rewrite_stmts (t f) f)"
proof (rule keeps_inputI)
  fix f assume f: "simplify_input i f"
  from rewrite_stmts_total[of f "t f"] assms(1)[OF f] obtain g c where g: "rewrite_stmts (t f) f = Some (g, c)" by auto
  have "shrinks f g" using rewrite_stmts_shape(1,4)[OF g] by (rule shape_shrinks)
  moreover have "dests_of g \<subseteq> dests_of f" by (rule rewrite_stmts_dests[OF g]) (rule assms(2))
  then have "dests_declared g"
    using f \<open>shrinks f g\<close> dests_declared_mono[of f g] by (simp add: simplify_input_def shrinks_def)
  ultimately show "\<exists>g c. rewrite_stmts (t f) f = Some (g, c) \<and> shrinks f g \<and> dests_declared g" using g by blast
qed

lemma const_fold_keeps: "keeps_input i (const_fold h i ptr_size)"
proof -
  have "keeps_input i (\<lambda>f. rewrite_stmts (const_fold_stmt h i ptr_size (fn_locals f)) f)"
  proof (rule rewrite_stmts_keeps)
    fix f blk st assume "simplify_input i f" "blk \<in> set (fn_blocks f)" "st \<in> set (stmts blk)"
    then show "const_fold_stmt h i ptr_size (fn_locals f) st \<noteq> None"
      using declared_dest by (auto simp: const_fold_stmt_def int_ty_of_def kind_def split: statement.split place.split option.split)
  qed (rule const_fold_stmt_dest)
  then show ?thesis by (simp add: const_fold_rewrite[abs_def])
qed

lemma algebraic_keeps: "keeps_input i (algebraic i)"
proof -
  have "keeps_input i (\<lambda>f. rewrite_stmts (algebraic_stmt i (map ld_ty (fn_locals f))) f)"
  proof (rule rewrite_stmts_keeps)
    fix f blk st assume a: "simplify_input i f" "blk \<in> set (fn_blocks f)" "st \<in> set (stmts blk)"
    show "algebraic_stmt i (map ld_ty (fn_locals f)) st \<noteq> None"
    proof (cases "\<exists>x rv. st = S_Assign (P_Local x) rv")
      case True
      then obtain x rv where st: "st = S_Assign (P_Local x) rv" by blast
      from declared_dest[OF a(1,2)] a(3) st show ?thesis
        by (auto simp: algebraic_stmt_def dest_ty_def is_float_def is_unsigned_def kind_def split: option.split)
    next
      case False
      then show ?thesis by (auto simp: algebraic_stmt_def dest_ty_def split: statement.split place.split option.split)
    qed
  qed (rule algebraic_stmt_dest)
  then show ?thesis by (simp add: algebraic_rewrite[abs_def])
qed

lemma prop_stmts_dests: "map dest_local (fst (prop_stmts vl known ss)) = map dest_local ss"
  by (induction ss arbitrary: known) (simp_all add: case_prod_beta Let_def subst_stmt_dest_local)

lemma copy_const_prop_keeps: "keeps_input i (copy_const_prop i)"
proof (rule keeps_inputI)
  fix f assume f: "simplify_input i f"
  from copy_const_prop_total[of f i] f obtain g c where g: "copy_const_prop i f = Some (g, c)"
    by (auto simp: simplify_input_def locals_typed_def list_all_iff)
  then obtain vl where gb: "g = f\<lparr>fn_blocks := map (\<lambda>blk. fst (prop_block vl blk)) (fn_blocks f)\<rparr>"
    by (auto simp: copy_const_prop_def bind_Some_iff)
  have "dests_of g \<subseteq> dests_of f"
    by (rule dests_of_blocks) (auto simp: gb prop_block_def case_prod_beta Let_def prop_stmts_dests simp del: set_map)
  moreover have "shrinks f g" using copy_const_prop_shape[OF g] by (rule shape_shrinks)
  ultimately show "\<exists>g c. copy_const_prop i f = Some (g, c) \<and> shrinks f g \<and> dests_declared g"
    using g f by (auto simp: simplify_input_def shrinks_def intro: dests_declared_mono)
qed

lemma global_prop_keeps: "keeps_input i (gp_result i)"
proof (rule keeps_inputI)
  fix f assume f: "simplify_input i f"
  then have ok: "cfg_ok f" by (simp add: simplify_input_def)
  from gp_result_total[OF ok] f obtain g c where g: "gp_result i f = Some (g, c)"
    by (fastforce simp: simplify_input_def locals_typed_def list_all_iff)
  from gp_result_cases[OF g ok] obtain vl entry where rw: "gp_rewritten f vl entry g c" by blast
  have "dests_of g \<subseteq> dests_of f"
    by (rule dests_of_blocks)
      (use rw in \<open>auto simp: gp_rewritten_def gp_block_def case_prod_beta Let_def prop_stmts_dests simp del: set_map\<close>)
  moreover have "shrinks f g"
    by (rule shape_shrinks[OF gp_result_shape(1)[OF g]]) (use rw in \<open>simp add: gp_rewritten_def\<close>)
  ultimately show "\<exists>g c. gp_result i f = Some (g, c) \<and> shrinks f g \<and> dests_declared g"
    using g f by (auto simp: simplify_input_def shrinks_def intro: dests_declared_mono)
qed

lemma sccp_keeps: "keeps_input i (sccp h i ptr_size)"
proof (rule keeps_inputI)
  fix f assume f: "simplify_input i f"
  from sccp_total[OF f] obtain g c where g: "sccp h i ptr_size f = Some (g, c)" by fastforce
  have ne: "fn_blocks f \<noteq> []" using f by (auto simp: simplify_input_def cfg_ok_def)
  from g ne have "dests_of g \<subseteq> dests_of f"
  proof (rule sccp_blocks)
    fix reach lat
    assume le: "length (fn_blocks f) \<le> length reach" and len: "length (fn_blocks g) = length (fn_blocks f)"
      and nth: "\<And>k. k < length (fn_blocks f) \<Longrightarrow> fn_blocks g ! k = sccp_new_block reach (sccp_known lat) k (fn_blocks f ! k)"
    show ?thesis
      by (rule dests_of_blocks[OF len])
        (use nth le in \<open>auto simp: sccp_new_block_def sccp_rewrite_cases subst_stmt_dest_local\<close>)
  qed
  with sccp_shrinks[OF g] g f show "\<exists>g c. sccp h i ptr_size f = Some (g, c) \<and> shrinks f g \<and> dests_declared g"
    by (auto simp: simplify_input_def shrinks_def intro: dests_declared_mono)
qed

lemma dce_blocks:
  assumes "dce f = Some (g, c)"
  shows "g = f\<lparr>fn_blocks := fn_blocks g\<rparr>" "length (fn_blocks g) = length (fn_blocks f)"
    "k < length (fn_blocks f) \<Longrightarrow> set (stmts (fn_blocks g ! k)) \<subseteq> set (stmts (fn_blocks f ! k))"
    "k < length (fn_blocks f) \<Longrightarrow> term_of (fn_blocks g ! k) \<in> {T_Unreachable, term_of (fn_blocks f ! k)}"
proof -
  from assms obtain f1 c1 where f1: "drop_unreachable_blocks f = Some (f1, c1)" and g: "g = fst (remove_dead_assignments f1)"
    by (auto simp: dce_def bind_Some_iff case_prod_beta Let_def)
  note dr = drop_unreachable_block[OF f1]
  have lg: "length (fn_blocks g) = length (fn_blocks f1)" by (simp add: g remove_dead_assignments_def Let_def)
  then show len: "length (fn_blocks g) = length (fn_blocks f)" using dr(2) by simp
  have "g = f1\<lparr>fn_blocks := fn_blocks g\<rparr>" by (simp add: g remove_dead_assignments_def Let_def)
  also have "\<dots> = f\<lparr>fn_blocks := fn_blocks g\<rparr>" by (subst dr(1)) simp
  finally show "g = f\<lparr>fn_blocks := fn_blocks g\<rparr>" .
  assume k: "k < length (fn_blocks f)"
  with dr(2) remove_dead_block[of k f1] dr(3)[OF k] g
  show "set (stmts (fn_blocks g ! k)) \<subseteq> set (stmts (fn_blocks f ! k))"
    "term_of (fn_blocks g ! k) \<in> {T_Unreachable, term_of (fn_blocks f ! k)}"
    by (auto split: if_splits)
qed

lemma dce_shrinks:
  assumes "dce f = Some (g, c)"
  shows "shrinks f g" "dests_of g \<subseteq> dests_of f"
proof -
  note g = dce_blocks[OF assms]
  have "targets_of g \<subseteq> targets_of f"
    using g(2,4) by (fastforce elim!: targets_ofE intro: targets_ofI)
  moreover have "fn_entry g = fn_entry f" "fn_locals g = fn_locals f" "fn_params g = fn_params f" by (subst g(1), simp)+
  ultimately show "shrinks f g" using g(2) by (simp add: shrinks_def)
  show "dests_of g \<subseteq> dests_of f" by (rule dests_of_blocks[OF g(2)]) (use g(3) in auto)
qed

lemma dce_keeps: "keeps_input i dce"
proof (rule keeps_inputI)
  fix f assume f: "simplify_input i f"
  from dce_total[of f] f obtain g c where "dce f = Some (g, c)" by (auto simp: simplify_input_def)
  with dce_shrinks[OF this] f show "\<exists>g c. dce f = Some (g, c) \<and> shrinks f g \<and> dests_declared g"
    by (auto simp: simplify_input_def shrinks_def intro: dests_declared_mono)
qed

section \<open>Pipelines of these passes\<close>

definition modelled_passes :: "half_ops \<Rightarrow> type_interner \<Rightarrow> nat \<Rightarrow> mir_pass list" where
  "modelled_passes h i ptr_size =
     [copy_const_prop_pass i, global_prop_pass i, sccp_pass h i ptr_size, const_fold_pass h i ptr_size, algebraic_pass i,
      simplify_cfg_pass i, dce_pass]"

lemma modelled_contract: "p \<in> set (modelled_passes h i ptr_size) \<Longrightarrow> mir_pass_contract p"
  using pass_contracts by (auto simp: modelled_passes_def pass_defs)

lemma modelled_step:
  assumes "p \<in> set (modelled_passes h i ptr_size)" "simplify_input i f"
  shows "\<exists>g c. run_with_layouts False p f = Some (g, c) \<and> simplify_input i g \<and> shrinks f g"
  using assms copy_const_prop_keeps[of i] sccp_keeps[of i h ptr_size] const_fold_keeps[of i h ptr_size]
    algebraic_keeps[of i] simplify_cfg_keeps[of i] dce_keeps[of i] global_prop_keeps[of i]
  by (auto simp: modelled_passes_def pass_defs run_plain_pass keeps_input_def global_prop_contract.run_with_layouts_fresh)

interpretation modelled: pass_pipeline "modelled_passes h i ptr_size" "simplify_input i" shrinks for h i ptr_size
  by (rule pass_pipeline.intro) (fact modelled_contract modelled_step shrinks_refl shrinks_trans)+

section \<open>The debug pipelines keep the runs\<close>

definition await_free :: "mir_function \<Rightarrow> bool" where
  "await_free f \<longleftrightarrow> list_all (\<lambda>blk. case term_of blk of T_Await _ _ _ \<Rightarrow> False | _ \<Rightarrow> True) (fn_blocks f)"

lemma await_free_copy_prop: "copy_const_prop i f = Some (g, c) \<Longrightarrow> await_free f \<Longrightarrow> await_free g"
  by (auto simp: await_free_def copy_const_prop_def bind_Some_iff list_all_iff prop_block_def case_prod_beta Let_def
      subst_terminator_reads_def split: terminator.splits option.splits)

lemma await_free_rewrite: "rewrite_stmts t f = Some (g, c) \<Longrightarrow> await_free f \<Longrightarrow> await_free g"
  using rewrite_stmts_shape(2,3)[of t f g c] by (fastforce simp: await_free_def list_all_length)

lemma await_free_dce_input:
  assumes "cfg_ok f" "await_free f" "\<And>l. \<not> m_is_value m l"
  shows "dce_input m f"
proof -
  obtain f1 c1 where f1: "drop_unreachable_blocks f = Some (f1, c1)"
    using reachable_blocks_total[OF assms(1)] by (simp add: drop_unreachable_blocks_def Let_def)
  have "await_reads (term_of blk) = {}" if "blk \<in> set (fn_blocks f1)" for blk
    using that assms(2) drop_unreachable_block(2,3)[OF f1]
    by (fastforce simp: await_free_def list_all_length in_set_conv_nth await_reads_def split: terminator.splits if_splits)
  with f1 assms(1,3) show ?thesis
    by (auto simp: dce_input_def slots_kept_def awaits_read_def list_all_iff split: statement.split place.split)
qed

lemma dest_types_shrinks: "shrinks f g \<Longrightarrow> dest_types i ptr_size f tys \<Longrightarrow> dest_types i ptr_size g tys"
  by (simp add: shrinks_def dest_types_def)

text \<open>What the function and the machine must satisfy for the passes of the debug pipelines.\<close>

definition debug_input :: "('v, 'h) machine \<Rightarrow> half_ops \<Rightarrow> type_interner \<Rightarrow> nat \<Rightarrow> mir_function \<Rightarrow> (local \<Rightarrow> int_ty option) \<Rightarrow> bool" where
  "debug_input m h i ptr_size f tys \<longleftrightarrow>
     simplify_input i f \<and> no_edge_to_entry f \<and> await_free f \<and> copies_alike m f \<and>
     machine_types m i (fn_locals f) \<and> (\<forall>l. \<not> m_is_value m l) \<and>
     machine_consts m \<and> machine_pure m \<and> machine_folds h tys m \<and> dest_types i ptr_size f tys"

lemma run_one_round:
  assumes "contracts ps"
  shows "run_layouts_dumped verify \<lparr>pm_passes = ps, pm_max_iterations = 1\<rparr> f =
    plain_round ps f"
  using run_layouts_plain[of "\<lparr>pm_passes = ps, pm_max_iterations = 1\<rparr>" verify f] assms
  by (cases "plain_round ps f") (auto split: prod.split)

lemma simplify_stage:
  assumes "simplify_input i f" "no_edge_to_entry f" "machine_consts m" "machine_types m i (fn_locals f)"
  shows "\<exists>g c. simplify_cfg i f = Some (g, c) \<and> simplify_input i g \<and> refines m f g"
proof -
  from simplify_cfg_keeps[of i] assms(1) obtain g c where
    g: "simplify_cfg i f = Some (g, c)" "simplify_input i g" by (auto simp: keeps_input_def)
  with simplify_cfg_refines_lemma[OF g(1) assms(3,4,2)] show ?thesis by blast
qed

lemma debug_stages:
  assumes "debug_input m h i ptr_size f tys"
  shows "\<exists>f1 c1 f2 c2 f3 c3 g c. copy_const_prop i f = Some (f1, c1) \<and> const_fold h i ptr_size f1 = Some (f2, c2) \<and>
    dce f2 = Some (f3, c3) \<and> simplify_cfg i f3 = Some (g, c) \<and> simplify_input i g \<and> refines m f g"
proof -
  note d = assms[unfolded debug_input_def]
  from copy_const_prop_keeps[of i] d obtain f1 c1 where
    f1: "copy_const_prop i f = Some (f1, c1)" "simplify_input i f1" "shrinks f f1" unfolding keeps_input_def by blast
  from const_fold_keeps[of i h ptr_size] f1(2) obtain f2 c2 where
    f2: "const_fold h i ptr_size f1 = Some (f2, c2)" "simplify_input i f2" "shrinks f1 f2" unfolding keeps_input_def by blast
  from dce_keeps[of i] f2(2) obtain f3 c3 where
    f3: "dce f2 = Some (f3, c3)" "simplify_input i f3" "shrinks f2 f3" unfolding keeps_input_def by blast
  have "refines m f f1"
    using copy_const_prop_runs[OF f1(1), of m] d f1(3) by (intro refinesI_same) (auto simp: shrinks_def)
  also have "refines m f1 f2"
    using const_fold_runs[OF f2(1), of tys m] d dest_types_shrinks[OF f1(3)] f2(3)
    by (intro refinesI_same) (auto simp: shrinks_def)
  also have "dce_input m f2"
    using f1(1) f2(1,2) d
    by (intro await_free_dce_input)
      (auto simp: const_fold_rewrite simplify_input_def intro: await_free_copy_prop await_free_rewrite)
  then have "refines m f2 f3" using dce_correct_lemma[of m f2] d f3(1) by auto
  also have "shrinks f f3" using f1(3) f2(3) f3(3) shrinks_trans by blast
  then have "\<exists>g c. simplify_cfg i f3 = Some (g, c) \<and> simplify_input i g \<and> refines m f3 g"
    using d f3(2) by (intro simplify_stage) (auto simp: shrinks_def intro: shrinks_no_edge)
  ultimately show ?thesis using f1(1) f2(1) f3(1) refines_trans by blast
qed

lemma debug_pipeline_runs:
  assumes "debug_input m h i ptr_size f tys"
  shows "\<exists>g hit. run_layouts_dumped verify (debug_pipeline h i ptr_size debug_info) f = Some (g, hit) \<and>
    simplify_input i g \<and> refines m f g"
proof (cases debug_info)
  case True
  have "contracts [simplify_cfg_pass i]" using pass_contracts by (simp add: contracts_def pass_defs)
  from run_one_round[OF this, of verify f] simplify_stage[of i f m] assms True show ?thesis
    by (auto simp: debug_pipeline_def manager_new_def manager_add_def debug_input_def plain_round_def pass_defs run_plain_pass)
next
  case False
  have "contracts [copy_const_prop_pass i, const_fold_pass h i ptr_size, dce_pass, simplify_cfg_pass i]"
    using pass_contracts by (simp add: contracts_def pass_defs)
  from run_one_round[OF this, of verify f] debug_stages[OF assms] False show ?thesis
    by (auto simp: debug_pipeline_def manager_new_def manager_add_def plain_round_def pass_defs run_plain_pass)
qed

end
