(* ===== verification/Const_Machine.thy ===== *)
theory Const_Machine
  imports Mir_Machine Const_Fold
begin

text \<open>
  A concrete machine, on which the hypotheses of the pass theorems are discharged and small
  functions are run. Its values are constants and its heap is the list of printed values. It
  computes exactly the operations the constant folder defines and traps on everything else:
  memory loads and stores, calls, allocation. The half-precision conversions are the identity on
  bit patterns of the low half, which no sample uses.
\<close>

definition half_low :: half_ops where
  "half_low = \<lparr>half_from_f64 = ucast, half_to_f64 = ucast\<rparr>"

text \<open>The operation of an erased rvalue applied to constants.\<close>

definition const_rvalue :: "rvalue \<Rightarrow> const list \<Rightarrow> rvalue option" where
  "const_rvalue rv vs =
     (case (rv, vs) of
        (R_Binary op _ _, [a, b]) \<Rightarrow> Some (R_Binary op (O_Const a) (O_Const b))
      | (R_Unary op _, [a]) \<Rightarrow> Some (R_Unary op (O_Const a))
      | (R_CheckedBinary op _ _, [a, b]) \<Rightarrow> Some (R_CheckedBinary op (O_Const a) (O_Const b))
      | (R_CheckedNeg _, [a]) \<Rightarrow> Some (R_CheckedNeg (O_Const a))
      | _ \<Rightarrow> None)"

definition const_machine :: "(local \<Rightarrow> int_ty option) \<Rightarrow> (const, const list) machine" where
  "const_machine tys =
     \<lparr>m_const = id,
      m_truth = (\<lambda>v. v = C_Bool True),
      m_key = (\<lambda>v. case v of C_Int k \<Rightarrow> k | _ \<Rightarrow> 0),
      m_load = (\<lambda>_ _ _. None),
      m_store = (\<lambda>_ _ _ _. None),
      m_rvalue = (\<lambda>p rv vs h.
        case Option.bind (const_rvalue rv vs)
            (\<lambda>r. fold_rvalue half_low r (case p of P_Local l \<Rightarrow> tys l | _ \<Rightarrow> None)) of
          Some c \<Rightarrow> Ok c h | None \<Rightarrow> Trap h),
      m_stmt = (\<lambda>st vs h. case st of
          S_Print _ _ _ \<Rightarrow> Ok () (h @ vs) | S_Panic _ \<Rightarrow> Trap h | _ \<Rightarrow> Ok () h),
      m_await = (\<lambda>v h. Ok v h),
      m_tail = (\<lambda>c vs h. Trap h),
      m_is_value = (\<lambda>_. False)\<rparr>"

lemma const_machine_sel [simp]:
  "m_const (const_machine tys) = id"
  "m_truth (const_machine tys) v = (v = C_Bool True)"
  "m_is_value (const_machine tys) l = False"
  "m_load (const_machine tys) p vs h = None"
  "m_store (const_machine tys) p vs v h = None"
  "m_await (const_machine tys) v h = Ok v h"
  by (simp_all add: const_machine_def)

lemma const_machine_heap:
  "m_rvalue (const_machine tys) p rv vs h = Ok v h' \<Longrightarrow> h' = h"
  by (auto simp: const_machine_def split: option.splits)

definition const_state :: "(const, const list) state" where
  "const_state = \<lparr>loc = (\<lambda>_. C_Null), heap = []\<rparr>"

end
