(* ===== verification/Mir_Dominators.thy ===== *)
theory Mir_Dominators
  imports Mir_Cfg
begin

text \<open>
  The dominator and postdominator trees of \<open>crates/dream-mir/src/passes/cfg.rs\<close> are exact: the
  iteration of Cooper, Harvey and Kennedy ends, and a query answers whether every path from the
  root passes through a block. The argument is on the tree of immediate dominators as it changes:
  every change moves a block up its own path to the root, so positions in the reverse postorder
  only fall; a tree that no visit changes has only dominators above each block; and no dominator is
  ever lost.
\<close>

section \<open>Dominance\<close>

definition pred_edge :: "block_id list list \<Rightarrow> block_id \<Rightarrow> block_id \<Rightarrow> bool" where
  "pred_edge P a b \<longleftrightarrow> b < length P \<and> a \<in> set (P ! b)"

text \<open>What is reached from the root without passing \<open>a\<close>.\<close>

inductive avoids :: "('b \<Rightarrow> 'b \<Rightarrow> bool) \<Rightarrow> 'b \<Rightarrow> 'b \<Rightarrow> 'b \<Rightarrow> bool" for E root a where
  avoids_root: "root \<noteq> a \<Longrightarrow> avoids E root a root"
| avoids_step: "avoids E root a b \<Longrightarrow> E b c \<Longrightarrow> c \<noteq> a \<Longrightarrow> avoids E root a c"

definition doms :: "('b \<Rightarrow> 'b \<Rightarrow> bool) \<Rightarrow> 'b \<Rightarrow> 'b \<Rightarrow> 'b \<Rightarrow> bool" where
  "doms E root a b \<longleftrightarrow> E\<^sup>*\<^sup>* root b \<and> \<not> avoids E root a b"

lemma avoids_reach: "avoids E root a b \<Longrightarrow> E\<^sup>*\<^sup>* root b"
  by (induction rule: avoids.induct) auto

lemma avoids_not: "avoids E root a b \<Longrightarrow> b \<noteq> a"
  by (induction rule: avoids.induct) auto

lemma doms_refl: "E\<^sup>*\<^sup>* root b \<Longrightarrow> doms E root b b"
  by (auto simp: doms_def dest: avoids_not)

lemma doms_root: "doms E root a root \<longleftrightarrow> a = root"
  by (auto simp: doms_def intro: avoids_root dest: avoids_not)

lemma doms_pred: "doms E root a c \<Longrightarrow> E b c \<Longrightarrow> a \<noteq> c \<Longrightarrow> E\<^sup>*\<^sup>* root b \<Longrightarrow> doms E root a b"
  unfolding doms_def by (auto intro: avoids_step)

text \<open>Dominance by the paths that lead to a block.\<close>

inductive walk :: "('b \<Rightarrow> 'b \<Rightarrow> bool) \<Rightarrow> 'b \<Rightarrow> 'b list \<Rightarrow> 'b \<Rightarrow> bool" for E root where
  walk_root: "walk E root [root] root"
| walk_step: "walk E root p b \<Longrightarrow> E b c \<Longrightarrow> walk E root (p @ [c]) c"

lemma walk_reach: "walk E root p b \<Longrightarrow> E\<^sup>*\<^sup>* root b"
  by (induction rule: walk.induct) auto

lemma reach_walk: "E\<^sup>*\<^sup>* root b \<Longrightarrow> \<exists>p. walk E root p b"
  by (induction rule: rtranclp_induct) (auto intro: walk.intros)

lemma walk_avoids: "walk E root p b \<Longrightarrow> a \<notin> set p \<Longrightarrow> avoids E root a b"
  by (induction rule: walk.induct) (auto intro: avoids.intros)

lemma avoids_walk: "avoids E root a b \<Longrightarrow> \<exists>p. walk E root p b \<and> a \<notin> set p"
proof (induction rule: avoids.induct)
  case avoids_root
  then show ?case by (auto intro!: exI[of _ "[root]"] walk_root)
next
  case (avoids_step b c)
  then obtain p where "walk E root p b" "a \<notin> set p" by blast
  with avoids_step.hyps show ?case by (intro exI[of _ "p @ [c]"]) (auto intro: walk_step)
qed

lemma doms_walks: "E\<^sup>*\<^sup>* root b \<Longrightarrow> doms E root a b \<longleftrightarrow> (\<forall>p. walk E root p b \<longrightarrow> a \<in> set p)"
  unfolding doms_def using walk_avoids avoids_walk by metis

section \<open>The graph, the order and the tree\<close>

definition dom_graph :: "nat \<Rightarrow> block_id \<Rightarrow> block_id list list \<Rightarrow> block_id list \<Rightarrow> bool" where
  "dom_graph n root P rpo \<longleftrightarrow>
     length P = n \<and> root < n \<and> (\<forall>b < n. set (P ! b) \<subseteq> {..<n}) \<and>
     distinct rpo \<and> set rpo = {b. (pred_edge P)\<^sup>*\<^sup>* root b} \<and> set rpo \<subseteq> {..<n} \<and> rpo \<noteq> [] \<and> hd rpo = root \<and>
     (\<forall>i < length rpo. rpo ! i \<noteq> root \<longrightarrow> (\<exists>j < i. pred_edge P (rpo ! j) (rpo ! i)))"

definition order_index :: "nat \<Rightarrow> block_id list \<Rightarrow> nat list \<Rightarrow> bool" where
  "order_index n rpo idx \<longleftrightarrow>
     length idx = n \<and> (\<forall>i < length rpo. idx ! (rpo ! i) = i) \<and> (\<forall>b < n. b \<notin> set rpo \<longrightarrow> idx ! b = rpo_unreachable)"

lemma index_order_total:
  assumes "distinct rpo" "set rpo \<subseteq> {..<n}"
  shows "\<exists>idx. index_order n rpo = Some idx \<and> order_index n rpo idx"
proof -
  have "\<exists>idx. foldM (\<lambda>idx (i, b). upd_opt idx b i) (replicate n rpo_unreachable) (enumerate 0 rpo) = Some idx \<and> order_index n rpo idx"
    using assms
  proof (induction rpo rule: rev_induct)
    case (snoc b rpo)
    then obtain idx where idx: "foldM (\<lambda>idx (i, b). upd_opt idx b i) (replicate n rpo_unreachable) (enumerate 0 rpo) = Some idx"
      "order_index n rpo idx" by auto
    from idx(2) snoc.prems have "upd_opt idx b (length rpo) = Some (idx[b := length rpo])"
      by (simp add: order_index_def upd_opt_def)
    moreover have "order_index n (rpo @ [b]) (idx[b := length rpo])"
      using idx(2) snoc.prems by (auto simp: order_index_def nth_append nth_list_update less_Suc_eq)
    ultimately show ?case using idx(1) by (simp add: enumerate_append_eq foldM_append)
  qed (simp add: order_index_def)
  then show ?thesis by (simp add: index_order_def)
qed

abbreviation laid_out :: "block_id option list \<Rightarrow> block_id \<Rightarrow> bool" where
  "laid_out T b \<equiv> b < length T \<and> T ! b \<noteq> None"

definition dparent :: "block_id option list \<Rightarrow> block_id \<Rightarrow> block_id \<Rightarrow> bool" where
  "dparent T x y \<longleftrightarrow> x < length T \<and> T ! x = Some y \<and> x \<noteq> y"

abbreviation dabove :: "block_id option list \<Rightarrow> block_id \<Rightarrow> block_id \<Rightarrow> bool" where
  "dabove T \<equiv> (dparent T)\<^sup>*\<^sup>*"

definition tree_ok :: "nat \<Rightarrow> block_id \<Rightarrow> block_id list \<Rightarrow> nat list \<Rightarrow> block_id option list \<Rightarrow> bool" where
  "tree_ok n root rpo idx T \<longleftrightarrow>
     length T = n \<and> root < n \<and> T ! root = Some root \<and> idx ! root = 0 \<and> length idx = n \<and>
     (\<forall>b d. b < n \<longrightarrow> T ! b = Some d \<longrightarrow> b \<in> set rpo \<and> laid_out T d \<and> (b \<noteq> root \<longrightarrow> idx ! d < idx ! b))"

lemma tree_okD:
  assumes "tree_ok n root rpo idx T"
  shows "length T = n" "root < n" "T ! root = Some root" "idx ! root = 0" "length idx = n"
    "\<And>b d. b < n \<Longrightarrow> T ! b = Some d \<Longrightarrow> b \<in> set rpo"
    "\<And>b d. b < n \<Longrightarrow> T ! b = Some d \<Longrightarrow> laid_out T d"
    "\<And>b d. b < n \<Longrightarrow> T ! b = Some d \<Longrightarrow> b \<noteq> root \<Longrightarrow> idx ! d < idx ! b"
  using assms unfolding tree_ok_def by blast+

lemma parent_lower:
  assumes "tree_ok n root rpo idx T" "dparent T x y"
  shows "idx ! y < idx ! x" "laid_out T x" "laid_out T y" "x \<noteq> root"
proof -
  note t = tree_okD[OF assms(1)]
  from assms(2) t(1) have x: "x < n" "T ! x = Some y" "x \<noteq> y" by (auto simp: dparent_def)
  show "x \<noteq> root" using x t(3) by auto
  with x t(8) show "idx ! y < idx ! x" by blast
  show "laid_out T x" "laid_out T y" using x t(1) t(7)[OF x(1,2)] by auto
qed

lemma above_lower:
  assumes "tree_ok n root rpo idx T" "dabove T x y"
  shows "idx ! y \<le> idx ! x"
  using assms(2)
proof (induction rule: rtranclp_induct)
  case (step y z)
  with parent_lower(1)[OF assms(1) step.hyps(2)] show ?case by simp
qed simp

lemma above_lower_strict:
  assumes "tree_ok n root rpo idx T" "dabove T x y" "x \<noteq> y"
  shows "idx ! y < idx ! x"
proof -
  from assms(2,3) obtain z where z: "dparent T x z" "dabove T z y" by (auto elim: converse_rtranclpE)
  from parent_lower(1)[OF assms(1) z(1)] above_lower[OF assms(1) z(2)] show ?thesis by simp
qed

lemma above_laid_out:
  assumes "tree_ok n root rpo idx T" "dabove T x y" "laid_out T x"
  shows "laid_out T y"
  using assms(2)
proof (induction rule: rtranclp_induct)
  case (step y z)
  show ?case by (rule parent_lower(3)[OF assms(1) step.hyps(2)])
qed (rule assms(3))

text \<open>A block on the way up from another is above it or is met on the way.\<close>

lemma above_parent_cases:
  "dabove T x z \<Longrightarrow> dparent T x y \<Longrightarrow> x \<noteq> z \<Longrightarrow> dabove T y z"
  by (erule converse_rtranclpE) (auto simp: dparent_def)

lemma above_linear:
  assumes "dabove T x y" "dabove T x z"
  shows "dabove T y z \<or> dabove T z y"
  using assms
proof (induction arbitrary: z rule: converse_rtranclp_induct)
  case (step x w)
  show ?case
  proof (cases "x = z")
    case True
    with step.hyps show ?thesis by (meson converse_rtranclp_into_rtranclp)
  next
    case False
    with step.IH above_parent_cases[OF step.prems step.hyps(1)] show ?thesis by blast
  qed
qed blast

lemma laid_out_parent:
  assumes "tree_ok n root rpo idx T" "laid_out T x" "x \<noteq> root"
  obtains y where "T ! x = Some y" "dparent T x y"
proof -
  note t = tree_okD[OF assms(1)]
  from assms(2) obtain y where y: "T ! x = Some y" by blast
  with t(8)[of x y] assms t(1) have "x \<noteq> y" by auto
  with that y assms(2) show thesis by (auto simp: dparent_def)
qed

lemma above_root:
  assumes "tree_ok n root rpo idx T" "laid_out T x"
  shows "dabove T x root"
  using assms(2)
proof (induction "idx ! x" arbitrary: x rule: less_induct)
  case less
  show ?case
  proof (cases "x = root")
    case False
    from laid_out_parent[OF assms(1) less.prems False] obtain y where "dparent T x y" by blast
    with less.hyps[of y] parent_lower[OF assms(1)] show ?thesis by (meson converse_rtranclp_into_rtranclp)
  qed simp
qed

section \<open>Nearest common ancestors\<close>

lemma climb_total:
  assumes t: "tree_ok n root rpo idx T" and "laid_out T a" "b < n"
  shows "\<exists>a'. climb T idx a b = Some a' \<and> dabove T a a' \<and> idx ! a' \<le> idx ! b \<and>
    (\<forall>x. dabove T a x \<longrightarrow> idx ! x \<le> idx ! b \<longrightarrow> dabove T a' x)"
  using assms(2)
proof (induction "idx ! a" arbitrary: a rule: less_induct)
  case less
  note tr = tree_okD[OF t]
  have ix: "nth_opt idx a = Some (idx ! a)" "nth_opt idx b = Some (idx ! b)" using less.prems assms(3) tr(1,5) by auto
  show ?case
  proof (cases "idx ! b < idx ! a")
    case True
    with tr(4) have "a \<noteq> root" by auto
    from laid_out_parent[OF t less.prems this] obtain p where p: "T ! a = Some p" "dparent T a p" by blast
    from less.hyps[OF parent_lower(1)[OF t p(2)] parent_lower(3)[OF t p(2)]] obtain a' where
      a': "climb T idx p b = Some a'" "dabove T p a'" "idx ! a' \<le> idx ! b"
      "\<forall>x. dabove T p x \<longrightarrow> idx ! x \<le> idx ! b \<longrightarrow> dabove T a' x" by blast
    have "climb T idx a b = Some a'" using a'(1) p(1) True ix less.prems by (subst climb.simps) simp
    moreover have "dabove T a' x" if "dabove T a x" "idx ! x \<le> idx ! b" for x
    proof -
      have "a \<noteq> x" using that(2) True by auto
      with a'(4) above_parent_cases[OF that(1) p(2)] that(2) show ?thesis by blast
    qed
    ultimately show ?thesis using a'(2,3) p(2) by (auto intro: converse_rtranclp_into_rtranclp)
  next
    case False
    then have "climb T idx a b = Some a" using ix by (subst climb.simps) simp
    with False show ?thesis by auto
  qed
qed

lemma intersect_total:
  assumes t: "tree_ok n root rpo idx T" and o: "order_index n rpo idx"
    and "laid_out T a" "laid_out T b"
  shows "\<exists>r. intersect T idx a b = Some r \<and> dabove T a r \<and> dabove T b r \<and>
    (\<forall>x. dabove T a x \<longrightarrow> dabove T b x \<longrightarrow> dabove T r x)"
  using assms(3,4)
proof (induction "idx ! a + idx ! b" arbitrary: a b rule: less_induct)
  case less
  note tr = tree_okD[OF t]
  show ?case
  proof (cases "a = b")
    case True
    then show ?thesis by (subst intersect.simps) auto
  next
    case False
    have ab: "a < n" "b < n" using less.prems tr(1) by auto
    from climb_total[OF t less.prems(1) ab(2)] obtain a' where
      a': "climb T idx a b = Some a'" "dabove T a a'" "idx ! a' \<le> idx ! b"
      "\<forall>x. dabove T a x \<longrightarrow> idx ! x \<le> idx ! b \<longrightarrow> dabove T a' x" by blast
    have la: "laid_out T a'" by (rule above_laid_out[OF t a'(2) less.prems(1)])
    with tr(1) have an: "a' < n" by simp
    from climb_total[OF t less.prems(2) an] obtain b' where
      b': "climb T idx b a' = Some b'" "dabove T b b'" "idx ! b' \<le> idx ! a'"
      "\<forall>x. dabove T b x \<longrightarrow> idx ! x \<le> idx ! a' \<longrightarrow> dabove T b' x" by blast
    have lb: "laid_out T b'" by (rule above_laid_out[OF t b'(2) less.prems(2)])
    have common: "dabove T a' x \<and> dabove T b' x" if "dabove T a x" "dabove T b x" for x
      using a'(4) b'(4) that above_lower[OF t] by meson
    have eq: "intersect T idx a b = intersect T idx a' b'"
      using False a'(1) b'(1) by (subst intersect.simps) simp
    show ?thesis
    proof (cases "a' = a \<and> b' = b")
      case True
      with a'(3) b'(3) have "idx ! a = idx ! b" by simp
      moreover have "a \<in> set rpo" "b \<in> set rpo" using less.prems tr(6) ab by blast+
      ultimately have "a = b" using o by (metis order_index_def in_set_conv_nth)
      with False show ?thesis by blast
    next
      case other: False
      have "idx ! a' + idx ! b' < idx ! a + idx ! b"
        using other above_lower[OF t a'(2)] above_lower[OF t b'(2)]
          above_lower_strict[OF t a'(2)] above_lower_strict[OF t b'(2)] by fastforce
      from less.hyps[OF this la lb] obtain r where "intersect T idx a' b' = Some r" "dabove T a' r" "dabove T b' r"
        "\<forall>x. dabove T a' x \<longrightarrow> dabove T b' x \<longrightarrow> dabove T r x" by blast
      with eq common a'(2) b'(2) show ?thesis by (intro exI[of _ r]) (auto intro: rtranclp_trans)
    qed
  qed
qed

text \<open>The blocks above all predecessors that have a place in the tree.\<close>

definition above_all :: "block_id option list \<Rightarrow> block_id list \<Rightarrow> block_id \<Rightarrow> bool" where
  "above_all T ps x \<longleftrightarrow> (\<forall>p \<in> set ps. laid_out T p \<longrightarrow> dabove T p x)"

lemma meet_preds_total:
  assumes t: "tree_ok n root rpo idx T" and o: "order_index n rpo idx" and "set ps \<subseteq> {..<n}"
  shows "\<exists>r. meet_preds T idx ps = Some r \<and> (r = None \<longleftrightarrow> (\<forall>p \<in> set ps. \<not> laid_out T p)) \<and>
    (\<forall>d. r = Some d \<longrightarrow> laid_out T d \<and> above_all T ps d \<and> (\<forall>x. above_all T ps x \<longrightarrow> dabove T d x))"
  using assms(3)
proof (induction ps rule: rev_induct)
  case Nil
  then show ?case by (simp add: meet_preds_def)
next
  case (snoc p ps)
  note tr = tree_okD[OF t]
  from snoc obtain r where r: "meet_preds T idx ps = Some r" "r = None \<longleftrightarrow> (\<forall>p \<in> set ps. \<not> laid_out T p)"
    "\<And>d. r = Some d \<Longrightarrow> laid_out T d \<and> above_all T ps d \<and> (\<forall>x. above_all T ps x \<longrightarrow> dabove T d x)" by auto
  have p: "p < n" "nth_opt T p = Some (T ! p)" using snoc.prems tr(1) by auto
  have step: "meet_preds T idx (ps @ [p]) = (if T ! p = None then Some r
      else case r of None \<Rightarrow> Some (Some p) | Some cur \<Rightarrow> map_option Some (intersect T idx p cur))"
    using r(1) p(2) unfolding meet_preds_def foldM_append by simp
  show ?case
  proof (cases "T ! p = None")
    case True
    with step r show ?thesis by (auto simp: above_all_def)
  next
    case False
    then have lp: "laid_out T p" using p(1) tr(1) by simp
    show ?thesis
    proof (cases r)
      case None
      with r(2) have "above_all T (ps @ [p]) x \<longleftrightarrow> dabove T p x" for x using lp by (auto simp: above_all_def)
      with None step False lp show ?thesis by auto
    next
      case (Some cur)
      from r(3)[OF Some] have cur: "laid_out T cur" "above_all T ps cur" "\<And>x. above_all T ps x \<Longrightarrow> dabove T cur x" by auto
      from intersect_total[OF t o lp cur(1)] obtain q where q: "intersect T idx p cur = Some q" "dabove T p q" "dabove T cur q"
        "\<And>x. dabove T p x \<Longrightarrow> dabove T cur x \<Longrightarrow> dabove T q x" by blast
      have "laid_out T q" by (rule above_laid_out[OF t q(2) lp])
      moreover have "above_all T (ps @ [p]) q"
        using cur(2) q(2,3) by (auto simp: above_all_def intro: rtranclp_trans)
      moreover have "dabove T q x" if "above_all T (ps @ [p]) x" for x
        using that lp cur(3)[of x] q(4) by (auto simp: above_all_def)
      ultimately show ?thesis using step False Some q(1) lp by auto
    qed
  qed
qed

section \<open>One visit\<close>

text \<open>
  The state of the iteration after the first \<open>k\<close> blocks of a pass: the blocks of the order up to
  the last one placed are placed; no block is placed above what its placed predecessors share; a
  block that has been visited in this pass, or whose parent has not, is placed above none of its
  earlier predecessors; and a dominator of a block dominates its parent.
\<close>

definition dom_inv :: "nat \<Rightarrow> block_id \<Rightarrow> block_id list list \<Rightarrow> block_id list \<Rightarrow> nat list \<Rightarrow> nat \<Rightarrow> block_id option list \<Rightarrow> bool" where
  "dom_inv n root P rpo idx k T \<longleftrightarrow>
     tree_ok n root rpo idx T \<and>
     (\<forall>x \<in> set rpo. idx ! x < k \<longrightarrow> laid_out T x) \<and>
     (\<forall>b x. laid_out T b \<longrightarrow> x \<in> set rpo \<longrightarrow> idx ! x \<le> idx ! b \<longrightarrow> laid_out T x) \<and>
     (\<forall>c d x. dparent T c d \<longrightarrow> above_all T (P ! c) x \<longrightarrow> dabove T d x) \<and>
     (\<forall>c d q. dparent T c d \<longrightarrow> q \<in> set (P ! c) \<longrightarrow> laid_out T q \<longrightarrow> idx ! q < idx ! c \<longrightarrow>
        k \<le> idx ! d \<or> idx ! c < k \<longrightarrow> dabove T q d) \<and>
     (\<forall>c d a. dparent T c d \<longrightarrow> doms (pred_edge P) root a c \<longrightarrow> a \<noteq> c \<longrightarrow> doms (pred_edge P) root a d)"

lemma dom_invD:
  assumes "dom_inv n root P rpo idx k T"
  shows "tree_ok n root rpo idx T"
    "\<And>x. x \<in> set rpo \<Longrightarrow> idx ! x < k \<Longrightarrow> laid_out T x"
    "\<And>b x. laid_out T b \<Longrightarrow> x \<in> set rpo \<Longrightarrow> idx ! x \<le> idx ! b \<Longrightarrow> laid_out T x"
    "\<And>c d x. dparent T c d \<Longrightarrow> above_all T (P ! c) x \<Longrightarrow> dabove T d x"
    "\<And>c d q. dparent T c d \<Longrightarrow> q \<in> set (P ! c) \<Longrightarrow> laid_out T q \<Longrightarrow> idx ! q < idx ! c \<Longrightarrow>
        k \<le> idx ! d \<or> idx ! c < k \<Longrightarrow> dabove T q d"
    "\<And>c d a. dparent T c d \<Longrightarrow> doms (pred_edge P) root a c \<Longrightarrow> a \<noteq> c \<Longrightarrow> doms (pred_edge P) root a d"
  using assms unfolding dom_inv_def by blast+

lemma dom_invI:
  assumes "tree_ok n root rpo idx T"
    "\<And>x. x \<in> set rpo \<Longrightarrow> idx ! x < k \<Longrightarrow> laid_out T x"
    "\<And>b x. laid_out T b \<Longrightarrow> x \<in> set rpo \<Longrightarrow> idx ! x \<le> idx ! b \<Longrightarrow> laid_out T x"
    "\<And>c d x. dparent T c d \<Longrightarrow> above_all T (P ! c) x \<Longrightarrow> dabove T d x"
    "\<And>c d q. dparent T c d \<Longrightarrow> q \<in> set (P ! c) \<Longrightarrow> laid_out T q \<Longrightarrow> idx ! q < idx ! c \<Longrightarrow>
        k \<le> idx ! d \<or> idx ! c < k \<Longrightarrow> dabove T q d"
    "\<And>c d a. dparent T c d \<Longrightarrow> doms (pred_edge P) root a c \<Longrightarrow> a \<noteq> c \<Longrightarrow> doms (pred_edge P) root a d"
  shows "dom_inv n root P rpo idx k T"
  unfolding dom_inv_def using assms by blast

lemma dom_graphD:
  assumes "dom_graph n root P rpo"
  shows "length P = n" "root < n" "\<And>b. b < n \<Longrightarrow> set (P ! b) \<subseteq> {..<n}" "distinct rpo"
    "\<And>b. b \<in> set rpo \<longleftrightarrow> (pred_edge P)\<^sup>*\<^sup>* root b" "\<And>b. b \<in> set rpo \<Longrightarrow> b < n" "rpo \<noteq> []" "hd rpo = root"
    "\<And>i. i < length rpo \<Longrightarrow> rpo ! i \<noteq> root \<Longrightarrow> \<exists>j < i. pred_edge P (rpo ! j) (rpo ! i)"
  using assms unfolding dom_graph_def by blast+

lemma order_indexD:
  assumes "order_index n rpo idx" "b \<in> set rpo"
  shows "idx ! b < length rpo" "rpo ! (idx ! b) = b"
  using assms by (auto simp: order_index_def in_set_conv_nth)

lemma earlier_pred:
  assumes "dom_graph n root P rpo" "order_index n rpo idx" "b \<in> set rpo" "b \<noteq> root"
  obtains q where "q \<in> set (P ! b)" "q \<in> set rpo" "idx ! q < idx ! b"
proof -
  note o = order_indexD[OF assms(2,3)]
  from dom_graphD(9)[OF assms(1) o(1)] assms(4) o(2) obtain j where j: "j < idx ! b" "pred_edge P (rpo ! j) b" by auto
  then have "idx ! (rpo ! j) = j" "rpo ! j \<in> set rpo" using assms(2) o(1) by (auto simp: order_index_def)
  with j that show thesis by (auto simp: pred_edge_def)
qed

text \<open>All dominators of a placed block are above it.\<close>

lemma doms_above:
  assumes "dom_inv n root P rpo idx k T" "laid_out T y" "doms (pred_edge P) root a y"
  shows "dabove T y a"
  using assms(2,3)
proof (induction "idx ! y" arbitrary: y rule: less_induct)
  case less
  note d = dom_invD[OF assms(1)]
  show ?case
  proof (cases "y = a")
    case False
    with less.prems(2) have "y \<noteq> root" by (auto simp: doms_root)
    from laid_out_parent[OF d(1) less.prems(1) this] obtain z where z: "dparent T y z" by blast
    with d(6) less.prems(2) False have "doms (pred_edge P) root a z" by blast
    with less.hyps parent_lower[OF d(1) z] z show ?thesis by (meson converse_rtranclp_into_rtranclp)
  qed simp
qed

lemma doms_on_way:
  assumes "dom_inv n root P rpo idx k T" "dabove T q m" "doms (pred_edge P) root a q" "dabove T m a"
  shows "doms (pred_edge P) root a m"
  using assms(2,3)
proof (induction rule: converse_rtranclp_induct)
  case (step y w)
  note d = dom_invD[OF assms(1)]
  have "idx ! a \<le> idx ! m" "idx ! m \<le> idx ! w" "idx ! w < idx ! y"
    using above_lower[OF d(1) assms(4)] above_lower[OF d(1) step.hyps(2)] parent_lower(1)[OF d(1) step.hyps(1)] .
  then have "a \<noteq> y" by auto
  with d(6) step show ?case by blast
qed

text \<open>The tree with block \<open>b\<close> moved below \<open>m\<close>.\<close>

lemma moved_parent: "b < length T \<Longrightarrow> m \<noteq> b \<Longrightarrow> dparent (T[b := Some m]) x y \<longleftrightarrow> (if x = b then y = m else dparent T x y)"
  by (auto simp: dparent_def nth_list_update)

lemma moved_earlier:
  assumes "tree_ok n root rpo idx T" "tree_ok n root rpo idx (T[b := Some m])" "b < length T" "m \<noteq> b" "idx ! x < idx ! b"
  shows "dabove (T[b := Some m]) x y \<longleftrightarrow> dabove T x y"
proof
  have up: "dparent T z w \<Longrightarrow> idx ! z < idx ! b \<Longrightarrow> dparent (T[b := Some m]) z w \<and> idx ! w < idx ! b" for z w
    using moved_parent[OF assms(3,4)] parent_lower(1)[OF assms(1), of z w] by auto
  have down: "dparent (T[b := Some m]) z w \<Longrightarrow> idx ! z < idx ! b \<Longrightarrow> dparent T z w \<and> idx ! w < idx ! b" for z w
    using moved_parent[OF assms(3,4)] parent_lower(1)[OF assms(2), of z w] by (auto split: if_splits)
  show "dabove (T[b := Some m]) x y" if "dabove T x y"
    using that assms(5) by (induction rule: converse_rtranclp_induct) (use up in \<open>auto intro: converse_rtranclp_into_rtranclp\<close>)
  show "dabove T x y" if "dabove (T[b := Some m]) x y"
    using that assms(5) by (induction rule: converse_rtranclp_induct) (use down in \<open>auto intro: converse_rtranclp_into_rtranclp\<close>)
qed

lemma moved_later:
  assumes "tree_ok n root rpo idx T" "b < length T" "m \<noteq> b" "dabove T x y" "idx ! b \<le> idx ! y"
  shows "dabove (T[b := Some m]) x y"
  using assms(4)
proof (induction rule: converse_rtranclp_induct)
  case (step x w)
  have "idx ! y < idx ! x" using above_lower[OF assms(1) step.hyps(2)] parent_lower(1)[OF assms(1) step.hyps(1)] by simp
  with assms(5) have "x \<noteq> b" by auto
  with step.hyps(1) moved_parent[OF assms(2,3)] have "dparent (T[b := Some m]) x w" by simp
  with step.IH show ?case by (rule converse_rtranclp_into_rtranclp[rotated])
qed simp

lemma moved_shrinks:
  assumes "tree_ok n root rpo idx T" "b < length T" "m \<noteq> b" "b \<noteq> root" "\<And>d. T ! b = Some d \<Longrightarrow> dabove T d m"
    and "dabove (T[b := Some m]) x y" "x \<noteq> b \<or> laid_out T b"
  shows "dabove T x y"
  using assms(6,7)
proof (induction rule: converse_rtranclp_induct)
  case (step x w)
  show ?case
  proof (cases "x = b")
    case True
    with step.prems have "laid_out T b" by blast
    from laid_out_parent[OF assms(1) this assms(4)] obtain d where d: "T ! b = Some d" "dparent T b d" by blast
    have "w = m" using step.hyps(1) True moved_parent[OF assms(2,3)] by simp
    with step.IH assms(3) have "dabove T m y" by blast
    with d assms(5)[OF d(1)] True show ?thesis by (meson converse_rtranclp_into_rtranclp rtranclp_trans)
  next
    case False
    with step.hyps(1) moved_parent[OF assms(2,3)] have p: "dparent T x w" by simp
    with parent_lower(3)[OF assms(1) p] step.IH have "dabove T w y" by blast
    with p show ?thesis by (rule converse_rtranclp_into_rtranclp)
  qed
qed simp

lemma moved_inv:
  assumes g: "dom_graph n root P rpo" and o: "order_index n rpo idx" and inv: "dom_inv n root P rpo idx k T"
    and b: "b \<in> set rpo" "b \<noteq> root" "idx ! b = k"
    and m: "laid_out T m" "above_all T (P ! b) m" "\<forall>x. above_all T (P ! b) x \<longrightarrow> dabove T m x"
  shows "dom_inv n root P rpo idx (Suc k) (T[b := Some m])" "\<And>d. dparent T b d \<Longrightarrow> dabove T d m"
proof -
  note gr = dom_graphD[OF g] and d = dom_invD[OF inv]
  note tr = tree_okD[OF d(1)]
  let ?T = "T[b := Some m]"
  have bn: "b < length T" "b < n" using gr(6) b(1) tr(1) by auto
  from earlier_pred[OF g o b(1,2)] obtain q where q: "q \<in> set (P ! b)" "q \<in> set rpo" "idx ! q < idx ! b" by blast
  have lq: "laid_out T q" using d(2) q(2,3) b(3) by blast
  have qm: "dabove T q m" using m(2) q(1) lq by (auto simp: above_all_def)
  have mb: "idx ! m < idx ! b" using above_lower[OF d(1) qm] q(3) by simp
  then have mne: "m \<noteq> b" by auto
  show shr: "dabove T e m" if "dparent T b e" for e using d(4)[OF that m(2)] .
  have lay: "laid_out ?T x \<longleftrightarrow> x = b \<or> laid_out T x" for x using bn(1) by (auto simp: nth_list_update)
  have t': "tree_ok n root rpo idx ?T"
    unfolding tree_ok_def using tr b(1,2) m(1) mb bn lay by (auto simp: nth_list_update split: if_splits)
  note earlier = moved_earlier[OF d(1) t' bn(1) mne] and later = moved_later[OF d(1) bn(1) mne]
  have shrinks: "dabove T x y" if "dabove ?T x y" "x \<noteq> b \<or> laid_out T b" for x y
  proof (rule moved_shrinks[OF d(1) bn(1) mne b(2) _ that])
    fix e assume "T ! b = Some e"
    moreover have "b \<noteq> e" using tr(8)[OF bn(2) calculation b(2)] by auto
    ultimately show "dabove T e m" using shr bn(1) by (auto simp: dparent_def)
  qed
  have pars: "dparent ?T c e \<longleftrightarrow> (if c = b then e = m else dparent T c e)" for c e by (rule moved_parent[OF bn(1) mne])
  have all: "above_all T ps x" if "above_all ?T ps x" for ps x
    using that shrinks lay unfolding above_all_def by blast
  have same: "x = b" if "x \<in> set rpo" "idx ! x = k" for x using order_indexD(2)[OF o] that b by metis
  have closed: "laid_out T c \<Longrightarrow> q \<in> set rpo \<Longrightarrow> idx ! q < idx ! c \<Longrightarrow> laid_out T q" for c q using d(3)[of c q] by simp
  show "dom_inv n root P rpo idx (Suc k) ?T"
    unfolding dom_inv_def
  proof (intro conjI allI impI ballI)
    show "tree_ok n root rpo idx ?T" by (rule t')
    fix x assume x: "x \<in> set rpo" "idx ! x < Suc k"
    with same d(2)[of x] have "x = b \<or> laid_out T x" by (auto simp: less_Suc_eq)
    then show "x < length ?T" "?T ! x \<noteq> None" using lay by blast+
  next
    fix c x assume c: "laid_out ?T c" "x \<in> set rpo" "idx ! x \<le> idx ! c"
    have "x = b \<or> laid_out T x"
    proof (cases "c = b")
      case True
      with c b(3) same d(2)[of x] show ?thesis by (auto simp: le_less)
    qed (use c d(3)[of c x] lay in blast)
    then show "x < length ?T" "?T ! x \<noteq> None" using lay by blast+
  next
    fix c e x assume c: "dparent ?T c e" "above_all ?T (P ! c) x"
    show "dabove ?T e x"
    proof (cases "c = b")
      case True
      with c pars have "e = m" by simp
      with m(3) all c(2) True earlier mb show ?thesis by blast
    next
      case False
      with c(1) pars have pc: "dparent T c e" by simp
      have ex: "dabove T e x" by (rule d(4)[OF pc all[OF c(2)]])
      consider "idx ! b \<le> idx ! x" | "idx ! e < idx ! b" | "idx ! x < idx ! b" "idx ! b \<le> idx ! e" by linarith
      then show ?thesis
      proof cases
        case 1
        then show ?thesis by (rule later[OF ex])
      next
        case 2
        with earlier ex show ?thesis by blast
      next
        case 3
        have cl: "laid_out T c" "c \<noteq> root" using parent_lower[OF d(1) pc] by auto
        then have "c \<in> set rpo" using tr(1,6) by blast
        from earlier_pred[OF g o this cl(2)] obtain p where p: "p \<in> set (P ! c)" "p \<in> set rpo" "idx ! p < idx ! c" by blast
        have lp: "laid_out T p" by (rule closed[OF cl(1) p(2,3)])
        have "dabove T p e" using d(5)[OF pc p(1) lp p(3)] 3(2) b(3) by simp
        then have "dabove ?T p e" by (rule later[OF _ 3(2)])
        moreover have "dabove ?T p x" using c(2) p(1) lp lay by (auto simp: above_all_def)
        ultimately have "dabove ?T e x \<or> dabove ?T x e" by (rule above_linear)
        with above_lower[OF t', of x e] 3 show ?thesis by auto
      qed
    qed
  next
    fix c e p assume c: "dparent ?T c e" "p \<in> set (P ! c)" "laid_out ?T p" "idx ! p < idx ! c" "Suc k \<le> idx ! e \<or> idx ! c < Suc k"
    show "dabove ?T p e"
    proof (cases "c = b")
      case True
      with c pars have "e = m" "p \<noteq> b" by auto
      with c m(2) lay True have "dabove T p m" by (auto simp: above_all_def)
      with earlier c(4) True \<open>e = m\<close> show ?thesis by blast
    next
      case False
      with c(1) pars have pc: "dparent T c e" by simp
      have cl: "laid_out T c" "c \<in> set rpo" using parent_lower[OF d(1) pc] tr(1,6) by blast+
      have lp: "laid_out T p" using c(3,4) lay closed[OF cl(1) b(1)] by auto
      show ?thesis
      proof (cases "Suc k \<le> idx ! e")
        case True
        with d(5)[OF pc c(2) lp c(4)] later b(3) show ?thesis by simp
      next
        case le: False
        with c(5) same[OF cl(2)] False have "idx ! c < k" by (auto simp: less_Suc_eq)
        with d(5)[OF pc c(2) lp c(4)] earlier c(4) b(3) show ?thesis by simp
      qed
    qed
  next
    fix c e a assume c: "dparent ?T c e" "doms (pred_edge P) root a c" "a \<noteq> c"
    show "doms (pred_edge P) root a e"
    proof (cases "c = b")
      case True
      have pd: "doms (pred_edge P) root a p" if "p \<in> set (P ! b)" "laid_out T p" for p
      proof (rule doms_pred[OF c(2)])
        show "pred_edge P p c" using that(1) True bn(2) gr(1) by (simp add: pred_edge_def)
        show "(pred_edge P)\<^sup>*\<^sup>* root p" using gr(5) tr(1,6) that(2) by blast
      qed (rule c(3))
      have "above_all T (P ! b) a" using pd doms_above[OF inv] by (auto simp: above_all_def)
      with m(3) have "dabove T m a" by blast
      from doms_on_way[OF inv qm pd[OF q(1) lq] this] show ?thesis using c(1) pars True by simp
    qed (use c pars d(6) in auto)
  qed
qed

section \<open>Passes\<close>

text \<open>The sum of the positions of the parents falls with every change.\<close>

definition place_of :: "nat \<Rightarrow> nat list \<Rightarrow> block_id option \<Rightarrow> nat" where
  "place_of n idx d = (case d of None \<Rightarrow> n | Some x \<Rightarrow> idx ! x)"

definition tree_height :: "nat \<Rightarrow> nat list \<Rightarrow> block_id option list \<Rightarrow> nat" where
  "tree_height n idx T = (\<Sum>b < n. place_of n idx (T ! b))"

lemma tree_height_update:
  assumes "b < n" "length T = n" "place_of n idx d < place_of n idx (T ! b)"
  shows "tree_height n idx (T[b := d]) < tree_height n idx T"
  unfolding tree_height_def
  by (rule sum_strict_mono_ex1) (use assms in \<open>auto simp: nth_list_update\<close>)

lemma dom_visit_step:
  assumes g: "dom_graph n root P rpo" and o: "order_index n rpo idx" and inv: "dom_inv n root P rpo idx k T" and k: "k < length rpo"
  shows "\<exists>T' c. dom_visit root P idx (T, ch) (rpo ! k) = Some (T', ch \<or> c) \<and> dom_inv n root P rpo idx (Suc k) T' \<and>
    (if c then tree_height n idx T' < tree_height n idx T
     else T' = T \<and> (rpo ! k \<noteq> root \<longrightarrow> (\<exists>m. T ! (rpo ! k) = Some m \<and> above_all T (P ! (rpo ! k)) m)))"
proof -
  note gr = dom_graphD[OF g] and d = dom_invD[OF inv]
  note tr = tree_okD[OF d(1)]
  let ?b = "rpo ! k"
  have b: "?b \<in> set rpo" "idx ! ?b = k" "?b < n" using k o gr(6) by (auto simp: order_index_def)
  show ?thesis
  proof (cases "?b = root")
    case True
    have k0: "k = 0" using b(2) True tr(4) by simp
    have root: "c = root" if "c \<in> set rpo" "idx ! c < Suc 0" for c
      using order_indexD(2)[OF o that(1)] that(2) True k0 by simp
    have "laid_out T x" if "x \<in> set rpo" "idx ! x < Suc k" for x
      using root[of x] that k0 tr(1,2,3) by simp
    moreover have "k \<le> idx ! e \<or> idx ! c < k" if "dparent T c e" "Suc k \<le> idx ! e \<or> idx ! c < Suc k" for c e
      using that parent_lower(1)[OF d(1) that(1)] k0 by simp
    ultimately have "dom_inv n root P rpo idx (Suc k) T"
      using d by (intro dom_invI) blast+
    with True show ?thesis by (intro exI[of _ T] exI[of _ False]) (simp add: dom_visit_def)
  next
    case False
    from meet_preds_total[OF d(1) o gr(3)[OF b(3)]] obtain r where r: "meet_preds T idx (P ! ?b) = Some r"
      "r = None \<longleftrightarrow> (\<forall>p \<in> set (P ! ?b). \<not> laid_out T p)"
      "\<And>m. r = Some m \<Longrightarrow> laid_out T m \<and> above_all T (P ! ?b) m \<and> (\<forall>x. above_all T (P ! ?b) x \<longrightarrow> dabove T m x)" by blast
    from earlier_pred[OF g o b(1) False] obtain q where q: "q \<in> set (P ! ?b)" "q \<in> set rpo" "idx ! q < idx ! ?b" by blast
    have "laid_out T q" by (rule d(2)[OF q(2)]) (use q(3) b(2) in simp)
    with q(1) r(2) have "r \<noteq> None" by blast
    then obtain m where rm: "r = Some m" by blast
    from r(3)[OF rm] have m: "laid_out T m" "above_all T (P ! ?b) m" "\<forall>x. above_all T (P ! ?b) x \<longrightarrow> dabove T m x" by auto
    note moved = moved_inv[OF g o inv b(1) False b(2) m]
    have visit: "dom_visit root P idx (T, ch) ?b = Some (if T ! ?b \<noteq> Some m then (T[?b := Some m], True) else (T, ch))"
      using False r(1) rm b(3) gr(1) tr(1) by (simp add: dom_visit_def)
    show ?thesis
    proof (cases "T ! ?b = Some m")
      case True
      then have "T[?b := Some m] = T" using list_update_id[of T ?b] by simp
      with visit True moved(1) m(2) show ?thesis by (intro exI[of _ T] exI[of _ False]) simp
    next
      case change: False
      have "place_of n idx (Some m) < place_of n idx (T ! ?b)"
      proof (cases "T ! ?b")
        case None
        have "m \<in> set rpo" using m(1) tr(1,6) by blast
        moreover have "length rpo \<le> n" using gr(4,6) by (metis card_lessThan card_mono distinct_card finite_lessThan lessThan_iff subsetI)
        ultimately show ?thesis using None order_indexD(1)[OF o] by (force simp: place_of_def)
      next
        case (Some e)
        have "?b \<noteq> e" using tr(8)[OF b(3) Some False] by auto
        with Some b(3) tr(1) have "dparent T ?b e" by (simp add: dparent_def)
        from above_lower_strict[OF d(1) moved(2)[OF this]] change Some show ?thesis by (auto simp: place_of_def)
      qed
      with tree_height_update[OF b(3) tr(1)] visit change moved(1) show ?thesis
        by (intro exI[of _ "T[?b := Some m]"] exI[of _ True]) simp
    qed
  qed
qed

lemma dom_pass:
  assumes g: "dom_graph n root P rpo" and o: "order_index n rpo idx" and inv: "dom_inv n root P rpo idx 0 T"
  shows "k \<le> length rpo \<Longrightarrow> \<exists>T' c. foldM (dom_visit root P idx) (T, False) (take k rpo) = Some (T', c) \<and> dom_inv n root P rpo idx k T' \<and>
    (if c then tree_height n idx T' < tree_height n idx T
     else T' = T \<and> (\<forall>b \<in> set (take k rpo). b \<noteq> root \<longrightarrow> (\<exists>m. T ! b = Some m \<and> above_all T (P ! b) m)))"
proof (induction k)
  case 0
  show ?case using inv by (intro exI[of _ T] exI[of _ False]) simp
next
  case (Suc k)
  then have k: "k < length rpo" by simp
  from Suc obtain T1 c1 where 1: "foldM (dom_visit root P idx) (T, False) (take k rpo) = Some (T1, c1)" "dom_inv n root P rpo idx k T1"
    "if c1 then tree_height n idx T1 < tree_height n idx T
     else T1 = T \<and> (\<forall>b \<in> set (take k rpo). b \<noteq> root \<longrightarrow> (\<exists>m. T ! b = Some m \<and> above_all T (P ! b) m))" by auto
  from dom_visit_step[OF g o 1(2) k, of c1] obtain T2 c2 where 2: "dom_visit root P idx (T1, c1) (rpo ! k) = Some (T2, c1 \<or> c2)"
    "dom_inv n root P rpo idx (Suc k) T2"
    "if c2 then tree_height n idx T2 < tree_height n idx T1
     else T2 = T1 \<and> (rpo ! k \<noteq> root \<longrightarrow> (\<exists>m. T1 ! (rpo ! k) = Some m \<and> above_all T1 (P ! (rpo ! k)) m))" by blast
  have "foldM (dom_visit root P idx) (T, False) (take (Suc k) rpo) = Some (T2, c1 \<or> c2)"
    using 1(1) 2(1) by (simp add: take_Suc_conv_app_nth[OF k] foldM_append)
  with 1(3) 2(2,3) show ?case
    by (intro exI[of _ T2] exI[of _ "c1 \<or> c2"]) (auto simp: take_Suc_conv_app_nth[OF k] split: if_splits)
qed

lemma dom_inv_next_pass:
  assumes "order_index n rpo idx" "dom_inv n root P rpo idx (length rpo) T"
  shows "dom_inv n root P rpo idx 0 T"
proof -
  note d = dom_invD[OF assms(2)]
  have "idx ! c < length rpo" if "dparent T c e" for c e
    using order_indexD(1)[OF assms(1)] parent_lower(2)[OF d(1) that] tree_okD(1,6)[OF d(1)] by blast
  with d show ?thesis unfolding dom_inv_def by blast
qed

definition settled_tree :: "nat \<Rightarrow> block_id \<Rightarrow> block_id list list \<Rightarrow> block_id list \<Rightarrow> nat list \<Rightarrow> block_id option list \<Rightarrow> bool" where
  "settled_tree n root P rpo idx T \<longleftrightarrow>
     dom_inv n root P rpo idx (length rpo) T \<and> (\<forall>b \<in> set rpo. b \<noteq> root \<longrightarrow> (\<exists>m. T ! b = Some m \<and> above_all T (P ! b) m))"

lemma dom_loop_total:
  assumes g: "dom_graph n root P rpo" and o: "order_index n rpo idx"
  shows "dom_inv n root P rpo idx 0 T \<Longrightarrow> \<exists>T'. dom_loop root P rpo idx T = Some T' \<and> settled_tree n root P rpo idx T'"
proof (induction "tree_height n idx T" arbitrary: T rule: less_induct)
  case less
  from dom_pass[OF g o less.prems, of "length rpo"] obtain T1 c where
    p: "foldM (dom_visit root P idx) (T, False) rpo = Some (T1, c)" "dom_inv n root P rpo idx (length rpo) T1"
    "if c then tree_height n idx T1 < tree_height n idx T
     else T1 = T \<and> (\<forall>b \<in> set rpo. b \<noteq> root \<longrightarrow> (\<exists>m. T ! b = Some m \<and> above_all T (P ! b) m))" by auto
  have eq: "dom_loop root P rpo idx T = (if c then dom_loop root P rpo idx T1 else Some T1)"
    using p(1) by (subst dom_loop.simps) simp
  show ?case
  proof (cases c)
    case True
    with less.hyps[OF _ dom_inv_next_pass[OF o p(2)]] p(3) eq show ?thesis by simp
  qed (use p eq in \<open>auto simp: settled_tree_def\<close>)
qed

lemma dom_inv_start:
  assumes g: "dom_graph n root P rpo" and o: "order_index n rpo idx"
  shows "dom_inv n root P rpo idx 0 ((replicate n None)[root := Some root])"
proof -
  note gr = dom_graphD[OF g]
  have r: "rpo ! 0 = root" "root \<in> set rpo" using gr(7,8) by (auto simp: hd_conv_nth)
  then have z: "idx ! root = 0" using o gr(7) by (auto simp: order_index_def)
  have np: "\<not> dparent ((replicate n None)[root := Some root]) x y" for x y
    using gr(2) by (auto simp: dparent_def nth_list_update)
  have "x = root" if "x \<in> set rpo" "idx ! x \<le> 0" for x using order_indexD(2)[OF o that(1)] that(2) r(1) by simp
  then have "laid_out ((replicate n None)[root := Some root]) x"
    if "laid_out ((replicate n None)[root := Some root]) b" "x \<in> set rpo" "idx ! x \<le> idx ! b" for b x
    using that gr(2) z by (cases "b = root") (auto simp: nth_list_update)
  moreover have "tree_ok n root rpo idx ((replicate n None)[root := Some root])"
    using gr(2) z r(2) o unfolding tree_ok_def by (auto simp: nth_list_update order_index_def)
  ultimately show ?thesis using np by (intro dom_invI) blast+
qed

section \<open>The trees are exact\<close>

lemma settled_above_doms:
  assumes g: "dom_graph n root P rpo" and st: "settled_tree n root P rpo idx T" and "b \<in> set rpo"
  shows "dabove T b a \<longleftrightarrow> doms (pred_edge P) root a b"
proof
  note gr = dom_graphD[OF g]
  have inv: "dom_inv n root P rpo idx (length rpo) T" using st by (simp add: settled_tree_def)
  note d = dom_invD[OF inv]
  note tr = tree_okD[OF d(1)]
  have lay: "laid_out T x" if "x \<in> set rpo" for x
    using st that tr(1,2,3) gr(6)[OF that] by (cases "x = root") (auto simp: settled_tree_def)
  have sound: "\<not> dabove T x a" if "avoids (pred_edge P) root a x" for x
    using that
  proof (induction rule: avoids.induct)
    case avoids_root
    have "\<not> dparent T root y" for y using tr(3) by (auto simp: dparent_def)
    then have "dabove T root y \<Longrightarrow> y = root" for y by (auto elim: converse_rtranclpE)
    with avoids_root show ?case by blast
  next
    case (avoids_step x y)
    have reach: "x \<in> set rpo" "y \<in> set rpo"
      using gr(5) avoids_reach[OF avoids_step.hyps(1)] avoids_step.hyps(2) by (auto intro: rtranclp.rtrancl_into_rtrancl)
    show ?case
    proof
      assume ya: "dabove T y a"
      have "y \<noteq> root"
      proof
        assume "y = root"
        with ya tr(3) have "a = root" by (auto elim: converse_rtranclpE simp: dparent_def)
        with \<open>y = root\<close> avoids_step.hyps(3) show False by simp
      qed
      with st reach(2) obtain m where m: "T ! y = Some m" "above_all T (P ! y) m" by (auto simp: settled_tree_def)
      have "dparent T y m" using m(1) tr(8)[of y m] gr(6)[OF reach(2)] \<open>y \<noteq> root\<close> tr(1) by (auto simp: dparent_def)
      from above_parent_cases[OF ya this] avoids_step.hyps(3) have "dabove T m a" by blast
      moreover have "dabove T x m" using m(2) avoids_step.hyps(2) lay[OF reach(1)] by (auto simp: above_all_def pred_edge_def)
      ultimately show False using avoids_step.IH by (meson rtranclp_trans)
    qed
  qed
  show "doms (pred_edge P) root a b" if "dabove T b a" using sound that gr(5) assms(3) by (auto simp: doms_def)
  show "dabove T b a" if "doms (pred_edge P) root a b" by (rule doms_above[OF inv lay[OF assms(3)] that])
qed

lemma dominates_from_above:
  assumes t: "tree_ok n root rpo idx T" and "laid_out T b"
  shows "dominates_from T a b = Some (dabove T b a)"
  using assms(2)
proof (induction "idx ! b" arbitrary: b rule: less_induct)
  case less
  note tr = tree_okD[OF t]
  consider "b = a" | "b \<noteq> a" "b = root" | "b \<noteq> a" "b \<noteq> root" by blast
  then show ?case
  proof cases
    case 1
    then show ?thesis by (subst dominates_from.simps) simp
  next
    case 2
    have "\<not> dabove T root a" using 2 tr(3) by (auto elim: converse_rtranclpE simp: dparent_def)
    moreover have "nth_opt T root = Some (Some root)" using tr(1,2,3) by simp
    ultimately show ?thesis using 2 by (subst dominates_from.simps) simp
  next
    case 3
    from laid_out_parent[OF t less.prems 3(2)] obtain y where y: "T ! b = Some y" "dparent T b y" by blast
    have "dabove T b a \<longleftrightarrow> dabove T y a"
      using above_parent_cases[of T b a y] y(2) 3(1) by (auto intro: converse_rtranclp_into_rtranclp)
    moreover have "nth_opt T b = Some (Some y)" "y \<noteq> b" using y less.prems by (auto simp: dparent_def)
    ultimately show ?thesis using 3(1) less.hyps[OF parent_lower(1)[OF t y(2)] parent_lower(3)[OF t y(2)]]
      by (subst dominates_from.simps) simp
  qed
qed

lemma dominator_tree_total:
  assumes g: "dom_graph n root P rpo" and "n < 2 ^ 32"
  shows "\<exists>t. dominator_tree n root P rpo = Some t \<and>
    (\<forall>a b. b < n \<longrightarrow> dominates t a b = Some (if b \<in> set rpo then doms (pred_edge P) root a b else a = b))"
proof -
  note gr = dom_graphD[OF g]
  have sub: "set rpo \<subseteq> {..<n}" using gr(6) by blast
  from index_order_total[OF gr(4) sub] obtain idx where idx: "index_order n rpo = Some idx" "order_index n rpo idx" by blast
  from dom_loop_total[OF g idx(2) dom_inv_start[OF g idx(2)]] obtain T where
    T: "dom_loop root P rpo idx ((replicate n None)[root := Some root]) = Some T" "settled_tree n root P rpo idx T" by blast
  let ?t = "\<lparr>dt_idom = T, dt_rpo_index = idx\<rparr>"
  have tree: "dominator_tree n root P rpo = Some ?t" using idx(1) T(1) gr(2) by (simp add: dominator_tree_def upd_opt_def)
  have inv: "dom_inv n root P rpo idx (length rpo) T" using T(2) by (simp add: settled_tree_def)
  note tok = dom_invD(1)[OF inv]
  have "length rpo \<le> n" using card_mono[OF _ sub] gr(4) by (simp add: distinct_card)
  with assms(2) have ne: "b \<in> set rpo \<Longrightarrow> idx ! b \<noteq> rpo_unreachable" for b
    using order_indexD(1)[OF idx(2)] by (fastforce simp: rpo_unreachable_def)
  have "dominates ?t a b = Some (if b \<in> set rpo then doms (pred_edge P) root a b else a = b)" if "b < n" for a b
  proof (cases "b \<in> set rpo")
    case True
    have "laid_out T b" using dom_invD(2)[OF inv True] order_indexD(1)[OF idx(2) True] by blast
    from dominates_from_above[OF tok this] settled_above_doms[OF g T(2) True] True ne[OF True] that tree_okD(5)[OF tok]
    show ?thesis by (simp add: dominates_def)
  next
    case False
    with idx(2) that show ?thesis by (simp add: dominates_def order_index_def)
  qed
  with tree show ?thesis by blast
qed

lemma dom_graph_cfg:
  assumes "cfg_ok f"
  obtains P rpo where "predecessors f = Some P" "reverse_postorder f = Some rpo"
    "dom_graph (length (fn_blocks f)) (fn_entry f) P rpo" "pred_edge P = cfg_edge f" "set rpo = reachable f"
proof -
  from predecessors_total[OF assms] obtain P where P: "predecessors f = Some P" "length P = length (fn_blocks f)"
    "\<And>b. b < length (fn_blocks f) \<Longrightarrow> set (P ! b) = {a. cfg_edge f a b}" by blast
  from reverse_postorder_total[OF assms] obtain rpo where r: "reverse_postorder f = Some rpo" "distinct rpo"
    "set rpo = {b. (cfg_edge f)\<^sup>*\<^sup>* (fn_entry f) b}" "set rpo \<subseteq> {..<length (fn_blocks f)}" "rpo \<noteq> []" "hd rpo = fn_entry f"
    "\<forall>i < length rpo. rpo ! i \<noteq> fn_entry f \<longrightarrow> (\<exists>j < i. cfg_edge f (rpo ! j) (rpo ! i))" by blast
  have e: "pred_edge P = cfg_edge f"
  proof (intro ext)
    fix a b
    have "cfg_edge f a b \<Longrightarrow> b < length (fn_blocks f)" using cfg_ok_successor[OF assms] by (auto simp: cfg_edge_def)
    then show "pred_edge P a b = cfg_edge f a b" using P(2,3) by (auto simp: pred_edge_def)
  qed
  have "dom_graph (length (fn_blocks f)) (fn_entry f) P rpo"
    using P r assms unfolding dom_graph_def e by (auto simp: cfg_edge_def)
  with that P(1) r(1,3) e show thesis by (simp add: reachable_def)
qed

section \<open>Postdominators\<close>

text \<open>The edges of the reversed graph, with the synthetic exit as its root.\<close>

definition rev_edge :: "mir_function \<Rightarrow> block_id \<Rightarrow> block_id \<Rightarrow> bool" where
  "rev_edge f a b \<longleftrightarrow> (a, b) \<in> set (reverse_edges f)"

lemma rev_edge_iff:
  "rev_edge f a b \<longleftrightarrow> cfg_edge f b a \<or>
     a = length (fn_blocks f) \<and> b < length (fn_blocks f) \<and>
     (successors (term_of (fn_blocks f ! b)) = [] \<or> is_exit_terminator (term_of (fn_blocks f ! b)))"
  unfolding rev_edge_def reverse_edges_def Let_def
  by (force simp: cfg_edge_def in_set_enumerate_eq split: if_splits)

lemma push_at_edges:
  assumes "\<forall>(i, x) \<in> set es. i < n"
  shows "\<exists>yss. foldM push_at (replicate n []) es = Some yss \<and> length yss = n \<and> (\<forall>i < n. set (yss ! i) = {x. (i, x) \<in> set es})"
proof -
  from push_at_fold[of es "replicate n []"] assms obtain yss where "foldM push_at (replicate n []) es = Some yss" "length yss = n"
    "\<forall>i < n. yss ! i = map snd (filter (\<lambda>e. fst e = i) es)" by auto
  then show ?thesis by (intro exI[of _ yss]) force
qed

lemma postdominates_from_above:
  assumes t: "tree_ok n root rpo idx T" and "laid_out T b" "a \<noteq> b"
  shows "postdominates_from T root a b = Some (dabove T b a)"
  using assms(2,3)
proof (induction "idx ! b" arbitrary: b rule: less_induct)
  case less
  note tr = tree_okD[OF t]
  show ?case
  proof (cases "b = root")
    case True
    have "\<not> dabove T root a" using True less.prems(2) tr(3) by (auto elim: converse_rtranclpE simp: dparent_def)
    moreover have "nth_opt T root = Some (Some root)" using tr(1,2,3) by simp
    ultimately show ?thesis using True by (subst postdominates_from.simps) simp
  next
    case False
    from laid_out_parent[OF t less.prems(1) False] obtain y where y: "T ! b = Some y" "dparent T b y" by blast
    have iff: "dabove T b a \<longleftrightarrow> dabove T y a"
      using above_parent_cases[of T b a y] y(2) less.prems(2) by (auto intro: converse_rtranclp_into_rtranclp)
    have nth: "nth_opt T b = Some (Some y)" "y \<noteq> b" using y less.prems(1) by (auto simp: dparent_def)
    have root: "dabove T root a \<longleftrightarrow> a = root" using tr(3) by (auto elim: converse_rtranclpE simp: dparent_def)
    show ?thesis
    proof (cases "y = a")
      case True
      with iff nth show ?thesis by (subst postdominates_from.simps) simp
    next
      case ya: False
      then show ?thesis
        using iff nth root less.hyps[OF parent_lower(1)[OF t y(2)] parent_lower(3)[OF t y(2)]]
        by (subst postdominates_from.simps) auto
    qed
  qed
qed

lemma post_dom_graph:
  assumes "cfg_ok f" "length (fn_blocks f) < 2 ^ 32 - 1"
  obtains t where "post_dom_new f = Some t"
    "\<And>a b. b < length (fn_blocks f) \<Longrightarrow>
       postdominates t a b = Some (a = b \<or> (rev_edge f)\<^sup>*\<^sup>* (length (fn_blocks f)) b \<and> doms (rev_edge f) (length (fn_blocks f)) a b)"
proof -
  let ?n = "length (fn_blocks f)"
  have range: "a \<le> ?n \<and> b < ?n" if "rev_edge f a b" for a b
    using that cfg_ok_successor[OF assms(1)] unfolding rev_edge_iff by (fastforce simp: cfg_edge_def)
  have r1: "\<forall>(i, x) \<in> set (reverse_edges f). i < Suc ?n" using range by (force simp: rev_edge_def)
  from push_at_edges[OF this] obtain S where S: "foldM push_at (replicate (Suc ?n) []) (reverse_edges f) = Some S" "length S = Suc ?n"
    "\<And>i. i < Suc ?n \<Longrightarrow> set (S ! i) = {x. rev_edge f i x}" by (auto simp: rev_edge_def)
  have r2: "\<forall>(i, x) \<in> set (map (\<lambda>(s, i). (i, s)) (reverse_edges f)). i < Suc ?n" using range by (force simp: rev_edge_def)
  from push_at_edges[OF this] obtain P where P: "foldM push_at (replicate (Suc ?n) []) (map (\<lambda>(s, i). (i, s)) (reverse_edges f)) = Some P"
    "length P = Suc ?n" "\<And>i. i < Suc ?n \<Longrightarrow> set (P ! i) = {x. (i, x) \<in> set (map (\<lambda>(s, i). (i, s)) (reverse_edges f))}" by auto
  have P': "set (P ! i) = {x. rev_edge f x i}" if "i < Suc ?n" for i using P(3)[OF that] by (force simp: rev_edge_def)
  have e: "pred_edge P = rev_edge f"
  proof (intro ext)
    fix a b
    show "pred_edge P a b = rev_edge f a b" using P(2) P'[of b] range[of a b] by (cases "b < Suc ?n") (auto simp: pred_edge_def)
  qed
  have e2: "edge_of (nth_opt S) = rev_edge f"
  proof (intro ext)
    fix a b
    show "edge_of (nth_opt S) a b = rev_edge f a b"
      using S(2) S(3)[of a] range[of a b] by (cases "a < Suc ?n") (auto simp: edge_of_def nth_opt_Some_iff)
  qed
  have "succs_ok (nth_opt S) (Suc ?n)" using S(2,3) range by (auto simp: succs_ok_def nth_opt_Some_iff) fastforce
  from search_total[OF this, of ?n] obtain post where post: "search (nth_opt S) (Suc ?n) ?n = Some post" "distinct post"
    "set post = {b. (rev_edge f)\<^sup>*\<^sup>* ?n b}" "set post \<subseteq> {..<Suc ?n}" "post \<noteq> []" "hd post = ?n"
    "\<forall>i < length post. post ! i \<noteq> ?n \<longrightarrow> (\<exists>j < i. rev_edge f (post ! j) (post ! i))" unfolding e2 by auto
  have g: "dom_graph (Suc ?n) ?n P post"
    unfolding dom_graph_def e using P(2) P' post range by (auto simp: le_imp_less_Suc)
  note gr = dom_graphD[OF g]
  from index_order_total[OF post(2,4)] obtain idx where idx: "index_order (Suc ?n) post = Some idx" "order_index (Suc ?n) post idx" by blast
  from dom_loop_total[OF g idx(2) dom_inv_start[OF g idx(2)]] obtain T where
    T: "dom_loop ?n P post idx ((replicate (Suc ?n) None)[?n := Some ?n]) = Some T" "settled_tree (Suc ?n) ?n P post idx T" by blast
  let ?t = "\<lparr>pd_ipdom = T, pd_rpo_index = idx, pd_exit = ?n\<rparr>"
  have new: "post_dom_new f = Some ?t"
    using S(1) P(1) post(1) idx(1) T(1) by (simp add: post_dom_new_def dominator_tree_def upd_opt_def Let_def)
  have inv: "dom_inv (Suc ?n) ?n P post idx (length post) T" using T(2) by (simp add: settled_tree_def)
  note tok = dom_invD(1)[OF inv]
  have "length post \<le> Suc ?n" using card_mono[OF _ post(4)] post(2) by (simp add: distinct_card)
  with assms(2) have ne: "b \<in> set post \<Longrightarrow> idx ! b \<noteq> rpo_unreachable" for b
    using order_indexD(1)[OF idx(2)] by (fastforce simp: rpo_unreachable_def)
  have "postdominates ?t a b = Some (a = b \<or> (rev_edge f)\<^sup>*\<^sup>* ?n b \<and> doms (rev_edge f) ?n a b)" if "b < ?n" for a b
  proof (cases "b \<in> set post")
    case True
    have "laid_out T b" using dom_invD(2)[OF inv True] order_indexD(1)[OF idx(2) True] by blast
    from postdominates_from_above[OF tok this] settled_above_doms[OF g T(2) True] True ne[OF True] that tree_okD(5)[OF tok] post(3)
    show ?thesis by (auto simp: postdominates_def e)
  next
    case False
    with idx(2) that post(3) show ?thesis by (auto simp: postdominates_def order_index_def)
  qed
  with new that show thesis by blast
qed

section \<open>Natural loops\<close>

text \<open>The loops by their back edges: an edge to a block that dominates its source.\<close>

definition back_edge :: "mir_function \<Rightarrow> dom_tree \<Rightarrow> block_id \<Rightarrow> block_id \<Rightarrow> bool" where
  "back_edge f t tail header \<longleftrightarrow> cfg_edge f tail header \<and> dominates t header tail = Some True"

definition loops_of :: "block_id list list \<Rightarrow> natural_loop list \<Rightarrow> (block_id \<times> block_id) set \<Rightarrow> bool" where
  "loops_of P ls es \<longleftrightarrow>
     distinct (map nl_header ls) \<and> nl_header ` set ls = snd ` es \<and>
     (\<forall>l \<in> set ls. set (nl_latches l) = {t. (t, nl_header l) \<in> es} \<and>
        nl_body l = (\<Union>t \<in> {t. (t, nl_header l) \<in> es}. the (loop_body P (nl_header l) t)))"

lemma add_loop_of:
  assumes "loops_of P ls es" "loop_body P h t = Some body"
  shows "loops_of P (add_loop ls h body t) (insert (t, h) es)"
proof -
  have ls: "distinct (map nl_header ls)" "nl_header ` set ls = snd ` es"
    "\<And>l. l \<in> set ls \<Longrightarrow> set (nl_latches l) = {t. (t, nl_header l) \<in> es}"
    "\<And>l. l \<in> set ls \<Longrightarrow> nl_body l = (\<Union>t \<in> {t. (t, nl_header l) \<in> es}. the (loop_body P (nl_header l) t))"
    using assms(1) unfolding loops_of_def by blast+
  show ?thesis
  proof (cases "h \<in> nl_header ` set ls")
    case True
    let ?f = "\<lambda>l. if nl_header l = h then l\<lparr>nl_body := nl_body l \<union> body, nl_latches := nl_latches l @ [t]\<rparr> else l"
    have add: "add_loop ls h body t = map ?f ls" using True by (auto simp: add_loop_def list_ex_iff)
    have hd: "nl_header (?f l) = nl_header l" for l by simp
    show ?thesis
      unfolding loops_of_def add
    proof (intro conjI ballI)
      show "distinct (map nl_header (map ?f ls))" using ls(1) by (simp add: comp_def hd)
      have "nl_header ` set (map ?f ls) = nl_header ` set ls" unfolding set_map image_image hd ..
      also have "\<dots> = snd ` insert (t, h) es" using ls(2) True by auto
      finally show "nl_header ` set (map ?f ls) = snd ` insert (t, h) es" .
      fix l assume "l \<in> set (map ?f ls)"
      then obtain k where k: "k \<in> set ls" "l = ?f k" by auto
      show "set (nl_latches l) = {ta. (ta, nl_header l) \<in> insert (t, h) es}"
        using ls(3)[OF k(1)] k(2) by (cases "nl_header k = h") auto
      show "nl_body l = (\<Union>ta \<in> {ta. (ta, nl_header l) \<in> insert (t, h) es}. the (loop_body P (nl_header l) ta))"
        using ls(4)[OF k(1)] k(2) assms(2) by (cases "nl_header k = h") auto
    qed
  next
    case False
    then have add: "add_loop ls h body t = ls @ [\<lparr>nl_header = h, nl_body = body, nl_latches = [t]\<rparr>]"
      by (auto simp: add_loop_def list_ex_iff)
    have none: "(ta, h) \<notin> es" for ta using False ls(2) by (metis image_eqI snd_conv)
    show ?thesis
      unfolding loops_of_def add
    proof (intro conjI ballI)
      show "distinct (map nl_header (ls @ [\<lparr>nl_header = h, nl_body = body, nl_latches = [t]\<rparr>]))" using ls(1) False by simp
      show "nl_header ` set (ls @ [\<lparr>nl_header = h, nl_body = body, nl_latches = [t]\<rparr>]) = snd ` insert (t, h) es" using ls(2) by simp
      fix l assume l: "l \<in> set (ls @ [\<lparr>nl_header = h, nl_body = body, nl_latches = [t]\<rparr>])"
      show "set (nl_latches l) = {ta. (ta, nl_header l) \<in> insert (t, h) es}"
        using l ls(3)[of l] none False by auto
      show "nl_body l = (\<Union>ta \<in> {ta. (ta, nl_header l) \<in> insert (t, h) es}. the (loop_body P (nl_header l) ta))"
        using l ls(4)[of l] none False assms(2) by auto
    qed
  qed
qed

lemma natural_loops_total:
  assumes "cfg_ok f" "predecessors f = Some P" "\<And>a b. b < length (fn_blocks f) \<Longrightarrow> dominates t a b \<noteq> None"
  shows "\<exists>ls. natural_loops f P t = Some ls \<and> sorted (map nl_header ls) \<and> loops_of P ls {(tl, h). back_edge f t tl h}"
proof -
  let ?step = "\<lambda>loops (tail, header). do {
           d \<leftarrow> dominates t header tail;
           if \<not> d then Some loops
           else map_option (\<lambda>body. add_loop loops header body tail) (loop_body P header tail) }"
  from predecessors_total[OF assms(1)] assms(2) have P: "length P = length (fn_blocks f)"
    "\<And>b. b < length (fn_blocks f) \<Longrightarrow> set (P ! b) = {a. cfg_edge f a b}" by auto
  have "set (P ! b) \<subseteq> {..<length P}" if "b < length P" for b using P(2)[of b] that P(1) by (auto simp: cfg_edge_def)
  then have pr: "\<forall>ps \<in> set P. set ps \<subseteq> {..<length P}" by (metis in_set_conv_nth)
  have "\<forall>(tl, h) \<in> set es. cfg_edge f tl h \<Longrightarrow>
    \<exists>ls. foldM ?step [] es = Some ls \<and> loops_of P ls {(tl, h) \<in> set es. dominates t h tl = Some True}" for es
  proof (induction es rule: rev_induct)
    case (snoc e es)
    obtain tl h where e: "e = (tl, h)" by fastforce
    with snoc obtain ls where ls: "foldM ?step [] es = Some ls" "loops_of P ls {(tl, h) \<in> set es. dominates t h tl = Some True}" by auto
    have "cfg_edge f tl h" using snoc.prems e by auto
    then have r: "tl < length P" "h < length P" using P(1) cfg_ok_successor[OF assms(1)] by (auto simp: cfg_edge_def)
    from assms(3)[of tl h] r P(1) obtain v where v: "dominates t h tl = Some v" by auto
    obtain body where body: "loop_body P h tl = Some body" using loop_body_total[OF pr r(2,1)] by simp
    show ?case
    proof (cases v)
      case True
      have "{(tl, h) \<in> set (es @ [e]). dominates t h tl = Some True} = insert (tl, h) {(tl, h) \<in> set es. dominates t h tl = Some True}"
        using e v True by auto
      with add_loop_of[OF ls(2) body] ls(1) e v True body show ?thesis by (simp add: foldM_append)
    next
      case False
      have "{(tl, h) \<in> set (es @ [e]). dominates t h tl = Some True} = {(tl, h) \<in> set es. dominates t h tl = Some True}"
        using e v False by auto
      with ls e v False show ?thesis by (simp add: foldM_append)
    qed
  qed (simp add: loops_of_def)
  from this[of "edges f"] set_edges[of _ _ f] obtain ls where ls: "foldM ?step [] (edges f) = Some ls"
    "loops_of P ls {(tl, h) \<in> set (edges f). dominates t h tl = Some True}" by auto
  have "{(tl, h) \<in> set (edges f). dominates t h tl = Some True} = {(tl, h). back_edge f t tl h}"
    using set_edges[of _ _ f] by (auto simp: back_edge_def)
  with ls(2) have "loops_of P (sort_key nl_header ls) {(tl, h). back_edge f t tl h}"
    unfolding loops_of_def by (simp add: distinct_map inj_on_def)
  with ls(1) show ?thesis by (simp add: natural_loops_def)
qed

section \<open>Properties\<close>

text \<open>
  C31: on a function with valid control flow the dominator tree is computed, the iteration ends, and
  it is exact: a query answers for a reachable block whether every path from the entry to it passes
  through the other block, and for an unreachable block whether the two are the same.
\<close>

theorem dominators_exact:
  assumes "cfg_ok f" "length (fn_blocks f) < 2 ^ 32"
  shows "\<exists>P rpo t. predecessors f = Some P \<and> reverse_postorder f = Some rpo \<and> dom_compute f P rpo = Some t \<and>
    (\<forall>a b. b < length (fn_blocks f) \<longrightarrow>
       dominates t a b = Some (if b \<in> reachable f then \<forall>p. walk (cfg_edge f) (fn_entry f) p b \<longrightarrow> a \<in> set p else a = b))"
proof -
  from dom_graph_cfg[OF assms(1)] obtain P rpo where P: "predecessors f = Some P" "reverse_postorder f = Some rpo"
    "dom_graph (length (fn_blocks f)) (fn_entry f) P rpo" "pred_edge P = cfg_edge f" "set rpo = reachable f" by blast
  from dominator_tree_total[OF P(3) assms(2)] obtain t where t: "dominator_tree (length (fn_blocks f)) (fn_entry f) P rpo = Some t"
    "\<And>a b. b < length (fn_blocks f) \<Longrightarrow> dominates t a b = Some (if b \<in> reachable f then doms (cfg_edge f) (fn_entry f) a b else a = b)"
    unfolding P(4,5) by blast
  have "doms (cfg_edge f) (fn_entry f) a b \<longleftrightarrow> (\<forall>p. walk (cfg_edge f) (fn_entry f) p b \<longrightarrow> a \<in> set p)" if "b \<in> reachable f" for a b
    using that by (intro doms_walks) (simp add: reachable_def)
  with P(1,2) t show ?thesis by (auto simp: dom_compute_def)
qed

theorem dominators_exact_witness:
  "\<exists>P rpo t. predecessors sample_loop = Some P \<and> reverse_postorder sample_loop = Some rpo \<and> dom_compute sample_loop P rpo = Some t \<and>
     dominates t 2 3 = Some False"
proof -
  have rpo: "reverse_postorder sample_loop = Some [0, 1, 3, 2]" by code_simp
  have "3 \<in> set [0, 1, 3, 2 :: nat]" by simp
  moreover from reverse_postorder_total[OF sample_loop_ok] rpo have "set [0, 1, 3, 2] = reachable sample_loop"
    by (simp add: reachable_def)
  ultimately have r: "3 \<in> reachable sample_loop" by blast
  have edges: "cfg_edge sample_loop 0 1" "cfg_edge sample_loop 1 3" and e: "fn_entry sample_loop = 0"
    by (simp_all add: cfg_edge_def sample_loop_def sample_function_def)
  have "walk (cfg_edge sample_loop) 0 ([0] @ [1]) 1" using walk_root edges(1) by (rule walk_step)
  then have "walk (cfg_edge sample_loop) 0 (([0] @ [1]) @ [3]) 3" using edges(2) by (rule walk_step)
  then have w: "walk (cfg_edge sample_loop) (fn_entry sample_loop) [0, 1, 3] 3" by (simp add: e)
  have "length (fn_blocks sample_loop) < 2 ^ 32" "3 < length (fn_blocks sample_loop)" by simp_all
  with dominators_exact[OF sample_loop_ok] obtain P rpo t where pre: "predecessors sample_loop = Some P" "reverse_postorder sample_loop = Some rpo"
    "dom_compute sample_loop P rpo = Some t"
    and dom: "dominates t 2 3 = Some (if 3 \<in> reachable sample_loop then \<forall>p. walk (cfg_edge sample_loop) (fn_entry sample_loop) p 3 \<longrightarrow> 2 \<in> set p else (2 :: nat) = 3)"
    by blast
  have "\<not> (\<forall>p. walk (cfg_edge sample_loop) (fn_entry sample_loop) p 3 \<longrightarrow> 2 \<in> set p)"
  proof
    assume "\<forall>p. walk (cfg_edge sample_loop) (fn_entry sample_loop) p 3 \<longrightarrow> 2 \<in> set p"
    with w have "2 \<in> set [0, 1, 3 :: nat]" by blast
    then show False by simp
  qed
  with dom r have "dominates t 2 3 = Some False" by simp
  with pre show ?thesis by blast
qed

end
