(* ===== verification/Disjoint_Forest.thy ===== *)
theory Disjoint_Forest
  imports Dream_Prelude
begin

text \<open>
  The disjoint-set forest of \<open>crates/dream-mir/src/union_find.rs\<close>, with path halving and the
  smaller root as the root of a union. A vector access out of range panics, and the loop of
  \<open>find\<close> is a partial function: on a vector whose parents form a cycle it would not end. The
  contract is the locale \<open>merging\<close>: a union merges two classes and leaves the others. Its clients'
  lemma, that a sequence of unions computes the equivalence closure of the merged pairs, is proved
  once there and interpreted for the forest.
\<close>

section \<open>The operations\<close>

definition uf_new :: "nat \<Rightarrow> nat list" where
  "uf_new n = [0..<n]"

partial_function (option) uf_find :: "nat list \<Rightarrow> nat \<Rightarrow> (nat list \<times> nat) option" where
  "uf_find parent x =
     Option.bind (nth_opt parent x) (\<lambda>px.
       if px = x then Some (parent, x)
       else Option.bind (nth_opt parent px) (\<lambda>gx. uf_find (parent[x := gx]) gx))"

declare uf_find.simps [code]

definition uf_union :: "nat list \<Rightarrow> nat \<Rightarrow> nat \<Rightarrow> nat list option" where
  "uf_union parent a b =
     do {
       (p1, ra) \<leftarrow> uf_find parent a;
       (p2, rb) \<leftarrow> uf_find p1 b;
       if ra \<noteq> rb then upd_opt p2 (max ra rb) (min ra rb) else Some p2
     }"

section \<open>The invariant: parents are never larger\<close>

definition uf_ok :: "nat list \<Rightarrow> bool" where
  "uf_ok parent \<longleftrightarrow> (\<forall>x < length parent. parent ! x \<le> x)"

function root_of :: "nat list \<Rightarrow> nat \<Rightarrow> nat" where
  "root_of parent x = (if x < length parent \<and> parent ! x < x then root_of parent (parent ! x) else x)"
  by pat_completeness auto
termination by (relation "measure snd") auto

declare root_of.simps [simp del]

lemma root_of_step: "x < length p \<Longrightarrow> p ! x < x \<Longrightarrow> root_of p x = root_of p (p ! x)"
  by (subst root_of.simps) simp

lemma root_of_stop: "\<not> (x < length p \<and> p ! x < x) \<Longrightarrow> root_of p x = x"
  by (subst root_of.simps) (simp only: if_False)

lemma uf_ok_new: "uf_ok (uf_new n)"
  by (simp add: uf_ok_def uf_new_def)

lemma root_of_new: "root_of (uf_new n) x = x"
  by (rule root_of_stop) (auto simp: uf_new_def)

lemma root_of_le: "root_of p x \<le> x"
proof (induction p x rule: root_of.induct)
  case (1 p x)
  show ?case
  proof (cases "x < length p \<and> p ! x < x")
    case True
    with 1 show ?thesis by (fastforce simp: root_of_step)
  next
    case False
    from root_of_stop[OF this] show ?thesis by simp
  qed
qed

lemma root_of_root: "root_of p (root_of p x) = root_of p x"
proof (induction p x rule: root_of.induct)
  case (1 p x)
  then show ?case
  proof (cases "x < length p \<and> p ! x < x")
    case True
    with 1 show ?thesis by (simp add: root_of_step[of x p])
  next
    case False
    from root_of_stop[OF this] show ?thesis by simp
  qed
qed

lemma root_of_parent: "uf_ok p \<Longrightarrow> x < length p \<Longrightarrow> root_of p (p ! x) = root_of p x"
  by (cases "p ! x = x") (auto simp: root_of_step[of x p] uf_ok_def le_less)

lemma root_of_fixed: "uf_ok p \<Longrightarrow> x < length p \<Longrightarrow> root_of p x = x \<longleftrightarrow> p ! x = x"
  by (metis le_neq_implies_less less_irrefl order_trans root_of_le root_of_parent root_of_stop uf_ok_def not_le)

text \<open>Changing a parent to another member of the class with a smaller index keeps all roots.\<close>

lemma root_of_update:
  assumes "uf_ok p" "x < length p" "y < x" "root_of p y = root_of p x"
  shows "root_of (p[x := y]) z = root_of p z"
proof (induction z rule: less_induct)
  case (less z)
  show ?case
  proof (cases "z = x")
    case True
    with assms less[of y] show ?thesis by (simp add: root_of_step[of x "p[x := y]"])
  next
    case False
    then have nth: "p[x := y] ! z = p ! z" by simp
    show ?thesis
    proof (cases "z < length p \<and> p ! z < z")
      case True
      with less[of "p ! z"] nth show ?thesis by (simp add: root_of_step[of z])
    next
      case stop: False
      with nth have "\<not> (z < length (p[x := y]) \<and> p[x := y] ! z < z)" by simp
      from root_of_stop[OF this] root_of_stop[OF stop] show ?thesis by simp
    qed
  qed
qed

lemma uf_ok_update: "uf_ok p \<Longrightarrow> y \<le> x \<Longrightarrow> uf_ok (p[x := y])"
  by (cases "x < length p") (auto simp: uf_ok_def nth_list_update)

section \<open>Finding a root\<close>

lemma uf_find_total:
  assumes "uf_ok p" "x < length p"
  shows "\<exists>q. uf_find p x = Some (q, root_of p x) \<and> uf_ok q \<and> length q = length p \<and>
    (\<forall>z. root_of q z = root_of p z)"
  using assms
proof (induction x arbitrary: p rule: less_induct)
  case (less x)
  show ?case
  proof (cases "p ! x = x")
    case True
    with less.prems have "uf_find p x = Some (p, x)" by (subst uf_find.simps) simp
    moreover have "root_of p x = x" using True by (intro root_of_stop) simp
    ultimately show ?thesis using less.prems by simp
  next
    case False
    let ?g = "p ! (p ! x)"
    have px: "p ! x < x" using less.prems False by (auto simp: uf_ok_def le_neq_implies_less)
    then have g: "?g \<le> p ! x" using less.prems by (simp add: uf_ok_def)
    have rg: "root_of p ?g = root_of p x" using less.prems px root_of_parent by simp
    let ?q = "p[x := ?g]"
    have q: "uf_ok ?q" "?g < length ?q" "\<And>z. root_of ?q z = root_of p z"
      using less.prems px g rg by (auto intro: uf_ok_update root_of_update)
    from less.IH[OF _ q(1,2)] px g obtain q' where q': "uf_find ?q ?g = Some (q', root_of ?q ?g)"
      "uf_ok q'" "length q' = length ?q" "\<forall>z. root_of q' z = root_of ?q z" by auto
    have "uf_find p x = uf_find ?q ?g" using less.prems px False by (subst uf_find.simps) simp
    with q' q(3) rg show ?thesis by auto
  qed
qed

section \<open>Merging two classes\<close>

lemma root_of_link:
  assumes "uf_ok p" "b < length p" "a < b" "p ! a = a" "p ! b = b"
  shows "root_of (p[b := a]) z = (if root_of p z = b then a else root_of p z)"
proof (induction z rule: less_induct)
  case (less z)
  have ra: "root_of p a = a" and rb: "root_of p b = b"
    using assms by (auto simp: root_of_fixed)
  show ?case
  proof (cases "z = b")
    case True
    with assms less[of a] ra rb show ?thesis by (simp add: root_of_step[of b "p[b := a]"])
  next
    case False
    show ?thesis
    proof (cases "z < length p \<and> p ! z < z")
      case True
      with False less[of "p ! z"] show ?thesis
        by (simp add: root_of_step[of z])
    next
      case stop: False
      with False have "\<not> (z < length (p[b := a]) \<and> p[b := a] ! z < z)" by simp
      from root_of_stop[OF this] root_of_stop[OF stop] False show ?thesis by simp
    qed
  qed
qed

lemma uf_union_total:
  assumes "uf_ok p" "a < length p" "b < length p"
  shows "\<exists>q. uf_union p a b = Some q \<and> uf_ok q \<and> length q = length p \<and>
    (\<forall>z. root_of q z = (if root_of p z \<in> {root_of p a, root_of p b}
                        then min (root_of p a) (root_of p b) else root_of p z))"
proof -
  from uf_find_total[OF assms(1,2)] obtain p1 where p1: "uf_find p a = Some (p1, root_of p a)"
    "uf_ok p1" "length p1 = length p" "\<forall>z. root_of p1 z = root_of p z" by blast
  from uf_find_total[OF p1(2), of b] assms(3) p1 obtain p2 where p2:
    "uf_find p1 b = Some (p2, root_of p b)" "uf_ok p2" "length p2 = length p"
    "\<forall>z. root_of p2 z = root_of p z" by auto
  let ?ra = "root_of p a" and ?rb = "root_of p b"
  let ?hi = "max ?ra ?rb" and ?lo = "min ?ra ?rb"
  show ?thesis
  proof (cases "?ra = ?rb")
    case True
    with p1 p2 show ?thesis by (auto simp: uf_union_def)
  next
    case False
    have hi: "?hi < length p2" "?lo < ?hi"
      using root_of_le[of p a] root_of_le[of p b] assms p2(3) False by auto
    have "root_of p2 ?hi = ?hi" "root_of p2 ?lo = ?lo"
      using p2(4) root_of_root by (simp_all add: max_def min_def)
    then have fixed: "p2 ! ?hi = ?hi" "p2 ! ?lo = ?lo"
      using root_of_fixed[OF p2(2)] hi by auto
    from root_of_link[OF p2(2) hi(1,2) fixed(2,1)] p2(4) have
      "root_of (p2[?hi := ?lo]) z = (if root_of p z = ?hi then ?lo else root_of p z)" for z by simp
    moreover have "uf_union p a b = Some (p2[?hi := ?lo])"
      using p1 p2 hi False by (simp add: uf_union_def)
    moreover have "uf_ok (p2[?hi := ?lo])" using p2(2) hi(2) by (intro uf_ok_update) auto
    ultimately show ?thesis using p2(3) by (auto simp: max_def min_def)
  qed
qed

section \<open>The contract\<close>

text \<open>
  A structure over the indices below \<open>dim\<close> with a representative per index; a union merges two
  classes, and the merged class keeps the smaller representative.
\<close>

locale merging =
  fixes okay :: "'s \<Rightarrow> bool" and dim :: "'s \<Rightarrow> nat" and rep :: "'s \<Rightarrow> nat \<Rightarrow> nat"
    and join :: "'s \<Rightarrow> nat \<Rightarrow> nat \<Rightarrow> 's option"
  assumes join_ok: "okay p \<Longrightarrow> a < dim p \<Longrightarrow> b < dim p \<Longrightarrow>
      \<exists>q. join p a b = Some q \<and> okay q \<and> dim q = dim p \<and>
        (\<forall>z. rep q z = (if rep p z \<in> {rep p a, rep p b} then min (rep p a) (rep p b) else rep p z))"
begin

definition joins :: "'s \<Rightarrow> (nat \<times> nat) list \<Rightarrow> 's option" where
  "joins p us = foldM (\<lambda>p (a, b). join p a b) p us"

lemma joins_total:
  assumes "okay p" "\<forall>(a, b) \<in> set us. a < dim p \<and> b < dim p"
  shows "\<exists>q. joins p us = Some q \<and> okay q \<and> dim q = dim p"
proof -
  have "\<exists>q. foldM (\<lambda>p (a, b). join p a b) p us = Some q \<and> (okay q \<and> dim q = dim p)"
  proof (rule foldM_total)
    fix s x assume x: "x \<in> set us" and s: "okay s \<and> dim s = dim p"
    obtain a b where ab: "x = (a, b)" by fastforce
    with x assms(2) s have "a < dim s" "b < dim s" by auto
    from join_ok[OF conjunct1[OF s] this] s ab
    show "\<exists>t. (case x of (a, b) \<Rightarrow> join s a b) = Some t \<and> okay t \<and> dim t = dim p" by auto
  qed (use assms in simp)
  then show ?thesis by (simp add: joins_def)
qed

text \<open>The classes after a sequence of unions are those of the equivalence closure.\<close>

definition merged :: "'s \<Rightarrow> (nat \<times> nat) list \<Rightarrow> (nat \<times> nat) set" where
  "merged p us = {(rep p a, rep p b) | a b. (a, b) \<in> set us \<or> (b, a) \<in> set us}"

lemma mergedI: "(a, b) \<in> set us \<or> (b, a) \<in> set us \<Longrightarrow> (rep p a, rep p b) \<in> (merged p us)\<^sup>*"
  by (rule r_into_rtrancl) (auto simp: merged_def)

lemma joins_classes:
  assumes "joins p us = Some q" "okay p" "\<forall>(a, b) \<in> set us. a < dim p \<and> b < dim p"
  shows "rep q x = rep q y \<longleftrightarrow> (rep p x, rep p y) \<in> (merged p us)\<^sup>*"
  using assms
proof (induction us arbitrary: p)
  case Nil
  then show ?case by (simp add: joins_def merged_def)
next
  case (Cons u us)
  obtain a b where u: "u = (a, b)" by fastforce
  from Cons.prems u obtain p1 where p1: "join p a b = Some p1" "joins p1 us = Some q"
    by (auto simp: joins_def bind_Some_iff)
  from join_ok[of p a b] Cons.prems u p1(1) have ok1: "okay p1" "dim p1 = dim p"
    and r1: "\<And>z. rep p1 z = (if rep p z \<in> {rep p a, rep p b} then min (rep p a) (rep p b) else rep p z)"
    by auto
  define h where "h v = (if v \<in> {rep p a, rep p b} then min (rep p a) (rep p b) else v)" for v
  have h: "rep p1 z = h (rep p z)" for z by (simp add: r1 h_def)
  let ?R = "merged p (u # us)" and ?S = "merged p1 us"
  have step: "(h v, h w) \<in> ?S\<^sup>*" if "(v, w) \<in> ?R" for v w
  proof -
    from that obtain c d where cd: "v = rep p c" "w = rep p d" "(c, d) \<in> set (u # us) \<or> (d, c) \<in> set (u # us)"
      by (auto simp: merged_def)
    from cd(3) u consider "{v, w} \<subseteq> {rep p a, rep p b}" | "(c, d) \<in> set us \<or> (d, c) \<in> set us" using cd(1,2) by auto
    then show ?thesis
    proof cases
      case 1
      then show ?thesis by (simp add: h_def)
    next
      case 2
      from mergedI[OF this, of p1] cd show ?thesis by (simp add: h)
    qed
  qed
  have fwd: "(h v, h w) \<in> ?S\<^sup>*" if "(v, w) \<in> ?R\<^sup>*" for v w
    using that by (induction rule: rtrancl_induct) (auto dest: step intro: rtrancl_trans)
  have ab: "(rep p a, rep p b) \<in> ?R\<^sup>*" "(rep p b, rep p a) \<in> ?R\<^sup>*" using u by (auto intro!: mergedI)
  then have link: "(v, h v) \<in> ?R\<^sup>*" "(h v, v) \<in> ?R\<^sup>*" for v by (auto simp: h_def min_def)
  have back1: "(v, w) \<in> ?R\<^sup>*" if "(v, w) \<in> ?S" for v w
  proof -
    from that obtain c d where cd: "(c, d) \<in> set us \<or> (d, c) \<in> set us" "v = h (rep p c)" "w = h (rep p d)"
      by (auto simp: merged_def h)
    then have "(rep p c, rep p d) \<in> ?R\<^sup>*" by (intro mergedI) auto
    with cd(2,3) link show ?thesis by (meson rtrancl_trans)
  qed
  have bwd: "(v, w) \<in> ?R\<^sup>*" if "(v, w) \<in> ?S\<^sup>*" for v w
    using that by (induction rule: rtrancl_induct) (auto dest: back1 intro: rtrancl_trans)
  have "rep q x = rep q y \<longleftrightarrow> (rep p1 x, rep p1 y) \<in> ?S\<^sup>*"
    using Cons.IH[OF p1(2) ok1(1)] Cons.prems(3) ok1(2) by auto
  also have "\<dots> \<longleftrightarrow> (rep p x, rep p y) \<in> ?R\<^sup>*"
    using fwd[of "rep p x" "rep p y"] bwd[of "rep p1 x" "rep p1 y"] link[of "rep p x"] link[of "rep p y"]
    unfolding h by (meson rtrancl_trans)
  finally show ?case .
qed

end

interpretation uf: merging uf_ok length root_of uf_union
  by unfold_locales (rule uf_union_total)

section \<open>Properties\<close>

text \<open>
  C33: any sequence of unions of members returns, and then two members have the same root exactly
  when the merged pairs connect them; the root is found for every member, is the smallest member of
  its class, and finding it changes no root.
\<close>

theorem unions_partition:
  assumes us: "\<forall>(a, b) \<in> set us. a < n \<and> b < n"
  shows "\<exists>q. foldM (\<lambda>p (a, b). uf_union p a b) (uf_new n) us = Some q \<and>
    (\<forall>x < n. \<exists>q'. uf_find q x = Some (q', root_of q x) \<and> (\<forall>z. root_of q' z = root_of q z)) \<and>
    (\<forall>x y. root_of q x = root_of q y \<longleftrightarrow> (x, y) \<in> ({(a, b). (a, b) \<in> set us \<or> (b, a) \<in> set us})\<^sup>*) \<and>
    (\<forall>x y. root_of q x = root_of q y \<longrightarrow> root_of q x \<le> y)"
proof -
  have us': "\<forall>(a, b) \<in> set us. a < length (uf_new n) \<and> b < length (uf_new n)" using us by (simp add: uf_new_def)
  from uf.joins_total[OF uf_ok_new us'] obtain q where q: "uf.joins (uf_new n) us = Some q" "uf_ok q"
    "length q = n" by (auto simp: uf_new_def)
  have "uf.merged (uf_new n) us = {(a, b). (a, b) \<in> set us \<or> (b, a) \<in> set us}"
    by (auto simp: uf.merged_def root_of_new)
  with uf.joins_classes[OF q(1) uf_ok_new us'] have
    "root_of q x = root_of q y \<longleftrightarrow> (x, y) \<in> ({(a, b). (a, b) \<in> set us \<or> (b, a) \<in> set us})\<^sup>*" for x y
    by (simp add: root_of_new)
  moreover have "root_of q x = root_of q y \<Longrightarrow> root_of q x \<le> y" for x y using root_of_le[of q y] by simp
  moreover have "\<exists>q'. uf_find q x = Some (q', root_of q x) \<and> (\<forall>z. root_of q' z = root_of q z)" if "x < n" for x
    using uf_find_total[OF q(2), of x] that q(3) by blast
  ultimately show ?thesis using q(1) unfolding uf.joins_def by (intro exI[of _ q]) blast
qed

theorem unions_partition_witness:
  "\<exists>q. foldM (\<lambda>p (a, b). uf_union p a b) (uf_new 6) [(5, 3), (4, 5), (3, 1)] = Some q \<and>
    root_of q 4 = root_of q 1"
proof -
  let ?us = "[(5, 3), (4, 5), (3, 1)] :: (nat \<times> nat) list"
  let ?E = "{(a, b). (a, b) \<in> set ?us \<or> (b, a) \<in> set ?us}"
  have e: "(4, 5) \<in> ?E" "(5, 3) \<in> ?E" "(3, 1) \<in> ?E" by simp_all
  have "(4, 1) \<in> ?E\<^sup>*"
    by (rule converse_rtrancl_into_rtrancl[OF e(1)], rule converse_rtrancl_into_rtrancl[OF e(2)], rule r_into_rtrancl[OF e(3)])
  moreover have "\<forall>(a, b) \<in> set ?us. a < 6 \<and> b < 6" by simp
  ultimately show ?thesis using unions_partition[of ?us 6] by blast
qed

end
