(* ===== verification/Handle_Table.thy ===== *)
theory Handle_Table
  imports Dream_Prelude "HOL-Library.Word"
begin

unbundle bit_operations_syntax

text \<open>
  The generational handle table of the host (\<open>crates/dream-host-abi/src/handles.rs\<close>): guest-visible
  positive ids that name slots and are recycled oldest first. The theory states the contract of such
  a table as a locale, a finite map that hands out its keys, and interprets it on the model of the
  code. Beyond the contract it shows when a stale handle misses and in which order slots come back.
\<close>

section \<open>The table\<close>

abbreviation SLOT_BITS :: nat where "SLOT_BITS \<equiv> 23"

definition SLOT_MASK :: "32 word" where
  "SLOT_MASK = push_bit SLOT_BITS 1 - 1"

definition MAX_LIVE :: nat where
  "MAX_LIVE = unat SLOT_MASK"

record 'a slot =
  sl_gen :: "8 word"
  sl_val :: "'a option"

record 'a handle_table =
  ht_slots :: "'a slot list"
  ht_free :: "32 word list"
  ht_live :: nat

definition ht_new :: "'a handle_table" where
  "ht_new = \<lparr>ht_slots = [], ht_free = [], ht_live = 0\<rparr>"

definition handle_of :: "32 word \<Rightarrow> 8 word \<Rightarrow> 32 word" where
  "handle_of slot gen = push_bit SLOT_BITS (ucast gen) OR slot"

text \<open>A handle is an \<open>i32\<close>; a negative one is not the bits of a \<open>u32\<close> and names nothing.\<close>

definition locate :: "'a handle_table \<Rightarrow> 32 word \<Rightarrow> nat option" where
  "locate t h =
     (if sint h < 0 then None
      else
        let index = unat (h AND SLOT_MASK);
            gen = (ucast (drop_bit SLOT_BITS h) :: 8 word)
        in do {
          slot \<leftarrow> nth_opt (ht_slots t) index;
          if sl_gen slot = gen \<and> sl_val slot \<noteq> None then Some index else None
        })"

definition ht_fill :: "32 word \<Rightarrow> 'a \<Rightarrow> 'a handle_table \<Rightarrow> ('a handle_table \<times> 32 word option) option" where
  "ht_fill index v t =
     do {
       slot \<leftarrow> nth_opt (ht_slots t) (unat index);
       ss \<leftarrow> upd_opt (ht_slots t) (unat index) (slot\<lparr>sl_val := Some v\<rparr>);
       Some (t\<lparr>ht_slots := ss, ht_live := ht_live t + 1\<rparr>, Some (handle_of index (sl_gen slot)))
     }"

definition ht_insert :: "'a \<Rightarrow> 'a handle_table \<Rightarrow> ('a handle_table \<times> 32 word option) option" where
  "ht_insert v t =
     (case ht_free t of
        index # rest \<Rightarrow> ht_fill index v (t\<lparr>ht_free := rest\<rparr>)
      | [] \<Rightarrow>
          if length (ht_slots t) < MAX_LIVE
          then ht_fill (word_of_nat (length (ht_slots t))) v
                 (t\<lparr>ht_slots := ht_slots t @ [\<lparr>sl_gen = 1, sl_val = None\<rparr>]\<rparr>)
          else Some (t, None))"

definition ht_get :: "'a handle_table \<Rightarrow> 32 word \<Rightarrow> 'a option" where
  "ht_get t h = do { index \<leftarrow> locate t h; sl_val (ht_slots t ! index) }"

text \<open>The value of a handle with the table that a write through the returned reference leaves.\<close>

definition ht_get_mut :: "'a handle_table \<Rightarrow> 32 word \<Rightarrow> ('a \<times> ('a \<Rightarrow> 'a handle_table)) option" where
  "ht_get_mut t h =
     do {
       index \<leftarrow> locate t h;
       v \<leftarrow> sl_val (ht_slots t ! index);
       Some (v, \<lambda>w. t\<lparr>ht_slots := (ht_slots t)[index := (ht_slots t ! index)\<lparr>sl_val := Some w\<rparr>]\<rparr>)
     }"

definition ht_contains :: "'a handle_table \<Rightarrow> 32 word \<Rightarrow> bool" where
  "ht_contains t h \<longleftrightarrow> locate t h \<noteq> None"

definition next_gen :: "8 word \<Rightarrow> 8 word" where
  "next_gen g = (if g = 255 then 1 else g + 1)"

definition ht_remove :: "32 word \<Rightarrow> 'a handle_table \<Rightarrow> ('a handle_table \<times> 'a option) option" where
  "ht_remove h t =
     (case locate t h of
        None \<Rightarrow> Some (t, None)
      | Some index \<Rightarrow>
          do {
            slot \<leftarrow> nth_opt (ht_slots t) index;
            ss \<leftarrow> upd_opt (ht_slots t) index \<lparr>sl_gen = next_gen (sl_gen slot), sl_val = None\<rparr>;
            if ht_live t = 0 then None
            else Some (t\<lparr>ht_slots := ss, ht_free := ht_free t @ [word_of_nat index], ht_live := ht_live t - 1\<rparr>,
                       sl_val slot)
          })"

definition ht_len :: "'a handle_table \<Rightarrow> nat" where
  "ht_len t = ht_live t"

definition ht_is_empty :: "'a handle_table \<Rightarrow> bool" where
  "ht_is_empty t \<longleftrightarrow> ht_live t = 0"

definition ht_iter :: "'a handle_table \<Rightarrow> (32 word \<times> 'a) list" where
  "ht_iter t = List.map_filter
     (\<lambda>(index, slot). map_option (Pair (handle_of (word_of_nat index) (sl_gen slot))) (sl_val slot))
     (enumerate 0 (ht_slots t))"

fun ht_remove_all :: "32 word list \<Rightarrow> 'a handle_table \<Rightarrow> ('a handle_table \<times> 'a list) option" where
  "ht_remove_all [] t = Some (t, [])"
| "ht_remove_all (h # hs) t =
     do {
       (t1, v) \<leftarrow> ht_remove h t;
       (t2, vs) \<leftarrow> ht_remove_all hs t1;
       Some (t2, (case v of None \<Rightarrow> vs | Some v \<Rightarrow> v # vs))
     }"

definition ht_drain :: "'a handle_table \<Rightarrow> ('a handle_table \<times> 'a list) option" where
  "ht_drain t = ht_remove_all (map fst (ht_iter t)) t"

section \<open>Packing a handle\<close>

lemma slot_mask: "SLOT_MASK = mask 23"
  by (simp add: SLOT_MASK_def mask_eq_decr_exp)

lemma max_live: "MAX_LIVE = 8388607"
  by (simp add: MAX_LIVE_def SLOT_MASK_def)

lemma unat_handle:
  assumes "unat s < 2 ^ 23"
  shows "unat (handle_of s g) = unat g * 2 ^ 23 + unat s"
proof -
  have g: "unat g < 256" using unsigned_less[of g] by simp
  have "unat (push_bit 23 (ucast g :: 32 word)) = unat g * 2 ^ 23"
    using g by (simp add: unsigned_push_bit_eq unsigned_ucast_eq take_bit_nat_eq_self push_bit_nat_def)
  moreover have "push_bit 23 (ucast g :: 32 word) AND s = 0"
  proof (rule bit_eqI)
    fix n
    have "\<not> bit s n" if "23 \<le> n" 
    proof -
      have "unat s < 2 ^ n" using assms that by (meson less_le_trans one_le_numeral power_increasing)
      then have "\<not> bit (unat s) n" by (simp add: bit_iff_odd)
      then show ?thesis by (simp add: bit_unsigned_iff)
    qed
    then show "bit (push_bit 23 (ucast g :: 32 word) AND s) n = bit 0 n" by (auto simp: bit_simps)
  qed
  then have "handle_of s g = push_bit 23 (ucast g) + s"
    by (simp add: handle_of_def disjunctive_add_eq_or)
  ultimately show ?thesis using g assms by (simp add: unat_word_ariths)
qed

lemma sint_negative: "sint (h :: 32 word) < 0 \<longleftrightarrow> 2 ^ 31 \<le> unat h"
proof -
  have "sint h < 0 \<longleftrightarrow> bit h 31" using bit_last_iff[of h] by simp
  also have "\<dots> \<longleftrightarrow> bit (unat h) 31" by (simp add: bit_unsigned_iff)
  also have "\<dots> \<longleftrightarrow> odd (unat h div 2 ^ 31)" by (simp only: bit_iff_odd)
  also have "\<dots> \<longleftrightarrow> 2 ^ 31 \<le> unat h"
  proof -
    have "unat h div 2 ^ 31 < 2" using unsigned_less[of h, where 'a = nat] by (intro div_less_iff_less_mult[THEN iffD2]) auto
    then show ?thesis by (auto simp: div_eq_0_iff less_2_cases_iff)
  qed
  finally show ?thesis .
qed

lemma unat_slot: "unat (h AND SLOT_MASK) = unat h mod 2 ^ 23"
proof -
  have "h AND SLOT_MASK = h mod 2 ^ 23" by (simp only: slot_mask take_bit_eq_mask[symmetric] take_bit_eq_mod)
  then show ?thesis by (simp add: unat_mod_distrib)
qed

lemma unat_gen:
  fixes h :: "32 word"
  assumes "unat h < 2 ^ 31"
  shows "unat (ucast (drop_bit 23 h) :: 8 word) = unat h div 2 ^ 23"
proof -
  have "unat (drop_bit 23 h) = unat h div 2 ^ 23" by (simp add: drop_bit_eq_div unat_div_distrib)
  moreover have "unat h div 2 ^ 23 < 2 ^ 8" using assms by (intro div_less_iff_less_mult[THEN iffD2]) auto
  ultimately show ?thesis by (simp add: unsigned_ucast_eq take_bit_nat_eq_self)
qed

text \<open>The slot and the generation that a handle names, and the handle of a slot.\<close>

definition slot_idx :: "32 word \<Rightarrow> nat" where
  "slot_idx h = unat (h AND SLOT_MASK)"

definition gen_of :: "32 word \<Rightarrow> 8 word" where
  "gen_of h = ucast (drop_bit SLOT_BITS h)"

definition slot_handle :: "'a handle_table \<Rightarrow> nat \<Rightarrow> 32 word" where
  "slot_handle t i = handle_of (word_of_nat i) (sl_gen (ht_slots t ! i))"

lemma unat_index: "i < 2 ^ 23 \<Longrightarrow> unat (word_of_nat i :: 32 word) = i"
  by (simp add: unsigned_of_nat take_bit_nat_eq_self)

lemma unat_slot_handle:
  "i < 2 ^ 23 \<Longrightarrow> unat (handle_of (word_of_nat i) g) = unat g * 2 ^ 23 + i"
  using unat_handle[of "word_of_nat i" g] by (simp add: unat_index)

lemma handle_eq_iff:
  assumes "i < 2 ^ 23"
  shows "h = handle_of (word_of_nat i) g \<longleftrightarrow> \<not> sint h < 0 \<and> slot_idx h = i \<and> gen_of h = g"
proof
  assume h: "h = handle_of (word_of_nat i) g"
  have u: "unat h = unat g * 2 ^ 23 + i" unfolding h by (rule unat_slot_handle[OF assms])
  have b: "unat h < 2 ^ 31" using u assms unsigned_less[of g, where 'a = nat] by simp
  have "unat h mod 2 ^ 23 = i" "unat h div 2 ^ 23 = unat g" using u assms by simp_all
  then show "\<not> sint h < 0 \<and> slot_idx h = i \<and> gen_of h = g"
    using b unat_gen[OF b] by (simp add: sint_negative slot_idx_def gen_of_def unat_slot word_unat_eq_iff)
next
  assume r: "\<not> sint h < 0 \<and> slot_idx h = i \<and> gen_of h = g"
  then have b: "unat h < 2 ^ 31" unfolding sint_negative by simp
  from r have "unat h mod 2 ^ 23 = i" "unat h div 2 ^ 23 = unat g"
    using unat_gen[OF b] by (auto simp: slot_idx_def gen_of_def unat_slot)
  then have "unat h = unat (handle_of (word_of_nat i) g)"
    unfolding unat_slot_handle[OF assms] by (metis div_mult_mod_eq)
  then show "h = handle_of (word_of_nat i) g" by (simp add: word_unat_eq_iff)
qed

lemma handle_fields:
  assumes "i < 2 ^ 23"
  shows "slot_idx (handle_of (word_of_nat i) g) = i" "gen_of (handle_of (word_of_nat i) g) = g"
    "\<not> sint (handle_of (word_of_nat i) g) < 0"
  using handle_eq_iff[OF assms, of _ g] by auto

lemma locate_slot:
  "locate t h =
     (if sint h < 0 then None
      else case nth_opt (ht_slots t) (slot_idx h) of
        None \<Rightarrow> None
      | Some s \<Rightarrow> if sl_gen s = gen_of h \<and> sl_val s \<noteq> None then Some (slot_idx h) else None)"
  by (auto simp: locate_def slot_idx_def gen_of_def Let_def split: option.split)

lemma ht_get_slot:
  "ht_get t h =
     (if sint h < 0 then None
      else case nth_opt (ht_slots t) (slot_idx h) of
        None \<Rightarrow> None
      | Some s \<Rightarrow> if sl_gen s = gen_of h then sl_val s else None)"
  by (auto simp: ht_get_def locate_slot nth_opt_Some_iff split: option.split)

lemma locate_get: "locate t h = (if ht_get t h = None then None else Some (slot_idx h))"
  by (auto simp: ht_get_slot locate_slot split: option.split)

section \<open>The invariant\<close>

definition free_slots :: "'a handle_table \<Rightarrow> nat set" where
  "free_slots t = {i. i < length (ht_slots t) \<and> sl_val (ht_slots t ! i) = None}"

definition live_slots :: "'a handle_table \<Rightarrow> nat set" where
  "live_slots t = {i. i < length (ht_slots t) \<and> sl_val (ht_slots t ! i) \<noteq> None}"

definition ht_ok :: "'a handle_table \<Rightarrow> bool" where
  "ht_ok t \<longleftrightarrow>
     length (ht_slots t) \<le> MAX_LIVE \<and> (\<forall>s \<in> set (ht_slots t). sl_gen s \<noteq> 0) \<and>
     distinct (map unat (ht_free t)) \<and> set (map unat (ht_free t)) = free_slots t \<and>
     ht_live t = card (live_slots t)"

lemma ht_okD:
  assumes "ht_ok t"
  shows "length (ht_slots t) \<le> 2 ^ 23" "length (ht_slots t) < 2 ^ 23" "i < length (ht_slots t) \<Longrightarrow> sl_gen (ht_slots t ! i) \<noteq> 0"
    "w \<in> set (ht_free t) \<Longrightarrow> unat w < length (ht_slots t) \<and> sl_val (ht_slots t ! unat w) = None"
  using assms by (auto simp: ht_ok_def max_live free_slots_def)

lemma finite_slots [simp]: "finite (live_slots t)" "finite (free_slots t)"
  by (simp_all add: live_slots_def free_slots_def)

lemma ht_ok_new: "ht_ok ht_new"
  by (simp add: ht_ok_def ht_new_def free_slots_def live_slots_def)

lemma live_or_free: "ht_ok t \<Longrightarrow> ht_live t + length (ht_free t) = length (ht_slots t)"
proof -
  assume ok: "ht_ok t"
  have "length (ht_free t) = card (free_slots t)"
    using ok distinct_card[of "map unat (ht_free t)"] by (simp add: ht_ok_def)
  moreover have "card (live_slots t \<union> free_slots t) = card (live_slots t) + card (free_slots t)"
    by (rule card_Un_disjoint) (auto simp: live_slots_def free_slots_def)
  moreover have "live_slots t \<union> free_slots t = {..<length (ht_slots t)}" by (auto simp: live_slots_def free_slots_def)
  ultimately show ?thesis using ok by (simp add: ht_ok_def)
qed

section \<open>The operations\<close>

text \<open>Filling a free slot issues a handle that was not valid before.\<close>

lemma ht_fill_ok:
  assumes i: "i < length (ht_slots t)" "sl_val (ht_slots t ! i) = None" "length (ht_slots t) \<le> MAX_LIVE"
    and fr: "distinct (map unat (ht_free t))" "set (map unat (ht_free t)) = free_slots t - {i}"
    and gen: "\<forall>s \<in> set (ht_slots t). sl_gen s \<noteq> 0" and live: "ht_live t = card (live_slots t)"
  shows "\<exists>t'. ht_fill (word_of_nat i) v t = Some (t', Some (slot_handle t i)) \<and> ht_ok t' \<and> ht_free t' = ht_free t \<and>
    map sl_gen (ht_slots t') = map sl_gen (ht_slots t) \<and> ht_live t' = Suc (ht_live t) \<and>
    ht_get t (slot_handle t i) = None \<and> ht_get t' = (ht_get t)(slot_handle t i \<mapsto> v)"
proof -
  have i': "i < 2 ^ 23" using i(1,3) by (simp add: max_live)
  let ?t = "t\<lparr>ht_slots := (ht_slots t)[i := (ht_slots t ! i)\<lparr>sl_val := Some v\<rparr>], ht_live := ht_live t + 1\<rparr>"
  have "free_slots ?t = free_slots t - {i}" using i(1) by (auto simp: free_slots_def nth_list_update split: if_splits)
  moreover have "live_slots ?t = insert i (live_slots t)" using i(1) by (auto simp: live_slots_def nth_list_update split: if_splits)
  moreover have "i \<notin> live_slots t" using i(2) by (simp add: live_slots_def)
  moreover have "\<forall>s \<in> set (ht_slots ?t). sl_gen s \<noteq> 0"
    using gen i(1) by (auto dest!: set_update_subset_insert[THEN subsetD])
  ultimately have "ht_ok ?t" using i(3) fr live by (simp add: ht_ok_def)
  moreover have "ht_get t (slot_handle t i) = None"
    using i(1,2) by (simp add: ht_get_slot slot_handle_def handle_fields[OF i'])
  moreover have "ht_get ?t = (ht_get t)(slot_handle t i \<mapsto> v)"
    using i(1) by (intro ext) (auto simp: ht_get_slot slot_handle_def handle_eq_iff[OF i'] nth_opt_update split: option.splits)
  moreover have "ht_fill (word_of_nat i) v t = Some (?t, Some (slot_handle t i))"
    using i(1) i' by (simp add: ht_fill_def unat_index slot_handle_def)
  moreover have "map sl_gen (ht_slots ?t) = map sl_gen (ht_slots t)"
    using i(1) by (simp add: map_update list_update_same_conv)
  ultimately show ?thesis by (intro exI[of _ ?t]) simp
qed

text \<open>
  A table that is not full issues a handle, for the oldest free slot or a new one; a full table
  is left as it is.
\<close>

definition issues :: "'a handle_table \<Rightarrow> 'a \<Rightarrow> 'a handle_table \<Rightarrow> 32 word \<Rightarrow> bool" where
  "issues t v t' h \<longleftrightarrow>
     ht_live t' = Suc (ht_live t) \<and> \<not> sint h \<le> 0 \<and> ht_get t h = None \<and> ht_get t' = (ht_get t)(h \<mapsto> v) \<and>
     take (length (ht_slots t)) (map sl_gen (ht_slots t')) = map sl_gen (ht_slots t) \<and>
     (case ht_free t of
        [] \<Rightarrow> slot_idx h = length (ht_slots t) \<and> ht_free t' = []
      | w # ws \<Rightarrow> slot_idx h = unat w \<and> ht_free t' = ws)"

lemma handle_positive: "i < 2 ^ 23 \<Longrightarrow> g \<noteq> 0 \<Longrightarrow> \<not> sint (handle_of (word_of_nat i) g) \<le> 0"
proof -
  assume i: "i < 2 ^ 23" and g: "g \<noteq> 0"
  then have "0 < unat g" using unat_gt_0 by blast
  then have "unat (handle_of (word_of_nat i) g) \<noteq> 0" unfolding unat_slot_handle[OF i] by simp
  then have "handle_of (word_of_nat i) g \<noteq> 0" by auto
  with handle_fields(3)[OF i, of g] show ?thesis by (simp add: order_le_less signed_eq_0_iff)
qed

lemma ht_insert_ok:
  assumes ok: "ht_ok t" and room: "ht_live t < MAX_LIVE"
  shows "\<exists>t' h. ht_insert v t = Some (t', Some h) \<and> ht_ok t' \<and> issues t v t' h"
proof (cases "ht_free t")
  case Nil
  with live_or_free[OF ok] room have len: "length (ht_slots t) < MAX_LIVE" by simp
  let ?t = "t\<lparr>ht_slots := ht_slots t @ [\<lparr>sl_gen = 1, sl_val = None\<rparr>]\<rparr>" and ?i = "length (ht_slots t)"
  have "free_slots ?t = insert ?i (free_slots t)" "live_slots ?t = live_slots t"
    by (auto simp: free_slots_def live_slots_def nth_append)
  then have "\<exists>t'. ht_fill (word_of_nat ?i) v ?t = Some (t', Some (slot_handle ?t ?i)) \<and> ht_ok t' \<and> ht_free t' = ht_free ?t \<and>
      map sl_gen (ht_slots t') = map sl_gen (ht_slots ?t) \<and> ht_live t' = Suc (ht_live ?t) \<and>
      ht_get ?t (slot_handle ?t ?i) = None \<and> ht_get t' = (ht_get ?t)(slot_handle ?t ?i \<mapsto> v)"
    using len Nil ok by (intro ht_fill_ok) (auto simp: ht_ok_def)
  moreover have "ht_get ?t = ht_get t"
    by (rule ext) (auto simp: ht_get_slot nth_opt_def nth_append less_Suc_eq split: option.split)
  moreover have "ht_insert v t = ht_fill (word_of_nat ?i) v ?t" using Nil len by (simp add: ht_insert_def)
  moreover have "?i < 2 ^ 23" using len by (simp add: max_live)
  ultimately show ?thesis
    using Nil handle_positive[of ?i 1] handle_fields(1)[of ?i 1] by (auto simp: issues_def slot_handle_def)
next
  case (Cons w ws)
  let ?t = "t\<lparr>ht_free := ws\<rparr>"
  have w: "unat w < length (ht_slots t)" "sl_val (ht_slots t ! unat w) = None" using ht_okD(4)[OF ok, of w] Cons by auto
  have "unat ` set ws = free_slots t - {unat w}"
    using ok Cons Diff_insert_absorb[of "unat w" "unat ` set ws"] by (simp add: ht_ok_def)
  moreover have "free_slots ?t = free_slots t" "live_slots ?t = live_slots t" by (simp_all add: free_slots_def live_slots_def)
  ultimately have "\<exists>t'. ht_fill (word_of_nat (unat w)) v ?t = Some (t', Some (slot_handle ?t (unat w))) \<and> ht_ok t' \<and>
      ht_free t' = ht_free ?t \<and> map sl_gen (ht_slots t') = map sl_gen (ht_slots ?t) \<and> ht_live t' = Suc (ht_live ?t) \<and>
      ht_get ?t (slot_handle ?t (unat w)) = None \<and> ht_get t' = (ht_get ?t)(slot_handle ?t (unat w) \<mapsto> v)"
    using w Cons ok by (intro ht_fill_ok) (simp_all add: ht_ok_def)
  moreover have "ht_get ?t = ht_get t" by (rule ext) (simp add: ht_get_slot)
  moreover have "ht_insert v t = ht_fill w v ?t" using Cons by (simp add: ht_insert_def)
  moreover have "unat w < 2 ^ 23" "sl_gen (ht_slots t ! unat w) \<noteq> 0" using ht_okD(2,3)[OF ok] w(1) by auto
  ultimately show ?thesis
    using Cons handle_positive[of "unat w"] handle_fields(1)[of "unat w"] by (auto simp: issues_def slot_handle_def)
qed

lemma ht_insert_full: "ht_ok t \<Longrightarrow> \<not> ht_live t < MAX_LIVE \<Longrightarrow> ht_insert v t = Some (t, None)"
  using live_or_free[of t] by (auto simp: ht_insert_def ht_ok_def split: list.split)

lemma same_handle:
  "\<not> sint h < 0 \<Longrightarrow> \<not> sint h' < 0 \<Longrightarrow> slot_idx h = slot_idx h' \<Longrightarrow> gen_of h = gen_of h' \<Longrightarrow> h = h'"
  using handle_eq_iff[of "slot_idx h'" h "gen_of h'"] handle_eq_iff[of "slot_idx h'" h' "gen_of h'"]
  by (simp add: slot_idx_def unat_slot)

lemma next_gen: "next_gen g \<noteq> 0" "next_gen g \<noteq> g"
proof -
  have "g + 1 = 0 \<Longrightarrow> g = 255" by (simp add: eq_neg_iff_add_eq_0[symmetric])
  then show "next_gen g \<noteq> 0" by (auto simp: next_gen_def)
qed (auto simp: next_gen_def)

definition frees :: "'a handle_table \<Rightarrow> 32 word \<Rightarrow> 'a handle_table \<Rightarrow> bool" where
  "frees t h t' \<longleftrightarrow>
     slot_idx h < length (ht_slots t) \<and> sl_gen (ht_slots t ! slot_idx h) = gen_of h \<and>
     ht_free t' = ht_free t @ [word_of_nat (slot_idx h)] \<and>
     map sl_gen (ht_slots t') = (map sl_gen (ht_slots t))[slot_idx h := next_gen (gen_of h)]"

lemma ht_remove_ok:
  assumes ok: "ht_ok t"
  shows "\<exists>t'. ht_remove h t = Some (t', ht_get t h) \<and> ht_ok t' \<and> ht_get t' = (ht_get t)(h := None) \<and>
    (if ht_get t h = None then t' = t else frees t h t' \<and> ht_live t = Suc (ht_live t'))"
proof (cases "ht_get t h")
  case None
  then have "ht_remove h t = Some (t, None)" by (simp add: ht_remove_def locate_get)
  with None ok show ?thesis by (simp add: fun_upd_idem)
next
  case (Some v)
  let ?i = "slot_idx h"
  let ?t = "t\<lparr>ht_slots := (ht_slots t)[?i := \<lparr>sl_gen = next_gen (gen_of h), sl_val = None\<rparr>],
    ht_free := ht_free t @ [word_of_nat ?i], ht_live := ht_live t - 1\<rparr>"
  from Some have i: "?i < length (ht_slots t)" "sl_gen (ht_slots t ! ?i) = gen_of h" "sl_val (ht_slots t ! ?i) = Some v" "\<not> sint h < 0"
    by (auto simp: ht_get_slot nth_opt_Some_iff split: if_splits option.splits)
  have u: "unat (word_of_nat ?i :: 32 word) = ?i" using i(1) ht_okD(2)[OF ok] by (intro unat_index) simp
  have live: "?i \<in> live_slots t" "0 < card (live_slots t)" using i by (auto simp: live_slots_def card_gt_0_iff)
  have "free_slots ?t = insert ?i (free_slots t)" "live_slots ?t = live_slots t - {?i}"
    using i(1) by (auto simp: free_slots_def live_slots_def nth_list_update split: if_splits)
  moreover have "?i \<notin> free_slots t" using i(3) by (simp add: free_slots_def)
  moreover have "\<forall>s \<in> set (ht_slots ?t). sl_gen s \<noteq> 0"
    using ok next_gen by (auto simp: ht_ok_def dest!: set_update_subset_insert[THEN subsetD])
  ultimately have "ht_ok ?t" using ok live by (simp add: ht_ok_def u)
  moreover have "ht_remove h t = Some (?t, ht_get t h)"
    using Some i live ok by (auto simp: ht_remove_def locate_get ht_ok_def)
  moreover have "ht_get ?t = (ht_get t)(h := None)"
  proof
    fix h'
    show "ht_get ?t h' = ((ht_get t)(h := None)) h'"
      using i same_handle[of h' h] by (auto simp: ht_get_slot nth_opt_update split: option.split)
  qed
  moreover have "frees t h ?t" using i by (simp add: frees_def map_update)
  moreover have "ht_live t = Suc (ht_live ?t)" using live ok by (simp add: ht_ok_def)
  ultimately show ?thesis using Some by (intro exI[of _ ?t]) simp
qed

lemma ht_get_mut_ok:
  assumes ok: "ht_ok t"
  shows "(case ht_get_mut t h of None \<Rightarrow> ht_get t h = None
    | Some (v, put) \<Rightarrow> ht_get t h = Some v \<and> (\<forall>w. ht_ok (put w) \<and> ht_get (put w) = (ht_get t)(h \<mapsto> w)))"
proof (cases "ht_get t h")
  case None
  then show ?thesis by (simp add: ht_get_mut_def locate_get)
next
  case (Some v)
  let ?i = "slot_idx h"
  from Some have i: "?i < length (ht_slots t)" "sl_gen (ht_slots t ! ?i) = gen_of h" "sl_val (ht_slots t ! ?i) = Some v" "\<not> sint h < 0"
    by (auto simp: ht_get_slot nth_opt_Some_iff split: if_splits option.splits)
  have "ht_ok (t\<lparr>ht_slots := (ht_slots t)[?i := (ht_slots t ! ?i)\<lparr>sl_val := Some w\<rparr>]\<rparr>)" (is "ht_ok ?t") for w
  proof -
    have "free_slots ?t = free_slots t" "live_slots ?t = live_slots t"
      using i by (auto simp: free_slots_def live_slots_def nth_list_update split: if_splits)
    moreover have "\<forall>s \<in> set (ht_slots ?t). sl_gen s \<noteq> 0"
      using ok i(1) by (auto simp: ht_ok_def dest!: set_update_subset_insert[THEN subsetD])
    ultimately show ?thesis using ok by (simp add: ht_ok_def)
  qed
  moreover have "ht_get (t\<lparr>ht_slots := (ht_slots t)[?i := (ht_slots t ! ?i)\<lparr>sl_val := Some w\<rparr>]\<rparr>) = (ht_get t)(h \<mapsto> w)" for w
  proof
    fix h'
    show "ht_get (t\<lparr>ht_slots := (ht_slots t)[?i := (ht_slots t ! ?i)\<lparr>sl_val := Some w\<rparr>]\<rparr>) h' = ((ht_get t)(h \<mapsto> w)) h'"
      using i same_handle[of h' h] by (auto simp: ht_get_slot nth_opt_update split: option.split)
  qed
  ultimately show ?thesis using Some i by (simp add: ht_get_mut_def locate_get)
qed

section \<open>The contract of a table of handles\<close>

text \<open>What a client asks of a table, what it is told, and the table as a finite map of limited size.\<close>

datatype ('h, 'v) table_op = T_Insert 'v | T_Remove 'h

datatype ('h, 'v) table_out = Issued 'h | Full | Removed "'v option"

definition table_step ::
  "('v \<Rightarrow> 't \<Rightarrow> ('t \<times> 'h option) option) \<Rightarrow> ('h \<Rightarrow> 't \<Rightarrow> ('t \<times> 'v option) option) \<Rightarrow>
     't \<Rightarrow> ('h, 'v) table_op \<Rightarrow> ('t \<times> ('h, 'v) table_out) option" where
  "table_step ins rem t op =
     (case op of
        T_Insert v \<Rightarrow> map_option (\<lambda>(t', r). (t', case r of None \<Rightarrow> Full | Some h \<Rightarrow> Issued h)) (ins v t)
      | T_Remove h \<Rightarrow> map_option (\<lambda>(t', r). (t', Removed r)) (rem h t))"

fun run_ops ::
  "('v \<Rightarrow> 't \<Rightarrow> ('t \<times> 'h option) option) \<Rightarrow> ('h \<Rightarrow> 't \<Rightarrow> ('t \<times> 'v option) option) \<Rightarrow>
     't \<Rightarrow> ('h, 'v) table_op list \<Rightarrow> ('t \<times> ('h, 'v) table_out list) option" where
  "run_ops ins rem t [] = Some (t, [])"
| "run_ops ins rem t (op # ops) =
     do {
       (t1, out) \<leftarrow> table_step ins rem t op;
       (t2, outs) \<leftarrow> run_ops ins rem t1 ops;
       Some (t2, out # outs)
     }"

inductive map_step :: "nat \<Rightarrow> ('h \<rightharpoonup> 'v) \<Rightarrow> ('h, 'v) table_op \<Rightarrow> ('h, 'v) table_out \<Rightarrow> ('h \<rightharpoonup> 'v) \<Rightarrow> bool" for cap where
  issue: "card (dom M) < cap \<Longrightarrow> M h = None \<Longrightarrow> map_step cap M (T_Insert v) (Issued h) (M(h \<mapsto> v))"
| full: "\<not> card (dom M) < cap \<Longrightarrow> map_step cap M (T_Insert v) Full M"
| remove: "map_step cap M (T_Remove h) (Removed (M h)) (M(h := None))"

inductive map_runs :: "nat \<Rightarrow> ('h \<rightharpoonup> 'v) \<Rightarrow> ('h, 'v) table_op list \<Rightarrow> ('h, 'v) table_out list \<Rightarrow> ('h \<rightharpoonup> 'v) \<Rightarrow> bool" for cap where
  stop: "map_runs cap M [] [] M"
| step: "map_step cap M op out M1 \<Longrightarrow> map_runs cap M1 ops outs M2 \<Longrightarrow> map_runs cap M (op # ops) (out # outs) M2"

inductive_simps map_runs_simps [simp]: "map_runs cap M [] outs M'" "map_runs cap M (op # ops) outs M'"

locale handle_map =
  fixes new :: 't and get :: "'t \<Rightarrow> 'h \<Rightarrow> 'v option"
    and ins :: "'v \<Rightarrow> 't \<Rightarrow> ('t \<times> 'h option) option" and rem :: "'h \<Rightarrow> 't \<Rightarrow> ('t \<times> 'v option) option"
    and len :: "'t \<Rightarrow> nat" and capacity :: nat and invar :: "'t \<Rightarrow> bool" and valid :: "'h \<Rightarrow> bool"
  assumes new: "invar new" "get new = Map.empty"
    and insert_room: "invar t \<Longrightarrow> len t < capacity \<Longrightarrow>
      \<exists>t' h. ins v t = Some (t', Some h) \<and> invar t' \<and> valid h \<and> get t h = None \<and> get t' = (get t)(h \<mapsto> v)"
    and insert_full: "invar t \<Longrightarrow> \<not> len t < capacity \<Longrightarrow> ins v t = Some (t, None)"
    and remove: "invar t \<Longrightarrow> \<exists>t'. rem h t = Some (t', get t h) \<and> invar t' \<and> get t' = (get t)(h := None)"
    and len: "invar t \<Longrightarrow> len t = card (dom (get t))"
begin

lemma step_refines:
  assumes "invar t"
  shows "\<exists>t' out. table_step ins rem t op = Some (t', out) \<and> invar t' \<and> map_step capacity (get t) op out (get t') \<and>
    (\<forall>h. out = Issued h \<longrightarrow> valid h)"
proof (cases op)
  case (T_Insert v)
  show ?thesis
  proof (cases "len t < capacity")
    case True
    with insert_room[OF assms True, of v] T_Insert len[OF assms] show ?thesis
      by (fastforce simp: table_step_def intro: map_step.issue)
  next
    case False
    with insert_full[OF assms False, of v] T_Insert assms len[OF assms] show ?thesis
      by (auto simp: table_step_def intro: map_step.full)
  qed
next
  case (T_Remove h)
  from remove[OF assms, of h] obtain t' where "rem h t = Some (t', get t h)" "invar t'" "get t' = (get t)(h := None)" by blast
  with T_Remove map_step.remove[of capacity "get t" h] show ?thesis by (auto simp: table_step_def)
qed

lemma run_refines:
  "invar t \<Longrightarrow> \<exists>t' outs. run_ops ins rem t ops = Some (t', outs) \<and> invar t' \<and> map_runs capacity (get t) ops outs (get t') \<and>
     (\<forall>h. Issued h \<in> set outs \<longrightarrow> valid h)"
proof (induction ops arbitrary: t)
  case (Cons op ops)
  from step_refines[OF Cons.prems, of op] obtain t1 out where s: "table_step ins rem t op = Some (t1, out)" "invar t1"
    "map_step capacity (get t) op out (get t1)" "\<forall>h. out = Issued h \<longrightarrow> valid h" by blast
  from Cons.IH[OF s(2)] obtain t2 outs where r: "run_ops ins rem t1 ops = Some (t2, outs)" "invar t2"
    "map_runs capacity (get t1) ops outs (get t2)" "\<forall>h. Issued h \<in> set outs \<longrightarrow> valid h" by blast
  from s r show ?case by (intro exI[of _ t2] exI[of _ "out # outs"]) auto
qed simp

end

lemma dom_get_card:
  assumes "ht_ok t"
  shows "ht_live t = card (dom (ht_get t))"
proof -
  have d: "dom (ht_get t) = slot_handle t ` live_slots t"
  proof (intro equalityI subsetI)
    fix h assume "h \<in> dom (ht_get t)"
    then have i: "slot_idx h \<in> live_slots t" "sl_gen (ht_slots t ! slot_idx h) = gen_of h" "\<not> sint h < 0"
      by (auto simp: ht_get_slot live_slots_def nth_opt_Some_iff split: if_splits option.splits)
    moreover have "h = slot_handle t (slot_idx h)"
      using i handle_eq_iff[of "slot_idx h" h] by (simp add: slot_handle_def slot_idx_def unat_slot)
    ultimately show "h \<in> slot_handle t ` live_slots t" by blast
  next
    fix h assume "h \<in> slot_handle t ` live_slots t"
    then obtain i where "i < length (ht_slots t)" "sl_val (ht_slots t ! i) \<noteq> None" "h = slot_handle t i"
      by (auto simp: live_slots_def)
    with handle_fields[of i] ht_okD(2)[OF assms] show "h \<in> dom (ht_get t)"
      by (auto simp: ht_get_slot slot_handle_def)
  qed
  have "inj_on (slot_handle t) (live_slots t)"
  proof (rule inj_onI)
    fix i j assume "i \<in> live_slots t" "j \<in> live_slots t" and eq: "slot_handle t i = slot_handle t j"
    then have "i < 2 ^ 23" "j < 2 ^ 23" using ht_okD(2)[OF assms] by (auto simp: live_slots_def)
    then show "i = j" using arg_cong[OF eq, of slot_idx] by (simp add: slot_handle_def handle_fields)
  qed
  then show ?thesis using assms by (simp add: d card_image ht_ok_def)
qed

lemma ht_get_new: "ht_get ht_new = Map.empty"
  by (rule ext) (simp add: ht_get_slot ht_new_def)

interpretation handles: handle_map ht_new ht_get ht_insert ht_remove ht_len MAX_LIVE ht_ok "\<lambda>h. 0 < sint h"
proof
  fix t :: "'a handle_table" and v :: 'a
  assume "ht_ok t" "ht_len t < MAX_LIVE"
  from ht_insert_ok[of t v] this show "\<exists>t' h. ht_insert v t = Some (t', Some h) \<and> ht_ok t' \<and> 0 < sint h \<and>
      ht_get t h = None \<and> ht_get t' = (ht_get t)(h \<mapsto> v)"
    by (auto simp: ht_len_def issues_def not_le)
next
  fix t :: "'a handle_table" and h
  assume "ht_ok t"
  from ht_remove_ok[OF this, of h] show "\<exists>t'. ht_remove h t = Some (t', ht_get t h) \<and> ht_ok t' \<and> ht_get t' = (ht_get t)(h := None)"
    by blast
qed (simp_all add: ht_ok_new ht_get_new ht_insert_full ht_len_def dom_get_card)

section \<open>Generations and the free queue along a run\<close>

text \<open>
  An insertion leaves all generations as they are and takes the oldest free slot; a successful
  removal advances the generation of its slot and queues it.
\<close>

definition frees_slot :: "nat \<Rightarrow> (32 word, 'v) table_op \<Rightarrow> (32 word, 'v) table_out \<Rightarrow> bool" where
  "frees_slot s op out = (case (op, out) of (T_Remove h, Removed (Some _)) \<Rightarrow> slot_idx h = s | _ \<Rightarrow> False)"

definition slot_frees :: "nat \<Rightarrow> (32 word, 'v) table_op list \<Rightarrow> (32 word, 'v) table_out list \<Rightarrow> nat" where
  "slot_frees s ops outs = length (filter (\<lambda>(op, out). frees_slot s op out) (zip ops outs))"

fun issued :: "(32 word, 'v) table_out list \<Rightarrow> 32 word list" where
  "issued [] = []"
| "issued (Issued h # outs) = h # issued outs"
| "issued (_ # outs) = issued outs"

abbreviation ht_run where "ht_run \<equiv> run_ops ht_insert ht_remove"

lemma table_step_cases:
  assumes "ht_ok t" "table_step ht_insert ht_remove t op = Some (t', out)"
  obtains (issued) v h where "op = T_Insert v" "out = Issued h" "ht_ok t'" "issues t v t' h"
  | (full) v where "op = T_Insert v" "out = Full" "t' = t" "\<not> ht_live t < MAX_LIVE"
  | (missed) h where "op = T_Remove h" "out = Removed None" "t' = t" "ht_get t h = None"
  | (freed) h v where "op = T_Remove h" "out = Removed (Some v)" "ht_ok t'" "ht_get t h = Some v" "frees t h t'"
      "ht_get t' = (ht_get t)(h := None)"
proof (cases op)
  case (T_Insert v)
  show ?thesis
  proof (cases "ht_live t < MAX_LIVE")
    case True
    from ht_insert_ok[OF assms(1) True, of v] obtain t1 h where "ht_insert v t = Some (t1, Some h)" "ht_ok t1" "issues t v t1 h"
      by blast
    with assms(2) T_Insert issued[of v h] show ?thesis by (simp add: table_step_def)
  next
    case False
    from ht_insert_full[OF assms(1) False, of v] assms(2) T_Insert full[of v] False show ?thesis by (simp add: table_step_def)
  qed
next
  case (T_Remove h)
  from ht_remove_ok[OF assms(1), of h] obtain t1 where t1: "ht_remove h t = Some (t1, ht_get t h)" "ht_ok t1"
    "ht_get t1 = (ht_get t)(h := None)" "if ht_get t h = None then t1 = t else frees t h t1 \<and> ht_live t = Suc (ht_live t1)"
    by blast
  show ?thesis
  proof (cases "ht_get t h")
    case None
    with t1 assms(2) T_Remove missed[of h] show ?thesis by (simp add: table_step_def)
  next
    case (Some v)
    with t1 assms(2) T_Remove freed[of h v] show ?thesis by (simp add: table_step_def)
  qed
qed

lemma table_step_gen:
  assumes "ht_ok t" "table_step ht_insert ht_remove t op = Some (t', out)" "s < length (ht_slots t)"
  shows "ht_ok t' \<and> s < length (ht_slots t') \<and>
    sl_gen (ht_slots t' ! s) = (if frees_slot s op out then next_gen (sl_gen (ht_slots t ! s)) else sl_gen (ht_slots t ! s))"
  using assms(1,2)
proof (cases rule: table_step_cases)
  case (issued v h)
  then have g: "take (length (ht_slots t)) (map sl_gen (ht_slots t')) = map sl_gen (ht_slots t)" by (simp add: issues_def)
  from arg_cong[OF g, of length] assms(3) have s: "s < length (ht_slots t')" by simp
  with arg_cong[OF g, of "\<lambda>xs. xs ! s"] assms(3) issued show ?thesis by (simp add: frees_slot_def)
next
  case (freed h v)
  then have g: "map sl_gen (ht_slots t') = (map sl_gen (ht_slots t))[slot_idx h := next_gen (gen_of h)]"
    and h: "slot_idx h < length (ht_slots t)" "sl_gen (ht_slots t ! slot_idx h) = gen_of h" by (simp_all add: frees_def)
  from arg_cong[OF g, of length] assms(3) have s: "s < length (ht_slots t')" by simp
  with arg_cong[OF g, of "\<lambda>xs. xs ! s"] assms(3) freed h show ?thesis
    by (auto simp: frees_slot_def nth_list_update split: if_splits)
qed (use assms in \<open>simp_all add: frees_slot_def\<close>)

lemma run_gen:
  assumes "ht_ok t" "ht_run t ops = Some (t', outs)" "s < length (ht_slots t)"
  shows "ht_ok t' \<and> s < length (ht_slots t') \<and>
    sl_gen (ht_slots t' ! s) = (next_gen ^^ slot_frees s ops outs) (sl_gen (ht_slots t ! s))"
  using assms
proof (induction ops arbitrary: t outs)
  case Nil
  then show ?case by (simp add: slot_frees_def)
next
  case (Cons op ops)
  from Cons.prems(2) obtain t1 out outs1 where r: "table_step ht_insert ht_remove t op = Some (t1, out)"
    "ht_run t1 ops = Some (t', outs1)" "outs = out # outs1" by (auto simp: bind_Some_iff)
  note s = table_step_gen[OF Cons.prems(1) r(1) Cons.prems(3)]
  from Cons.IH[OF _ r(2)] s r(3) show ?case by (simp add: slot_frees_def funpow_swap1)
qed

lemma run_oldest_first:
  assumes "ht_ok t" "ht_run t ops = Some (t', outs)" "k < length (issued outs)" "k < length (ht_free t)"
  shows "slot_idx (issued outs ! k) = unat (ht_free t ! k)"
  using assms
proof (induction ops arbitrary: t outs k)
  case (Cons op ops)
  from Cons.prems(2) obtain t1 out outs1 where r: "table_step ht_insert ht_remove t op = Some (t1, out)"
    "ht_run t1 ops = Some (t', outs1)" "outs = out # outs1" by (auto simp: bind_Some_iff)
  from Cons.prems(1) r(1) show ?case
  proof (cases rule: table_step_cases)
    case (issued v h)
    with Cons.prems(4) obtain w ws where f: "ht_free t = w # ws" "slot_idx h = unat w" "ht_free t1 = ws"
      by (cases "ht_free t") (auto simp: issues_def)
    with Cons.IH[OF issued(3) r(2), of "k - 1"] Cons.prems(3,4) issued(2) r(3) show ?thesis
      by (cases k) auto
  next
    case (freed h v)
    then have "ht_free t1 = ht_free t @ [word_of_nat (slot_idx h)]" by (simp add: frees_def)
    with Cons.IH[OF freed(3) r(2), of k] Cons.prems(3,4) freed(2) r(3) show ?thesis by (simp add: nth_append)
  qed (use Cons r in auto)
qed simp

text \<open>The generations of a slot go round in a cycle of 255.\<close>

lemma unat_next_gen:
  assumes "g \<noteq> 0"
  shows "unat (next_gen g) = unat g mod 255 + 1"
proof (cases "g = 255")
  case False
  then have "g + 1 \<noteq> 0" using eq_neg_iff_add_eq_0[of g 1] by auto
  then have "unat (g + 1) = unat g + 1" by (simp add: unatSuc add.commute)
  moreover have "unat g \<noteq> 255" using False word_unat_eq_iff[of g 255] by simp
  ultimately show ?thesis using False unsigned_less[of g, where 'a = nat] by (simp add: next_gen_def)
qed (simp add: next_gen_def)

lemma unat_gens:
  assumes "g \<noteq> 0"
  shows "(next_gen ^^ k) g \<noteq> 0 \<and> unat ((next_gen ^^ k) g) = (unat g - 1 + k) mod 255 + 1"
proof (induction k)
  case 0
  have "0 < unat g" "unat g < 256" using assms unsigned_less[of g, where 'a = nat] by (simp_all add: unat_gt_0)
  then show ?case using assms by simp
next
  case (Suc k)
  then have "unat (next_gen ((next_gen ^^ k) g)) = Suc ((unat g - 1 + k) mod 255) mod 255 + 1"
    using unat_next_gen by simp
  then show ?case using next_gen(1) by (simp add: mod_Suc_eq)
qed

lemma gens_differ:
  assumes "g \<noteq> 0" "0 < k" "k < 255"
  shows "(next_gen ^^ k) g \<noteq> g"
proof
  assume eq: "(next_gen ^^ k) g = g"
  from unat_gens[OF assms(1), of k] have "unat g = (unat g - 1 + k) mod 255 + 1" unfolding eq by blast
  moreover have "0 < unat g" "unat g < 256" using assms(1) unsigned_less[of g, where 'a = nat] by (simp_all add: unat_gt_0)
  ultimately have "(unat g - 1 + k) mod 255 = (unat g - 1) mod 255" by simp
  then have "255 dvd k" by (metis add_diff_cancel_left' le_add1 mod_eq_dvd_iff_nat)
  then show False using assms(2,3) by (auto dest: dvd_imp_le)
qed

section \<open>Draining the table\<close>

lemma remove_all:
  assumes "ht_ok t" "distinct hs"
  shows "\<exists>t'. ht_remove_all hs t = Some (t', List.map_filter (ht_get t) hs) \<and> ht_ok t' \<and>
    ht_get t' = (\<lambda>h. if h \<in> set hs then None else ht_get t h)"
  using assms
proof (induction hs arbitrary: t)
  case (Cons h hs)
  from ht_remove_ok[OF Cons.prems(1), of h] obtain t1 where t1: "ht_remove h t = Some (t1, ht_get t h)" "ht_ok t1"
    "ht_get t1 = (ht_get t)(h := None)" by blast
  from Cons.IH[OF t1(2)] Cons.prems(2) obtain t2 where t2: "ht_remove_all hs t1 = Some (t2, List.map_filter (ht_get t1) hs)"
    "ht_ok t2" "ht_get t2 = (\<lambda>h. if h \<in> set hs then None else ht_get t1 h)" by auto
  have "List.map_filter (ht_get t1) hs = List.map_filter (ht_get t) hs"
    using Cons.prems(2) by (auto simp: t1(3) List.map_filter_def intro!: map_cong filter_cong)
  with t1 t2 show ?case by (auto simp: List.map_filter_simps split: option.split)
qed (simp add: List.map_filter_simps)

lemma ht_iter_eq:
  "ht_iter t = map (\<lambda>i. (slot_handle t i, the (sl_val (ht_slots t ! i))))
     (filter (\<lambda>i. sl_val (ht_slots t ! i) \<noteq> None) [0..<length (ht_slots t)])"
proof -
  have e: "enumerate 0 (ht_slots t) = map (\<lambda>i. (i, ht_slots t ! i)) [0..<length (ht_slots t)]"
    by (rule nth_equalityI) (simp_all add: nth_enumerate_eq)
  show ?thesis
    by (auto simp: ht_iter_def e List.map_filter_def comp_def filter_map slot_handle_def intro!: map_cong filter_cong)
qed

lemma ht_iter_ok:
  assumes "ht_ok t"
  shows "distinct (map fst (ht_iter t))" "set (map fst (ht_iter t)) = dom (ht_get t)" "(h, v) \<in> set (ht_iter t) \<Longrightarrow> ht_get t h = Some v"
proof -
  have i: "slot_idx (slot_handle t i) = i" "gen_of (slot_handle t i) = sl_gen (ht_slots t ! i)" "\<not> sint (slot_handle t i) < 0"
    if "i < length (ht_slots t)" for i
    using handle_fields[of i] that ht_okD(2)[OF assms] by (simp_all add: slot_handle_def)
  show "distinct (map fst (ht_iter t))"
    by (simp add: ht_iter_eq distinct_map comp_def) (rule inj_on_inverseI[of _ slot_idx], use i in auto)
  show get: "ht_get t h = Some v" if "(h, v) \<in> set (ht_iter t)" for h v
    using that i by (auto simp: ht_iter_eq ht_get_slot)
  show "set (map fst (ht_iter t)) = dom (ht_get t)"
  proof
    show "set (map fst (ht_iter t)) \<subseteq> dom (ht_get t)" using get by auto
    show "dom (ht_get t) \<subseteq> set (map fst (ht_iter t))"
    proof
      fix h assume "h \<in> dom (ht_get t)"
      then have s: "slot_idx h < length (ht_slots t)" "sl_gen (ht_slots t ! slot_idx h) = gen_of h"
        "sl_val (ht_slots t ! slot_idx h) \<noteq> None" "\<not> sint h < 0"
        by (auto simp: ht_get_slot nth_opt_Some_iff split: if_splits option.splits)
      then have "slot_handle t (slot_idx h) = h" using i[OF s(1)] by (intro same_handle) auto
      with s show "h \<in> set (map fst (ht_iter t))" by (force simp: ht_iter_eq)
    qed
  qed
qed

text \<open>Draining empties the table and returns every value, in the order of the slots.\<close>

lemma ht_drain_ok:
  assumes "ht_ok t"
  shows "\<exists>t'. ht_drain t = Some (t', map snd (ht_iter t)) \<and> ht_ok t' \<and> ht_get t' = Map.empty \<and> ht_is_empty t'"
proof -
  from remove_all[OF assms ht_iter_ok(1)[OF assms]] obtain t' where
    t': "ht_drain t = Some (t', List.map_filter (ht_get t) (map fst (ht_iter t)))" "ht_ok t'"
      "ht_get t' = (\<lambda>h. if h \<in> set (map fst (ht_iter t)) then None else ht_get t h)" by (auto simp: ht_drain_def)
  have "List.map_filter (ht_get t) (map fst xs) = map snd xs" if "set xs \<subseteq> set (ht_iter t)" for xs
    using that ht_iter_ok(3)[OF assms] by (induction xs) (auto simp: List.map_filter_simps)
  moreover have "ht_get t' = Map.empty" using t'(3) ht_iter_ok(2)[OF assms] by auto
  moreover from this have "ht_is_empty t'" using dom_get_card[OF t'(2)] by (simp add: ht_is_empty_def)
  ultimately show ?thesis using t'(1,2) by auto
qed

section \<open>Properties\<close>

text \<open>
  C14: every sequence of insertions and removals on a new table runs without a panic and answers as a
  finite map that issues its own keys: an insertion issues a positive handle that names nothing yet,
  or reports a full table exactly when the capacity is live; a removal returns what the handle
  names. The reported length is the number of valid handles.
\<close>

theorem handle_table_refines_map:
  "\<exists>t outs. ht_run ht_new ops = Some (t, outs) \<and> map_runs MAX_LIVE Map.empty ops outs (ht_get t) \<and>
     list_all (\<lambda>h. 0 < sint h) (issued outs) \<and> ht_len t = card (dom (ht_get t))"
proof -
  from handles.run_refines[OF ht_ok_new, of ops] obtain t outs where
    r: "ht_run ht_new ops = Some (t, outs)" "ht_ok t" "map_runs MAX_LIVE (ht_get ht_new) ops outs (ht_get t)"
      "\<forall>h. Issued h \<in> set outs \<longrightarrow> 0 < sint h" by blast
  have "set (issued os) \<subseteq> {h. Issued h \<in> set os}" for os :: "(32 word, 'a) table_out list"
    by (induction os rule: issued.induct) auto
  with r dom_get_card[OF r(2)] show ?thesis by (force simp: ht_get_new list_all_iff ht_len_def)
qed

text \<open>
  C21: a removed handle stays invalid, whatever is inserted and removed afterwards, as long as its
  slot is freed fewer than 254 more times: a stale handle misses instead of naming the next
  occupant of its slot.
\<close>

theorem stale_handles_miss:
  assumes "ht_ok t" "ht_remove h t = Some (t1, Some v)" "ht_run t1 ops = Some (t2, outs)"
    and "slot_frees (slot_idx h) ops outs < 254"
  shows "ht_get t2 h = None"
proof -
  from ht_remove_ok[OF assms(1), of h] assms(2) have t1: "ht_ok t1" "frees t h t1" by (auto split: if_splits)
  then have h: "slot_idx h < length (ht_slots t)" "sl_gen (ht_slots t ! slot_idx h) = gen_of h"
    "map sl_gen (ht_slots t1) = (map sl_gen (ht_slots t))[slot_idx h := next_gen (gen_of h)]" by (auto simp: frees_def)
  have len: "slot_idx h < length (ht_slots t1)" using arg_cong[OF h(3), of length] h(1) by simp
  have "sl_gen (ht_slots t1 ! slot_idx h) = next_gen (gen_of h)"
    using arg_cong[OF h(3), of "\<lambda>xs. xs ! slot_idx h"] h(1) len by simp
  with run_gen[OF t1(1) assms(3) len] have "slot_idx h < length (ht_slots t2)"
    "sl_gen (ht_slots t2 ! slot_idx h) = (next_gen ^^ Suc (slot_frees (slot_idx h) ops outs)) (gen_of h)"
    by (auto simp: funpow_swap1)
  moreover have "gen_of h \<noteq> 0" using ht_okD(3)[OF assms(1) h(1)] h(2) by simp
  ultimately show ?thesis
    using gens_differ[of "gen_of h" "Suc (slot_frees (slot_idx h) ops outs)"] assms(4) by (auto simp: ht_get_slot simp del: funpow.simps)
qed

definition sample_table :: "nat handle_table" where
  "sample_table = \<lparr>ht_slots = [\<lparr>sl_gen = 1, sl_val = Some 7\<rparr>, \<lparr>sl_gen = 3, sl_val = None\<rparr>], ht_free = [1], ht_live = 1\<rparr>"

lemma sample_table_ok: "ht_ok sample_table"
proof -
  have "free_slots sample_table = {1}" "live_slots sample_table = {0}"
    by (auto simp: free_slots_def live_slots_def sample_table_def less_Suc_eq)
  then show ?thesis by (simp add: ht_ok_def) (simp add: sample_table_def max_live)
qed

definition sample_freed :: "nat handle_table" where
  "sample_freed = \<lparr>ht_slots = [\<lparr>sl_gen = 2, sl_val = None\<rparr>, \<lparr>sl_gen = 3, sl_val = None\<rparr>], ht_free = [1, 0], ht_live = 0\<rparr>"

lemma sample_table_freed: "ht_remove 0x800000 sample_table = Some (sample_freed, Some 7)"
  by code_simp

lemma sample_freed_run:
  "map_option snd (ht_run sample_freed [T_Insert 8, T_Insert 9]) = Some [Issued 0x1800001, Issued 0x1000000]"
  by code_simp

theorem stale_handles_miss_witness:
  "\<exists>t2. map_option fst (ht_run sample_freed [T_Insert 8, T_Insert 9]) = Some t2 \<and> ht_get t2 0x800000 = None"
proof -
  from sample_freed_run obtain t2 where r: "ht_run sample_freed [T_Insert 8, T_Insert 9] = Some (t2, [Issued 0x1800001, Issued 0x1000000])"
    by auto
  from stale_handles_miss[OF sample_table_ok sample_table_freed r] r show ?thesis
    by (simp add: slot_frees_def frees_slot_def)
qed

text \<open>
  C22: free slots come back oldest first: after a handle is removed while n slots are free, the next
  n handles issued, whatever else is removed in between, take other slots, and the one after them
  takes the slot of the removed handle.
\<close>

theorem slots_reused_oldest_first:
  assumes "ht_ok t" "ht_remove h t = Some (t1, Some v)" "ht_run t1 ops = Some (t2, outs)"
    and "k < length (issued outs)" "k \<le> length (ht_free t)"
  shows "slot_idx (issued outs ! k) = slot_idx h \<longleftrightarrow> k = length (ht_free t)"
proof -
  from ht_remove_ok[OF assms(1), of h] assms(2) have t1: "ht_ok t1" "frees t h t1" by (auto split: if_splits)
  then have f: "ht_free t1 = ht_free t @ [word_of_nat (slot_idx h)]" "slot_idx h < length (ht_slots t)" by (auto simp: frees_def)
  have u: "unat (word_of_nat (slot_idx h) :: 32 word) = slot_idx h"
    using f(2) ht_okD(2)[OF assms(1)] by (intro unat_index) simp
  have k: "slot_idx (issued outs ! k) = unat (ht_free t1 ! k)"
    by (rule run_oldest_first[OF t1(1) assms(3,4)]) (simp add: f(1) assms(5) less_Suc_eq_le)
  have "distinct (map unat (ht_free t1))" using t1(1) by (simp add: ht_ok_def)
  from nth_eq_iff_index_eq[OF this, of k "length (ht_free t)"] assms(5)
  have "unat (ht_free t1 ! k) = unat (ht_free t1 ! length (ht_free t)) \<longleftrightarrow> k = length (ht_free t)"
    by (simp add: f(1) nth_append split: if_splits)
  then show ?thesis by (simp add: k f(1) u)
qed

theorem slots_reused_oldest_first_witness:
  "slot_idx (issued [Issued 0x1800001, Issued 0x1000000 :: (32 word, nat) table_out] ! 1) = slot_idx 0x800000"
proof -
  from sample_freed_run obtain t2 where r: "ht_run sample_freed [T_Insert 8, T_Insert 9] = Some (t2, [Issued 0x1800001, Issued 0x1000000])"
    by auto
  from slots_reused_oldest_first[OF sample_table_ok sample_table_freed r, of 1] show ?thesis by (simp add: sample_table_def)
qed

end
