(* ===== verification/Wire_Format.thy ===== *)
theory Wire_Format
  imports Dream_Prelude "HOL-Library.Word"
begin

unbundle bit_operations_syntax

text \<open>
  The little-endian records that host and guest exchange (\<open>crates/dream-host-abi/src/wire.rs\<close>): a
  reader that fails on short or malformed input and a writer. The contract of a field is a locale:
  the reader accepts exactly the encodings that the writer makes of the values that fit, and advances
  past them. It is interpreted for every kind of field and for whole records.
\<close>

section \<open>Bytes of integers\<close>

type_synonym byte = "8 word"

fun from_le :: "byte list \<Rightarrow> 'w::len word" where
  "from_le [] = 0"
| "from_le (b # bs) = ucast b OR push_bit 8 (from_le bs)"

fun to_le :: "nat \<Rightarrow> 'w::len word \<Rightarrow> byte list" where
  "to_le 0 w = []"
| "to_le (Suc n) w = ucast w # to_le n (drop_bit 8 w)"

section \<open>Text\<close>

text \<open>
  A Rust string is its sequence of Unicode scalar values; its bytes are their UTF-8 encodings, and
  the standard library accepts as text exactly the well-formed byte sequences of the Unicode
  standard, without overlong forms, surrogates and values past \<open>10FFFF\<close>.
\<close>

definition is_scalar :: "nat \<Rightarrow> bool" where
  "is_scalar c \<longleftrightarrow> c < 0xD800 \<or> 0xE000 \<le> c \<and> c < 0x110000"

definition utf8_char :: "nat \<Rightarrow> nat list" where
  "utf8_char c =
     (if c < 0x80 then [c]
      else if c < 0x800 then [0xC0 + c div 64, 0x80 + c mod 64]
      else if c < 0x10000 then [0xE0 + c div 4096, 0x80 + c div 64 mod 64, 0x80 + c mod 64]
      else [0xF0 + c div 262144, 0x80 + c div 4096 mod 64, 0x80 + c div 64 mod 64, 0x80 + c mod 64])"

definition as_bytes :: "nat list \<Rightarrow> byte list" where
  "as_bytes s = map word_of_nat (concat (map utf8_char s))"

definition is_cont :: "nat \<Rightarrow> bool" where
  "is_cont b \<longleftrightarrow> 0x80 \<le> b \<and> b < 0xC0"

text \<open>The first character of a byte sequence, and what follows it.\<close>

definition utf8_first :: "nat list \<Rightarrow> (nat \<times> nat list) option" where
  "utf8_first bs =
     (case bs of
        [] \<Rightarrow> None
      | a # bs1 \<Rightarrow>
          if a < 0x80 then Some (a, bs1)
          else case bs1 of
            [] \<Rightarrow> None
          | b # bs2 \<Rightarrow>
              if 0xC2 \<le> a \<and> a < 0xE0
              then (if is_cont b then Some ((a - 0xC0) * 64 + (b - 0x80), bs2) else None)
              else case bs2 of
                [] \<Rightarrow> None
              | c # bs3 \<Rightarrow>
                  if 0xE0 \<le> a \<and> a < 0xF0
                  then (if is_cont b \<and> is_cont c \<and> (a = 0xE0 \<longrightarrow> 0xA0 \<le> b) \<and> (a = 0xED \<longrightarrow> b < 0xA0)
                        then Some ((a - 0xE0) * 4096 + (b - 0x80) * 64 + (c - 0x80), bs3) else None)
                  else case bs3 of
                    [] \<Rightarrow> None
                  | d # bs4 \<Rightarrow>
                      if 0xF0 \<le> a \<and> a < 0xF5 \<and> is_cont b \<and> is_cont c \<and> is_cont d \<and>
                         (a = 0xF0 \<longrightarrow> 0x90 \<le> b) \<and> (a = 0xF4 \<longrightarrow> b < 0x90)
                      then Some ((a - 0xF0) * 262144 + (b - 0x80) * 4096 + (c - 0x80) * 64 + (d - 0x80), bs4)
                      else None)"

lemma utf8_first_shorter: "utf8_first bs = Some (c, rest) \<Longrightarrow> length rest < length bs"
  by (auto simp: utf8_first_def split: list.splits if_splits)

function utf8_decode :: "nat list \<Rightarrow> nat list option" where
  "utf8_decode bs =
     (if bs = [] then Some []
      else case utf8_first bs of
        None \<Rightarrow> None
      | Some (c, rest) \<Rightarrow> map_option (Cons c) (utf8_decode rest))"
  by pat_completeness auto
termination by (relation "measure length") (auto dest: utf8_first_shorter)

declare utf8_decode.simps [simp del]

definition from_utf8 :: "byte list \<Rightarrow> nat list option" where
  "from_utf8 bs = utf8_decode (map unat bs)"

section \<open>The reader\<close>

datatype malformed = Malformed

record reader =
  rd_bytes :: "byte list"
  rd_at :: nat

text \<open>A read returns the value or the error, and the reader it leaves.\<close>

type_synonym 'a read = "reader \<Rightarrow> (malformed + 'a) \<times> reader"

definition rok :: "'a \<Rightarrow> 'a read" where "rok x r = (Inr x, r)"

definition rfail :: "'a read" where "rfail r = (Inl Malformed, r)"

definition rbind :: "'a read \<Rightarrow> ('a \<Rightarrow> 'b read) \<Rightarrow> 'b read" where
  "rbind m k r = (case m r of (Inl e, r1) \<Rightarrow> (Inl e, r1) | (Inr x, r1) \<Rightarrow> k x r1)"

definition reader_new :: "byte list \<Rightarrow> reader" where
  "reader_new bs = \<lparr>rd_bytes = bs, rd_at = 0\<rparr>"

definition rd_take :: "nat \<Rightarrow> byte list read" where
  "rd_take count r =
     (let end = rd_at r + count in
      if 2 ^ 64 \<le> end then (Inl Malformed, r)
      else if end \<le> length (rd_bytes r)
      then (Inr (take count (drop (rd_at r) (rd_bytes r))), r\<lparr>rd_at := end\<rparr>)
      else (Inl Malformed, r))"

definition rd_u8 :: "byte read" where
  "rd_u8 = rbind (rd_take 1) (\<lambda>bs. rok (bs ! 0))"

definition rd_i32 :: "32 word read" where
  "rd_i32 = rbind (rd_take 4) (\<lambda>bs. rok (from_le [bs ! 0, bs ! 1, bs ! 2, bs ! 3]))"

definition rd_i64 :: "64 word read" where
  "rd_i64 = rbind rd_i32 (\<lambda>low. rbind rd_i32 (\<lambda>high. rok (ucast low OR push_bit 32 (ucast high))))"

definition rd_bytes_field :: "byte list read" where
  "rd_bytes_field = rbind rd_i32 (\<lambda>n. if sint n < 0 then rfail else rd_take (nat (sint n)))"

definition rd_text :: "nat list read" where
  "rd_text = rbind rd_bytes_field (\<lambda>bs. case from_utf8 bs of None \<Rightarrow> rfail | Some s \<Rightarrow> rok s)"

definition VERSION :: byte where "VERSION = 1"

record header =
  hdr_action :: byte
  hdr_id :: "32 word"
  hdr_timeout_ms :: "32 word"

definition HEADER_LEN :: nat where "HEADER_LEN = 10"

definition rd_header :: "header read" where
  "rd_header =
     rbind rd_u8 (\<lambda>v. if v \<noteq> VERSION then rfail
       else rbind rd_u8 (\<lambda>action. rbind rd_i32 (\<lambda>id. rbind rd_i32 (\<lambda>ms.
         if sint ms < 0 then rfail
         else rok \<lparr>hdr_action = action, hdr_id = id, hdr_timeout_ms = ms\<rparr>))))"

definition rd_finish :: "reader \<Rightarrow> malformed + unit" where
  "rd_finish r = (if rd_at r = length (rd_bytes r) then Inr () else Inl Malformed)"

section \<open>The writer\<close>

type_synonym writer = "byte list"

definition writer_new :: writer where "writer_new = []"

definition wr_u8 :: "byte \<Rightarrow> writer \<Rightarrow> writer" where
  "wr_u8 v w = w @ [v]"

definition wr_i32 :: "32 word \<Rightarrow> writer \<Rightarrow> writer" where
  "wr_i32 v w = w @ to_le 4 v"

definition wr_i64 :: "64 word \<Rightarrow> writer \<Rightarrow> writer" where
  "wr_i64 v w = w @ to_le 8 v"

definition wr_bytes :: "byte list \<Rightarrow> writer \<Rightarrow> writer" where
  "wr_bytes bs w =
     (let n = min (length bs) (2 ^ 31 - 1) in wr_i32 (word_of_nat n) w @ take n bs)"

definition wr_text :: "nat list \<Rightarrow> writer \<Rightarrow> writer" where
  "wr_text s w = wr_bytes (as_bytes s) w"

definition wr_finish :: "writer \<Rightarrow> byte list \<times> writer" where
  "wr_finish w = (w, [])"

section \<open>Text and its bytes\<close>

lemma join64: "y < 64 \<Longrightarrow> (x * 64 + y) div 64 = x" "y < 64 \<Longrightarrow> (x * 64 + y) mod 64 = (y :: nat)"
  by simp_all

lemma split64: "c div 64 * 64 + c mod 64 = (c :: nat)"
  by (rule div_mult_mod_eq)

lemma div_4096: "c div 4096 = c div 64 div (64 :: nat)" and div_262144: "c div 262144 = c div 64 div 64 div (64 :: nat)"
  by (simp_all add: div_mult2_eq)

lemma utf8_first_char:
  assumes "is_scalar c"
  shows "utf8_first (utf8_char c @ rest) = Some (c, rest)"
proof -
  let ?x = "c div 64" and ?y = "c div 64 div 64" and ?z = "c div 64 div 64 div 64"
  have m: "c mod 64 < 64" "?x mod 64 < 64" "?y mod 64 < 64" by simp_all
  have e: "?x * 64 + c mod 64 = c" "?y * 64 + ?x mod 64 = ?x" "?z * 64 + ?y mod 64 = ?y" by (rule split64)+
  consider (a) "c < 0x80" | (b) "0x80 \<le> c" "c < 0x800" | (c) "0x800 \<le> c" "c < 0x10000" | (d) "0x10000 \<le> c" "c < 0x110000"
    using assms by (fastforce simp: is_scalar_def)
  then show ?thesis
  proof cases
    case a
    then show ?thesis by (simp add: utf8_char_def utf8_first_def)
  next
    case b
    then have "2 \<le> ?x" "?x < 32" using e(1) m(1) by linarith+
    with b e m show ?thesis by (simp add: utf8_char_def utf8_first_def is_cont_def) (use b in auto)
  next
    case c
    then have x: "32 \<le> ?x" "?x < 1024" using e(1) m(1) by linarith+
    then have y: "?y < 16" "?y = 0 \<Longrightarrow> 32 \<le> ?x mod 64" using e(2) m(2) by linarith+
    have "\<not> (?y = 13 \<and> 32 \<le> ?x mod 64)"
    proof
      assume "?y = 13 \<and> 32 \<le> ?x mod 64"
      then have "864 \<le> ?x" "?x < 896" using e(2) m(2) by linarith+
      then have "0xD800 \<le> c" "c < 0xE000" using e(1) m(1) by linarith+
      with assms show False by (simp add: is_scalar_def)
    qed
    moreover have "?y * 4096 + ?x mod 64 * 64 + c mod 64 = c" using e(1,2) by linarith
    ultimately show ?thesis using c x y m
      by (simp add: utf8_char_def utf8_first_def is_cont_def div_4096) (use c y(2) in \<open>auto simp: not_le\<close>)
  next
    case d
    then have x: "1024 \<le> ?x" "?x < 17408" using e(1) m(1) by linarith+
    then have y: "16 \<le> ?y" "?y < 272" using e(2) m(2) by linarith+
    then have z: "?z < 5" "?z = 0 \<Longrightarrow> 16 \<le> ?y mod 64" "?z = 4 \<Longrightarrow> ?y mod 64 < 16" using e(3) m(3) by linarith+
    have "?z * 262144 + ?y mod 64 * 4096 + ?x mod 64 * 64 + c mod 64 = c" using e by linarith
    then show ?thesis using d x y z m
      by (simp add: utf8_char_def utf8_first_def is_cont_def div_4096 div_262144) (use z(2) in auto)
  qed
qed

lemma utf8_first_char_exact:
  assumes "utf8_first bs = Some (c, rest)"
  shows "is_scalar c \<and> bs = utf8_char c @ rest"
proof -
  consider (a) "c < 0x80" "bs = c # rest"
    | (b) a b where "0xC2 \<le> a" "a < 0xE0" "is_cont b" "bs = a # b # rest" "c = (a - 0xC0) * 64 + (b - 0x80)"
    | (c) a b d where "0xE0 \<le> a" "a < 0xF0" "is_cont b" "is_cont d" "a = 0xE0 \<longrightarrow> 0xA0 \<le> b" "a = 0xED \<longrightarrow> b < 0xA0"
        "bs = a # b # d # rest" "c = (a - 0xE0) * 4096 + (b - 0x80) * 64 + (d - 0x80)"
    | (d) a b d e where "0xF0 \<le> a" "a < 0xF5" "is_cont b" "is_cont d" "is_cont e" "a = 0xF0 \<longrightarrow> 0x90 \<le> b" "a = 0xF4 \<longrightarrow> b < 0x90"
        "bs = a # b # d # e # rest" "c = (a - 0xF0) * 262144 + (b - 0x80) * 4096 + (d - 0x80) * 64 + (e - 0x80)"
    using assms by (auto simp: utf8_first_def split: list.splits if_splits)
  then show ?thesis
  proof cases
    case a
    then show ?thesis by (simp add: is_scalar_def utf8_char_def)
  next
    case (b a b)
    define x y where "x = a - 0xC0" and "y = b - 0x80"
    with b have ab: "a = 0xC0 + x" "b = 0x80 + y" "2 \<le> x" "x < 32" "y < 64" "c = x * 64 + y" by (auto simp: is_cont_def)
    then show ?thesis using b(4) by (simp add: is_scalar_def utf8_char_def)
  next
    case (c a b d)
    define x y z where "x = a - 0xE0" and "y = b - 0x80" and "z = d - 0x80"
    with c have s: "a = 0xE0 + x" "b = 0x80 + y" "d = 0x80 + z" "x < 16" "y < 64" "z < 64"
      "x = 0 \<Longrightarrow> 32 \<le> y" "x = 13 \<Longrightarrow> y < 32" by (auto simp: is_cont_def)
    have v: "c = (x * 64 + y) * 64 + z" using c(8) by (simp add: s(1-3) algebra_simps)
    have r: "2048 \<le> c" "c < 65536" using s(4-7) by (cases "x = 0"; simp add: v)+
    moreover have "is_scalar c" using s(4-8) r by (cases "x < 13"; cases "x = 13"; simp add: is_scalar_def v)
    moreover have "c div 64 = x * 64 + y" "c mod 64 = z" unfolding v using s(6) by (rule join64)+
    ultimately show ?thesis using s(5) c(7) by (simp add: utf8_char_def div_4096 s(1-3))
  next
    case (d a b d e)
    define x y z w where "x = a - 0xF0" and "y = b - 0x80" and "z = d - 0x80" and "w = e - 0x80"
    with d have s: "a = 0xF0 + x" "b = 0x80 + y" "d = 0x80 + z" "e = 0x80 + w" "x < 5" "y < 64" "z < 64" "w < 64"
      "x = 0 \<Longrightarrow> 16 \<le> y" "x = 4 \<Longrightarrow> y < 16" by (auto simp: is_cont_def)
    have v: "c = ((x * 64 + y) * 64 + z) * 64 + w" using d(9) by (simp add: s(1-4) algebra_simps)
    have "65536 \<le> c" using s(5-9) by (cases "x = 0"; simp add: v)
    moreover have "c < 1114112" using s(5-8,10) by (cases "x = 4"; simp add: v)
    moreover have q: "c div 64 = (x * 64 + y) * 64 + z" "c mod 64 = w" unfolding v using s(8) by (rule join64)+
    moreover have "c div 64 div 64 = x * 64 + y" "c div 64 mod 64 = z" unfolding q using s(7) by (rule join64)+
    ultimately show ?thesis using s(6) d(8) by (simp add: utf8_char_def div_4096 div_262144 is_scalar_def s(1-4))
  qed
qed


lemma utf8_decode_exact: "utf8_decode bs = Some s \<longleftrightarrow> list_all is_scalar s \<and> bs = concat (map utf8_char s)"
proof (induction bs arbitrary: s rule: utf8_decode.induct)
  case (1 bs)
  show ?case
  proof (cases "bs = []")
    case True
    have "utf8_char c \<noteq> []" for c by (simp add: utf8_char_def)
    with True show ?thesis by (cases s) (auto simp: utf8_decode.simps[of "[]"])
  next
    case False
    show ?thesis
    proof
      assume "utf8_decode bs = Some s"
      with False obtain c rest s' where f: "utf8_first bs = Some (c, rest)" "utf8_decode rest = Some s'" "s = c # s'"
        by (auto simp: utf8_decode.simps[of bs] split: option.splits)
      from "1.IH"[OF False f(1) refl, of s'] f utf8_first_char_exact[OF f(1)]
      show "list_all is_scalar s \<and> bs = concat (map utf8_char s)" by simp
    next
      assume r: "list_all is_scalar s \<and> bs = concat (map utf8_char s)"
      with False obtain c s' where s: "s = c # s'" by (cases s) auto
      with r have f: "utf8_first bs = Some (c, concat (map utf8_char s'))" using utf8_first_char by simp
      from "1.IH"[OF False f refl, of s'] r s have "utf8_decode (concat (map utf8_char s')) = Some s'" by simp
      then show "utf8_decode bs = Some s" by (subst utf8_decode.simps) (simp add: False f s)
    qed
  qed
qed

lemma utf8_char_bytes: "is_scalar c \<Longrightarrow> b \<in> set (utf8_char c) \<Longrightarrow> b < 256"
proof -
  assume c: "is_scalar c" and b: "b \<in> set (utf8_char c)"
  have m: "c mod 64 < 64" "c div 64 mod 64 < 64" "c div 4096 mod 64 < 64" by simp_all
  have "c < 0x800 \<Longrightarrow> c div 64 < 32" "c < 0x10000 \<Longrightarrow> c div 4096 < 16" "c div 262144 < 5"
    using c by (auto simp: is_scalar_def div_less_iff_less_mult)
  with m b show ?thesis by (auto simp: utf8_char_def split: if_splits)
qed

lemma from_utf8_exact: "from_utf8 bs = Some s \<longleftrightarrow> list_all is_scalar s \<and> bs = as_bytes s"
proof -
  have inv: "map unat (map word_of_nat ns :: byte list) = ns" if "\<forall>n \<in> set ns. n < 256" for ns
    using that by (induction ns) (simp_all add: unsigned_of_nat take_bit_nat_eq_self)
  have id: "map word_of_nat (map unat bs) = bs" by (simp add: map_idI)
  show ?thesis
  proof
    assume "from_utf8 bs = Some s"
    then have "list_all is_scalar s" "map unat bs = concat (map utf8_char s)" by (simp_all add: from_utf8_def utf8_decode_exact)
    with id show "list_all is_scalar s \<and> bs = as_bytes s" by (metis as_bytes_def)
  next
    assume s: "list_all is_scalar s \<and> bs = as_bytes s"
    then have "\<forall>n \<in> set (concat (map utf8_char s)). n < 256" by (auto simp: list_all_iff dest: utf8_char_bytes)
    from inv[OF this] s have "map unat bs = concat (map utf8_char s)" by (simp only: as_bytes_def)
    with s show "from_utf8 bs = Some s" by (simp add: from_utf8_def utf8_decode_exact)
  qed
qed

section \<open>Integers and their bytes\<close>

lemma length_to_le [simp]: "length (to_le n w) = n"
  by (induction n arbitrary: w) simp_all

lemma bit_from_le:
  "bit (from_le bs :: 'w::len word) n \<longleftrightarrow> n < LENGTH('w) \<and> n div 8 < length bs \<and> bit (bs ! (n div 8)) (n mod 8)"
proof (induction bs arbitrary: n)
  case (Cons b bs)
  show ?case
  proof (cases "n < 8")
    case True
    then show ?thesis by (auto simp: bit_simps)
  next
    case False
    then have d: "n div 8 = Suc ((n - 8) div 8)" "n mod 8 = (n - 8) mod 8" by (simp_all add: le_div_geq le_mod_geq)
    have "\<not> bit b n" using False bit_imp_le_length[of b n] by auto
    with False Cons.IH[of "n - 8"] show ?thesis by (auto simp: bit_simps d)
  qed
qed simp

lemma nth_to_le: "k < n \<Longrightarrow> to_le n w ! k = ucast (drop_bit (8 * k) w)"
proof (induction n arbitrary: w k)
  case (Suc n)
  then show ?case by (cases k) (simp_all add: ac_simps)
qed simp

lemma from_to_le:
  fixes w :: "'w::len word"
  assumes "LENGTH('w) = 8 * n"
  shows "from_le (to_le n w) = w"
proof (rule bit_word_eqI)
  fix k assume k: "k < LENGTH('w)"
  then have d: "k div 8 < n" "8 * (k div 8) + k mod 8 = k" using assms by (auto simp: div_less_iff_less_mult)
  with k show "bit (from_le (to_le n w) :: 'w word) k = bit w k" by (simp add: bit_from_le nth_to_le bit_simps)
qed

lemma to_from_le:
  assumes "LENGTH('w::len) = 8 * length bs"
  shows "to_le (length bs) (from_le bs :: 'w word) = bs"
proof (rule nth_equalityI)
  fix k assume "k < length (to_le (length bs) (from_le bs :: 'w word))"
  then have k: "k < length bs" by simp
  show "to_le (length bs) (from_le bs :: 'w word) ! k = bs ! k"
  proof (rule bit_word_eqI)
    fix n assume n: "n < LENGTH(8)"
    then have "8 * k + n < LENGTH('w)" "(8 * k + n) div 8 = k" "(8 * k + n) mod 8 = n" using k assms by auto
    with k n show "bit (to_le (length bs) (from_le bs :: 'w word) ! k) n = bit (bs ! k) n"
      by (simp add: nth_to_le bit_simps bit_from_le)
  qed
qed simp

section \<open>The contract of a field\<close>

definition reader_ok :: "reader \<Rightarrow> bool" where
  "reader_ok r \<longleftrightarrow> rd_at r \<le> length (rd_bytes r) \<and> length (rd_bytes r) < 2 ^ 64"

definition rest :: "reader \<Rightarrow> byte list" where
  "rest r = drop (rd_at r) (rd_bytes r)"

definition advance :: "nat \<Rightarrow> reader \<Rightarrow> reader" where
  "advance n r = r\<lparr>rd_at := rd_at r + n\<rparr>"

lemma rest_advance [simp]: "rest (advance n r) = drop n (rest r)"
  by (simp add: rest_def advance_def add.commute)

lemma advance_advance [simp]: "advance n (advance m r) = advance (m + n) r"
  by (simp add: advance_def)

lemma reader_ok_advance: "reader_ok r \<Longrightarrow> rest r = bs @ ts \<Longrightarrow> reader_ok (advance (length bs) r)"
proof -
  assume r: "reader_ok r" and s: "rest r = bs @ ts"
  from arg_cong[OF s, of length] r show ?thesis by (auto simp: reader_ok_def rest_def advance_def)
qed

lemma reader_new_ok: "length bs < 2 ^ 64 \<Longrightarrow> reader_ok (reader_new bs)" "rest (reader_new bs) = bs"
  by (simp_all add: reader_ok_def reader_new_def rest_def)

lemma rbind_Inr: "rbind m k r = (Inr y, r') \<longleftrightarrow> (\<exists>x r1. m r = (Inr x, r1) \<and> k x r1 = (Inr y, r'))"
  by (auto simp: rbind_def split: prod.splits sum.splits)

lemma rok_Inr [simp]: "rok x r = (Inr y, r') \<longleftrightarrow> y = x \<and> r' = r"
  by (auto simp: rok_def)

lemma rfail_Inr [simp]: "rfail r \<noteq> (Inr y, r')"
  by (simp add: rfail_def)

definition read_record :: "'a read \<Rightarrow> byte list \<Rightarrow> malformed + 'a" where
  "read_record rd bs =
     (case rd (reader_new bs) of
        (Inl e, _) \<Rightarrow> Inl e
      | (Inr x, r) \<Rightarrow> (case rd_finish r of Inl e \<Rightarrow> Inl e | Inr _ \<Rightarrow> Inr x))"

locale wire_codec =
  fixes enc :: "'a \<Rightarrow> byte list" and rd :: "'a read" and fits :: "'a \<Rightarrow> bool"
  assumes reads: "reader_ok r \<Longrightarrow>
    rd r = (Inr x, r') \<longleftrightarrow> fits x \<and> (\<exists>ts. rest r = enc x @ ts) \<and> r' = advance (length (enc x)) r"
begin

lemma reads_ok: "reader_ok r \<Longrightarrow> rd r = (Inr x, r') \<Longrightarrow> reader_ok r'"
  using reads reader_ok_advance by auto

text \<open>No encoding is a prefix of another.\<close>

lemma prefix_free:
  assumes "fits x" "fits y" "enc x @ ts = enc y @ ts'" "length (enc x @ ts) < 2 ^ 64"
  shows "x = y"
proof -
  let ?r = "reader_new (enc x @ ts)"
  have ok: "reader_ok ?r" using assms(4) by (rule reader_new_ok(1))
  have "rd ?r = (Inr x, advance (length (enc x)) ?r)"
    unfolding reads[OF ok] reader_new_ok(2) using assms(1) by blast
  moreover have "rd ?r = (Inr y, advance (length (enc y)) ?r)"
    unfolding reads[OF ok] reader_new_ok(2) using assms(2,3) by blast
  ultimately show ?thesis by simp
qed

lemma record_exact:
  assumes "length bs < 2 ^ 64"
  shows "read_record rd bs = Inr x \<longleftrightarrow> fits x \<and> bs = enc x"
proof -
  note r = reads[OF reader_new_ok(1)[OF assms], unfolded reader_new_ok(2)]
  have fin: "rd_finish (advance n (reader_new bs)) = Inr () \<longleftrightarrow> n = length bs" for n
    by (simp add: rd_finish_def advance_def reader_new_def)
  have "read_record rd bs = Inr x \<longleftrightarrow> (\<exists>r'. rd (reader_new bs) = (Inr x, r') \<and> rd_finish r' = Inr ())"
    by (auto simp: read_record_def split: prod.splits sum.splits)
  also have "\<dots> \<longleftrightarrow> fits x \<and> (\<exists>ts. bs = enc x @ ts) \<and> length (enc x) = length bs" unfolding r using fin by auto
  also have "\<dots> \<longleftrightarrow> fits x \<and> bs = enc x" by auto
  finally show ?thesis .
qed

end

section \<open>The fields\<close>

lemma rd_take_reads:
  assumes "reader_ok r"
  shows "rd_take n r = (Inr bs, r') \<longleftrightarrow> length bs = n \<and> (\<exists>ts. rest r = bs @ ts) \<and> r' = advance (length bs) r"
proof -
  have "rd_at r + n \<le> length (rd_bytes r) \<longleftrightarrow> n \<le> length (rest r)" using assms by (auto simp: reader_ok_def rest_def)
  then have "rd_take n r = (if n \<le> length (rest r) then (Inr (take n (rest r)), advance n r) else (Inl Malformed, r))"
    using assms by (auto simp: rd_take_def reader_ok_def rest_def advance_def Let_def)
  moreover have "n \<le> length xs \<and> take n xs = bs \<longleftrightarrow> length bs = n \<and> (\<exists>ts. xs = bs @ ts)" for xs
    by (auto simp: min_def) (metis append_take_drop_id)
  ultimately show ?thesis by (auto split: if_splits)
qed

interpretation chunk: wire_codec "\<lambda>bs. bs" "rd_take n" "\<lambda>bs. length bs = n" for n
  by unfold_locales (rule rd_take_reads)

interpretation u8: wire_codec "\<lambda>v. [v]" rd_u8 "\<lambda>_. True"
  by unfold_locales (auto simp: rd_u8_def rbind_Inr chunk.reads length_Suc_conv)

lemma four_bytes: "length bs = 4 \<Longrightarrow> from_le [bs ! 0, bs ! 1, bs ! 2, bs ! 3] = from_le bs"
  by (rule arg_cong[of _ _ from_le]) (auto simp: length_Suc_conv numeral_eq_Suc)

interpretation i32: wire_codec "to_le 4" rd_i32 "\<lambda>_. True"
proof
  fix r r' and x :: "32 word"
  assume "reader_ok r"
  then have "rd_i32 r = (Inr x, r') \<longleftrightarrow> (\<exists>bs. length bs = 4 \<and> x = from_le bs \<and> (\<exists>ts. rest r = bs @ ts) \<and> r' = advance 4 r)"
    unfolding rd_i32_def rbind_Inr rok_Inr by (simp only: chunk.reads) (metis four_bytes)
  also have "\<dots> \<longleftrightarrow> (\<exists>ts. rest r = to_le 4 x @ ts) \<and> r' = advance 4 r"
  proof
    assume "\<exists>bs. length bs = 4 \<and> x = from_le bs \<and> (\<exists>ts. rest r = bs @ ts) \<and> r' = advance 4 r"
    then obtain bs where b: "length bs = 4" "x = from_le bs" "\<exists>ts. rest r = bs @ ts" "r' = advance 4 r" by blast
    with to_from_le[where 'w = 32, of bs] have "to_le 4 x = bs" by simp
    with b show "(\<exists>ts. rest r = to_le 4 x @ ts) \<and> r' = advance 4 r" by simp
  next
    assume "(\<exists>ts. rest r = to_le 4 x @ ts) \<and> r' = advance 4 r"
    moreover have "from_le (to_le 4 x) = x" by (rule from_to_le) simp
    ultimately show "\<exists>bs. length bs = 4 \<and> x = from_le bs \<and> (\<exists>ts. rest r = bs @ ts) \<and> r' = advance 4 r"
      by (intro exI[of _ "to_le 4 x"]) simp
  qed
  finally show "rd_i32 r = (Inr x, r') \<longleftrightarrow> True \<and> (\<exists>ts. rest r = to_le 4 x @ ts) \<and> r' = advance (length (to_le 4 x)) r" by simp
qed

text \<open>Two fields in a row, and a field read through a partial decoding of another.\<close>

locale codec_pair = a: wire_codec enc1 rd1 fits1 + b: wire_codec enc2 rd2 fits2
  for enc1 :: "'a \<Rightarrow> byte list" and rd1 :: "'a read" and fits1 :: "'a \<Rightarrow> bool"
    and enc2 :: "'b \<Rightarrow> byte list" and rd2 :: "'b read" and fits2 :: "'b \<Rightarrow> bool"
begin

sublocale pair: wire_codec "\<lambda>(x, y). enc1 x @ enc2 y" "rbind rd1 (\<lambda>x. rbind rd2 (\<lambda>y. rok (x, y)))" "\<lambda>(x, y). fits1 x \<and> fits2 y"
proof
  fix r r' and p :: "'a \<times> 'b" assume r: "reader_ok r"
  obtain x y where p: "p = (x, y)" by (cases p)
  have "rbind rd1 (\<lambda>x. rbind rd2 (\<lambda>y. rok (x, y))) r = (Inr p, r') \<longleftrightarrow> (\<exists>r1. rd1 r = (Inr x, r1) \<and> rd2 r1 = (Inr y, r'))"
    by (auto simp: rbind_Inr p)
  also have "\<dots> \<longleftrightarrow> fits1 x \<and> (\<exists>ts. rest r = enc1 x @ ts) \<and> rd2 (advance (length (enc1 x)) r) = (Inr y, r')"
    by (auto simp: a.reads[OF r])
  also have "\<dots> \<longleftrightarrow> fits1 x \<and> fits2 y \<and> (\<exists>ts. rest r = enc1 x @ enc2 y @ ts) \<and> r' = advance (length (enc1 x) + length (enc2 y)) r"
    using reader_ok_advance[OF r, of "enc1 x"] by (auto simp: b.reads)
  finally show "rbind rd1 (\<lambda>x. rbind rd2 (\<lambda>y. rok (x, y))) r = (Inr p, r') \<longleftrightarrow>
      (case p of (x, y) \<Rightarrow> fits1 x \<and> fits2 y) \<and> (\<exists>ts. rest r = (case p of (x, y) \<Rightarrow> enc1 x @ enc2 y) @ ts) \<and>
      r' = advance (length (case p of (x, y) \<Rightarrow> enc1 x @ enc2 y)) r"
    by (simp add: p)
qed

lemmas pair_codec = pair.wire_codec_axioms

end

locale codec_map = wire_codec enc rd fits
  for enc :: "'a \<Rightarrow> byte list" and rd :: "'a read" and fits :: "'a \<Rightarrow> bool" +
  fixes dec :: "'a \<Rightarrow> 'b option" and con :: "'b \<Rightarrow> 'a" and fits' :: "'b \<Rightarrow> bool"
  assumes decodes: "fits x \<and> dec x = Some y \<longleftrightarrow> fits' y \<and> x = con y"
begin

sublocale mapped: wire_codec "\<lambda>y. enc (con y)" "rbind rd (\<lambda>x. case dec x of None \<Rightarrow> rfail | Some y \<Rightarrow> rok y)" fits'
proof
  fix r r' y assume r: "reader_ok r"
  have "rbind rd (\<lambda>x. case dec x of None \<Rightarrow> rfail | Some y \<Rightarrow> rok y) r = (Inr y, r') \<longleftrightarrow>
      (\<exists>x. rd r = (Inr x, r') \<and> dec x = Some y)"
    by (auto simp: rbind_Inr split: option.splits)
  also have "\<dots> \<longleftrightarrow> (\<exists>x. (fits x \<and> dec x = Some y) \<and> (\<exists>ts. rest r = enc x @ ts) \<and> r' = advance (length (enc x)) r)"
    by (auto simp: reads[OF r])
  finally show "rbind rd (\<lambda>x. case dec x of None \<Rightarrow> rfail | Some y \<Rightarrow> rok y) r = (Inr y, r') \<longleftrightarrow>
      fits' y \<and> (\<exists>ts. rest r = enc (con y) @ ts) \<and> r' = advance (length (enc (con y))) r"
    unfolding decodes by auto
qed

end

interpretation two_i32: codec_pair "to_le 4" rd_i32 "\<lambda>_. True" "to_le 4" rd_i32 "\<lambda>_. True" ..

lemma word_halves:
  "ucast (low :: 32 word) OR push_bit 32 (ucast (high :: 32 word)) = (v :: 64 word) \<longleftrightarrow>
     low = ucast v \<and> high = ucast (drop_bit 32 v)"
proof
  assume v: "ucast low OR push_bit 32 (ucast high) = v"
  have "low = ucast v" by (rule bit_word_eqI) (simp add: v[symmetric] bit_simps)
  moreover have "high = ucast (drop_bit 32 v)"
    by (rule bit_word_eqI) (auto simp: v[symmetric] bit_simps dest: bit_imp_le_length)
  ultimately show "low = ucast v \<and> high = ucast (drop_bit 32 v)" by simp
next
  assume h: "low = ucast v \<and> high = ucast (drop_bit 32 v)"
  show "ucast low OR push_bit 32 (ucast high) = v"
    by (rule bit_word_eqI) (auto simp: h bit_simps)
qed

lemma to_le_8: "to_le 8 (v :: 64 word) = to_le 4 (ucast v :: 32 word) @ to_le 4 (ucast (drop_bit 32 v) :: 32 word)"
proof (rule nth_equalityI)
  fix k assume "k < length (to_le 8 v)"
  then have k: "k < 8" by simp
  show "to_le 8 v ! k = (to_le 4 (ucast v :: 32 word) @ to_le 4 (ucast (drop_bit 32 v) :: 32 word)) ! k"
  proof (cases "k < 4")
    case True
    with k show ?thesis by (auto simp: nth_append nth_to_le bit_simps intro!: bit_word_eqI)
  next
    case False
    then obtain j where "k = 4 + j" by (metis le_Suc_ex not_less)
    with k show ?thesis by (auto simp: nth_append nth_to_le bit_simps ac_simps intro!: bit_word_eqI)
  qed
qed simp

interpretation i64_of: codec_map "\<lambda>(x, y). to_le 4 x @ to_le 4 y" "rbind rd_i32 (\<lambda>x. rbind rd_i32 (\<lambda>y. rok (x, y)))"
  "\<lambda>(x, y). True \<and> True" "\<lambda>(low, high). Some (ucast low OR push_bit 32 (ucast high) :: 64 word)"
  "\<lambda>v. (ucast v, ucast (drop_bit 32 v))" "\<lambda>_. True"
proof
  fix x :: "32 word \<times> 32 word" and y :: "64 word"
  show "(case x of (x, y) \<Rightarrow> True \<and> True) \<and> (case x of (low, high) \<Rightarrow> Some (ucast low OR push_bit 32 (ucast high))) = Some y \<longleftrightarrow>
      True \<and> x = (ucast y, ucast (drop_bit 32 y))"
    using word_halves[of "fst x" "snd x" y] by (cases x) simp
qed

interpretation i64: wire_codec "to_le 8" rd_i64 "\<lambda>_. True"
proof -
  have "rbind (rbind rd_i32 (\<lambda>x. rbind rd_i32 (\<lambda>y. rok (x, y))))
      (\<lambda>x. case (case x of (low, high) \<Rightarrow> Some (ucast low OR push_bit 32 (ucast high))) of None \<Rightarrow> rfail | Some y \<Rightarrow> rok y) = rd_i64"
    by (rule ext) (auto simp: rd_i64_def rbind_def rok_def split: prod.split sum.split)
  with i64_of.mapped.wire_codec_axioms show "wire_codec (to_le 8) rd_i64 (\<lambda>_. True)"
    by (simp add: to_le_8[symmetric])
qed

text \<open>A run of bytes is its length and the bytes; it fits if the length is an \<open>i32\<close>.\<close>

definition enc_bytes :: "byte list \<Rightarrow> byte list" where
  "enc_bytes bs = to_le 4 (word_of_nat (length bs) :: 32 word) @ bs"

lemma i32_length:
  "nat (sint (n :: 32 word)) = k \<and> \<not> sint n < 0 \<longleftrightarrow> n = word_of_nat k \<and> k < 2 ^ 31"
proof
  assume n: "nat (sint n) = k \<and> \<not> sint n < 0"
  then have "int k = sint n" by (metis nat_0_le not_less)
  moreover have "n = word_of_int (sint n)" by simp
  moreover have "sint n < 2 ^ 31" using sint_lt[of n] by simp
  ultimately have "n = word_of_int (int k)" "int k < 2 ^ 31" by simp_all
  then show "n = word_of_nat k \<and> k < 2 ^ 31" by simp
next
  assume n: "n = word_of_nat k \<and> k < 2 ^ 31"
  then have "sint n = int k" by (simp add: signed_of_nat signed_take_bit_int_eq_self_iff)
  then show "nat (sint n) = k \<and> \<not> sint n < 0" by simp
qed

interpretation bytes_field: wire_codec enc_bytes rd_bytes_field "\<lambda>bs. length bs < 2 ^ 31"
proof
  fix r r' bs assume r: "reader_ok r"
  have "rd_bytes_field r = (Inr bs, r') \<longleftrightarrow>
      (\<exists>n r1. rd_i32 r = (Inr n, r1) \<and> \<not> sint n < 0 \<and> rd_take (nat (sint n)) r1 = (Inr bs, r'))"
    by (auto simp: rd_bytes_field_def rbind_Inr split: if_splits)
  also have "\<dots> \<longleftrightarrow> (\<exists>n :: 32 word. (\<exists>ts. rest r = to_le 4 n @ bs @ ts) \<and> (nat (sint n) = length bs \<and> \<not> sint n < 0) \<and>
      r' = advance (4 + length bs) r)" (is "?l \<longleftrightarrow> ?r")
  proof
    assume ?l
    then obtain n r1 where n: "rd_i32 r = (Inr n, r1)" "\<not> sint n < 0" "rd_take (nat (sint n)) r1 = (Inr bs, r')" by blast
    from n(1) obtain ts where ts: "rest r = to_le 4 n @ ts" "r1 = advance 4 r" by (auto simp: i32.reads[OF r])
    from n(3) chunk.reads[OF i32.reads_ok[OF r n(1)], of "nat (sint n)" bs r'] ts
    have "\<exists>ts. rest r = to_le 4 n @ bs @ ts" "nat (sint n) = length bs" "r' = advance (4 + length bs) r" by auto
    with n(2) show ?r by blast
  next
    assume ?r
    then obtain n :: "32 word" and ts where n: "rest r = to_le 4 n @ bs @ ts" "nat (sint n) = length bs" "\<not> sint n < 0" "r' = advance (4 + length bs) r"
      by blast
    then have i: "rd_i32 r = (Inr n, advance 4 r)" by (auto simp: i32.reads[OF r])
    moreover have "rd_take (nat (sint n)) (advance 4 r) = (Inr bs, r')"
      using n by (auto simp: chunk.reads[OF i32.reads_ok[OF r i]])
    ultimately show ?l using n(3) by blast
  qed
  finally show "rd_bytes_field r = (Inr bs, r') \<longleftrightarrow>
      length bs < 2 ^ 31 \<and> (\<exists>ts. rest r = enc_bytes bs @ ts) \<and> r' = advance (length (enc_bytes bs)) r"
    unfolding i32_length by (auto simp: enc_bytes_def)
qed

interpretation text_of: codec_map enc_bytes rd_bytes_field "\<lambda>bs. length bs < 2 ^ 31" from_utf8 as_bytes
  "\<lambda>s. list_all is_scalar s \<and> length (as_bytes s) < 2 ^ 31"
  by unfold_locales (auto simp: from_utf8_exact)

interpretation text_field: wire_codec "\<lambda>s. enc_bytes (as_bytes s)" rd_text "\<lambda>s. list_all is_scalar s \<and> length (as_bytes s) < 2 ^ 31"
  using text_of.mapped.wire_codec_axioms by (simp add: rd_text_def)

section \<open>Records\<close>

text \<open>What the operations of the writer append.\<close>

lemma writer_appends:
  "wr_u8 v w = w @ [v]" "wr_i32 i w = w @ to_le 4 i" "wr_i64 l w = w @ to_le 8 l"
  "length bs < 2 ^ 31 \<Longrightarrow> wr_bytes bs w = w @ enc_bytes bs"
  by (simp_all add: wr_u8_def wr_i32_def wr_i64_def wr_bytes_def enc_bytes_def min_def Let_def)

text \<open>The header as the guest writes it, and that its reader has the contract of a field.\<close>

definition enc_header :: "header \<Rightarrow> byte list" where
  "enc_header h = [VERSION, hdr_action h] @ to_le 4 (hdr_id h) @ to_le 4 (hdr_timeout_ms h)"

lemma length_enc_header: "length (enc_header h) = HEADER_LEN"
  by (simp add: enc_header_def HEADER_LEN_def)

lemma read_at:
  assumes "wire_codec e rd f" "reader_ok r" "rest r = bs @ ts"
  shows "rd (advance (length bs) r) = (Inr x, r') \<longleftrightarrow> f x \<and> (\<exists>ts'. ts = e x @ ts') \<and> r' = advance (length bs + length (e x)) r"
  using wire_codec.reads[OF assms(1) reader_ok_advance[OF assms(2,3)], of x r'] assms(3) by simp

interpretation header_field: wire_codec enc_header rd_header "\<lambda>h. \<not> sint (hdr_timeout_ms h) < 0"
proof
  fix r r' and h :: header assume r: "reader_ok r"
  show "rd_header r = (Inr h, r') \<longleftrightarrow>
      \<not> sint (hdr_timeout_ms h) < 0 \<and> (\<exists>ts. rest r = enc_header h @ ts) \<and> r' = advance (length (enc_header h)) r" (is "?l \<longleftrightarrow> ?r")
  proof
    assume ?l
    then obtain r1 a r2 id r3 ms where l: "rd_u8 r = (Inr VERSION, r1)" "rd_u8 r1 = (Inr a, r2)" "rd_i32 r2 = (Inr id, r3)"
      "rd_i32 r3 = (Inr ms, r')" "\<not> sint ms < 0" "h = \<lparr>hdr_action = a, hdr_id = id, hdr_timeout_ms = ms\<rparr>"
      by (auto simp: rd_header_def rbind_Inr split: if_splits)
    note r1 = u8.reads_ok[OF r l(1)]
    note r2 = u8.reads_ok[OF r1 l(2)]
    note r3 = i32.reads_ok[OF r2 l(3)]
    from l(1-4) show ?r
      unfolding u8.reads[OF r] u8.reads[OF r1] i32.reads[OF r2] i32.reads[OF r3]
      using l(5,6) by (auto simp: enc_header_def)
  next
    assume ?r
    then obtain ts where ts: "rest r = enc_header h @ ts" "r' = advance 10 r" "\<not> sint (hdr_timeout_ms h) < 0"
      by (auto simp: length_enc_header HEADER_LEN_def)
    let ?v = "[VERSION]" and ?a = "[VERSION, hdr_action h]" and ?i = "[VERSION, hdr_action h] @ to_le 4 (hdr_id h)"
    have "rd_u8 r = (Inr VERSION, advance 1 r)" using ts(1) by (simp add: u8.reads[OF r] enc_header_def)
    moreover have "rd_u8 (advance 1 r) = (Inr (hdr_action h), advance 2 r)"
      using read_at[OF u8.wire_codec_axioms r, of ?v] ts(1) by (simp add: enc_header_def numeral_2_eq_2)
    moreover have "rd_i32 (advance 2 r) = (Inr (hdr_id h), advance 6 r)"
      using read_at[OF i32.wire_codec_axioms r, of ?a] ts(1) by (simp add: enc_header_def numeral_2_eq_2)
    moreover have "rd_i32 (advance 6 r) = (Inr (hdr_timeout_ms h), advance 10 r)"
      using read_at[OF i32.wire_codec_axioms r, of ?i] ts(1) by (simp add: enc_header_def)
    ultimately show ?l using ts(2,3) by (auto simp: rd_header_def rbind_Inr)
  qed
qed

text \<open>Whole records: a list of fields, written one after the other and read by their types.\<close>

datatype field = F_u8 byte | F_i32 "32 word" | F_i64 "64 word" | F_bytes "byte list" | F_text "nat list"

datatype field_ty = Ty_u8 | Ty_i32 | Ty_i64 | Ty_bytes | Ty_text

fun field_ty_of :: "field \<Rightarrow> field_ty" where
  "field_ty_of (F_u8 _) = Ty_u8"
| "field_ty_of (F_i32 _) = Ty_i32"
| "field_ty_of (F_i64 _) = Ty_i64"
| "field_ty_of (F_bytes _) = Ty_bytes"
| "field_ty_of (F_text _) = Ty_text"

fun write_field :: "field \<Rightarrow> writer \<Rightarrow> writer" where
  "write_field (F_u8 v) = wr_u8 v"
| "write_field (F_i32 v) = wr_i32 v"
| "write_field (F_i64 v) = wr_i64 v"
| "write_field (F_bytes bs) = wr_bytes bs"
| "write_field (F_text s) = wr_text s"

definition read_as :: "('a \<Rightarrow> 'b) \<Rightarrow> 'a read \<Rightarrow> 'b read" where
  "read_as c rd = rbind rd (\<lambda>x. rok (c x))"

fun read_field :: "field_ty \<Rightarrow> field read" where
  "read_field Ty_u8 = read_as F_u8 rd_u8"
| "read_field Ty_i32 = read_as F_i32 rd_i32"
| "read_field Ty_i64 = read_as F_i64 rd_i64"
| "read_field Ty_bytes = read_as F_bytes rd_bytes_field"
| "read_field Ty_text = read_as F_text rd_text"

definition write_record :: "field list \<Rightarrow> byte list" where
  "write_record fs = fst (wr_finish (foldl (\<lambda>w f. write_field f w) writer_new fs))"

fun read_fields :: "field_ty list \<Rightarrow> field list read" where
  "read_fields [] = rok []"
| "read_fields (ty # tys) = rbind (read_field ty) (\<lambda>f. rbind (read_fields tys) (\<lambda>fs. rok (f # fs)))"

text \<open>Lengths must be \<open>i32\<close> values, and the characters of a text scalar values.\<close>

fun field_fits :: "field \<Rightarrow> bool" where
  "field_fits (F_bytes bs) \<longleftrightarrow> length bs < 2 ^ 31"
| "field_fits (F_text s) \<longleftrightarrow> list_all is_scalar s \<and> length (as_bytes s) < 2 ^ 31"
| "field_fits _ \<longleftrightarrow> True"

fun enc_field :: "field \<Rightarrow> byte list" where
  "enc_field (F_u8 v) = [v]"
| "enc_field (F_i32 v) = to_le 4 v"
| "enc_field (F_i64 v) = to_le 8 v"
| "enc_field (F_bytes bs) = enc_bytes bs"
| "enc_field (F_text s) = enc_bytes (as_bytes s)"

lemma read_as_codec:
  assumes "wire_codec e rd f" "\<And>x. e' (c x) = e x" "\<And>y. f' y \<longleftrightarrow> (\<exists>x. y = c x \<and> f x)" "inj c"
  shows "wire_codec e' (read_as c rd) f'"
proof
  fix r r' y assume r: "reader_ok r"
  have "read_as c rd r = (Inr y, r') \<longleftrightarrow> (\<exists>x. rd r = (Inr x, r') \<and> y = c x)" by (auto simp: read_as_def rbind_Inr)
  then show "read_as c rd r = (Inr y, r') \<longleftrightarrow> f' y \<and> (\<exists>ts. rest r = e' y @ ts) \<and> r' = advance (length (e' y)) r"
    unfolding wire_codec.reads[OF assms(1) r] assms(3) using assms(2) injD[OF assms(4)] by (auto; metis)
qed

lemma field_codec: "wire_codec enc_field (read_field ty) (\<lambda>f. field_ty_of f = ty \<and> field_fits f)"
proof (cases ty)
  case Ty_u8
  show ?thesis unfolding Ty_u8 read_field.simps
    by (rule read_as_codec[OF u8.wire_codec_axioms]) (auto simp: inj_def elim: field_ty_of.elims)
next
  case Ty_i32
  show ?thesis unfolding Ty_i32 read_field.simps
    by (rule read_as_codec[OF i32.wire_codec_axioms]) (auto simp: inj_def elim: field_ty_of.elims)
next
  case Ty_i64
  show ?thesis unfolding Ty_i64 read_field.simps
    by (rule read_as_codec[OF i64.wire_codec_axioms]) (auto simp: inj_def elim: field_ty_of.elims)
next
  case Ty_bytes
  show ?thesis unfolding Ty_bytes read_field.simps
    by (rule read_as_codec[OF bytes_field.wire_codec_axioms]) (auto simp: inj_def elim: field_ty_of.elims)
next
  case Ty_text
  show ?thesis unfolding Ty_text read_field.simps
    by (rule read_as_codec[OF text_field.wire_codec_axioms]) (auto simp: inj_def elim: field_ty_of.elims)
qed

lemma fields_codec:
  "wire_codec (\<lambda>fs. concat (map enc_field fs)) (read_fields tys) (\<lambda>fs. map field_ty_of fs = tys \<and> list_all field_fits fs)"
proof (induction tys)
  case Nil
  show ?case by unfold_locales (auto simp: advance_def)
next
  case (Cons ty tys)
  then have c: "codec_pair enc_field (read_field ty) (\<lambda>f. field_ty_of f = ty \<and> field_fits f)
      (\<lambda>fs. concat (map enc_field fs)) (read_fields tys) (\<lambda>fs. map field_ty_of fs = tys \<and> list_all field_fits fs)"
    by (intro codec_pair.intro field_codec)
  show ?case
  proof
    fix r r' fs assume r: "reader_ok r"
    have "read_fields (ty # tys) r = (Inr fs, r') \<longleftrightarrow>
        (\<exists>f fs'. fs = f # fs' \<and> rbind (read_field ty) (\<lambda>x. rbind (read_fields tys) (\<lambda>y. rok (x, y))) r = (Inr (f, fs'), r'))"
      by (auto simp: rbind_Inr)
    then show "read_fields (ty # tys) r = (Inr fs, r') \<longleftrightarrow> (map field_ty_of fs = ty # tys \<and> list_all field_fits fs) \<and>
        (\<exists>ts. rest r = concat (map enc_field fs) @ ts) \<and> r' = advance (length (concat (map enc_field fs))) r"
      unfolding wire_codec.reads[OF codec_pair.pair_codec[OF c] r] by (cases fs) auto
  qed
qed

lemma write_field_appends: "field_fits f \<Longrightarrow> write_field f w = w @ enc_field f"
  by (cases f) (simp_all add: writer_appends wr_text_def)

lemma write_record_eq: "list_all field_fits fs \<Longrightarrow> write_record fs = concat (map enc_field fs)"
proof -
  have "list_all field_fits fs \<Longrightarrow> foldl (\<lambda>w f. write_field f w) w fs = w @ concat (map enc_field fs)" for w
    by (induction fs arbitrary: w) (simp_all add: write_field_appends)
  from this[of writer_new] show "list_all field_fits fs \<Longrightarrow> ?thesis" by (simp add: write_record_def wr_finish_def writer_new_def)
qed

interpretation fields: wire_codec "\<lambda>fs. concat (map enc_field fs)" "read_fields tys"
  "\<lambda>fs. map field_ty_of fs = tys \<and> list_all field_fits fs" for tys
  by (rule fields_codec)

section \<open>Properties\<close>

text \<open>
  C17: reading a record by the types of its fields, with the check that nothing is left over, gives
  the fields exactly when the bytes are what the writer makes of them: what is written is read back,
  and every other byte sequence, short, overlong, with a negative length or ill-formed text, is
  rejected.
\<close>

theorem wire_records_exact:
  assumes "length bs < 2 ^ 64"
  shows "read_record (read_fields tys) bs = Inr fs \<longleftrightarrow>
    map field_ty_of fs = tys \<and> list_all field_fits fs \<and> bs = write_record fs"
  using fields.record_exact[OF assms, of tys fs] write_record_eq[of fs] by auto

definition sample_record :: "field list" where
  "sample_record = [F_u8 7, F_i32 (-2), F_text [104, 233, 8364, 128512], F_bytes [1, 2]]"

theorem wire_records_exact_witness:
  "read_record (read_fields [Ty_u8, Ty_i32, Ty_text, Ty_bytes]) (write_record sample_record) = Inr sample_record"
proof -
  have f: "list_all field_fits sample_record"
    by (simp add: sample_record_def is_scalar_def as_bytes_def utf8_char_def)
  have len: "length (write_record sample_record) < 2 ^ 64"
    unfolding write_record_eq[OF f] by (simp add: sample_record_def enc_bytes_def as_bytes_def utf8_char_def)
  have "map field_ty_of sample_record = [Ty_u8, Ty_i32, Ty_text, Ty_bytes]" by (simp add: sample_record_def)
  with f show ?thesis by (simp only: wire_records_exact[OF len] simp_thms)
qed

text \<open>
  A header is read from exactly the ten bytes that encode it, with the version of this build and
  a timeout that is not negative, and the reader then stands at the first argument; any other prefix
  is malformed.
\<close>

theorem wire_header_exact:
  assumes "length bs < 2 ^ 64"
  shows "rd_header (reader_new bs) = (Inr h, r) \<longleftrightarrow>
    take HEADER_LEN bs = write_record [F_u8 VERSION, F_u8 (hdr_action h), F_i32 (hdr_id h), F_i32 (hdr_timeout_ms h)] \<and>
    0 \<le> sint (hdr_timeout_ms h) \<and> r = \<lparr>rd_bytes = bs, rd_at = HEADER_LEN\<rparr>"
proof -
  have w: "write_record [F_u8 VERSION, F_u8 (hdr_action h), F_i32 (hdr_id h), F_i32 (hdr_timeout_ms h)] = enc_header h"
    by (simp add: write_record_eq enc_header_def)
  have p: "(\<exists>ts. bs = enc_header h @ ts) \<longleftrightarrow> take HEADER_LEN bs = enc_header h"
    using length_enc_header[of h] by (auto simp: append_eq_conv_conj) (metis append_take_drop_id)
  have a: "advance HEADER_LEN (reader_new bs) = \<lparr>rd_bytes = bs, rd_at = HEADER_LEN\<rparr>" by (simp add: advance_def reader_new_def)
  show ?thesis
    unfolding w header_field.reads[OF reader_new_ok(1)[OF assms]] reader_new_ok(2) p length_enc_header a by auto
qed

theorem wire_header_exact_witness:
  "rd_header (reader_new [1, 3, 9, 0, 0, 0, 250, 0, 0, 0, 42]) =
     (Inr \<lparr>hdr_action = 3, hdr_id = 9, hdr_timeout_ms = 250\<rparr>,
      \<lparr>rd_bytes = [1, 3, 9, 0, 0, 0, 250, 0, 0, 0, 42], rd_at = HEADER_LEN\<rparr>)"
proof (subst wire_header_exact)
  show "length [1, 3, 9, 0, 0, 0, 250, 0, 0, 0, 42 :: byte] < 2 ^ 64" by simp
qed code_simp

end
