(* ===== verification/Type_Layout.thy ===== *)
theory Type_Layout
  imports Dream_Types "HOL-Library.AList" "HOL-Library.Multiset"
begin

text \<open>
  Memory layouts of structs and unions (\<open>crates/dream-hir/src/layout.rs\<close>): the target's pointers, the
  placement of fields with its reordering, and the table that is built over all definitions by
  mutual recursion through the value types. Sizes and offsets are \<open>u32\<close>; an overflow, a division by
  a zero alignment, a value type without definition and a recursive value type panic. The lemmas
  show that fields are aligned, disjoint and inside their aggregate, that reordering leaves no
  padding between fields, and that the table answers for a field what it was laid out with.
\<close>

section \<open>Layouts\<close>

record target_layout =
  tg_ptr_size :: nat
  tg_ptr_align :: nat

definition target_default :: target_layout where
  "target_default = \<lparr>tg_ptr_size = 4, tg_ptr_align = 4\<rparr>"

record layout_field_def =
  fd_name :: string
  fd_ty :: type_id
  fd_is_weak :: bool
  fd_is_unowned :: bool

record struct_layout_def =
  sd_ty :: type_id
  sd_name :: string
  sd_fields :: "layout_field_def list"
  sd_packed :: bool
  sd_keep_order :: bool
  sd_destructor :: "def_id option"

record union_variant_def =
  vd_name :: string
  vd_discriminant :: int
  vd_fields :: "layout_field_def list"

record union_layout_def =
  ud_ty :: type_id
  ud_name :: string
  ud_variants :: "union_variant_def list"
  ud_destructor :: "def_id option"

record field_layout =
  fl_offset :: nat
  fl_ty :: type_id
  fl_name :: string
  fl_is_weak :: bool
  fl_is_unowned :: bool

record type_layout =
  tl_destructor :: "def_id option"
  tl_name :: string
  tl_fields :: "field_layout list"
  tl_size :: nat
  tl_align :: nat
  tl_packed :: bool

record union_variant =
  va_name :: string
  va_discriminant :: int
  va_fields :: "field_layout list"

record union_layout =
  ul_destructor :: "def_id option"
  ul_name :: string
  ul_variants :: "union_variant list"
  ul_size :: nat
  ul_align :: nat

record layout_table =
  lt_target :: target_layout
  lt_structs :: "(type_id \<times> type_layout) list"
  lt_unions :: "(type_id \<times> union_layout) list"

definition layout_table_new :: "target_layout \<Rightarrow> layout_table" where
  "layout_table_new target = \<lparr>lt_target = target, lt_structs = [], lt_unions = []\<rparr>"

definition tl_has_destructor :: "type_layout \<Rightarrow> bool" where
  "tl_has_destructor l \<longleftrightarrow> tl_destructor l \<noteq> None"

definition ul_has_destructor :: "union_layout \<Rightarrow> bool" where
  "ul_has_destructor l \<longleftrightarrow> ul_destructor l \<noteq> None"

definition ul_variant :: "union_layout \<Rightarrow> string \<Rightarrow> union_variant option" where
  "ul_variant l name = find (\<lambda>v. va_name v = name) (ul_variants l)"

section \<open>Arithmetic on offsets\<close>

definition u32_add :: "nat \<Rightarrow> nat \<Rightarrow> nat option" where
  "u32_add a b = (if a + b < 2 ^ 32 then Some (a + b) else None)"

definition div_ceil :: "nat \<Rightarrow> nat \<Rightarrow> nat" where
  "div_ceil a b = (if 0 < a mod b then a div b + 1 else a div b)"

definition align_up :: "nat \<Rightarrow> nat \<Rightarrow> nat option" where
  "align_up offset align =
     (if align = 0 then None
      else let r = div_ceil offset align * align in if r < 2 ^ 32 then Some r else None)"

section \<open>One aggregate\<close>

text \<open>The size and alignment of what a local or field of a type that is not a value type holds.\<close>

definition scalar_shape :: "type_interner \<Rightarrow> target_layout \<Rightarrow> type_id \<Rightarrow> (nat \<times> nat) option" where
  "scalar_shape i target ty =
     do {
       k \<leftarrow> kind i ty;
       (case k of
          K_Prim p \<Rightarrow> if p \<in> {PString, PISize, PUSize} then Some (tg_ptr_size target, tg_ptr_align target) else prim_size_align p
        | K_Enum _ \<Rightarrow> Some (4, 4)
        | _ \<Rightarrow> Some (tg_ptr_size target, tg_ptr_align target))
     }"

text \<open>The loop that gives every field of an order its offset.\<close>

fun place_fields ::
  "bool \<Rightarrow> (nat \<times> nat) list \<Rightarrow> nat list \<Rightarrow> nat list \<times> nat \<times> nat \<Rightarrow> (nat list \<times> nat \<times> nat) option" where
  "place_fields packed shapes [] st = Some st"
| "place_fields packed shapes (k # order) (offsets, offset, max_align) =
     do {
       (sz, align) \<leftarrow> nth_opt shapes k;
       offset1 \<leftarrow> (if packed then Some offset else align_up offset align);
       offsets1 \<leftarrow> upd_opt offsets k offset1;
       offset2 \<leftarrow> u32_add offset1 sz;
       place_fields packed shapes order (offsets1, offset2, if packed then max_align else max max_align align)
     }"

definition field_order :: "bool \<Rightarrow> (nat \<times> nat) list \<Rightarrow> nat list" where
  "field_order reorder shapes =
     (if reorder then sort_key (\<lambda>k. - int (snd (shapes ! k))) [0..<length shapes] else [0..<length shapes])"

definition field_at :: "layout_field_def \<Rightarrow> nat \<Rightarrow> field_layout" where
  "field_at f offset =
     \<lparr>fl_offset = offset, fl_ty = fd_ty f, fl_name = fd_name f, fl_is_weak = fd_is_weak f, fl_is_unowned = fd_is_unowned f\<rparr>"

definition struct_layout :: "struct_layout_def \<Rightarrow> bool \<Rightarrow> (nat \<times> nat) list \<Rightarrow> type_layout option" where
  "struct_layout d is_value shapes =
     do {
       (offsets, offset, max_align) \<leftarrow>
         place_fields (sd_packed d) shapes (field_order (\<not> sd_packed d \<and> \<not> sd_keep_order d) shapes)
           (replicate (length shapes) 0, 0, if is_value then 1 else 4);
       let align = (if sd_packed d then 1 else max_align);
       sz \<leftarrow> (if sd_packed d then Some offset else align_up offset align);
       Some \<lparr>tl_destructor = sd_destructor d, tl_name = sd_name d, tl_fields = map2 field_at (sd_fields d) offsets,
             tl_size = sz, tl_align = align, tl_packed = sd_packed d\<rparr>
     }"

section \<open>The table\<close>

record layout_env =
  le_interner :: type_interner
  le_structs :: "(type_id \<times> struct_layout_def) list"
  le_unions :: "(type_id \<times> union_layout_def) list"

definition env_keys :: "layout_env \<Rightarrow> type_id set" where
  "env_keys env = fst ` set (le_structs env) \<union> fst ` set (le_unions env)"

definition idle_keys :: "layout_env \<Rightarrow> type_id set \<Rightarrow> nat" where
  "idle_keys env active = card (env_keys env - active)"

lemma idle_keys_insert:
  assumes "ty \<in> env_keys env" "ty \<notin> active"
  shows "idle_keys env (insert ty active) < idle_keys env active"
  unfolding idle_keys_def
proof (rule psubset_card_mono)
  show "finite (env_keys env - active)" by (simp add: env_keys_def)
  show "env_keys env - insert ty active \<subset> env_keys env - active" using assms by auto
qed

lemma map_of_env_keys: "map_of (le_structs env) ty = Some d \<Longrightarrow> ty \<in> env_keys env" "map_of (le_unions env) ty = Some u \<Longrightarrow> ty \<in> env_keys env"
  by (force simp: env_keys_def dest: map_of_SomeD)+

declare Option.bind_cong [fundef_cong]

function build_struct :: "layout_env \<Rightarrow> type_id set \<Rightarrow> layout_table \<Rightarrow> type_id \<Rightarrow> (layout_table \<times> nat \<times> nat) option"
  and build_union :: "layout_env \<Rightarrow> type_id set \<Rightarrow> layout_table \<Rightarrow> type_id \<Rightarrow> (layout_table \<times> nat \<times> nat) option"
  and size_align_inner :: "layout_env \<Rightarrow> type_id set \<Rightarrow> layout_table \<Rightarrow> type_id \<Rightarrow> (layout_table \<times> nat \<times> nat) option"
  and field_shapes :: "layout_env \<Rightarrow> type_id set \<Rightarrow> layout_table \<Rightarrow> layout_field_def list \<Rightarrow> (layout_table \<times> (nat \<times> nat) list) option"
  and variant_fields :: "layout_env \<Rightarrow> type_id set \<Rightarrow> layout_table \<Rightarrow> layout_field_def list \<Rightarrow> nat \<Rightarrow> nat \<Rightarrow>
     (layout_table \<times> field_layout list \<times> nat \<times> nat) option"
  and union_variants :: "layout_env \<Rightarrow> type_id set \<Rightarrow> layout_table \<Rightarrow> union_variant_def list \<Rightarrow> nat \<Rightarrow> nat \<Rightarrow>
     (layout_table \<times> union_variant list \<times> nat \<times> nat) option" where
  "build_struct env active tbl ty =
     (case map_of (lt_structs tbl) ty of
        Some l \<Rightarrow> Some (tbl, tl_size l, tl_align l)
      | None \<Rightarrow>
          (case map_of (le_structs env) ty of
             None \<Rightarrow> Some (tbl, tg_ptr_size (lt_target tbl), tg_ptr_align (lt_target tbl))
           | Some d \<Rightarrow>
               if ty \<in> active then None
               else do {
                 v \<leftarrow> is_value_type (le_interner env) ty;
                 (tbl1, shapes) \<leftarrow> field_shapes env (insert ty active) tbl (sd_fields d);
                 l \<leftarrow> struct_layout d v shapes;
                 Some (tbl1\<lparr>lt_structs := AList.update ty l (lt_structs tbl1)\<rparr>, tl_size l, tl_align l)
               }))"
| "build_union env active tbl ty =
     (case map_of (lt_unions tbl) ty of
        Some l \<Rightarrow> Some (tbl, ul_size l, ul_align l)
      | None \<Rightarrow>
          (case map_of (le_unions env) ty of
             None \<Rightarrow> Some (tbl, tg_ptr_size (lt_target tbl), tg_ptr_align (lt_target tbl))
           | Some d \<Rightarrow>
               if ty \<in> active then None
               else do {
                 (tbl1, vs, sz, max_align) \<leftarrow> union_variants env (insert ty active) tbl (ud_variants d) 4 4;
                 sz1 \<leftarrow> align_up sz max_align;
                 Some (tbl1\<lparr>lt_unions := AList.update ty
                         \<lparr>ul_destructor = ud_destructor d, ul_name = ud_name d, ul_variants = vs,
                          ul_size = sz1, ul_align = max_align\<rparr> (lt_unions tbl1)\<rparr>, sz1, max_align)
               }))"
| "size_align_inner env active tbl ty =
     do {
       v \<leftarrow> is_value_type (le_interner env) ty;
       if v then
         (if map_of (le_structs env) ty \<noteq> None then build_struct env active tbl ty
          else if map_of (le_unions env) ty \<noteq> None then build_union env active tbl ty
          else None)
       else map_option (Pair tbl) (scalar_shape (le_interner env) (lt_target tbl) ty)
     }"
| "field_shapes env active tbl [] = Some (tbl, [])"
| "field_shapes env active tbl (f # fs) =
     do {
       (tbl1, sz, align) \<leftarrow> size_align_inner env active tbl (fd_ty f);
       (tbl2, shapes) \<leftarrow> field_shapes env active tbl1 fs;
       Some (tbl2, (sz, align) # shapes)
     }"
| "variant_fields env active tbl [] offset max_align = Some (tbl, [], offset, max_align)"
| "variant_fields env active tbl (f # fs) offset max_align =
     do {
       (tbl1, sz, align) \<leftarrow> size_align_inner env active tbl (fd_ty f);
       offset1 \<leftarrow> align_up offset align;
       offset2 \<leftarrow> u32_add offset1 sz;
       (tbl2, ls, offset3, max_align1) \<leftarrow> variant_fields env active tbl1 fs offset2 (max max_align align);
       Some (tbl2, field_at f offset1 # ls, offset3, max_align1)
     }"
| "union_variants env active tbl [] sz max_align = Some (tbl, [], sz, max_align)"
| "union_variants env active tbl (v # vs) sz max_align =
     do {
       (tbl1, ls, offset, max_align1) \<leftarrow> variant_fields env active tbl (vd_fields v) 4 max_align;
       (tbl2, vs1, sz1, max_align2) \<leftarrow> union_variants env active tbl1 vs (max sz offset) max_align1;
       Some (tbl2, \<lparr>va_name = vd_name v, va_discriminant = vd_discriminant v, va_fields = ls\<rparr> # vs1, sz1, max_align2)
     }"
  by pat_completeness auto
termination
  apply (relation "inv_image (less_than <*lex*> less_than) (\<lambda>x. case x of
      Inl (Inl (env, active, tbl, ty)) \<Rightarrow> (idle_keys env active, 0 :: nat)
    | Inl (Inr (Inl (env, active, tbl, ty))) \<Rightarrow> (idle_keys env active, 0)
    | Inl (Inr (Inr (env, active, tbl, ty))) \<Rightarrow> (idle_keys env active, 1)
    | Inr (Inl (env, active, tbl, fs)) \<Rightarrow> (idle_keys env active, 2 + length fs)
    | Inr (Inr (Inl (env, active, tbl, fs, _, _))) \<Rightarrow> (idle_keys env active, 2 + length fs)
    | Inr (Inr (Inr (env, active, tbl, vs, _, _))) \<Rightarrow> (idle_keys env active, 3 + (\<Sum>v \<leftarrow> vs. Suc (length (vd_fields v)))))")
  apply (auto intro: idle_keys_insert dest: map_of_env_keys)
  done

definition layout_build ::
  "target_layout \<Rightarrow> type_interner \<Rightarrow> struct_layout_def list \<Rightarrow> union_layout_def list \<Rightarrow> layout_table option" where
  "layout_build target interner structs unions =
     (let env = \<lparr>le_interner = interner,
                 le_structs = foldl (\<lambda>m d. AList.update (sd_ty d) d m) [] structs,
                 le_unions = foldl (\<lambda>m d. AList.update (ud_ty d) d m) [] unions\<rparr>
      in do {
        tbl \<leftarrow> foldM (\<lambda>tbl ty. map_option fst (build_struct env {} tbl ty)) (layout_table_new target) (map fst (le_structs env));
        foldM (\<lambda>tbl ty. map_option fst (build_union env {} tbl ty)) tbl (map fst (le_unions env))
      })"

text \<open>The query on a finished table.\<close>

definition size_align :: "layout_table \<Rightarrow> type_interner \<Rightarrow> type_id \<Rightarrow> (nat \<times> nat) option" where
  "size_align tbl i ty =
     do {
       v \<leftarrow> is_value_type i ty;
       if v then
         (case map_of (lt_structs tbl) ty of
            Some l \<Rightarrow> Some (tl_size l, tl_align l)
          | None \<Rightarrow> map_option (\<lambda>l. (ul_size l, ul_align l)) (map_of (lt_unions tbl) ty))
       else scalar_shape i (lt_target tbl) ty
     }"

definition lt_get :: "layout_table \<Rightarrow> type_id \<Rightarrow> type_layout option" where
  "lt_get tbl ty = map_of (lt_structs tbl) ty"

definition lt_insert :: "type_id \<Rightarrow> type_layout \<Rightarrow> layout_table \<Rightarrow> layout_table" where
  "lt_insert ty l tbl = tbl\<lparr>lt_structs := AList.update ty l (lt_structs tbl)\<rparr>"

definition lt_union :: "layout_table \<Rightarrow> type_id \<Rightarrow> union_layout option" where
  "lt_union tbl ty = map_of (lt_unions tbl) ty"

definition lt_insert_union :: "type_id \<Rightarrow> union_layout \<Rightarrow> layout_table \<Rightarrow> layout_table" where
  "lt_insert_union ty l tbl = tbl\<lparr>lt_unions := AList.update ty l (lt_unions tbl)\<rparr>"

definition direct_layout ::
  "type_interner \<Rightarrow> string \<Rightarrow> (string \<times> type_id \<times> bool \<times> bool) list \<Rightarrow> bool \<Rightarrow> type_layout option" where
  "direct_layout interner name fs packed =
     do {
       ty \<leftarrow> void_type interner;
       tbl \<leftarrow> layout_build target_default interner
         [\<lparr>sd_ty = ty, sd_name = name,
           sd_fields = map (\<lambda>(n, t, w, u). \<lparr>fd_name = n, fd_ty = t, fd_is_weak = w, fd_is_unowned = u\<rparr>) fs,
           sd_packed = packed, sd_keep_order = False, sd_destructor = None\<rparr>] [];
       map_of (lt_structs tbl) ty
     }"

definition from_fields :: "type_interner \<Rightarrow> string \<Rightarrow> (string \<times> type_id \<times> bool \<times> bool) list \<Rightarrow> type_layout option" where
  "from_fields interner name fs = direct_layout interner name fs False"

section \<open>Alignment\<close>

definition good_align :: "nat \<Rightarrow> bool" where
  "good_align a \<longleftrightarrow> (\<exists>k. a = 2 ^ k)"

text \<open>A size is a multiple of the alignment, which is a power of two.\<close>

definition good_shape :: "nat \<times> nat \<Rightarrow> bool" where
  "good_shape = (\<lambda>(s, a). good_align a \<and> a dvd s)"

lemma good_align_pos: "good_align a \<Longrightarrow> 0 < a"
  by (auto simp: good_align_def)

lemma good_align_dvd: "good_align a \<Longrightarrow> good_align b \<Longrightarrow> a \<le> b \<Longrightarrow> a dvd b"
  by (auto simp: good_align_def intro: le_imp_power_dvd)

lemma good_align_max: "good_align a \<Longrightarrow> good_align b \<Longrightarrow> good_align (max a b)"
  by (simp add: max_def)

lemma good_align_num: "good_align 1" "good_align 2" "good_align 4" "good_align 8"
proof -
  show "good_align 1" unfolding good_align_def by (intro exI[of _ 0]) simp
  show "good_align 2" unfolding good_align_def by (intro exI[of _ 1]) simp
  show "good_align 4" unfolding good_align_def by (intro exI[of _ 2]) simp
  show "good_align 8" unfolding good_align_def by (intro exI[of _ 3]) simp
qed

lemma div_ceil_least:
  assumes "0 < b"
  shows "a \<le> div_ceil a b * b" "div_ceil a b * b < a + b"
proof -
  define q where "q = a div b"
  define r where "r = a mod b"
  have a: "a = q * b + r" and r: "r < b" using assms by (simp_all add: q_def r_def)
  have d: "div_ceil a b = (if 0 < r then q + 1 else q)" by (simp add: div_ceil_def q_def r_def)
  show "a \<le> div_ceil a b * b" "div_ceil a b * b < a + b" unfolding d using r by (auto simp: a)
qed

lemma align_up_Some:
  assumes "align_up offset align = Some r"
  shows "0 < align" "align dvd r" "offset \<le> r" "r < offset + align" "align dvd offset \<Longrightarrow> r = offset"
  using assms div_ceil_least[of align offset]
  by (auto simp: align_up_def Let_def div_ceil_def dvd_eq_mod_eq_0 split: if_splits)

section \<open>Placement of fields\<close>

definition apart :: "(nat \<times> nat) list \<Rightarrow> nat list \<Rightarrow> nat \<Rightarrow> nat \<Rightarrow> bool" where
  "apart shapes offs j k \<longleftrightarrow> offs ! j + fst (shapes ! j) \<le> offs ! k \<or> offs ! k + fst (shapes ! k) \<le> offs ! j"

definition placed :: "bool \<Rightarrow> (nat \<times> nat) list \<Rightarrow> nat set \<Rightarrow> nat list \<Rightarrow> nat \<Rightarrow> nat \<Rightarrow> bool" where
  "placed packed shapes D offs offset max_align \<longleftrightarrow>
     length offs = length shapes \<and> D \<subseteq> {..<length shapes} \<and>
     (\<forall>k \<in> D. offs ! k + fst (shapes ! k) \<le> offset) \<and>
     (\<forall>j \<in> D. \<forall>k \<in> D. j \<noteq> k \<longrightarrow> apart shapes offs j k) \<and>
     (\<not> packed \<longrightarrow> (\<forall>k \<in> D. snd (shapes ! k) dvd offs ! k \<and> snd (shapes ! k) \<le> max_align))"

lemma place_step:
  assumes "placed packed shapes D offs offset ma" "k < length shapes" "k \<notin> D" "offset \<le> at"
    and "\<not> packed \<Longrightarrow> snd (shapes ! k) dvd at"
  shows "placed packed shapes (insert k D) (offs[k := at]) (at + fst (shapes ! k))
    (if packed then ma else max ma (snd (shapes ! k)))"
proof -
  have o: "offs[k := at] ! j = (if j = k then at else offs ! j)" if "j \<in> insert k D" for j
    using assms(1,2) that by (auto simp: placed_def nth_list_update)
  have "apart shapes (offs[k := at]) i j" if "i \<in> insert k D" "j \<in> insert k D" "i \<noteq> j" for i j
    using assms(1,3,4) that unfolding apart_def o[OF that(1)] o[OF that(2)] placed_def apart_def
    by (auto split: if_splits)
  moreover have "offs[k := at] ! j + fst (shapes ! j) \<le> at + fst (shapes ! k)" if "j \<in> insert k D" for j
    using assms(1,4) that unfolding o[OF that] placed_def by (auto split: if_splits intro: order_trans[of _ offset])
  moreover have "\<not> packed \<Longrightarrow> snd (shapes ! j) dvd offs[k := at] ! j \<and> snd (shapes ! j) \<le> max ma (snd (shapes ! k))"
    if "j \<in> insert k D" for j
    using assms(1,5) that unfolding o[OF that] placed_def by (auto split: if_splits)
  ultimately show ?thesis using assms(1,2) unfolding placed_def by auto
qed

lemma place_fields_placed:
  assumes "place_fields packed shapes order (offs, offset, ma) = Some (offs', offset', ma')"
    and "placed packed shapes D offs offset ma" "distinct order" "set order \<inter> D = {}"
  shows "placed packed shapes (D \<union> set order) offs' offset' ma' \<and> offset \<le> offset' \<and> ma \<le> ma'"
  using assms
proof (induction order arbitrary: D offs offset ma)
  case (Cons k order)
  from Cons.prems(1) obtain at o2 where k: "k < length shapes" "k < length offs"
    and at: "(if packed then Some offset else align_up offset (snd (shapes ! k))) = Some at"
    and o2: "u32_add at (fst (shapes ! k)) = Some o2"
    and rest: "place_fields packed shapes order (offs[k := at], o2, if packed then ma else max ma (snd (shapes ! k))) =
      Some (offs', offset', ma')"
    by (auto simp: bind_Some_iff nth_opt_Some_iff upd_opt_Some_iff case_prod_beta)
  have o2': "o2 = at + fst (shapes ! k)" using o2 by (auto simp: u32_add_def split: if_splits)
  have le: "offset \<le> at" "\<not> packed \<Longrightarrow> snd (shapes ! k) dvd at"
    using at align_up_Some[of offset "snd (shapes ! k)" at] by (auto split: if_splits)
  have p: "placed packed shapes (insert k D) (offs[k := at]) o2 (if packed then ma else max ma (snd (shapes ! k)))"
    unfolding o2' by (rule place_step[OF Cons.prems(2) k(1) _ le]) (use Cons.prems(4) in auto)
  from Cons.IH[OF rest p] Cons.prems(3,4) le(1) o2' show ?case by (auto split: if_splits)
qed simp


text \<open>Fields in an order of falling alignments need no padding.\<close>

lemma place_fields_dense:
  assumes "place_fields False shapes order (offs, offset, ma) = Some (offs', offset', ma')"
    and "sorted_wrt (\<lambda>j k. snd (shapes ! k) dvd snd (shapes ! j)) order"
    and "\<And>k. k \<in> set order \<Longrightarrow> snd (shapes ! k) dvd offset \<and> snd (shapes ! k) dvd fst (shapes ! k)"
  shows "offset' = offset + (\<Sum>k \<leftarrow> order. fst (shapes ! k))"
  using assms
proof (induction order arbitrary: offs offset ma)
  case (Cons k order)
  have dv: "snd (shapes ! j) dvd offset + fst (shapes ! k)" if "j \<in> set order" for j
    using Cons.prems(2) Cons.prems(3)[of k] Cons.prems(3)[of j] that by (auto intro: dvd_trans)
  from Cons.prems(1) obtain at offs1 o2 ma1 where at: "align_up offset (snd (shapes ! k)) = Some at"
    and o2: "u32_add at (fst (shapes ! k)) = Some o2"
    and rest: "place_fields False shapes order (offs1, o2, ma1) = Some (offs', offset', ma')"
    by (auto simp: bind_Some_iff nth_opt_Some_iff case_prod_beta)
  have "o2 = offset + fst (shapes ! k)"
    using o2 align_up_Some(5)[OF at] Cons.prems(3)[of k] by (auto simp: u32_add_def split: if_splits)
  with Cons.IH[OF rest] Cons.prems dv show ?case by simp
qed simp

text \<open>Offsets that stay below a bound are all representable.\<close>

lemma place_fields_total:
  assumes "offset + (\<Sum>k \<leftarrow> order. fst (shapes ! k) + snd (shapes ! k)) < 2 ^ 32"
    and "set order \<subseteq> {..<length shapes}" "length offs = length shapes"
    and "\<And>k. k < length shapes \<Longrightarrow> 0 < snd (shapes ! k)"
  shows "\<exists>offs' offset' ma'. place_fields packed shapes order (offs, offset, ma) = Some (offs', offset', ma') \<and>
    offset' \<le> offset + (\<Sum>k \<leftarrow> order. fst (shapes ! k) + snd (shapes ! k))"
  using assms
proof (induction order arbitrary: offs offset ma)
  case (Cons k order)
  have k: "k < length shapes" "0 < snd (shapes ! k)" using Cons.prems by auto
  obtain at where at: "(if packed then Some offset else align_up offset (snd (shapes ! k))) = Some at" "at \<le> offset + snd (shapes ! k)"
  proof (cases packed)
    case False
    have "align_up offset (snd (shapes ! k)) = Some (div_ceil offset (snd (shapes ! k)) * snd (shapes ! k))"
      using Cons.prems(1) k(2) div_ceil_least(2)[OF k(2), of offset] by (simp add: align_up_def Let_def)
    with that False div_ceil_least(2)[OF k(2), of offset] show ?thesis by simp
  qed (use that in simp)
  have o2: "u32_add at (fst (shapes ! k)) = Some (at + fst (shapes ! k))"
    using Cons.prems(1) at(2) by (simp add: u32_add_def)
  have "\<exists>offs' offset' ma'. place_fields packed shapes order
      (offs[k := at], at + fst (shapes ! k), if packed then ma else max ma (snd (shapes ! k))) = Some (offs', offset', ma') \<and>
    offset' \<le> at + fst (shapes ! k) + (\<Sum>k \<leftarrow> order. fst (shapes ! k) + snd (shapes ! k))"
    by (rule Cons.IH) (use Cons.prems at(2) in auto)
  with at(2) o2 k Cons.prems(3) show ?case
    by (fastforce simp: at(1) nth_opt_Some_iff upd_opt_def nth_opt_def case_prod_beta)
qed simp

lemma field_order_perm:
  "distinct (field_order reorder shapes)" "set (field_order reorder shapes) = {..<length shapes}"
  by (auto simp: field_order_def)

lemma field_order_sum: "(\<Sum>k \<leftarrow> field_order reorder shapes. f (shapes ! k)) = sum_list (map f shapes)"
  for f :: "nat \<times> nat \<Rightarrow> nat"
proof -
  have "mset (field_order reorder shapes) = mset [0..<length shapes]" by (simp add: field_order_def)
  then have "(\<Sum>k \<leftarrow> field_order reorder shapes. f (shapes ! k)) = (\<Sum>k \<leftarrow> [0..<length shapes]. f (shapes ! k))"
    by (simp only: sum_mset_sum_list[symmetric] mset_map)
  also have "\<dots> = sum_list (map f shapes)"
    by (rule arg_cong[of _ _ sum_list], rule nth_equalityI) simp_all
  finally show ?thesis .
qed

lemma field_order_falling:
  assumes "\<And>k. k < length shapes \<Longrightarrow> good_align (snd (shapes ! k))"
  shows "sorted_wrt (\<lambda>j k. snd (shapes ! k) dvd snd (shapes ! j)) (field_order True shapes)"
proof -
  have "sorted (map (\<lambda>k. - int (snd (shapes ! k))) (field_order True shapes))" by (simp add: field_order_def)
  then have "sorted_wrt (\<lambda>j k. snd (shapes ! k) \<le> snd (shapes ! j)) (field_order True shapes)"
    by (simp add: sorted_wrt_map)
  then show ?thesis
    by (rule sorted_wrt_mono_rel[rotated]) (use assms field_order_perm(2)[of True shapes] in \<open>auto intro: good_align_dvd\<close>)
qed

lemma place_fields_align:
  assumes "place_fields packed shapes order (offs, offset, ma) = Some (offs', offset', ma')" "good_align ma"
    and "\<And>k. k \<in> set order \<Longrightarrow> good_align (snd (shapes ! k))"
  shows "good_align ma'"
  using assms
proof (induction order arbitrary: offs offset ma)
  case (Cons k order)
  from Cons.prems(1) obtain offs1 o2 where rest: "place_fields packed shapes order
      (offs1, o2, if packed then ma else max ma (snd (shapes ! k))) = Some (offs', offset', ma')"
    by (auto simp: bind_Some_iff nth_opt_Some_iff case_prod_beta)
  show ?case by (rule Cons.IH[OF rest]) (use Cons.prems in \<open>auto intro: good_align_max\<close>)
qed simp

text \<open>
  What a layout promises for fields of the given shapes: the fields are inside the aggregate and
  do not overlap, and unless the aggregate is packed each field is at a multiple of its alignment,
  also where the aggregate itself is at a multiple of its own.
\<close>

definition fields_sound :: "bool \<Rightarrow> (nat \<times> nat) list \<Rightarrow> nat list \<Rightarrow> nat \<Rightarrow> nat \<Rightarrow> bool" where
  "fields_sound packed shapes offs sz align \<longleftrightarrow>
     length offs = length shapes \<and> good_shape (sz, align) \<and>
     (\<forall>k < length shapes. offs ! k + fst (shapes ! k) \<le> sz) \<and>
     (\<forall>j < length shapes. \<forall>k < length shapes. j \<noteq> k \<longrightarrow> apart shapes offs j k) \<and>
     (\<not> packed \<longrightarrow> (\<forall>k < length shapes. snd (shapes ! k) dvd offs ! k \<and> snd (shapes ! k) dvd align))"

lemma struct_layout_sound:
  assumes l: "struct_layout d v shapes = Some l" and good: "list_all good_shape shapes"
  obtains offs offset where "tl_fields l = map2 field_at (sd_fields d) offs" "tl_packed l = sd_packed d"
    "fields_sound (sd_packed d) shapes offs (tl_size l) (tl_align l)"
    "offset \<le> tl_size l" "tl_size l < offset + tl_align l"
    "\<not> sd_packed d \<Longrightarrow> \<not> sd_keep_order d \<Longrightarrow> offset = sum_list (map fst shapes)"
proof -
  let ?order = "field_order (\<not> sd_packed d \<and> \<not> sd_keep_order d) shapes"
  let ?ma = "if v then 1 else 4 :: nat"
  from l obtain offs offset ma sz where p: "place_fields (sd_packed d) shapes ?order (replicate (length shapes) 0, 0, ?ma) = Some (offs, offset, ma)"
    and sz: "(if sd_packed d then Some offset else align_up offset ma) = Some sz"
    and ls: "tl_fields l = map2 field_at (sd_fields d) offs" "tl_size l = sz"
      "tl_align l = (if sd_packed d then 1 else ma)" "tl_packed l = sd_packed d"
    by (auto simp: struct_layout_def bind_Some_iff Let_def split: if_splits)
  have al: "good_align (snd (shapes ! k))" "snd (shapes ! k) dvd fst (shapes ! k)" if "k < length shapes" for k
    using good that by (auto simp: list_all_length good_shape_def case_prod_beta)
  have ma: "good_align ma"
    by (rule place_fields_align[OF p]) (auto simp: good_align_num field_order_perm al simp flip: One_nat_def)
  have pl: "placed (sd_packed d) shapes {..<length shapes} offs offset ma"
    using place_fields_placed[OF p, of "{}"] by (simp add: placed_def field_order_perm)
  have sz': "offset \<le> sz" "sz < offset + tl_align l" "tl_align l dvd sz"
    using sz align_up_Some[of offset ma sz] ls by (auto split: if_splits)
  have "fields_sound (sd_packed d) shapes offs (tl_size l) (tl_align l)"
    using pl sz' ls ma al good_align_num
    by (auto simp: fields_sound_def placed_def good_shape_def intro: good_align_dvd order_trans)
  moreover have "offset = sum_list (map fst shapes)" if "\<not> sd_packed d" "\<not> sd_keep_order d"
    using place_fields_dense[of shapes "field_order True shapes" "replicate (length shapes) 0" 0 ?ma offs offset ma]
      p that field_order_falling[OF al(1)] al
      field_order_sum[where f = fst and reorder = True and shapes = shapes] by (simp add: field_order_perm)
  ultimately show thesis using that ls sz' by auto
qed

section \<open>The finished table\<close>

text \<open>The answer that the table under construction gives, if the type is laid out already.\<close>

definition resolved :: "layout_env \<Rightarrow> layout_table \<Rightarrow> type_id \<Rightarrow> (nat \<times> nat) option" where
  "resolved env tbl ty =
     do {
       v \<leftarrow> is_value_type (le_interner env) ty;
       if v then
         (if map_of (le_structs env) ty \<noteq> None then map_option (\<lambda>l. (tl_size l, tl_align l)) (map_of (lt_structs tbl) ty)
          else if map_of (le_unions env) ty \<noteq> None then map_option (\<lambda>l. (ul_size l, ul_align l)) (map_of (lt_unions tbl) ty)
          else None)
       else scalar_shape (le_interner env) (lt_target tbl) ty
     }"

text \<open>The fields of a variant follow each other, aligned, between two offsets.\<close>

fun in_order :: "(nat \<times> nat) list \<Rightarrow> nat \<Rightarrow> nat list \<Rightarrow> nat \<Rightarrow> bool" where
  "in_order [] lo [] hi \<longleftrightarrow> lo \<le> hi"
| "in_order ((s, a) # shapes) lo (x # offs) hi \<longleftrightarrow> lo \<le> x \<and> a dvd x \<and> in_order shapes (x + s) offs hi"
| "in_order _ _ _ _ \<longleftrightarrow> False"

definition field_of :: "layout_field_def \<Rightarrow> field_layout \<Rightarrow> bool" where
  "field_of f l \<longleftrightarrow> l = field_at f (fl_offset l)"

definition variant_sound :: "(type_id \<Rightarrow> (nat \<times> nat) option) \<Rightarrow> nat \<Rightarrow> nat \<Rightarrow> union_variant_def \<Rightarrow> union_variant \<Rightarrow> bool" where
  "variant_sound shape sz align d v \<longleftrightarrow>
     va_name v = vd_name d \<and> va_discriminant v = vd_discriminant d \<and> list_all2 field_of (vd_fields d) (va_fields v) \<and>
     (\<exists>shapes. map (shape \<circ> fd_ty) (vd_fields d) = map Some shapes \<and>
        in_order shapes 4 (map fl_offset (va_fields v)) sz \<and> (\<forall>s \<in> set shapes. snd s dvd align))"

definition struct_entry :: "type_interner \<Rightarrow> (type_id \<Rightarrow> (nat \<times> nat) option) \<Rightarrow> type_id \<Rightarrow> struct_layout_def \<Rightarrow> type_layout \<Rightarrow> bool" where
  "struct_entry i shape ty d l \<longleftrightarrow>
     (\<exists>v shapes. is_value_type i ty = Some v \<and> map (shape \<circ> fd_ty) (sd_fields d) = map Some shapes \<and>
        list_all good_shape shapes \<and> struct_layout d v shapes = Some l)"

definition union_entry :: "(type_id \<Rightarrow> (nat \<times> nat) option) \<Rightarrow> union_layout_def \<Rightarrow> union_layout \<Rightarrow> bool" where
  "union_entry shape d l \<longleftrightarrow>
     ul_name l = ud_name d \<and> ul_destructor l = ud_destructor d \<and> good_shape (ul_size l, ul_align l) \<and> 4 dvd ul_align l \<and>
     list_all2 (variant_sound shape (ul_size l) (ul_align l)) (ud_variants d) (ul_variants l)"

text \<open>A type holds the value types of its fields, and what is laid out holds only what was laid out before.\<close>

definition holds_value :: "layout_env \<Rightarrow> type_id \<Rightarrow> type_id \<Rightarrow> bool" where
  "holds_value env ty t \<longleftrightarrow>
     is_value_type (le_interner env) t = Some True \<and>
     ((\<exists>d. map_of (le_structs env) ty = Some d \<and> t \<in> fd_ty ` set (sd_fields d)) \<or>
      (\<exists>d. map_of (le_unions env) ty = Some d \<and> (\<exists>v \<in> set (ud_variants d). t \<in> fd_ty ` set (vd_fields v))))"

definition laid :: "layout_table \<Rightarrow> type_id \<Rightarrow> bool" where
  "laid tbl ty \<longleftrightarrow> map_of (lt_structs tbl) ty \<noteq> None \<or> map_of (lt_unions tbl) ty \<noteq> None"

definition keys_apart :: "layout_env \<Rightarrow> bool" where
  "keys_apart env \<longleftrightarrow> (\<forall>ty. map_of (le_structs env) ty = None \<or> map_of (le_unions env) ty = None)"

definition ranked :: "layout_env \<Rightarrow> layout_table \<Rightarrow> bool" where
  "ranked env tbl \<longleftrightarrow>
     (keys_apart env \<longrightarrow>
      (\<exists>r :: type_id \<Rightarrow> nat. \<forall>ty t. laid tbl ty \<longrightarrow> holds_value env ty t \<longrightarrow> laid tbl t \<and> r t < r ty))"

definition table_ok :: "layout_env \<Rightarrow> layout_table \<Rightarrow> bool" where
  "table_ok env tbl \<longleftrightarrow>
     good_shape (tg_ptr_size (lt_target tbl), tg_ptr_align (lt_target tbl)) \<and> ranked env tbl \<and>
     (\<forall>ty l. map_of (lt_structs tbl) ty = Some l \<longrightarrow>
        (\<exists>d. map_of (le_structs env) ty = Some d \<and> struct_entry (le_interner env) (resolved env tbl) ty d l)) \<and>
     (\<forall>ty l. map_of (lt_unions tbl) ty = Some l \<longrightarrow>
        (\<exists>d. map_of (le_unions env) ty = Some d \<and> union_entry (resolved env tbl) d l))"

text \<open>Building a type only adds entries, and none of a type that is being laid out.\<close>

definition table_grows :: "type_id set \<Rightarrow> layout_table \<Rightarrow> layout_table \<Rightarrow> bool" where
  "table_grows active tbl tbl' \<longleftrightarrow>
     lt_target tbl' = lt_target tbl \<and>
     map_of (lt_structs tbl) \<subseteq>\<^sub>m map_of (lt_structs tbl') \<and> map_of (lt_unions tbl) \<subseteq>\<^sub>m map_of (lt_unions tbl') \<and>
     (\<forall>ty \<in> active. map_of (lt_structs tbl') ty = map_of (lt_structs tbl) ty \<and> map_of (lt_unions tbl') ty = map_of (lt_unions tbl) ty)"

lemma table_grows_refl: "table_grows active tbl tbl"
  by (simp add: table_grows_def)

lemma table_grows_trans: "table_grows active a b \<Longrightarrow> table_grows active b c \<Longrightarrow> table_grows active a c"
  by (auto simp: table_grows_def intro: map_le_trans)

lemma table_grows_weaken: "table_grows (insert ty active) a b \<Longrightarrow> table_grows active a b"
  by (simp add: table_grows_def)

lemma table_grows_entry:
  assumes "table_grows active tbl tbl'"
  shows "map_of (lt_structs tbl) ty = Some l \<Longrightarrow> map_of (lt_structs tbl') ty = Some l"
    and "map_of (lt_unions tbl) ty = Some u \<Longrightarrow> map_of (lt_unions tbl') ty = Some u"
  using assms by (auto simp: table_grows_def map_le_def dom_def)

lemma resolved_mono:
  assumes "table_grows active tbl tbl'" "resolved env tbl ty = Some s"
  shows "resolved env tbl' ty = Some s"
proof -
  have t: "lt_target tbl' = lt_target tbl" using assms(1) by (simp add: table_grows_def)
  have m: "map_option f (map_of (lt_structs tbl) ty) = Some s \<Longrightarrow> map_option f (map_of (lt_structs tbl') ty) = Some s"
    "map_option h (map_of (lt_unions tbl) ty) = Some s \<Longrightarrow> map_option h (map_of (lt_unions tbl') ty) = Some s" for f h
    using table_grows_entry[OF assms(1)] by (auto simp: map_option_eq_Some)
  show ?thesis
    using assms(2) unfolding resolved_def t bind_Some_iff by (metis m)
qed

lemma map_shape_mono:
  assumes "\<And>t s. f t = Some s \<Longrightarrow> g t = Some s" "map (f \<circ> h) xs = map Some ys"
  shows "map (g \<circ> h) xs = map Some ys"
proof -
  have "map (k \<circ> h) xs = map Some ys \<longleftrightarrow> list_all2 (\<lambda>x y. k (h x) = Some y) xs ys" for k
    by (auto simp: list_eq_iff_nth_eq list_all2_conv_all_nth)
  with assms show ?thesis by (auto elim: list_all2_mono)
qed

lemma struct_entry_mono:
  "(\<And>t s. f t = Some s \<Longrightarrow> g t = Some s) \<Longrightarrow> struct_entry i f ty d l \<Longrightarrow> struct_entry i g ty d l"
  unfolding struct_entry_def by (blast intro: map_shape_mono[of f g])

lemma union_entry_mono:
  assumes "\<And>t s. f t = Some s \<Longrightarrow> g t = Some s" "union_entry f d l"
  shows "union_entry g d l"
proof -
  have "variant_sound g sz al vd v" if "variant_sound f sz al vd v" for sz al vd v
    using that map_shape_mono[of f g, OF assms(1)] unfolding variant_sound_def by blast
  with assms(2) show ?thesis unfolding union_entry_def by (auto elim: list_all2_mono)
qed

lemma table_ok_grows:
  assumes ok: "table_ok env tbl" and g: "table_grows active tbl tbl'" and r: "ranked env tbl'"
    and s: "\<And>ty l. map_of (lt_structs tbl') ty = Some l \<Longrightarrow> map_of (lt_structs tbl) ty \<noteq> Some l \<Longrightarrow>
      \<exists>d. map_of (le_structs env) ty = Some d \<and> struct_entry (le_interner env) (resolved env tbl) ty d l"
    and u: "\<And>ty l. map_of (lt_unions tbl') ty = Some l \<Longrightarrow> map_of (lt_unions tbl) ty \<noteq> Some l \<Longrightarrow>
      \<exists>d. map_of (le_unions env) ty = Some d \<and> union_entry (resolved env tbl) d l"
  shows "table_ok env tbl'"
  unfolding table_ok_def
proof (intro conjI allI impI)
  show "good_shape (tg_ptr_size (lt_target tbl'), tg_ptr_align (lt_target tbl'))"
    using ok g by (simp add: table_ok_def table_grows_def)
  show "ranked env tbl'" by (rule r)
next
  fix ty l
  assume "map_of (lt_structs tbl') ty = Some l"
  with s ok obtain d where "map_of (le_structs env) ty = Some d" "struct_entry (le_interner env) (resolved env tbl) ty d l"
    unfolding table_ok_def by blast
  then show "\<exists>d. map_of (le_structs env) ty = Some d \<and> struct_entry (le_interner env) (resolved env tbl') ty d l"
    using struct_entry_mono[of "resolved env tbl" "resolved env tbl'", OF resolved_mono[OF g]] by blast
next
  fix ty l
  assume "map_of (lt_unions tbl') ty = Some l"
  with u ok obtain d where "map_of (le_unions env) ty = Some d" "union_entry (resolved env tbl) d l"
    unfolding table_ok_def by blast
  then show "\<exists>d. map_of (le_unions env) ty = Some d \<and> union_entry (resolved env tbl') d l"
    using union_entry_mono[of "resolved env tbl" "resolved env tbl'", OF resolved_mono[OF g]] by blast
qed

lemma resolved_laid: "resolved env tbl t = Some s \<Longrightarrow> is_value_type (le_interner env) t = Some True \<Longrightarrow> laid tbl t"
  by (auto simp: resolved_def laid_def map_option_eq_Some split: if_splits)

lemma map_resolved_laid:
  assumes "map (resolved env tbl \<circ> fd_ty) fs = map Some shapes" "t \<in> fd_ty ` set fs" "is_value_type (le_interner env) t = Some True"
  shows "laid tbl t"
proof -
  from assms(2) obtain f where f: "f \<in> set fs" "t = fd_ty f" by auto
  with assms(1) have "resolved env tbl t \<in> set (map Some shapes)" by (metis comp_apply image_eqI list.set_map)
  then show ?thesis using resolved_laid[OF _ assms(3)] by auto
qed

lemma struct_entry_laid:
  assumes "struct_entry i (resolved env tbl) ty d l" "t \<in> fd_ty ` set (sd_fields d)" "is_value_type (le_interner env) t = Some True"
  shows "laid tbl t"
  using assms unfolding struct_entry_def by (auto intro: map_resolved_laid)

lemma union_entry_laid:
  assumes "union_entry (resolved env tbl) d l" "v \<in> set (ud_variants d)" "t \<in> fd_ty ` set (vd_fields v)"
    "is_value_type (le_interner env) t = Some True"
  shows "laid tbl t"
proof -
  from assms(1,2) obtain u where "variant_sound (resolved env tbl) (ul_size l) (ul_align l) v u"
    unfolding union_entry_def by (auto simp: list_all2_conv_all_nth in_set_conv_nth)
  then obtain shapes where "map (resolved env tbl \<circ> fd_ty) (vd_fields v) = map Some shapes" unfolding variant_sound_def by blast
  then show ?thesis by (rule map_resolved_laid[OF _ assms(3,4)])
qed

lemma holds_value_struct:
  "keys_apart env \<Longrightarrow> map_of (le_structs env) ty = Some d \<Longrightarrow>
    holds_value env ty t \<longleftrightarrow> is_value_type (le_interner env) t = Some True \<and> t \<in> fd_ty ` set (sd_fields d)"
  unfolding holds_value_def keys_apart_def by (metis option.distinct(1) option.inject)

lemma holds_value_union:
  "keys_apart env \<Longrightarrow> map_of (le_unions env) ty = Some d \<Longrightarrow>
    holds_value env ty t \<longleftrightarrow> is_value_type (le_interner env) t = Some True \<and> (\<exists>v \<in> set (ud_variants d). t \<in> fd_ty ` set (vd_fields v))"
  unfolding holds_value_def keys_apart_def by (metis option.distinct(1) option.inject)

lemma finite_holds_value: "finite {t. holds_value env ty t}"
proof -
  have "{t. holds_value env ty t} \<subseteq> (case map_of (le_structs env) ty of None \<Rightarrow> {} | Some d \<Rightarrow> fd_ty ` set (sd_fields d)) \<union>
      (case map_of (le_unions env) ty of None \<Rightarrow> {} | Some d \<Rightarrow> \<Union>v \<in> set (ud_variants d). fd_ty ` set (vd_fields v))"
    unfolding holds_value_def by fastforce
  then show ?thesis by (rule finite_subset) (auto split: option.splits)
qed

lemma ranked_add:
  assumes "ranked env tbl" and l: "\<And>t. laid tbl' t \<longleftrightarrow> t = ty \<or> laid tbl t" 
    and nd: "keys_apart env \<Longrightarrow> \<not> laid tbl ty" and hd: "\<And>t. keys_apart env \<Longrightarrow> holds_value env ty t \<Longrightarrow> laid tbl t"
  shows "ranked env tbl'"
  unfolding ranked_def
proof
  assume d: "keys_apart env"
  note n = nd[OF d] and h = hd[OF d]
  from d assms(1) obtain r :: "type_id \<Rightarrow> nat" where r: "\<And>ty t. laid tbl ty \<Longrightarrow> holds_value env ty t \<Longrightarrow> laid tbl t \<and> r t < r ty"
    unfolding ranked_def by blast
  define r' where "r' = r(ty := Suc (\<Sum>t | holds_value env ty t. r t))"
  have "laid tbl' t \<and> r' t < r' u" if "laid tbl' u" "holds_value env u t" for u t
  proof (cases "u = ty")
    case True
    with that(2) h have t: "laid tbl t" by blast
    have "r t \<le> (\<Sum>t | holds_value env ty t. r t)"
      by (rule member_le_sum) (use finite_holds_value that(2) True in auto)
    with t n l True show ?thesis by (auto simp: r'_def)
  next
    case False
    with that l r have "laid tbl t" "r t < r u" by blast+
    with n l False show ?thesis by (auto simp: r'_def)
  qed
  then show "\<exists>r :: type_id \<Rightarrow> nat. \<forall>ty t. laid tbl' ty \<longrightarrow> holds_value env ty t \<longrightarrow> laid tbl' t \<and> r t < r ty" by blast
qed

lemma table_ok_keys:
  assumes "table_ok env tbl"
  shows "map_of (le_structs env) ty = None \<Longrightarrow> map_of (lt_structs tbl) ty = None"
    "map_of (le_unions env) ty = None \<Longrightarrow> map_of (lt_unions tbl) ty = None"
  using assms unfolding table_ok_def by (metis not_None_eq)+

lemma add_struct:
  assumes "table_ok env tbl" "map_of (lt_structs tbl) ty = None" "ty \<notin> active" "map_of (le_structs env) ty = Some d"
    and "struct_entry (le_interner env) (resolved env tbl) ty d l"
  shows "table_grows active tbl (tbl\<lparr>lt_structs := AList.update ty l (lt_structs tbl)\<rparr>)"
    "table_ok env (tbl\<lparr>lt_structs := AList.update ty l (lt_structs tbl)\<rparr>)"
proof -
  show g: "table_grows active tbl (tbl\<lparr>lt_structs := AList.update ty l (lt_structs tbl)\<rparr>)"
    using assms(2,3) by (auto simp: table_grows_def map_le_def update_conv')
  have h: "laid tbl t" if "keys_apart env" "holds_value env ty t" for t
    using that(2) unfolding holds_value_struct[OF that(1) assms(4)] by (auto intro: struct_entry_laid[OF assms(5)])
  have n: "\<not> laid tbl ty" if "keys_apart env"
    using that assms(2,4) table_ok_keys[OF assms(1), of ty] unfolding laid_def keys_apart_def by (metis option.distinct(1))
  have e: "laid (tbl\<lparr>lt_structs := AList.update ty l (lt_structs tbl)\<rparr>) t \<longleftrightarrow> t = ty \<or> laid tbl t" for t
    by (auto simp: laid_def update_conv')
  have "ranked env tbl" using assms(1) by (simp add: table_ok_def)
  then have r: "ranked env (tbl\<lparr>lt_structs := AList.update ty l (lt_structs tbl)\<rparr>)" by (rule ranked_add[OF _ e n h])
  show "table_ok env (tbl\<lparr>lt_structs := AList.update ty l (lt_structs tbl)\<rparr>)"
    by (rule table_ok_grows[OF assms(1) g r]) (use assms(4,5) in \<open>auto simp: update_conv' split: if_splits\<close>)
qed

lemma add_union:
  assumes "table_ok env tbl" "map_of (lt_unions tbl) ty = None" "ty \<notin> active" "map_of (le_unions env) ty = Some d"
    and "union_entry (resolved env tbl) d l"
  shows "table_grows active tbl (tbl\<lparr>lt_unions := AList.update ty l (lt_unions tbl)\<rparr>)"
    "table_ok env (tbl\<lparr>lt_unions := AList.update ty l (lt_unions tbl)\<rparr>)"
proof -
  show g: "table_grows active tbl (tbl\<lparr>lt_unions := AList.update ty l (lt_unions tbl)\<rparr>)"
    using assms(2,3) by (auto simp: table_grows_def map_le_def update_conv')
  have h: "laid tbl t" if "keys_apart env" "holds_value env ty t" for t
    using that(2) unfolding holds_value_union[OF that(1) assms(4)] by (auto intro: union_entry_laid[OF assms(5)])
  have n: "\<not> laid tbl ty" if "keys_apart env"
    using that assms(2,4) table_ok_keys[OF assms(1), of ty] unfolding laid_def keys_apart_def by (metis option.distinct(1))
  have e: "laid (tbl\<lparr>lt_unions := AList.update ty l (lt_unions tbl)\<rparr>) t \<longleftrightarrow> t = ty \<or> laid tbl t" for t
    by (auto simp: laid_def update_conv')
  have "ranked env tbl" using assms(1) by (simp add: table_ok_def)
  then have r: "ranked env (tbl\<lparr>lt_unions := AList.update ty l (lt_unions tbl)\<rparr>)" by (rule ranked_add[OF _ e n h])
  show "table_ok env (tbl\<lparr>lt_unions := AList.update ty l (lt_unions tbl)\<rparr>)"
    by (rule table_ok_grows[OF assms(1) g r]) (use assms(4,5) in \<open>auto simp: update_conv' split: if_splits\<close>)
qed

lemma scalar_shape_good:
  assumes "scalar_shape i t ty = Some s" "good_shape (tg_ptr_size t, tg_ptr_align t)"
  shows "good_shape s"
proof -
  have "prim_size_align p = Some s \<Longrightarrow> good_shape s" for p
    by (cases p) (auto simp: good_shape_def good_align_num simp flip: One_nat_def)
  moreover have "good_shape (4, 4)" by (simp add: good_shape_def good_align_num)
  moreover from assms(1) obtain k where "kind i ty = Some k" by (auto simp: scalar_shape_def bind_Some_iff)
  ultimately show ?thesis using assms by (cases k) (auto simp: scalar_shape_def split: if_splits)
qed

lemma struct_entry_good: "struct_entry i f ty d l \<Longrightarrow> good_shape (tl_size l, tl_align l)"
  by (auto simp: struct_entry_def fields_sound_def elim: struct_layout_sound)

lemma resolved_good:
  assumes "table_ok env tbl" "resolved env tbl ty = Some s"
  shows "good_shape s"
proof -
  have p: "good_shape (tg_ptr_size (lt_target tbl), tg_ptr_align (lt_target tbl))" using assms(1) by (simp add: table_ok_def)
  have "good_shape (tl_size l, tl_align l)" if "map_of (lt_structs tbl) ty = Some l" for l
    using assms(1) that struct_entry_good unfolding table_ok_def by blast
  moreover have "good_shape (ul_size l, ul_align l)" if "map_of (lt_unions tbl) ty = Some l" for l
    using assms(1) that unfolding table_ok_def union_entry_def by blast
  ultimately show ?thesis using assms(2) scalar_shape_good[of "le_interner env" "lt_target tbl" ty s, OF _ p]
    by (auto simp: resolved_def bind_Some_iff split: if_splits)
qed

definition built :: "layout_env \<Rightarrow> type_id set \<Rightarrow> layout_table \<Rightarrow> layout_table \<Rightarrow> bool" where
  "built env active tbl tbl' \<longleftrightarrow> table_grows active tbl tbl' \<and> table_ok env tbl'"

lemma built_refl: "table_ok env tbl \<Longrightarrow> built env active tbl tbl"
  by (simp add: built_def table_grows_refl)

lemma built_trans: "built env active a b \<Longrightarrow> built env active b c \<Longrightarrow> built env active a c"
  by (auto simp: built_def intro: table_grows_trans)

lemma built_resolved: "built env active tbl tbl' \<Longrightarrow> resolved env tbl ty = Some s \<Longrightarrow> resolved env tbl' ty = Some s"
  by (auto simp: built_def intro: resolved_mono)

lemma in_order_mono: "in_order shapes lo offs hi \<Longrightarrow> hi \<le> hi' \<Longrightarrow> in_order shapes lo offs hi'"
  by (induction shapes lo offs hi rule: in_order.induct) auto

lemma variant_sound_mono:
  assumes "variant_sound f sz al d v" "\<And>t s. f t = Some s \<Longrightarrow> g t = Some s" "sz \<le> sz'" "al dvd al'"
  shows "variant_sound g sz' al' d v"
  using assms(1,3,4) map_shape_mono[of f g, OF assms(2)] unfolding variant_sound_def
  by (blast intro: in_order_mono dvd_trans)

lemma map_Some_preimage: "map f xs = map Some ys \<Longrightarrow> y \<in> set ys \<Longrightarrow> \<exists>x \<in> set xs. f x = Some y"
  by (induction xs arbitrary: ys) (auto simp: Cons_eq_map_conv)

lemma built_field_shapes:
  assumes "built env active tbl tbl'" "resolved env tbl t = Some s" "map (resolved env tbl' \<circ> h) xs = map Some ys" "h x = t"
  shows "map (resolved env tbl' \<circ> h) (x # xs) = map Some (s # ys)"
  using assms built_resolved[OF assms(1,2)] by simp

lemma build_struct_step:
  assumes ok: "table_ok env tbl" and none: "map_of (lt_structs tbl) ty = None" "map_of (le_structs env) ty = Some d" "ty \<notin> active"
    and v: "is_value_type (le_interner env) ty = Some v"
    and b: "built env (insert ty active) tbl tbl1" "map (resolved env tbl1 \<circ> fd_ty) (sd_fields d) = map Some shapes"
    and l: "struct_layout d v shapes = Some l"
  shows "built env active tbl (tbl1\<lparr>lt_structs := AList.update ty l (lt_structs tbl1)\<rparr>)"
proof -
  have g: "table_grows (insert ty active) tbl tbl1" "table_ok env tbl1" using b(1) by (simp_all add: built_def)
  have n: "map_of (lt_structs tbl1) ty = None" using g(1) none(1) by (simp add: table_grows_def)
  have "good_shape s" if "s \<in> set shapes" for s
    using map_Some_preimage[OF b(2) that] resolved_good[OF g(2)] by (cases s) auto
  with v b(2) l have "struct_entry (le_interner env) (resolved env tbl1) ty d l"
    unfolding struct_entry_def by (auto simp: list_all_iff)
  from add_struct[OF g(2) n none(3,2) this] table_grows_weaken[OF g(1)] show ?thesis
    unfolding built_def by (blast intro: table_grows_trans)
qed

lemma build_union_step:
  assumes ok: "table_ok env tbl" and none: "map_of (lt_unions tbl) ty = None" "map_of (le_unions env) ty = Some d" "ty \<notin> active"
    and b: "built env (insert ty active) tbl tbl1"
    and vs: "list_all2 (variant_sound (resolved env tbl1) sz al) (ud_variants d) vs" "good_align al" "4 dvd al"
    and sz: "align_up sz al = Some sz1"
  shows "built env active tbl (tbl1\<lparr>lt_unions := AList.update ty
    \<lparr>ul_destructor = ud_destructor d, ul_name = ud_name d, ul_variants = vs, ul_size = sz1, ul_align = al\<rparr> (lt_unions tbl1)\<rparr>)"
    (is "built _ _ _ (tbl1\<lparr>lt_unions := AList.update ty ?l _\<rparr>)")
proof -
  have g: "table_grows (insert ty active) tbl tbl1" "table_ok env tbl1" using b by (simp_all add: built_def)
  have n: "map_of (lt_unions tbl1) ty = None" using g(1) none(1) by (simp add: table_grows_def)
  have "list_all2 (variant_sound (resolved env tbl1) sz1 al) (ud_variants d) vs"
    using vs(1) by (rule list_all2_mono) (use align_up_Some(3)[OF sz] in \<open>auto intro: variant_sound_mono\<close>)
  then have "union_entry (resolved env tbl1) d ?l"
    using vs(2,3) align_up_Some(2)[OF sz] by (simp add: union_entry_def good_shape_def)
  from add_union[OF g(2) n none(3,2) this] table_grows_weaken[OF g(1)] show ?thesis
    unfolding built_def by (blast intro: table_grows_trans)
qed

lemma variant_fields_step:
  assumes ok: "table_ok env tbl1" and r: "resolved env tbl1 (fd_ty f) = Some (sz, al)" "good_align ma"
    and at: "align_up offset al = Some at" "u32_add at sz = Some o2"
    and IH: "built env active tbl1 tbl'" "list_all2 field_of fs ls" "max ma al dvd ma'"
      "map (resolved env tbl' \<circ> fd_ty) fs = map Some shapes" "in_order shapes o2 (map fl_offset ls) offset'"
      "\<forall>s \<in> set shapes. snd s dvd ma'"
  shows "list_all2 field_of (f # fs) (field_at f at # ls) \<and> ma dvd ma' \<and>
    (\<exists>shapes. map (resolved env tbl' \<circ> fd_ty) (f # fs) = map Some shapes \<and>
       in_order shapes offset (map fl_offset (field_at f at # ls)) offset' \<and> (\<forall>s \<in> set shapes. snd s dvd ma'))"
proof -
  have a: "good_align al" using resolved_good[OF ok r(1)] by (simp add: good_shape_def)
  then have "ma dvd max ma al" "al dvd max ma al" using r(2) by (auto intro!: good_align_dvd good_align_max)
  with IH(3) have dv: "ma dvd ma'" "al dvd ma'" by (auto intro: dvd_trans)
  have o2: "o2 = at + sz" using at(2) by (auto simp: u32_add_def split: if_splits)
  have "map (resolved env tbl' \<circ> fd_ty) (f # fs) = map Some ((sz, al) # shapes)"
    by (rule built_field_shapes[OF IH(1) r(1) IH(4)]) simp
  moreover have "in_order ((sz, al) # shapes) offset (map fl_offset (field_at f at # ls)) offset'"
    using align_up_Some(2,3)[OF at(1)] IH(5) o2 by (simp add: field_at_def)
  ultimately show ?thesis using IH(2,6) dv
    by (intro conjI exI[of _ "(sz, al) # shapes"]) (auto simp: field_of_def field_at_def)
qed

lemma build_sound:
  "\<And>tbl' s. table_ok env tbl \<Longrightarrow> build_struct env active tbl ty = Some (tbl', s) \<Longrightarrow> map_of (le_structs env) ty \<noteq> None \<Longrightarrow>
     built env active tbl tbl' \<and> map_option (\<lambda>l. (tl_size l, tl_align l)) (map_of (lt_structs tbl') ty) = Some s"
  "\<And>tbl' s. table_ok env tbl \<Longrightarrow> build_union env active tbl ty = Some (tbl', s) \<Longrightarrow> map_of (le_unions env) ty \<noteq> None \<Longrightarrow>
     built env active tbl tbl' \<and> map_option (\<lambda>l. (ul_size l, ul_align l)) (map_of (lt_unions tbl') ty) = Some s"
  "\<And>tbl' s. table_ok env tbl \<Longrightarrow> size_align_inner env active tbl ty = Some (tbl', s) \<Longrightarrow>
     built env active tbl tbl' \<and> resolved env tbl' ty = Some s"
  "\<And>tbl' shapes. table_ok env tbl \<Longrightarrow> field_shapes env active tbl fs = Some (tbl', shapes) \<Longrightarrow>
     built env active tbl tbl' \<and> map (resolved env tbl' \<circ> fd_ty) fs = map Some shapes"
  "\<And>tbl' ls offset' ma'. table_ok env tbl \<Longrightarrow> variant_fields env active tbl fs offset ma = Some (tbl', ls, offset', ma') \<Longrightarrow> good_align ma \<Longrightarrow>
     built env active tbl tbl' \<and> good_align ma' \<and> list_all2 field_of fs ls \<and> ma dvd ma' \<and>
     (\<exists>shapes. map (resolved env tbl' \<circ> fd_ty) fs = map Some shapes \<and>
        in_order shapes offset (map fl_offset ls) offset' \<and> (\<forall>s \<in> set shapes. snd s dvd ma'))"
  "\<And>tbl' ws sz' ma'. table_ok env tbl \<Longrightarrow> union_variants env active tbl vs sz ma = Some (tbl', ws, sz', ma') \<Longrightarrow> good_align ma \<Longrightarrow>
     built env active tbl tbl' \<and> good_align ma' \<and> ma dvd ma' \<and> sz \<le> sz' \<and>
     list_all2 (variant_sound (resolved env tbl') sz' ma') vs ws"
proof (induction env active tbl ty and env active tbl ty and env active tbl ty and env active tbl fs and
    env active tbl fs offset ma and env active tbl vs sz ma
    rule: build_struct_build_union_size_align_inner_field_shapes_variant_fields_union_variants.induct)
  case (1 env active tbl ty)
  show ?case
  proof (cases "map_of (lt_structs tbl) ty")
    case (Some l)
    with 1 show ?thesis by (auto simp: built_refl)
  next
    case None
    from 1(4) obtain d where d: "map_of (le_structs env) ty = Some d" by blast
    from 1(3) None d obtain v tbl1 shapes l where ty: "ty \<notin> active" and v: "is_value_type (le_interner env) ty = Some v"
      and f: "field_shapes env (insert ty active) tbl (sd_fields d) = Some (tbl1, shapes)"
      and l: "struct_layout d v shapes = Some l"
      and r: "tbl' = tbl1\<lparr>lt_structs := AList.update ty l (lt_structs tbl1)\<rparr>" "s = (tl_size l, tl_align l)"
      by (auto simp: bind_Some_iff split: if_splits)
    from 1(1)[OF None d ty v 1(2) f] have "built env (insert ty active) tbl tbl1"
      "map (resolved env tbl1 \<circ> fd_ty) (sd_fields d) = map Some shapes" by blast+
    from build_struct_step[OF 1(2) None d ty v this l] show ?thesis by (simp add: r update_conv')
  qed
next
  case (2 env active tbl ty)
  show ?case
  proof (cases "map_of (lt_unions tbl) ty")
    case (Some l)
    with 2 show ?thesis by (auto simp: built_refl)
  next
    case None
    from 2(4) obtain d where d: "map_of (le_unions env) ty = Some d" by blast
    from 2(3) None d obtain tbl1 vs sz al sz1 where ty: "ty \<notin> active"
      and f: "union_variants env (insert ty active) tbl (ud_variants d) 4 4 = Some (tbl1, vs, sz, al)"
      and sz: "align_up sz al = Some sz1"
      and r: "tbl' = tbl1\<lparr>lt_unions := AList.update ty \<lparr>ul_destructor = ud_destructor d, ul_name = ud_name d,
          ul_variants = vs, ul_size = sz1, ul_align = al\<rparr> (lt_unions tbl1)\<rparr>" "s = (sz1, al)"
      by (auto simp: bind_Some_iff split: if_splits)
    from 2(1)[OF None d ty 2(2) f good_align_num(3)] have "built env (insert ty active) tbl tbl1"
      "list_all2 (variant_sound (resolved env tbl1) sz al) (ud_variants d) vs" "good_align al" "4 dvd al" by auto
    from build_union_step[OF 2(2) None d ty this sz] show ?thesis by (simp add: r update_conv')
  qed
next
  case (3 env active tbl ty)
  from 3(4) obtain v where v: "is_value_type (le_interner env) ty = Some v" by (auto simp: bind_Some_iff)
  show ?case
  proof (cases v)
    case True
    with 3(1)[OF v True _ 3(3)] 3(2)[OF v True _ _ 3(3)] 3(4) v show ?thesis
      by (auto simp: resolved_def split: if_splits)
  next
    case False
    with 3(3,4) v show ?thesis by (auto simp: resolved_def built_refl)
  qed
next
  case (4 env active tbl)
  then show ?case by (auto simp: built_refl)
next
  case (5 env active tbl f fs)
  from 5(4) obtain tbl1 sz al tbl2 ss where s: "size_align_inner env active tbl (fd_ty f) = Some (tbl1, sz, al)"
    and f: "field_shapes env active tbl1 fs = Some (tbl2, ss)" and r: "tbl' = tbl2" "shapes = (sz, al) # ss"
    by (auto simp: bind_Some_iff)
  from 5(1)[OF 5(3) s] have b: "built env active tbl tbl1" "resolved env tbl1 (fd_ty f) = Some (sz, al)" by auto
  from 5(2)[OF s refl refl _ f] b(1) have c: "built env active tbl1 tbl2" "map (resolved env tbl2 \<circ> fd_ty) fs = map Some ss"
    by (auto simp: built_def o_def)
  from built_trans[OF b(1) c(1)] built_field_shapes[OF c(1) b(2) c(2) refl] show ?case by (simp add: r o_def)
next
  case (6 env active tbl offset ma)
  then show ?case by (auto simp: built_refl)
next
  case (7 env active tbl f fs offset ma)
  from 7(4) obtain tbl1 sz al at o2 rest where s: "size_align_inner env active tbl (fd_ty f) = Some (tbl1, sz, al)"
    and at: "align_up offset al = Some at" "u32_add at sz = Some o2"
    and f: "variant_fields env active tbl1 fs o2 (max ma al) = Some (tbl', rest, offset', ma')"
    and r: "ls = field_at f at # rest"
    by (auto simp: bind_Some_iff)
  from 7(1)[OF 7(3) s] have b: "built env active tbl tbl1" "resolved env tbl1 (fd_ty f) = Some (sz, al)" by auto
  have ok: "table_ok env tbl1" using b(1) by (simp add: built_def)
  have "good_align (max ma al)" using 7(5) resolved_good[OF ok b(2)] by (auto simp: good_shape_def intro: good_align_max)
  from 7(2)[OF s refl refl at ok f this] show ?case
    using variant_fields_step[OF ok b(2) 7(5) at] built_trans[OF b(1)] unfolding r by blast
next
  case (8 env active tbl sz ma)
  then show ?case by (auto simp: built_refl)
next
  case (9 env active tbl v vs sz ma)
  from 9(4) obtain tbl1 ls offset ma1 rest where f: "variant_fields env active tbl (vd_fields v) 4 ma = Some (tbl1, ls, offset, ma1)"
    and u: "union_variants env active tbl1 vs (max sz offset) ma1 = Some (tbl', rest, sz', ma')"
    and r: "ws = \<lparr>va_name = vd_name v, va_discriminant = vd_discriminant v, va_fields = ls\<rparr> # rest"
    by (auto simp: bind_Some_iff)
  from 9(1)[OF 9(3) f 9(5)] have b: "built env active tbl tbl1" "good_align ma1" "ma dvd ma1"
    and v: "variant_sound (resolved env tbl1) offset ma1 v \<lparr>va_name = vd_name v, va_discriminant = vd_discriminant v, va_fields = ls\<rparr>"
    by (auto simp: variant_sound_def o_def)
  from 9(2)[OF f refl refl refl _ u b(2)] b(1) have c: "built env active tbl1 tbl'" "good_align ma'" "ma1 dvd ma'" "max sz offset \<le> sz'"
    "list_all2 (variant_sound (resolved env tbl') sz' ma') vs rest" by (auto simp: built_def)
  from v c have "variant_sound (resolved env tbl') sz' ma' v \<lparr>va_name = vd_name v, va_discriminant = vd_discriminant v, va_fields = ls\<rparr>"
    by (auto intro: variant_sound_mono built_resolved)
  with c b built_trans[OF b(1) c(1)] show ?case by (auto simp: r intro: dvd_trans)
qed

text \<open>The definitions by their types, as the table is built over them.\<close>

definition layout_env_of :: "type_interner \<Rightarrow> struct_layout_def list \<Rightarrow> union_layout_def list \<Rightarrow> layout_env" where
  "layout_env_of interner structs unions =
     \<lparr>le_interner = interner, le_structs = foldl (\<lambda>m d. AList.update (sd_ty d) d m) [] structs,
      le_unions = foldl (\<lambda>m d. AList.update (ud_ty d) d m) [] unions\<rparr>"

lemma layout_build_env:
  "layout_build target interner structs unions =
     (let env = layout_env_of interner structs unions in do {
        tbl \<leftarrow> foldM (\<lambda>tbl ty. map_option fst (build_struct env {} tbl ty)) (layout_table_new target) (map fst (le_structs env));
        foldM (\<lambda>tbl ty. map_option fst (build_union env {} tbl ty)) tbl (map fst (le_unions env))
      })"
  by (simp add: layout_build_def layout_env_of_def Let_def)

lemma map_of_index:
  assumes "distinct (map key ds)" "d \<in> set ds"
  shows "map_of (foldl (\<lambda>m d. AList.update (key d) d m) [] ds) (key d) = Some d"
  using assms by (induction ds rule: rev_induct) (auto simp: update_conv' image_iff)

lemma build_structs_sound:
  assumes "foldM (\<lambda>tbl ty. map_option fst (build_struct env {} tbl ty)) tbl tys = Some tbl'" "table_ok env tbl"
    and "\<And>ty. ty \<in> set tys \<Longrightarrow> map_of (le_structs env) ty \<noteq> None"
  shows "built env {} tbl tbl' \<and> (\<forall>ty \<in> set tys. map_of (lt_structs tbl') ty \<noteq> None)"
  using assms
proof (induction tys arbitrary: tbl)
  case (Cons ty tys)
  from Cons.prems(1) obtain tbl1 s where s: "build_struct env {} tbl ty = Some (tbl1, s)"
    and f: "foldM (\<lambda>tbl ty. map_option fst (build_struct env {} tbl ty)) tbl1 tys = Some tbl'"
    by (auto simp: bind_Some_iff)
  from build_sound(1)[OF Cons.prems(2) s] Cons.prems(3) obtain l where b: "built env {} tbl tbl1"
    and l: "map_of (lt_structs tbl1) ty = Some l" by (auto simp: map_option_eq_Some)
  have c: "built env {} tbl1 tbl'" "\<forall>ty \<in> set tys. map_of (lt_structs tbl') ty \<noteq> None"
    using Cons.IH[OF f] b Cons.prems(3) by (auto simp: built_def)
  then have "map_of (lt_structs tbl') ty = Some l" using table_grows_entry(1)[OF _ l] by (auto simp: built_def)
  with c built_trans[OF b c(1)] show ?case by simp
qed (simp add: built_refl)

lemma build_unions_sound:
  assumes "foldM (\<lambda>tbl ty. map_option fst (build_union env {} tbl ty)) tbl tys = Some tbl'" "table_ok env tbl"
    and "\<And>ty. ty \<in> set tys \<Longrightarrow> map_of (le_unions env) ty \<noteq> None"
  shows "built env {} tbl tbl' \<and> (\<forall>ty \<in> set tys. map_of (lt_unions tbl') ty \<noteq> None)"
  using assms
proof (induction tys arbitrary: tbl)
  case (Cons ty tys)
  from Cons.prems(1) obtain tbl1 s where s: "build_union env {} tbl ty = Some (tbl1, s)"
    and f: "foldM (\<lambda>tbl ty. map_option fst (build_union env {} tbl ty)) tbl1 tys = Some tbl'"
    by (auto simp: bind_Some_iff)
  from build_sound(2)[OF Cons.prems(2) s] Cons.prems(3) obtain l where b: "built env {} tbl tbl1"
    and l: "map_of (lt_unions tbl1) ty = Some l" by (auto simp: map_option_eq_Some)
  have c: "built env {} tbl1 tbl'" "\<forall>ty \<in> set tys. map_of (lt_unions tbl') ty \<noteq> None"
    using Cons.IH[OF f] b Cons.prems(3) by (auto simp: built_def)
  then have "map_of (lt_unions tbl') ty = Some l" using table_grows_entry(2)[OF _ l] by (auto simp: built_def)
  with c built_trans[OF b c(1)] show ?case by simp
qed (simp add: built_refl)

lemma table_ok_new: "good_shape (tg_ptr_size target, tg_ptr_align target) \<Longrightarrow> table_ok env (layout_table_new target)"
  by (simp add: table_ok_def layout_table_new_def ranked_def laid_def)

lemma resolved_size_align:
  assumes ok: "table_ok env tbl" and all: "\<And>ty. map_of (le_structs env) ty \<noteq> None \<Longrightarrow> map_of (lt_structs tbl) ty \<noteq> None"
    and r: "resolved env tbl ty = Some s"
  shows "size_align tbl (le_interner env) ty = Some s"
proof -
  have e: "(case map_of (lt_structs tbl) ty of Some l \<Rightarrow> Some (tl_size l, tl_align l) | None \<Rightarrow> k) =
      (if map_of (le_structs env) ty \<noteq> None then map_option (\<lambda>l. (tl_size l, tl_align l)) (map_of (lt_structs tbl) ty) else k)" for k
    using all[of ty] table_ok_keys(1)[OF ok, of ty] by auto
  from r obtain v where v: "is_value_type (le_interner env) ty = Some v" by (auto simp: resolved_def bind_Some_iff)
  show ?thesis using r unfolding resolved_def size_align_def v e by (simp split: if_splits)
qed

lemma layout_build_table:
  assumes build: "layout_build target interner structs unions = Some tbl" and t: "good_shape (tg_ptr_size target, tg_ptr_align target)"
    and env: "env = layout_env_of interner structs unions"
  shows "table_ok env tbl"
    "\<And>ty. map_of (le_structs env) ty \<noteq> None \<Longrightarrow> map_of (lt_structs tbl) ty \<noteq> None"
    "\<And>ty. map_of (le_unions env) ty \<noteq> None \<Longrightarrow> map_of (lt_unions tbl) ty \<noteq> None"
proof -
  from build obtain tbl1 where s: "foldM (\<lambda>tbl ty. map_option fst (build_struct env {} tbl ty)) (layout_table_new target) (map fst (le_structs env)) = Some tbl1"
    and u: "foldM (\<lambda>tbl ty. map_option fst (build_union env {} tbl ty)) tbl1 (map fst (le_unions env)) = Some tbl"
    by (auto simp: layout_build_env env Let_def bind_Some_iff)
  have mem: "ty \<in> set (map fst xs) \<longleftrightarrow> map_of xs ty \<noteq> None" for ty and xs :: "(type_id \<times> 'x) list"
    by (simp add: map_of_eq_None_iff)
  have "built env {} (layout_table_new target) tbl1 \<and> (\<forall>ty \<in> set (map fst (le_structs env)). map_of (lt_structs tbl1) ty \<noteq> None)"
    by (rule build_structs_sound[OF s table_ok_new[OF t]]) (rule mem[THEN iffD1])
  then have b: "built env {} (layout_table_new target) tbl1"
    and b': "map_of (le_structs env) ty \<noteq> None \<Longrightarrow> map_of (lt_structs tbl1) ty \<noteq> None" for ty
    using mem[of ty "le_structs env"] by blast+
  have "built env {} tbl1 tbl \<and> (\<forall>ty \<in> set (map fst (le_unions env)). map_of (lt_unions tbl) ty \<noteq> None)"
    by (rule build_unions_sound[OF u]) (use b mem[THEN iffD1] in \<open>auto simp: built_def\<close>)
  then have c: "built env {} tbl1 tbl"
    and c': "map_of (le_unions env) ty \<noteq> None \<Longrightarrow> map_of (lt_unions tbl) ty \<noteq> None" for ty
    using mem[of ty "le_unions env"] by blast+
  show "table_ok env tbl" using c by (simp add: built_def)
  show "map_of (le_structs env) ty \<noteq> None \<Longrightarrow> map_of (lt_structs tbl) ty \<noteq> None" for ty
    using b' c table_grows_entry(1)[of "{}" tbl1 tbl] unfolding built_def by (metis not_None_eq)
  show "map_of (le_unions env) ty \<noteq> None \<Longrightarrow> map_of (lt_unions tbl) ty \<noteq> None" for ty by (rule c')
qed

lemma layout_build_sound:
  assumes build: "layout_build target interner structs unions = Some tbl" and t: "good_shape (tg_ptr_size target, tg_ptr_align target)"
    and env: "env = layout_env_of interner structs unions"
  shows "map_of (le_structs env) ty = Some d \<Longrightarrow>
      \<exists>l. map_of (lt_structs tbl) ty = Some l \<and> struct_entry interner (size_align tbl interner) ty d l"
    "map_of (le_unions env) ty = Some u \<Longrightarrow> \<exists>l. map_of (lt_unions tbl) ty = Some l \<and> union_entry (size_align tbl interner) u l"
proof -
  note ok = layout_build_table(1)[OF assms] and all = layout_build_table(2)[OF assms] and c' = layout_build_table(3)[OF assms]
  have r: "resolved env tbl ty = Some s \<Longrightarrow> size_align tbl interner ty = Some s" for ty s
    using resolved_size_align[OF ok all] by (simp add: env layout_env_of_def)
  have i: "le_interner env = interner" by (simp add: env layout_env_of_def)
  show "map_of (le_structs env) ty = Some d \<Longrightarrow>
      \<exists>l. map_of (lt_structs tbl) ty = Some l \<and> struct_entry interner (size_align tbl interner) ty d l"
    using all[of ty] ok unfolding table_ok_def i
    by (metis (no_types, lifting) struct_entry_mono[of "resolved env tbl" "size_align tbl interner", OF r] not_None_eq option.inject)
  show "map_of (le_unions env) ty = Some u \<Longrightarrow> \<exists>l. map_of (lt_unions tbl) ty = Some l \<and> union_entry (size_align tbl interner) u l"
    using c'[of ty] ok unfolding table_ok_def
    by (metis (no_types, lifting) union_entry_mono[of "resolved env tbl" "size_align tbl interner", OF r] not_None_eq option.inject)
qed

section \<open>The table is built\<close>

text \<open>
  The recursion through value types ends without a panic when the types can be weighed: every
  definition outweighs its fields, padding of up to \<open>A\<close> bytes each included, and every weight is a
  \<open>u32\<close>. A type that contains itself by value has no weight.
\<close>

definition field_weight :: "nat \<Rightarrow> (type_id \<Rightarrow> nat) \<Rightarrow> layout_field_def list \<Rightarrow> nat" where
  "field_weight A w fs = (\<Sum>f \<leftarrow> fs. w (fd_ty f) + A)"

definition type_fits :: "nat \<Rightarrow> (type_id \<Rightarrow> nat) \<Rightarrow> target_layout \<Rightarrow> layout_env \<Rightarrow> type_id \<Rightarrow> bool" where
  "type_fits A w target env ty \<longleftrightarrow>
     (case is_value_type (le_interner env) ty of
        None \<Rightarrow> False
      | Some v \<Rightarrow>
          if v then map_of (le_structs env) ty \<noteq> None \<or> map_of (le_unions env) ty \<noteq> None
          else (case scalar_shape (le_interner env) target ty of None \<Rightarrow> False | Some (s, a) \<Rightarrow> s \<le> w ty \<and> a \<le> A))"

abbreviation member_fits :: "nat \<Rightarrow> (type_id \<Rightarrow> nat) \<Rightarrow> target_layout \<Rightarrow> layout_env \<Rightarrow> layout_field_def \<Rightarrow> bool" where
  "member_fits A w target env f \<equiv> type_fits A w target env (fd_ty f)"

definition layout_fits :: "nat \<Rightarrow> (type_id \<Rightarrow> nat) \<Rightarrow> target_layout \<Rightarrow> layout_env \<Rightarrow> bool" where
  "layout_fits A w target env \<longleftrightarrow>
     4 \<le> A \<and>
     (\<forall>(ty, d) \<in> set (le_structs env).
        is_value_type (le_interner env) ty \<noteq> None \<and> list_all (member_fits A w target env) (sd_fields d) \<and>
        field_weight A w (sd_fields d) + A \<le> w ty \<and> w ty < 2 ^ 32) \<and>
     (\<forall>(ty, d) \<in> set (le_unions env).
        4 + A \<le> w ty \<and> w ty < 2 ^ 32 \<and>
        (\<forall>v \<in> set (ud_variants d). list_all (member_fits A w target env) (vd_fields v) \<and>
           4 + field_weight A w (vd_fields v) + A \<le> w ty))"

definition table_fits :: "nat \<Rightarrow> (type_id \<Rightarrow> nat) \<Rightarrow> target_layout \<Rightarrow> layout_env \<Rightarrow> layout_table \<Rightarrow> bool" where
  "table_fits A w target env tbl \<longleftrightarrow>
     table_ok env tbl \<and> lt_target tbl = target \<and>
     (\<forall>ty l. map_of (lt_structs tbl) ty = Some l \<longrightarrow> tl_size l \<le> w ty \<and> tl_align l \<le> A) \<and>
     (\<forall>ty l. map_of (lt_unions tbl) ty = Some l \<longrightarrow> ul_size l \<le> w ty \<and> ul_align l \<le> A)"

abbreviation shape_fits :: "nat \<Rightarrow> (type_id \<Rightarrow> nat) \<Rightarrow> layout_field_def \<Rightarrow> nat \<times> nat \<Rightarrow> bool" where
  "shape_fits A w f s \<equiv> fst s \<le> w (fd_ty f) \<and> snd s \<le> A"

lemma shapes_fit_weight:
  "list_all2 (shape_fits A w) fs shapes \<Longrightarrow> (\<Sum>s \<leftarrow> shapes. fst s + snd s) \<le> field_weight A w fs"
  by (induction rule: list_all2_induct) (auto simp: field_weight_def)

lemma field_weight_member: "f \<in> set fs \<Longrightarrow> w (fd_ty f) + A \<le> field_weight A w fs"
  unfolding field_weight_def by (rule member_le_sum_list) simp_all

lemma place_fields_align_bound:
  assumes "place_fields packed shapes order (offs, offset, ma) = Some (offs', offset', ma')" "ma \<le> A"
    and "\<And>k. k \<in> set order \<Longrightarrow> snd (shapes ! k) \<le> A"
  shows "ma' \<le> A"
  using assms
proof (induction order arbitrary: offs offset ma)
  case (Cons k order)
  from Cons.prems(1) obtain offs1 o2 where rest: "place_fields packed shapes order
      (offs1, o2, if packed then ma else max ma (snd (shapes ! k))) = Some (offs', offset', ma')"
    by (auto simp: bind_Some_iff nth_opt_Some_iff case_prod_beta)
  show ?case by (rule Cons.IH[OF rest]) (use Cons.prems in auto)
qed simp

lemma align_up_fits:
  assumes "0 < al" "al \<le> A" "offset + A \<le> W" "W < 2 ^ 32"
  obtains r where "align_up offset al = Some r" "r \<le> W" "r \<le> offset + A"
  using assms div_ceil_least(2)[OF assms(1), of offset] by (simp add: align_up_def Let_def)

lemma struct_layout_fits:
  assumes good: "list_all good_shape shapes" and A: "4 \<le> A" and al: "\<And>s. s \<in> set shapes \<Longrightarrow> snd s \<le> A"
    and W: "(\<Sum>s \<leftarrow> shapes. fst s + snd s) + A \<le> W" "W < 2 ^ 32"
  shows "\<exists>l. struct_layout d v shapes = Some l \<and> tl_size l \<le> W \<and> tl_align l \<le> A"
proof -
  let ?order = "field_order (\<not> sd_packed d \<and> \<not> sd_keep_order d) shapes"
  let ?ma = "if v then 1 else 4 :: nat"
  have g: "good_align (snd (shapes ! k))" if "k < length shapes" for k
    using good that by (auto simp: list_all_length good_shape_def case_prod_beta)
  obtain offs offset ma where p: "place_fields (sd_packed d) shapes ?order (replicate (length shapes) 0, 0, ?ma) = Some (offs, offset, ma)"
    and offset: "offset \<le> (\<Sum>s \<leftarrow> shapes. fst s + snd s)"
    using place_fields_total[of 0 shapes ?order "replicate (length shapes) 0" "sd_packed d" ?ma] W good_align_pos[OF g]
    by (auto simp: field_order_perm field_order_sum[where f = "\<lambda>s. fst s + snd s"])
  have "good_align ma" by (rule place_fields_align[OF p]) (auto simp: good_align_num field_order_perm g simp flip: One_nat_def)
  then have "0 < ma" by (rule good_align_pos)
  moreover have "ma \<le> A" by (rule place_fields_align_bound[OF p]) (use A al in \<open>auto simp: field_order_perm\<close>)
  moreover have "offset + A \<le> W" using offset W by simp
  ultimately obtain sz where "align_up offset ma = Some sz" "sz \<le> W" "ma \<le> A" "offset \<le> W" by (auto elim: align_up_fits[OF _ _ _ W(2)])
  then show ?thesis using A by (auto simp: struct_layout_def p)
qed

lemma table_fits_struct:
  assumes "table_fits A w target env tbl" "tl_size l \<le> w ty" "tl_align l \<le> A"
    and "table_ok env (tbl\<lparr>lt_structs := AList.update ty l (lt_structs tbl)\<rparr>)"
  shows "table_fits A w target env (tbl\<lparr>lt_structs := AList.update ty l (lt_structs tbl)\<rparr>)"
  using assms by (auto simp: table_fits_def update_conv')

lemma table_fits_union:
  assumes "table_fits A w target env tbl" "ul_size l \<le> w ty" "ul_align l \<le> A"
    and "table_ok env (tbl\<lparr>lt_unions := AList.update ty l (lt_unions tbl)\<rparr>)"
  shows "table_fits A w target env (tbl\<lparr>lt_unions := AList.update ty l (lt_unions tbl)\<rparr>)"
  using assms by (auto simp: table_fits_def update_conv')

lemma table_fits_ok: "table_fits A w target env tbl \<Longrightarrow> table_ok env tbl"
  by (simp add: table_fits_def)

lemma layout_fits_struct:
  assumes "layout_fits A w target env" "map_of (le_structs env) ty = Some d"
  shows "is_value_type (le_interner env) ty \<noteq> None" "list_all (member_fits A w target env) (sd_fields d)"
    "field_weight A w (sd_fields d) + A \<le> w ty" "w ty < 2 ^ 32" "4 \<le> A"
    "\<And>f. f \<in> set (sd_fields d) \<Longrightarrow> w (fd_ty f) < w ty"
proof -
  have "(ty, d) \<in> set (le_structs env)" using assms(2) by (rule map_of_SomeD)
  with assms(1) show "is_value_type (le_interner env) ty \<noteq> None" "list_all (member_fits A w target env) (sd_fields d)"
    and fw: "field_weight A w (sd_fields d) + A \<le> w ty" and "w ty < 2 ^ 32" and A: "4 \<le> A"
    unfolding layout_fits_def by auto
  show "w (fd_ty f) < w ty" if "f \<in> set (sd_fields d)" for f using field_weight_member[OF that, of w A] fw A by simp
qed

lemma layout_fits_union:
  assumes "layout_fits A w target env" "map_of (le_unions env) ty = Some d"
  shows "4 + A \<le> w ty" "w ty < 2 ^ 32" "4 \<le> A"
    "\<And>v. v \<in> set (ud_variants d) \<Longrightarrow> list_all (member_fits A w target env) (vd_fields v) \<and> 4 + field_weight A w (vd_fields v) + A \<le> w ty"
    "\<And>v f. v \<in> set (ud_variants d) \<Longrightarrow> f \<in> set (vd_fields v) \<Longrightarrow> w (fd_ty f) < w ty"
proof -
  have "(ty, d) \<in> set (le_unions env)" using assms(2) by (rule map_of_SomeD)
  with assms(1) show "4 + A \<le> w ty" "w ty < 2 ^ 32" "4 \<le> A"
    and fw: "\<And>v. v \<in> set (ud_variants d) \<Longrightarrow> list_all (member_fits A w target env) (vd_fields v) \<and> 4 + field_weight A w (vd_fields v) + A \<le> w ty"
    unfolding layout_fits_def by auto
  show "w (fd_ty f) < w ty" if "v \<in> set (ud_variants d)" "f \<in> set (vd_fields v)" for v f
    using field_weight_member[OF that(2), of w A] fw[OF that(1)] by simp
qed

lemma struct_fits_step:
  assumes lf: "layout_fits A w target env" and tf: "table_fits A w target env tbl"
    and none: "map_of (lt_structs tbl) ty = None" "map_of (le_structs env) ty = Some d" "ty \<notin> active"
    and v: "is_value_type (le_interner env) ty = Some v"
    and f: "field_shapes env (insert ty active) tbl (sd_fields d) = Some (tbl1, shapes)"
    and t: "table_fits A w target env tbl1" and sh: "list_all2 (shape_fits A w) (sd_fields d) shapes"
  shows "\<exists>tbl' s. build_struct env active tbl ty = Some (tbl', s) \<and> table_fits A w target env tbl' \<and> fst s \<le> w ty \<and> snd s \<le> A"
proof -
  note fits = layout_fits_struct[OF lf none(2)]
  have b: "built env (insert ty active) tbl tbl1" "map (resolved env tbl1 \<circ> fd_ty) (sd_fields d) = map Some shapes"
    using build_sound(4)[OF table_fits_ok[OF tf] f] by blast+
  have good: "list_all good_shape shapes"
    using map_Some_preimage[OF b(2)] resolved_good[OF table_fits_ok[OF t]] by (fastforce simp: list_all_iff)
  have al: "snd s \<le> A" if "s \<in> set shapes" for s
    using sh that by (auto simp: list_all2_conv_all_nth in_set_conv_nth)
  obtain l where l: "struct_layout d v shapes = Some l" "tl_size l \<le> w ty" "tl_align l \<le> A"
    using struct_layout_fits[OF good fits(5) al _ fits(4)] shapes_fit_weight[OF sh] fits(3) by fastforce
  have "table_ok env (tbl1\<lparr>lt_structs := AList.update ty l (lt_structs tbl1)\<rparr>)"
    using build_struct_step[OF table_fits_ok[OF tf] none v b l(1)] by (simp add: built_def)
  from table_fits_struct[where ty = ty, OF t l(2,3) this] none v f l show ?thesis by simp
qed

lemma union_fits_step:
  assumes lf: "layout_fits A w target env" and tf: "table_fits A w target env tbl"
    and none: "map_of (lt_unions tbl) ty = None" "map_of (le_unions env) ty = Some d" "ty \<notin> active"
    and f: "union_variants env (insert ty active) tbl (ud_variants d) 4 4 = Some (tbl1, vs, sz, al)"
    and t: "table_fits A w target env tbl1" and sz: "sz \<le> w ty - A" "al \<le> A"
  shows "\<exists>tbl' s. build_union env active tbl ty = Some (tbl', s) \<and> table_fits A w target env tbl' \<and> fst s \<le> w ty \<and> snd s \<le> A"
proof -
  note fits = layout_fits_union[OF lf none(2)]
  have b: "built env (insert ty active) tbl tbl1" "list_all2 (variant_sound (resolved env tbl1) sz al) (ud_variants d) vs"
    "good_align al" "4 dvd al"
    using build_sound(6)[OF table_fits_ok[OF tf] f good_align_num(3)] by blast+
  have "sz + A \<le> w ty" using sz(1) fits(1) by simp
  then obtain r where r: "align_up sz al = Some r" "r \<le> w ty"
    by (rule align_up_fits[OF good_align_pos[OF b(3)] sz(2) _ fits(2)])
  note ok = build_union_step[OF table_fits_ok[OF tf] none b r(1), unfolded built_def, THEN conjunct2]
  from table_fits_union[OF t _ _ ok] none f r sz(2) show ?thesis by (simp add: case_prod_beta)
qed

lemma layouts_total:
  "layout_fits A w target env \<Longrightarrow> table_fits A w target env tbl \<Longrightarrow> map_of (le_structs env) ty \<noteq> None \<Longrightarrow> (\<forall>t \<in> active. w ty < w t) \<Longrightarrow>
     \<exists>tbl' s. build_struct env active tbl ty = Some (tbl', s) \<and> table_fits A w target env tbl' \<and> fst s \<le> w ty \<and> snd s \<le> A"
  "layout_fits A w target env \<Longrightarrow> table_fits A w target env tbl \<Longrightarrow> map_of (le_unions env) ty \<noteq> None \<Longrightarrow> (\<forall>t \<in> active. w ty < w t) \<Longrightarrow>
     \<exists>tbl' s. build_union env active tbl ty = Some (tbl', s) \<and> table_fits A w target env tbl' \<and> fst s \<le> w ty \<and> snd s \<le> A"
  "layout_fits A w target env \<Longrightarrow> table_fits A w target env tbl \<Longrightarrow> type_fits A w target env ty \<Longrightarrow> (\<forall>t \<in> active. w ty < w t) \<Longrightarrow>
     \<exists>tbl' s. size_align_inner env active tbl ty = Some (tbl', s) \<and> table_fits A w target env tbl' \<and> fst s \<le> w ty \<and> snd s \<le> A"
  "layout_fits A w target env \<Longrightarrow> table_fits A w target env tbl \<Longrightarrow> list_all (member_fits A w target env) fs \<Longrightarrow>
     (\<forall>t \<in> active. \<forall>f \<in> set fs. w (fd_ty f) < w t) \<Longrightarrow>
     \<exists>tbl' shapes. field_shapes env active tbl fs = Some (tbl', shapes) \<and> table_fits A w target env tbl' \<and> list_all2 (shape_fits A w) fs shapes"
  "layout_fits A w target env \<Longrightarrow> table_fits A w target env tbl \<Longrightarrow> list_all (member_fits A w target env) fs \<Longrightarrow>
     (\<forall>t \<in> active. \<forall>f \<in> set fs. w (fd_ty f) < w t) \<Longrightarrow> offset + field_weight A w fs < 2 ^ 32 \<Longrightarrow> good_align ma \<Longrightarrow> ma \<le> A \<Longrightarrow>
     \<exists>tbl' ls offset' ma'. variant_fields env active tbl fs offset ma = Some (tbl', ls, offset', ma') \<and> table_fits A w target env tbl' \<and>
       offset' \<le> offset + field_weight A w fs \<and> ma' \<le> A"
  "layout_fits A w target env \<Longrightarrow> table_fits A w target env tbl \<Longrightarrow>
     (\<And>v. v \<in> set vs \<Longrightarrow> list_all (member_fits A w target env) (vd_fields v) \<and> 4 + field_weight A w (vd_fields v) \<le> W \<and>
        (\<forall>t \<in> active. \<forall>f \<in> set (vd_fields v). w (fd_ty f) < w t)) \<Longrightarrow> sz \<le> W \<Longrightarrow> W < 2 ^ 32 \<Longrightarrow> good_align ma \<Longrightarrow> ma \<le> A \<Longrightarrow>
     \<exists>tbl' ws sz' ma'. union_variants env active tbl vs sz ma = Some (tbl', ws, sz', ma') \<and> table_fits A w target env tbl' \<and> sz' \<le> W \<and> ma' \<le> A"
proof (induction env active tbl ty and env active tbl ty and env active tbl ty and env active tbl fs and
    env active tbl fs offset ma and env active tbl vs sz ma arbitrary: and and and and and W
    rule: build_struct_build_union_size_align_inner_field_shapes_variant_fields_union_variants.induct)
  case (1 env active tbl ty)
  have ok: "table_ok env tbl" using 1(3) by (simp add: table_fits_def)
  show ?case
  proof (cases "map_of (lt_structs tbl) ty")
    case (Some l)
    with 1(3) show ?thesis by (auto simp: table_fits_def)
  next
    case None
    from 1(4) obtain d where d: "map_of (le_structs env) ty = Some d" by blast
    note fits = layout_fits_struct[OF 1(2) d]
    from fits(1) obtain v where v: "is_value_type (le_interner env) ty = Some v" by blast
    have ty: "ty \<notin> active" using 1(5) by auto
    from 1(1)[OF None d ty v 1(2,3) fits(2)] 1(5) fits(6) obtain tbl1 shapes
      where f: "field_shapes env (insert ty active) tbl (sd_fields d) = Some (tbl1, shapes)"
        and t: "table_fits A w target env tbl1" and sh: "list_all2 (shape_fits A w) (sd_fields d) shapes"
      by (fastforce intro: less_trans)
    from struct_fits_step[OF 1(2,3) None d ty v f t sh] show ?thesis .
  qed
next
  case (2 env active tbl ty)
  show ?case
  proof (cases "map_of (lt_unions tbl) ty")
    case (Some l)
    with 2(3) show ?thesis by (auto simp: table_fits_def)
  next
    case None
    from 2(4) obtain d where d: "map_of (le_unions env) ty = Some d" by blast
    note fits = layout_fits_union[OF 2(2) d]
    have ty: "ty \<notin> active" using 2(5) by auto
    have "\<exists>tbl' ws sz' ma'. union_variants env (insert ty active) tbl (ud_variants d) 4 4 = Some (tbl', ws, sz', ma') \<and>
        table_fits A w target env tbl' \<and> sz' \<le> w ty - A \<and> ma' \<le> A"
    proof (rule 2(1)[OF None d ty 2(2,3)])
      fix v assume "v \<in> set (ud_variants d)"
      with fits(4)[OF this] fits(5)[OF this] 2(5)
      show "list_all (member_fits A w target env) (vd_fields v) \<and> 4 + field_weight A w (vd_fields v) \<le> w ty - A \<and>
          (\<forall>t \<in> insert ty active. \<forall>f \<in> set (vd_fields v). w (fd_ty f) < w t)"
        by (auto intro: less_trans)
    qed (use fits(1,2,3) in \<open>auto simp: good_align_num\<close>)
    then show ?thesis by (blast intro: union_fits_step[OF 2(2,3) None d ty])
  qed
next
  case (3 env active tbl ty)
  from 3(5) obtain v where v: "is_value_type (le_interner env) ty = Some v" by (auto simp: type_fits_def split: option.splits)
  have t: "lt_target tbl = target" using 3(4) by (simp add: table_fits_def)
  show ?case
  proof (cases v)
    case True
    with 3(1)[OF v True _ 3(3,4) _ 3(6)] 3(2)[OF v True _ _ 3(3,4) _ 3(6)] 3(5) v show ?thesis
      by (auto simp: type_fits_def)
  next
    case False
    with 3(4,5) v t show ?thesis by (auto simp: type_fits_def split: option.splits)
  qed
next
  case (4 env active tbl)
  then show ?case by simp
next
  case (5 env active tbl f fs)
  from 5(1)[OF 5(3,4)] 5(5,6) obtain tbl1 s where s: "size_align_inner env active tbl (fd_ty f) = Some (tbl1, s)"
    and t: "table_fits A w target env tbl1" "shape_fits A w f s" by auto
  from 5(2)[OF s refl prod.collapse 5(3) t(1)] 5(5,6) obtain tbl2 shapes
    where "field_shapes env active tbl1 fs = Some (tbl2, shapes)" "table_fits A w target env tbl2" "list_all2 (shape_fits A w) fs shapes"
    by auto
  with s t show ?case by (simp add: case_prod_beta)
next
  case (6 env active tbl offset ma)
  then show ?case by (simp add: field_weight_def)
next
  case (7 env active tbl f fs offset ma)
  have fw: "field_weight A w (f # fs) = w (fd_ty f) + A + field_weight A w fs" by (simp add: field_weight_def)
  from 7(1)[OF 7(3,4)] 7(5,6) obtain tbl1 sz al where s: "size_align_inner env active tbl (fd_ty f) = Some (tbl1, sz, al)"
    and t: "table_fits A w target env tbl1" "sz \<le> w (fd_ty f)" "al \<le> A" by auto
  have g: "good_align al"
    using build_sound(3)[OF table_fits_ok[OF 7(4)] s] resolved_good[OF table_fits_ok[OF t(1)]] by (auto simp: good_shape_def)
  have "offset + A \<le> 2 ^ 32 - 1" using 7(7) fw by simp
  then obtain at where at: "align_up offset al = Some at" "at \<le> offset + A"
    by (rule align_up_fits[OF good_align_pos[OF g] t(3)]) auto
  have o2: "u32_add at sz = Some (at + sz)" using at(2) t(2) 7(7) fw by (simp add: u32_add_def)
  have "\<exists>tbl' ls offset' ma'. variant_fields env active tbl1 fs (at + sz) (max ma al) = Some (tbl', ls, offset', ma') \<and>
      table_fits A w target env tbl' \<and> offset' \<le> at + sz + field_weight A w fs \<and> ma' \<le> A"
    by (rule 7(2)[OF s refl refl at(1) o2 7(3) t(1)]) (use 7(5-9) fw at(2) t g in \<open>auto intro: good_align_max\<close>)
  with s at o2 t(2) fw show ?case by fastforce
next
  case (8 env active tbl sz ma)
  then show ?case by simp
next
  case (9 env active tbl v vs sz ma)
  from 9(5)[of v] 9(7) have v: "list_all (member_fits A w target env) (vd_fields v)" "4 + field_weight A w (vd_fields v) \<le> W"
    "4 + field_weight A w (vd_fields v) < 2 ^ 32" "\<forall>t \<in> active. \<forall>f \<in> set (vd_fields v). w (fd_ty f) < w t" by auto
  from 9(1)[OF 9(3,4) v(1,4,3) 9(8,9)] obtain tbl1 ls offset ma1
    where f: "variant_fields env active tbl (vd_fields v) 4 ma = Some (tbl1, ls, offset, ma1)"
      and t: "table_fits A w target env tbl1" "offset \<le> W" "ma1 \<le> A" using v(2) by fastforce
  have g: "good_align ma1" using build_sound(5)[OF table_fits_ok[OF 9(4)] f 9(8)] by blast
  have "\<exists>tbl' ws sz' ma'. union_variants env active tbl1 vs (max sz offset) ma1 = Some (tbl', ws, sz', ma') \<and>
      table_fits A w target env tbl' \<and> sz' \<le> W \<and> ma' \<le> A"
    by (rule 9(2)[OF f refl refl refl 9(3) t(1)]) (use 9(5-7) t g in auto)
  with f show ?case by fastforce
qed

lemma build_structs_total:
  assumes "layout_fits A w target env" "table_fits A w target env tbl" "\<And>ty. ty \<in> set tys \<Longrightarrow> map_of (le_structs env) ty \<noteq> None"
  shows "\<exists>tbl'. foldM (\<lambda>tbl ty. map_option fst (build_struct env {} tbl ty)) tbl tys = Some tbl' \<and> table_fits A w target env tbl'"
proof (rule foldM_total[where P = "table_fits A w target env"])
  show "\<exists>t. map_option fst (build_struct env {} s ty) = Some t \<and> table_fits A w target env t"
    if "ty \<in> set tys" "table_fits A w target env s" for s ty
    using layouts_total(1)[OF assms(1) that(2) assms(3)[OF that(1)], of "{}"] by auto
qed (rule assms(2))

lemma build_unions_total:
  assumes "layout_fits A w target env" "table_fits A w target env tbl" "\<And>ty. ty \<in> set tys \<Longrightarrow> map_of (le_unions env) ty \<noteq> None"
  shows "\<exists>tbl'. foldM (\<lambda>tbl ty. map_option fst (build_union env {} tbl ty)) tbl tys = Some tbl' \<and> table_fits A w target env tbl'"
proof (rule foldM_total[where P = "table_fits A w target env"])
  show "\<exists>t. map_option fst (build_union env {} s ty) = Some t \<and> table_fits A w target env t"
    if "ty \<in> set tys" "table_fits A w target env s" for s ty
    using layouts_total(2)[OF assms(1) that(2) assms(3)[OF that(1)], of "{}"] by auto
qed (rule assms(2))

lemma layout_build_total:
  assumes "layout_fits A w target (layout_env_of interner structs unions)" "good_shape (tg_ptr_size target, tg_ptr_align target)"
  shows "\<exists>tbl. layout_build target interner structs unions = Some tbl"
proof -
  let ?env = "layout_env_of interner structs unions"
  have "table_fits A w target ?env (layout_table_new target)"
    using table_ok_new[OF assms(2)] by (simp add: table_fits_def layout_table_new_def)
  from build_structs_total[OF assms(1) this, of "map fst (le_structs ?env)"] obtain tbl
    where s: "foldM (\<lambda>tbl ty. map_option fst (build_struct ?env {} tbl ty)) (layout_table_new target) (map fst (le_structs ?env)) = Some tbl"
      and t: "table_fits A w target ?env tbl" by (auto simp: map_of_eq_None_iff)
  from build_unions_total[OF assms(1) t, of "map fst (le_unions ?env)"] s show ?thesis
    by (auto simp: layout_build_env map_of_eq_None_iff Let_def)
qed

section \<open>What layouts guarantee\<close>

definition struct_promise :: "layout_table \<Rightarrow> type_interner \<Rightarrow> struct_layout_def \<Rightarrow> bool" where
  "struct_promise tbl interner d \<longleftrightarrow>
     (\<exists>l shapes offs.
        lt_get tbl (sd_ty d) = Some l \<and> map (size_align tbl interner \<circ> fd_ty) (sd_fields d) = map Some shapes \<and>
        tl_fields l = map2 field_at (sd_fields d) offs \<and> tl_packed l = sd_packed d \<and>
        fields_sound (sd_packed d) shapes offs (tl_size l) (tl_align l) \<and>
        (sd_packed d \<or> sd_keep_order d \<or>
         sum_list (map fst shapes) \<le> tl_size l \<and> tl_size l < sum_list (map fst shapes) + tl_align l))"

definition union_promise :: "layout_table \<Rightarrow> type_interner \<Rightarrow> union_layout_def \<Rightarrow> bool" where
  "union_promise tbl interner d \<longleftrightarrow>
     (\<exists>l. lt_union tbl (ud_ty d) = Some l \<and> union_entry (size_align tbl interner) d l)"

lemma struct_entry_promise:
  assumes "map_of (lt_structs tbl) (sd_ty d) = Some l" "struct_entry interner (size_align tbl interner) (sd_ty d) d l"
  shows "struct_promise tbl interner d"
proof -
  from assms(2) obtain v shapes where sh: "map (size_align tbl interner \<circ> fd_ty) (sd_fields d) = map Some shapes"
    and l: "struct_layout d v shapes = Some l" "list_all good_shape shapes" unfolding struct_entry_def by blast
  from struct_layout_sound[OF l] obtain offs offset where "tl_fields l = map2 field_at (sd_fields d) offs" "tl_packed l = sd_packed d"
    "fields_sound (sd_packed d) shapes offs (tl_size l) (tl_align l)" "offset \<le> tl_size l" "tl_size l < offset + tl_align l"
    "\<not> sd_packed d \<Longrightarrow> \<not> sd_keep_order d \<Longrightarrow> offset = sum_list (map fst shapes)" by metis
  with sh assms(1) show ?thesis unfolding struct_promise_def lt_get_def by blast
qed

text \<open>
  C18: for every program whose value types can be weighed (no type holds itself by value, and every
  aggregate fits a u32), the layout table is built without a panic, and in the finished table every
  struct has a layout whose fields are aligned (unless packed), disjoint and inside the struct for
  the sizes that the same table answers for their types, with no padding between reordered fields;
  and every union has one whose variants lie behind the discriminant, aligned, in order and inside.
\<close>

theorem layout_table_correct:
  assumes "good_shape (tg_ptr_size target, tg_ptr_align target)" "distinct (map sd_ty structs)" "distinct (map ud_ty unions)"
    and "layout_fits A w target (layout_env_of interner structs unions)"
  shows "\<exists>tbl. layout_build target interner structs unions = Some tbl \<and>
    list_all (struct_promise tbl interner) structs \<and> list_all (union_promise tbl interner) unions"
proof -
  from layout_build_total[OF assms(4,1)] obtain tbl where tbl: "layout_build target interner structs unions = Some tbl" by blast
  note sound = layout_build_sound[OF tbl assms(1) refl]
  have "struct_promise tbl interner d" if "d \<in> set structs" for d
    using sound(1) map_of_index[OF assms(2) that] struct_entry_promise by (fastforce simp: layout_env_of_def)
  moreover have "union_promise tbl interner d" if "d \<in> set unions" for d
    using sound(2) map_of_index[OF assms(3) that] by (fastforce simp: union_promise_def lt_union_def layout_env_of_def)
  ultimately show ?thesis using tbl by (auto simp: list_all_iff)
qed

definition sample_layout_types :: type_interner where
  "sample_layout_types = interner_empty\<lparr>kinds :=
     [K_Prim PByte, K_Prim PLong, K_Tuple [0, 1], K_Struct (def_root 0) [], K_Union (def_root 1) []]\<rparr>"

definition sample_layout_field :: "type_id \<Rightarrow> layout_field_def" where
  "sample_layout_field t = \<lparr>fd_name = ''f'', fd_ty = t, fd_is_weak = False, fd_is_unowned = False\<rparr>"

definition sample_layout_struct :: "type_id \<Rightarrow> type_id list \<Rightarrow> struct_layout_def" where
  "sample_layout_struct t ts =
     \<lparr>sd_ty = t, sd_name = ''S'', sd_fields = map sample_layout_field ts, sd_packed = False, sd_keep_order = False, sd_destructor = None\<rparr>"

definition sample_layout_structs :: "struct_layout_def list" where
  "sample_layout_structs = [sample_layout_struct 3 [0, 2, 0, 1], sample_layout_struct 2 [0, 1]]"

definition sample_layout_unions :: "union_layout_def list" where
  "sample_layout_unions =
     [\<lparr>ud_ty = 4, ud_name = ''U'',
       ud_variants = [\<lparr>vd_name = ''A'', vd_discriminant = 0, vd_fields = map sample_layout_field [0, 2]\<rparr>],
       ud_destructor = None\<rparr>]"

theorem layout_table_correct_witness:
  "\<exists>tbl. layout_build target_default sample_layout_types sample_layout_structs sample_layout_unions = Some tbl \<and>
    list_all (struct_promise tbl sample_layout_types) sample_layout_structs \<and>
    list_all (union_promise tbl sample_layout_types) sample_layout_unions"
proof (rule layout_table_correct)
  show "good_shape (tg_ptr_size target_default, tg_ptr_align target_default)"
    by (simp add: target_default_def good_shape_def good_align_num)
  show "distinct (map sd_ty sample_layout_structs)" "distinct (map ud_ty sample_layout_unions)" by code_simp+
  show "layout_fits 8 (\<lambda>t. [1, 8, 40, 120, 80] ! t) target_default (layout_env_of sample_layout_types sample_layout_structs sample_layout_unions)"
    by (simp add: layout_fits_def layout_env_of_def sample_layout_structs_def sample_layout_unions_def sample_layout_struct_def
        sample_layout_field_def type_fits_def field_weight_def sample_layout_types_def is_value_type_def kind_def
        interner_empty_def nth_opt_def scalar_shape_def)
qed

text \<open>
  C26: value types that hold themselves, through any number of fields of structs and variants, are
  never laid out: building the table panics.
\<close>

theorem recursive_values_rejected:
  assumes "good_shape (tg_ptr_size target, tg_ptr_align target)" and env: "env = layout_env_of interner structs unions"
    and "keys_apart env" "(ty, ty) \<in> {(a, b). holds_value env a b}\<^sup>+"
  shows "layout_build target interner structs unions = None"
proof (rule ccontr)
  assume "layout_build target interner structs unions \<noteq> None"
  then obtain tbl where tbl: "layout_build target interner structs unions = Some tbl" by blast
  note table = layout_build_table[OF tbl assms(1) env]
  obtain r :: "type_id \<Rightarrow> nat" where r: "\<And>a b. laid tbl a \<Longrightarrow> holds_value env a b \<Longrightarrow> r b < r a"
    using table(1) assms(3) unfolding table_ok_def ranked_def by blast
  have "laid tbl a" if "holds_value env a b" for a b
    using that table(2,3)[of a] unfolding holds_value_def laid_def by blast
  with r have step: "r b < r a" if "holds_value env a b" for a b using that by blast
  have "r b < r a" if "(a, b) \<in> {(a, b). holds_value env a b}\<^sup>+" for a b
    using that by (induction rule: trancl_induct) (auto dest: step less_trans)
  from this[OF assms(4)] show False by simp
qed

definition sample_cycle_structs :: "struct_layout_def list" where
  "sample_cycle_structs = [sample_layout_struct 2 [0, 3], sample_layout_struct 3 [2]]"

definition sample_cycle_types :: type_interner where
  "sample_cycle_types = interner_empty\<lparr>kinds := [K_Prim PByte, K_Prim PLong, K_Tuple [0, 3], K_Tuple [2]]\<rparr>"

theorem recursive_values_rejected_witness: "layout_build target_default sample_cycle_types sample_cycle_structs [] = None"
proof (rule recursive_values_rejected[OF _ refl])
  let ?env = "layout_env_of sample_cycle_types sample_cycle_structs []"
  show "good_shape (tg_ptr_size target_default, tg_ptr_align target_default)"
    by (simp add: target_default_def good_shape_def good_align_num)
  show "keys_apart ?env" by (simp add: keys_apart_def layout_env_of_def)
  have "holds_value ?env 2 3" "holds_value ?env 3 2"
    by (simp_all add: holds_value_def layout_env_of_def sample_cycle_structs_def sample_cycle_types_def
        sample_layout_struct_def sample_layout_field_def is_value_type_def kind_def interner_empty_def nth_opt_def)
  then show "(2, 2) \<in> {(a, b). holds_value ?env a b}\<^sup>+" by (auto intro: trancl_trans)
qed

end
