(* ===== verification/Ordered_Map.thy ===== *)
theory Ordered_Map
  imports Main "HOL-Library.List_Lexorder" "HOL-Library.Char_ord"
begin

text \<open>
  Vocabulary of the package manager. A \<open>BTreeMap\<close> is a list of pairs with increasing keys, so that
  iterating over it visits the keys in their order; strings are lists of bytes, ordered byte by byte
  as Rust orders them. A fallible function returns a sum with the error on the left; the theory
  holds its sequencing, the \<open>for\<close> loop that stops at the first error, and the lemmas by which
  invariants pass through them.
\<close>

section \<open>Results\<close>

definition and_then :: "'e + 'a \<Rightarrow> ('a \<Rightarrow> 'e + 'b) \<Rightarrow> 'e + 'b" where
  "and_then m f = (case m of Inl e \<Rightarrow> Inl e | Inr x \<Rightarrow> f x)"

lemma and_then_simps [simp]: "and_then (Inl e) f = Inl e" "and_then (Inr x) f = f x"
  by (simp_all add: and_then_def)

lemma and_then_Inr_iff: "and_then m f = Inr y \<longleftrightarrow> (\<exists>x. m = Inr x \<and> f x = Inr y)"
  by (cases m) simp_all

lemma and_then_Inl_iff: "and_then m f = Inl e \<longleftrightarrow> m = Inl e \<or> (\<exists>x. m = Inr x \<and> f x = Inl e)"
  by (cases m) auto

lemma and_then_cong [fundef_cong]:
  "m = m' \<Longrightarrow> (\<And>x. m' = Inr x \<Longrightarrow> f x = g x) \<Longrightarrow> and_then m f = and_then m' g"
  by (cases m') simp_all

definition ok_or :: "'a option \<Rightarrow> 'e \<Rightarrow> 'e + 'a" where
  "ok_or m e = (case m of None \<Rightarrow> Inl e | Some x \<Rightarrow> Inr x)"

lemma ok_or_simps [simp]: "ok_or None e = Inl e" "ok_or (Some x) e = Inr x"
  by (simp_all add: ok_or_def)

lemma ok_or_Inr_iff [simp]: "ok_or m e = Inr x \<longleftrightarrow> m = Some x"
  by (cases m) simp_all

text \<open>\<open>for_each f xs s\<close> is a \<open>for\<close> loop whose body updates the state or returns an error.\<close>

fun for_each :: "('a \<Rightarrow> 's \<Rightarrow> 'e + 's) \<Rightarrow> 'a list \<Rightarrow> 's \<Rightarrow> 'e + 's" where
  "for_each f [] s = Inr s"
| "for_each f (x # xs) s = and_then (f x s) (for_each f xs)"

lemma for_each_cong [fundef_cong]:
  "xs = ys \<Longrightarrow> s = t \<Longrightarrow> (\<And>x s. x \<in> set ys \<Longrightarrow> f x s = g x s) \<Longrightarrow> for_each f xs s = for_each g ys t"
  by (induction ys arbitrary: xs s t) (auto intro!: and_then_cong)

lemma for_each_append: "for_each f (xs @ ys) s = and_then (for_each f xs s) (for_each f ys)"
  by (induction xs arbitrary: s) (auto simp: and_then_def split: sum.splits)

lemma for_each_inv:
  assumes "for_each f xs s = Inr t" and "P s"
    and step: "\<And>x s t. x \<in> set xs \<Longrightarrow> P s \<Longrightarrow> f x s = Inr t \<Longrightarrow> P t"
  shows "P t"
  using assms
proof (induction xs arbitrary: s)
  case Nil
  then show ?case by simp
next
  case (Cons x xs)
  from Cons.prems(1) obtain u where u: "f x s = Inr u" "for_each f xs u = Inr t"
    by (auto simp: and_then_Inr_iff)
  have "P u" by (rule Cons.prems(3)[OF _ Cons.prems(2) u(1)]) simp
  with u(2) Cons.IH Cons.prems(3) show ?case by auto
qed

lemma for_each_rel:
  assumes "for_each f xs s = Inr t" and refl: "\<And>s. R s s"
    and trans: "\<And>s t u. R s t \<Longrightarrow> R t u \<Longrightarrow> R s u"
    and step: "\<And>x s t. x \<in> set xs \<Longrightarrow> f x s = Inr t \<Longrightarrow> R s t"
  shows "R s t"
  using for_each_inv[OF assms(1), of "R s"] refl trans step by blast

text \<open>
  A loop whose body keeps an invariant \<open>I\<close>, moves the state along \<open>R\<close> and leaves \<open>Q x\<close> behind, which
  later steps keep.
\<close>

lemma for_each_steps:
  assumes "for_each f xs s = Inr t" "I s" and refl: "\<And>s. R s s" and trans: "\<And>s t u. R s t \<Longrightarrow> R t u \<Longrightarrow> R s u"
    and step: "\<And>x s t. x \<in> set xs \<Longrightarrow> f x s = Inr t \<Longrightarrow> I s \<Longrightarrow> I t \<and> R s t \<and> Q x t"
    and mono: "\<And>x s t. Q x s \<Longrightarrow> R s t \<Longrightarrow> Q x t"
  shows "I t \<and> R s t \<and> (\<forall>x \<in> set xs. Q x t)"
  using assms(1,2) step
proof (induction xs arbitrary: s)
  case Nil
  then show ?case by (simp add: refl)
next
  case (Cons x xs)
  from Cons.prems(1) obtain u where u: "f x s = Inr u" "for_each f xs u = Inr t" by (auto simp: and_then_Inr_iff)
  have x: "I u" "R s u" "Q x u" using Cons.prems(3)[OF _ u(1) Cons.prems(2)] by simp_all
  have "I t \<and> R u t \<and> (\<forall>y \<in> set xs. Q y t)"
    by (rule Cons.IH[OF u(2) x(1)]) (rule Cons.prems(3)[OF list.set_intros(2)])
  with x(2) mono[OF x(3)] trans show ?case by auto
qed

text \<open>\<open>map_res\<close> collects the results of a fallible function, and fails at the first error.\<close>

fun map_res :: "('a \<Rightarrow> 'e + 'b) \<Rightarrow> 'a list \<Rightarrow> 'e + 'b list" where
  "map_res f [] = Inr []"
| "map_res f (x # xs) = and_then (f x) (\<lambda>y. and_then (map_res f xs) (\<lambda>ys. Inr (y # ys)))"

lemma map_res_Inr_iff: "map_res f xs = Inr ys \<longleftrightarrow> list_all2 (\<lambda>x y. f x = Inr y) xs ys"
  by (induction xs arbitrary: ys) (auto simp: and_then_Inr_iff list_all2_Cons1)

section \<open>Ordered maps\<close>

type_synonym ('k, 'v) btree = "('k \<times> 'v) list"

definition bt_ok :: "('k :: linorder, 'v) btree \<Rightarrow> bool" where
  "bt_ok m \<longleftrightarrow> sorted_wrt (<) (map fst m)"

fun bt_insert :: "'k :: linorder \<Rightarrow> 'v \<Rightarrow> ('k, 'v) btree \<Rightarrow> ('k, 'v) btree" where
  "bt_insert k v [] = [(k, v)]"
| "bt_insert k v ((a, b) # m) =
     (if k < a then (k, v) # (a, b) # m else if k = a then (k, v) # m else (a, b) # bt_insert k v m)"

lemma map_of_bt_insert [simp]: "map_of (bt_insert k v m) = (map_of m)(k \<mapsto> v)"
  by (induction k v m rule: bt_insert.induct) (auto simp: fun_eq_iff)

lemma keys_bt_insert [simp]: "fst ` set (bt_insert k v m) = insert k (fst ` set m)"
  by (induction k v m rule: bt_insert.induct) auto

lemma bt_ok_Nil [simp]: "bt_ok []"
  by (simp add: bt_ok_def)

lemma bt_ok_insert [simp]: "bt_ok m \<Longrightarrow> bt_ok (bt_insert k v m)"
proof (induction m)
  case Nil
  then show ?case by (simp add: bt_ok_def)
next
  case (Cons p m)
  obtain a b where p: "p = (a, b)" by fastforce
  from Cons.prems p have a: "\<forall>x \<in> fst ` set m. a < x" and m: "bt_ok m" by (auto simp: bt_ok_def)
  from Cons.IH[OF m] have IH: "sorted_wrt (<) (map fst (bt_insert k v m))" by (simp add: bt_ok_def)
  have "\<forall>x \<in> fst ` set (bt_insert k v m). a < x" if "a < k"
    using a that by simp
  with IH a Cons.prems show ?case unfolding p by (auto simp: bt_ok_def)
qed

lemma bt_ok_distinct: "bt_ok m \<Longrightarrow> distinct (map fst m)"
  by (simp add: bt_ok_def strict_sorted_iff)

lemma bt_get_iff: "bt_ok m \<Longrightarrow> map_of m k = Some v \<longleftrightarrow> (k, v) \<in> set m"
  using bt_ok_distinct[of m] by simp

text \<open>\<open>extend\<close> of one map by another: later values replace earlier ones.\<close>

definition bt_extend :: "('k :: linorder, 'v) btree \<Rightarrow> ('k, 'v) btree \<Rightarrow> ('k, 'v) btree" where
  "bt_extend m n = fold (\<lambda>(k, v). bt_insert k v) n m"

lemma map_of_bt_extend: "distinct (map fst n) \<Longrightarrow> map_of (bt_extend m n) = map_of m ++ map_of n"
proof (induction n arbitrary: m)
  case Nil
  then show ?case by (simp add: bt_extend_def)
next
  case (Cons p n)
  obtain k v where p: "p = (k, v)" by fastforce
  have "map_of (bt_extend m (p # n)) = (map_of m)(k \<mapsto> v) ++ map_of n"
  proof -
    have "bt_extend m (p # n) = bt_extend (bt_insert k v m) n" by (simp add: bt_extend_def p)
    also have "map_of \<dots> = map_of (bt_insert k v m) ++ map_of n" using Cons.prems by (intro Cons.IH) simp
    finally show ?thesis by (simp only: map_of_bt_insert)
  qed
  moreover from Cons.prems p have "map_of n k = None" by (simp add: map_of_eq_None_iff)
  ultimately show ?case by (auto simp: p fun_eq_iff map_add_def split: option.splits)
qed

lemma bt_ok_extend [simp]: "bt_ok m \<Longrightarrow> bt_ok (bt_extend m n)"
  unfolding bt_extend_def by (induction n arbitrary: m) auto

section \<open>Strings\<close>

text \<open>
  The predicates of \<open>char\<close> and \<open>u8\<close> that the code uses look at ASCII only, and hold for no byte of a
  longer UTF-8 sequence. White space is that of ASCII.
\<close>

definition byte_of :: "char \<Rightarrow> nat" where
  "byte_of c = of_char c"

definition ascii_alphabetic :: "char \<Rightarrow> bool" where
  "ascii_alphabetic c \<longleftrightarrow> 65 \<le> byte_of c \<and> byte_of c \<le> 90 \<or> 97 \<le> byte_of c \<and> byte_of c \<le> 122"

definition ascii_digit :: "char \<Rightarrow> bool" where
  "ascii_digit c \<longleftrightarrow> 48 \<le> byte_of c \<and> byte_of c \<le> 57"

definition ascii_alphanumeric :: "char \<Rightarrow> bool" where
  "ascii_alphanumeric c \<longleftrightarrow> ascii_alphabetic c \<or> ascii_digit c"

definition ascii_hexdigit :: "char \<Rightarrow> bool" where
  "ascii_hexdigit c \<longleftrightarrow> ascii_digit c \<or> 65 \<le> byte_of c \<and> byte_of c \<le> 70 \<or> 97 \<le> byte_of c \<and> byte_of c \<le> 102"

definition ascii_lowercase :: "char \<Rightarrow> char" where
  "ascii_lowercase c = (if 65 \<le> byte_of c \<and> byte_of c \<le> 90 then char_of (byte_of c + 32) else c)"

definition ascii_space :: "char \<Rightarrow> bool" where
  "ascii_space c \<longleftrightarrow> 9 \<le> byte_of c \<and> byte_of c \<le> 13 \<or> byte_of c = 32"

definition trim :: "string \<Rightarrow> string" where
  "trim s = rev (dropWhile ascii_space (rev (dropWhile ascii_space s)))"

fun split_on :: "char \<Rightarrow> string \<Rightarrow> string list" where
  "split_on d [] = [[]]"
| "split_on d (c # cs) = (if c = d then [] # split_on d cs else
     (case split_on d cs of [] \<Rightarrow> [[c]] | p # ps \<Rightarrow> (c # p) # ps))"

lemma split_on_ne [simp]: "split_on d s \<noteq> []"
  by (induction s) (auto split: list.split)

lemma split_on_no_sep: "d \<notin> set s \<Longrightarrow> split_on d s = [s]"
  by (induction s) auto

lemma split_on_append: "d \<notin> set s \<Longrightarrow> split_on d (s @ d # t) = s # split_on d t"
  by (induction s) auto

fun strip_prefix :: "string \<Rightarrow> string \<Rightarrow> string option" where
  "strip_prefix [] s = Some s"
| "strip_prefix (p # ps) [] = None"
| "strip_prefix (p # ps) (c # cs) = (if p = c then strip_prefix ps cs else None)"

lemma strip_prefix_append [simp]: "strip_prefix p (p @ s) = Some s"
  by (induction p) auto

lemma strip_prefix_Some_iff: "strip_prefix p s = Some t \<longleftrightarrow> s = p @ t"
  by (induction p s rule: strip_prefix.induct) auto

text \<open>\<open>parse::<u16>\<close>: decimal digits after an optional plus sign, without overflow.\<close>

definition parse_u16 :: "string \<Rightarrow> nat option" where
  "parse_u16 s = (let t = (case s of [] \<Rightarrow> [] | c # cs \<Rightarrow> if c = CHR ''+'' then cs else s) in
     if t = [] \<or> \<not> list_all ascii_digit t then None else
     let n = foldl (\<lambda>n c. 10 * n + (byte_of c - 48)) 0 t in
     if n < 2 ^ 16 then Some n else None)"

end
