(* ===== verification/Package_Manifest.thy ===== *)
theory Package_Manifest
  imports Ordered_Map "HOL-Library.Word"
begin

text \<open>
  The project file of the package manager \<open>dreamer\<close>
  (\<open>src/tooling/dreamer/src\<close>: \<open>manifest.rs\<close>, \<open>app_config.rs\<close>, \<open>identifiers.rs\<close>): the data of a
  manifest, its validation, run targets, dependency sources and the settings of mobile
  applications. Reading and writing TOML and parsing version numbers belong to packages outside the
  repository: a manifest is a value, and \<open>vparse\<close> is the parser of versions. Paths are Unix paths.

  The lemmas show what validation guarantees to the other commands: names that are valid import
  segments, no two dependencies in one import directory, unambiguous sources, assets inside the
  package, and hosts that a run can choose from.
\<close>

section \<open>Data\<close>

datatype package_type = Bin | Lib | Test

datatype run_target = Native | Web | Node | Android | Ios

datatype library_kind = Staticlib | Cdylib

record library_config =
  lc_output :: library_kind

record test_config =
  tc_targets :: "string list"

record workspace_meta =
  wm_members :: "string list"

record app_config =
  ac_id :: string
  ac_android_min_sdk :: "32 word"
  ac_ios_min_os :: string

record os_version =
  os_major :: nat
  os_minor :: nat
  os_patch :: nat

record package_meta =
  pm_name :: string
  pm_version :: string
  pm_type :: package_type
  pm_edition :: "string option"
  pm_authors :: "string list"
  pm_description :: "string option"
  pm_entry :: "string option"
  pm_license :: "string option"
  pm_keywords :: "string list"
  pm_targets :: "string list"
  pm_icon :: "string option"
  pm_assets :: "string list"
  pm_links :: "string option"

record detailed_dependency =
  dd_version :: "string option"
  dd_registry :: "string option"
  dd_path :: "string option"
  dd_git :: "string option"
  dd_tag :: "string option"
  dd_branch :: "string option"
  dd_rev :: "string option"

datatype dependency = D_Version string | D_Detailed detailed_dependency

text \<open>The tables that are kept as they are in the file have the type of a TOML value, a parameter.\<close>

record 'toml manifest =
  mf_app :: "app_config option"
  mf_lib :: "library_config option"
  mf_package :: "package_meta option"
  mf_workspace :: "workspace_meta option"
  mf_test :: "test_config option"
  mf_dependencies :: "(string, dependency) btree"
  mf_dev_dependencies :: "(string, dependency) btree"
  mf_scripts :: "(string, string) btree"
  mf_registries :: "(string, string) btree"
  mf_generators :: "'toml list"
  mf_native :: "(string, 'toml) btree"

text \<open>One constructor for each message of the code; arguments are what the message quotes.\<close>

datatype manifest_error =
    Empty_Name | Invalid_Name string
  | Conflicting_Sources | Invalid_Selectors
  | Unknown_Target string | Empty_Target_List
  | Only_Target run_target run_target | Target_Not_Listed run_target | Target_Required
  | Empty_Path | Absolute_Path string | Parent_Path string | Odd_Path string
  | No_Package
  | Invalid_Java_Package string | Invalid_App_Id | Android_Sdk_Too_Old | Invalid_Os_Version string | Ios_Too_Old
  | No_Tables | No_Members | Empty_Member | Absolute_Member string | Glob_Member string
  | Import_Collision string string | Conflicting_Dev_Dependency string
  | App_Needs_Bin | Lib_Needs_Lib | Test_Needs_Test | App_Needs_Targets | Mobile_Needs_App
  | Invalid_Version string string | Bin_Needs_Entry string | Lib_Has_Entry string | Lib_Has_Assets string
  | Test_Has_Entry string | Test_Has_Targets string | Test_Has_Icon string
  | Unsupported_Test_Target | Duplicate_Test_Target run_target | Root_Asset string
  | Lib_Not_Native | Duplicate_Target run_target

section \<open>Run targets\<close>

fun target_as_str :: "run_target \<Rightarrow> string" where
  "target_as_str Native = ''native''"
| "target_as_str Web = ''web''"
| "target_as_str Node = ''node''"
| "target_as_str Android = ''android''"
| "target_as_str Ios = ''ios''"

definition target_parse :: "string \<Rightarrow> manifest_error + run_target" where
  "target_parse s =
     (if s = ''native'' then Inr Native else if s = ''web'' then Inr Web else if s = ''node'' then Inr Node
      else if s = ''android'' then Inr Android else if s = ''ios'' then Inr Ios else Inl (Unknown_Target s))"

lemma target_parse_iff [simp]: "target_parse s = Inr t \<longleftrightarrow> s = target_as_str t"
  by (cases t) (auto simp: target_parse_def split: if_splits)

definition target_part :: "string \<Rightarrow> run_target list \<Rightarrow> manifest_error + run_target list" where
  "target_part part out = (let part = trim part in
     if part = [] then Inr out else
     and_then (target_parse part) (\<lambda>t. Inr (if t \<in> set out then out else out @ [t])))"

definition parse_target_list :: "string \<Rightarrow> manifest_error + run_target list" where
  "parse_target_list spec = and_then (for_each target_part (split_on CHR '','' spec) []) (\<lambda>out.
     if out = [] then Inl Empty_Target_List else Inr out)"

definition resolve_run_target :: "string list \<Rightarrow> string option \<Rightarrow> manifest_error + run_target" where
  "resolve_run_target targets explicit = and_then (map_res target_parse targets) (\<lambda>listed.
     case explicit of
       Some sel \<Rightarrow> and_then (target_parse sel) (\<lambda>chosen.
         if listed = [] then Inr chosen
         else if length listed = 1 then
           (if listed ! 0 \<noteq> chosen then Inl (Only_Target (listed ! 0) chosen) else Inr chosen)
         else if chosen \<notin> set listed then Inl (Target_Not_Listed chosen)
         else Inr chosen)
     | None \<Rightarrow> (case length listed of
         0 \<Rightarrow> Inr Native
       | Suc 0 \<Rightarrow> Inr (listed ! 0)
       | _ \<Rightarrow> Inl Target_Required))"

section \<open>Dependencies\<close>

fun dep_version_req :: "dependency \<Rightarrow> string option" where
  "dep_version_req (D_Version v) = Some v"
| "dep_version_req (D_Detailed d) = dd_version d"

fun dep_path :: "dependency \<Rightarrow> string option" where
  "dep_path (D_Version _) = None"
| "dep_path (D_Detailed d) = dd_path d"

fun dep_git :: "dependency \<Rightarrow> string option" where
  "dep_git (D_Version _) = None"
| "dep_git (D_Detailed d) = dd_git d"

fun dep_registry_alias :: "dependency \<Rightarrow> string option" where
  "dep_registry_alias (D_Version _) = None"
| "dep_registry_alias (D_Detailed d) = dd_registry d"

definition dd_default :: detailed_dependency where
  "dd_default = \<lparr>dd_version = None, dd_registry = None, dd_path = None, dd_git = None,
     dd_tag = None, dd_branch = None, dd_rev = None\<rparr>"

fun dep_detailed :: "dependency \<Rightarrow> detailed_dependency" where
  "dep_detailed (D_Version v) = dd_default\<lparr>dd_version := Some v\<rparr>"
| "dep_detailed (D_Detailed d) = d"

definition dep_is_path_only :: "dependency \<Rightarrow> bool" where
  "dep_is_path_only d \<longleftrightarrow> dep_path d \<noteq> None \<and> dep_version_req d = None \<and> dep_git d = None"

fun dep_validate :: "dependency \<Rightarrow> manifest_error + unit" where
  "dep_validate (D_Version _) = Inr ()"
| "dep_validate (D_Detailed d) =
     (if dd_path d \<noteq> None \<and> (dd_git d \<noteq> None \<or> dd_registry d \<noteq> None) \<or> dd_git d \<noteq> None \<and> dd_registry d \<noteq> None
      then Inl Conflicting_Sources
      else let refs = length (filter id [dd_tag d \<noteq> None, dd_branch d \<noteq> None, dd_rev d \<noteq> None]) in
        if 1 < refs \<or> 0 < refs \<and> dd_git d = None then Inl Invalid_Selectors else Inr ())"

section \<open>Names and paths\<close>

definition name_char :: "char \<Rightarrow> bool" where
  "name_char c \<longleftrightarrow> ascii_alphanumeric c \<or> c = CHR ''-'' \<or> c = CHR ''_'' \<or> c = CHR ''.''"

definition validate_package_name :: "string \<Rightarrow> manifest_error + unit" where
  "validate_package_name name =
     (if name = [] then Inl Empty_Name
      else if \<not> list_all name_char name \<or> \<not> ascii_alphabetic (hd name) then Inl (Invalid_Name name)
      else Inr ())"

definition import_segment :: "string \<Rightarrow> string" where
  "import_segment name = map (\<lambda>c. if c = CHR ''-'' \<or> c = CHR ''.'' then CHR ''_'' else c) name"

datatype path_component = Root_Dir | Cur_Dir | Parent_Dir | Normal string

definition is_absolute :: "string \<Rightarrow> bool" where
  "is_absolute p \<longleftrightarrow> (case p of [] \<Rightarrow> False | c # _ \<Rightarrow> c = CHR ''/'')"

definition path_part :: "string \<Rightarrow> path_component" where
  "path_part s = (if s = ''..'' then Parent_Dir else Normal s)"

definition path_components :: "string \<Rightarrow> path_component list" where
  "path_components p = (let parts = split_on CHR ''/'' p in
     (if is_absolute p then [Root_Dir] else if hd parts = ''.'' then [Cur_Dir] else []) @
     map path_part (filter (\<lambda>s. s \<noteq> [] \<and> s \<noteq> ''.'') parts))"

fun check_component :: "string \<Rightarrow> path_component \<Rightarrow> unit \<Rightarrow> manifest_error + unit" where
  "check_component p (Normal _) _ = Inr ()"
| "check_component p Cur_Dir _ = Inr ()"
| "check_component p Parent_Dir _ = Inl (Parent_Path p)"
| "check_component p Root_Dir _ = Inl (Odd_Path p)"

definition validate_relative_asset_path :: "string \<Rightarrow> manifest_error + unit" where
  "validate_relative_asset_path path = (let trimmed = trim path in
     if trimmed = [] then Inl Empty_Path
     else if is_absolute trimmed then Inl (Absolute_Path trimmed)
     else for_each (check_component trimmed) (path_components trimmed) ())"

section \<open>Mobile applications\<close>

definition c_identifier :: "string \<Rightarrow> bool" where
  "c_identifier s = (case s of [] \<Rightarrow> False | c # cs \<Rightarrow>
     (ascii_alphabetic c \<or> c = CHR ''_'') \<and> list_all (\<lambda>c. ascii_alphanumeric c \<or> c = CHR ''_'') cs)"

definition java_keywords :: "string list" where
  "java_keywords =
     [''class'', ''package'', ''public'', ''private'', ''protected'', ''static'', ''native'', ''void'', ''int'',
      ''long'', ''float'', ''double'', ''boolean'', ''char'', ''byte'', ''short'', ''return'', ''if'', ''else'',
      ''switch'', ''case'', ''default'', ''while'', ''for'', ''do'', ''break'', ''continue'', ''new'', ''this'',
      ''super'', ''extends'', ''implements'', ''interface'', ''enum'', ''abstract'', ''final'', ''try'', ''catch'',
      ''finally'', ''throw'', ''throws'', ''synchronized'', ''volatile'', ''transient'', ''instanceof'', ''import'',
      ''assert'', ''const'', ''goto'', ''strictfp'', ''true'', ''false'', ''null'', ''_'']"

definition java_package :: "string \<Rightarrow> manifest_error + unit" where
  "java_package s =
     (if list_ex (\<lambda>v. \<not> c_identifier v \<or> v \<in> set java_keywords) (split_on CHR ''.'' s)
      then Inl (Invalid_Java_Package s) else Inr ())"

definition os_version_parse :: "string \<Rightarrow> manifest_error + os_version" where
  "os_version_parse s = (case map_res (\<lambda>part. ok_or (parse_u16 part) (Invalid_Os_Version s)) (split_on CHR ''.'' s) of
       Inl e \<Rightarrow> Inl e
     | Inr [major] \<Rightarrow> Inr \<lparr>os_major = major, os_minor = 0, os_patch = 0\<rparr>
     | Inr [major, minor] \<Rightarrow> Inr \<lparr>os_major = major, os_minor = minor, os_patch = 0\<rparr>
     | Inr [major, minor, patch] \<Rightarrow> Inr \<lparr>os_major = major, os_minor = minor, os_patch = patch\<rparr>
     | Inr _ \<Rightarrow> Inl (Invalid_Os_Version s))"

definition ANDROID_MIN_API :: "32 word" where
  "ANDROID_MIN_API = 26"

definition app_new :: "string \<Rightarrow> app_config" where
  "app_new name = (let suffix = map ascii_lowercase (filter ascii_alphanumeric name) in
     \<lparr>ac_id = ''org.example.app'' @ suffix, ac_android_min_sdk = ANDROID_MIN_API, ac_ios_min_os = ''16.0''\<rparr>)"

definition app_validate :: "app_config \<Rightarrow> manifest_error + unit" where
  "app_validate a = and_then (java_package (ac_id a)) (\<lambda>_.
     if length (split_on CHR ''.'' (ac_id a)) < 2 \<or> CHR ''_'' \<in> set (ac_id a) then Inl Invalid_App_Id
     else if ac_android_min_sdk a < ANDROID_MIN_API then Inl Android_Sdk_Too_Old
     else and_then (os_version_parse (ac_ios_min_os a)) (\<lambda>version.
       if os_major version < 16 then Inl Ios_Too_Old else Inr ()))"

section \<open>Manifests\<close>

definition manifest_empty :: "package_meta option \<Rightarrow> 'toml manifest" where
  "manifest_empty package = \<lparr>mf_app = None, mf_lib = None, mf_package = package, mf_workspace = None,
     mf_test = None, mf_dependencies = [], mf_dev_dependencies = [], mf_scripts = [], mf_registries = [],
     mf_generators = [], mf_native = []\<rparr>"

definition package_meta_new :: "string \<Rightarrow> string \<Rightarrow> package_type \<Rightarrow> string option \<Rightarrow> package_meta" where
  "package_meta_new name version type entry = \<lparr>pm_name = name, pm_version = version, pm_type = type,
     pm_edition = None, pm_authors = [], pm_description = None, pm_entry = entry, pm_license = None,
     pm_keywords = [], pm_targets = [], pm_icon = None, pm_assets = [], pm_links = None\<rparr>"

definition manifest_new :: "string \<Rightarrow> string \<Rightarrow> string \<Rightarrow> 'toml manifest" where
  "manifest_new name version entry = manifest_empty (Some (package_meta_new name version Bin (Some entry)))"

definition manifest_new_lib :: "string \<Rightarrow> string \<Rightarrow> 'toml manifest" where
  "manifest_new_lib name version =
     (manifest_empty (Some (package_meta_new name version Lib None)))\<lparr>mf_lib := Some \<lparr>lc_output = Staticlib\<rparr>\<rparr>"

definition manifest_new_test :: "string \<Rightarrow> string \<Rightarrow> 'toml manifest" where
  "manifest_new_test name version = manifest_empty (Some (package_meta_new name version Test None))"

definition manifest_new_workspace :: "string list \<Rightarrow> 'toml manifest" where
  "manifest_new_workspace members = (manifest_empty None)\<lparr>mf_workspace := Some \<lparr>wm_members = members\<rparr>\<rparr>"

definition mf_test_targets :: "'toml manifest \<Rightarrow> manifest_error + run_target list" where
  "mf_test_targets m = (let listed = (case mf_test m of Some t \<Rightarrow> tc_targets t | None \<Rightarrow> []) in
     if listed = [] then Inr [Native] else map_res target_parse listed)"

definition package_of :: "'toml manifest \<Rightarrow> manifest_error + package_meta" where
  "package_of m = ok_or (mf_package m) No_Package"

definition mf_run_target :: "'toml manifest \<Rightarrow> string option \<Rightarrow> manifest_error + run_target" where
  "mf_run_target m explicit = and_then (package_of m) (\<lambda>pkg.
     let desktop = mf_app m \<noteq> None \<and> ''native'' \<in> set (pm_targets pkg) in
     resolve_run_target (pm_targets pkg)
       (case explicit of Some t \<Rightarrow> Some t | None \<Rightarrow> if desktop then Some ''native'' else None))"

definition is_workspace_root :: "'toml manifest \<Rightarrow> bool" where
  "is_workspace_root m \<longleftrightarrow> mf_workspace m \<noteq> None"

definition is_virtual_workspace :: "'toml manifest \<Rightarrow> bool" where
  "is_virtual_workspace m \<longleftrightarrow> mf_workspace m \<noteq> None \<and> mf_package m = None"

definition all_dependencies :: "'toml manifest \<Rightarrow> bool \<Rightarrow> (string, dependency) btree" where
  "all_dependencies m include_dev =
     (if include_dev then bt_extend (mf_dependencies m) (mf_dev_dependencies m) else mf_dependencies m)"

definition DEFAULT_REGISTRY :: string where
  "DEFAULT_REGISTRY = ''https://raw.githubusercontent.com/sps014/dream-registry/main''"

definition registry_url :: "'toml manifest \<Rightarrow> string option \<Rightarrow> string option" where
  "registry_url m alias = (let alias = (case alias of Some a \<Rightarrow> a | None \<Rightarrow> ''default'') in
     case map_of (mf_registries m) alias of
       Some url \<Rightarrow> Some url
     | None \<Rightarrow> if alias = ''default'' then Some DEFAULT_REGISTRY else None)"

section \<open>Validation\<close>

text \<open>The checks of \<open>validate\<close> in their order: workspace members, dependency tables, package.\<close>

definition check_member :: "string \<Rightarrow> unit \<Rightarrow> manifest_error + unit" where
  "check_member member _ = (let trimmed = trim member in
     if trimmed = [] then Inl Empty_Member
     else if is_absolute trimmed then Inl (Absolute_Member trimmed)
     else if CHR ''*'' \<in> set trimmed \<or> CHR ''?'' \<in> set trimmed then Inl (Glob_Member trimmed)
     else Inr ())"

definition check_workspace :: "'toml manifest \<Rightarrow> manifest_error + unit" where
  "check_workspace m = (case mf_workspace m of None \<Rightarrow> Inr () | Some ws \<Rightarrow>
     if wm_members ws = [] then Inl No_Members else for_each check_member (wm_members ws) ())"

definition check_dependency ::
  "'toml manifest \<Rightarrow> string \<times> dependency \<Rightarrow> (string \<rightharpoonup> string) \<Rightarrow> manifest_error + (string \<rightharpoonup> string)" where
  "check_dependency m nd segments = (let (name, dep) = nd in
     and_then (validate_package_name name) (\<lambda>_.
     let segment = import_segment name; previous = segments segment; segments = segments(segment \<mapsto> name) in
     if previous \<noteq> None \<and> previous \<noteq> Some name then Inl (Import_Collision (the previous) name) else
     and_then (dep_validate dep) (\<lambda>_.
     case map_of (mf_dependencies m) name of
       Some normal \<Rightarrow>
         if map_of (mf_dev_dependencies m) name \<noteq> None \<and> normal \<noteq> dep then Inl (Conflicting_Dev_Dependency name)
         else Inr segments
     | None \<Rightarrow> Inr segments)))"

definition check_dependencies :: "'toml manifest \<Rightarrow> manifest_error + (string \<rightharpoonup> string)" where
  "check_dependencies m = for_each (check_dependency m) (mf_dependencies m @ mf_dev_dependencies m) (\<lambda>_. None)"

definition check_no_package :: "'toml manifest \<Rightarrow> manifest_error + unit" where
  "check_no_package m =
     (if mf_app m \<noteq> None then Inl App_Needs_Bin
      else if mf_lib m \<noteq> None then Inl Lib_Needs_Lib
      else if mf_test m \<noteq> None then Inl Test_Needs_Test
      else Inr ())"

definition check_app :: "'toml manifest \<Rightarrow> package_meta \<Rightarrow> manifest_error + unit" where
  "check_app m pkg = (case mf_app m of
       Some app \<Rightarrow>
         if pm_type pkg \<noteq> Bin then Inl App_Needs_Bin else
         and_then (app_validate app) (\<lambda>_.
         if pm_targets pkg = [] \<or> list_ex (\<lambda>t. t \<notin> {''native'', ''android'', ''ios''}) (pm_targets pkg)
         then Inl App_Needs_Targets else Inr ())
     | None \<Rightarrow>
         if list_ex (\<lambda>t. t \<in> {''android'', ''ios''}) (pm_targets pkg) then Inl Mobile_Needs_App else Inr ())"

definition check_type :: "package_meta \<Rightarrow> manifest_error + unit" where
  "check_type pkg = (case pm_type pkg of
       Bin \<Rightarrow>
         if trim (case pm_entry pkg of Some e \<Rightarrow> e | None \<Rightarrow> []) = [] then Inl (Bin_Needs_Entry (pm_name pkg))
         else Inr ()
     | Lib \<Rightarrow>
         if (case pm_entry pkg of Some e \<Rightarrow> trim e \<noteq> [] | None \<Rightarrow> False) then Inl (Lib_Has_Entry (pm_name pkg))
         else if pm_assets pkg \<noteq> [] then Inl (Lib_Has_Assets (pm_name pkg))
         else Inr ()
     | Test \<Rightarrow>
         if (case pm_entry pkg of Some e \<Rightarrow> trim e \<noteq> [] | None \<Rightarrow> False) then Inl (Test_Has_Entry (pm_name pkg))
         else if pm_targets pkg \<noteq> [] then Inl (Test_Has_Targets (pm_name pkg))
         else if pm_icon pkg \<noteq> None then Inl (Test_Has_Icon (pm_name pkg))
         else Inr ())"

definition check_test_target :: "string \<Rightarrow> run_target list \<Rightarrow> manifest_error + run_target list" where
  "check_test_target t seen = and_then (target_parse t) (\<lambda>parsed.
     if parsed \<noteq> Native \<and> parsed \<noteq> Node then Inl Unsupported_Test_Target
     else if parsed \<in> set seen then Inl (Duplicate_Test_Target parsed)
     else Inr (seen @ [parsed]))"

definition check_test :: "'toml manifest \<Rightarrow> package_meta \<Rightarrow> manifest_error + run_target list" where
  "check_test m pkg = (case mf_test m of None \<Rightarrow> Inr [] | Some test \<Rightarrow>
     if pm_type pkg \<noteq> Test then Inl Test_Needs_Test else for_each check_test_target (tc_targets test) [])"

definition check_asset :: "string \<Rightarrow> unit \<Rightarrow> manifest_error + unit" where
  "check_asset asset _ = and_then (validate_relative_asset_path asset) (\<lambda>_.
     if list_all (\<lambda>c. c = Cur_Dir) (path_components (trim asset)) then Inl (Root_Asset asset) else Inr ())"

definition check_lib :: "'toml manifest \<Rightarrow> package_meta \<Rightarrow> manifest_error + unit" where
  "check_lib m pkg =
     (if mf_lib m \<noteq> None then
        if pm_type pkg \<noteq> Lib then Inl Lib_Needs_Lib
        else if list_ex (\<lambda>t. t \<noteq> ''native'') (pm_targets pkg) \<or> pm_icon pkg \<noteq> None then Inl Lib_Not_Native
        else Inr ()
      else Inr ())"

definition check_target :: "string \<Rightarrow> run_target list \<Rightarrow> manifest_error + run_target list" where
  "check_target t seen = and_then (target_parse t) (\<lambda>parsed.
     if parsed \<in> set seen then Inl (Duplicate_Target parsed) else Inr (seen @ [parsed]))"

definition validate :: "(string \<Rightarrow> 'ver option) \<Rightarrow> 'toml manifest \<Rightarrow> manifest_error + unit" where
  "validate vparse m =
     (if mf_package m = None \<and> mf_workspace m = None then Inl No_Tables else
      and_then (check_workspace m) (\<lambda>_.
      and_then (check_dependencies m) (\<lambda>_.
      case mf_package m of
        None \<Rightarrow> check_no_package m
      | Some pkg \<Rightarrow>
          and_then (validate_package_name (pm_name pkg)) (\<lambda>_.
          and_then (check_app m pkg) (\<lambda>_.
          and_then (ok_or (vparse (pm_version pkg)) (Invalid_Version (pm_name pkg) (pm_version pkg))) (\<lambda>_.
          and_then (check_type pkg) (\<lambda>_.
          and_then (check_test m pkg) (\<lambda>_.
          and_then (for_each check_asset (pm_assets pkg) ()) (\<lambda>_.
          and_then (check_lib m pkg) (\<lambda>_.
          and_then (for_each check_target (pm_targets pkg) []) (\<lambda>_.
          case pm_icon pkg of Some icon \<Rightarrow> validate_relative_asset_path icon | None \<Rightarrow> Inr ())))))))))))"

section \<open>What validation guarantees\<close>

named_theorems result_iff \<open>when a check succeeds\<close>

lemmas [result_iff] = and_then_Inr_iff

lemma validate_name_iff [result_iff]:
  "validate_package_name name = Inr u \<longleftrightarrow> name \<noteq> [] \<and> list_all name_char name \<and> ascii_alphabetic (hd name)"
  by (auto simp: validate_package_name_def)

lemma dep_validate_iff [result_iff]:
  "dep_validate dep = Inr u \<longleftrightarrow>
     (dep_path dep \<noteq> None \<longrightarrow> dep_git dep = None \<and> dep_registry_alias dep = None) \<and>
     (dep_git dep \<noteq> None \<longrightarrow> dep_registry_alias dep = None) \<and>
     (let d = dep_detailed dep; refs = length (filter id [dd_tag d \<noteq> None, dd_branch d \<noteq> None, dd_rev d \<noteq> None]) in
        refs \<le> 1 \<and> (dep_git dep = None \<longrightarrow> refs = 0))"
  by (cases dep) (auto simp: Let_def dd_default_def)

lemma check_dependency_iff [result_iff]:
  "check_dependency m (name, dep) seg = Inr t \<longleftrightarrow>
     validate_package_name name = Inr () \<and> dep_validate dep = Inr () \<and>
     seg (import_segment name) \<in> {None, Some name} \<and> t = seg(import_segment name \<mapsto> name) \<and>
     (map_of (mf_dependencies m) name \<noteq> None \<and> map_of (mf_dev_dependencies m) name \<noteq> None \<longrightarrow>
        map_of (mf_dependencies m) name = Some dep)"
  by (auto simp: check_dependency_def Let_def and_then_Inr_iff split: option.split)

lemma check_dependencies_segments:
  assumes "for_each (check_dependency m) xs s = Inr t"
  shows "(\<forall>k v. s k = Some v \<longrightarrow> t k = Some v) \<and>
    (\<forall>(n, d) \<in> set xs. validate_package_name n = Inr () \<and> dep_validate d = Inr () \<and> t (import_segment n) = Some n \<and>
       (map_of (mf_dependencies m) n \<noteq> None \<and> map_of (mf_dev_dependencies m) n \<noteq> None \<longrightarrow>
          map_of (mf_dependencies m) n = Some d))"
  using assms
proof (induction xs arbitrary: s)
  case Nil
  then show ?case by simp
next
  case (Cons x xs)
  obtain n d where x: "x = (n, d)" by fastforce
  from Cons.prems x obtain u where u: "check_dependency m (n, d) s = Inr u" "for_each (check_dependency m) xs u = Inr t"
    by (auto simp: and_then_Inr_iff)
  from u(1) have c: "validate_package_name n = Inr ()" "dep_validate d = Inr ()" "s (import_segment n) \<in> {None, Some n}"
    "u = s(import_segment n \<mapsto> n)" "map_of (mf_dependencies m) n \<noteq> None \<and> map_of (mf_dev_dependencies m) n \<noteq> None \<longrightarrow>
        map_of (mf_dependencies m) n = Some d"
    unfolding check_dependency_iff by blast+
  from Cons.IH[OF u(2)] have IH: "\<forall>k v. u k = Some v \<longrightarrow> t k = Some v" and rest: "\<forall>(n, d) \<in> set xs. validate_package_name n = Inr () \<and>
      dep_validate d = Inr () \<and> t (import_segment n) = Some n \<and>
      (map_of (mf_dependencies m) n \<noteq> None \<and> map_of (mf_dev_dependencies m) n \<noteq> None \<longrightarrow> map_of (mf_dependencies m) n = Some d)"
    by blast+
  have "\<forall>k v. s k = Some v \<longrightarrow> u k = Some v" using c(3,4) by auto
  moreover have "t (import_segment n) = Some n" using IH c(4) by simp
  ultimately show ?case using IH rest c(1,2,5) x by auto
qed

lemma check_component_steps:
  "for_each (check_component p) cs u = Inr v \<longleftrightarrow> set cs \<subseteq> insert Cur_Dir (range Normal)"
proof (induction cs arbitrary: u)
  case (Cons c cs)
  then show ?case by (cases c) auto
qed simp

lemma validate_asset_path_iff [result_iff]:
  "validate_relative_asset_path p = Inr u \<longleftrightarrow>
     trim p \<noteq> [] \<and> \<not> is_absolute (trim p) \<and> set (path_components (trim p)) \<subseteq> insert Cur_Dir (range Normal)"
  by (auto simp: validate_relative_asset_path_def Let_def check_component_steps)

lemma for_each_unit: "for_each f xs () = Inr () \<longleftrightarrow> (\<forall>x \<in> set xs. f x () = Inr ())"
  by (induction xs) (auto simp: and_then_Inr_iff)

lemma check_target_iff: "check_target t seen = Inr out \<longleftrightarrow> (\<exists>p. t = target_as_str p \<and> p \<notin> set seen \<and> out = seen @ [p])"
  by (auto simp: check_target_def and_then_Inr_iff)

lemma check_target_steps:
  assumes "for_each check_target ts seen = Inr out" "distinct seen"
  shows "\<exists>new. out = seen @ new \<and> ts = map target_as_str new \<and> distinct out"
  using assms
proof (induction ts arbitrary: seen)
  case Nil
  then show ?case by simp
next
  case (Cons t ts)
  from Cons.prems(1) obtain u where u: "check_target t seen = Inr u" "for_each check_target ts u = Inr out"
    by (auto simp only: for_each.simps and_then_Inr_iff)
  from u(1) obtain p where p: "t = target_as_str p" "p \<notin> set seen" "u = seen @ [p]"
    unfolding check_target_iff by blast
  have d: "distinct (seen @ [p])" using Cons.prems(2) p(2) by simp
  from Cons.IH[OF u(2)[unfolded p(3)] d] obtain new where
    new: "out = (seen @ [p]) @ new" "ts = map target_as_str new" "distinct out" by blast
  have "out = seen @ (p # new)" unfolding new(1) by simp
  moreover have "t # ts = map target_as_str (p # new)" unfolding p(1) new(2) by simp
  ultimately show ?case using new(3) by (intro exI[of _ "p # new"] conjI)
qed

text \<open>The import segment of a valid name can stand in an \<open>import\<close>.\<close>

lemma import_segment_identifier:
  assumes "validate_package_name name = Inr ()"
  shows "c_identifier (import_segment name)"
proof -
  from assms obtain c cs where name: "name = c # cs" "list_all name_char (c # cs)" "ascii_alphabetic c"
    by (cases name) (auto simp: result_iff)
  have "c \<noteq> CHR ''-'' \<and> c \<noteq> CHR ''.''" using name(3) by (auto simp: ascii_alphabetic_def byte_of_def)
  moreover have "list_all (\<lambda>c. ascii_alphanumeric c \<or> c = CHR ''_'') (import_segment cs)"
    using name(2) by (auto simp: import_segment_def list_all_iff name_char_def)
  ultimately show ?thesis using name(1,3) by (simp add: c_identifier_def import_segment_def)
qed

lemma agreeing_maps:
  "(\<And>x y. f n = Some x \<Longrightarrow> g n = Some y \<Longrightarrow> x = y) \<Longrightarrow> (f ++ g) n = Some d \<longleftrightarrow> f n = Some d \<or> g n = Some d"
  by (cases "g n") (auto simp: map_add_def)

lemma validate_steps:
  assumes "validate vparse m = Inr ()"
  shows "\<exists>t. check_dependencies m = Inr t"
    and "mf_package m = Some pkg \<Longrightarrow> for_each check_asset (pm_assets pkg) () = Inr () \<and>
      (\<exists>ts. for_each check_target (pm_targets pkg) [] = Inr ts) \<and>
      (case pm_icon pkg of Some icon \<Rightarrow> validate_relative_asset_path icon | None \<Rightarrow> Inr ()) = Inr ()"
  using assms by (auto simp: validate_def and_then_Inr_iff split: if_splits option.splits)

text \<open>
  C25: a manifest that passes validation has only valid package names, each the identifier of an
  import directory of its own; every dependency names one source, a path, a repository or a
  registry; an entry that is both a normal and a development dependency is the same in both; its
  assets and icon are relative paths without parent steps; and its hosts are listed once each.
\<close>

theorem validated_manifest:
  assumes "validate vparse m = Inr ()"
    and "D = set (mf_dependencies m) \<union> set (mf_dev_dependencies m)"
    and "bt_ok (mf_dependencies m)" "bt_ok (mf_dev_dependencies m)"
  shows "(\<forall>n \<in> fst ` D. validate_package_name n = Inr () \<and> c_identifier (import_segment n)) \<and>
    inj_on import_segment (fst ` D) \<and>
    (\<forall>d \<in> snd ` D. length (filter id [dep_path d \<noteq> None, dep_git d \<noteq> None, dep_registry_alias d \<noteq> None]) \<le> 1) \<and>
    set (all_dependencies m True) = D \<and>
    (\<forall>pkg. mf_package m = Some pkg \<longrightarrow>
       (\<forall>p \<in> set (pm_assets pkg) \<union> set_option (pm_icon pkg).
          set (path_components (trim p)) \<subseteq> insert Cur_Dir (range Normal)) \<and>
       (\<exists>ts. pm_targets pkg = map target_as_str ts \<and> distinct ts))"
proof -
  from validate_steps(1)[OF assms(1)] obtain t where
    t: "for_each (check_dependency m) (mf_dependencies m @ mf_dev_dependencies m) (\<lambda>_. None) = Inr t"
    by (auto simp: check_dependencies_def)
  have each: "\<forall>(n, d) \<in> D. validate_package_name n = Inr () \<and> dep_validate d = Inr () \<and> t (import_segment n) = Some n \<and>
      (map_of (mf_dependencies m) n \<noteq> None \<and> map_of (mf_dev_dependencies m) n \<noteq> None \<longrightarrow> map_of (mf_dependencies m) n = Some d)"
    using check_dependencies_segments[OF t] assms(2) by simp
  have names: "\<forall>n \<in> fst ` D. validate_package_name n = Inr () \<and> c_identifier (import_segment n)"
    using each import_segment_identifier by fastforce
  have inj: "inj_on import_segment (fst ` D)"
  proof (rule inj_onI)
    fix x y assume xy: "x \<in> fst ` D" "y \<in> fst ` D" "import_segment x = import_segment y"
    have get: "t (import_segment n) = Some n" if "n \<in> fst ` D" for n
    proof -
      from that obtain d where "(n, d) \<in> D" by auto
      with each show ?thesis by blast
    qed
    have "Some x = t (import_segment x)" by (rule get[OF xy(1), symmetric])
    also have "\<dots> = Some y" unfolding xy(3) by (rule get[OF xy(2)])
    finally show "x = y" by (rule option.inject[THEN iffD1])
  qed
  have source: "\<forall>d \<in> snd ` D. length (filter id [dep_path d \<noteq> None, dep_git d \<noteq> None, dep_registry_alias d \<noteq> None]) \<le> 1"
    using each by (fastforce simp: dep_validate_iff)
  have both: "d = e" if "(n, d) \<in> set (mf_dependencies m)" "(n, e) \<in> set (mf_dev_dependencies m)" for n d e
  proof -
    from that bt_get_iff[OF assms(3)] bt_get_iff[OF assms(4)]
    have "map_of (mf_dependencies m) n = Some d" "map_of (mf_dev_dependencies m) n = Some e" by blast+
    moreover have "(n, e) \<in> D" using that assms(2) by blast
    ultimately show "d = e" using each by fastforce
  qed
  have all: "set (all_dependencies m True) = D"
  proof -
    have ok: "bt_ok (all_dependencies m True)" using assms(3) by (simp add: all_dependencies_def)
    have "p \<in> set (all_dependencies m True) \<longleftrightarrow> p \<in> D" for p
    proof (cases p)
      case (Pair n d)
      have "p \<in> set (all_dependencies m True) \<longleftrightarrow> map_of (all_dependencies m True) n = Some d"
        using bt_get_iff[OF ok] Pair by simp
      also have "\<dots> \<longleftrightarrow> (map_of (mf_dependencies m) ++ map_of (mf_dev_dependencies m)) n = Some d"
        using bt_ok_distinct[OF assms(4)] by (simp add: all_dependencies_def map_of_bt_extend)
      also have "\<dots> \<longleftrightarrow> (n, d) \<in> set (mf_dependencies m) \<or> (n, d) \<in> set (mf_dev_dependencies m)"
        unfolding bt_get_iff[OF assms(3), symmetric] bt_get_iff[OF assms(4), symmetric]
        by (rule agreeing_maps) (blast intro: both bt_get_iff[OF assms(3), THEN iffD1] bt_get_iff[OF assms(4), THEN iffD1])
      finally show ?thesis using Pair assms(2) by simp
    qed
    then show ?thesis by blast
  qed
  have "(\<forall>p \<in> set (pm_assets pkg) \<union> set_option (pm_icon pkg). set (path_components (trim p)) \<subseteq> insert Cur_Dir (range Normal)) \<and>
       (\<exists>ts. pm_targets pkg = map target_as_str ts \<and> distinct ts)" if pkg: "mf_package m = Some pkg" for pkg
  proof -
    from validate_steps(2)[OF assms(1) pkg] obtain ts where s: "\<forall>a \<in> set (pm_assets pkg). check_asset a () = Inr ()"
      "for_each check_target (pm_targets pkg) [] = Inr ts"
      "(case pm_icon pkg of Some icon \<Rightarrow> validate_relative_asset_path icon | None \<Rightarrow> Inr ()) = Inr ()"
      by (auto simp: for_each_unit)
    from check_target_steps[OF s(2)] have "\<exists>ts. pm_targets pkg = map target_as_str ts \<and> distinct ts" by auto
    moreover have "validate_relative_asset_path p = Inr ()" if "p \<in> set (pm_assets pkg) \<union> set_option (pm_icon pkg)" for p
      using that s(1,3) by (auto simp: check_asset_def and_then_Inr_iff)
    ultimately show ?thesis by (simp add: validate_asset_path_iff)
  qed
  with names inj source all show ?thesis by blast
qed

definition sample_package :: "(unit manifest)" where
  "sample_package = (manifest_new ''demo'' ''1.0.0'' ''src/main.dream'')\<lparr>
     mf_package := Some ((package_meta_new ''demo'' ''1.0.0'' Bin (Some ''src/main.dream''))\<lparr>
       pm_targets := [''native'', ''node''], pm_assets := [''data/./maps''], pm_icon := Some ''icon.png''\<rparr>),
     mf_dependencies := [(''json-tools'', D_Version ''^1.0''), (''shared'', D_Detailed (dd_default\<lparr>dd_path := Some ''../shared''\<rparr>))],
     mf_dev_dependencies := [(''json-tools'', D_Version ''^1.0'')]\<rparr>"

lemma sample_package_valid: "validate Some sample_package = Inr ()"
  by code_simp

lemma sample_package_tables: "bt_ok (mf_dependencies sample_package)" "bt_ok (mf_dev_dependencies sample_package)"
  by code_simp+

theorem validated_manifest_witness:
  "inj_on import_segment {''json-tools'', ''shared''} \<and>
   set (all_dependencies sample_package True) =
     {(''json-tools'', D_Version ''^1.0''), (''shared'', D_Detailed (dd_default\<lparr>dd_path := Some ''../shared''\<rparr>))}"
  using validated_manifest[OF sample_package_valid refl sample_package_tables]
  by (simp add: sample_package_def insert_commute)

section \<open>Names of generated applications\<close>

lemma lowercase_alphanumeric: "ascii_alphanumeric c \<Longrightarrow> ascii_alphanumeric (ascii_lowercase c)"
  by (auto simp: ascii_alphanumeric_def ascii_alphabetic_def ascii_digit_def ascii_lowercase_def byte_of_def)

lemma alphanumeric_no_separator:
  assumes "list_all ascii_alphanumeric s"
  shows "CHR ''.'' \<notin> set s" "CHR ''_'' \<notin> set s"
  using assms by (auto simp: list_all_iff ascii_alphanumeric_def ascii_alphabetic_def ascii_digit_def byte_of_def)

text \<open>
  The application settings that are generated for a new project pass validation, whatever the
  name of the package.
\<close>

theorem app_new_valid: "app_validate (app_new name) = Inr ()"
proof -
  define suf where "suf = map ascii_lowercase (filter ascii_alphanumeric name)"
  have suf: "list_all ascii_alphanumeric suf"
    by (auto simp: suf_def list_all_iff lowercase_alphanumeric)
  have new: "app_new name = \<lparr>ac_id = ''org.example.app'' @ suf, ac_android_min_sdk = ANDROID_MIN_API, ac_ios_min_os = ''16.0''\<rparr>"
    by (simp add: app_new_def suf_def)
  have "CHR ''.'' \<notin> set (''app'' @ suf)" using alphanumeric_no_separator(1)[OF suf] by simp
  then have "split_on CHR ''.'' (''app'' @ suf) = [''app'' @ suf]" by (rule split_on_no_sep)
  then have parts: "split_on CHR ''.'' (''org.example.app'' @ suf) = [''org'', ''example'', ''app'' @ suf]" by simp
  have "list_all (\<lambda>c. ascii_alphanumeric c \<or> c = CHR ''_'') suf" using suf by (simp add: list_all_iff)
  then have ids: "c_identifier ''org''" "c_identifier ''example''" "c_identifier (''app'' @ suf)"
    by (simp_all add: c_identifier_def ascii_alphanumeric_def ascii_alphabetic_def byte_of_def)
  have "''app'' @ suf \<notin> set java_keywords" "''org'' \<notin> set java_keywords" "''example'' \<notin> set java_keywords"
    by (simp_all add: java_keywords_def)
  with ids parts have "java_package (''org.example.app'' @ suf) = Inr ()" by (simp add: java_package_def)
  moreover have "CHR ''_'' \<notin> set (''org.example.app'' @ suf)" using alphanumeric_no_separator(2)[OF suf] by simp
  moreover have "os_version_parse ''16.0'' = Inr \<lparr>os_major = 16, os_minor = 0, os_patch = 0\<rparr>"
    by (simp add: os_version_parse_def parse_u16_def ascii_digit_def byte_of_def)
  ultimately show ?thesis by (simp add: app_validate_def new parts)
qed

section \<open>Choosing a host\<close>

text \<open>
  The host of a run is decided by the listed hosts and the explicit choice: a choice is taken
  exactly when nothing or it is listed, and without one exactly when at most one host is listed.
\<close>

theorem run_target_choice:
  "resolve_run_target targets explicit = Inr t \<longleftrightarrow>
     (\<exists>listed. targets = map target_as_str listed \<and>
       (case explicit of
          Some s \<Rightarrow> s = target_as_str t \<and> (listed = [] \<or> t \<in> set listed)
        | None \<Rightarrow> listed = [] \<and> t = Native \<or> listed = [t]))"
proof -
  have listed: "map_res target_parse targets = Inr listed \<longleftrightarrow> targets = map target_as_str listed" for listed
    unfolding map_res_Inr_iff by (auto simp: list_all2_conv_all_nth intro: nth_equalityI)
  have choice: "(case explicit of
       Some sel \<Rightarrow> and_then (target_parse sel) (\<lambda>chosen.
         if listed = [] then Inr chosen
         else if length listed = 1 then
           (if listed ! 0 \<noteq> chosen then Inl (Only_Target (listed ! 0) chosen) else Inr chosen)
         else if chosen \<notin> set listed then Inl (Target_Not_Listed chosen)
         else Inr chosen)
     | None \<Rightarrow> (case length listed of 0 \<Rightarrow> Inr Native | Suc 0 \<Rightarrow> Inr (listed ! 0) | _ \<Rightarrow> Inl Target_Required)) = Inr t \<longleftrightarrow>
     (case explicit of Some s \<Rightarrow> s = target_as_str t \<and> (listed = [] \<or> t \<in> set listed) | None \<Rightarrow> listed = [] \<and> t = Native \<or> listed = [t])"
    for listed
  proof (cases explicit)
    case None
    then show ?thesis by (cases listed; cases "tl listed") auto
  next
    case (Some s)
    have inner: "(if listed = [] then Inr x
         else if length listed = 1 then
           (if listed ! 0 \<noteq> x then Inl (Only_Target (listed ! 0) x) else Inr x)
         else if x \<notin> set listed then Inl (Target_Not_Listed x)
         else Inr x) = Inr t \<longleftrightarrow> x = t \<and> (listed = [] \<or> t \<in> set listed)" for x
      by (cases listed; cases "tl listed") auto
    show ?thesis unfolding Some option.case and_then_Inr_iff inner target_parse_iff by blast
  qed
  show ?thesis unfolding resolve_run_target_def and_then_Inr_iff[of "map_res target_parse targets"] listed choice ..
qed

end
