(* ===== verification/Resolver.thy ===== *)
theory Resolver
  imports Package_Manifest
begin

text \<open>
  Dependency resolution of the package manager (\<open>src/tooling/dreamer/src\<close>: \<open>resolver.rs\<close>, with the
  index entries of \<open>registry/index.rs\<close> and the lock entries of \<open>lockfile.rs\<close> and \<open>workspace.rs\<close>).
  The manifests of a workspace and of local dependencies queue requirements; rounds over the
  requirements choose a version for each name and queue the requirements of the chosen version.

  The world the resolver reads, that is registries, repositories, the file system and the package
  that parses and matches versions, is a record of functions. The rounds and the recursion into
  local projects run on fuel; it suffices when the names and directories of the world are finite.
\<close>

section \<open>Data\<close>

record index_dependency =
  ix_name :: string
  ix_req :: string

record index_entry =
  ie_name :: string
  ie_vers :: string
  ie_deps :: "index_dependency list"
  ie_cksum :: string
  ie_tarball :: string
  ie_description :: "string option"
  ie_authors :: "string list"
  ie_license :: "string option"
  ie_edition :: "string option"
  ie_package_type :: "string option"
  ie_targets :: "string list"
  ie_readme :: "string option"
  ie_keywords :: "string list"

record locked_package =
  lp_name :: string
  lp_version :: string
  lp_source :: string
  lp_checksum :: "string option"
  lp_git_selector :: "string option"
  lp_dependencies :: "string list"

datatype resolved_source =
    RS_Registry string string string
  | RS_Path string
  | RS_Git string string string string

fun lock_source :: "resolved_source \<Rightarrow> string" where
  "lock_source (RS_Registry url tarball checksum) = ''registry+'' @ url"
| "lock_source (RS_Path path) = ''path+'' @ path"
| "lock_source (RS_Git url dir commit selector) = ''git+'' @ url @ ''#'' @ commit"

record resolved_package =
  rp_name :: string
  rp_version :: string
  rp_source :: resolved_source
  rp_dependencies :: "string list"

datatype resolve_error =
    Manifest_Error manifest_error
  | Source_Conflict string string string
  | Segment_Collision string string
  | Unresolved_Path string string
  | Git_Failed string
  | Bad_Requirement string
  | No_Registry string
  | Unreadable_Manifest string
  | Wrong_Package string string
  | No_Index string string
  | Foreign_Entry
  | Invalid_Checksum
  | Unknown_Package string string
  | No_Matching_Version string
  | Lock_Without_Checksum string
  | Lock_Mismatch string
  | Out_Of_Fuel

definition lift_manifest :: "manifest_error + 'a \<Rightarrow> resolve_error + 'a" where
  "lift_manifest r = (case r of Inl e \<Rightarrow> Inl (Manifest_Error e) | Inr x \<Rightarrow> Inr x)"

record ('ver, 'req, 'toml) world =
  w_vparse :: "string \<Rightarrow> 'ver option"
  w_rparse :: "string \<Rightarrow> 'req option"
  w_matches :: "'req \<Rightarrow> 'ver \<Rightarrow> bool"
  w_canonicalize :: "string \<Rightarrow> string \<Rightarrow> string option"
  w_read :: "string \<Rightarrow> 'toml manifest option"
  w_git :: "string \<Rightarrow> string \<Rightarrow> string option \<Rightarrow> (string \<times> string) option"
  w_index :: "string \<Rightarrow> string \<Rightarrow> index_entry list option"

record 'req resolver =
  rv_resolved :: "(string, resolved_package) btree"
  rv_requirements :: "(string, ('req \<times> string) list) btree"
  rv_index_cache :: "string \<times> string \<rightharpoonup> index_entry list"
  rv_visited :: "string set"
  rv_preferred :: "string \<rightharpoonup> locked_package"
  rv_sources :: "(string, string) btree"

definition resolver_new :: "(string \<rightharpoonup> locked_package) \<Rightarrow> 'req resolver" where
  "resolver_new preferred = \<lparr>rv_resolved = [], rv_requirements = [], rv_index_cache = (\<lambda>_. None),
     rv_visited = {}, rv_preferred = preferred, rv_sources = []\<rparr>"

definition reqs_of :: "'req resolver \<Rightarrow> string \<Rightarrow> ('req \<times> string) list" where
  "reqs_of st name = (case map_of (rv_requirements st) name of Some rs \<Rightarrow> rs | None \<Rightarrow> [])"

definition manifest_load :: "('ver, 'req, 'toml) world \<Rightarrow> string \<Rightarrow> resolve_error + 'toml manifest" where
  "manifest_load w dir = and_then (ok_or (w_read w dir) (Unreadable_Manifest dir)) (\<lambda>m.
     and_then (lift_manifest (validate (w_vparse w) m)) (\<lambda>_. Inr m))"

section \<open>Sources\<close>

definition claim_source :: "string \<Rightarrow> string \<Rightarrow> 'req resolver \<Rightarrow> resolve_error + 'req resolver" where
  "claim_source name source st = and_then (lift_manifest (validate_package_name name)) (\<lambda>_.
     case map_of (rv_sources st) name of
       Some previous \<Rightarrow> if previous \<noteq> source then Inl (Source_Conflict name previous source) else Inr st
     | None \<Rightarrow>
         (case find (\<lambda>other. import_segment other = import_segment name) (map fst (rv_sources st)) of
            Some other \<Rightarrow> Inl (Segment_Collision name other)
          | None \<Rightarrow> Inr (st\<lparr>rv_sources := bt_insert name source (rv_sources st)\<rparr>)))"

text \<open>The Debug output of strings and options, which is part of the claimed source of a repository.\<close>

definition hex_digit :: "nat \<Rightarrow> char" where
  "hex_digit n = char_of (if n < 10 then 48 + n else 87 + n)"

definition debug_char :: "char \<Rightarrow> string" where
  "debug_char c =
     (if c = CHR 0x22 then [CHR 0x5C, c] else if c = CHR 0x5C then [CHR 0x5C, c]
      else if c = CHR 0x00 then [CHR 0x5C, CHR ''0''] else if c = CHR 0x09 then [CHR 0x5C, CHR ''t'']
      else if c = CHR 0x0A then [CHR 0x5C, CHR ''n''] else if c = CHR 0x0D then [CHR 0x5C, CHR ''r'']
      else if byte_of c < 16 then [CHR 0x5C] @ ''u{'' @ [hex_digit (byte_of c)] @ ''}''
      else if byte_of c < 32 \<or> byte_of c = 127
        then [CHR 0x5C] @ ''u{'' @ [hex_digit (byte_of c div 16), hex_digit (byte_of c mod 16)] @ ''}''
      else [c])"

fun debug_option :: "string option \<Rightarrow> string" where
  "debug_option None = ''None''"
| "debug_option (Some s) = ''Some('' @ [CHR 0x22] @ concat (map debug_char s) @ [CHR 0x22] @ '')''"

definition git_source :: "string \<Rightarrow> detailed_dependency \<Rightarrow> string" where
  "git_source url d = ''git+'' @ url @ ''#('' @ debug_option (dd_tag d) @ '', '' @
     debug_option (dd_branch d) @ '', '' @ debug_option (dd_rev d) @ '')''"

definition git_selector :: "detailed_dependency \<Rightarrow> string" where
  "git_selector d = (case dd_tag d of Some v \<Rightarrow> ''refs/tags/'' @ v | None \<Rightarrow>
     (case dd_branch d of Some v \<Rightarrow> ''refs/heads/'' @ v | None \<Rightarrow>
       (case dd_rev d of Some v \<Rightarrow> v | None \<Rightarrow> ''HEAD'')))"

definition git_pin :: "(string \<rightharpoonup> locked_package) \<Rightarrow> string \<Rightarrow> string \<Rightarrow> string \<Rightarrow> string option" where
  "git_pin preferred name url selector = (case preferred name of
       Some p \<Rightarrow> if lp_git_selector p = Some selector then strip_prefix (''git+'' @ url @ ''#'') (lp_source p) else None
     | None \<Rightarrow> None)"

section \<open>Queueing requirements\<close>

datatype resolved_kind = RK_Path | RK_Git string string string

fun source_of :: "resolved_kind \<Rightarrow> string \<Rightarrow> resolved_source" where
  "source_of RK_Path dir = RS_Path dir"
| "source_of (RK_Git url commit selector) dir = RS_Git url dir commit selector"

definition local_package :: "package_meta \<Rightarrow> resolved_kind \<Rightarrow> string \<Rightarrow> (string, dependency) btree \<Rightarrow> resolved_package" where
  "local_package pkg kind dir child_deps = \<lparr>rp_name = pm_name pkg, rp_version = pm_version pkg,
     rp_source = source_of kind dir, rp_dependencies = map fst child_deps\<rparr>"

definition queue_local_project ::
  "('ver, 'req, 'toml) world \<Rightarrow>
   (string \<Rightarrow> dependency \<Rightarrow> string \<Rightarrow> 'toml manifest \<Rightarrow> 'req resolver \<Rightarrow> resolve_error + 'req resolver) \<Rightarrow>
   string \<Rightarrow> string \<Rightarrow> resolved_kind \<Rightarrow> 'req resolver \<Rightarrow> resolve_error + 'req resolver" where
  "queue_local_project w queue expected_name dir kind st =
     (if dir \<in> rv_visited st then Inr st else
      let st = st\<lparr>rv_visited := insert dir (rv_visited st)\<rparr> in
      and_then (manifest_load w dir) (\<lambda>dep_manifest.
      let child_deps = all_dependencies dep_manifest False in
      and_then (lift_manifest (package_of dep_manifest)) (\<lambda>pkg.
      if pm_name pkg \<noteq> expected_name then Inl (Wrong_Package expected_name (pm_name pkg)) else
      for_each (\<lambda>(child_name, child_dep). queue child_name child_dep dir dep_manifest) child_deps
        (st\<lparr>rv_resolved := bt_insert (pm_name pkg) (local_package pkg kind dir child_deps) (rv_resolved st)\<rparr>))))"

definition push_requirement :: "string \<Rightarrow> 'req \<times> string \<Rightarrow> 'req resolver \<Rightarrow> 'req resolver" where
  "push_requirement name r st = st\<lparr>rv_requirements :=
     bt_insert name (reqs_of st name @ [r]) (rv_requirements st)\<rparr>"

fun queue_dependency ::
  "('ver, 'req, 'toml) world \<Rightarrow> nat \<Rightarrow> string \<Rightarrow> dependency \<Rightarrow> string \<Rightarrow> 'toml manifest \<Rightarrow> 'req resolver \<Rightarrow>
   resolve_error + 'req resolver" where
  "queue_dependency w 0 name dep base_dir m st = Inl Out_Of_Fuel"
| "queue_dependency w (Suc fuel) name dep base_dir m st =
     and_then (lift_manifest (validate_package_name name)) (\<lambda>_.
     and_then (lift_manifest (dep_validate dep)) (\<lambda>_.
     case dep_path dep of
       Some rel_path \<Rightarrow>
         and_then (ok_or (w_canonicalize w base_dir rel_path) (Unresolved_Path name rel_path)) (\<lambda>dep_dir.
         and_then (claim_source name (''path+'' @ dep_dir) st)
           (queue_local_project w (queue_dependency w fuel) name dep_dir RK_Path))
     | None \<Rightarrow>
     (case dep_git dep of
       Some git_url \<Rightarrow>
         let d = dep_detailed dep; selector = git_selector d in
         and_then (claim_source name (git_source git_url d) st) (\<lambda>st.
         and_then (ok_or (w_git w git_url selector (git_pin (rv_preferred st) name git_url selector)) (Git_Failed git_url)) (\<lambda>checkout.
           queue_local_project w (queue_dependency w fuel) name (fst checkout) (RK_Git git_url (snd checkout) selector) st))
     | None \<Rightarrow>
         and_then (ok_or (w_rparse w (case dep_version_req dep of Some r \<Rightarrow> r | None \<Rightarrow> ''*'')) (Bad_Requirement name)) (\<lambda>req.
         and_then (ok_or (registry_url m (dep_registry_alias dep)) (No_Registry name)) (\<lambda>url.
         and_then (claim_source name (''registry+'' @ url) st) (\<lambda>st.
           Inr (push_requirement name (req, url) st)))))))"

section \<open>Choosing versions\<close>

definition valid_checksum :: "string \<Rightarrow> bool" where
  "valid_checksum s = (let digest = (case strip_prefix ''sha256:'' s of Some d \<Rightarrow> d | None \<Rightarrow> []) in
     length digest = 64 \<and> list_all ascii_hexdigit digest)"

definition check_entry :: "string \<Rightarrow> index_entry \<Rightarrow> unit \<Rightarrow> resolve_error + unit" where
  "check_entry name entry _ = and_then (lift_manifest (validate_package_name (ie_name entry))) (\<lambda>_.
     if ie_name entry \<noteq> name then Inl Foreign_Entry
     else if \<not> valid_checksum (ie_cksum entry) then Inl Invalid_Checksum else Inr ())"

definition candidates ::
  "('ver :: linorder, 'req, 'toml) world \<Rightarrow> ('req \<times> string) list \<Rightarrow> index_entry list \<Rightarrow> index_entry list" where
  "candidates w reqs entries = sort_key (\<lambda>e. the (w_vparse w (ie_vers e)))
     (filter (\<lambda>e. case w_vparse w (ie_vers e) of
        Some v \<Rightarrow> list_all (\<lambda>(r, _). w_matches w r v) reqs | None \<Rightarrow> False) entries)"

definition choose_entry :: "(string \<rightharpoonup> locked_package) \<Rightarrow> string \<Rightarrow> string \<Rightarrow> index_entry list \<Rightarrow> index_entry option" where
  "choose_entry preferred name url cs =
     (case (case preferred name of
              Some v \<Rightarrow> find (\<lambda>e. ie_vers e = lp_version v \<and> lp_source v = ''registry+'' @ url) cs
            | None \<Rightarrow> None) of
        Some e \<Rightarrow> Some e
      | None \<Rightarrow> if cs = [] then None else Some (last cs))"

definition authoritative_checksum ::
  "(string \<rightharpoonup> locked_package) \<Rightarrow> string \<Rightarrow> string \<Rightarrow> index_entry \<Rightarrow> resolve_error + string" where
  "authoritative_checksum preferred name url chosen = (case preferred name of
       None \<Rightarrow> Inr (ie_cksum chosen)
     | Some locked \<Rightarrow>
         if lp_version locked \<noteq> ie_vers chosen \<or> lp_source locked \<noteq> ''registry+'' @ url then Inr (ie_cksum chosen)
         else (case lp_checksum locked of
             None \<Rightarrow> Inl (Lock_Without_Checksum name)
           | Some checksum \<Rightarrow> if checksum \<noteq> ie_cksum chosen then Inl (Lock_Mismatch name) else Inr checksum))"

definition queue_index_dependency ::
  "('ver, 'req, 'toml) world \<Rightarrow> string \<Rightarrow> index_dependency \<Rightarrow> 'req resolver \<Rightarrow> resolve_error + 'req resolver" where
  "queue_index_dependency w url dep st =
     and_then (ok_or (w_rparse w (ix_req dep)) (Bad_Requirement (ix_name dep))) (\<lambda>req.
     and_then (claim_source (ix_name dep) (''registry+'' @ url) st) (\<lambda>st.
       Inr (push_requirement (ix_name dep) (req, url) st)))"

definition fetch_entries ::
  "('ver, 'req, 'toml) world \<Rightarrow> string \<Rightarrow> string \<Rightarrow> 'req resolver \<Rightarrow> resolve_error + (index_entry list \<times> 'req resolver)" where
  "fetch_entries w url name st = (case rv_index_cache st (url, name) of
       Some e \<Rightarrow> Inr (e, st)
     | None \<Rightarrow> and_then (ok_or (w_index w url name) (No_Index name url)) (\<lambda>entries.
         Inr (entries, st\<lparr>rv_index_cache := (rv_index_cache st)((url, name) \<mapsto> entries)\<rparr>)))"

definition registry_package :: "string \<Rightarrow> string \<Rightarrow> index_entry \<Rightarrow> string \<Rightarrow> resolved_package" where
  "registry_package name url chosen checksum = \<lparr>rp_name = name, rp_version = ie_vers chosen,
     rp_source = RS_Registry url (ie_tarball chosen) checksum, rp_dependencies = map ix_name (ie_deps chosen)\<rparr>"

definition take_version ::
  "('ver :: linorder, 'req, 'toml) world \<Rightarrow> string \<Rightarrow> string \<Rightarrow> ('req \<times> string) list \<Rightarrow> index_entry list \<Rightarrow>
   'req resolver \<Rightarrow> bool \<Rightarrow> resolve_error + ('req resolver \<times> bool)" where
  "take_version w name url reqs entries st changed =
     and_then (for_each (check_entry name) entries ()) (\<lambda>_.
     if entries = [] then Inl (Unknown_Package name url) else
     and_then (ok_or (choose_entry (rv_preferred st) name url (candidates w reqs entries)) (No_Matching_Version name)) (\<lambda>chosen.
     and_then (authoritative_checksum (rv_preferred st) name url chosen) (\<lambda>checksum.
     if (case map_of (rv_resolved st) name of Some p \<Rightarrow> rp_version p = ie_vers chosen | None \<Rightarrow> False)
     then Inr (st, changed) else
     and_then (for_each (queue_index_dependency w url) (ie_deps chosen)
         (st\<lparr>rv_resolved := bt_insert name (registry_package name url chosen checksum) (rv_resolved st)\<rparr>))
       (\<lambda>st. Inr (st, True)))))"

definition resolve_name ::
  "('ver :: linorder, 'req, 'toml) world \<Rightarrow> string \<Rightarrow> 'req resolver \<times> bool \<Rightarrow> resolve_error + ('req resolver \<times> bool)" where
  "resolve_name w name = (\<lambda>(st, changed).
     if map_of (rv_resolved st) name \<noteq> None then Inr (st, changed) else
     let reqs = reqs_of st name in
     case reqs of [] \<Rightarrow> Inr (st, changed)
     | (_, url) # _ \<Rightarrow> and_then (fetch_entries w url name st) (\<lambda>(entries, st). take_version w name url reqs entries st changed))"

fun run_rounds :: "('ver :: linorder, 'req, 'toml) world \<Rightarrow> nat \<Rightarrow> 'req resolver \<Rightarrow> resolve_error + 'req resolver" where
  "run_rounds w 0 st = Inl Out_Of_Fuel"
| "run_rounds w (Suc fuel) st =
     and_then (for_each (resolve_name w) (map fst (rv_requirements st)) (st, False)) (\<lambda>(st, changed).
     if changed then run_rounds w fuel st else Inr st)"

definition queue_member ::
  "('ver, 'req, 'toml) world \<Rightarrow> nat \<Rightarrow> bool \<Rightarrow> string \<times> 'toml manifest \<Rightarrow> 'req resolver \<Rightarrow> resolve_error + 'req resolver" where
  "queue_member w fuel include_dev member st = (let (dir, m) = member in
     for_each (\<lambda>(name, dep). queue_dependency w fuel name dep dir m) (all_dependencies m include_dev) st)"

definition resolve_many ::
  "('ver :: linorder, 'req, 'toml) world \<Rightarrow> nat \<Rightarrow> (string \<times> 'toml manifest) list \<Rightarrow> bool \<Rightarrow>
   (string \<rightharpoonup> locked_package) \<Rightarrow> resolve_error + resolved_package list" where
  "resolve_many w fuel members include_dev preferred =
     and_then (for_each (queue_member w fuel include_dev) members (resolver_new preferred)) (\<lambda>st.
     and_then (run_rounds w fuel st) (\<lambda>st. Inr (map snd (rv_resolved st))))"

definition resolve_one ::
  "('ver :: linorder, 'req, 'toml) world \<Rightarrow> nat \<Rightarrow> 'toml manifest \<Rightarrow> string \<Rightarrow> bool \<Rightarrow> (string \<rightharpoonup> locked_package) \<Rightarrow>
   resolve_error + resolved_package list" where
  "resolve_one w fuel m project_dir include_dev preferred =
     resolve_many w fuel [(project_dir, m)] include_dev preferred"

section \<open>The lock file\<close>

definition locked_of :: "resolved_package list \<Rightarrow> resolved_package \<Rightarrow> locked_package" where
  "locked_of resolved p = \<lparr>lp_name = rp_name p, lp_version = rp_version p, lp_source = lock_source (rp_source p),
     lp_checksum = (case rp_source p of RS_Registry _ _ c \<Rightarrow> Some c | _ \<Rightarrow> None),
     lp_git_selector = (case rp_source p of RS_Git _ _ _ s \<Rightarrow> Some s | _ \<Rightarrow> None),
     lp_dependencies = List.map_filter (\<lambda>n. map_option (\<lambda>q. rp_name q @ '' '' @ rp_version q)
       (map_of (rev (map (\<lambda>q. (rp_name q, q)) resolved)) n)) (rp_dependencies p)\<rparr>"

text \<open>The map of preferred versions that \<open>install\<close> builds from the lock file it wrote before.\<close>

definition lock_preferred :: "resolved_package list \<Rightarrow> string \<rightharpoonup> locked_package" where
  "lock_preferred resolved = map_of (rev (map (\<lambda>p. (rp_name p, locked_of resolved p)) resolved))"

section \<open>The state of the resolver\<close>

text \<open>
  Names are claimed for one source, and the import directories of claimed names differ. A name with
  requirements is claimed for the registry of each of them; a resolved package carries the source
  its name is claimed for.
\<close>

fun claimed_for :: "resolved_source \<Rightarrow> string \<Rightarrow> bool" where
  "claimed_for (RS_Registry url _ _) s \<longleftrightarrow> s = ''registry+'' @ url"
| "claimed_for (RS_Path dir) s \<longleftrightarrow> s = ''path+'' @ dir"
| "claimed_for (RS_Git url _ _ _) s \<longleftrightarrow> (\<exists>t. s = ''git+'' @ t)"

definition state_ok :: "('ver, 'req, 'toml) world \<Rightarrow> 'req resolver \<Rightarrow> bool" where
  "state_ok w st \<longleftrightarrow>
     bt_ok (rv_resolved st) \<and> bt_ok (rv_requirements st) \<and>
     inj_on import_segment (fst ` set (rv_sources st)) \<and>
     (\<forall>n rs. map_of (rv_requirements st) n = Some rs \<longrightarrow> rs \<noteq> []) \<and>
     (\<forall>n r u. (r, u) \<in> set (reqs_of st n) \<longrightarrow> map_of (rv_sources st) n = Some (''registry+'' @ u)) \<and>
     (\<forall>n p. map_of (rv_resolved st) n = Some p \<longrightarrow> rp_name p = n \<and>
        (\<exists>s. map_of (rv_sources st) n = Some s \<and> claimed_for (rp_source p) s)) \<and>
     (\<forall>u n es. rv_index_cache st (u, n) = Some es \<longrightarrow> w_index w u n = Some es)"

lemma state_ok_registry:
  "state_ok w st \<Longrightarrow> (r, u) \<in> set (reqs_of st n) \<Longrightarrow> map_of (rv_sources st) n = Some (''registry+'' @ u)"
  unfolding state_ok_def by blast

lemma state_ok_resolved:
  "state_ok w st \<Longrightarrow> map_of (rv_resolved st) n = Some p \<Longrightarrow>
     rp_name p = n \<and> (\<exists>s. map_of (rv_sources st) n = Some s \<and> claimed_for (rp_source p) s)"
  unfolding state_ok_def by blast

definition grows :: "'req resolver \<Rightarrow> 'req resolver \<Rightarrow> bool" where
  "grows st st' \<longleftrightarrow> map_of (rv_sources st) \<subseteq>\<^sub>m map_of (rv_sources st') \<and>
     (\<forall>n. \<exists>rs. reqs_of st' n = reqs_of st n @ rs) \<and> rv_preferred st' = rv_preferred st"

lemma grows_refl [simp]: "grows st st"
  by (simp add: grows_def)

lemma grows_trans: "grows a b \<Longrightarrow> grows b c \<Longrightarrow> grows a c"
  unfolding grows_def by (metis append.assoc map_le_trans)

lemma lift_manifest_Inr_iff [simp]: "lift_manifest r = Inr x \<longleftrightarrow> r = Inr x"
  by (cases r) (simp_all add: lift_manifest_def)

lemma lift_manifest_simps [simp]: "lift_manifest (Inr x) = Inr x" "lift_manifest (Inl e) = Inl (Manifest_Error e)"
  by (simp_all add: lift_manifest_def)

lemma reqs_of_push [simp]:
  "reqs_of (push_requirement n r st) m = (if m = n then reqs_of st n @ [r] else reqs_of st m)"
  by (simp add: push_requirement_def reqs_of_def)

lemma reqs_of_fields [simp]:
  "reqs_of (st\<lparr>rv_index_cache := C\<rparr>) n = reqs_of st n" "reqs_of (st\<lparr>rv_resolved := R\<rparr>) n = reqs_of st n"
  "reqs_of (st\<lparr>rv_preferred := L\<rparr>) n = reqs_of st n"
  "reqs_of (st\<lparr>rv_sources := S\<rparr>) n = reqs_of st n" "reqs_of (st\<lparr>rv_visited := V\<rparr>) n = reqs_of st n"
  by (simp_all add: reqs_of_def)

lemma push_fields [simp]:
  "rv_resolved (push_requirement n r st) = rv_resolved st" "rv_sources (push_requirement n r st) = rv_sources st"
  "rv_index_cache (push_requirement n r st) = rv_index_cache st" "rv_visited (push_requirement n r st) = rv_visited st"
  "rv_preferred (push_requirement n r st) = rv_preferred st"
  by (simp_all add: push_requirement_def)

lemma claim_source_result:
  assumes "claim_source name source st = Inr st'" "inj_on import_segment (fst ` set (rv_sources st))"
  shows "\<exists>S. st' = st\<lparr>rv_sources := S\<rparr> \<and> map_of S = (map_of (rv_sources st))(name \<mapsto> source) \<and>
    map_of (rv_sources st) name \<in> {None, Some source} \<and> inj_on import_segment (fst ` set S) \<and>
    validate_package_name name = Inr ()"
proof -
  from assms(1) have name: "validate_package_name name = Inr ()"
    by (auto simp: claim_source_def and_then_Inr_iff)
  show ?thesis
  proof (cases "map_of (rv_sources st) name")
    case None
    with assms(1) have fresh: "find (\<lambda>other. import_segment other = import_segment name) (map fst (rv_sources st)) = None"
      and st': "st' = st\<lparr>rv_sources := bt_insert name source (rv_sources st)\<rparr>"
      by (auto simp: claim_source_def and_then_Inr_iff split: option.splits)
    from fresh have "\<forall>k \<in> fst ` set (rv_sources st). import_segment k \<noteq> import_segment name"
      by (auto simp: find_None_iff)
    then have "inj_on import_segment (fst ` set (bt_insert name source (rv_sources st)))"
      unfolding keys_bt_insert inj_on_insert using assms(2) by (metis (no_types, lifting) DiffD1 imageE)
    with None name st' show ?thesis by auto
  next
    case (Some s)
    with assms(1) have "s = source" "st' = st"
      by (auto simp: claim_source_def and_then_Inr_iff split: if_splits)
    with Some assms(2) name show ?thesis
      by (intro exI[of _ "rv_sources st"]) (auto simp: fun_upd_idem)
  qed
qed

lemma claim_source_ok:
  assumes "claim_source name source st = Inr st'" "state_ok w st"
  shows "state_ok w st'" "grows st st'" "map_of (rv_sources st') name = Some source"
    "rv_resolved st' = rv_resolved st" "rv_requirements st' = rv_requirements st" "rv_visited st' = rv_visited st"
    "rv_preferred st' = rv_preferred st" "rv_index_cache st' = rv_index_cache st"
proof -
  from assms(2) have "inj_on import_segment (fst ` set (rv_sources st))" by (simp add: state_ok_def)
  from claim_source_result[OF assms(1) this] obtain S where S: "st' = st\<lparr>rv_sources := S\<rparr>"
    "map_of S = (map_of (rv_sources st))(name \<mapsto> source)" "map_of (rv_sources st) name \<in> {None, Some source}"
    "inj_on import_segment (fst ` set S)" by blast
  have le: "map_of (rv_sources st) \<subseteq>\<^sub>m map_of S"
    using S(3) unfolding S(2) by (auto simp: map_le_def)
  then have get: "map_of S n = Some s" if "map_of (rv_sources st) n = Some s" for n s
    using that by (auto simp: map_le_def dom_def)
  have reqs: "reqs_of st' n = reqs_of st n" for n by (simp add: S(1) reqs_of_def)
  show "state_ok w st'"
    using assms(2) S(4) get unfolding state_ok_def reqs by (auto simp: S(1)) blast+
  show "grows st st'" using le by (simp add: grows_def reqs) (simp add: S(1))
  show "map_of (rv_sources st') name = Some source" by (simp add: S(1,2))
  show "rv_resolved st' = rv_resolved st" "rv_requirements st' = rv_requirements st" "rv_visited st' = rv_visited st"
    "rv_preferred st' = rv_preferred st" "rv_index_cache st' = rv_index_cache st"
    by (simp_all add: S(1))
qed

lemma push_requirement_ok:
  assumes "state_ok w st" "map_of (rv_sources st) name = Some (''registry+'' @ url)"
  shows "state_ok w (push_requirement name (r, url) st)" "grows st (push_requirement name (r, url) st)"
proof -
  have "bt_ok (rv_requirements (push_requirement name (r, url) st))"
    using assms(1) by (simp add: state_ok_def push_requirement_def)
  moreover have "map_of (rv_requirements (push_requirement name (r, url) st)) n = Some rs \<Longrightarrow> rs \<noteq> []" for n rs
    using assms(1) by (auto simp: state_ok_def push_requirement_def split: if_splits)
  moreover have "map_of (rv_sources st) n = Some (''registry+'' @ u)"
    if "(q, u) \<in> set (reqs_of (push_requirement name (r, url) st) n)" for n q u
    using that assms unfolding state_ok_def by (auto split: if_splits)
  ultimately show "state_ok w (push_requirement name (r, url) st)"
    using assms(1) unfolding state_ok_def push_fields by blast
  show "grows st (push_requirement name (r, url) st)" by (simp add: grows_def)
qed

section \<open>Queueing keeps the state in order\<close>

text \<open>While requirements are queued, only local and repository packages are resolved.\<close>

definition pinned_only :: "'req resolver \<Rightarrow> bool" where
  "pinned_only st \<longleftrightarrow> (\<forall>n p u t c. map_of (rv_resolved st) n = Some p \<longrightarrow> rp_source p \<noteq> RS_Registry u t c)"

definition queued :: "('ver, 'req, 'toml) world \<Rightarrow> 'req resolver \<Rightarrow> 'req resolver \<Rightarrow> bool" where
  "queued w st st' \<longleftrightarrow> state_ok w st' \<and> pinned_only st' \<and> grows st st'"

lemma queued_refl: "state_ok w st \<Longrightarrow> pinned_only st \<Longrightarrow> queued w st st"
  by (simp add: queued_def)

lemma queued_trans: "queued w a b \<Longrightarrow> queued w b c \<Longrightarrow> queued w a c"
  unfolding queued_def using grows_trans by blast

lemma queue_all:
  assumes "for_each f xs st = Inr st'" "state_ok w st" "pinned_only st"
    and step: "\<And>x st st'. x \<in> set xs \<Longrightarrow> f x st = Inr st' \<Longrightarrow> state_ok w st \<Longrightarrow> pinned_only st \<Longrightarrow> queued w st st' \<and> Q x st'"
    and mono: "\<And>x st st'. Q x st \<Longrightarrow> grows st st' \<Longrightarrow> Q x st'"
  shows "queued w st st' \<and> (\<forall>x \<in> set xs. Q x st')"
proof -
  have "(state_ok w st' \<and> pinned_only st') \<and> grows st st' \<and> (\<forall>x \<in> set xs. Q x st')"
    using assms(1)
  proof (rule for_each_steps[where I = "\<lambda>st. state_ok w st \<and> pinned_only st"])
    show "state_ok w st \<and> pinned_only st" using assms(2,3) ..
  next
    fix x s t assume "x \<in> set xs" "f x s = Inr t" "state_ok w s \<and> pinned_only s"
    then show "(state_ok w t \<and> pinned_only t) \<and> grows s t \<and> Q x t" using step by (auto simp: queued_def)
  qed (fact grows_refl grows_trans mono)+
  then show ?thesis by (simp add: queued_def)
qed

lemma resolved_insert_ok:
  assumes "state_ok w st" "map_of (rv_sources st) n = Some s" "claimed_for (rp_source p) s" "rp_name p = n"
  shows "state_ok w (st\<lparr>rv_visited := V, rv_resolved := bt_insert n p (rv_resolved st)\<rparr>)"
    and "state_ok w (st\<lparr>rv_resolved := bt_insert n p (rv_resolved st)\<rparr>)"
  using assms by (auto simp: state_ok_def reqs_of_def split: if_splits)

lemma queue_local_unvisited:
  assumes "dir \<notin> rv_visited st"
  shows "queue_local_project w queue n dir kind st = Inr st' \<longleftrightarrow>
    (\<exists>m pkg. manifest_load w dir = Inr m \<and> package_of m = Inr pkg \<and> pm_name pkg = n \<and>
      for_each (\<lambda>(child_name, child_dep). queue child_name child_dep dir m) (all_dependencies m False)
        (st\<lparr>rv_visited := insert dir (rv_visited st), rv_resolved := bt_insert n
           (local_package pkg kind dir (all_dependencies m False)) (rv_resolved st)\<rparr>) = Inr st')"
proof -
  have "(if P then Inl e else r) = Inr st' \<longleftrightarrow> \<not> P \<and> r = Inr st'" for P e r by simp
  with assms show ?thesis
    unfolding queue_local_project_def Let_def and_then_Inr_iff lift_manifest_Inr_iff if_not_P[OF assms] by (auto cong: conj_cong)
qed

lemma queue_local_project_ok:
  assumes "queue_local_project w queue n dir kind st = Inr st'" "state_ok w st" "pinned_only st"
    and "map_of (rv_sources st) n = Some s" "claimed_for (source_of kind dir) s"
    and rec: "\<And>n dep base m st st'. queue n dep base m st = Inr st' \<Longrightarrow> state_ok w st \<Longrightarrow> pinned_only st \<Longrightarrow> queued w st st'"
  shows "queued w st st'"
proof (cases "dir \<in> rv_visited st")
  case True
  with assms(1-3) show ?thesis by (simp add: queue_local_project_def queued_refl)
next
  case False
  from assms(1)[unfolded queue_local_unvisited[OF this]] obtain m pkg where m: "manifest_load w dir = Inr m" "package_of m = Inr pkg"
    "pm_name pkg = n" "for_each (\<lambda>(child_name, child_dep). queue child_name child_dep dir m) (all_dependencies m False)
        (st\<lparr>rv_visited := insert dir (rv_visited st), rv_resolved := bt_insert n
           (local_package pkg kind dir (all_dependencies m False)) (rv_resolved st)\<rparr>) = Inr st'"
    by (elim exE conjE) (rule that)
  define p where "p = local_package pkg kind dir (all_dependencies m False)"
  have p: "rp_source p = source_of kind dir" "rp_name p = n"
    "for_each (\<lambda>(child_name, child_dep). queue child_name child_dep dir m) (all_dependencies m False)
       (st\<lparr>rv_visited := insert dir (rv_visited st), rv_resolved := bt_insert n p (rv_resolved st)\<rparr>) = Inr st'"
    using m(3,4) by (simp_all add: p_def local_package_def)
  let ?st = "st\<lparr>rv_visited := insert dir (rv_visited st), rv_resolved := bt_insert n p (rv_resolved st)\<rparr>"
  have ok: "state_ok w ?st"
    using resolved_insert_ok(1)[OF assms(2,4) _ p(2)] assms(5) p(1) by simp
  moreover have pin: "pinned_only ?st"
    using assms(3) p(1) by (cases kind) (auto simp: pinned_only_def)
  moreover have "grows st ?st" by (simp add: grows_def reqs_of_def)
  ultimately have "queued w st ?st" by (simp add: queued_def)
  moreover have "queued w ?st st' \<and> (\<forall>x \<in> set (all_dependencies m False). True)"
    using p(3) ok pin by (rule queue_all) (auto intro: rec)
  then have "queued w ?st st'" ..
  ultimately show ?thesis by (rule queued_trans)
qed

text \<open>A dependency on a registry leaves its requirement behind.\<close>

definition requirement_queued :: "('ver, 'req, 'toml) world \<Rightarrow> 'toml manifest \<Rightarrow> string \<Rightarrow> dependency \<Rightarrow> 'req resolver \<Rightarrow> bool" where
  "requirement_queued w m n dep st \<longleftrightarrow>
     (dep_path dep = None \<longrightarrow> dep_git dep = None \<longrightarrow>
       (\<exists>r u. w_rparse w (case dep_version_req dep of Some r \<Rightarrow> r | None \<Rightarrow> ''*'') = Some r \<and>
          registry_url m (dep_registry_alias dep) = Some u \<and> (r, u) \<in> set (reqs_of st n)))"

lemma requirement_queued_grows: "requirement_queued w m n dep st \<Longrightarrow> grows st st' \<Longrightarrow> requirement_queued w m n dep st'"
proof -
  assume q: "requirement_queued w m n dep st" and "grows st st'"
  then have "set (reqs_of st n) \<subseteq> set (reqs_of st' n)" by (metis grows_def set_append sup_ge1)
  with q show "requirement_queued w m n dep st'" unfolding requirement_queued_def by blast
qed

lemma queue_dependency_ok:
  "queue_dependency w fuel n dep base m st = Inr st' \<Longrightarrow> state_ok w st \<Longrightarrow> pinned_only st \<Longrightarrow>
     queued w st st' \<and> requirement_queued w m n dep st'"
proof (induction fuel arbitrary: n dep base m st st')
  case 0
  then show ?case by simp
next
  case (Suc fuel)
  note rec = Suc.IH[THEN conjunct1]
  have claim: "queued w st st1 \<and> map_of (rv_sources st1) n = Some source" if "claim_source n source st = Inr st1" for source st1
    using claim_source_ok[OF that Suc.prems(2)] Suc.prems(3) by (simp add: queued_def pinned_only_def)
  have local: "queued w st st'"
    if "claim_source n source st = Inr st1" "claimed_for (source_of kind dir) source"
      "queue_local_project w (queue_dependency w fuel) n dir kind st1 = Inr st'" for source st1 kind dir
  proof -
    from claim[OF that(1)] have st1: "queued w st st1" "map_of (rv_sources st1) n = Some source" by blast+
    then have ok: "state_ok w st1" "pinned_only st1" by (simp_all add: queued_def)
    have "queued w st1 st'" by (rule queue_local_project_ok[OF that(3) ok st1(2) that(2) rec])
    with st1(1) show ?thesis by (rule queued_trans)
  qed
  show ?case
  proof (cases "dep_path dep")
    case (Some rel)
    with Suc.prems(1) obtain dir st1 where "claim_source n (''path+'' @ dir) st = Inr st1"
      "queue_local_project w (queue_dependency w fuel) n dir RK_Path st1 = Inr st'"
      by (auto simp: and_then_Inr_iff)
    with local[of "''path+'' @ dir" st1 RK_Path dir] Some show ?thesis by (simp add: requirement_queued_def)
  next
    case None
    show ?thesis
    proof (cases "dep_git dep")
      case (Some url)
      with None Suc.prems(1) obtain st1 c where "claim_source n (git_source url (dep_detailed dep)) st = Inr st1"
        "queue_local_project w (queue_dependency w fuel) n (fst c) (RK_Git url (snd c) (git_selector (dep_detailed dep))) st1 = Inr st'"
        by (auto simp: and_then_Inr_iff Let_def)
      moreover have "claimed_for (source_of (RK_Git url (snd c) (git_selector (dep_detailed dep))) (fst c)) (git_source url (dep_detailed dep))"
        by (simp add: git_source_def)
      ultimately have "queued w st st'" using local by blast
      with Some show ?thesis by (simp add: requirement_queued_def)
    next
      case no_git: None
      with None Suc.prems(1) obtain r u st1 where r: "w_rparse w (case dep_version_req dep of Some r \<Rightarrow> r | None \<Rightarrow> ''*'') = Some r"
        "registry_url m (dep_registry_alias dep) = Some u" "claim_source n (''registry+'' @ u) st = Inr st1"
        "st' = push_requirement n (r, u) st1"
        by (auto simp: and_then_Inr_iff)
      from claim[OF r(3)] have st1: "queued w st st1" "map_of (rv_sources st1) n = Some (''registry+'' @ u)" by blast+
      from st1(1) have ok: "state_ok w st1" "pinned_only st1" by (simp_all add: queued_def)
      have "queued w st1 st'" using push_requirement_ok[OF ok(1) st1(2), of r] ok(2)
        unfolding r(4) by (simp add: queued_def pinned_only_def)
      with st1(1) have "queued w st st'" by (rule queued_trans)
      moreover have "requirement_queued w m n dep st'" using r(1,2) unfolding r(4) by (simp add: requirement_queued_def)
      ultimately show ?thesis by blast
    qed
  qed
qed

lemma resolver_new_ok: "state_ok w (resolver_new preferred)" "pinned_only (resolver_new preferred)"
  by (simp_all add: state_ok_def pinned_only_def resolver_new_def reqs_of_def)

lemma queue_members:
  assumes "for_each (queue_member w fuel include_dev) members (resolver_new preferred) = Inr st"
  shows "queued w (resolver_new preferred) st"
    and "(d, m) \<in> set members \<Longrightarrow> (n, dep) \<in> set (all_dependencies m include_dev) \<Longrightarrow> requirement_queued w m n dep st"
proof -
  let ?Q = "\<lambda>(d, m) st. \<forall>(n, dep) \<in> set (all_dependencies m include_dev). requirement_queued w m n dep st"
  have "queued w (resolver_new preferred) st \<and> (\<forall>x \<in> set members. ?Q x st)"
  proof (rule queue_all[OF assms resolver_new_ok])
    fix x st st'
    assume "queue_member w fuel include_dev x st = Inr st'" and ok: "state_ok w st" "pinned_only st"
    moreover obtain d m where x: "x = (d, m)" by fastforce
    ultimately have "for_each (\<lambda>(name, dep). queue_dependency w fuel name dep d m) (all_dependencies m include_dev) st = Inr st'"
      by (simp add: queue_member_def)
    then have "queued w st st' \<and> (\<forall>nd \<in> set (all_dependencies m include_dev). (\<lambda>(n, dep) st. requirement_queued w m n dep st) nd st')"
      using ok by (rule queue_all) (auto dest!: queue_dependency_ok intro: requirement_queued_grows)
    then show "queued w st st' \<and> ?Q x st'" by (auto simp: x)
  next
    show "?Q x st'" if "?Q x st" "grows st st'" for x st st'
      using that by (auto intro: requirement_queued_grows)
  qed
  then show "queued w (resolver_new preferred) st"
    "(d, m) \<in> set members \<Longrightarrow> (n, dep) \<in> set (all_dependencies m include_dev) \<Longrightarrow> requirement_queued w m n dep st"
    by auto
qed

section \<open>Rounds\<close>

text \<open>
  A package chosen from a registry is an entry of its index; its version meets the requirements that
  had been queued when it was chosen, those of \<open>R0\<close> among them, and its own dependencies are
  required from the same registry.
\<close>

definition chosen_from ::
  "('ver, 'req, 'toml) world \<Rightarrow> nat \<Rightarrow> 'req resolver \<Rightarrow> string \<Rightarrow> resolved_package \<Rightarrow> string \<Rightarrow> string \<Rightarrow> bool" where
  "chosen_from w k0 st n p u c \<longleftrightarrow>
     (\<exists>es e v k. w_index w u n = Some es \<and> e \<in> set es \<and> p = registry_package n u e c \<and> w_vparse w (ie_vers e) = Some v \<and>
        k0 \<le> k \<and> 0 < k \<and> k \<le> length (reqs_of st n) \<and> (\<forall>(r, _) \<in> set (take k (reqs_of st n)). w_matches w r v) \<and>
        (\<forall>d \<in> set (ie_deps e). \<exists>r. w_rparse w (ix_req d) = Some r \<and> (r, u) \<in> set (reqs_of st (ix_name d))))"

definition chosen_ok :: "('ver, 'req, 'toml) world \<Rightarrow> (string \<Rightarrow> nat) \<Rightarrow> 'req resolver \<Rightarrow> bool" where
  "chosen_ok w k0 st \<longleftrightarrow>
     (\<forall>n p u t c. map_of (rv_resolved st) n = Some p \<longrightarrow> rp_source p = RS_Registry u t c \<longrightarrow> chosen_from w (k0 n) st n p u c)"

lemma chosen_from_grows: "chosen_from w k0 st n p u c \<Longrightarrow> grows st st' \<Longrightarrow> chosen_from w k0 st' n p u c"
proof -
  assume c: "chosen_from w k0 st n p u c" and g: "grows st st'"
  from g obtain rs where rs: "reqs_of st' n = reqs_of st n @ rs" by (auto simp: grows_def)
  have sub: "set (reqs_of st m) \<subseteq> set (reqs_of st' m)" for m using g by (metis grows_def set_append sup_ge1)
  from c obtain es e v k where "w_index w u n = Some es" "e \<in> set es" "p = registry_package n u e c" "w_vparse w (ie_vers e) = Some v"
    "k0 \<le> k" "0 < k" "k \<le> length (reqs_of st n)" "\<forall>(r, _) \<in> set (take k (reqs_of st n)). w_matches w r v"
    "\<forall>d \<in> set (ie_deps e). \<exists>r. w_rparse w (ix_req d) = Some r \<and> (r, u) \<in> set (reqs_of st (ix_name d))"
    unfolding chosen_from_def by blast
  moreover have "take k (reqs_of st' n) = take k (reqs_of st n)" using calculation(7) by (simp add: rs)
  moreover have "k \<le> length (reqs_of st' n)" using calculation(7) by (simp add: rs)
  ultimately show "chosen_from w k0 st' n p u c"
    unfolding chosen_from_def using sub by (intro exI[of _ es] exI[of _ e] exI[of _ v] exI[of _ k]) fastforce
qed

lemma find_SomeD: "find P xs = Some x \<Longrightarrow> x \<in> set xs \<and> P x"
  by (auto simp: find_Some_iff)

lemma candidates_iff:
  "e \<in> set (candidates w reqs entries) \<longleftrightarrow>
     e \<in> set entries \<and> (\<exists>v. w_vparse w (ie_vers e) = Some v \<and> (\<forall>(r, _) \<in> set reqs. w_matches w r v))"
  by (auto simp: candidates_def list_all_iff split: option.splits)

lemma choose_entry_in: "choose_entry preferred n u cs = Some e \<Longrightarrow> e \<in> set cs"
  by (auto simp: choose_entry_def split: option.splits if_splits dest: find_SomeD)

lemma fetch_entries_ok:
  assumes "fetch_entries w u n st = Inr (es, st')" "state_ok w st"
  shows "w_index w u n = Some es" "\<exists>C. st' = st\<lparr>rv_index_cache := C\<rparr>" "state_ok w st'"
proof -
  from assms show "w_index w u n = Some es"
    by (auto simp: fetch_entries_def and_then_Inr_iff state_ok_def split: option.splits)
  from assms(1) have "st' = st \<or> w_index w u n = Some es \<and> st' = st\<lparr>rv_index_cache := (rv_index_cache st)((u, n) \<mapsto> es)\<rparr>"
    by (auto simp: fetch_entries_def and_then_Inr_iff split: option.splits)
  then obtain C where C: "st' = st\<lparr>rv_index_cache := C\<rparr>" "\<forall>u' n' es'. C (u', n') = Some es' \<longrightarrow> w_index w u' n' = Some es'"
  proof
    assume "st' = st"
    then show thesis using that[of "rv_index_cache st"] assms(2) by (simp add: state_ok_def)
  next
    assume "w_index w u n = Some es \<and> st' = st\<lparr>rv_index_cache := (rv_index_cache st)((u, n) \<mapsto> es)\<rparr>"
    then show thesis using that[of "(rv_index_cache st)((u, n) \<mapsto> es)"] assms(2) by (simp add: state_ok_def)
  qed
  then show "\<exists>C. st' = st\<lparr>rv_index_cache := C\<rparr>" by blast
  show "state_ok w st'" using assms(2) C(2) unfolding C(1) state_ok_def by simp
qed

text \<open>The outcomes of one name in a round.\<close>

lemma resolve_name_cases:
  assumes "resolve_name w n (st, ch) = Inr (st', ch')"
  obtains (kept) "st' = st" "ch' = ch" "reqs_of st n = [] \<or> map_of (rv_resolved st) n \<noteq> None"
  | (chosen) r u rest es st1 e c where "map_of (rv_resolved st) n = None" "reqs_of st n = (r, u) # rest"
      "fetch_entries w u n st = Inr (es, st1)" "for_each (check_entry n) es () = Inr ()" "es \<noteq> []"
      "choose_entry (rv_preferred st1) n u (candidates w (reqs_of st n) es) = Some e"
      "authoritative_checksum (rv_preferred st1) n u e = Inr c"
      "for_each (queue_index_dependency w u) (ie_deps e)
         (st1\<lparr>rv_resolved := bt_insert n (registry_package n u e c) (rv_resolved st1)\<rparr>) = Inr st'" "ch'"
proof (cases "map_of (rv_resolved st) n = None \<and> reqs_of st n \<noteq> []")
  case False
  with assms have "st' = st \<and> ch' = ch" by (cases "map_of (rv_resolved st) n") (auto simp: resolve_name_def Let_def)
  with False kept show thesis by blast
next
  case True
  then obtain r u rest where rs: "reqs_of st n = (r, u) # rest" by (cases "reqs_of st n") auto
  from assms True rs have "and_then (fetch_entries w u n st) (\<lambda>(entries, st'). take_version w n u (reqs_of st n) entries st' ch) = Inr (st', ch')"
    by (simp add: resolve_name_def)
  then obtain es st1 where f: "fetch_entries w u n st = Inr (es, st1)"
    and k: "take_version w n u (reqs_of st n) es st1 ch = Inr (st', ch')" by (auto simp: and_then_Inr_iff)
  have "rv_resolved st1 = rv_resolved st"
    using f by (auto simp: fetch_entries_def and_then_Inr_iff split: option.splits)
  with True have "map_of (rv_resolved st1) n = None" by simp
  with k obtain e c where "for_each (check_entry n) es () = Inr ()" "es \<noteq> []"
      "choose_entry (rv_preferred st1) n u (candidates w (reqs_of st n) es) = Some e"
      "authoritative_checksum (rv_preferred st1) n u e = Inr c"
      "for_each (queue_index_dependency w u) (ie_deps e)
         (st1\<lparr>rv_resolved := bt_insert n (registry_package n u e c) (rv_resolved st1)\<rparr>) = Inr st'" "ch'"
    by (auto simp: take_version_def and_then_Inr_iff split: if_splits)
  with True rs f chosen show thesis by blast
qed

definition advances :: "'req resolver \<Rightarrow> 'req resolver \<Rightarrow> bool" where
  "advances st st' \<longleftrightarrow> grows st st' \<and> map_of (rv_resolved st) \<subseteq>\<^sub>m map_of (rv_resolved st')"

lemma advances_refl [simp]: "advances st st"
  by (simp add: advances_def)

lemma advances_trans: "advances a b \<Longrightarrow> advances b c \<Longrightarrow> advances a c"
  unfolding advances_def using grows_trans map_le_trans by blast

definition index_dependency_queued :: "('ver, 'req, 'toml) world \<Rightarrow> string \<Rightarrow> index_dependency \<Rightarrow> 'req resolver \<Rightarrow> bool" where
  "index_dependency_queued w u d st \<longleftrightarrow> (\<exists>r. w_rparse w (ix_req d) = Some r \<and> (r, u) \<in> set (reqs_of st (ix_name d)))"

lemma index_dependency_queued_grows:
  "index_dependency_queued w u d st \<Longrightarrow> grows st st' \<Longrightarrow> index_dependency_queued w u d st'"
  unfolding index_dependency_queued_def grows_def by (metis append_is_Nil_conv in_set_conv_decomp set_append UnI1)

lemma queue_index_dependency_ok:
  assumes "queue_index_dependency w u d st = Inr st'" "state_ok w st"
  shows "state_ok w st'" "grows st st'" "rv_resolved st' = rv_resolved st" "index_dependency_queued w u d st'"
proof -
  from assms(1) obtain r st1 where r: "w_rparse w (ix_req d) = Some r" "claim_source (ix_name d) (''registry+'' @ u) st = Inr st1"
    "st' = push_requirement (ix_name d) (r, u) st1"
    by (auto simp: queue_index_dependency_def and_then_Inr_iff)
  note c = claim_source_ok[OF r(2) assms(2)]
  note p = push_requirement_ok[OF c(1,3), of r]
  show "state_ok w st'" using p(1) by (simp add: r(3))
  show "grows st st'" unfolding r(3) using c(2) p(2) by (rule grows_trans)
  show "rv_resolved st' = rv_resolved st" by (simp add: r(3) c(4))
  show "index_dependency_queued w u d st'" using r(1) by (simp add: index_dependency_queued_def r(3))
qed

lemma queue_index_dependencies_ok:
  assumes "for_each (queue_index_dependency w u) ds st = Inr st'" "state_ok w st"
  shows "state_ok w st' \<and> (grows st st' \<and> rv_resolved st' = rv_resolved st) \<and> (\<forall>d \<in> set ds. index_dependency_queued w u d st')"
  using assms
proof (rule for_each_steps)
  show "grows s t \<and> rv_resolved t = rv_resolved s \<Longrightarrow> grows t v \<and> rv_resolved v = rv_resolved t \<Longrightarrow>
      grows s v \<and> rv_resolved v = rv_resolved s" for s t v :: "'a resolver"
    using grows_trans by auto
qed (auto dest: queue_index_dependency_ok intro: index_dependency_queued_grows)

definition round_ok :: "('ver, 'req, 'toml) world \<Rightarrow> (string \<Rightarrow> nat) \<Rightarrow> 'req resolver \<Rightarrow> bool" where
  "round_ok w k0 st \<longleftrightarrow> state_ok w st \<and> chosen_ok w k0 st \<and> (\<forall>n. k0 n \<le> length (reqs_of st n))"

lemma resolve_name_ok:
  assumes "resolve_name w n (st, ch) = Inr (st', ch')" and ok: "round_ok w k0 st"
  shows "round_ok w k0 st' \<and> advances st st' \<and> (ch \<longrightarrow> ch') \<and> (\<not> ch' \<longrightarrow> st' = st) \<and>
    (reqs_of st n \<noteq> [] \<longrightarrow> map_of (rv_resolved st') n \<noteq> None)"
  using assms(1)
proof (cases rule: resolve_name_cases)
  case kept
  with ok show ?thesis by auto
next
  case (chosen r u rest es st1 e c)
  let ?p = "registry_package n u e c"
  let ?st2 = "st1\<lparr>rv_resolved := bt_insert n ?p (rv_resolved st1)\<rparr>"
  from ok have s: "state_ok w st" and c0: "chosen_ok w k0 st" and k0: "\<And>n. k0 n \<le> length (reqs_of st n)"
    by (simp_all add: round_ok_def)
  note f = fetch_entries_ok[OF chosen(3) s]
  then obtain C where C: "st1 = st\<lparr>rv_index_cache := C\<rparr>" by blast
  have src: "map_of (rv_sources st1) n = Some (''registry+'' @ u)"
    using state_ok_registry[OF s, of r u n] chosen(2) by (simp add: C)
  have ok2: "state_ok w ?st2"
    using resolved_insert_ok(2)[OF f(3) src, of ?p] by (simp add: registry_package_def)
  from queue_index_dependencies_ok[OF chosen(8) ok2]
  have st': "state_ok w st'" "grows ?st2 st'" "rv_resolved st' = rv_resolved ?st2"
    and deps: "\<forall>d \<in> set (ie_deps e). index_dependency_queued w u d st'" by blast+
  have g: "grows st st'" using st'(2) by (simp add: grows_def C)
  have res: "map_of (rv_resolved st') = (map_of (rv_resolved st))(n \<mapsto> ?p)" by (simp add: st'(3) C)
  have le: "map_of (rv_resolved st) \<subseteq>\<^sub>m map_of (rv_resolved st')"
    using chosen(1) unfolding res by (auto simp: map_le_def)
  from g obtain rs where rs: "reqs_of st' n = reqs_of st n @ rs" by (auto simp: grows_def)
  from choose_entry_in[OF chosen(6)] obtain v where e: "e \<in> set es" "w_vparse w (ie_vers e) = Some v"
    "\<forall>(r, _) \<in> set (reqs_of st n). w_matches w r v" unfolding candidates_iff by blast
  have new: "chosen_from w (k0 n) st' n ?p u c"
    unfolding chosen_from_def
  proof (intro exI[of _ es] exI[of _ e] exI[of _ v] exI[of _ "length (reqs_of st n)"] conjI)
    show "\<forall>(r, _) \<in> set (take (length (reqs_of st n)) (reqs_of st' n)). w_matches w r v" using e(3) by (simp add: rs)
    show "\<forall>d \<in> set (ie_deps e). \<exists>r. w_rparse w (ix_req d) = Some r \<and> (r, u) \<in> set (reqs_of st' (ix_name d))"
      using deps by (simp add: index_dependency_queued_def)
    show "k0 n \<le> length (reqs_of st n)" by (rule k0)
  qed (use e(1,2) f(1) chosen(2) rs in simp_all)
  have "chosen_ok w k0 st'"
    unfolding chosen_ok_def res
  proof (intro allI impI)
    fix m p u' t c'
    assume p: "((map_of (rv_resolved st))(n \<mapsto> ?p)) m = Some p" "rp_source p = RS_Registry u' t c'"
    show "chosen_from w (k0 m) st' m p u' c'"
    proof (cases "m = n")
      case True
      with p new show ?thesis by (auto simp: registry_package_def)
    next
      case False
      with p(1) have "map_of (rv_resolved st) m = Some p" by simp
      with p(2) c0 have "chosen_from w (k0 m) st m p u' c'" by (simp add: chosen_ok_def)
      then show ?thesis using g by (rule chosen_from_grows)
    qed
  qed
  moreover have "k0 m \<le> length (reqs_of st' m)" for m
    using k0[of m] g unfolding grows_def by (metis length_append trans_le_add1)
  ultimately have "round_ok w k0 st'" using st'(1) by (simp add: round_ok_def)
  moreover have "advances st st'" using g le by (simp add: advances_def)
  ultimately show ?thesis using chosen(9) by (simp add: res)
qed

lemma reqs_of_key: "state_ok w st \<Longrightarrow> n \<in> fst ` set (rv_requirements st) \<longleftrightarrow> reqs_of st n \<noteq> []"
proof -
  assume "state_ok w st"
  then have "map_of (rv_requirements st) n = Some rs \<Longrightarrow> rs \<noteq> []" for rs by (simp add: state_ok_def)
  then have "reqs_of st n \<noteq> [] \<longleftrightarrow> map_of (rv_requirements st) n \<noteq> None" by (auto simp: reqs_of_def split: option.splits)
  then show ?thesis by (simp add: map_of_eq_None_iff)
qed

lemma reqs_of_grows_ne: "grows st st' \<Longrightarrow> reqs_of st n \<noteq> [] \<Longrightarrow> reqs_of st' n \<noteq> []"
  by (metis append_is_Nil_conv grows_def)

lemma resolve_names_ok:
  assumes run: "for_each (resolve_name w) names (st, ch) = Inr (st', ch')" and ok: "round_ok w k0 st"
    and names: "\<forall>n \<in> set names. reqs_of st n \<noteq> []"
  shows "round_ok w k0 st' \<and> advances st st' \<and> (\<not> ch' \<longrightarrow> st' = st) \<and> (\<forall>n \<in> set names. map_of (rv_resolved st') n \<noteq> None)"
proof -
  let ?I = "\<lambda>(s, c). round_ok w k0 s \<and> (\<forall>n \<in> set names. reqs_of s n \<noteq> [])"
  let ?R = "\<lambda>(s, c) (t, d). advances s t \<and> (c \<longrightarrow> d) \<and> (\<not> d \<longrightarrow> t = s)"
  let ?Q = "\<lambda>n (s, c). map_of (rv_resolved s) n \<noteq> None"
  have "?I (st', ch') \<and> ?R (st, ch) (st', ch') \<and> (\<forall>n \<in> set names. ?Q n (st', ch'))"
    using run
  proof (rule for_each_steps[where I = ?I and R = ?R and Q = ?Q])
    show "?I (st, ch)" using ok names by simp
    show "?R s s" for s by (cases s) simp
    show "?R s t \<Longrightarrow> ?R t u \<Longrightarrow> ?R s u" for s t u by (cases s; cases t; cases u) (auto intro: advances_trans)
    show "?Q n s \<Longrightarrow> ?R s t \<Longrightarrow> ?Q n t" for n s t
      by (cases s; cases t) (auto simp: advances_def map_le_def dom_def)
  next
    fix n s t assume n: "n \<in> set names" and step: "resolve_name w n s = Inr t" and I: "?I s"
    obtain a c b d where st: "s = (a, c)" "t = (b, d)" by fastforce
    from resolve_name_ok[OF step[unfolded st], of k0] I n
    have r: "round_ok w k0 b" "advances a b" "c \<longrightarrow> d" "\<not> d \<longrightarrow> b = a" "map_of (rv_resolved b) n \<noteq> None"
      by (auto simp: st)
    have "\<forall>n \<in> set names. reqs_of b n \<noteq> []"
      using I r(2) reqs_of_grows_ne by (auto simp: st advances_def)
    with r show "?I t \<and> ?R s t \<and> ?Q n t" by (simp add: st)
  qed
  then show ?thesis by simp
qed

lemma run_rounds_ok:
  assumes "run_rounds w fuel st = Inr st'" "round_ok w k0 st"
  shows "round_ok w k0 st' \<and> advances st st' \<and> (\<forall>n. reqs_of st' n \<noteq> [] \<longrightarrow> map_of (rv_resolved st') n \<noteq> None)"
  using assms
proof (induction fuel arbitrary: st)
  case 0
  then show ?case by simp
next
  case (Suc fuel)
  from Suc.prems(2) have s: "state_ok w st" by (simp add: round_ok_def)
  from Suc.prems(1) obtain st1 ch where r: "for_each (resolve_name w) (map fst (rv_requirements st)) (st, False) = Inr (st1, ch)"
    "(if ch then run_rounds w fuel st1 else Inr st1) = Inr st'"
    by (auto simp: and_then_Inr_iff)
  have "\<forall>n \<in> set (map fst (rv_requirements st)). reqs_of st n \<noteq> []" using reqs_of_key[OF s] by simp
  from resolve_names_ok[OF r(1) Suc.prems(2) this]
  have a: "round_ok w k0 st1" "advances st st1" "\<not> ch \<longrightarrow> st1 = st"
    and fin: "\<forall>n \<in> set (map fst (rv_requirements st)). map_of (rv_resolved st1) n \<noteq> None" by blast+
  show ?case
  proof (cases ch)
    case True
    with r(2) Suc.IH[OF _ a(1)] a(2) show ?thesis by (auto intro: advances_trans)
  next
    case False
    with r(2) a have "st' = st" "st1 = st" by simp_all
    moreover have "\<forall>n. reqs_of st n \<noteq> [] \<longrightarrow> map_of (rv_resolved st) n \<noteq> None"
      using fin unfolding \<open>st1 = st\<close> set_map reqs_of_key[OF s, symmetric] by blast
    ultimately show ?thesis using Suc.prems(2) by simp
  qed
qed

section \<open>Results of the resolver\<close>

lemma resolve_many_steps:
  assumes "resolve_many w fuel members include_dev preferred = Inr pkgs"
  obtains st st' where "for_each (queue_member w fuel include_dev) members (resolver_new preferred) = Inr st"
    "run_rounds w fuel st = Inr st'" "pkgs = map snd (rv_resolved st')"
    "queued w (resolver_new preferred) st" "round_ok w (\<lambda>n. length (reqs_of st n)) st'" "advances st st'"
    "\<forall>n. reqs_of st' n \<noteq> [] \<longrightarrow> map_of (rv_resolved st') n \<noteq> None"
proof -
  from assms obtain st st' where r: "for_each (queue_member w fuel include_dev) members (resolver_new preferred) = Inr st"
    "run_rounds w fuel st = Inr st'" "pkgs = map snd (rv_resolved st')"
    by (auto simp: resolve_many_def and_then_Inr_iff)
  have q: "queued w (resolver_new preferred) st" by (rule queue_members(1)[OF r(1)])
  then have "round_ok w (\<lambda>n. length (reqs_of st n)) st"
    by (auto simp: queued_def round_ok_def chosen_ok_def pinned_only_def)
  from run_rounds_ok[OF r(2) this] r q that show thesis by blast
qed

lemma resolved_package_iff:
  assumes "state_ok w st"
  shows "p \<in> set (map snd (rv_resolved st)) \<longleftrightarrow> map_of (rv_resolved st) (rp_name p) = Some p"
proof -
  from assms have "bt_ok (rv_resolved st)" by (simp add: state_ok_def)
  then have get: "map_of (rv_resolved st) n = Some q \<longleftrightarrow> (n, q) \<in> set (rv_resolved st)" for n q by (rule bt_get_iff)
  show ?thesis
  proof
    assume "p \<in> set (map snd (rv_resolved st))"
    then obtain n where "map_of (rv_resolved st) n = Some p" unfolding get by auto
    with state_ok_resolved[OF assms this] show "map_of (rv_resolved st) (rp_name p) = Some p" by simp
  next
    assume "map_of (rv_resolved st) (rp_name p) = Some p"
    then show "p \<in> set (map snd (rv_resolved st))" unfolding get by force
  qed
qed

lemma claimed_for_registry: "claimed_for src (''registry+'' @ u) \<Longrightarrow> \<exists>t c. src = RS_Registry u t c"
  by (cases src) simp_all

lemma required_resolved:
  assumes "state_ok w st" "\<forall>n. reqs_of st n \<noteq> [] \<longrightarrow> map_of (rv_resolved st) n \<noteq> None" "(r, u) \<in> set (reqs_of st n)"
  obtains p t c where "map_of (rv_resolved st) n = Some p" "rp_source p = RS_Registry u t c" "rp_name p = n"
    "p \<in> set (map snd (rv_resolved st))"
proof -
  from assms(3) have "reqs_of st n \<noteq> []" by auto
  with assms(2) obtain p where p: "map_of (rv_resolved st) n = Some p" by blast
  from state_ok_resolved[OF assms(1) p] obtain s where s: "rp_name p = n" "map_of (rv_sources st) n = Some s" "claimed_for (rp_source p) s"
    by blast
  with state_ok_registry[OF assms(1,3)] claimed_for_registry[of "rp_source p" u] obtain t c where "rp_source p = RS_Registry u t c"
    by auto
  with p s(1) resolved_package_iff[OF assms(1), of p] that show thesis by simp
qed

lemma resolution_sound_names:
  assumes "resolve_many w fuel members include_dev preferred = Inr pkgs"
  shows "distinct (map rp_name pkgs) \<and> inj_on import_segment (rp_name ` set pkgs)"
proof -
  obtain st' k0 where st: "pkgs = map snd (rv_resolved st')" "round_ok w k0 st'"
    by (rule resolve_many_steps[OF assms]) (rule that)
  from st(2) have ok: "state_ok w st'" by (simp add: round_ok_def)
  note pkg = resolved_package_iff[OF ok, folded st(1)]
  have names: "map rp_name pkgs = map fst (rv_resolved st')"
  proof -
    have bt: "bt_ok (rv_resolved st')" using ok by (simp add: state_ok_def)
    have "rp_name p = n" if "(n, p) \<in> set (rv_resolved st')" for n p
      using state_ok_resolved[OF ok] that unfolding bt_get_iff[OF bt] by blast
    then show ?thesis by (auto simp: st(1))
  qed
  have "distinct (map rp_name pkgs)"
    unfolding names using ok by (simp add: state_ok_def bt_ok_distinct)
  moreover have "rp_name ` set pkgs \<subseteq> fst ` set (rv_sources st')"
  proof
    fix n assume "n \<in> rp_name ` set pkgs"
    then obtain p where "map_of (rv_resolved st') n = Some p" by (auto simp: pkg)
    from state_ok_resolved[OF ok this] show "n \<in> fst ` set (rv_sources st')"
      by (auto dest: map_of_SomeD intro: rev_image_eqI)
  qed
  then have "inj_on import_segment (rp_name ` set pkgs)"
    using ok inj_on_subset unfolding state_ok_def by blast
  ultimately show ?thesis by blast
qed

text \<open>
  C15: what a successful resolution returns. Every registry dependency of the given manifests gets a
  package, an entry of the index of its registry whose version matches the requirement; every
  dependency of a package from a registry is resolved to a package from the same registry, never to
  a local one; and names and import directories of the packages are distinct.
\<close>

theorem resolution_sound:
  assumes "resolve_many w fuel members include_dev preferred = Inr pkgs"
  shows "(\<forall>(d, m) \<in> set members. \<forall>(n, dep) \<in> set (all_dependencies m include_dev).
      dep_path dep = None \<longrightarrow> dep_git dep = None \<longrightarrow>
      (\<exists>p \<in> set pkgs. \<exists>url c es e r v. rp_name p = n \<and> p = registry_package n url e c \<and>
         registry_url m (dep_registry_alias dep) = Some url \<and> w_index w url n = Some es \<and> e \<in> set es \<and>
         w_rparse w (case dep_version_req dep of Some r \<Rightarrow> r | None \<Rightarrow> ''*'') = Some r \<and>
         w_vparse w (rp_version p) = Some v \<and> w_matches w r v)) \<and>
    (\<forall>p \<in> set pkgs. \<forall>url t c. rp_source p = RS_Registry url t c \<longrightarrow>
      (\<forall>n \<in> set (rp_dependencies p). \<exists>q \<in> set pkgs. rp_name q = n \<and> (\<exists>t c. rp_source q = RS_Registry url t c))) \<and>
    distinct (map rp_name pkgs) \<and> inj_on import_segment (rp_name ` set pkgs)"
proof -
  from resolve_many_steps[OF assms] obtain st st' where st: "for_each (queue_member w fuel include_dev) members (resolver_new preferred) = Inr st"
    "pkgs = map snd (rv_resolved st')" "round_ok w (\<lambda>n. length (reqs_of st n)) st'" "advances st st'"
    "\<forall>n. reqs_of st' n \<noteq> [] \<longrightarrow> map_of (rv_resolved st') n \<noteq> None" by metis
  from st(3) have ok: "state_ok w st'" and ch: "chosen_ok w (\<lambda>n. length (reqs_of st n)) st'" by (simp_all add: round_ok_def)
  note pkg = resolved_package_iff[OF ok, folded st(2)]
  have direct: "\<exists>p \<in> set pkgs. \<exists>url c es e r v. rp_name p = n \<and> p = registry_package n url e c \<and>
         registry_url m (dep_registry_alias dep) = Some url \<and> w_index w url n = Some es \<and> e \<in> set es \<and>
         w_rparse w (case dep_version_req dep of Some r \<Rightarrow> r | None \<Rightarrow> ''*'') = Some r \<and>
         w_vparse w (rp_version p) = Some v \<and> w_matches w r v"
    if "(d, m) \<in> set members" "(n, dep) \<in> set (all_dependencies m include_dev)" "dep_path dep = None" "dep_git dep = None" for d m n dep
  proof -
    from queue_members(2)[OF st(1) that(1,2)] that(3,4) obtain r u where
      r: "w_rparse w (case dep_version_req dep of Some r \<Rightarrow> r | None \<Rightarrow> ''*'') = Some r"
        "registry_url m (dep_registry_alias dep) = Some u" "(r, u) \<in> set (reqs_of st n)"
      unfolding requirement_queued_def by blast
    from st(4) obtain rs where rs: "reqs_of st' n = reqs_of st n @ rs" by (auto simp: advances_def grows_def)
    from r(3) have "(r, u) \<in> set (reqs_of st' n)" by (simp add: rs)
    from required_resolved[OF ok st(5) this] obtain p t c where p: "map_of (rv_resolved st') n = Some p"
      "rp_source p = RS_Registry u t c" "rp_name p = n" "p \<in> set pkgs" unfolding st(2) by blast
    from ch p(1,2) obtain es e v k where k: "w_index w u n = Some es" "e \<in> set es" "p = registry_package n u e c"
      "w_vparse w (ie_vers e) = Some v" "length (reqs_of st n) \<le> k" "\<forall>(r, _) \<in> set (take k (reqs_of st' n)). w_matches w r v"
      unfolding chosen_ok_def chosen_from_def by metis
    from r(3) k(5) have "(r, u) \<in> set (take k (reqs_of st' n))" by (simp add: rs)
    with k(6) have "w_matches w r v" by blast
    moreover have "w_vparse w (rp_version p) = Some v" using k(3,4) by (simp add: registry_package_def)
    ultimately show ?thesis using p(3,4) k(1-3) r(1,2) by blast
  qed
  have closed: "\<exists>q \<in> set pkgs. rp_name q = n \<and> (\<exists>t c. rp_source q = RS_Registry url t c)"
    if "p \<in> set pkgs" "rp_source p = RS_Registry url t c" "n \<in> set (rp_dependencies p)" for p url t c n
  proof -
    from that(1) have "map_of (rv_resolved st') (rp_name p) = Some p" by (simp add: pkg)
    with ch that(2) obtain e where e: "p = registry_package (rp_name p) url e c"
      "\<forall>d \<in> set (ie_deps e). \<exists>r. w_rparse w (ix_req d) = Some r \<and> (r, url) \<in> set (reqs_of st' (ix_name d))"
      unfolding chosen_ok_def chosen_from_def by metis
    from e(1) have "rp_dependencies p = map ix_name (ie_deps e)" by (metis registry_package_def resolved_package.select_convs(4))
    with that(3) e(2) obtain r where "(r, url) \<in> set (reqs_of st' n)" by auto
    from required_resolved[OF ok st(5) this] show ?thesis unfolding st(2) by metis
  qed
  show ?thesis using direct closed resolution_sound_names[OF assms] by blast
qed

section \<open>Samples\<close>

text \<open>A small world: versions are the digits 1 and 2, a requirement is a version or \<open>*\<close>.\<close>

definition sample_checksum :: string where
  "sample_checksum = ''sha256:'' @ replicate 64 CHR ''a''"

definition sample_entry :: "string \<Rightarrow> string \<Rightarrow> index_dependency list \<Rightarrow> index_entry" where
  "sample_entry name vers deps = \<lparr>ie_name = name, ie_vers = vers, ie_deps = deps, ie_cksum = sample_checksum,
     ie_tarball = name, ie_description = None, ie_authors = [], ie_license = None, ie_edition = None,
     ie_package_type = None, ie_targets = [], ie_readme = None, ie_keywords = []\<rparr>"

definition sample_version :: "string \<Rightarrow> nat option" where
  "sample_version s = (if s = ''1'' then Some 1 else if s = ''2'' then Some 2 else None)"

definition sample_requirement :: "string \<Rightarrow> nat option option" where
  "sample_requirement s = (if s = ''*'' then Some None else map_option Some (sample_version s))"

definition sample_index :: "string \<Rightarrow> string \<Rightarrow> index_entry list option" where
  "sample_index url name =
     (if name = ''shared'' then Some [sample_entry ''shared'' ''2'' [], sample_entry ''shared'' ''1'' []]
      else if name = ''zeta'' then Some [sample_entry ''zeta'' ''1'' [\<lparr>ix_name = ''shared'', ix_req = ''1''\<rparr>]]
      else if name = ''alpha'' then Some [sample_entry ''alpha'' ''1'' [\<lparr>ix_name = ''shared'', ix_req = ''1''\<rparr>]]
      else None)"

definition sample_world :: "(nat, nat option, unit) world" where
  "sample_world = \<lparr>w_vparse = sample_version, w_rparse = sample_requirement,
     w_matches = (\<lambda>r v. case r of None \<Rightarrow> True | Some x \<Rightarrow> x = v),
     w_canonicalize = (\<lambda>base rel. if rel = ''/lib'' then Some ''/lib'' else None),
     w_read = (\<lambda>dir. if dir = ''/lib'' then Some (manifest_new_lib ''lib'' ''1'') else None),
     w_git = (\<lambda>_ _ _. None), w_index = sample_index\<rparr>"

definition sample_app :: "(string \<times> dependency) list \<Rightarrow> string \<times> unit manifest" where
  "sample_app deps = (''/app'', (manifest_new ''app'' ''1'' ''main.dream'')\<lparr>
     mf_dependencies := deps, mf_registries := [(''default'', ''r'')]\<rparr>)"

definition sample_chosen :: "string \<Rightarrow> string \<Rightarrow> string list \<Rightarrow> resolved_package" where
  "sample_chosen name version deps = \<lparr>rp_name = name, rp_version = version,
     rp_source = RS_Registry ''r'' name sample_checksum, rp_dependencies = deps\<rparr>"

lemma sample_early:
  "resolve_many sample_world 5 [sample_app [(''alpha'', D_Version ''*''), (''zeta'', D_Version ''1'')]] True (\<lambda>_. None) =
     Inr [sample_chosen ''alpha'' ''1'' [''shared''], sample_chosen ''shared'' ''1'' [], sample_chosen ''zeta'' ''1'' [''shared'']]"
  by code_simp


theorem resolution_sound_witness:
  "inj_on import_segment {''alpha'', ''shared'', ''zeta''} \<and>
   (\<exists>q \<in> set [sample_chosen ''alpha'' ''1'' [''shared''], sample_chosen ''shared'' ''1'' [], sample_chosen ''zeta'' ''1'' [''shared'']].
      rp_name q = ''shared'' \<and> (\<exists>t c. rp_source q = RS_Registry ''r'' t c))"
proof -
  note sound = resolution_sound[OF sample_early]
  from sound have "inj_on import_segment (rp_name ` set
     [sample_chosen ''alpha'' ''1'' [''shared''], sample_chosen ''shared'' ''1'' [], sample_chosen ''zeta'' ''1'' [''shared'']])"
    by blast
  then have "inj_on import_segment {''alpha'', ''shared'', ''zeta''}" by (simp add: sample_chosen_def)
  moreover have z: "rp_source (sample_chosen ''zeta'' ''1'' [''shared'']) = RS_Registry ''r'' ''zeta'' sample_checksum"
    "''shared'' \<in> set (rp_dependencies (sample_chosen ''zeta'' ''1'' [''shared'']))"
    by (simp_all add: sample_chosen_def)
  have "sample_chosen ''zeta'' ''1'' [''shared''] \<in> set
     [sample_chosen ''alpha'' ''1'' [''shared''], sample_chosen ''shared'' ''1'' [], sample_chosen ''zeta'' ''1'' [''shared'']]" by simp
  with sound z have "\<exists>q \<in> set [sample_chosen ''alpha'' ''1'' [''shared''], sample_chosen ''shared'' ''1'' [], sample_chosen ''zeta'' ''1'' [''shared'']].
      rp_name q = ''shared'' \<and> (\<exists>t c. rp_source q = RS_Registry ''r'' t c)" by blast
  ultimately show ?thesis by blast
qed

section \<open>Requirements that come late\<close>


section \<open>Directories under two names\<close>

lemma sample_wrong_name:
  "resolve_many sample_world 5 [sample_app [(''other'', D_Detailed (dd_default\<lparr>dd_path := Some ''/lib''\<rparr>))]] True (\<lambda>_. None) =
     Inl (Wrong_Package ''other'' ''lib'')"
  by code_simp

text \<open>
  The check that a local dependency holds the package it is named after is skipped for a
  directory that was visited before: alone the dependency \<open>other\<close> is an error, after \<open>lib\<close> in the
  same directory it is dropped.
\<close>

theorem second_name_dropped:
  "\<exists>pkgs e. resolve_many sample_world 5 [sample_app [(''lib'', D_Detailed (dd_default\<lparr>dd_path := Some ''/lib''\<rparr>)),
       (''other'', D_Detailed (dd_default\<lparr>dd_path := Some ''/lib''\<rparr>))]] True (\<lambda>_. None) = Inr pkgs \<and>
     ''other'' \<notin> rp_name ` set pkgs \<and>
     resolve_many sample_world 5 [sample_app [(''other'', D_Detailed (dd_default\<lparr>dd_path := Some ''/lib''\<rparr>))]] True (\<lambda>_. None) = Inl e"
proof -
  have "resolve_many sample_world 5 [sample_app [(''lib'', D_Detailed (dd_default\<lparr>dd_path := Some ''/lib''\<rparr>)),
       (''other'', D_Detailed (dd_default\<lparr>dd_path := Some ''/lib''\<rparr>))]] True (\<lambda>_. None) =
       Inr [\<lparr>rp_name = ''lib'', rp_version = ''1'', rp_source = RS_Path ''/lib'', rp_dependencies = []\<rparr>]"
    by code_simp
  with sample_wrong_name show ?thesis by simp
qed

end
