(* ===== verification/Resolver_Lock.thy ===== *)
theory Resolver_Lock
  imports Resolver
begin

text \<open>
  Two properties of whole resolutions: resolving with the lock file of an earlier resolution repeats
  it, and resolution ends in a world with finitely many names and directories.
\<close>

section \<open>Resolving again with the lock file\<close>





abbreviation relock :: "(string \<rightharpoonup> locked_package) \<Rightarrow> (string \<times> string \<rightharpoonup> index_entry list) \<Rightarrow> 'req resolver \<Rightarrow> 'req resolver" where
  "relock L C st \<equiv> st\<lparr>rv_preferred := L, rv_index_cache := C\<rparr>"

lemma reqs_of_relock [simp]: "reqs_of (relock L C st) n = reqs_of st n"
  by (simp add: reqs_of_def)


























section \<open>Resolution ends\<close>

text \<open>
  The names and directories that can be reached are finitely many. Each local project is entered once,
  and each further round has resolved another name, so fuel beyond both numbers is not used up.
\<close>

definition bounded_world :: "('ver, 'req, 'toml) world \<Rightarrow> string set \<Rightarrow> string set \<Rightarrow> bool" where
  "bounded_world w D N \<longleftrightarrow> finite D \<and> finite N \<and>
     (\<forall>b r d. w_canonicalize w b r = Some d \<longrightarrow> d \<in> D) \<and>
     (\<forall>u s p d c. w_git w u s p = Some (d, c) \<longrightarrow> d \<in> D) \<and>
     (\<forall>u n es. w_index w u n = Some es \<longrightarrow> (\<forall>e \<in> set es. \<forall>d \<in> set (ie_deps e). ix_name d \<in> N)) \<and>
     (\<forall>d m. w_read w d = Some m \<longrightarrow> fst ` set (mf_dependencies m) \<subseteq> N)"

definition required_in :: "string set \<Rightarrow> 'req resolver \<Rightarrow> bool" where
  "required_in N st \<longleftrightarrow> (\<forall>n. reqs_of st n \<noteq> [] \<longrightarrow> n \<in> N)"

lemma claim_source_fields:
  "claim_source n s st = Inr st' \<Longrightarrow> rv_visited st' = rv_visited st \<and> rv_resolved st' = rv_resolved st \<and>
     rv_preferred st' = rv_preferred st \<and> (\<forall>m. reqs_of st' m = reqs_of st m)"
  by (auto simp: claim_source_def and_then_Inr_iff split: option.splits if_splits)

lemma claim_source_fuel: "claim_source n s st \<noteq> Inl Out_Of_Fuel"
  by (auto simp: claim_source_def and_then_Inl_iff lift_manifest_def split: option.splits sum.splits)

lemma lift_manifest_fuel: "lift_manifest r \<noteq> Inl Out_Of_Fuel"
  by (auto simp: lift_manifest_def split: sum.splits)

lemma ok_or_fuel: "e \<noteq> Out_Of_Fuel \<Longrightarrow> ok_or r e \<noteq> Inl Out_Of_Fuel"
  by (auto simp: ok_or_def split: option.splits)

text \<open>What queueing within the bounds keeps: visited directories grow inside \<open>D\<close>, names stay in \<open>N\<close>.\<close>

definition visits :: "string set \<Rightarrow> string set \<Rightarrow> 'req resolver \<Rightarrow> 'req resolver \<Rightarrow> bool" where
  "visits D N st st' \<longleftrightarrow> rv_visited st \<subseteq> rv_visited st' \<and> (required_in N st \<longrightarrow> required_in N st')"

lemma visits_refl [simp]: "visits D N st st" and visits_trans: "visits D N a b \<Longrightarrow> visits D N b c \<Longrightarrow> visits D N a c"
  by (auto simp: visits_def)

lemma for_each_fuel:
  assumes "P s" and "\<And>x s t. x \<in> set xs \<Longrightarrow> P s \<Longrightarrow> f x s = Inr t \<Longrightarrow> P t"
    and "\<And>x s. x \<in> set xs \<Longrightarrow> P s \<Longrightarrow> f x s \<noteq> Inl e"
  shows "for_each f xs s \<noteq> Inl e"
  using assms
proof (induction xs arbitrary: s)
  case Nil
  then show ?case by simp
next
  case (Cons x xs)
  show ?case
  proof
    assume "for_each f (x # xs) s = Inl e"
    then consider "f x s = Inl e" | u where "f x s = Inr u" "for_each f xs u = Inl e" by (auto simp: and_then_Inl_iff)
    then show False
    proof cases
      case 1
      with Cons.prems show False by simp
    next
      case (2 u)
      with Cons.prems have "P u" by (meson list.set_intros(1))
      with 2(2) Cons show False by (metis list.set_intros(2))
    qed
  qed
qed

lemma queue_local_visits:
  assumes "queue_local_project w queue n dir kind st = Inr st'" and w: "bounded_world w D N"
    and rec: "\<And>n dep base m st st'. n \<in> N \<Longrightarrow> queue n dep base m st = Inr st' \<Longrightarrow> visits D N st st'"
  shows "visits D N st st'"
proof (cases "dir \<in> rv_visited st")
  case True
  with assms(1) show ?thesis by (simp add: queue_local_project_def)
next
  case False
  from assms(1)[unfolded queue_local_unvisited[OF this]] obtain m pkg where m: "manifest_load w dir = Inr m" "package_of m = Inr pkg"
    "pm_name pkg = n" "for_each (\<lambda>(child_name, child_dep). queue child_name child_dep dir m) (all_dependencies m False)
        (st\<lparr>rv_visited := insert dir (rv_visited st), rv_resolved := bt_insert n
           (local_package pkg kind dir (all_dependencies m False)) (rv_resolved st)\<rparr>) = Inr st'"
    by (elim exE conjE) (rule that)
  let ?st = "st\<lparr>rv_visited := insert dir (rv_visited st), rv_resolved := bt_insert n
      (local_package pkg kind dir (all_dependencies m False)) (rv_resolved st)\<rparr>"
  from m(1) have "w_read w dir = Some m" by (auto simp: manifest_load_def and_then_Inr_iff)
  with w have names: "fst ` set (all_dependencies m False) \<subseteq> N" by (simp add: bounded_world_def all_dependencies_def)
  have "visits D N ?st st'"
    using m(4)
  proof (rule for_each_rel)
    fix x s t assume x: "x \<in> set (all_dependencies m False)" "(\<lambda>(child_name, child_dep). queue child_name child_dep dir m) x s = Inr t"
    obtain n' d where nd: "x = (n', d)" by fastforce
    with x names have "n' \<in> N" "queue n' d dir m s = Inr t" by force+
    then show "visits D N s t" by (rule rec)
  qed (fact visits_refl visits_trans)+
  moreover have "visits D N st ?st" by (auto simp: visits_def required_in_def)
  ultimately show ?thesis by (blast intro: visits_trans)
qed

lemma queue_dependency_visits:
  assumes w: "bounded_world w D N"
  shows "n \<in> N \<Longrightarrow> queue_dependency w fuel n dep base m st = Inr st' \<Longrightarrow> visits D N st st'"
proof (induction fuel arbitrary: n dep base m st st')
  case 0
  then show ?case by simp
next
  case (Suc fuel)
  have claim: "visits D N st st1" if "claim_source n s st = Inr st1" for s st1
    using claim_source_fields[OF that] by (simp add: visits_def required_in_def)
  have local: "visits D N st st'" if "claim_source n s st = Inr st1"
      "queue_local_project w (queue_dependency w fuel) n dir kind st1 = Inr st'" for s st1 dir kind
    by (rule visits_trans[OF claim[OF that(1)] queue_local_visits[OF that(2) w]]) (rule Suc.IH)
  show ?case
  proof (cases "dep_path dep")
    case (Some rel)
    with Suc.prems(2) local show ?thesis by (auto simp: and_then_Inr_iff)
  next
    case None
    show ?thesis
    proof (cases "dep_git dep")
      case (Some url)
      with None Suc.prems(2) local show ?thesis by (auto simp: and_then_Inr_iff Let_def)
    next
      case no_git: None
      with None Suc.prems(2) obtain r u st1 where d: "claim_source n (''registry+'' @ u) st = Inr st1" "st' = push_requirement n (r, u) st1"
        by (auto simp: and_then_Inr_iff)
      have "visits D N st1 st'" using Suc.prems(1) by (simp add: d(2) visits_def required_in_def)
      with claim[OF d(1)] show ?thesis by (rule visits_trans)
    qed
  qed
qed

lemma queue_dependency_fuel:
  fixes w :: "('ver, 'req, 'toml) world"
  assumes w: "bounded_world w D N"
  shows "n \<in> N \<Longrightarrow> card (D - rv_visited st) < fuel \<Longrightarrow> queue_dependency w fuel n dep base m st \<noteq> Inl Out_Of_Fuel"
proof (induction fuel arbitrary: n dep base m st)
  case 0
  then show ?case by simp
next
  case (Suc fuel)
  have D: "finite D" using w by (simp add: bounded_world_def)
  have local: "queue_local_project w (queue_dependency w fuel) n dir kind st1 \<noteq> Inl Out_Of_Fuel"
    if "dir \<in> D" "rv_visited st1 = rv_visited st" for dir kind st1
  proof
    assume out: "queue_local_project w (queue_dependency w fuel) n dir kind st1 = Inl Out_Of_Fuel"
    then have new: "dir \<notin> rv_visited st1" by (auto simp: queue_local_project_def split: if_splits)
    with out obtain m pkg where m: "manifest_load w dir = Inr m"
      "for_each (\<lambda>(child_name, child_dep). queue_dependency w fuel child_name child_dep dir m) (all_dependencies m False)
        (st1\<lparr>rv_visited := insert dir (rv_visited st1), rv_resolved := bt_insert n
           (local_package pkg kind dir (all_dependencies m False)) (rv_resolved st1)\<rparr>) = Inl Out_Of_Fuel"
      by (auto simp: queue_local_project_def Let_def and_then_Inl_iff lift_manifest_fuel manifest_load_def ok_or_fuel split: if_splits)
    let ?st = "st1\<lparr>rv_visited := insert dir (rv_visited st1), rv_resolved := bt_insert n
           (local_package pkg kind dir (all_dependencies m False)) (rv_resolved st1)\<rparr>"
    from m(1) have "w_read w dir = Some m" by (auto simp: manifest_load_def and_then_Inr_iff)
    with w have names: "fst ` set (all_dependencies m False) \<subseteq> N" by (simp add: bounded_world_def all_dependencies_def)
    have "D - rv_visited ?st \<subset> D - rv_visited st" using new that by auto
    with D Suc.prems(2) have fuel: "card (D - rv_visited ?st) < fuel"
      using psubset_card_mono[of "D - rv_visited st"] by (meson finite_Diff less_Suc_eq_le less_le_trans)
    have "for_each (\<lambda>(child_name, child_dep). queue_dependency w fuel child_name child_dep dir m) (all_dependencies m False) ?st \<noteq> Inl Out_Of_Fuel"
    proof (rule for_each_fuel[where P = "\<lambda>s. rv_visited ?st \<subseteq> rv_visited s"])
      fix x and s t :: "'req resolver" assume x: "x \<in> set (all_dependencies m False)" and s: "rv_visited ?st \<subseteq> rv_visited s"
      obtain n' d where nd: "x = (n', d)" by fastforce
      with x names have "n' \<in> N" by force
      have "card (D - rv_visited s) < fuel"
        using s fuel D by (meson Diff_mono card_mono finite_Diff le_less_trans order_refl)
      with Suc.IH[OF \<open>n' \<in> N\<close>] nd
      show "(\<lambda>(child_name, child_dep). queue_dependency w fuel child_name child_dep dir m) x s \<noteq> Inl Out_Of_Fuel" by simp
      show "rv_visited ?st \<subseteq> rv_visited t"
        if "(\<lambda>(child_name, child_dep). queue_dependency w fuel child_name child_dep dir m) x s = Inr t"
      proof -
        from that nd have "queue_dependency w fuel n' d dir m s = Inr t" by simp
        from queue_dependency_visits[OF w \<open>n' \<in> N\<close> this] have "rv_visited s \<subseteq> rv_visited t" by (simp add: visits_def)
        with s show ?thesis by (rule subset_trans)
      qed
    qed simp
    with m(2) show False by simp
  qed
  have claimed: "queue_local_project w (queue_dependency w fuel) n dir kind st1 \<noteq> Inl Out_Of_Fuel"
    if "claim_source n s st = Inr st1" "dir \<in> D" for s st1 dir kind
    using local[OF that(2)] claim_source_fields[OF that(1)] by blast
  have path: "d \<in> D" if "w_canonicalize w b r = Some d" for b r d using w that by (simp add: bounded_world_def)
  have git: "fst c \<in> D" if "w_git w u s p = Some c" for u s p c
    using w that unfolding bounded_world_def by (metis prod.collapse)
  show ?case
  proof
    assume out: "queue_dependency w (Suc fuel) n dep base m st = Inl Out_Of_Fuel"
    show False
    proof (cases "dep_path dep")
      case (Some rel)
      with out obtain d st1 where "w_canonicalize w base rel = Some d" "claim_source n (''path+'' @ d) st = Inr st1"
        "queue_local_project w (queue_dependency w fuel) n d RK_Path st1 = Inl Out_Of_Fuel"
        by (auto simp: and_then_Inl_iff lift_manifest_fuel ok_or_fuel claim_source_fuel)
      with path claimed show False by blast
    next
      case None
      show False
      proof (cases "dep_git dep")
        case (Some url)
        with None out obtain src sel p c kind st1 where "w_git w url sel p = Some c" "claim_source n src st = Inr st1"
          "queue_local_project w (queue_dependency w fuel) n (fst c) kind st1 = Inl Out_Of_Fuel"
          by (auto simp: and_then_Inl_iff lift_manifest_fuel ok_or_fuel claim_source_fuel Let_def)
        with git claimed show False by blast
      next
        case no_git: None
        with None out show False
          by (auto simp: and_then_Inl_iff lift_manifest_fuel ok_or_fuel claim_source_fuel)
      qed
    qed
  qed
qed

lemma queue_index_required:
  assumes "queue_index_dependency w u d st = Inr st'" "ix_name d \<in> N" "required_in N st"
  shows "required_in N st'"
proof -
  from assms(1) obtain r st1 where d: "claim_source (ix_name d) (''registry+'' @ u) st = Inr st1"
    "st' = push_requirement (ix_name d) (r, u) st1"
    by (auto simp: queue_index_dependency_def and_then_Inr_iff)
  from claim_source_fields[OF d(1)] assms(2,3) show ?thesis by (simp add: d(2) required_in_def)
qed

lemma queue_index_fuel: "queue_index_dependency w u d st \<noteq> Inl Out_Of_Fuel"
  by (auto simp: queue_index_dependency_def and_then_Inl_iff ok_or_fuel claim_source_fuel)

lemma check_entry_fuel: "for_each (check_entry n) es u \<noteq> Inl Out_Of_Fuel"
  by (rule for_each_fuel[where P = "\<lambda>_. True"]) (auto simp: check_entry_def and_then_Inl_iff lift_manifest_fuel)

lemma authoritative_fuel: "authoritative_checksum P n u e \<noteq> Inl Out_Of_Fuel"
  by (auto simp: authoritative_checksum_def split: option.splits)

lemma fetch_fuel: "fetch_entries w u n st \<noteq> Inl Out_Of_Fuel"
  by (auto simp: fetch_entries_def and_then_Inl_iff ok_or_fuel split: option.splits)

lemma resolve_name_fuel: "resolve_name w n (st, ch) \<noteq> Inl Out_Of_Fuel"
proof -
  have "for_each (queue_index_dependency w u) ds s \<noteq> Inl Out_Of_Fuel" for u ds s
    by (rule for_each_fuel[where P = "\<lambda>_. True"]) (simp_all add: queue_index_fuel)
  then have "take_version w n u reqs es s ch \<noteq> Inl Out_Of_Fuel" for u reqs es s
    by (auto simp: take_version_def and_then_Inl_iff check_entry_fuel ok_or_fuel authoritative_fuel split: if_splits)
  then show ?thesis
    by (auto simp: resolve_name_def Let_def and_then_Inl_iff fetch_fuel split: list.splits if_splits)
qed

lemma resolve_name_bounded:
  assumes "resolve_name w n (st, ch) = Inr (st', ch')" "state_ok w st" "bounded_world w D N" "required_in N st"
  shows "required_in N st' \<and> (ch' \<and> \<not> ch \<longrightarrow> n \<in> N \<and> map_of (rv_resolved st) n = None)"
  using assms(1)
proof (cases rule: resolve_name_cases)
  case kept
  with assms(4) show ?thesis by simp
next
  case (chosen r u rest es st1 e c)
  note f = fetch_entries_ok[OF chosen(3) assms(2)]
  then obtain C where C: "st1 = st\<lparr>rv_index_cache := C\<rparr>" by blast
  have "e \<in> set es" using choose_entry_in[OF chosen(6)] by (auto simp: candidates_iff)
  with assms(3) f(1) have deps: "\<forall>d \<in> set (ie_deps e). ix_name d \<in> N" unfolding bounded_world_def by blast
  have "required_in N st'"
  proof (rule for_each_inv[OF chosen(8)])
    show "required_in N (st1\<lparr>rv_resolved := bt_insert n (registry_package n u e c) (rv_resolved st1)\<rparr>)"
      using assms(4) by (simp add: C required_in_def)
    show "required_in N t" if "d \<in> set (ie_deps e)" "required_in N s" "queue_index_dependency w u d s = Inr t" for d s t
      using queue_index_required[OF that(3) _ that(2)] deps that(1) by blast
  qed
  with chosen(1,2) assms(4) show ?thesis by (auto simp: required_in_def)
qed

lemma resolve_names_bounded:
  assumes "for_each (resolve_name w) names (st, ch) = Inr (st', ch')" "round_ok w k0 st" "bounded_world w D N" "required_in N st"
    and "\<forall>n \<in> set names. reqs_of st n \<noteq> []"
  shows "required_in N st' \<and> (ch' \<and> \<not> ch \<longrightarrow> (\<exists>n \<in> N. map_of (rv_resolved st) n = None \<and> map_of (rv_resolved st') n \<noteq> None))"
  using assms
proof (induction names arbitrary: st ch)
  case Nil
  then show ?case by simp
next
  case (Cons n names)
  from Cons.prems(1) obtain a c where r: "resolve_name w n (st, ch) = Inr (a, c)" "for_each (resolve_name w) names (a, c) = Inr (st', ch')"
    by (auto simp: and_then_Inr_iff)
  from resolve_name_ok[OF r(1) Cons.prems(2)] Cons.prems(5)
  have a: "round_ok w k0 a" "advances st a" "\<not> c \<longrightarrow> a = st" "map_of (rv_resolved a) n \<noteq> None" by simp_all
  have "state_ok w st" using Cons.prems(2) by (simp add: round_ok_def)
  from resolve_name_bounded[OF r(1) this Cons.prems(3,4)]
  have b: "required_in N a" "c \<and> \<not> ch \<longrightarrow> n \<in> N \<and> map_of (rv_resolved st) n = None" by blast+
  have ne: "\<forall>m \<in> set names. reqs_of a m \<noteq> []"
    using Cons.prems(5) a(2) reqs_of_grows_ne by (auto simp: advances_def)
  from resolve_names_ok[OF r(2) a(1) ne] have "advances a st'" by blast
  then have keep: "map_of (rv_resolved st') n \<noteq> None" using a(4) by (auto simp: advances_def map_le_def dom_def)
  from Cons.IH[OF r(2) a(1) Cons.prems(3) b(1) ne]
  have IH: "required_in N st'" "ch' \<and> \<not> c \<longrightarrow> (\<exists>n \<in> N. map_of (rv_resolved a) n = None \<and> map_of (rv_resolved st') n \<noteq> None)" by blast+
  show ?case
  proof (cases c)
    case True
    with b(2) keep IH(1) show ?thesis by blast
  next
    case False
    with a(3) IH show ?thesis by simp
  qed
qed

lemma run_rounds_fuel:
  fixes w :: "('ver :: linorder, 'req, 'toml) world"
  assumes "round_ok w k0 st" "bounded_world w D N" "required_in N st"
    and "card (N - dom (map_of (rv_resolved st))) < fuel"
  shows "run_rounds w fuel st \<noteq> Inl Out_Of_Fuel"
  using assms
proof (induction fuel arbitrary: st)
  case 0
  then show ?case by simp
next
  case (Suc fuel)
  have names: "\<forall>n \<in> set (map fst (rv_requirements st)). reqs_of st n \<noteq> []"
    using reqs_of_key[of w st] Suc.prems(1) by (simp add: round_ok_def)
  have names_fuel: "for_each (resolve_name w) (map fst (rv_requirements st)) (st, False) \<noteq> Inl Out_Of_Fuel"
    by (rule for_each_fuel[where P = "\<lambda>_. True"]) (auto simp: resolve_name_fuel)
  show ?case
  proof
    assume "run_rounds w (Suc fuel) st = Inl Out_Of_Fuel"
    with names_fuel obtain a where r: "for_each (resolve_name w) (map fst (rv_requirements st)) (st, False) = Inr (a, True)"
      "run_rounds w fuel a = Inl Out_Of_Fuel"
      by (auto simp: and_then_Inl_iff split: if_splits)
    from resolve_names_ok[OF r(1) Suc.prems(1) names] have a: "round_ok w k0 a" "advances st a" by blast+
    from resolve_names_bounded[OF r(1) Suc.prems(1-3) names] obtain n where
      n: "required_in N a" "n \<in> N" "map_of (rv_resolved st) n = None" "map_of (rv_resolved a) n \<noteq> None" by blast
    have "dom (map_of (rv_resolved st)) \<subseteq> dom (map_of (rv_resolved a))"
      using a(2) map_le_implies_dom_le unfolding advances_def by blast
    with n(2-4) have "N - dom (map_of (rv_resolved a)) \<subset> N - dom (map_of (rv_resolved st))" by blast
    moreover have "finite N" using Suc.prems(2) by (simp add: bounded_world_def)
    ultimately have "card (N - dom (map_of (rv_resolved a))) < card (N - dom (map_of (rv_resolved st)))"
      by (intro psubset_card_mono) simp_all
    with Suc.prems(4) have "card (N - dom (map_of (rv_resolved a))) < fuel" by simp
    from Suc.IH[OF a(1) Suc.prems(2) n(1) this] r(2) show False by blast
  qed
qed

text \<open>
  C23: in a world with finitely many directories and names, resolution ends: with more fuel than either
  it returns packages or an error of the program.
\<close>

theorem resolution_ends:
  assumes "bounded_world w D N" "\<forall>(d, m) \<in> set members. fst ` set (all_dependencies m include_dev) \<subseteq> N"
    and "card D < fuel" "card N < fuel"
  shows "resolve_many w fuel members include_dev preferred \<noteq> Inl Out_Of_Fuel"
proof
  assume out: "resolve_many w fuel members include_dev preferred = Inl Out_Of_Fuel"
  have D: "finite D" and N: "finite N" using assms(1) by (simp_all add: bounded_world_def)
  have fuel: "card (D - V) < fuel" for V using assms(3) D by (meson Diff_subset card_mono le_less_trans)
  have member: "queue_member w fuel include_dev x s \<noteq> Inl Out_Of_Fuel \<and>
      (\<forall>t. queue_member w fuel include_dev x s = Inr t \<longrightarrow> required_in N s \<longrightarrow> required_in N t)" if "x \<in> set members" for x s
  proof (cases x)
    case (Pair d m)
    with that assms(2) have names: "n \<in> N" if "(n, dep) \<in> set (all_dependencies m include_dev)" for n dep using that by force
    have "for_each (\<lambda>(name, dep). queue_dependency w fuel name dep d m) (all_dependencies m include_dev) s \<noteq> Inl Out_Of_Fuel"
      by (rule for_each_fuel[where P = "\<lambda>_. True"]) (use names queue_dependency_fuel[OF assms(1) _ fuel] in \<open>auto split: prod.splits\<close>)
    moreover have "required_in N t"
      if "for_each (\<lambda>(name, dep). queue_dependency w fuel name dep d m) (all_dependencies m include_dev) s = Inr t" "required_in N s" for t
      using that(1,2)
    proof (rule for_each_inv)
      fix nd a b assume nd: "nd \<in> set (all_dependencies m include_dev)" "required_in N a"
        "(case nd of (name, dep) \<Rightarrow> queue_dependency w fuel name dep d m) a = Inr b"
      obtain n dep where "nd = (n, dep)" by fastforce
      with nd have "visits D N a b" using queue_dependency_visits[OF assms(1) names] by simp
      with nd(2) show "required_in N b" by (simp add: visits_def)
    qed
    ultimately show ?thesis by (simp add: Pair queue_member_def)
  qed
  have "for_each (queue_member w fuel include_dev) members (resolver_new preferred) \<noteq> Inl Out_Of_Fuel"
    by (rule for_each_fuel[where P = "\<lambda>_. True"]) (use member in auto)
  with out obtain st where st: "for_each (queue_member w fuel include_dev) members (resolver_new preferred) = Inr st"
    "run_rounds w fuel st = Inl Out_Of_Fuel" by (auto simp: resolve_many_def and_then_Inl_iff)
  have "required_in N st"
    by (rule for_each_inv[OF st(1)]) (use member in \<open>auto simp: required_in_def resolver_new_def reqs_of_def\<close>)
  moreover have "round_ok w (\<lambda>n. length (reqs_of st n)) st"
    using queue_members(1)[OF st(1)] by (auto simp: queued_def round_ok_def chosen_ok_def pinned_only_def)
  moreover have "card (N - dom (map_of (rv_resolved st))) < fuel" using assms(4) N by (meson Diff_subset card_mono le_less_trans)
  ultimately show False using run_rounds_fuel[OF _ assms(1)] st(2) by blast
qed

lemma sample_world_bounded: "bounded_world sample_world {''/lib''} {''alpha'', ''shared'', ''zeta''}"
  by (auto simp: bounded_world_def sample_world_def sample_index_def sample_entry_def manifest_new_lib_def manifest_empty_def
      split: if_splits)

theorem resolution_ends_witness:
  "resolve_many sample_world 4 [sample_app [(''zeta'', D_Version ''1'')]] True (lock_preferred []) \<noteq> Inl Out_Of_Fuel"
proof (rule resolution_ends[OF sample_world_bounded])
  show "\<forall>(d, m) \<in> set [sample_app [(''zeta'', D_Version ''1'')]]. fst ` set (all_dependencies m True) \<subseteq> {''alpha'', ''shared'', ''zeta''}"
    by (simp add: sample_app_def all_dependencies_def bt_extend_def manifest_new_def manifest_empty_def)
qed simp_all

end
