(* ===== verification/Overflow_Elim.thy ===== *)
theory Overflow_Elim
  imports Const_Fold Mir_Analyses
begin

text \<open>
  Overflow-check elimination (\<open>crates/dream-mir/src/passes/overflow_elim.rs\<close>): a checked operation
  becomes the plain one when the ranges of its operands show that it cannot overflow. Ranges come
  from the single dominating definition of a local and from branches on comparisons that dominate
  the use and whose local is not redefined in between. The definitions follow the source; a range is
  a pair of integers, and the depth of the derivation counts down.
\<close>

section \<open>Ranges\<close>

type_synonym range = "int \<times> int"

definition MAX_DEPTH :: nat where
  "MAX_DEPTH = 6"

definition full :: "int_ty \<Rightarrow> range" where
  "full ty = (it_min ty, it_max ty)"

definition within :: "range \<Rightarrow> int_ty \<Rightarrow> bool" where
  "within r ty \<longleftrightarrow> it_fits ty (fst r) \<and> it_fits ty (snd r)"

definition contains :: "range \<Rightarrow> int \<Rightarrow> bool" where
  "contains r v \<longleftrightarrow> fst r \<le> v \<and> v \<le> snd r"

definition range_meet :: "range \<Rightarrow> range \<Rightarrow> range" where
  "range_meet a b = (max (fst a) (fst b), min (snd a) (snd b))"

definition checked_i128 :: "int \<Rightarrow> int option" where
  "checked_i128 v = (if is_i128 v then Some v else None)"

definition arith :: "bin_op \<Rightarrow> range \<Rightarrow> range \<Rightarrow> range option" where
  "arith op a b =
     (case op of
        B_Add \<Rightarrow> do { lo \<leftarrow> checked_i128 (fst a + fst b); hi \<leftarrow> checked_i128 (snd a + snd b); Some (lo, hi) }
      | B_Sub \<Rightarrow> do { lo \<leftarrow> checked_i128 (fst a - snd b); hi \<leftarrow> checked_i128 (snd a - fst b); Some (lo, hi) }
      | B_Mul \<Rightarrow>
          do {
            p1 \<leftarrow> checked_i128 (fst a * fst b);
            p2 \<leftarrow> checked_i128 (fst a * snd b);
            p3 \<leftarrow> checked_i128 (snd a * fst b);
            p4 \<leftarrow> checked_i128 (snd a * snd b);
            Some (min (min p1 p2) (min p3 p4), max (max p1 p2) (max p3 p4))
          }
      | _ \<Rightarrow> None)"

definition bitwise_range :: "bin_op \<Rightarrow> range \<Rightarrow> range \<Rightarrow> int_ty \<Rightarrow> range option" where
  "bitwise_range op a b ty =
     (case op of
        B_BitAnd \<Rightarrow>
          (if 0 \<le> fst a \<and> 0 \<le> fst b then Some (0, min (snd a) (snd b))
           else if 0 \<le> fst a then Some (0, snd a)
           else if 0 \<le> fst b then Some (0, snd b)
           else None)
      | B_Rem \<Rightarrow>
          (if fst b = snd b \<and> 0 < fst b then
             (let m = fst b - 1 in Some (if 0 \<le> fst a then (0, min (snd a) m) else (- m, m)))
           else None)
      | B_Div \<Rightarrow>
          (if fst b = snd b \<and> 0 < fst b then Some (tdiv (fst a) (fst b), tdiv (snd a) (fst b)) else None)
      | B_Shr \<Rightarrow>
          (if fst b = snd b \<and> 0 \<le> fst b \<and> fst b < int (it_bits ty)
           then Some (drop_bit (nat (fst b)) (fst a), drop_bit (nat (fst b)) (snd a)) else None)
      | _ \<Rightarrow> None)"

definition comparison :: "bin_op \<Rightarrow> bin_op option" where
  "comparison op = (if op \<in> {B_Lt, B_Le, B_Gt, B_Ge} then Some op else None)"

definition negate_cmp :: "bin_op \<Rightarrow> bin_op" where
  "negate_cmp op = (case op of B_Lt \<Rightarrow> B_Ge | B_Le \<Rightarrow> B_Gt | B_Gt \<Rightarrow> B_Le | _ \<Rightarrow> B_Lt)"

definition flip_cmp :: "bin_op \<Rightarrow> bin_op" where
  "flip_cmp op = (case op of B_Lt \<Rightarrow> B_Gt | B_Le \<Rightarrow> B_Ge | B_Gt \<Rightarrow> B_Lt | B_Ge \<Rightarrow> B_Le | other \<Rightarrow> other)"

section \<open>The context of a function\<close>

record site =
  site_block :: nat
  site_idx :: nat

record guard =
  g_guard :: nat
  g_target :: nat
  g_op :: bin_op
  g_lhs :: operand
  g_rhs :: operand
  g_cmp_site :: site

record overflow_cx =
  cx_ptr_size :: nat
  cx_func :: mir_function
  cx_interner :: type_interner
  cx_defs :: "site option list list"
  cx_preds :: "block_id list list"
  cx_dom :: dom_tree
  cx_guards :: "guard list"

definition assigns_local :: "local \<Rightarrow> statement \<Rightarrow> bool" where
  "assigns_local l st = (case st of S_Assign (P_Local d) _ \<Rightarrow> d = l | _ \<Rightarrow> False)"

definition awaits_into :: "terminator \<Rightarrow> local option" where
  "awaits_into t = (case t of T_Await _ d _ \<Rightarrow> d | _ \<Rightarrow> None)"

definition stmt_defs :: "nat \<Rightarrow> site option list list \<Rightarrow> nat \<times> statement \<Rightarrow> site option list list option" where
  "stmt_defs bi defs = (\<lambda>(si, st). case st of
      S_Assign (P_Local d) _ \<Rightarrow> push_at defs (d, Some \<lparr>site_block = bi, site_idx = si\<rparr>)
    | _ \<Rightarrow> Some defs)"

definition block_defs :: "site option list list \<Rightarrow> nat \<times> basic_block \<Rightarrow> site option list list option" where
  "block_defs defs = (\<lambda>(bi, blk).
     do {
       defs \<leftarrow> foldM (stmt_defs bi) defs (enumerate 0 (stmts blk));
       case awaits_into (term_of blk) of Some d \<Rightarrow> push_at defs (d, None) | None \<Rightarrow> Some defs
     })"

definition collect_defs :: "mir_function \<Rightarrow> site option list list option" where
  "collect_defs f = foldM block_defs (replicate (length (fn_locals f)) []) (enumerate 0 (fn_blocks f))"

definition last_def_in :: "basic_block \<Rightarrow> local \<Rightarrow> (nat \<times> rvalue) option" where
  "last_def_in blk l =
     (case find (\<lambda>(_, st). assigns_local l st) (rev (enumerate 0 (stmts blk))) of
        Some (i, S_Assign _ rv) \<Rightarrow> Some (i, rv) | _ \<Rightarrow> None)"

definition guards_at :: "block_id list list \<Rightarrow> nat \<Rightarrow> operand \<Rightarrow> operand \<Rightarrow> site \<Rightarrow> (nat \<times> bin_op) \<Rightarrow> guard list option" where
  "guards_at preds bi lhs rhs cmp_site = (\<lambda>(target, op).
     do {
       ps \<leftarrow> nth_opt preds target;
       Some (if ps = [bi] then [\<lparr>g_guard = bi, g_target = target, g_op = op, g_lhs = lhs, g_rhs = rhs, g_cmp_site = cmp_site\<rparr>]
             else [])
     })"

definition block_guards :: "block_id list list \<Rightarrow> nat \<times> basic_block \<Rightarrow> guard list option" where
  "block_guards preds = (\<lambda>(bi, blk).
     case term_of blk of
       T_If (O_Copy (P_Local c)) then_blk else_blk \<Rightarrow>
         if then_blk = else_blk then Some []
         else (case last_def_in blk c of
             Some (si, R_Binary op lhs rhs) \<Rightarrow>
               (case comparison op of
                  None \<Rightarrow> Some []
                | Some taken \<Rightarrow>
                    let cmp_site = \<lparr>site_block = bi, site_idx = si\<rparr> in
                    do {
                      g1 \<leftarrow> guards_at preds bi lhs rhs cmp_site (then_blk, taken);
                      g2 \<leftarrow> guards_at preds bi lhs rhs cmp_site (else_blk, negate_cmp taken);
                      Some (g1 @ g2)
                    })
           | _ \<Rightarrow> Some [])
     | _ \<Rightarrow> Some [])"

definition collect_guards :: "mir_function \<Rightarrow> block_id list list \<Rightarrow> guard list option" where
  "collect_guards f preds =
     foldM (\<lambda>gs b. map_option (\<lambda>g. gs @ g) (block_guards preds b)) [] (enumerate 0 (fn_blocks f))"

definition overflow_cx_new ::
  "mir_function \<Rightarrow> type_interner \<Rightarrow> nat \<Rightarrow> function_analyses \<Rightarrow> (overflow_cx \<times> function_analyses) option" where
  "overflow_cx_new f i ptr_size a =
     do {
       defs \<leftarrow> collect_defs f;
       (preds, a1) \<leftarrow> query_predecessors a f;
       (dom, a2) \<leftarrow> query_dominators a1 f;
       guards \<leftarrow> collect_guards f preds;
       Some (\<lparr>cx_ptr_size = ptr_size, cx_func = f, cx_interner = i, cx_defs = defs, cx_preds = preds,
              cx_dom = dom, cx_guards = guards\<rparr>, a2)
     }"

section \<open>Guards that still hold\<close>

definition site_dominates :: "overflow_cx \<Rightarrow> site \<Rightarrow> site \<Rightarrow> bool option" where
  "site_dominates cx d u =
     (if site_block d = site_block u then Some (site_idx d < site_idx u)
      else dominates (cx_dom cx) (site_block d) (site_block u))"

definition redefines_block :: "local \<Rightarrow> basic_block \<Rightarrow> bool" where
  "redefines_block l blk \<longleftrightarrow> list_ex (assigns_local l) (stmts blk) \<or> awaits_into (term_of blk) = Some l"

lemma unseen_decreases:
  "b < length visited \<Longrightarrow> \<not> visited ! b \<Longrightarrow> length (filter Not (visited[b := True])) < length (filter Not visited)"
proof (induction visited arbitrary: b)
  case (Cons x visited)
  then show ?case by (cases b) auto
qed simp

text \<open>The walk back from a use to the target of a guard; the stack has its top first.\<close>

function walk_back :: "overflow_cx \<Rightarrow> guard \<Rightarrow> local \<Rightarrow> bool list \<Rightarrow> nat list \<Rightarrow> bool option" where
  "walk_back cx g l visited stack =
     (case stack of
        [] \<Rightarrow> Some True
      | b # rest \<Rightarrow>
          if length visited \<le> b then None
          else if visited ! b then walk_back cx g l visited rest
          else do {
            blk \<leftarrow> block (cx_func cx) b;
            if b = g_guard g \<or> redefines_block l blk then Some False
            else if b = g_target g then walk_back cx g l (visited[b := True]) rest
            else do {
              ps \<leftarrow> nth_opt (cx_preds cx) b;
              walk_back cx g l (visited[b := True]) (rev ps @ rest)
            }
          })"
  by pat_completeness auto

termination
  by (relation "measures [\<lambda>(cx, g, l, visited, stack). length (filter Not visited), \<lambda>(cx, g, l, visited, stack). length stack]")
    (auto simp: unseen_decreases not_le)

declare walk_back.simps [simp del]

definition guard_holds :: "overflow_cx \<Rightarrow> guard \<Rightarrow> local \<Rightarrow> site \<Rightarrow> bool option" where
  "guard_holds cx g l site =
     do {
       gblk \<leftarrow> block (cx_func cx) (g_guard g);
       if list_ex (assigns_local l) (drop (Suc (site_idx (g_cmp_site g))) (stmts gblk)) then Some False
       else do {
         dom \<leftarrow> dominates (cx_dom cx) (g_target g) (site_block site);
         if \<not> dom then Some False
         else do {
           sblk \<leftarrow> block (cx_func cx) (site_block site);
           if list_ex (assigns_local l) (take (site_idx site) (stmts sblk)) then Some False
           else if site_block site = g_target g then Some True
           else do {
             ps \<leftarrow> nth_opt (cx_preds cx) (site_block site);
             walk_back cx g l (replicate (length (fn_blocks (cx_func cx))) False) (rev ps)
           }
         }
       }
     }"

section \<open>Deriving ranges\<close>

text \<open>The range of a local at the same depth is the argument \<open>lr\<close>.\<close>

definition operand_range ::
  "overflow_cx \<Rightarrow> (local \<Rightarrow> int_ty \<Rightarrow> site \<Rightarrow> range option) \<Rightarrow> operand \<Rightarrow> int_ty \<Rightarrow> site \<Rightarrow> range option" where
  "operand_range cx lr a ty site =
     (case a of
        O_Const (C_Int v) \<Rightarrow> Some (it_value ty v, it_value ty v)
      | O_Const (C_Long v) \<Rightarrow> Some (it_value ty v, it_value ty v)
      | O_Const (C_Char c) \<Rightarrow> Some (int c, int c)
      | O_Copy (P_Local l) \<Rightarrow>
          do {
            t \<leftarrow> local_ty (cx_func cx) l;
            it \<leftarrow> int_ty_of (cx_interner cx) t (cx_ptr_size cx);
            case it of Some lty \<Rightarrow> lr l lty site | None \<Rightarrow> Some (full ty)
          }
      | _ \<Rightarrow> Some (full ty))"

definition rvalue_range ::
  "overflow_cx \<Rightarrow> (local \<Rightarrow> int_ty \<Rightarrow> site \<Rightarrow> range option) \<Rightarrow> rvalue \<Rightarrow> int_ty \<Rightarrow> site \<Rightarrow> range option" where
  "rvalue_range cx lr rv ty site =
     (let operand = (\<lambda>a. operand_range cx lr a ty site);
          opt_filter = (\<lambda>r. if within r ty then r else full ty) in
      case rv of
        R_Use a \<Rightarrow> operand a
      | R_ArrayLen _ \<Rightarrow> Some (0, it_max IT_Int)
      | R_StrLen _ \<Rightarrow> Some (0, it_max IT_Int)
      | R_StrByteSize _ \<Rightarrow> Some (0, it_max IT_Int)
      | R_Cast a from _ \<Rightarrow>
          do {
            it \<leftarrow> int_ty_of (cx_interner cx) from (cx_ptr_size cx);
            case it of
              Some fty \<Rightarrow> map_option opt_filter (operand_range cx lr a fty site)
            | None \<Rightarrow> Some (full ty)
          }
      | R_Binary op a b \<Rightarrow>
          do {
            ra \<leftarrow> operand a;
            rb \<leftarrow> operand b;
            Some (case bitwise_range op ra rb ty of
                Some r \<Rightarrow> r
              | None \<Rightarrow> (case arith op ra rb of Some r \<Rightarrow> opt_filter r | None \<Rightarrow> full ty))
          }
      | R_CheckedBinary op a b \<Rightarrow>
          do {
            ra \<leftarrow> operand a;
            rb \<leftarrow> operand b;
            Some (case bitwise_range op ra rb ty of
                Some r \<Rightarrow> r
              | None \<Rightarrow> (case arith op ra rb of Some r \<Rightarrow> range_meet r (full ty) | None \<Rightarrow> full ty))
          }
      | R_Unary U_Neg a \<Rightarrow> map_option (\<lambda>r. opt_filter (- snd r, - fst r)) (operand a)
      | R_CheckedNeg a \<Rightarrow> map_option (\<lambda>r. range_meet (- snd r, - fst r) (full ty)) (operand a)
      | R_Select _ a b \<Rightarrow>
          do { t \<leftarrow> operand a; e \<leftarrow> operand b; Some (min (fst t) (fst e), max (snd t) (snd e)) }
      | _ \<Rightarrow> Some (full ty))"

definition guard_bound ::
  "overflow_cx \<Rightarrow> (local \<Rightarrow> int_ty \<Rightarrow> site \<Rightarrow> range option) \<Rightarrow> guard \<Rightarrow> local \<Rightarrow> int_ty \<Rightarrow> site \<Rightarrow> range option option" where
  "guard_bound cx lr g l ty site =
     (case (if g_lhs g = O_Copy (P_Local l) then Some (g_op g, g_rhs g)
            else if g_rhs g = O_Copy (P_Local l) then Some (flip_cmp (g_op g), g_lhs g)
            else None) of
        None \<Rightarrow> Some None
      | Some (op, other) \<Rightarrow>
          do {
            holds \<leftarrow> guard_holds cx g l site;
            if \<not> holds then Some None
            else do {
              (lo, hi) \<leftarrow> operand_range cx lr other ty (g_cmp_site g);
              Some (case op of
                  B_Lt \<Rightarrow> Some (it_min ty, hi - 1)
                | B_Le \<Rightarrow> Some (it_min ty, hi)
                | B_Gt \<Rightarrow> Some (lo + 1, it_max ty)
                | B_Ge \<Rightarrow> Some (lo, it_max ty)
                | _ \<Rightarrow> None)
            }
          })"

text \<open>The range from the single definition of a local.\<close>

definition def_range ::
  "overflow_cx \<Rightarrow> (local \<Rightarrow> int_ty \<Rightarrow> site \<Rightarrow> range option) \<Rightarrow> local \<Rightarrow> int_ty \<Rightarrow> site \<Rightarrow> range option" where
  "def_range cx lr l ty site =
     do {
       defs \<leftarrow> nth_opt (cx_defs cx) l;
       case defs of
         [Some d] \<Rightarrow>
           do {
             dom \<leftarrow> site_dominates cx d site;
             if dom then
               do {
                 blk \<leftarrow> block (cx_func cx) (site_block d);
                 st \<leftarrow> nth_opt (stmts blk) (site_idx d);
                 case st of S_Assign _ rv \<Rightarrow> rvalue_range cx lr rv ty d | _ \<Rightarrow> None
               }
             else Some (full ty)
           }
       | _ \<Rightarrow> Some (full ty)
     }"

text \<open>
  \<open>local_range cx d\<close> is the source's function at depth \<open>MAX_DEPTH - d\<close>; the operands of guards get
  a depth of at least \<open>MAX_DEPTH - 2\<close>.
\<close>

function local_range :: "overflow_cx \<Rightarrow> nat \<Rightarrow> local \<Rightarrow> int_ty \<Rightarrow> site \<Rightarrow> range option" where
  "local_range cx 0 l ty site = Some (full ty)"
| "local_range cx (Suc d) l ty site =
     do {
       r \<leftarrow> def_range cx (local_range cx d) l ty site;
       foldM (\<lambda>r g. map_option (\<lambda>b. case b of Some bound \<Rightarrow> range_meet r bound | None \<Rightarrow> r)
           (guard_bound cx (local_range cx (min d 2)) g l ty site)) r (cx_guards cx)
     }"
  by pat_completeness auto
termination by (relation "measure (\<lambda>(cx, d, l, ty, site). d)") auto

section \<open>The pass\<close>

definition unchecked_form :: "overflow_cx \<Rightarrow> rvalue \<Rightarrow> local \<Rightarrow> site \<Rightarrow> rvalue option option" where
  "unchecked_form cx rv dest site =
     do {
       t \<leftarrow> local_ty (cx_func cx) dest;
       it \<leftarrow> int_ty_of (cx_interner cx) t (cx_ptr_size cx);
       case it of
         None \<Rightarrow> Some None
       | Some ty \<Rightarrow>
           (case rv of
              R_CheckedBinary op a b \<Rightarrow>
                do {
                  ra \<leftarrow> operand_range cx (local_range cx MAX_DEPTH) a ty site;
                  rb \<leftarrow> operand_range cx (local_range cx MAX_DEPTH) b ty site;
                  let safe =
                    (if op \<in> {B_Add, B_Sub, B_Mul} then
                       (case arith op ra rb of Some r \<Rightarrow> within r ty | None \<Rightarrow> False)
                     else if op \<in> {B_Div, B_Rem} then \<not> (contains ra (it_min ty) \<and> contains rb (- 1))
                     else if op \<in> {B_Shl, B_Shr} then 0 \<le> fst rb \<and> snd rb < int (it_bits ty)
                     else False);
                  Some (if safe then Some (R_Binary op a b) else None)
                }
            | R_CheckedNeg a \<Rightarrow>
                do {
                  r \<leftarrow> operand_range cx (local_range cx MAX_DEPTH) a ty site;
                  Some (if within (- snd r, - fst r) ty then Some (R_Unary U_Neg a) else None)
                }
            | _ \<Rightarrow> Some None)
     }"

definition is_checked :: "statement \<Rightarrow> bool" where
  "is_checked st = (case st of
      S_Assign _ (R_CheckedBinary _ _ _) \<Rightarrow> True | S_Assign _ (R_CheckedNeg _) \<Rightarrow> True | _ \<Rightarrow> False)"

definition stmt_rewrite :: "overflow_cx \<Rightarrow> nat \<Rightarrow> (nat \<times> nat \<times> rvalue) list \<Rightarrow> nat \<times> statement \<Rightarrow> (nat \<times> nat \<times> rvalue) list option" where
  "stmt_rewrite cx bi rewrites = (\<lambda>(si, st). case st of
      S_Assign (P_Local dest) rv \<Rightarrow>
        map_option (\<lambda>p. case p of Some plain \<Rightarrow> rewrites @ [(bi, si, plain)] | None \<Rightarrow> rewrites)
          (unchecked_form cx rv dest \<lparr>site_block = bi, site_idx = si\<rparr>)
    | _ \<Rightarrow> Some rewrites)"

definition collect_rewrites :: "overflow_cx \<Rightarrow> mir_function \<Rightarrow> (nat \<times> nat \<times> rvalue) list option" where
  "collect_rewrites cx f =
     foldM (\<lambda>rs (bi, blk). foldM (stmt_rewrite cx bi) rs (enumerate 0 (stmts blk))) [] (enumerate 0 (fn_blocks f))"

definition apply_rewrite :: "mir_function \<Rightarrow> nat \<times> nat \<times> rvalue \<Rightarrow> mir_function option" where
  "apply_rewrite f = (\<lambda>(bi, si, plain).
     do {
       blk \<leftarrow> block f bi;
       st \<leftarrow> nth_opt (stmts blk) si;
       case st of
         S_Assign p _ \<Rightarrow>
           Some (f\<lparr>fn_blocks := (fn_blocks f)[bi := blk\<lparr>stmts := (stmts blk)[si := S_Assign p plain]\<rparr>]\<rparr>)
       | _ \<Rightarrow> Some f
     })"

definition overflow_elim ::
  "type_interner \<Rightarrow> nat \<Rightarrow> mir_function \<Rightarrow> function_analyses \<Rightarrow> (mir_function \<times> bool \<times> function_analyses) option" where
  "overflow_elim i ptr_size f a =
     (if \<not> list_ex (\<lambda>blk. list_ex is_checked (stmts blk)) (fn_blocks f) then Some (f, False, a)
      else do {
        (cx, a) \<leftarrow> overflow_cx_new f i ptr_size a;
        rewrites \<leftarrow> collect_rewrites cx f;
        g \<leftarrow> foldM apply_rewrite f rewrites;
        Some (g, rewrites \<noteq> [], a)
      })"

definition overflow_elim_pass :: "type_interner \<Rightarrow> nat \<Rightarrow> mir_pass" where
  "overflow_elim_pass i ptr_size = \<lparr>pass_name = ''overflow-elim'', pass_preserves = Preserves_ControlFlow,
     pass_transform = overflow_elim i ptr_size\<rparr>"

end
