(* ===== verification/Int_Machine.thy ===== *)
theory Int_Machine
  imports Overflow_Elim Fold_Machine
begin

unbundle bit_operations_syntax

text \<open>
  What overflow-check elimination relies on of the machine, as the locale \<open>int_machine\<close>: every value
  reads as a number of each integer type, the plain operations are exact where the result fits, a
  checked operation is the plain one where it is safe and a panic elsewhere, lengths are not
  negative, casts keep a number that fits, and a comparison of an integer local decides the order of
  the numbers. The lemmas show that the operations on ranges are sound for the exact operations. The
  locale is interpreted on a machine whose values are payloads.
\<close>

section \<open>Operations on numbers\<close>

definition int_exact :: "int_ty \<Rightarrow> bin_op \<Rightarrow> int \<Rightarrow> int \<Rightarrow> int option" where
  "int_exact ty op x y =
     (case op of
        B_Add \<Rightarrow> Some (x + y)
      | B_Sub \<Rightarrow> Some (x - y)
      | B_Mul \<Rightarrow> Some (x * y)
      | B_Div \<Rightarrow> (if y = 0 then None else Some (tdiv x y))
      | B_Rem \<Rightarrow> (if y = 0 then None else Some (tmod x y))
      | B_BitAnd \<Rightarrow> Some (x AND y)
      | B_Shl \<Rightarrow> (if 0 \<le> y \<and> y < int (it_bits ty) then Some (push_bit (nat y) x) else None)
      | B_Shr \<Rightarrow> (if 0 \<le> y \<and> y < int (it_bits ty) then Some (drop_bit (nat y) x) else None)
      | _ \<Rightarrow> None)"

definition checked_ops :: "bin_op set" where
  "checked_ops = {B_Add, B_Sub, B_Mul, B_Div, B_Rem, B_Shl, B_Shr}"

text \<open>A checked operation panics exactly where this fails (a zero divisor panics by itself).\<close>

definition op_safe :: "int_ty \<Rightarrow> bin_op \<Rightarrow> int \<Rightarrow> int \<Rightarrow> bool" where
  "op_safe ty op x y \<longleftrightarrow>
     (if op \<in> {B_Add, B_Sub, B_Mul} then (\<forall>r \<in> set_option (int_exact ty op x y). it_fits ty r)
      else if op \<in> {B_Div, B_Rem} then \<not> (x = it_min ty \<and> y = - 1)
      else 0 \<le> y \<and> y < int (it_bits ty))"

definition int_cmp :: "bin_op \<Rightarrow> int \<Rightarrow> int \<Rightarrow> bool" where
  "int_cmp op x y = (case op of B_Lt \<Rightarrow> x < y | B_Le \<Rightarrow> x \<le> y | B_Gt \<Rightarrow> y < x | B_Ge \<Rightarrow> y \<le> x | _ \<Rightarrow> False)"

lemma comparison_ops: "comparison op = Some c \<longleftrightarrow> c = op \<and> op \<in> {B_Lt, B_Le, B_Gt, B_Ge}"
  by (auto simp: comparison_def)

lemma int_cmp_negate: "op \<in> {B_Lt, B_Le, B_Gt, B_Ge} \<Longrightarrow> int_cmp (negate_cmp op) x y \<longleftrightarrow> \<not> int_cmp op x y"
  by (auto simp: int_cmp_def negate_cmp_def)

lemma int_cmp_flip: "op \<in> {B_Lt, B_Le, B_Gt, B_Ge} \<Longrightarrow> int_cmp (flip_cmp op) x y \<longleftrightarrow> int_cmp op y x"
  by (auto simp: int_cmp_def flip_cmp_def)

section \<open>Operations on ranges\<close>

lemma contains_full [simp]: "contains (full ty) v \<longleftrightarrow> it_fits ty v"
  by (simp add: contains_def full_def it_fits_def)

lemma contains_within: "contains r v \<Longrightarrow> within r ty \<Longrightarrow> it_fits ty v"
  by (auto simp: contains_def within_def it_fits_def)

lemma contains_meet [simp]: "contains (range_meet a b) v \<longleftrightarrow> contains a v \<and> contains b v"
  by (auto simp: contains_def range_meet_def)

lemma contains_neg: "contains r v \<Longrightarrow> contains (- snd r, - fst r) (- v)"
  by (auto simp: contains_def)

lemma it_fits_zero: "it_fits ty 0"
  by (cases ty) (simp_all add: it_fits_def it_min_def it_max_def it_signed_def)

lemma it_fits_between: "it_fits ty x \<Longrightarrow> 0 \<le> r \<and> r \<le> x \<or> x \<le> r \<and> r \<le> 0 \<Longrightarrow> it_fits ty r"
  using it_fits_zero[of ty] by (auto simp: it_fits_def)

lemma mul_between:
  fixes a :: int
  assumes "a \<le> x" "x \<le> b"
  shows "min (a * c) (b * c) \<le> x * c" "x * c \<le> max (a * c) (b * c)"
proof -
  have "a * c \<le> x * c \<and> x * c \<le> b * c \<or> b * c \<le> x * c \<and> x * c \<le> a * c"
    using assms by (cases "0 \<le> c") (auto intro: mult_right_mono mult_right_mono_neg)
  then show "min (a * c) (b * c) \<le> x * c" "x * c \<le> max (a * c) (b * c)" by auto
qed

lemma arith_sound:
  assumes "arith op a b = Some r" "contains a x" "contains b y" "int_exact ty op x y = Some v"
  shows "contains r v"
proof (cases op)
  case B_Mul
  from assms(2,3) have x: "fst a \<le> x" "x \<le> snd a" and y: "fst b \<le> y" "y \<le> snd b" by (auto simp: contains_def)
  note by_y = mul_between[OF x, of y]
  note at_lo = mul_between[OF y, of "fst a"] and at_hi = mul_between[OF y, of "snd a"]
  from B_Mul assms(1) have r: "r = (min (min (fst a * fst b) (fst a * snd b)) (min (snd a * fst b) (snd a * snd b)),
      max (max (fst a * fst b) (fst a * snd b)) (max (snd a * fst b) (snd a * snd b)))"
    by (auto simp: arith_def bind_Some_iff checked_i128_def split: if_splits)
  from B_Mul assms(4) have "v = x * y" by (simp add: int_exact_def)
  moreover have "fst r \<le> x * y" using by_y(1) at_lo(1) at_hi(1) unfolding r fst_conv by (auto simp: mult.commute min_def split: if_splits)
  moreover have "x * y \<le> snd r" using by_y(2) at_lo(2) at_hi(2) unfolding r snd_conv by (auto simp: mult.commute max_def split: if_splits)
  ultimately show ?thesis by (simp add: contains_def)
qed (use assms in \<open>auto simp: arith_def bind_Some_iff checked_i128_def contains_def int_exact_def split: if_splits\<close>)

lemma tdiv_pos: "0 < b \<Longrightarrow> tdiv a b = (if 0 \<le> a then a div b else - ((- a) div b))"
  by (auto simp: tdiv_def sgn_if)

lemma tdiv_mono: "0 < b \<Longrightarrow> x \<le> y \<Longrightarrow> tdiv x b \<le> tdiv y b"
proof -
  assume a: "0 < b" "x \<le> y"
  have "- ((- x) div b) \<le> 0" if "x < 0" using that a(1) pos_imp_zdiv_nonneg_iff[of b "- x"] by simp
  moreover have "0 \<le> y div b" if "0 \<le> y" using that a(1) pos_imp_zdiv_nonneg_iff[of b y] by simp
  ultimately show ?thesis
    using a zdiv_mono1[of x y b] zdiv_mono1[of "- y" "- x" b] by (auto simp: tdiv_pos)
qed

lemma tdiv_between: "0 < b \<Longrightarrow> 0 \<le> tdiv x b \<and> tdiv x b \<le> x \<or> x \<le> tdiv x b \<and> tdiv x b \<le> 0"
proof -
  assume b: "0 < b"
  have le: "0 \<le> z \<Longrightarrow> 0 \<le> z div b \<and> z div b \<le> z" for z :: int
    using b zdiv_mono2[of z 1 b] by (simp add: pos_imp_zdiv_nonneg_iff)
  show ?thesis
  proof (cases "0 \<le> x")
    case True
    with le[of x] b show ?thesis by (simp add: tdiv_pos)
  next
    case False
    with le[of "- x"] b show ?thesis by (simp add: tdiv_pos)
  qed
qed

lemma tmod_pos: "0 < b \<Longrightarrow> tmod a b = (if 0 \<le> a then a mod b else - ((- a) mod b))"
proof (cases "0 \<le> a")
  case False
  moreover assume "0 < b"
  moreover have "(- a) mod b = - a - b * ((- a) div b)" by (rule minus_mult_div_eq_mod[symmetric])
  ultimately show ?thesis by (simp add: tmod_def tdiv_pos del: minus_mod_eq_mult_div)
qed (simp add: tmod_def tdiv_pos minus_mult_div_eq_mod)

lemma tmod_between:
  assumes "0 < b"
  shows "0 \<le> tmod x b \<and> tmod x b \<le> x \<or> x \<le> tmod x b \<and> tmod x b \<le> 0" "\<bar>tmod x b\<bar> \<le> b - 1"
    "0 \<le> x \<Longrightarrow> 0 \<le> tmod x b"
proof -
  have m: "0 \<le> z mod b" "z mod b < b" "0 \<le> z \<Longrightarrow> z mod b \<le> z" for z
    using assms by (auto intro: zmod_le_nonneg_dividend)
  show "0 \<le> tmod x b \<and> tmod x b \<le> x \<or> x \<le> tmod x b \<and> tmod x b \<le> 0"
    using m(1,3)[of x] m(1,3)[of "- x"] assms by (auto simp: tmod_pos)
  show "\<bar>tmod x b\<bar> \<le> b - 1" using m(1,2)[of x] m(1,2)[of "- x"] assms by (auto simp: tmod_pos)
  show "0 \<le> x \<Longrightarrow> 0 \<le> tmod x b" using m(1)[of x] assms by (simp add: tmod_pos)
qed

lemma drop_bit_between: "0 \<le> drop_bit n x \<and> drop_bit n x \<le> x \<or> x \<le> drop_bit n x \<and> drop_bit n x \<le> (0 :: int)"
proof -
  have le: "0 \<le> z \<Longrightarrow> 0 \<le> z div 2 ^ n \<and> z div 2 ^ n \<le> z" for z :: int
    using zdiv_mono2[of z 1 "2 ^ n"] by (simp add: pos_imp_zdiv_nonneg_iff)
  show ?thesis
  proof (cases "0 \<le> x")
    case True
    with le[of x] show ?thesis by (simp add: drop_bit_eq_div)
  next
    case False
    then have "x div 2 ^ n < 0" using pos_imp_zdiv_neg_iff[of "2 ^ n" x] by simp
    moreover have "x \<le> x div 2 ^ n"
    proof (rule ccontr)
      assume "\<not> ?thesis"
      then have "x div 2 ^ n + 1 \<le> x" by simp
      moreover have "x < (x div 2 ^ n + 1) * 2 ^ n" using div_mult_mod_eq[of x "2 ^ n"] pos_mod_bound[of "2 ^ n" x, OF zero_less_power[of 2 n]]
        unfolding distrib_right mult_1 by linarith
      moreover have "(x div 2 ^ n + 1) * 2 ^ n \<le> (x div 2 ^ n + 1) * 1"
        using \<open>x div 2 ^ n < 0\<close> by (intro mult_left_mono_neg) simp_all
      ultimately show False by simp
    qed
    ultimately show ?thesis by (simp add: drop_bit_eq_div)
  qed
qed

lemma drop_bit_mono: "x \<le> y \<Longrightarrow> drop_bit n x \<le> drop_bit n (y :: int)"
  by (simp add: drop_bit_eq_div zdiv_mono1)

text \<open>The bounded operations: the exact result fits and lies in the range.\<close>

lemma bitwise_range_sound:
  assumes r: "bitwise_range op a b ty = Some r" and x: "contains a x" "it_fits ty x" and y: "contains b y" "it_fits ty y"
    and v: "int_exact ty op x y = Some v"
  shows "contains r v \<and> it_fits ty v"
proof -
  from x(1) y(1) have le: "fst a \<le> x" "x \<le> snd a" "fst b \<le> y" "y \<le> snd b" by (auto simp: contains_def)
  show ?thesis
  proof (cases op)
    case B_BitAnd
    with v have "v = x AND y" by (simp add: int_exact_def)
    moreover have "0 \<le> x \<Longrightarrow> 0 \<le> x AND y \<and> x AND y \<le> x" "0 \<le> y \<Longrightarrow> 0 \<le> x AND y \<and> x AND y \<le> y" by auto
    ultimately show ?thesis using B_BitAnd r le it_fits_between[OF x(2), of v] it_fits_between[OF y(2), of v]
      by (fastforce simp: bitwise_range_def contains_def split: if_splits)
  next
    case B_Rem
    with r have b: "fst b = snd b" "0 < fst b" "r = (if 0 \<le> fst a then (0, min (snd a) (fst b - 1)) else (- (fst b - 1), fst b - 1))"
      by (auto simp: bitwise_range_def Let_def split: if_splits)
    with le have "y = fst b" by simp
    with B_Rem b(2) v have "v = tmod x y" by (simp add: int_exact_def)
    with b \<open>y = fst b\<close> le tmod_between[of y x] it_fits_between[OF x(2), of v] show ?thesis
      by (auto simp: contains_def)
  next
    case B_Div
    with r have b: "fst b = snd b" "0 < fst b" "r = (tdiv (fst a) (fst b), tdiv (snd a) (fst b))"
      by (auto simp: bitwise_range_def split: if_splits)
    with le have "y = fst b" by simp
    with B_Div b(2) v have "v = tdiv x y" by (simp add: int_exact_def)
    with b \<open>y = fst b\<close> le tdiv_between[of y x] tdiv_mono[of y] it_fits_between[OF x(2), of v] show ?thesis
      by (simp add: contains_def)
  next
    case B_Shr
    with r have b: "fst b = snd b" "0 \<le> fst b" "fst b < int (it_bits ty)"
      "r = (drop_bit (nat (fst b)) (fst a), drop_bit (nat (fst b)) (snd a))"
      by (auto simp: bitwise_range_def split: if_splits)
    with le have "y = fst b" by simp
    with B_Shr b(2,3) v have "v = drop_bit (nat y) x" by (simp add: int_exact_def)
    with b \<open>y = fst b\<close> le drop_bit_between[of "nat y" x] drop_bit_mono it_fits_between[OF x(2), of v] show ?thesis
      by (simp add: contains_def)
  qed (use r in \<open>simp_all add: bitwise_range_def\<close>)
qed

section \<open>Typed integer code\<close>

text \<open>An operand that is read as a number of an integer type.\<close>

definition typed_operand :: "(local \<Rightarrow> int_ty option) \<Rightarrow> operand \<Rightarrow> int_ty \<Rightarrow> bool" where
  "typed_operand tys a ty =
     (case a of
        O_Const (C_Int p) \<Rightarrow> is_i64 p
      | O_Const (C_Long p) \<Rightarrow> is_i64 p
      | O_Const (C_Char c) \<Rightarrow> it_fits ty (int c)
      | O_Copy (P_Local l) \<Rightarrow> tys l = None \<or> tys l = Some ty
      | _ \<Rightarrow> True)"

text \<open>An rvalue that is assigned to a local of an integer type.\<close>

definition typed_rvalue :: "type_interner \<Rightarrow> nat \<Rightarrow> (local \<Rightarrow> int_ty option) \<Rightarrow> int_ty \<Rightarrow> rvalue \<Rightarrow> bool" where
  "typed_rvalue i ptr_size tys ty rv =
     (case rv of
        R_Use a \<Rightarrow> typed_operand tys a ty
      | R_Binary _ a b \<Rightarrow> typed_operand tys a ty \<and> typed_operand tys b ty
      | R_CheckedBinary op a b \<Rightarrow> op \<in> checked_ops \<and> typed_operand tys a ty \<and> typed_operand tys b ty
      | R_Unary _ a \<Rightarrow> typed_operand tys a ty
      | R_CheckedNeg a \<Rightarrow> typed_operand tys a ty
      | R_Select _ a b \<Rightarrow> typed_operand tys a ty \<and> typed_operand tys b ty
      | R_Cast a from to \<Rightarrow>
          int_ty_of i to ptr_size = Some (Some ty) \<and>
          (case int_ty_of i from ptr_size of Some (Some fty) \<Rightarrow> typed_operand tys a fty | _ \<Rightarrow> True)
      | _ \<Rightarrow> True)"

text \<open>The operands of a comparison have the type of an integer local among them.\<close>

definition typed_comparison :: "(local \<Rightarrow> int_ty option) \<Rightarrow> rvalue \<Rightarrow> bool" where
  "typed_comparison tys rv =
     (case rv of
        R_Binary op a b \<Rightarrow> comparison op \<noteq> None \<longrightarrow>
          (case a of O_Copy (P_Local l) \<Rightarrow> (case tys l of Some ty \<Rightarrow> typed_operand tys b ty | None \<Rightarrow> True) | _ \<Rightarrow> True) \<and>
          (case b of O_Copy (P_Local l) \<Rightarrow> (case tys l of Some ty \<Rightarrow> typed_operand tys a ty | None \<Rightarrow> True) | _ \<Rightarrow> True)
      | _ \<Rightarrow> True)"

section \<open>The machine\<close>

locale int_machine =
  fixes num :: "int_ty \<Rightarrow> 'v \<Rightarrow> int" and m :: "('v, 'h) machine"
    and i :: type_interner and ptr_size :: nat and tys :: "local \<Rightarrow> int_ty option"
  assumes num_fits: "it_fits ty (num ty v)"
    and num_int: "is_i64 p \<Longrightarrow> num ty (m_const m (C_Int p)) = it_value ty p"
    and num_long: "is_i64 p \<Longrightarrow> num ty (m_const m (C_Long p)) = it_value ty p"
    and num_char: "it_fits ty (int c) \<Longrightarrow> num ty (m_const m (C_Char c)) = int c"
    and registers: "tys d = Some ty \<Longrightarrow> \<not> m_is_value m d"
    and plain: "tys d = Some ty \<Longrightarrow> m_rvalue m (P_Local d) (rvalue_key (R_Binary op a b)) [x, y] h = Ok v h' \<Longrightarrow>
      int_exact ty op (num ty x) (num ty y) = Some r \<Longrightarrow> it_fits ty r \<Longrightarrow> num ty v = r"
    and checked: "tys d = Some ty \<Longrightarrow> op \<in> checked_ops \<Longrightarrow>
      m_rvalue m (P_Local d) (rvalue_key (R_CheckedBinary op a b)) [x, y] h =
        (if op_safe ty op (num ty x) (num ty y)
         then m_rvalue m (P_Local d) (rvalue_key (R_Binary op a b)) [x, y] h else Trap h)"
    and neg: "tys d = Some ty \<Longrightarrow> m_rvalue m (P_Local d) (rvalue_key (R_Unary U_Neg a)) [x] h = Ok v h' \<Longrightarrow>
      it_fits ty (- num ty x) \<Longrightarrow> num ty v = - num ty x"
    and checked_neg: "tys d = Some ty \<Longrightarrow>
      m_rvalue m (P_Local d) (rvalue_key (R_CheckedNeg a)) [x] h =
        (if it_fits ty (- num ty x) then m_rvalue m (P_Local d) (rvalue_key (R_Unary U_Neg a)) [x] h else Trap h)"
    and lengths: "tys d = Some ty \<Longrightarrow> rv \<in> {R_ArrayLen a, R_StrLen a, R_StrByteSize a} \<Longrightarrow>
      m_rvalue m (P_Local d) (rvalue_key rv) [x] h = Ok v h' \<Longrightarrow> 0 \<le> num ty v \<and> num ty v \<le> it_max IT_Int"
    and cast: "tys d = Some ty \<Longrightarrow> int_ty_of i from ptr_size = Some (Some fty) \<Longrightarrow> int_ty_of i to ptr_size = Some (Some ty) \<Longrightarrow>
      m_rvalue m (P_Local d) (rvalue_key (R_Cast a from to)) [x] h = Ok v h' \<Longrightarrow> it_fits ty (num fty x) \<Longrightarrow> num ty v = num fty x"
    and compare_left: "comparison op \<noteq> None \<Longrightarrow> tys l = Some ty \<Longrightarrow> typed_operand tys b ty \<Longrightarrow>
      m_rvalue m pl (R_Binary op (var l) b) [x, y] h = Ok v h' \<Longrightarrow> m_truth m v \<longleftrightarrow> int_cmp op (num ty x) (num ty y)"
    and compare_right: "comparison op \<noteq> None \<Longrightarrow> tys l = Some ty \<Longrightarrow> typed_operand tys a ty \<Longrightarrow>
      m_rvalue m pl (R_Binary op a (var l)) [x, y] h = Ok v h' \<Longrightarrow> m_truth m v \<longleftrightarrow> int_cmp op (num ty x) (num ty y)"
begin

lemma plain_range:
  assumes d: "tys d = Some ty" and run: "m_rvalue m (P_Local d) (rvalue_key (R_Binary op a b)) [x, y] h = Ok v h'"
    and in_range: "contains ra (num ty x)" "contains rb (num ty y)"
  shows "bitwise_range op ra rb ty = Some r \<Longrightarrow> contains r (num ty v)"
    and "arith op ra rb = Some r \<Longrightarrow> within r ty \<Longrightarrow> contains r (num ty v)"
proof -
  have ex: "int_exact ty op (num ty x) (num ty y) \<noteq> None" if "arith op ra rb \<noteq> None"
    using that by (auto simp: arith_def int_exact_def split: bin_op.splits)
  show "contains r (num ty v)" if r: "arith op ra rb = Some r" "within r ty"
  proof -
    from ex r(1) obtain z where z: "int_exact ty op (num ty x) (num ty y) = Some z" by auto
    with arith_sound[OF r(1) in_range] have "contains r z" by blast
    with plain[OF d run z contains_within[OF _ r(2)]] show ?thesis by simp
  qed
  show "contains r (num ty v)" if r: "bitwise_range op ra rb ty = Some r"
  proof -
    have "int_exact ty op (num ty x) (num ty y) \<noteq> None" using r in_range
      by (auto simp: bitwise_range_def int_exact_def contains_def split: bin_op.splits if_splits)
    then obtain z where z: "int_exact ty op (num ty x) (num ty y) = Some z" by auto
    with bitwise_range_sound[OF r in_range(1) num_fits in_range(2) num_fits] have "contains r z" "it_fits ty z" by auto
    with plain[OF d run z] show ?thesis by simp
  qed
qed

lemma checked_range:
  assumes d: "tys d = Some ty" and op: "op \<in> checked_ops"
    and run: "m_rvalue m (P_Local d) (rvalue_key (R_CheckedBinary op a b)) [x, y] h = Ok v h'"
    and in_range: "contains ra (num ty x)" "contains rb (num ty y)"
  shows "bitwise_range op ra rb ty = Some r \<Longrightarrow> contains r (num ty v)"
    and "arith op ra rb = Some r \<Longrightarrow> contains r (num ty v)"
proof -
  from run have safe: "op_safe ty op (num ty x) (num ty y)"
    and p: "m_rvalue m (P_Local d) (rvalue_key (R_Binary op a b)) [x, y] h = Ok v h'"
    unfolding checked[OF d op] by (auto split: if_splits)
  show "bitwise_range op ra rb ty = Some r \<Longrightarrow> contains r (num ty v)" by (rule plain_range(1)[OF d p in_range])
  show "contains r (num ty v)" if r: "arith op ra rb = Some r"
  proof -
    from r have "op \<in> {B_Add, B_Sub, B_Mul}" by (auto simp: arith_def split: bin_op.splits)
    with safe obtain z where z: "int_exact ty op (num ty x) (num ty y) = Some z" "it_fits ty z"
      by (auto simp: op_safe_def int_exact_def)
    with plain[OF d p z] arith_sound[OF r in_range z(1)] show ?thesis by simp
  qed
qed

end

end
