(* ===== verification/Overflow_Trace.thy ===== *)
theory Overflow_Trace
  imports Overflow_Elim Mir_Dominators Mir_Machine
begin

text \<open>
  Traces of executions, for the soundness of overflow-check elimination: the configurations an
  execution passes, the newest first, at the granularity of statements. A block that dominates the
  current one has been executed to its end, an earlier position of the current block has been
  passed, and a local with a single definition that has been executed still has the value computed
  there.
\<close>

section \<open>Traces\<close>

inductive trace :: "('v, 'h) machine \<Rightarrow> mir_function \<Rightarrow> (block_id \<times> nat \<times> ('v, 'h) state) list \<Rightarrow> bool"
  for m f where
  trace_start: "trace m f [(fn_entry f, 0, s)]"
| trace_stmt: "trace m f ((b, i, s) # t) \<Longrightarrow> block f b = Some blk \<Longrightarrow> i < length (stmts blk) \<Longrightarrow>
    exec_stmt m (stmts blk ! i) s = Next s' \<Longrightarrow> trace m f ((b, Suc i, s') # (b, i, s) # t)"
| trace_jump: "trace m f ((b, i, s) # t) \<Longrightarrow> block f b = Some blk \<Longrightarrow> i = length (stmts blk) \<Longrightarrow>
    exec_term m (term_of blk) s = Jump b' s' \<Longrightarrow> trace m f ((b', 0, s') # (b, i, s) # t)"

inductive_cases trace_Cons: "trace m f (c # t)"

lemma trace_tail: "trace m f (c # d # t) \<Longrightarrow> trace m f (d # t)"
  by (erule trace_Cons) simp_all

lemma trace_suffix: "trace m f (t @ c # u) \<Longrightarrow> trace m f (c # u)"
proof (induction t)
  case (Cons d t)
  then show ?case by (cases t) (auto dest: trace_tail)
qed simp

lemma trace_member:
  assumes "trace m f t" "c \<in> set t"
  obtains u where "trace m f (c # u)"
  using assms trace_suffix by (metis split_list)

lemma trace_block:
  assumes "cfg_ok f" "trace m f ((b, i, s) # t)"
  shows "b < length (fn_blocks f) \<and> i \<le> length (stmts (fn_blocks f ! b))"
  using assms(2)
proof (induction "(b, i, s) # t" arbitrary: b i s t rule: trace.induct)
  case trace_start
  with assms(1) show ?case by simp
next
  case (trace_stmt b i s t blk s')
  then show ?case by (auto simp: block_Some_iff)
next
  case (trace_jump b i s t blk b' s')
  then show ?case using assms(1) exec_term_Jump[of m "term_of blk" s b' s']
    by (auto simp: block_Some_iff intro: cfg_ok_successor)
qed

text \<open>An earlier position of the same block, and what was executed since.\<close>

lemma trace_earlier:
  assumes "trace m f ((b, i, s) # t)" "k \<le> i"
  shows "\<exists>s0 u. trace m f ((b, k, s0) # u) \<and> (k < i \<longrightarrow> (b, k, s0) \<in> set t) \<and>
    exec_stmts m (drop k (take i (stmts (fn_blocks f ! b)))) s0 = Next s"
  using assms
proof (induction "(b, i, s) # t" arbitrary: b i s t rule: trace.induct)
  case (trace_start s)
  then have "trace m f ((fn_entry f, k, s) # []) \<and> (k < 0 \<longrightarrow> (fn_entry f, k, s) \<in> set []) \<and>
      exec_stmts m (drop k (take 0 (stmts (fn_blocks f ! fn_entry f)))) s = Next s"
    by (simp add: trace.trace_start)
  then show ?case by blast
next
  case (trace_stmt b i s t blk s')
  show ?case
  proof (cases "k = Suc i")
    case True
    have "trace m f ((b, k, s') # (b, i, s) # t)" unfolding True using trace_stmt.hyps(1,3,4,5) by (rule trace.trace_stmt)
    with True show ?thesis by fastforce
  next
    case False
    with trace_stmt.prems have k: "k \<le> i" by simp
    with trace_stmt.hyps(2) obtain s0 u where e: "trace m f ((b, k, s0) # u)" "k < i \<longrightarrow> (b, k, s0) \<in> set t"
      "exec_stmts m (drop k (take i (stmts (fn_blocks f ! b)))) s0 = Next s" by blast
    have "(b, k, s0) \<in> set ((b, i, s) # t)"
    proof (cases "k = i")
      case True
      with e(3) have "s0 = s" by simp
      with True show ?thesis by simp
    qed (use e(2) k in simp)
    moreover have "exec_stmts m (drop k (take (Suc i) (stmts (fn_blocks f ! b)))) s0 = Next s'"
      using trace_stmt.hyps(3,4,5) k e(3) by (auto simp: block_Some_iff take_Suc_conv_app_nth exec_stmts_append)
    ultimately show ?thesis using e(1) by blast
  qed
next
  case (trace_jump b i s t blk b' s')
  have "trace m f ((b', 0, s') # (b, i, s) # t)" using trace_jump.hyps(1,3,4,5) by (rule trace.trace_jump)
  then have "trace m f ((b', k, s') # (b, i, s) # t)" "k = 0" using trace_jump.prems by auto
  then show ?case by fastforce
qed

lemma trace_walk:
  assumes "trace m f ((b, i, s) # t)"
  shows "\<exists>p. walk (cfg_edge f) (fn_entry f) p b \<and> set p = fst ` set ((b, i, s) # t)"
  using assms
proof (induction "(b, i, s) # t" arbitrary: b i s t rule: trace.induct)
  case trace_start
  then show ?case by (intro exI[of _ "[fn_entry f]"]) (simp add: walk_root)
next
  case (trace_stmt b i s t blk s')
  then show ?case by auto
next
  case (trace_jump b i s t blk b' s')
  then obtain p where p: "walk (cfg_edge f) (fn_entry f) p b" "set p = fst ` set ((b, i, s) # t)" by blast
  have "cfg_edge f b b'" using trace_jump.hyps(3,5) exec_term_Jump by (fastforce simp: cfg_edge_def block_Some_iff)
  with p(1) have "walk (cfg_edge f) (fn_entry f) (p @ [b']) b'" by (rule walk_step)
  with p(2) show ?case by (intro exI[of _ "p @ [b']"]) simp
qed

lemma trace_reachable: "trace m f ((b, i, s) # t) \<Longrightarrow> b \<in> reachable f"
  using trace_walk[of m f b i s t] walk_reach[of "cfg_edge f" "fn_entry f"] by (auto simp: reachable_def)

text \<open>A block that has been left has been executed to its end.\<close>

lemma trace_completed:
  assumes "trace m f ((b, i, s) # t)" "(d, j, u) \<in> set t" "d \<noteq> b" "k \<le> length (stmts (fn_blocks f ! d))"
  shows "\<exists>s0. (d, k, s0) \<in> set t"
  using assms
proof (induction "(b, i, s) # t" arbitrary: b i s t rule: trace.induct)
  case (trace_stmt b i s t blk s')
  then show ?case by auto
next
  case (trace_jump b i s t blk b' s')
  show ?case
  proof (cases "d = b")
    case True
    with trace_jump.hyps(3,4) trace_jump.prems(3) have "k \<le> i" by (simp add: block_Some_iff)
    from trace_earlier[OF trace_jump.hyps(1) this] obtain s0 where
      "k < i \<longrightarrow> (b, k, s0) \<in> set t" "exec_stmts m (drop k (take i (stmts (fn_blocks f ! b)))) s0 = Next s" by blast
    with True \<open>k \<le> i\<close> show ?thesis by (cases "k = i") auto
  next
    case False
    with trace_jump.prems have "(d, j, u) \<in> set t" by simp
    with trace_jump.hyps(2) False trace_jump.prems(3) show ?thesis by auto
  qed
qed simp

text \<open>What an execution of a dominated block has passed.\<close>

lemma trace_dominated:
  assumes "trace m f ((b, i, s) # t)" "doms (cfg_edge f) (fn_entry f) d b" "d \<noteq> b" "k \<le> length (stmts (fn_blocks f ! d))"
  shows "\<exists>s0. (d, k, s0) \<in> set t"
proof -
  from trace_walk[OF assms(1)] obtain p where p: "walk (cfg_edge f) (fn_entry f) p b" "set p = fst ` set ((b, i, s) # t)" by blast
  with assms(2) doms_walks walk_reach have "d \<in> set p" by metis
  with p(2) assms(3) obtain j u where "(d, j, u) \<in> set t" by auto
  from trace_completed[OF assms(1) this assms(3,4)] show ?thesis .
qed

section \<open>What changes a local\<close>

lemma exec_stmt_keeps:
  assumes "exec_stmt m st s = Next s'" "\<not> assigns_local l st"
  shows "loc s' l = loc s l"
  using assms
  by (auto simp: exec_stmt_def assigns_local_def write_place_def store_place_def bind_Some_iff
      split: statement.splits place.splits eff.splits option.splits if_splits)

lemma exec_stmts_keeps:
  "exec_stmts m ss s = Next s' \<Longrightarrow> \<not> list_ex (assigns_local l) ss \<Longrightarrow> loc s' l = loc s l"
  by (induction ss arbitrary: s) (auto split: res.splits dest: exec_stmt_keeps)

lemma exec_term_keeps:
  assumes "exec_term m t s = Jump b s'" "awaits_into t \<noteq> Some l"
  shows "loc s' l = loc s l"
  using assms
  by (auto simp: exec_term_def awaits_into_def write_place_def store_place_def bind_Some_iff
      split: terminator.splits eff.splits option.splits if_splits)

lemma exec_stmt_assigns:
  assumes "exec_stmt m (S_Assign (P_Local l) rv) s = Next s'" "\<not> m_is_value m l"
  shows "\<exists>v h. eval_rvalue m (P_Local l) rv s = Ok v h \<and> s' = s\<lparr>loc := (loc s)(l := v), heap := h\<rparr>"
  using assms by (auto simp: exec_stmt_def write_place_def split: eff.splits)

lemma assigns_local_iff: "assigns_local l st \<longleftrightarrow> (\<exists>rv. st = S_Assign (P_Local l) rv)"
  by (auto simp: assigns_local_def split: statement.splits place.splits)

text \<open>A local with one definition keeps the value computed there.\<close>

definition only_def :: "mir_function \<Rightarrow> local \<Rightarrow> nat \<Rightarrow> nat \<Rightarrow> bool" where
  "only_def f l d j \<longleftrightarrow>
     (\<forall>b i. b < length (fn_blocks f) \<longrightarrow> i < length (stmts (fn_blocks f ! b)) \<longrightarrow>
        assigns_local l (stmts (fn_blocks f ! b) ! i) \<longrightarrow> b = d \<and> i = j) \<and>
     (\<forall>blk \<in> set (fn_blocks f). awaits_into (term_of blk) \<noteq> Some l)"

lemma only_def_value:
  assumes "trace m f ((b, i, s) # t)" "only_def f l d j" "(d, j, u) \<in> set t"
    and "\<not> m_is_value m l" "stmts (fn_blocks f ! d) ! j = S_Assign (P_Local l) rv"
    and "j < length (stmts (fn_blocks f ! d))"
  shows "\<exists>s0 t0 h. trace m f ((d, j, s0) # t0) \<and> eval_rvalue m (P_Local l) rv s0 = Ok (loc s l) h"
  using assms(1,3)
proof (induction "(b, i, s) # t" arbitrary: b i s t u rule: trace.induct)
  case (trace_stmt b i s t blk s')
  show ?case
  proof (cases "b = d \<and> i = j")
    case True
    with trace_stmt.hyps(3,5) assms(5) have "exec_stmt m (S_Assign (P_Local l) rv) s = Next s'" by (simp add: block_Some_iff)
    from exec_stmt_assigns[OF this assms(4)] obtain h where "eval_rvalue m (P_Local l) rv s = Ok (loc s' l) h" by auto
    with True trace_stmt.hyps(1) show ?thesis by blast
  next
    case False
    with assms(2) trace_stmt.hyps(3,4) have "\<not> assigns_local l (stmts blk ! i)" by (auto simp: only_def_def block_Some_iff)
    with exec_stmt_keeps trace_stmt.hyps(5) have "loc s' l = loc s l" by metis
    moreover from False trace_stmt.prems have "(d, j, u) \<in> set t" by auto
    ultimately show ?thesis using trace_stmt.hyps(2) by auto
  qed
next
  case (trace_jump b i s t blk b' s')
  have "(b, i) \<noteq> (d, j)" using trace_jump.hyps(3,4) assms(6) by (auto simp: block_Some_iff)
  with trace_jump.prems have "(d, j, u) \<in> set t" by auto
  moreover have "awaits_into (term_of blk) \<noteq> Some l" using assms(2) trace_jump.hyps(3) by (auto simp: only_def_def block_Some_iff)
  then have "loc s' l = loc s l" using exec_term_keeps trace_jump.hyps(5) by metis
  ultimately show ?case using trace_jump.hyps(2) by auto
qed simp

end
