(* ===== verification/Overflow_Sound.thy ===== *)
theory Overflow_Sound
  imports Int_Machine Overflow_Trace
begin

text \<open>
  Soundness of overflow-check elimination. Every range that the pass derives at a program point
  contains the value of the local whenever an execution from the entry reaches the point: a
  dominating single definition has been executed and its value kept; a guard that holds at a use was
  taken by the latest visit to its comparison, and the local has not changed since. So a check that
  is removed would have passed.
\<close>

section \<open>The input\<close>

definition operand_declared :: "nat \<Rightarrow> operand \<Rightarrow> bool" where
  "operand_declared n a \<longleftrightarrow> (case a of O_Copy (P_Local l) \<Rightarrow> l < n | _ \<Rightarrow> True)"

definition assign_declared :: "type_interner \<Rightarrow> nat \<Rightarrow> statement \<Rightarrow> bool" where
  "assign_declared i n st \<longleftrightarrow>
     (case st of
        S_Assign p rv \<Rightarrow>
          (case p of P_Local d \<Rightarrow> d < n | _ \<Rightarrow> True) \<and> list_all (operand_declared n) (rvalue_operands rv) \<and>
          (case rv of R_Cast _ from _ \<Rightarrow> from < length (kinds i) | _ \<Rightarrow> True)
      | _ \<Rightarrow> True)"

text \<open>Locals and types that exist, on valid control flow whose blocks are numbered by \<open>u32\<close>.\<close>

definition overflow_input :: "type_interner \<Rightarrow> mir_function \<Rightarrow> bool" where
  "overflow_input i f \<longleftrightarrow>
     cfg_ok f \<and> length (fn_blocks f) < 2 ^ 32 \<and> list_all (\<lambda>d. ld_ty d < length (kinds i)) (fn_locals f) \<and>
     list_all (\<lambda>blk. list_all (assign_declared i (length (fn_locals f))) (stmts blk) \<and>
       (case awaits_into (term_of blk) of Some d \<Rightarrow> d < length (fn_locals f) | None \<Rightarrow> True)) (fn_blocks f)"

lemma overflow_inputD:
  assumes "overflow_input i f"
  shows "cfg_ok f" "length (fn_blocks f) < 2 ^ 32"
    "l < length (fn_locals f) \<Longrightarrow> \<exists>it. local_ty f l = Some (ld_ty (fn_locals f ! l)) \<and> int_ty_of i (ld_ty (fn_locals f ! l)) p = Some it"
    "blk \<in> set (fn_blocks f) \<Longrightarrow> st \<in> set (stmts blk) \<Longrightarrow> assign_declared i (length (fn_locals f)) st"
    "blk \<in> set (fn_blocks f) \<Longrightarrow> awaits_into (term_of blk) = Some d \<Longrightarrow> d < length (fn_locals f)"
  using assms
  by (auto simp: overflow_input_def list_all_length int_ty_of_def kind_def local_ty_def all_set_conv_all_nth)
    (fastforce simp: in_set_conv_nth)+

section \<open>Definition sites\<close>

text \<open>The definitions of a function in the order the source records them.\<close>

definition stmt_events :: "nat \<Rightarrow> nat \<times> statement \<Rightarrow> (local \<times> site option) list" where
  "stmt_events bi = (\<lambda>(si, st). case st of
      S_Assign (P_Local d) _ \<Rightarrow> [(d, Some \<lparr>site_block = bi, site_idx = si\<rparr>)] | _ \<Rightarrow> [])"

definition block_events :: "nat \<times> basic_block \<Rightarrow> (local \<times> site option) list" where
  "block_events = (\<lambda>(bi, blk). concat (map (stmt_events bi) (enumerate 0 (stmts blk))) @
     (case awaits_into (term_of blk) of Some d \<Rightarrow> [(d, None)] | None \<Rightarrow> []))"

definition def_events :: "mir_function \<Rightarrow> (local \<times> site option) list" where
  "def_events f = concat (map block_events (enumerate 0 (fn_blocks f)))"

lemma foldM_concat: "foldM g s (concat xss) = foldM (foldM g) s xss"
  by (induction xss arbitrary: s) (auto simp: foldM_append)

lemma foldM_map: "foldM g s (map h xs) = foldM (\<lambda>s x. g s (h x)) s xs"
  by (induction xs arbitrary: s) auto

lemma collect_defs_events: "collect_defs f = foldM push_at (replicate (length (fn_locals f)) []) (def_events f)"
proof -
  have st: "stmt_defs bi = (\<lambda>defs p. foldM push_at defs (stmt_events bi p))" for bi
    by (intro ext) (auto simp: stmt_defs_def stmt_events_def split: prod.splits statement.splits place.splits)
  have "block_defs = (\<lambda>defs p. foldM push_at defs (block_events p))"
  proof (intro ext)
    fix defs and p :: "nat \<times> basic_block"
    show "block_defs defs p = foldM push_at defs (block_events p)"
      by (cases p; cases "awaits_into (term_of (snd p))")
        (simp_all add: block_defs_def block_events_def foldM_append foldM_concat foldM_map st)
  qed
  then show ?thesis by (simp add: collect_defs_def def_events_def foldM_concat foldM_map)
qed

lemma set_concat_enumerate: "x \<in> set (concat (map h (enumerate 0 xs))) \<longleftrightarrow> (\<exists>j < length xs. x \<in> set (h (j, xs ! j)))"
proof
  assume "x \<in> set (concat (map h (enumerate 0 xs)))"
  then obtain p where p: "p \<in> set (enumerate 0 xs)" "x \<in> set (h p)" by auto
  obtain j y where "p = (j, y)" by fastforce
  with p show "\<exists>j < length xs. x \<in> set (h (j, xs ! j))" by (auto simp: in_set_enumerate_eq)
next
  assume "\<exists>j < length xs. x \<in> set (h (j, xs ! j))"
  then obtain j where "j < length xs" "x \<in> set (h (j, xs ! j))" by blast
  then have "(j, xs ! j) \<in> set (enumerate 0 xs)" by (simp add: in_set_enumerate_eq)
  with \<open>x \<in> set (h (j, xs ! j))\<close> show "x \<in> set (concat (map h (enumerate 0 xs)))" by auto
qed

lemma in_stmt_events: "(l, x) \<in> set (stmt_events bi (si, st)) \<longleftrightarrow> assigns_local l st \<and> x = Some \<lparr>site_block = bi, site_idx = si\<rparr>"
  by (auto simp: stmt_events_def assigns_local_def split: statement.splits place.splits)

lemma in_def_events:
  "(l, x) \<in> set (def_events f) \<longleftrightarrow>
     (\<exists>b < length (fn_blocks f).
        (\<exists>j < length (stmts (fn_blocks f ! b)). assigns_local l (stmts (fn_blocks f ! b) ! j) \<and> x = Some \<lparr>site_block = b, site_idx = j\<rparr>) \<or>
        awaits_into (term_of (fn_blocks f ! b)) = Some l \<and> x = None)"
proof -
  have "(l, x) \<in> set (block_events (b, blk)) \<longleftrightarrow>
      (\<exists>j < length (stmts blk). assigns_local l (stmts blk ! j) \<and> x = Some \<lparr>site_block = b, site_idx = j\<rparr>) \<or>
      awaits_into (term_of blk) = Some l \<and> x = None" for b blk
    unfolding block_events_def prod.case set_append Un_iff set_concat_enumerate in_stmt_events
    by (cases "awaits_into (term_of blk)") auto
  then show ?thesis unfolding def_events_def set_concat_enumerate by simp
qed

lemma collect_defs_total:
  assumes "overflow_input i f"
  obtains defs where "collect_defs f = Some defs" "length defs = length (fn_locals f)"
    "\<And>l. l < length (fn_locals f) \<Longrightarrow> set (defs ! l) = {x. (l, x) \<in> set (def_events f)}"
proof -
  have "l < length (replicate (length (fn_locals f)) ([] :: site option list))" if e: "(l, x) \<in> set (def_events f)" for l x
  proof -
    from e obtain b where b: "b < length (fn_blocks f)" and
      "(\<exists>j < length (stmts (fn_blocks f ! b)). assigns_local l (stmts (fn_blocks f ! b) ! j)) \<or>
        awaits_into (term_of (fn_blocks f ! b)) = Some l" by (auto simp: in_def_events)
    then show ?thesis
    proof (elim disjE exE conjE)
      fix j assume j: "j < length (stmts (fn_blocks f ! b))" "assigns_local l (stmts (fn_blocks f ! b) ! j)"
      from overflow_inputD(4)[OF assms nth_mem[OF b] nth_mem[OF j(1)]] j(2) show ?thesis
        by (auto simp: assigns_local_iff assign_declared_def)
    next
      assume "awaits_into (term_of (fn_blocks f ! b)) = Some l"
      from overflow_inputD(5)[OF assms nth_mem[OF b] this] show ?thesis by simp
    qed
  qed
  then have "\<forall>(l, x) \<in> set (def_events f). l < length (replicate (length (fn_locals f)) ([] :: site option list))" by blast
  from push_at_fold[OF this] obtain defs where d: "collect_defs f = Some defs" "length defs = length (fn_locals f)"
    "\<forall>l < length (fn_locals f). defs ! l = map snd (filter (\<lambda>e. fst e = l) (def_events f))"
    by (auto simp: collect_defs_events)
  have "set (map snd (filter (\<lambda>e. fst e = l) (def_events f))) = {x. (l, x) \<in> set (def_events f)}" for l by force
  with d that show thesis by simp
qed

lemma single_def:
  assumes "{x. (l, x) \<in> set (def_events f)} = {Some d}"
  shows "only_def f l (site_block d) (site_idx d)" "site_block d < length (fn_blocks f)"
    "site_idx d < length (stmts (fn_blocks f ! site_block d))"
    "assigns_local l (stmts (fn_blocks f ! site_block d) ! site_idx d)"
proof -
  from assms have "(l, Some d) \<in> set (def_events f)" by blast
  then show "site_block d < length (fn_blocks f)" "site_idx d < length (stmts (fn_blocks f ! site_block d))"
    "assigns_local l (stmts (fn_blocks f ! site_block d) ! site_idx d)" by (auto simp: in_def_events)
  have "(l, None) \<notin> set (def_events f)" and one: "(l, Some e) \<in> set (def_events f) \<Longrightarrow> e = d" for e using assms by auto
  then have "awaits_into (term_of blk) \<noteq> Some l" if "blk \<in> set (fn_blocks f)" for blk
    using that by (fastforce simp: in_def_events in_set_conv_nth[of blk])
  moreover have "b = site_block d \<and> j = site_idx d"
    if "b < length (fn_blocks f)" "j < length (stmts (fn_blocks f ! b))" "assigns_local l (stmts (fn_blocks f ! b) ! j)" for b j
    using one[of "\<lparr>site_block = b, site_idx = j\<rparr>"] that by (auto simp: in_def_events)
  ultimately show "only_def f l (site_block d) (site_idx d)" by (auto simp: only_def_def)
qed

section \<open>Guards\<close>

lemma last_def_in_Some:
  assumes "last_def_in blk l = Some (k, rv)"
  shows "k < length (stmts blk)" "stmts blk ! k = S_Assign (P_Local l) rv" "\<not> list_ex (assigns_local l) (drop (Suc k) (stmts blk))"
proof -
  from assms obtain st where st: "find (\<lambda>(_, st). assigns_local l st) (rev (enumerate 0 (stmts blk))) = Some (k, st)"
    "\<exists>p. st = S_Assign p rv"
    by (auto simp: last_def_in_def split: option.splits statement.splits)
  from st(1) obtain n where n: "n < length (stmts blk)" "(k, st) = rev (enumerate 0 (stmts blk)) ! n" "assigns_local l st"
    "\<forall>j < n. \<not> (case rev (enumerate 0 (stmts blk)) ! j of (_, st) \<Rightarrow> assigns_local l st)"
    by (auto simp: find_Some_iff)
  from n(1,2) have k: "k = length (stmts blk) - Suc n" "st = stmts blk ! k" by (simp_all add: rev_nth nth_enumerate_eq)
  with n(1) show "k < length (stmts blk)" by simp
  from n(3) st(2) k(2) show "stmts blk ! k = S_Assign (P_Local l) rv" by (auto simp: assigns_local_iff)
  have "\<not> assigns_local l (stmts blk ! j)" if "k < j" "j < length (stmts blk)" for j
  proof -
    let ?j = "length (stmts blk) - Suc j"
    from that k(1) n(1) have j: "?j < n" "?j < length (stmts blk)" "length (stmts blk) - Suc ?j = j" by auto
    then have "rev (enumerate 0 (stmts blk)) ! ?j = (j, stmts blk ! j)" by (simp add: rev_nth nth_enumerate_eq)
    with n(4) j(1) show ?thesis by fastforce
  qed
  then show "\<not> list_ex (assigns_local l) (drop (Suc k) (stmts blk))" by (auto simp: list_ex_length)
qed

text \<open>What a recorded guard says.\<close>

definition guard_of :: "mir_function \<Rightarrow> block_id list list \<Rightarrow> guard \<Rightarrow> bool" where
  "guard_of f P g \<longleftrightarrow>
     g_guard g < length (fn_blocks f) \<and> site_block (g_cmp_site g) = g_guard g \<and>
     (\<exists>c t e op. term_of (fn_blocks f ! g_guard g) = T_If (O_Copy (P_Local c)) t e \<and> t \<noteq> e \<and>
        last_def_in (fn_blocks f ! g_guard g) c = Some (site_idx (g_cmp_site g), R_Binary op (g_lhs g) (g_rhs g)) \<and>
        comparison op \<noteq> None \<and>
        (g_target g = t \<and> g_op g = op \<or> g_target g = e \<and> g_op g = negate_cmp op)) \<and>
     P ! g_target g = [g_guard g]"

lemma guards_at_of:
  assumes "target < length P"
  shows "guards_at P bi lhs rhs cs (target, op) =
    Some (if P ! target = [bi] then [\<lparr>g_guard = bi, g_target = target, g_op = op, g_lhs = lhs, g_rhs = rhs, g_cmp_site = cs\<rparr>] else [])"
  using assms by (simp add: guards_at_def)

lemma block_guards_total:
  assumes "cfg_ok f" "length P = length (fn_blocks f)" "bi < length (fn_blocks f)"
  shows "\<exists>gs. block_guards P (bi, fn_blocks f ! bi) = Some gs \<and> (\<forall>g \<in> set gs. guard_of f P g)"
proof (cases "\<exists>c t e si op lhs rhs. term_of (fn_blocks f ! bi) = T_If (O_Copy (P_Local c)) t e \<and> t \<noteq> e \<and>
    last_def_in (fn_blocks f ! bi) c = Some (si, R_Binary op lhs rhs) \<and> comparison op \<noteq> None")
  case True
  then obtain c t e si op lhs rhs where
    T: "term_of (fn_blocks f ! bi) = T_If (O_Copy (P_Local c)) t e" "t \<noteq> e"
      "last_def_in (fn_blocks f ! bi) c = Some (si, R_Binary op lhs rhs)" "comparison op \<noteq> None" by blast
  then have op: "comparison op = Some op" by (auto simp: comparison_ops)
  have te: "t < length P" "e < length P" using cfg_ok_successor[OF assms(1,3)] T(1) assms(2) by auto
  show ?thesis using T op assms(3)
    by (auto simp: block_guards_def guards_at_of[OF te(1)] guards_at_of[OF te(2)] Let_def guard_of_def)
next
  case False
  then have "block_guards P (bi, fn_blocks f ! bi) = Some []"
    by (auto simp: block_guards_def split: terminator.splits operand.splits place.splits option.splits rvalue.splits)
  then show ?thesis by simp
qed

lemma collect_guards_total:
  assumes "cfg_ok f" "length P = length (fn_blocks f)"
  shows "\<exists>gs. collect_guards f P = Some gs \<and> (\<forall>g \<in> set gs. guard_of f P g)"
  unfolding collect_guards_def
proof (rule foldM_total)
  fix gs and p :: "nat \<times> basic_block"
  assume p: "p \<in> set (enumerate 0 (fn_blocks f))" and gs: "\<forall>g \<in> set gs. guard_of f P g"
  then obtain bi where bi: "bi < length (fn_blocks f)" "p = (bi, fn_blocks f ! bi)" by (auto simp: in_set_enumerate_eq)
  from block_guards_total[OF assms bi(1)] gs
  show "\<exists>t. map_option (\<lambda>g. gs @ g) (block_guards P p) = Some t \<and> (\<forall>g \<in> set t. guard_of f P g)" by (auto simp: bi(2))
qed simp

section \<open>The context\<close>

definition cx_ok :: "type_interner \<Rightarrow> nat \<Rightarrow> mir_function \<Rightarrow> overflow_cx \<Rightarrow> bool" where
  "cx_ok i p f cx \<longleftrightarrow>
     cx_ptr_size cx = p \<and> cx_func cx = f \<and> cx_interner cx = i \<and>
     length (cx_defs cx) = length (fn_locals f) \<and>
     (\<forall>l < length (fn_locals f). set (cx_defs cx ! l) = {x. (l, x) \<in> set (def_events f)}) \<and>
     length (cx_preds cx) = length (fn_blocks f) \<and>
     (\<forall>b < length (fn_blocks f). set (cx_preds cx ! b) = {a. cfg_edge f a b}) \<and>
     (\<forall>a b. b < length (fn_blocks f) \<longrightarrow>
        dominates (cx_dom cx) a b = Some (if b \<in> reachable f then doms (cfg_edge f) (fn_entry f) a b else a = b)) \<and>
     (\<forall>g \<in> set (cx_guards cx). guard_of f (cx_preds cx) g)"

lemma cx_okD:
  assumes "cx_ok i p f cx"
  shows "cx_ptr_size cx = p" "cx_func cx = f" "cx_interner cx = i" "length (cx_defs cx) = length (fn_locals f)"
    "l < length (fn_locals f) \<Longrightarrow> set (cx_defs cx ! l) = {x. (l, x) \<in> set (def_events f)}"
    "length (cx_preds cx) = length (fn_blocks f)"
    "b < length (fn_blocks f) \<Longrightarrow> set (cx_preds cx ! b) = {a. cfg_edge f a b}"
    "b < length (fn_blocks f) \<Longrightarrow>
       dominates (cx_dom cx) a b = Some (if b \<in> reachable f then doms (cfg_edge f) (fn_entry f) a b else a = b)"
    "g \<in> set (cx_guards cx) \<Longrightarrow> guard_of f (cx_preds cx) g"
  using assms by (simp_all add: cx_ok_def)

lemma answers_Some: "answers f q fresh \<Longrightarrow> fresh = Some r \<Longrightarrow> \<exists>a. q = Some (r, a) \<and> in_step a f"
  by (cases q) (auto simp: answers_def)

lemma overflow_cx_new_total:
  assumes "overflow_input i f" "in_step a f"
  shows "\<exists>cx a'. overflow_cx_new f i p a = Some (cx, a') \<and> cx_ok i p f cx \<and> in_step a' f"
proof -
  note f = overflow_inputD[OF assms(1)]
  from collect_defs_total[OF assms(1)] obtain defs where defs: "collect_defs f = Some defs" "length defs = length (fn_locals f)"
    "\<And>l. l < length (fn_locals f) \<Longrightarrow> set (defs ! l) = {x. (l, x) \<in> set (def_events f)}" by blast
  from dom_graph_cfg[OF f(1)] obtain P rpo where P: "predecessors f = Some P" "reverse_postorder f = Some rpo"
    "dom_graph (length (fn_blocks f)) (fn_entry f) P rpo" "pred_edge P = cfg_edge f" "set rpo = reachable f" by blast
  from dominator_tree_total[OF P(3) f(2)] obtain t where t: "dominator_tree (length (fn_blocks f)) (fn_entry f) P rpo = Some t"
    "\<And>a b. b < length (fn_blocks f) \<Longrightarrow> dominates t a b = Some (if b \<in> reachable f then doms (cfg_edge f) (fn_entry f) a b else a = b)"
    unfolding P(4,5) by blast
  from answers_Some[OF query_predecessors_answers[OF assms(2)] P(1)] obtain a1 where
    a1: "query_predecessors a f = Some (P, a1)" "in_step a1 f" by blast
  have "fresh_dominators f = Some t" using P(1,2) t(1) by (simp add: fresh_dominators_def dom_compute_def)
  from answers_Some[OF query_dominators_answers[OF a1(2)] this] obtain a2 where
    a2: "query_dominators a1 f = Some (t, a2)" "in_step a2 f" by blast
  from predecessors_total[OF f(1)] P(1) have len: "length P = length (fn_blocks f)"
    "\<forall>b < length (fn_blocks f). set (P ! b) = {a. cfg_edge f a b}" by auto
  from collect_guards_total[OF f(1) len(1)] obtain gs where gs: "collect_guards f P = Some gs" "\<forall>g \<in> set gs. guard_of f P g" by blast
  let ?cx = "\<lparr>cx_ptr_size = p, cx_func = f, cx_interner = i, cx_defs = defs, cx_preds = P, cx_dom = t, cx_guards = gs\<rparr>"
  have "overflow_cx_new f i p a = Some (?cx, a2)" using defs(1) a1(1) a2(1) gs(1) by (simp add: overflow_cx_new_def)
  moreover have "cx_ok i p f ?cx" using defs(2,3) len t(2) gs(2) by (simp add: cx_ok_def)
  ultimately show ?thesis using a2(2) by blast
qed

section \<open>A guard that holds has been taken\<close>

definition clean :: "mir_function \<Rightarrow> guard \<Rightarrow> local \<Rightarrow> nat set \<Rightarrow> bool" where
  "clean f g l C \<longleftrightarrow>
     (\<forall>b \<in> C. b \<noteq> g_guard g \<and> \<not> redefines_block l (fn_blocks f ! b) \<and>
        (b = g_target g \<or> (\<forall>p. cfg_edge f p b \<longrightarrow> p \<in> C)))"

definition marked :: "bool list \<Rightarrow> nat set" where
  "marked visited = {b. b < length visited \<and> visited ! b}"

lemma marked_mark: "b < length visited \<Longrightarrow> marked (visited[b := True]) = insert b (marked visited)"
  by (auto simp: marked_def nth_list_update split: if_splits)

lemma walk_back_clean:
  assumes "cx_ok i p f cx" "length visited = length (fn_blocks f)" "\<forall>b \<in> set stack. b < length (fn_blocks f)"
    and "\<forall>b \<in> marked visited. b \<noteq> g_guard g \<and> \<not> redefines_block l (fn_blocks f ! b) \<and>
      (b = g_target g \<or> (\<forall>p. cfg_edge f p b \<longrightarrow> p \<in> marked visited \<union> set stack))"
  shows "\<exists>r. walk_back cx g l visited stack = Some r \<and>
    (r \<longrightarrow> (\<exists>C. clean f g l C \<and> marked visited \<union> set stack \<subseteq> C))"
  using assms
proof (induction cx g l visited stack rule: walk_back.induct)
  case (1 cx g l visited stack)
  note cx = cx_okD[OF "1.prems"(1)]
  show ?case
  proof (cases stack)
    case Nil
    with "1.prems"(4) have "clean f g l (marked visited)" by (simp add: clean_def)
    with Nil show ?thesis by (subst walk_back.simps) auto
  next
    case (Cons b rest)
    with "1.prems"(2,3) have b: "b < length visited" "b < length (fn_blocks f)" by auto
    let ?blk = "fn_blocks f ! b"
    have blk: "block (cx_func cx) b = Some ?blk" using b(2) cx(2) by (simp add: block_Some_iff)
    show ?thesis
    proof (cases "visited ! b")
      case True
      then have m: "marked visited \<union> set stack = marked visited \<union> set rest" using Cons b(1) by (auto simp: marked_def)
      have "walk_back cx g l visited stack = walk_back cx g l visited rest"
        using Cons b(1) True by (subst walk_back.simps) simp
      moreover have "\<exists>r. walk_back cx g l visited rest = Some r \<and> (r \<longrightarrow> (\<exists>C. clean f g l C \<and> marked visited \<union> set rest \<subseteq> C))"
      proof (rule "1.IH"(1)[OF Cons _ True "1.prems"(1,2)])
        show "\<not> length visited \<le> b" using b(1) by simp
        show "\<forall>c \<in> marked visited. c \<noteq> g_guard g \<and> \<not> redefines_block l (fn_blocks f ! c) \<and>
            (c = g_target g \<or> (\<forall>p. cfg_edge f p c \<longrightarrow> p \<in> marked visited \<union> set rest))"
          using "1.prems"(4) unfolding m .
      qed (use "1.prems"(3) Cons in simp)
      ultimately show ?thesis unfolding m by simp
    next
      case new: False
      show ?thesis
      proof (cases "b = g_guard g \<or> redefines_block l ?blk")
        case True
        then have "walk_back cx g l visited stack = Some False" using Cons b(1) new blk by (subst walk_back.simps) simp
        then show ?thesis by (intro exI[of _ False]) simp
      next
        case ok: False
        let ?v = "visited[b := True]"
        show ?thesis
        proof (cases "b = g_target g")
          case True
          have e: "walk_back cx g l visited stack = walk_back cx g l ?v rest"
            using Cons b(1) new blk ok True by (subst walk_back.simps) simp
          have m: "marked visited \<union> set stack = marked ?v \<union> set rest" using Cons b(1) by (auto simp: marked_mark)
          have "\<exists>r. walk_back cx g l ?v rest = Some r \<and> (r \<longrightarrow> (\<exists>C. clean f g l C \<and> marked ?v \<union> set rest \<subseteq> C))"
          proof (rule "1.IH"(2)[OF Cons _ new blk ok True "1.prems"(1)])
            show "\<not> length visited \<le> b" using b(1) by simp
            show "\<forall>c \<in> marked ?v. c \<noteq> g_guard g \<and> \<not> redefines_block l (fn_blocks f ! c) \<and>
                (c = g_target g \<or> (\<forall>p. cfg_edge f p c \<longrightarrow> p \<in> marked ?v \<union> set rest))"
            proof
              fix c assume "c \<in> marked ?v"
              then consider "c = b" | "c \<in> marked visited" unfolding marked_mark[OF b(1)] by blast
              then show "c \<noteq> g_guard g \<and> \<not> redefines_block l (fn_blocks f ! c) \<and>
                  (c = g_target g \<or> (\<forall>p. cfg_edge f p c \<longrightarrow> p \<in> marked ?v \<union> set rest))"
              proof cases
                case 1
                with ok True show ?thesis by simp
              next
                case 2
                with "1.prems"(4) show ?thesis unfolding m by blast
              qed
            qed
          qed (use "1.prems"(2,3) Cons in simp_all)
          then show ?thesis unfolding e m .
        next
          case False
          let ?ps = "cx_preds cx ! b"
          have ps: "nth_opt (cx_preds cx) b = Some ?ps" "set ?ps = {a. cfg_edge f a b}" using b(2) cx(6,7) by simp_all
          have e: "walk_back cx g l visited stack = walk_back cx g l ?v (rev ?ps @ rest)"
            using Cons b(1) new blk ok False ps(1) by (subst walk_back.simps) simp
          have m: "marked visited \<union> set stack \<union> {a. cfg_edge f a b} = marked ?v \<union> set (rev ?ps @ rest)"
            using Cons b(1) ps(2) by (auto simp: marked_mark)
          have "\<exists>r. walk_back cx g l ?v (rev ?ps @ rest) = Some r \<and>
              (r \<longrightarrow> (\<exists>C. clean f g l C \<and> marked ?v \<union> set (rev ?ps @ rest) \<subseteq> C))"
          proof (rule "1.IH"(3)[OF Cons _ new blk ok False ps(1) "1.prems"(1)])
            show "\<not> length visited \<le> b" using b(1) by simp
            show "\<forall>c \<in> set (rev ?ps @ rest). c < length (fn_blocks f)" using "1.prems"(3) Cons ps(2) by (auto simp: cfg_edge_def)
            show "\<forall>c \<in> marked ?v. c \<noteq> g_guard g \<and> \<not> redefines_block l (fn_blocks f ! c) \<and>
                (c = g_target g \<or> (\<forall>p. cfg_edge f p c \<longrightarrow> p \<in> marked ?v \<union> set (rev ?ps @ rest)))"
            proof
              fix c assume "c \<in> marked ?v"
              then consider "c = b" | "c \<in> marked visited" unfolding marked_mark[OF b(1)] by blast
              then show "c \<noteq> g_guard g \<and> \<not> redefines_block l (fn_blocks f ! c) \<and>
                  (c = g_target g \<or> (\<forall>p. cfg_edge f p c \<longrightarrow> p \<in> marked ?v \<union> set (rev ?ps @ rest)))"
              proof cases
                case 1
                with ok ps(2) show ?thesis by simp
              next
                case 2
                with "1.prems"(4) show ?thesis unfolding m[symmetric] by blast
              qed
            qed
          qed (use "1.prems"(2) in simp)
          then show ?thesis unfolding e m[symmetric] by blast
        qed
      qed
    qed
  qed
qed

text \<open>What the pass has checked when a guard holds at a site.\<close>

definition guard_clear :: "mir_function \<Rightarrow> guard \<Rightarrow> local \<Rightarrow> site \<Rightarrow> bool" where
  "guard_clear f g l u \<longleftrightarrow>
     \<not> list_ex (assigns_local l) (drop (Suc (site_idx (g_cmp_site g))) (stmts (fn_blocks f ! g_guard g))) \<and>
     \<not> list_ex (assigns_local l) (take (site_idx u) (stmts (fn_blocks f ! site_block u))) \<and>
     (site_block u = g_target g \<or> (\<exists>C. clean f g l C \<and> (\<forall>p. cfg_edge f p (site_block u) \<longrightarrow> p \<in> C))) \<and>
     (site_block u \<in> reachable f \<longrightarrow> doms (cfg_edge f) (fn_entry f) (g_target g) (site_block u))"

lemma guard_holds_clear:
  assumes "cx_ok i p f cx" "guard_of f (cx_preds cx) g" "site_block u < length (fn_blocks f)"
  shows "\<exists>r. guard_holds cx g l u = Some r \<and> (r \<longrightarrow> guard_clear f g l u)"
proof -
  note cx = cx_okD[OF assms(1)]
  let ?ub = "site_block u"
  have g: "block f (g_guard g) = Some (fn_blocks f ! g_guard g)" using assms(2) by (simp add: guard_of_def block_Some_iff)
  have ub: "block f ?ub = Some (fn_blocks f ! ?ub)" using assms(3) by (simp add: block_Some_iff)
  have ps: "nth_opt (cx_preds cx) ?ub = Some (cx_preds cx ! ?ub)" "set (cx_preds cx ! ?ub) = {a. cfg_edge f a ?ub}"
    using assms(3) cx(6,7) by simp_all
  let ?d = "if ?ub \<in> reachable f then doms (cfg_edge f) (fn_entry f) (g_target g) ?ub else g_target g = ?ub"
  have dom: "dominates (cx_dom cx) (g_target g) ?ub = Some ?d" by (rule cx(8)[OF assms(3)])
  let ?v = "replicate (length (fn_blocks f)) False"
  have none: "marked ?v = {}" by (auto simp: marked_def)
  have "\<exists>r. walk_back cx g l ?v (rev (cx_preds cx ! ?ub)) = Some r \<and>
      (r \<longrightarrow> (\<exists>C. clean f g l C \<and> marked ?v \<union> set (rev (cx_preds cx ! ?ub)) \<subseteq> C))"
  proof (rule walk_back_clean[OF assms(1)])
    show "\<forall>b \<in> set (rev (cx_preds cx ! ?ub)). b < length (fn_blocks f)" using ps(2) by (simp add: cfg_edge_def)
    show "\<forall>b \<in> marked ?v. b \<noteq> g_guard g \<and> \<not> redefines_block l (fn_blocks f ! b) \<and>
        (b = g_target g \<or> (\<forall>p. cfg_edge f p b \<longrightarrow> p \<in> marked ?v \<union> set (rev (cx_preds cx ! ?ub))))"
      by (simp add: none)
  qed simp
  then obtain r where r: "walk_back cx g l ?v (rev (cx_preds cx ! ?ub)) = Some r"
    "r \<longrightarrow> (\<exists>C. clean f g l C \<and> {a. cfg_edge f a ?ub} \<subseteq> C)" unfolding none set_rev ps(2) Un_empty_left by blast
  let ?a = "list_ex (assigns_local l) (drop (Suc (site_idx (g_cmp_site g))) (stmts (fn_blocks f ! g_guard g)))"
  let ?b = "list_ex (assigns_local l) (take (site_idx u) (stmts (fn_blocks f ! ?ub)))"
  have e: "guard_holds cx g l u = Some (\<not> ?a \<and> ?d \<and> \<not> ?b \<and> (?ub = g_target g \<or> r))"
    by (simp add: guard_holds_def cx(2) g ub dom ps(1) r(1))
  have "guard_clear f g l u" if "\<not> ?a \<and> ?d \<and> \<not> ?b \<and> (?ub = g_target g \<or> r)"
  proof -
    have "?ub = g_target g \<or> (\<exists>C. clean f g l C \<and> (\<forall>p. cfg_edge f p ?ub \<longrightarrow> p \<in> C))" using that r(2) by blast
    with that show ?thesis unfolding guard_clear_def by (simp split: if_splits)
  qed
  with e show ?thesis by blast
qed

text \<open>The conditions of branches are registers that hold no number.\<close>

definition conditions_ok :: "(local \<Rightarrow> int_ty option) \<Rightarrow> ('v, 'h) machine \<Rightarrow> mir_function \<Rightarrow> bool" where
  "conditions_ok tys m f \<longleftrightarrow>
     (\<forall>b < length (fn_blocks f). \<forall>c t e. term_of (fn_blocks f ! b) = T_If (O_Copy (P_Local c)) t e \<longrightarrow>
        tys c = None \<and> \<not> m_is_value m c)"

text \<open>The local still has the value it had when the guard's comparison came out in its favour.\<close>

definition taken :: "('v, 'h) machine \<Rightarrow> mir_function \<Rightarrow> guard \<Rightarrow> local \<Rightarrow> ('v, 'h) state \<Rightarrow> bool" where
  "taken m f g l s \<longleftrightarrow>
     (\<exists>s0 u x y op c v h. trace m f ((g_guard g, site_idx (g_cmp_site g), s0) # u) \<and> loc s l = loc s0 l \<and>
        stmts (fn_blocks f ! g_guard g) ! site_idx (g_cmp_site g) = S_Assign (P_Local c) (R_Binary op (g_lhs g) (g_rhs g)) \<and>
        site_idx (g_cmp_site g) < length (stmts (fn_blocks f ! g_guard g)) \<and>
        eval_operand m s0 (g_lhs g) = Some x \<and> eval_operand m s0 (g_rhs g) = Some y \<and> comparison op \<noteq> None \<and>
        m_rvalue m (P_Local c) (R_Binary op (g_lhs g) (g_rhs g)) [x, y] (heap s0) = Ok v h \<and>
        g_op g = (if m_truth m v then op else negate_cmp op))"

lemma taken_keeps: "taken m f g l s \<Longrightarrow> loc s' l = loc s l \<Longrightarrow> taken m f g l s'"
  by (simp add: taken_def)

lemma eval_comparison:
  assumes "eval_rvalue m (P_Local c) (R_Binary op a b) s = Ok v h" "comparison op \<noteq> None"
  shows "\<exists>x y. eval_operand m s a = Some x \<and> eval_operand m s b = Some y \<and> m_rvalue m (P_Local c) (R_Binary op a b) [x, y] (heap s) = Ok v h"
proof -
  have "rvalue_key (R_Binary op a b) = R_Binary op a b" using assms(2)
    by (auto simp: rvalue_key_def operand_typed_def is_comparison_def comparison_def split: if_splits)
  with assms(1) show ?thesis
    by (auto simp: eval_rvalue_def erase_place_def rvalue_locals_def bind_Some_iff split: option.splits)
qed

lemma guard_edge:
  assumes "guard_of f P g" "set (P ! g_target g) = {a. cfg_edge f a (g_target g)}"
  shows "cfg_edge f b (g_target g) \<longleftrightarrow> b = g_guard g"
proof -
  have "P ! g_target g = [g_guard g]" using assms(1) by (simp add: guard_of_def)
  with assms(2) have "{g_guard g} = {a. cfg_edge f a (g_target g)}" by simp
  then show ?thesis by blast
qed

lemma guard_taken:
  assumes g: "guard_of f P g" and edge: "\<And>b. cfg_edge f b (g_target g) \<longleftrightarrow> b = g_guard g"
    and l: "tys l \<noteq> None" and c: "conditions_ok tys m f"
    and clear: "\<not> list_ex (assigns_local l) (drop (Suc (site_idx (g_cmp_site g))) (stmts (fn_blocks f ! g_guard g)))"
    and t: "trace m f ((b, j, s) # t)" "b < length (fn_blocks f)" "j = length (stmts (fn_blocks f ! b))"
      "exec_term m (term_of (fn_blocks f ! b)) s = Jump (g_target g) s'"
  shows "taken m f g l s'"
proof -
  let ?G = "g_guard g" and ?k = "site_idx (g_cmp_site g)"
  let ?ss = "stmts (fn_blocks f ! ?G)"
  have "cfg_edge f b (g_target g)" using exec_term_Jump[OF t(4)] t(2) by (simp add: cfg_edge_def)
  with edge have b: "b = ?G" by blast
  from g obtain d p q op where G: "term_of (fn_blocks f ! ?G) = T_If (O_Copy (P_Local d)) p q" "p \<noteq> q"
      "last_def_in (fn_blocks f ! ?G) d = Some (?k, R_Binary op (g_lhs g) (g_rhs g))" "comparison op \<noteq> None"
      "g_target g = p \<and> g_op g = op \<or> g_target g = q \<and> g_op g = negate_cmp op" "?G < length (fn_blocks f)"
    by (auto simp: guard_of_def)
  note last = last_def_in_Some[OF G(3)]
  from c G(1,6) have d: "tys d = None" "\<not> m_is_value m d" by (auto simp: conditions_ok_def)
  with l have dl: "d \<noteq> l" by auto
  from t(4) b G(1) have s': "s' = s" "g_target g = (if m_truth m (loc s d) then p else q)" by (auto simp: exec_term_def)
  have "?k \<le> j" using last(1) t(3) b by simp
  from trace_earlier[OF t(1) this] obtain s0 u where s0: "trace m f ((?G, ?k, s0) # u)"
    "exec_stmts m (drop ?k ?ss) s0 = Next s" unfolding b using t(3) b by auto
  have "drop ?k ?ss = S_Assign (P_Local d) (R_Binary op (g_lhs g) (g_rhs g)) # drop (Suc ?k) ?ss"
    using Cons_nth_drop_Suc[OF last(1)] last(2) by simp
  with s0(2) obtain s1 where s1: "exec_stmt m (S_Assign (P_Local d) (R_Binary op (g_lhs g) (g_rhs g))) s0 = Next s1"
    "exec_stmts m (drop (Suc ?k) ?ss) s1 = Next s" by (auto split: res.splits)
  from exec_stmt_assigns[OF s1(1) d(2)] obtain v h where v: "eval_rvalue m (P_Local d) (R_Binary op (g_lhs g) (g_rhs g)) s0 = Ok v h"
    "s1 = s0\<lparr>loc := (loc s0)(d := v), heap := h\<rparr>" by blast
  have "loc s d = v" using exec_stmts_keeps[OF s1(2) last(3)] v(2) by simp
  moreover have "loc s l = loc s0 l" using exec_stmts_keeps[OF s1(2) clear] v(2) dl by simp
  moreover from eval_comparison[OF v(1) G(4)] obtain x y where "eval_operand m s0 (g_lhs g) = Some x" "eval_operand m s0 (g_rhs g) = Some y"
    "m_rvalue m (P_Local d) (R_Binary op (g_lhs g) (g_rhs g)) [x, y] (heap s0) = Ok v h" by blast
  moreover have "g_op g = (if m_truth m (loc s d) then op else negate_cmp op)" using s'(2) G(2,5) by (auto split: if_splits)
  ultimately show ?thesis unfolding taken_def s'(1) using s0(1) last(1,2) G(4)
    by (intro exI[of _ s0] exI[of _ u] exI[of _ x] exI[of _ y] exI[of _ op] exI[of _ d] exI[of _ v] exI[of _ h]) simp
qed

text \<open>The blocks from which a use is reached without passing the target again.\<close>

inductive leads_to :: "mir_function \<Rightarrow> block_id \<Rightarrow> block_id \<Rightarrow> block_id \<Rightarrow> bool" for f target u where
  leads_last: "u \<noteq> target \<Longrightarrow> cfg_edge f b u \<Longrightarrow> leads_to f target u b"
| leads_step: "leads_to f target u b \<Longrightarrow> b \<noteq> target \<Longrightarrow> cfg_edge f a b \<Longrightarrow> leads_to f target u a"

lemma leads_to_ne: "leads_to f target u b \<Longrightarrow> u \<noteq> target"
  by (induction rule: leads_to.induct) simp_all

lemma leads_to_clean:
  assumes "leads_to f (g_target g) u b" "clean f g l C" "\<forall>p. cfg_edge f p u \<longrightarrow> p \<in> C"
  shows "b \<in> C"
  using assms by (induction rule: leads_to.induct) (auto simp: clean_def)

lemma leads_to_doms:
  assumes "leads_to f target u b" "b \<in> reachable f" "u \<in> reachable f \<Longrightarrow> doms (cfg_edge f) (fn_entry f) target u"
  shows "doms (cfg_edge f) (fn_entry f) target b"
  using assms(1,2)
proof (induction rule: leads_to.induct)
  case (leads_last b)
  then have "u \<in> reachable f" by (auto intro: reachable_edge)
  from assms(3)[OF this] leads_last show ?case by (auto intro: doms_pred simp: reachable_def)
next
  case (leads_step b a)
  then have "b \<in> reachable f" by (auto intro: reachable_edge)
  with leads_step show ?case by (auto intro: doms_pred simp: reachable_def)
qed

lemma guard_clear_taken:
  assumes f: "cfg_ok f" "\<nexists>p. cfg_edge f p (fn_entry f)"
    and g: "guard_of f P g" "\<And>b. cfg_edge f b (g_target g) \<longleftrightarrow> b = g_guard g"
    and l: "tys l \<noteq> None" and c: "conditions_ok tys m f" and clear: "guard_clear f g l u"
    and t: "trace m f ((b, j, s) # t)"
      "b = g_target g \<or> b = site_block u \<or> leads_to f (g_target g) (site_block u) b"
      "\<not> list_ex (assigns_local l) (take j (stmts (fn_blocks f ! b)))"
  shows "taken m f g l s"
  using t
proof (induction "(b, j, s) # t" arbitrary: b j s t rule: trace.induct)
  case (trace_start s)
  have "g_target g \<noteq> fn_entry f" using f(2) g(2) by auto
  moreover have "doms (cfg_edge f) (fn_entry f) (g_target g) (fn_entry f)" if "fn_entry f = site_block u"
    using clear that by (simp add: guard_clear_def) (metis reachable_entry)
  moreover have "doms (cfg_edge f) (fn_entry f) (g_target g) (fn_entry f)" if "leads_to f (g_target g) (site_block u) (fn_entry f)"
    using leads_to_doms[OF that reachable_entry] clear by (simp add: guard_clear_def)
  ultimately show ?case using trace_start doms_root[of "cfg_edge f" "fn_entry f" "g_target g"] by auto
next
  case (trace_stmt b j s t blk s')
  from trace_stmt.hyps(3) have blk: "fn_blocks f ! b = blk" by (simp add: block_Some_iff)
  from trace_stmt.prems(2) trace_stmt.hyps(4) have "\<not> list_ex (assigns_local l) (take j (stmts blk))" "\<not> assigns_local l (stmts blk ! j)"
    by (simp_all add: take_Suc_conv_app_nth blk)
  with trace_stmt.hyps(2)[OF trace_stmt.prems(1)] exec_stmt_keeps[OF trace_stmt.hyps(5)] show ?case
    unfolding blk by (blast intro: taken_keeps)
next
  case (trace_jump b j s t blk b' s')
  from trace_jump.hyps(3) have blk: "fn_blocks f ! b = blk" "b < length (fn_blocks f)" by (simp_all add: block_Some_iff)
  have edge: "cfg_edge f b b'" using exec_term_Jump[OF trace_jump.hyps(5)] blk by (simp add: cfg_edge_def)
  show ?case
  proof (cases "b' = g_target g")
    case True
    from clear have "\<not> list_ex (assigns_local l) (drop (Suc (site_idx (g_cmp_site g))) (stmts (fn_blocks f ! g_guard g)))"
      by (simp add: guard_clear_def)
    from guard_taken[OF g l c this trace_jump.hyps(1) blk(2)] trace_jump.hyps(4,5) True blk(1) show ?thesis by simp
  next
    case False
    with trace_jump.prems(1) edge have lead: "leads_to f (g_target g) (site_block u) b"
      by (auto intro: leads_to.intros)
    from False trace_jump.prems(1) have "site_block u \<noteq> g_target g"
      using leads_to_ne by blast
    with clear obtain C where C: "clean f g l C" "\<forall>p. cfg_edge f p (site_block u) \<longrightarrow> p \<in> C" by (auto simp: guard_clear_def)
    from leads_to_clean[OF lead C] C(1) have "\<not> redefines_block l (fn_blocks f ! b)" by (simp add: clean_def)
    then have "\<not> redefines_block l blk" unfolding blk(1) .
    then have r: "\<not> list_ex (assigns_local l) (stmts blk)" "awaits_into (term_of blk) \<noteq> Some l" by (auto simp: redefines_block_def)
    then have "\<not> list_ex (assigns_local l) (take j (stmts (fn_blocks f ! b)))" using trace_jump.hyps(4) by (simp add: blk(1))
    with trace_jump.hyps(2) lead have "taken m f g l s" by blast
    with exec_term_keeps[OF trace_jump.hyps(5) r(2)] show ?thesis by (blast intro: taken_keeps)
  qed
qed

section \<open>The ranges are sound\<close>

text \<open>The integer code of a function is typed.\<close>

definition typed_function ::
  "type_interner \<Rightarrow> nat \<Rightarrow> (local \<Rightarrow> int_ty option) \<Rightarrow> ('v, 'h) machine \<Rightarrow> mir_function \<Rightarrow> bool" where
  "typed_function i p tys m f \<longleftrightarrow>
     dest_types i p f tys \<and> conditions_ok tys m f \<and>
     (\<forall>b < length (fn_blocks f). \<forall>j < length (stmts (fn_blocks f ! b)). \<forall>d rv.
        stmts (fn_blocks f ! b) ! j = S_Assign (P_Local d) rv \<longrightarrow>
          typed_comparison tys rv \<and> (\<forall>ty. tys d = Some ty \<longrightarrow> typed_rvalue i p tys ty rv))"

definition lr_sound ::
  "(int_ty \<Rightarrow> 'v \<Rightarrow> int) \<Rightarrow> (local \<Rightarrow> int_ty option) \<Rightarrow> (local \<Rightarrow> int_ty \<Rightarrow> site \<Rightarrow> range option) \<Rightarrow> site \<Rightarrow> ('v, 'h) state \<Rightarrow> bool" where
  "lr_sound num tys lr u s \<longleftrightarrow> (\<forall>l ty r. tys l = Some ty \<longrightarrow> lr l ty u = Some r \<longrightarrow> contains r (num ty (loc s l)))"

text \<open>Sound wherever an execution gets.\<close>

definition lr_sound_all ::
  "(int_ty \<Rightarrow> 'v \<Rightarrow> int) \<Rightarrow> ('v, 'h) machine \<Rightarrow> (local \<Rightarrow> int_ty option) \<Rightarrow> mir_function \<Rightarrow>
    (local \<Rightarrow> int_ty \<Rightarrow> site \<Rightarrow> range option) \<Rightarrow> bool" where
  "lr_sound_all num m tys f lr \<longleftrightarrow>
     (\<forall>b j s t. trace m f ((b, j, s) # t) \<longrightarrow> lr_sound num tys lr \<lparr>site_block = b, site_idx = j\<rparr> s)"

lemma local_int_ty:
  assumes "cx_ok i p f cx" "dest_types i p f tys" "local_ty (cx_func cx) l = Some t" "int_ty_of (cx_interner cx) t (cx_ptr_size cx) = Some it"
  shows "it = tys l"
  using assms cx_okD[OF assms(1)] by (auto simp: local_ty_def dest_types_def nth_opt_Some_iff)

context int_machine
begin

lemma operand_range_sound:
  assumes cx: "cx_ok i ptr_size f cx" "dest_types i ptr_size f tys"
    and a: "typed_operand tys a ty" "eval_operand m s a = Some x"
    and lr: "lr_sound num tys lr u s" and r: "operand_range cx lr a ty u = Some r"
  shows "contains r (num ty x)"
proof (cases a)
  case (O_Const c)
  with a(2) have x: "x = m_const m c" by simp
  show ?thesis
    using O_Const a(1) r num_int[of _ ty] num_long[of _ ty] num_char[of ty] num_fits[of ty x]
    by (cases c) (auto simp: x operand_range_def typed_operand_def contains_def[of "(_, _)"])
next
  case (O_Copy pl)
  show ?thesis
  proof (cases "\<exists>l. pl = P_Local l")
    case True
    then obtain l where l: "a = var l" using O_Copy by blast
    with r obtain t it where t: "local_ty (cx_func cx) l = Some t" "int_ty_of (cx_interner cx) t (cx_ptr_size cx) = Some it"
      "(case it of Some lty \<Rightarrow> lr l lty u | None \<Rightarrow> Some (full ty)) = Some r"
      by (auto simp: operand_range_def bind_Some_iff)
    from local_int_ty[OF cx t(1,2)] have it: "it = tys l" .
    from a(2) l have x: "x = loc s l" by simp
    show ?thesis
    proof (cases "tys l")
      case None
      with t(3) it num_fits show ?thesis by auto
    next
      case (Some lty)
      with a(1) l have "lty = ty" by (simp add: typed_operand_def)
      with lr[unfolded lr_sound_def, rule_format, of l ty r] t(3) it Some x show ?thesis by simp
    qed
  next
    case False
    then have "r = full ty" using r O_Copy by (auto simp: operand_range_def split: place.splits)
    with num_fits show ?thesis by simp
  qed
qed

lemma contains_filtered:
  assumes "within r ty \<Longrightarrow> contains r (num ty v)"
  shows "contains (if within r ty then r else full ty) (num ty v)"
  using assms num_fits by simp

lemma eval_rvalue_unary:
  assumes "eval_rvalue m pl rv s = Ok v h" "rvalue_operands rv = [a]" "rvalue_locals rv = []" "\<forall>o1. rv \<noteq> R_Use o1"
  shows "\<exists>x. eval_operand m s a = Some x \<and> m_rvalue m (erase_place pl) (rvalue_key rv) [x] (heap s) = Ok v h"
  using assms by (cases rv) (auto simp: eval_rvalue_def bind_Some_iff split: option.splits)

lemma eval_rvalue_binary:
  assumes "eval_rvalue m pl rv s = Ok v h" "rv = R_Binary op a b \<or> rv = R_CheckedBinary op a b"
  shows "\<exists>x y. eval_operand m s a = Some x \<and> eval_operand m s b = Some y \<and>
    m_rvalue m (erase_place pl) (rvalue_key rv) [x, y] (heap s) = Ok v h"
  using assms by (auto simp: eval_rvalue_def rvalue_locals_def bind_Some_iff split: option.splits)

lemma erase_local [simp]: "erase_place (P_Local l) = P_Local l"
  by (simp add: erase_place_def)

lemma rvalue_range_sound:
  assumes cx: "cx_ok i ptr_size f cx" "dest_types i ptr_size f tys"
    and d: "tys d = Some ty" and rv: "typed_rvalue i ptr_size tys ty rv" "eval_rvalue m (P_Local d) rv s = Ok v h"
    and lr: "lr_sound num tys lr u s" and r: "rvalue_range cx lr rv ty u = Some r"
  shows "contains r (num ty v)"
proof -
  note op = operand_range_sound[OF cx _ _ lr]
  have unbounded: "full ty = r \<Longrightarrow> contains r (num ty v)" using num_fits by auto
  have len: "contains r (num ty v)" if "rv \<in> {R_ArrayLen a, R_StrLen a, R_StrByteSize a}" for a
  proof -
    from that rv(2) obtain x where "m_rvalue m (P_Local d) (rvalue_key rv) [x] (heap s) = Ok v h"
      using eval_rvalue_unary[OF rv(2), of a] by (auto simp: rvalue_locals_def)
    with lengths[OF d that] have "0 \<le> num ty v \<and> num ty v \<le> it_max IT_Int" by blast
    with that r show ?thesis by (auto simp: rvalue_range_def contains_def)
  qed
  show ?thesis
  proof (cases rv)
    case (R_Use a)
    with rv(2) have "eval_operand m s a = Some v" by (auto simp: eval_rvalue_def bind_Some_iff split: option.splits)
    with op[of a ty v r] R_Use rv(1) r show ?thesis by (simp add: typed_rvalue_def rvalue_range_def)
  next
    case (R_Select c a b)
    with rv(2) obtain x y where e: "eval_operand m s a = Some x" "eval_operand m s b = Some y" "v = x \<or> v = y"
      by (auto simp: eval_rvalue_def bind_Some_iff split: option.splits if_splits)
    from R_Select r obtain ra rb where ra: "operand_range cx lr a ty u = Some ra" "operand_range cx lr b ty u = Some rb"
      "r = (min (fst ra) (fst rb), max (snd ra) (snd rb))" by (auto simp: rvalue_range_def bind_Some_iff)
    from op[OF _ e(1) ra(1)] op[OF _ e(2) ra(2)] R_Select rv(1) have "contains ra (num ty x)" "contains rb (num ty y)"
      by (simp_all add: typed_rvalue_def)
    with e(3) ra(3) show ?thesis by (auto simp: contains_def)
  next
    case (R_Binary bop a b)
    with eval_rvalue_binary[OF rv(2)] obtain x y where e: "eval_operand m s a = Some x" "eval_operand m s b = Some y"
      "m_rvalue m (P_Local d) (rvalue_key (R_Binary bop a b)) [x, y] (heap s) = Ok v h" by auto
    from R_Binary r obtain ra rb where ra: "operand_range cx lr a ty u = Some ra" "operand_range cx lr b ty u = Some rb"
      "r = (case bitwise_range bop ra rb ty of Some r \<Rightarrow> r
            | None \<Rightarrow> (case arith bop ra rb of Some r \<Rightarrow> if within r ty then r else full ty | None \<Rightarrow> full ty))"
      by (auto simp: rvalue_range_def bind_Some_iff Let_def)
    from op[OF _ e(1) ra(1)] op[OF _ e(2) ra(2)] R_Binary rv(1) have in_range: "contains ra (num ty x)" "contains rb (num ty y)"
      by (simp_all add: typed_rvalue_def)
    from plain_range[OF d e(3) in_range] num_fits ra(3) show ?thesis by (auto split: option.splits if_splits)
  next
    case (R_CheckedBinary bop a b)
    with eval_rvalue_binary[OF rv(2)] obtain x y where e: "eval_operand m s a = Some x" "eval_operand m s b = Some y"
      "m_rvalue m (P_Local d) (rvalue_key (R_CheckedBinary bop a b)) [x, y] (heap s) = Ok v h" by auto
    from R_CheckedBinary r obtain ra rb where ra: "operand_range cx lr a ty u = Some ra" "operand_range cx lr b ty u = Some rb"
      "r = (case bitwise_range bop ra rb ty of Some r \<Rightarrow> r
            | None \<Rightarrow> (case arith bop ra rb of Some r \<Rightarrow> range_meet r (full ty) | None \<Rightarrow> full ty))"
      by (auto simp: rvalue_range_def bind_Some_iff Let_def)
    from R_CheckedBinary rv(1) have bop: "bop \<in> checked_ops" by (simp add: typed_rvalue_def)
    from op[OF _ e(1) ra(1)] op[OF _ e(2) ra(2)] R_CheckedBinary rv(1) have in_range: "contains ra (num ty x)" "contains rb (num ty y)"
      by (simp_all add: typed_rvalue_def)
    from checked_range[OF d bop e(3) in_range] num_fits ra(3) show ?thesis by (auto split: option.splits)
  next
    case (R_Unary uop a)
    show ?thesis
    proof (cases "uop = U_Neg")
      case True
      with R_Unary eval_rvalue_unary[OF rv(2), of a] obtain x where e: "eval_operand m s a = Some x"
        "m_rvalue m (P_Local d) (rvalue_key (R_Unary U_Neg a)) [x] (heap s) = Ok v h" by (auto simp: rvalue_locals_def)
      from R_Unary True r obtain ra where ra: "operand_range cx lr a ty u = Some ra"
        "r = (if within (- snd ra, - fst ra) ty then (- snd ra, - fst ra) else full ty)" by (auto simp: rvalue_range_def Let_def)
      from op[OF _ e(1) ra(1)] R_Unary rv(1) have "contains ra (num ty x)" by (simp add: typed_rvalue_def)
      from contains_neg[OF this] contains_within neg[OF d e(2)] num_fits ra(2) show ?thesis by auto
    next
      case False
      with R_Unary r have "r = full ty" by (cases uop) (simp_all add: rvalue_range_def)
      with num_fits show ?thesis by simp
    qed
  next
    case (R_CheckedNeg a)
    with eval_rvalue_unary[OF rv(2), of a] obtain x where e: "eval_operand m s a = Some x"
      "m_rvalue m (P_Local d) (rvalue_key (R_CheckedNeg a)) [x] (heap s) = Ok v h" by (auto simp: rvalue_locals_def)
    from R_CheckedNeg r obtain ra where ra: "operand_range cx lr a ty u = Some ra"
      "r = range_meet (- snd ra, - fst ra) (full ty)" by (auto simp: rvalue_range_def)
    from op[OF _ e(1) ra(1)] R_CheckedNeg rv(1) have "contains ra (num ty x)" by (simp add: typed_rvalue_def)
    from contains_neg[OF this] e(2) checked_neg[OF d] neg[OF d] num_fits ra(2) show ?thesis by (auto split: if_splits)
  next
    case (R_Cast a src dst)
    with eval_rvalue_unary[OF rv(2), of a] obtain x where e: "eval_operand m s a = Some x"
      "m_rvalue m (P_Local d) (rvalue_key (R_Cast a src dst)) [x] (heap s) = Ok v h" by (auto simp: rvalue_locals_def)
    from R_Cast r cx_okD[OF cx(1)] obtain it where it: "int_ty_of i src ptr_size = Some it"
      by (auto simp: rvalue_range_def bind_Some_iff)
    show ?thesis
    proof (cases it)
      case None
      with R_Cast r it cx_okD[OF cx(1)] have "r = full ty" by (simp add: rvalue_range_def)
      with num_fits show ?thesis by simp
    next
      case (Some fty)
      with R_Cast r it cx_okD[OF cx(1)] obtain ra where ra: "operand_range cx lr a fty u = Some ra"
        "r = (if within ra ty then ra else full ty)" by (auto simp: rvalue_range_def Let_def)
      from op[OF _ e(1) ra(1)] R_Cast rv(1) it Some have in_range: "contains ra (num fty x)" and to: "int_ty_of i dst ptr_size = Some (Some ty)"
        by (simp_all add: typed_rvalue_def)
      from cast[OF d _ to e(2)] it Some contains_within[OF in_range] in_range num_fits ra(2) show ?thesis by auto
    qed
  qed (use r len unbounded in \<open>simp_all add: rvalue_range_def\<close>)
qed

lemma guard_bound_sound:
  assumes f: "cfg_ok f" "\<nexists>p. cfg_edge f p (fn_entry f)" "typed_function i ptr_size tys m f"
    and cx: "cx_ok i ptr_size f cx" and g: "g \<in> set (cx_guards cx)"
    and lr: "lr_sound_all num m tys f lr" and l: "tys l = Some ty"
    and t: "trace m f ((b, j, s) # t)"
    and r: "guard_bound cx lr g l ty \<lparr>site_block = b, site_idx = j\<rparr> = Some (Some r)"
  shows "contains r (num ty (loc s l))"
proof -
  let ?u = "\<lparr>site_block = b, site_idx = j\<rparr>"
  note gof = cx_okD(9)[OF cx g]
  from f(3) have dt: "dest_types i ptr_size f tys" and cond: "conditions_ok tys m f" by (simp_all add: typed_function_def)
  from trace_block[OF f(1) t] have b: "b < length (fn_blocks f)" by blast
  from gof have "cfg_edge f (g_guard g) (g_target g)" by (auto simp: guard_of_def cfg_edge_def)
  with f(1) have "g_target g < length (fn_blocks f)" by (auto simp: cfg_edge_def intro: cfg_ok_successor)
  note edge = guard_edge[OF gof cx_okD(7)[OF cx this]]
  from guard_holds_clear[OF cx gof, of ?u l] b obtain holds where holds: "guard_holds cx g l ?u = Some holds"
    "holds \<longrightarrow> guard_clear f g l ?u" by auto
  let ?c = "if g_lhs g = O_Copy (P_Local l) then Some (g_op g, g_rhs g)
            else if g_rhs g = O_Copy (P_Local l) then Some (flip_cmp (g_op g), g_lhs g) else None"
  from r obtain op other where oth: "?c = Some (op, other)" by (auto simp: guard_bound_def split: option.splits)
  with r holds(1) obtain lo hi where h: "holds" "operand_range cx lr other ty (g_cmp_site g) = Some (lo, hi)"
    "Some r = (case op of B_Lt \<Rightarrow> Some (it_min ty, hi - 1) | B_Le \<Rightarrow> Some (it_min ty, hi)
      | B_Gt \<Rightarrow> Some (lo + 1, it_max ty) | B_Ge \<Rightarrow> Some (lo, it_max ty) | _ \<Rightarrow> None)"
    unfolding guard_bound_def oth by (auto simp: bind_Some_iff split: if_splits)
  from holds(2) h(1) have clear: "guard_clear f g l ?u" by blast
  from clear have "\<not> list_ex (assigns_local l) (take j (stmts (fn_blocks f ! b)))" by (simp add: guard_clear_def)
  from guard_clear_taken[OF f(1,2) gof edge _ cond clear t _ this] l have "taken m f g l s" by simp
  then obtain s0 w x y cop c v hp where k: "trace m f ((g_guard g, site_idx (g_cmp_site g), s0) # w)" "loc s l = loc s0 l"
    "stmts (fn_blocks f ! g_guard g) ! site_idx (g_cmp_site g) = S_Assign (P_Local c) (R_Binary cop (g_lhs g) (g_rhs g))"
    "site_idx (g_cmp_site g) < length (stmts (fn_blocks f ! g_guard g))"
    "eval_operand m s0 (g_lhs g) = Some x" "eval_operand m s0 (g_rhs g) = Some y" "comparison cop \<noteq> None"
    "m_rvalue m (P_Local c) (R_Binary cop (g_lhs g) (g_rhs g)) [x, y] (heap s0) = Ok v hp"
    "g_op g = (if m_truth m v then cop else negate_cmp cop)" unfolding taken_def by blast
  from gof have site: "\<lparr>site_block = g_guard g, site_idx = site_idx (g_cmp_site g)\<rparr> = g_cmp_site g" by (simp add: guard_of_def)
  from lr k(1) have "lr_sound num tys lr \<lparr>site_block = g_guard g, site_idx = site_idx (g_cmp_site g)\<rparr> s0"
    unfolding lr_sound_all_def by blast
  then have at_cmp: "lr_sound num tys lr (g_cmp_site g) s0" by (simp only: site)
  from k(7) have cop: "cop \<in> {B_Lt, B_Le, B_Gt, B_Ge}" by (auto simp: comparison_def split: if_splits)
  from f(3) k(3,4) gof have typed: "typed_comparison tys (R_Binary cop (g_lhs g) (g_rhs g))"
    by (auto simp: typed_function_def guard_of_def)
  have "\<exists>z. int_cmp op (num ty (loc s0 l)) (num ty z) \<and> eval_operand m s0 other = Some z \<and> typed_operand tys other ty \<and>
      op \<in> {B_Lt, B_Le, B_Gt, B_Ge}"
  proof (cases "g_lhs g = var l")
    case True
    with oth have o: "op = g_op g" "other = g_rhs g" by simp_all
    from typed True l k(7) have ty: "typed_operand tys (g_rhs g) ty" by (simp add: typed_comparison_def)
    from True k(5) have x: "x = loc s0 l" by simp
    from compare_left[OF k(7) l ty] k(8) True have "m_truth m v \<longleftrightarrow> int_cmp cop (num ty x) (num ty y)" by simp
    with k(9) int_cmp_negate[OF cop] have "int_cmp (g_op g) (num ty x) (num ty y)" by (auto split: if_splits)
    with o ty x k(6,9) cop show ?thesis by (auto simp: negate_cmp_def)
  next
    case False
    with oth have o: "op = flip_cmp (g_op g)" "other = g_lhs g" "g_rhs g = var l" by (auto split: if_splits)
    from typed o(3) l k(7) have ty: "typed_operand tys (g_lhs g) ty" by (simp add: typed_comparison_def)
    from o(3) k(6) have y: "y = loc s0 l" by simp
    from compare_right[OF k(7) l ty] k(8) o(3) have "m_truth m v \<longleftrightarrow> int_cmp cop (num ty x) (num ty y)" by simp
    with k(9) int_cmp_negate[OF cop] have c: "int_cmp (g_op g) (num ty x) (num ty y)" by (auto split: if_splits)
    have gop: "g_op g \<in> {B_Lt, B_Le, B_Gt, B_Ge}" using k(9) cop by (auto simp: negate_cmp_def)
    with c int_cmp_flip[OF gop] have "int_cmp op (num ty y) (num ty x)" by (simp add: o(1))
    moreover have "op \<in> {B_Lt, B_Le, B_Gt, B_Ge}" using gop by (auto simp: o(1) flip_cmp_def)
    ultimately show ?thesis using o(2) ty y k(5) by auto
  qed
  then obtain z where z: "int_cmp op (num ty (loc s0 l)) (num ty z)" "eval_operand m s0 other = Some z" "typed_operand tys other ty"
    "op \<in> {B_Lt, B_Le, B_Gt, B_Ge}" by blast
  from operand_range_sound[OF cx dt z(3,2) at_cmp h(2)] have "lo \<le> num ty z" "num ty z \<le> hi" by (simp_all add: contains_def)
  moreover have "it_min ty \<le> num ty (loc s0 l)" "num ty (loc s0 l) \<le> it_max ty" using num_fits by (simp_all add: it_fits_def)
  ultimately show ?thesis using z(1,4) h(3) unfolding k(2) by (auto simp: int_cmp_def contains_def)
qed

lemma def_range_sound:
  assumes f: "overflow_input i f" "typed_function i ptr_size tys m f"
    and cx: "cx_ok i ptr_size f cx" and lr: "lr_sound_all num m tys f lr" and l: "tys l = Some ty"
    and t: "trace m f ((b, j, s) # t)"
    and r: "def_range cx lr l ty \<lparr>site_block = b, site_idx = j\<rparr> = Some r"
  shows "contains r (num ty (loc s l))"
proof -
  let ?u = "\<lparr>site_block = b, site_idx = j\<rparr>"
  note cf = overflow_inputD(1)[OF f(1)]
  from f(2) have dt: "dest_types i ptr_size f tys" by (simp add: typed_function_def)
  from r obtain defs where defs: "nth_opt (cx_defs cx) l = Some defs" by (auto simp: def_range_def bind_Some_iff)
  with cx_okD(4,5)[OF cx] have set_defs: "set defs = {x. (l, x) \<in> set (def_events f)}" by (auto simp: nth_opt_Some_iff)
  have unbounded: "full ty = r \<Longrightarrow> contains r (num ty (loc s l))" using num_fits by auto
  show ?thesis
  proof (cases "\<exists>d. defs = [Some d] \<and> site_dominates cx d ?u = Some True")
    case False
    have "r = full ty"
    proof (cases "\<exists>d. defs = [Some d]")
      case True
      then obtain d where d: "defs = [Some d]" by blast
      with r defs obtain dm where dm: "site_dominates cx d ?u = Some dm" by (auto simp: def_range_def bind_Some_iff)
      with d False have "\<not> dm" by auto
      with r defs d dm show ?thesis by (simp add: def_range_def)
    next
      case False
      with r defs show ?thesis by (auto simp: def_range_def split: list.splits option.splits)
    qed
    with unbounded show ?thesis by simp
  next
    case True
    then obtain d where d: "defs = [Some d]" "site_dominates cx d ?u = Some True" by blast
    let ?db = "site_block d" and ?di = "site_idx d"
    from single_def[of l f d] set_defs d(1) have sd: "only_def f l ?db ?di" "?db < length (fn_blocks f)"
      "?di < length (stmts (fn_blocks f ! ?db))" "assigns_local l (stmts (fn_blocks f ! ?db) ! ?di)" by auto
    from sd(4) obtain rv where rv: "stmts (fn_blocks f ! ?db) ! ?di = S_Assign (P_Local l) rv" by (auto simp: assigns_local_iff)
    from r defs d sd(2,3) rv cx_okD(2)[OF cx] have rr: "rvalue_range cx lr rv ty d = Some r"
      by (simp add: def_range_def block_def)
    have "\<exists>w. (?db, ?di, w) \<in> set t"
    proof (cases "?db = b")
      case True
      with d(2) have "?di < j" by (simp add: site_dominates_def)
      with trace_earlier[OF t, of ?di] True show ?thesis by auto
    next
      case False
      from trace_block[OF cf t] have b: "b < length (fn_blocks f)" by blast
      from d(2) False cx_okD(8)[OF cx b, of ?db] have "doms (cfg_edge f) (fn_entry f) ?db b"
        by (auto simp: site_dominates_def split: if_splits)
      from trace_dominated[OF t this False] sd(3) show ?thesis by simp
    qed
    then obtain w where "(?db, ?di, w) \<in> set t" by blast
    from only_def_value[OF t sd(1) this registers[OF l] rv sd(3)] obtain s0 t0 h where
      e: "trace m f ((?db, ?di, s0) # t0)" "eval_rvalue m (P_Local l) rv s0 = Ok (loc s l) h" by blast
    from lr e(1) have at_def: "lr_sound num tys lr d s0" unfolding lr_sound_all_def by (metis site.surjective old.unit.exhaust)
    from f(2) sd(2,3) rv l have "typed_rvalue i ptr_size tys ty rv" by (auto simp: typed_function_def)
    from rvalue_range_sound[OF cx dt l this e(2) at_def rr] show ?thesis .
  qed
qed

lemma local_range_sound:
  assumes f: "overflow_input i f" "\<nexists>p. cfg_edge f p (fn_entry f)" "typed_function i ptr_size tys m f"
    and cx: "cx_ok i ptr_size f cx"
  shows "lr_sound_all num m tys f (local_range cx d)"
proof (induction d rule: less_induct)
  case (less d)
  show ?case
  proof (cases d)
    case 0
    with num_fits show ?thesis by (auto simp: lr_sound_all_def lr_sound_def)
  next
    case (Suc e)
    from less[of e] less[of "min e 2"] Suc have lr: "lr_sound_all num m tys f (local_range cx e)"
      "lr_sound_all num m tys f (local_range cx (min e 2))" by simp_all
    show ?thesis unfolding lr_sound_all_def lr_sound_def
    proof (intro allI impI)
      fix b j s t l ty r
      assume t: "trace m f ((b, j, s) # t)" and l: "tys l = Some ty"
        and r: "local_range cx d l ty \<lparr>site_block = b, site_idx = j\<rparr> = Some r"
      let ?u = "\<lparr>site_block = b, site_idx = j\<rparr>"
      let ?step = "\<lambda>r g. map_option (\<lambda>b. case b of Some bound \<Rightarrow> range_meet r bound | None \<Rightarrow> r)
           (guard_bound cx (local_range cx (min e 2)) g l ty ?u)"
      from r Suc obtain r0 where r0: "def_range cx (local_range cx e) l ty ?u = Some r0"
        "foldM ?step r0 (cx_guards cx) = Some r" by (auto simp: bind_Some_iff)
      have "contains r0 (num ty (loc s l))" by (rule def_range_sound[OF f(1,3) cx lr(1) l t r0(1)])
      with r0(2) show "contains r (num ty (loc s l))"
      proof (rule foldM_invariant[where P = "\<lambda>r. contains r (num ty (loc s l))"])
        fix ra g rb assume g: "g \<in> set (cx_guards cx)" and ra: "contains ra (num ty (loc s l))" and "?step ra g = Some rb"
        then obtain bound where bound: "guard_bound cx (local_range cx (min e 2)) g l ty ?u = Some bound"
          "rb = (case bound of Some bound \<Rightarrow> range_meet ra bound | None \<Rightarrow> ra)" by auto
        from guard_bound_sound[OF overflow_inputD(1)[OF f(1)] f(2,3) cx g lr(2) l t] bound ra
        show "contains rb (num ty (loc s l))" by (cases bound) auto
      qed
    qed
  qed
qed

end

end
