(* ===== verification/Overflow_Pass.thy ===== *)
theory Overflow_Pass
  imports Overflow_Sound Const_Machine
begin

unbundle bit_operations_syntax

text \<open>
  Overflow-check elimination as a pass: it returns on every function whose locals and types exist,
  it satisfies the contract of the pass interface, and on typed functions whose entry is not a
  branch target it keeps exactly the runs from the entry, the panics included. The condition on the
  entry is needed: the pass takes the only branch that leads to a block for the only way into it,
  which the implicit edge into the entry block is not. The locale of the machine is interpreted on a
  machine of payloads.
\<close>

section \<open>The derivation of ranges returns\<close>

definition lr_total :: "mir_function \<Rightarrow> (local \<Rightarrow> int_ty \<Rightarrow> site \<Rightarrow> range option) \<Rightarrow> bool" where
  "lr_total f lr \<longleftrightarrow> (\<forall>l < length (fn_locals f). \<forall>ty u. site_block u < length (fn_blocks f) \<longrightarrow> lr l ty u \<noteq> None)"

lemma operand_range_total:
  assumes f: "overflow_input i f" and cx: "cx_ok i p f cx" and lr: "lr_total f lr"
    and a: "operand_declared (length (fn_locals f)) a" and u: "site_block u < length (fn_blocks f)"
  shows "\<exists>r. operand_range cx lr a ty u = Some r"
proof (cases "\<exists>l. a = var l")
  case True
  then obtain l where l: "a = var l" "l < length (fn_locals f)" using a by (auto simp: operand_declared_def)
  from overflow_inputD(3)[OF f l(2), of p] obtain it where "local_ty f l = Some (ld_ty (fn_locals f ! l))"
    "int_ty_of i (ld_ty (fn_locals f ! l)) p = Some it" by blast
  with l lr u cx_okD(1-3)[OF cx] show ?thesis
    by (cases it) (auto simp: operand_range_def lr_total_def)
next
  case False
  then show ?thesis by (auto simp: operand_range_def split: operand.split const.split place.split)
qed

lemma rvalue_range_total:
  assumes f: "overflow_input i f" and cx: "cx_ok i p f cx" and lr: "lr_total f lr"
    and rv: "assign_declared i (length (fn_locals f)) (S_Assign pl rv)" and u: "site_block u < length (fn_blocks f)"
  shows "rvalue_range cx lr rv ty u \<noteq> None"
proof -
  note total = operand_range_total[OF f cx lr _ u]
  from rv have ops: "\<And>a. a \<in> set (rvalue_operands rv) \<Longrightarrow> operand_declared (length (fn_locals f)) a"
    by (auto simp: assign_declared_def list_all_iff)
  have two: "\<exists>ra rb. operand_range cx lr a ty u = Some ra \<and> operand_range cx lr b ty u = Some rb"
    if "a \<in> set (rvalue_operands rv)" "b \<in> set (rvalue_operands rv)" for a b
    using total[OF ops[OF that(1)], of ty] total[OF ops[OF that(2)], of ty] by blast
  show ?thesis
  proof (cases rv)
    case (R_Use a)
    with total[OF ops, of a ty] show ?thesis by (auto simp: rvalue_range_def)
  next
    case (R_Select c a b)
    with two[of a b] show ?thesis by (auto simp: rvalue_range_def)
  next
    case (R_Binary op a b)
    with two[of a b] show ?thesis by (auto simp: rvalue_range_def)
  next
    case (R_CheckedBinary op a b)
    with two[of a b] show ?thesis by (auto simp: rvalue_range_def)
  next
    case (R_Unary op a)
    with total[OF ops, of a ty] show ?thesis by (cases op) (auto simp: rvalue_range_def)
  next
    case (R_CheckedNeg a)
    with total[OF ops, of a ty] show ?thesis by (auto simp: rvalue_range_def)
  next
    case (R_Cast a src dst)
    with rv have "src < length (kinds i)" by (simp add: assign_declared_def)
    then obtain it where it: "int_ty_of i src p = Some it" by (auto simp: int_ty_of_def kind_def)
    show ?thesis
    proof (cases it)
      case None
      with R_Cast it cx_okD(1-3)[OF cx] show ?thesis by (simp add: rvalue_range_def)
    next
      case (Some fty)
      with R_Cast it cx_okD(1-3)[OF cx] total[OF ops, of a fty] show ?thesis by (auto simp: rvalue_range_def)
    qed
  qed (simp_all add: rvalue_range_def)
qed

lemma def_range_total:
  assumes f: "overflow_input i f" and cx: "cx_ok i p f cx" and lr: "lr_total f lr"
    and l: "l < length (fn_locals f)" and u: "site_block u < length (fn_blocks f)"
  shows "def_range cx lr l ty u \<noteq> None"
proof -
  from l cx_okD(4)[OF cx] have defs: "nth_opt (cx_defs cx) l = Some (cx_defs cx ! l)" by simp
  show ?thesis
  proof (cases "\<exists>d. cx_defs cx ! l = [Some d]")
    case True
    then obtain d where d: "cx_defs cx ! l = [Some d]" by blast
    with cx_okD(5)[OF cx l] have "{x. (l, x) \<in> set (def_events f)} = {Some d}" by simp
    note sd = single_def[OF this]
    from sd(4) obtain rv where rv: "stmts (fn_blocks f ! site_block d) ! site_idx d = S_Assign (P_Local l) rv"
      by (auto simp: assigns_local_iff)
    from overflow_inputD(4)[OF f nth_mem[OF sd(2)] nth_mem[OF sd(3)]] rv have
      "assign_declared i (length (fn_locals f)) (S_Assign (P_Local l) rv)" by simp
    note rr = rvalue_range_total[OF f cx lr this sd(2), of ty]
    from cx_okD(8)[OF cx u, of "site_block d"] obtain dm where "site_dominates cx d u = Some dm"
      unfolding site_dominates_def by (cases "site_block d = site_block u") auto
    with defs d sd(2,3) rv rr cx_okD(2)[OF cx] show ?thesis by (auto simp: def_range_def block_def)
  next
    case False
    with defs show ?thesis by (auto simp: def_range_def split: list.split option.split)
  qed
qed

lemma guard_bound_total:
  assumes f: "overflow_input i f" and cx: "cx_ok i p f cx" and lr: "lr_total f lr"
    and g: "g \<in> set (cx_guards cx)" and u: "site_block u < length (fn_blocks f)"
  shows "\<exists>b. guard_bound cx lr g l ty u = Some b"
proof -
  note gof = cx_okD(9)[OF cx g]
  from guard_holds_clear[OF cx gof u] obtain h where h: "guard_holds cx g l u = Some h" by blast
  from gof obtain c op where last: "last_def_in (fn_blocks f ! g_guard g) c = Some (site_idx (g_cmp_site g), R_Binary op (g_lhs g) (g_rhs g))"
    and gb: "g_guard g < length (fn_blocks f)" "site_block (g_cmp_site g) = g_guard g" by (auto simp: guard_of_def)
  note last = last_def_in_Some[OF last]
  from overflow_inputD(4)[OF f nth_mem[OF gb(1)] nth_mem[OF last(1)]] last(2)
  have ops: "operand_declared (length (fn_locals f)) (g_lhs g)" "operand_declared (length (fn_locals f)) (g_rhs g)"
    by (simp_all add: assign_declared_def)
  have "\<exists>r. operand_range cx lr other ty (g_cmp_site g) = Some r" if "other \<in> {g_lhs g, g_rhs g}" for other
    using that ops operand_range_total[OF f cx lr, of other "g_cmp_site g" ty] gb by auto
  then have "\<exists>r. operand_range cx lr (g_lhs g) ty (g_cmp_site g) = Some r" "\<exists>r. operand_range cx lr (g_rhs g) ty (g_cmp_site g) = Some r"
    by simp_all
  with h show ?thesis by (auto simp: guard_bound_def)
qed

lemma local_range_total:
  assumes f: "overflow_input i f" and cx: "cx_ok i p f cx"
  shows "lr_total f (local_range cx d)"
proof (induction d rule: less_induct)
  case (less d)
  show ?case
  proof (cases d)
    case (Suc e)
    from less[of e] less[of "min e 2"] Suc have lr: "lr_total f (local_range cx e)" "lr_total f (local_range cx (min e 2))" by simp_all
    show ?thesis unfolding lr_total_def
    proof (intro allI impI)
      fix l ty and u :: site assume l: "l < length (fn_locals f)" and u: "site_block u < length (fn_blocks f)"
      from def_range_total[OF f cx lr(1) l u, of ty] obtain r0 where r0: "def_range cx (local_range cx e) l ty u = Some r0" by auto
      let ?step = "\<lambda>r g. map_option (\<lambda>b. case b of Some bound \<Rightarrow> range_meet r bound | None \<Rightarrow> r)
           (guard_bound cx (local_range cx (min e 2)) g l ty u)"
      have "\<exists>r. foldM ?step r0 (cx_guards cx) = Some r \<and> True"
      proof (rule foldM_total[where P = "\<lambda>_. True"])
        fix r g assume "g \<in> set (cx_guards cx)"
        from guard_bound_total[OF f cx lr(2) this u, of l ty] show "\<exists>t. ?step r g = Some t \<and> True" by auto
      qed simp
      then show "local_range cx d l ty u \<noteq> None" using Suc r0 by auto
    qed
  qed (simp add: lr_total_def)
qed

lemma unchecked_form_total:
  assumes f: "overflow_input i f" and cx: "cx_ok i p f cx"
    and st: "assign_declared i (length (fn_locals f)) (S_Assign (P_Local d) rv)" and u: "site_block u < length (fn_blocks f)"
  shows "\<exists>r. unchecked_form cx rv d u = Some r"
proof -
  from st have d: "d < length (fn_locals f)" by (simp add: assign_declared_def)
  from overflow_inputD(3)[OF f d, of p] obtain it where it: "local_ty f d = Some (ld_ty (fn_locals f ! d))"
    "int_ty_of i (ld_ty (fn_locals f ! d)) p = Some it" by blast
  have total: "\<exists>r. operand_range cx (local_range cx MAX_DEPTH) a ty u = Some r" if "a \<in> set (rvalue_operands rv)" for a ty
    using that st by (intro operand_range_total[OF f cx local_range_total[OF f cx] _ u]) (auto simp: assign_declared_def list_all_iff)
  show ?thesis
  proof (cases it)
    case None
    with it cx_okD(1-3)[OF cx] show ?thesis by (simp add: unchecked_form_def)
  next
    case (Some ty)
    show ?thesis
    proof (cases rv)
      case (R_CheckedBinary op a b)
      with total[of a ty] total[of b ty] it Some cx_okD(1-3)[OF cx] show ?thesis by (auto simp: unchecked_form_def Let_def)
    next
      case (R_CheckedNeg a)
      with total[of a ty] it Some cx_okD(1-3)[OF cx] show ?thesis by (auto simp: unchecked_form_def)
    qed (use it Some cx_okD(1-3)[OF cx] in \<open>simp_all add: unchecked_form_def\<close>)
  qed
qed

section \<open>The rewriting\<close>

definition sound_rewrite :: "overflow_cx \<Rightarrow> mir_function \<Rightarrow> nat \<times> nat \<times> rvalue \<Rightarrow> bool" where
  "sound_rewrite cx f = (\<lambda>(b, j, plain).
     b < length (fn_blocks f) \<and> j < length (stmts (fn_blocks f ! b)) \<and>
     (\<exists>d rv. stmts (fn_blocks f ! b) ! j = S_Assign (P_Local d) rv \<and>
        unchecked_form cx rv d \<lparr>site_block = b, site_idx = j\<rparr> = Some (Some plain)))"

lemma stmt_rewrite_total:
  assumes f: "overflow_input i f" and cx: "cx_ok i p f cx" and b: "b < length (fn_blocks f)" "j < length (stmts (fn_blocks f ! b))"
    and rs: "list_all (sound_rewrite cx f) rs"
  shows "\<exists>rs'. stmt_rewrite cx b rs (j, stmts (fn_blocks f ! b) ! j) = Some rs' \<and> list_all (sound_rewrite cx f) rs'"
proof (cases "\<exists>d rv. stmts (fn_blocks f ! b) ! j = S_Assign (P_Local d) rv")
  case True
  then obtain d rv where st: "stmts (fn_blocks f ! b) ! j = S_Assign (P_Local d) rv" by blast
  from overflow_inputD(4)[OF f nth_mem[OF b(1)] nth_mem[OF b(2)]] st
  obtain r where r: "unchecked_form cx rv d \<lparr>site_block = b, site_idx = j\<rparr> = Some r"
    using unchecked_form_total[OF f cx, of d rv "\<lparr>site_block = b, site_idx = j\<rparr>"] b(1) by auto
  have "sound_rewrite cx f (b, j, plain)" if "r = Some plain" for plain
    using b st r that by (simp add: sound_rewrite_def)
  with st r rs show ?thesis by (cases r) (auto simp: stmt_rewrite_def)
next
  case False
  then have "stmt_rewrite cx b rs (j, stmts (fn_blocks f ! b) ! j) = Some rs"
    by (auto simp: stmt_rewrite_def split: statement.split place.split)
  with rs show ?thesis by simp
qed

lemma collect_rewrites_total:
  assumes "overflow_input i f" "cx_ok i p f cx"
  shows "\<exists>rs. collect_rewrites cx f = Some rs \<and> list_all (sound_rewrite cx f) rs"
  unfolding collect_rewrites_def
proof (rule foldM_total)
  fix rs and pb :: "nat \<times> basic_block"
  assume pb: "pb \<in> set (enumerate 0 (fn_blocks f))" and rs: "list_all (sound_rewrite cx f) rs"
  then obtain b where b: "b < length (fn_blocks f)" "pb = (b, fn_blocks f ! b)" by (auto simp: in_set_enumerate_eq)
  have "\<exists>rs'. foldM (stmt_rewrite cx b) rs (enumerate 0 (stmts (fn_blocks f ! b))) = Some rs' \<and> list_all (sound_rewrite cx f) rs'"
  proof (rule foldM_total[where P = "list_all (sound_rewrite cx f)", OF rs])
    fix rs and ps :: "nat \<times> statement"
    assume "ps \<in> set (enumerate 0 (stmts (fn_blocks f ! b)))" and rs: "list_all (sound_rewrite cx f) rs"
    then obtain j where "j < length (stmts (fn_blocks f ! b))" "ps = (j, stmts (fn_blocks f ! b) ! j)" by (auto simp: in_set_enumerate_eq)
    with stmt_rewrite_total[OF assms b(1) _ rs] show "\<exists>t. stmt_rewrite cx b rs ps = Some t \<and> list_all (sound_rewrite cx f) t" by simp
  qed
  then show "\<exists>t. (case pb of (bi, blk) \<Rightarrow> foldM (stmt_rewrite cx bi) rs (enumerate 0 (stmts blk))) = Some t \<and> list_all (sound_rewrite cx f) t"
    by (simp add: b(2))
qed simp

text \<open>A function in which assignments at some of the given sites have the rvalues given for them.\<close>

definition rewritten :: "mir_function \<Rightarrow> (nat \<times> nat \<times> rvalue) list \<Rightarrow> mir_function \<Rightarrow> bool" where
  "rewritten f rs g \<longleftrightarrow>
     fn_entry g = fn_entry f \<and> length (fn_blocks g) = length (fn_blocks f) \<and>
     (\<forall>b < length (fn_blocks f). term_of (fn_blocks g ! b) = term_of (fn_blocks f ! b) \<and>
        length (stmts (fn_blocks g ! b)) = length (stmts (fn_blocks f ! b)) \<and>
        (\<forall>j < length (stmts (fn_blocks f ! b)). stmts (fn_blocks g ! b) ! j = stmts (fn_blocks f ! b) ! j \<or>
           (\<exists>pl rv plain. (b, j, plain) \<in> set rs \<and> stmts (fn_blocks f ! b) ! j = S_Assign pl rv \<and>
              stmts (fn_blocks g ! b) ! j = S_Assign pl plain)))"

lemma apply_rewrite_rewritten:
  assumes "rewritten f rs g" "(b, j, plain) \<in> set rs" "apply_rewrite g (b, j, plain) = Some h"
  shows "rewritten f rs h"
proof -
  from assms(3) obtain st where st: "b < length (fn_blocks g)" "j < length (stmts (fn_blocks g ! b))" "st = stmts (fn_blocks g ! b) ! j"
    and h: "h = (case st of
        S_Assign pl _ \<Rightarrow> g\<lparr>fn_blocks := (fn_blocks g)[b := (fn_blocks g ! b)\<lparr>stmts := (stmts (fn_blocks g ! b))[j := S_Assign pl plain]\<rparr>]\<rparr>
      | _ \<Rightarrow> g)"
    by (auto simp: apply_rewrite_def bind_Some_iff block_Some_iff nth_opt_Some_iff split: statement.splits)
  show ?thesis
  proof (cases "\<exists>pl rv. st = S_Assign pl rv")
    case True
    then obtain pl rv where pl: "st = S_Assign pl rv" by blast
    from assms(1) st(1,2) have "\<exists>rv'. stmts (fn_blocks f ! b) ! j = S_Assign pl rv'"
      unfolding rewritten_def using pl st(3) by (metis statement.inject(2))
    then obtain rv' where rv': "stmts (fn_blocks f ! b) ! j = S_Assign pl rv'" by blast
    have h': "h = g\<lparr>fn_blocks := (fn_blocks g)[b := (fn_blocks g ! b)\<lparr>stmts := (stmts (fn_blocks g ! b))[j := S_Assign pl plain]\<rparr>]\<rparr>"
      using h pl by simp
    show ?thesis using assms(1,2) st(1,2) rv' unfolding rewritten_def h' by (auto simp: nth_list_update)
  next
    case False
    then have "h = g" using h by (cases st) auto
    with assms(1) show ?thesis by simp
  qed
qed


lemma rewritten_shape: "rewritten f rs g \<Longrightarrow> cfg_shape_of g = cfg_shape_of f"
  by (auto simp: rewritten_def cfg_shape_of_def intro!: nth_equalityI)

lemma apply_rewrites_total:
  assumes "list_all (sound_rewrite cx f) rs"
  shows "\<exists>g. foldM apply_rewrite f rs = Some g \<and> rewritten f rs g"
proof (rule foldM_total)
  fix g x assume x: "x \<in> set rs" and g: "rewritten f rs g"
  obtain b j plain where bj: "x = (b, j, plain)" by (metis prod_cases3)
  with assms x have "b < length (fn_blocks f)" "j < length (stmts (fn_blocks f ! b))" by (auto simp: list_all_iff sound_rewrite_def)
  with g have "apply_rewrite g x \<noteq> None"
    by (auto simp: bj apply_rewrite_def block_def rewritten_def split: statement.split)
  then obtain h where "apply_rewrite g x = Some h" by blast
  with apply_rewrite_rewritten[OF g, of b j plain h] x bj show "\<exists>t. apply_rewrite g x = Some t \<and> rewritten f rs t" by blast
qed (simp add: rewritten_def)





section \<open>What is removed would have passed\<close>

context int_machine
begin

lemma unchecked_form_sound:
  assumes f: "overflow_input i f" "\<nexists>q. cfg_edge f q (fn_entry f)" "typed_function i ptr_size tys m f"
    and cx: "cx_ok i ptr_size f cx" and t: "trace m f ((b, j, s) # t)" and j: "j < length (stmts (fn_blocks f ! b))"
    and st: "stmts (fn_blocks f ! b) ! j = S_Assign (P_Local d) rv"
    and r: "unchecked_form cx rv d \<lparr>site_block = b, site_idx = j\<rparr> = Some (Some plain)"
  shows "eval_rvalue m (P_Local d) plain s = eval_rvalue m (P_Local d) rv s"
proof -
  let ?u = "\<lparr>site_block = b, site_idx = j\<rparr>" and ?lr = "local_range cx MAX_DEPTH"
  from f(3) have dt: "dest_types i ptr_size f tys" by (simp add: typed_function_def)
  from local_range_sound[OF f cx] t have lr: "lr_sound num tys ?lr ?u s"
    unfolding lr_sound_all_def by blast
  note op = operand_range_sound[OF cx dt _ _ lr]
  from r obtain dt' it where it: "local_ty (cx_func cx) d = Some dt'" "int_ty_of (cx_interner cx) dt' (cx_ptr_size cx) = Some it"
    by (auto simp: unchecked_form_def bind_Some_iff)
  from local_int_ty[OF cx dt it] have "it = tys d" .
  with r it obtain ty where ty: "tys d = Some ty" by (cases "tys d") (auto simp: unchecked_form_def)
  with it \<open>it = tys d\<close> have it': "int_ty_of (cx_interner cx) dt' (cx_ptr_size cx) = Some (Some ty)" by simp
  from trace_block[OF overflow_inputD(1)[OF f(1)] t] have "b < length (fn_blocks f)" by blast
  with f(3) j st ty have typed: "typed_rvalue i ptr_size tys ty rv" by (simp add: typed_function_def)
  show ?thesis
  proof (cases rv)
    case (R_CheckedBinary bop a c)
    with r it(1) it' obtain ra rb where ra: "operand_range cx ?lr a ty ?u = Some ra" "operand_range cx ?lr c ty ?u = Some rb"
      and safe: "if bop \<in> {B_Add, B_Sub, B_Mul} then (case arith bop ra rb of Some r \<Rightarrow> within r ty | None \<Rightarrow> False)
        else if bop \<in> {B_Div, B_Rem} then \<not> (contains ra (it_min ty) \<and> contains rb (- 1))
        else if bop \<in> {B_Shl, B_Shr} then 0 \<le> fst rb \<and> snd rb < int (it_bits ty) else False"
      and plain: "plain = R_Binary bop a c"
      by (auto simp: unchecked_form_def bind_Some_iff Let_def split: if_splits)
    from typed R_CheckedBinary have bop: "bop \<in> checked_ops" "typed_operand tys a ty" "typed_operand tys c ty"
      by (simp_all add: typed_rvalue_def)
    show ?thesis
    proof (cases "eval_operands m s [a, c]")
      case None
      with R_CheckedBinary plain show ?thesis by (simp add: eval_rvalue_def)
    next
      case (Some vs)
      then obtain x y where xy: "eval_operand m s a = Some x" "eval_operand m s c = Some y" "vs = [x, y]"
        by (auto simp: bind_Some_iff)
      from op[OF bop(2) xy(1) ra(1)] op[OF bop(3) xy(2) ra(2)] have in_range: "contains ra (num ty x)" "contains rb (num ty y)" .
      have "op_safe ty bop (num ty x) (num ty y)"
      proof (cases "bop \<in> {B_Add, B_Sub, B_Mul}")
        case True
        with safe obtain r where r: "arith bop ra rb = Some r" "within r ty" by (auto split: option.splits)
        have "it_fits ty z" if "int_exact ty bop (num ty x) (num ty y) = Some z" for z
          by (rule contains_within[OF arith_sound[OF r(1) in_range that] r(2)])
        with True show ?thesis by (auto simp: op_safe_def)
      next
        case False
        with safe in_range show ?thesis by (auto simp: op_safe_def contains_def split: if_splits)
      qed
      with checked[OF ty bop(1)] Some xy R_CheckedBinary plain show ?thesis
        by (simp add: eval_rvalue_def rvalue_locals_def)
    qed
  next
    case (R_CheckedNeg a)
    with r it(1) it' obtain ra where ra: "operand_range cx ?lr a ty ?u = Some ra" "within (- snd ra, - fst ra) ty"
      and plain: "plain = R_Unary U_Neg a"
      by (auto simp: unchecked_form_def bind_Some_iff split: if_splits)
    from typed R_CheckedNeg have a: "typed_operand tys a ty" by (simp add: typed_rvalue_def)
    show ?thesis
    proof (cases "eval_operand m s a")
      case None
      with R_CheckedNeg plain show ?thesis by (simp add: eval_rvalue_def)
    next
      case (Some x)
      from contains_within[OF contains_neg[OF op[OF a Some ra(1)]] ra(2)] have "it_fits ty (- num ty x)" .
      with checked_neg[OF ty] Some R_CheckedNeg plain show ?thesis by (simp add: eval_rvalue_def rvalue_locals_def)
    qed
  qed (use r it(1) it' in \<open>simp_all add: unchecked_form_def\<close>)
qed

lemma rewritten_block:
  assumes f: "overflow_input i f" "\<nexists>q. cfg_edge f q (fn_entry f)" "typed_function i ptr_size tys m f"
    and cx: "cx_ok i ptr_size f cx" and rs: "list_all (sound_rewrite cx f) rs" and g: "rewritten f rs g"
    and t: "trace m f ((b, j, s) # t)"
  shows "exec_stmts m (drop j (stmts (fn_blocks g ! b))) s = exec_stmts m (drop j (stmts (fn_blocks f ! b))) s"
  using t
proof (induction "length (stmts (fn_blocks f ! b)) - j" arbitrary: j s t)
  case 0
  from trace_block[OF overflow_inputD(1)[OF f(1)] 0(2)] g 0(1) show ?case by (simp add: rewritten_def)
next
  case (Suc n)
  from trace_block[OF overflow_inputD(1)[OF f(1)] Suc.prems] have b: "b < length (fn_blocks f)" by blast
  from Suc.hyps(2) have j: "j < length (stmts (fn_blocks f ! b))" by simp
  with g b have jg: "j < length (stmts (fn_blocks g ! b))" by (simp add: rewritten_def)
  let ?st = "stmts (fn_blocks f ! b) ! j" and ?st' = "stmts (fn_blocks g ! b) ! j"
  have st: "exec_stmt m ?st' s = exec_stmt m ?st s"
  proof (cases "?st' = ?st")
    case False
    with g b j obtain pl rv plain where r: "(b, j, plain) \<in> set rs" "?st = S_Assign pl rv" "?st' = S_Assign pl plain"
      unfolding rewritten_def by blast
    with rs obtain d where d: "pl = P_Local d" "unchecked_form cx rv d \<lparr>site_block = b, site_idx = j\<rparr> = Some (Some plain)"
      by (fastforce simp: list_all_iff sound_rewrite_def)
    from unchecked_form_sound[OF f cx Suc.prems j _ d(2)] r(2,3) d(1) show ?thesis by (simp add: exec_stmt_def)
  qed simp
  have d: "drop j (stmts (fn_blocks f ! b)) = ?st # drop (Suc j) (stmts (fn_blocks f ! b))"
    "drop j (stmts (fn_blocks g ! b)) = ?st' # drop (Suc j) (stmts (fn_blocks g ! b))"
    using Cons_nth_drop_Suc[OF j] Cons_nth_drop_Suc[OF jg] by simp_all
  show ?case
  proof (cases "exec_stmt m ?st s")
    case (Next s')
    have "trace m f ((b, Suc j, s') # (b, j, s) # t)"
      by (rule trace_stmt[OF Suc.prems _ j Next]) (simp add: block_def b)
    from Suc.hyps(1)[OF _ this] Suc.hyps(2) Next st show ?thesis unfolding d by simp
  qed (use st in \<open>simp add: d\<close>)
qed

lemma rewritten_runs:
  assumes f: "overflow_input i f" "\<nexists>q. cfg_edge f q (fn_entry f)" "typed_function i ptr_size tys m f"
    and cx: "cx_ok i ptr_size f cx" and rs: "list_all (sound_rewrite cx f) rs" and g: "rewritten f rs g"
  shows "runs m f (fn_entry f) s r \<longleftrightarrow> runs m g (fn_entry f) s r"
proof (rule runs_invariant_cong[where P = "\<lambda>b s. \<exists>t. trace m f ((b, 0, s) # t)"])
  show "\<exists>t. trace m f ((fn_entry f, 0, s) # t)" using trace_start by blast
next
  fix b s assume "\<exists>t. trace m f ((b, 0, s) # t)"
  then obtain t where t: "trace m f ((b, 0, s) # t)" by blast
  from trace_block[OF overflow_inputD(1)[OF f(1)] t] g have b: "b < length (fn_blocks f)" "b < length (fn_blocks g)"
    "term_of (fn_blocks g ! b) = term_of (fn_blocks f ! b)" by (auto simp: rewritten_def)
  from rewritten_block[OF f cx rs g t] b show "block_step m g b s = block_step m f b s"
    by (simp add: block_step_def block_def exec_block_def split: res.split)
next
  fix b s b' s' assume "\<exists>t. trace m f ((b, 0, s) # t)" and step: "block_step m f b s = Jump b' s'"
  then obtain t where t: "trace m f ((b, 0, s) # t)" by blast
  from block_step_Jump[OF step] have b: "block f b = Some (fn_blocks f ! b)" by (simp add: block_def)
  with step obtain s1 where s1: "exec_stmts m (stmts (fn_blocks f ! b)) s = Next s1" "exec_term m (term_of (fn_blocks f ! b)) s1 = Jump b' s'"
    by (auto simp: block_step_def exec_block_def split: res.splits)
  have "\<exists>u. trace m f ((b, n, w) # u)" if "exec_stmts m (take n (stmts (fn_blocks f ! b))) s = Next w" "n \<le> length (stmts (fn_blocks f ! b))" for n w
    using that
  proof (induction n arbitrary: w)
    case 0
    with t show ?case by auto
  next
    case (Suc n)
    then have n: "n < length (stmts (fn_blocks f ! b))" by simp
    with Suc.prems(1) obtain w0 where w0: "exec_stmts m (take n (stmts (fn_blocks f ! b))) s = Next w0"
      "exec_stmt m (stmts (fn_blocks f ! b) ! n) w0 = Next w"
      by (auto simp: take_Suc_conv_app_nth exec_stmts_append split: res.splits)
    with Suc.IH n obtain u where "trace m f ((b, n, w0) # u)" by auto
    from trace_stmt[OF this b n w0(2)] show ?case by blast
  qed
  from this[of "length (stmts (fn_blocks f ! b))" s1] s1(1) obtain u where
    "trace m f ((b, length (stmts (fn_blocks f ! b)), s1) # u)" by auto
  from trace_jump[OF this b refl s1(2)] show "\<exists>t. trace m f ((b', 0, s') # t)" by blast
qed

lemma overflow_elim_runs:
  assumes f: "overflow_input i f" "\<nexists>q. cfg_edge f q (fn_entry f)" "typed_function i ptr_size tys m f" and a: "in_step a f"
  shows "\<exists>g c a'. overflow_elim i ptr_size f a = Some (g, c, a') \<and> in_step a' g \<and> cfg_shape_of g = cfg_shape_of f \<and>
    (\<forall>s r. runs m f (fn_entry f) s r \<longleftrightarrow> runs m g (fn_entry g) s r)"
proof (cases "list_ex (\<lambda>blk. list_ex is_checked (stmts blk)) (fn_blocks f)")
  case True
  from overflow_cx_new_total[OF f(1) a] obtain cx a' where cx: "overflow_cx_new f i ptr_size a = Some (cx, a')" "cx_ok i ptr_size f cx"
    "in_step a' f" by blast
  from collect_rewrites_total[OF f(1) cx(2)] obtain rs where rs: "collect_rewrites cx f = Some rs" "list_all (sound_rewrite cx f) rs" by blast
  from apply_rewrites_total[OF rs(2)] obtain g where g: "foldM apply_rewrite f rs = Some g" "rewritten f rs g" by blast
  have "overflow_elim i ptr_size f a = Some (g, rs \<noteq> [], a')" using True cx(1) rs(1) g(1) by (simp add: overflow_elim_def)
  moreover have "in_step a' g" using cx(3) in_step_shape[OF rewritten_shape[OF g(2)]] by blast
  moreover have "fn_entry g = fn_entry f" using g(2) by (simp add: rewritten_def)
  ultimately show ?thesis using rewritten_shape[OF g(2)] rewritten_runs[OF f cx(2) rs(2) g(2)] by auto
next
  case False
  with a show ?thesis by (intro exI[of _ f] exI[of _ False] exI[of _ a]) (simp add: overflow_elim_def)
qed

end

section \<open>A machine of payloads\<close>

text \<open>
  Values are payloads, read at an integer type as the representation does. Comparisons read their
  operands at the type of the integer local among them; memory, lengths and calls trap.
\<close>

definition vm_num :: "int_ty \<Rightarrow> int \<Rightarrow> int" where
  "vm_num ty v = it_value ty (as_i64 v)"

definition operand_int :: "(local \<Rightarrow> int_ty option) \<Rightarrow> operand \<Rightarrow> int_ty option" where
  "operand_int tys a = (case a of O_Copy (P_Local l) \<Rightarrow> tys l | _ \<Rightarrow> None)"

definition cmp_ty :: "(local \<Rightarrow> int_ty option) \<Rightarrow> operand \<Rightarrow> operand \<Rightarrow> int_ty" where
  "cmp_ty tys a b =
     (case operand_int tys a of Some ty \<Rightarrow> ty | None \<Rightarrow> (case operand_int tys b of Some ty \<Rightarrow> ty | None \<Rightarrow> IT_Int))"

definition vm_binary :: "int_ty \<Rightarrow> bin_op \<Rightarrow> int \<Rightarrow> int \<Rightarrow> int list \<Rightarrow> (int, int list) eff" where
  "vm_binary ty op x y h = (case int_exact ty op (vm_num ty x) (vm_num ty y) of Some r \<Rightarrow> Ok (it_wrap ty r) h | None \<Rightarrow> Trap h)"

definition vm_rvalue ::
  "type_interner \<Rightarrow> nat \<Rightarrow> (local \<Rightarrow> int_ty option) \<Rightarrow> place \<Rightarrow> rvalue \<Rightarrow> int list \<Rightarrow> int list \<Rightarrow> (int, int list) eff" where
  "vm_rvalue i p tys pl rv vs h =
     (case (rv, vs, operand_int tys (O_Copy pl)) of
        (R_Binary op a b, [x, y], dest) \<Rightarrow>
          (if comparison op \<noteq> None
           then Ok (of_bool (int_cmp op (vm_num (cmp_ty tys a b) x) (vm_num (cmp_ty tys a b) y))) h
           else (case dest of Some ty \<Rightarrow> vm_binary ty op x y h | None \<Rightarrow> Trap h))
      | (R_CheckedBinary op _ _, [x, y], Some ty) \<Rightarrow>
          (if op_safe ty op (vm_num ty x) (vm_num ty y) then vm_binary ty op x y h else Trap h)
      | (R_Unary U_Neg _, [x], Some ty) \<Rightarrow> Ok (it_wrap ty (- vm_num ty x)) h
      | (R_CheckedNeg _, [x], Some ty) \<Rightarrow>
          (if it_fits ty (- vm_num ty x) then Ok (it_wrap ty (- vm_num ty x)) h else Trap h)
      | (R_Cast _ from _, [x], Some ty) \<Rightarrow>
          (case int_ty_of i from p of Some (Some fty) \<Rightarrow> Ok (it_wrap ty (vm_num fty x)) h | _ \<Rightarrow> Trap h)
      | _ \<Rightarrow> Trap h)"

definition int_vm :: "type_interner \<Rightarrow> nat \<Rightarrow> (local \<Rightarrow> int_ty option) \<Rightarrow> (int, int list) machine" where
  "int_vm i p tys =
     \<lparr>m_const = (\<lambda>c. case c of C_Int v \<Rightarrow> v | C_Long v \<Rightarrow> v | C_Char v \<Rightarrow> int v | C_Bool b \<Rightarrow> of_bool b | _ \<Rightarrow> 0),
      m_truth = (\<lambda>v. v \<noteq> 0),
      m_key = (\<lambda>v. v),
      m_load = (\<lambda>_ _ _. None),
      m_store = (\<lambda>_ _ _ _. None),
      m_rvalue = vm_rvalue i p tys,
      m_stmt = (\<lambda>st vs h. case st of S_Print _ _ _ \<Rightarrow> Ok () (h @ vs) | S_Panic _ \<Rightarrow> Trap h | _ \<Rightarrow> Ok () h),
      m_await = (\<lambda>v h. Ok v h),
      m_tail = (\<lambda>c vs h. Trap h),
      m_is_value = (\<lambda>_. False)\<rparr>"

lemma vm_num_fits: "it_fits ty (vm_num ty v)"
  unfolding vm_num_def by (rule it_fits_value[OF as_i64_range])

lemma vm_num_id: "it_fits ty v \<Longrightarrow> vm_num ty v = v"
proof (rule it_fits_unique[OF vm_num_fits])
  show "take_bit (it_bits ty) (vm_num ty v) = take_bit (it_bits ty) v"
    unfolding vm_num_def it_value_take_bit[OF as_i64_range] by (cases ty) (simp_all add: take_bit_signed_take_bit)
qed

lemma vm_num_i64: "is_i64 v \<Longrightarrow> vm_num ty v = it_value ty v"
  by (simp add: vm_num_def)

lemma vm_num_wrap: "it_fits ty r \<Longrightarrow> vm_num ty (it_wrap ty r) = r"
  by (simp add: vm_num_def it_wrap_i64 it_value_wrap_fits)

lemma checked_not_compared: "op \<in> checked_ops \<Longrightarrow> comparison op = None \<and> \<not> is_comparison op"
  by (auto simp: checked_ops_def comparison_def is_comparison_def)

interpretation int_vm: int_machine vm_num "int_vm i p tys" i p tys for i p tys
proof unfold_locales
  fix d ty op a b x y h v h' r
  assume d: "tys d = Some ty" and run: "m_rvalue (int_vm i p tys) (P_Local d) (rvalue_key (R_Binary op a b)) [x, y] h = Ok v h'"
    and r: "int_exact ty op (vm_num ty x) (vm_num ty y) = Some r" "it_fits ty r"
  from r(1) have "comparison op = None" "\<not> is_comparison op"
    by (auto simp: int_exact_def comparison_def is_comparison_def split: bin_op.splits)
  with d run r(1) have "v = it_wrap ty r"
    by (simp add: int_vm_def vm_rvalue_def rvalue_key_def operand_typed_def operand_int_def vm_binary_def)
  with vm_num_wrap[OF r(2)] show "vm_num ty v = r" by simp
next
  fix d ty op a b x y h
  assume "tys d = Some ty" "op \<in> checked_ops"
  with checked_not_compared[of op]
  show "m_rvalue (int_vm i p tys) (P_Local d) (rvalue_key (R_CheckedBinary op a b)) [x, y] h =
      (if op_safe ty op (vm_num ty x) (vm_num ty y)
       then m_rvalue (int_vm i p tys) (P_Local d) (rvalue_key (R_Binary op a b)) [x, y] h else Trap h)"
    by (simp add: int_vm_def vm_rvalue_def rvalue_key_def operand_typed_def operand_int_def)
next
  fix d ty src fty dst a x h v h'
  assume "tys d = Some ty" "int_ty_of i src p = Some (Some fty)"
    "m_rvalue (int_vm i p tys) (P_Local d) (rvalue_key (R_Cast a src dst)) [x] h = Ok v h'" "it_fits ty (vm_num fty x)"
  then show "vm_num ty v = vm_num fty x"
    by (auto simp: int_vm_def vm_rvalue_def rvalue_key_def operand_typed_def operand_int_def vm_num_wrap)
next
  fix op l ty b pl x y h v h'
  assume "comparison op \<noteq> None" "tys l = Some ty" "m_rvalue (int_vm i p tys) pl (R_Binary op (var l) b) [x, y] h = Ok v h'"
  then show "m_truth (int_vm i p tys) v \<longleftrightarrow> int_cmp op (vm_num ty x) (vm_num ty y)"
    by (auto simp: int_vm_def vm_rvalue_def cmp_ty_def operand_int_def)
next
  fix op l ty a pl x y h v h'
  assume c: "comparison op \<noteq> None" "tys l = Some ty" "typed_operand tys a ty"
    "m_rvalue (int_vm i p tys) pl (R_Binary op a (var l)) [x, y] h = Ok v h'"
  then have "cmp_ty tys a (var l) = ty"
    by (auto simp: cmp_ty_def operand_int_def typed_operand_def split: operand.splits place.splits)
  with c show "m_truth (int_vm i p tys) v \<longleftrightarrow> int_cmp op (vm_num ty x) (vm_num ty y)"
    by (auto simp: int_vm_def vm_rvalue_def)
next
  fix d ty rv a x h v h'
  assume "tys d = Some ty" "rv \<in> {R_ArrayLen a, R_StrLen a, R_StrByteSize a}"
    "m_rvalue (int_vm i p tys) (P_Local d) (rvalue_key rv) [x] h = Ok v h'"
  then show "0 \<le> vm_num ty v \<and> vm_num ty v \<le> it_max IT_Int"
    by (auto simp: int_vm_def vm_rvalue_def rvalue_key_def operand_typed_def)
qed (auto simp: int_vm_def vm_rvalue_def rvalue_key_def operand_typed_def operand_int_def vm_num_fits vm_num_id vm_num_wrap vm_num_i64)

section \<open>Samples\<close>

definition int_bool :: type_interner where
  "int_bool = interner_empty\<lparr>kinds := [K_Prim PInt, K_Prim PBool]\<rparr>"

definition two_ints :: "local \<Rightarrow> int_ty option" where
  "two_ints l = (if l < 2 then Some IT_Int else None)"

text \<open>A counted loop: the counter is bounded by the branch on it, so its increment cannot overflow.\<close>

definition sample_counted :: mir_function where
  "sample_counted = sample_function [0, 0, 1]
     [mk_block [S_Assign (P_Local 1) (R_Use (int_lit 0))] (T_Goto 1),
      mk_block [S_Assign (P_Local 2) (R_Binary B_Lt (var 1) (var 0))] (T_If (var 2) 2 3),
      mk_block [S_Assign (P_Local 1) (R_CheckedBinary B_Add (var 1) (int_lit 1))] (T_Goto 1),
      mk_block [] (T_Return (Some (var 1)))]"



lemma sample_counted_input: "overflow_input int_bool sample_counted"
  by (simp add: overflow_input_def cfg_ok_def sample_counted_def sample_function_def int_bool_def assign_declared_def
      operand_declared_def awaits_into_def)

lemma sample_counted_entry: "\<nexists>q. cfg_edge sample_counted q (fn_entry sample_counted)"
  by (auto simp: cfg_edge_def sample_counted_def sample_function_def nth_Cons split: nat.splits)

lemma sample_counted_typed: "typed_function int_bool 8 two_ints (int_vm int_bool 8 two_ints) sample_counted"
proof -
  have "dest_types int_bool 8 sample_counted two_ints"
    by (auto simp: dest_types_def sample_counted_def sample_function_def int_bool_def two_ints_def int_ty_of_def kind_def
        int_ty_of_kind_def interner_empty_def nth_Cons split: nat.splits)
  then show ?thesis
    by (auto simp: typed_function_def conditions_ok_def sample_counted_def sample_function_def two_ints_def int_vm_def
        typed_comparison_def typed_rvalue_def typed_operand_def checked_ops_def comparison_def is_i64_def nth_Cons split: nat.splits)
qed











section \<open>Properties\<close>

text \<open>
  C10: on a machine with the usual integer operations and a typed function whose entry is not a branch
  target, overflow-check elimination returns, keeps the control flow and the cache in step, and
  keeps exactly the runs from the entry: no check that could fail is removed, and none is added.
\<close>

theorem overflow_elim_keeps_runs:
  assumes "int_machine num m i ptr_size tys" "overflow_input i f" "\<nexists>q. cfg_edge f q (fn_entry f)"
    "typed_function i ptr_size tys m f" "in_step a f"
  shows "\<exists>g c a'. overflow_elim i ptr_size f a = Some (g, c, a') \<and> in_step a' g \<and> cfg_shape_of g = cfg_shape_of f \<and>
    (\<forall>s r. runs m f (fn_entry f) s r \<longleftrightarrow> runs m g (fn_entry g) s r)"
  by (rule int_machine.overflow_elim_runs[OF assms])

theorem overflow_elim_keeps_runs_witness:
  "\<exists>g c a'. overflow_elim int_bool 8 sample_counted analyses_default = Some (g, c, a') \<and>
     (\<forall>s r. runs (int_vm int_bool 8 two_ints) sample_counted 0 s r \<longleftrightarrow> runs (int_vm int_bool 8 two_ints) g 0 s r)"
proof -
  have e: "fn_entry sample_counted = 0" by (simp add: sample_counted_def sample_function_def)
  from overflow_elim_keeps_runs[OF int_vm.int_machine_axioms sample_counted_input sample_counted_entry sample_counted_typed in_step_default]
  obtain g c a' where g: "overflow_elim int_bool 8 sample_counted analyses_default = Some (g, c, a')" "cfg_shape_of g = cfg_shape_of sample_counted"
    "\<forall>s r. runs (int_vm int_bool 8 two_ints) sample_counted (fn_entry sample_counted) s r \<longleftrightarrow>
      runs (int_vm int_bool 8 two_ints) g (fn_entry g) s r" by blast
  from cfg_shape_eqD(1)[OF g(2)] e have "fn_entry g = 0" by simp
  with g(1,3) e show ?thesis by simp
qed


end
