(* ===== verification/Spec2Isabelle.thy ===== *)
theory Spec2Isabelle
  imports Mir_Passes Pass_Limits Mir_Build Mir_Dominators Disjoint_Forest Host_Operations Type_Layout
    Resolver_Lock Overflow_Pass
begin

text \<open>
  Verification of the middle end of the Dream compiler (the crates \<open>dream-types\<close> and
  \<open>dream-mir\<close>, with the layouts of \<open>dream-hir\<close>) and of the host interface of the programs it
  compiles (\<open>dream-host-abi\<close>), all under \<open>src/crates\<close>, and of dependency resolution in the package
  manager \<open>dreamer\<close> (\<open>src/tooling/dreamer\<close>).

  \<^bold>\<open>The program.\<close> The compiler lowers checked source into a mid-level representation (MIR):
  functions of basic blocks over typed locals. A builder assembles functions, a verifier checks
  their control flow, and a pass manager runs passes over each function until none changes it. The
  passes share control-flow analyses through a cache that belongs to the manager; types are
  interned, so a type is an index into a table that all passes read, and a layout table gives the
  sizes and field offsets of aggregates. A compiled program calls its host through integer handles
  that a table issues, exchanges records of bytes, and waits for asynchronous operations that the
  host registers under such handles.

  \<^bold>\<open>The theories.\<close> In the order of their imports:

  \<^item> \<open>Dream_Prelude\<close>: checked list access, folds in the option monad, the loop over statements
    that counts changes; \<open>None\<close> stands for a panic throughout.
  \<^item> \<open>Dream_Types\<close> (\<open>dream-types/src\<close>: \<open>kind.rs\<close>, \<open>interner.rs\<close>, \<open>compat.rs\<close>): primitive types,
    type kinds, the hash-consing interner and its marks, numeric widening and assignability. The
    locale of an interner client is interpreted on the model. Assignability recurses on type ids,
    which are smaller than the ids that contain them; the number of kinds is enough fuel.
  \<^item> \<open>Mir_Syntax\<close> (\<open>dream-mir/src/lib.rs\<close>, \<open>dream-hir/src/ops.rs\<close>, \<open>verify/mod.rs\<close>): the data
    types of MIR, successors, the control-flow verifier.
  \<^item> \<open>Mir_Build\<close> (\<open>build.rs\<close>): the function builder; what is built by its operations is valid.
  \<^item> \<open>Disjoint_Forest\<close> (\<open>union_find.rs\<close>): find with path halving and union.
  \<^item> \<open>Int_Ty\<close>, \<open>Ieee_Floats\<close>, \<open>Const_Fold\<close>, \<open>Fold_Machine\<close> (\<open>int_ty.rs\<close>, \<open>passes/const_fold.rs\<close>):
    integers at the width of their type, IEEE numbers by their bits, the constant folder against
    word arithmetic and against the machine. The half-precision conversions come from a package
    outside the repository and are a parameter.
  \<^item> \<open>Mir_Machine\<close>, \<open>Const_Machine\<close>: the operational semantics the passes are judged by, with the
    runtime as a parameter, and a concrete machine for samples. \<open>runs\<close> relates a start to an
    outcome; \<open>refines\<close> keeps every run that does not panic and adds only runs of inputs that panic.
  \<^item> \<open>Algebraic_Pass\<close>, \<open>Copy_Prop\<close>, \<open>Simplify_Cfg\<close>, \<open>Dce_Pass\<close>, \<open>Sccp_Pass\<close> with \<open>Sccp_Sound\<close>
    (\<open>passes/algebraic.rs\<close>, \<open>prop.rs\<close>, \<open>simplify_cfg.rs\<close>, \<open>dce.rs\<close>, \<open>sccp.rs\<close>): one pass each, its
    whole \<open>transform\<close>, that it returns, and what it keeps.
  \<^item> \<open>Tco_Pass\<close> (\<open>passes/tco.rs\<close>): self tail calls become jumps to the entry.
  \<^item> \<open>Forward_Flow\<close>, \<open>Global_Prop\<close>, \<open>Gvn_Pass\<close> with \<open>Gvn_Sound\<close> (\<open>passes/global_prop.rs\<close>, \<open>gvn.rs\<close>,
    \<open>scalar_operands.rs\<close>): forward data flow over the reverse postorder, as an interface that the
    propagation of facts across blocks and the elimination of common subexpressions instantiate.
  \<^item> \<open>Overflow_Elim\<close>, \<open>Overflow_Trace\<close>, \<open>Int_Machine\<close>, \<open>Overflow_Sound\<close>, \<open>Overflow_Pass\<close>
    (\<open>passes/overflow_elim.rs\<close>): overflow-check elimination by ranges from dominating definitions and
    branches; traces of executions; what it needs of the machine, as a locale with an interpretation
    on a machine of payloads; every derived range holds wherever an execution gets, so the pass keeps
    the runs, and a function that jumps to its entry shows the one condition this needs.
  \<^item> \<open>Mir_Cfg\<close> (\<open>passes/cfg.rs\<close>): predecessors, reverse postorder, dominator and postdominator
    trees, natural loops.
  \<^item> \<open>Mir_Dominators\<close>: the dominator computation ends and answers exactly the question whether every
    path from the entry passes a block; likewise the postdominators; the loops are those of the
    back edges.
  \<^item> \<open>Mir_Analyses\<close>, \<open>Pass_Manager\<close>, \<open>Mir_Passes\<close> (\<open>passes/analyses.rs\<close>, \<open>mod.rs\<close>, \<open>manager.rs\<close>):
    the analysis cache, the pass interface with its debug assertions, the manager's fixpoint, the
    passes as instances of the interface's contract, and the debug pipelines.
  \<^item> \<open>Pass_Limits\<close>: concrete functions on which the side conditions of the pass theorems fail.

  \<^item> \<open>Type_Layout\<close> (\<open>dream-hir/src/layout.rs\<close>): the placement of fields and the layout table. It is
    built for all types that can be weighed, fields are aligned, disjoint and inside, reordering
    leaves no padding between them, and types that hold themselves by value are rejected.
  \<^item> \<open>Handle_Table\<close> (\<open>dream-host-abi/src/handles.rs\<close>): the table of generational handles as an
    implementation of a bounded map that issues its keys; stale handles miss, slots are reused in
    the order they were freed.
  \<^item> \<open>Wire_Format\<close> (\<open>dream-host-abi/src/wire.rs\<close>): reader and writer of records as codecs, an
    interface closed under pairs and bijections; reading accepts exactly what writing produces.
  \<^item> \<open>Host_Operations\<close> (\<open>dream-host-abi/src/operations.rs\<close>): the registry of operations over the
    handle table, its calls and the completion of tasks as steps; waiters are woken once, failures
    are readable through the wire format, and one interleaving of two calls loses a waiter.

  \<^item> \<open>Ordered_Map\<close>: vocabulary of the package manager, that is results with the error on the left,
    loops that stop at an error, maps that iterate in the order of their keys, strings.
  \<^item> \<open>Package_Manifest\<close> (\<open>tooling/dreamer/src\<close>: \<open>manifest.rs\<close>, \<open>app_config.rs\<close>, \<open>identifiers.rs\<close>): the
    project file, its validation and what validation guarantees, run targets, application settings.
  \<^item> \<open>Resolver\<close>, \<open>Resolver_Lock\<close> (\<open>resolver.rs\<close>, with the entries of \<open>registry/index.rs\<close>, \<open>lockfile.rs\<close>,
    \<open>workspace.rs\<close>, \<open>commands/install.rs\<close>): dependency resolution. The state claims one source per name;
    what a successful resolution returns, which requirements it does not check, that the lock file
    makes it repeatable, and that it ends.

  \<^bold>\<open>Correspondence.\<close> A Rust function that can panic returns an option, \<open>None\<close> for the panic; a
  pass returns the new function and whether it reports a change. Ids of locals, blocks and types are
  naturals, integer constants are integers with the wrap-around of the type written out, and floats
  are their bit patterns. Hash maps whose order is not observed are maps or association lists.
  Handles, generations and wire integers are words of their width, with the wrap-around of the code.
  Layout offsets are naturals with the overflow of \<open>u32\<close> as a panic, as in a build with overflow
  checks; a build without them wraps, and the theorem on the table shows that neither happens for
  types that can be weighed. An operation that tasks and calls share is a cell of a store, addressed
  by the handle table; the lock around each access makes it one step. In the package manager an error
  is a constructor for each message; strings are byte lists with the white space of ASCII, and paths
  are Unix paths. Registries, repositories, files and the package for version numbers are a record of
  functions that the resolver is given.

  \<^bold>\<open>Loops and fuel.\<close> Loops over a worklist are functions with a termination proof or loops with
  fuel for which it is proved that the fuel suffices: the depth-first search, the body of a natural
  loop, chains of jumps, path halving. The depth of range derivation counts down from the code's
  \<open>MAX_DEPTH\<close>. The iteration of conditional constant propagation has the cap
  that the code has, and the manager's rounds are capped as in the code.

  \<^bold>\<open>Not modelled.\<close> The front end (lexer, parser, semantic analysis, lowering), the LLVM backend and
  the runtime, the host bindings other than the interface above (services of the operating system
  behind it) and the tools other than dependency resolution; of the passes those on loops, reference counts,
  aggregates, bounds checks and calls; the module-level driver. The pipelines that name such passes
  are therefore not modelled; every pipeline of modelled passes is covered, overflow-check elimination
  apart, which asks for typed functions and is proved by itself.
\<close>

section \<open>Samples\<close>

text \<open>A diamond that chooses between two constants, and its types in a fresh interner.\<close>

definition sample_diamond :: mir_function where
  "sample_diamond = sample_function [0, 9]
     [mk_block [] (T_If (var 1) 1 2),
      mk_block [S_Assign (P_Local 0) (R_Use (int_lit 5))] (T_Goto 3),
      mk_block [S_Assign (P_Local 0) (R_Use (int_lit 7))] (T_Goto 3),
      mk_block [] (T_Return (Some (var 0)))]"

definition sample_machine :: "(const, const list) machine" where
  "sample_machine = const_machine (\<lambda>_. Some IT_Int)"

lemma sample_machine_consts: "machine_consts sample_machine"
  by (simp add: machine_consts_def sample_machine_def const_machine_def)

lemma sample_machine_pure: "machine_pure sample_machine"
  using const_machine_heap by (force simp: machine_pure_def sample_machine_def)

lemma fresh_interner: "kinds interner_new = preinterned" "value_unions interner_new = {}"
  by (simp_all add: interner_new_def preinterned_def intern_def interner_empty_def)

lemma length_preinterned: "length preinterned = 17"
  by (simp add: preinterned_def)

lemma fresh_not_value: "t < 17 \<Longrightarrow> is_value_type interner_new t = Some False"
proof -
  assume t: "t < 17"
  have "list_all (\<lambda>k. case k of K_Tuple _ \<Rightarrow> False | K_Struct _ _ \<Rightarrow> False | _ \<Rightarrow> True) preinterned"
    by (simp add: preinterned_def)
  with t length_preinterned have "case preinterned ! t of K_Tuple _ \<Rightarrow> False | K_Struct _ _ \<Rightarrow> False | _ \<Rightarrow> True"
    by (simp add: list_all_length)
  with t length_preinterned show ?thesis
    by (auto simp: is_value_type_def kind_def fresh_interner split: ty_kind.splits)
qed

lemma sample_machine_types:
  assumes "\<forall>d \<in> set locals. ld_ty d < 17"
  shows "machine_types sample_machine interner_new locals"
  using assms fresh_not_value by (force simp: machine_types_def sample_machine_def)

lemma sample_simplify_input:
  "cfg_ok f \<Longrightarrow> dests_declared f \<Longrightarrow> \<forall>d \<in> set (fn_locals f). ld_ty d < 17 \<Longrightarrow> simplify_input interner_new f"
  by (simp add: simplify_input_def locals_typed_def fresh_interner list_all_iff length_preinterned)

section \<open>Simplification of the control flow graph\<close>

text \<open>
  C1: CFG simplification returns on every function with valid control flow whose types are
  interned and whose assigned locals are declared; the result has valid control flow, and it has
  the runs of the original: every run that does not panic is kept, and every run of the result is
  a run of the original or the original panics. The entry must not be a jump target, as in every
  function the builder starts with a fresh entry block.
\<close>

theorem simplify_cfg_correct:
  assumes "simplify_input interner f" "no_edge_to_entry f"
    and "machine_consts m" "machine_types m interner (fn_locals f)"
  shows "\<exists>g c. simplify_cfg interner f = Some (g, c) \<and> cfg_ok g \<and> refines m f g"
proof -
  from simplify_cfg_total[OF assms(1)] obtain g c where g: "simplify_cfg interner f = Some (g, c)" by blast
  have "cfg_ok g"
    using shrinks_cfg_ok[OF simplify_cfg_shrinks[OF g]] assms(1) by (simp add: simplify_input_def)
  with simplify_cfg_refines_lemma[OF g assms(3,4,2)] g show ?thesis by blast
qed

theorem simplify_cfg_correct_witness:
  "\<exists>g c. simplify_cfg interner_new sample_diamond = Some (g, c) \<and> cfg_ok g \<and>
     refines sample_machine sample_diamond g"
proof (rule simplify_cfg_correct)
  have "cfg_ok sample_diamond" "dests_declared sample_diamond"
    by (simp_all add: sample_diamond_def sample_function_def cfg_ok_def dests_declared_def)
  then show "simplify_input interner_new sample_diamond"
    by (rule sample_simplify_input) (simp add: sample_diamond_def sample_function_def)
  show "no_edge_to_entry sample_diamond"
    by (simp add: sample_diamond_def sample_function_def no_edge_to_entry_def)
  show "machine_consts sample_machine" by (rule sample_machine_consts)
  show "machine_types sample_machine interner_new (fn_locals sample_diamond)"
    by (rule sample_machine_types) (simp add: sample_diamond_def sample_function_def)
qed

section \<open>Dead code elimination\<close>

text \<open>
  C2: dead code elimination returns on every function with valid control flow and keeps its runs:
  every run that does not panic is kept, and a run of the result is a run of the original or the
  original panics. The machine must not write memory while it evaluates what the pass calls a pure
  right-hand side, stores to value-typed locals must be kept, and the futures that are awaited must
  be read elsewhere too, since the pass does not count the read by the await.
\<close>

theorem dce_correct:
  assumes "dce_input m f" "machine_pure m"
  shows "\<exists>g c. dce f = Some (g, c) \<and> refines m f g"
  using assms by (rule dce_correct_lemma)

definition sample_dead :: mir_function where
  "sample_dead = sample_function [0, 0]
     [mk_block [S_Assign (P_Local 1) (R_Binary B_Add (int_lit 2) (int_lit 3)),
                S_Assign (P_Local 0) (R_Use (int_lit 5))] (T_Return (Some (var 0))),
      mk_block [S_Assign (P_Local 0) (R_Use (int_lit 1))] (T_Goto 0)]"

lemma sample_dead_dropped:
  "drop_unreachable_blocks sample_dead = Some (sample_dead\<lparr>fn_blocks := [hd (fn_blocks sample_dead), mk_block [] T_Unreachable]\<rparr>, True)"
  by code_simp

theorem dce_correct_witness:
  "\<exists>g c. dce sample_dead = Some (g, c) \<and> refines sample_machine sample_dead g"
proof (rule dce_correct)
  show "dce_input sample_machine sample_dead"
    by (simp add: dce_input_def sample_dead_dropped)
      (simp add: slots_kept_def awaits_read_def await_reads_def cfg_ok_def sample_dead_def sample_function_def
        sample_machine_def)
  show "machine_pure sample_machine" by (rule sample_machine_pure)
qed

section \<open>Copy and constant propagation\<close>

text \<open>
  C3: local copy and constant propagation returns on every function whose locals have interned
  types, and the result has exactly the runs of the original, from every block and every state. The
  machine must agree with the types on which locals are values, and a copied local and its source
  must be of the same type where an operation depends on its operand's type.
\<close>

theorem copy_const_prop_correct:
  assumes "\<forall>d \<in> set (fn_locals f). ld_ty d < length (kinds interner)"
    and "machine_types m interner (fn_locals f)" "copies_alike m f"
  shows "\<exists>g c. copy_const_prop interner f = Some (g, c) \<and> (\<forall>b s r. runs m f b s r \<longleftrightarrow> runs m g b s r)"
proof -
  from copy_const_prop_total[OF assms(1)] obtain g c where g: "copy_const_prop interner f = Some (g, c)" by auto
  with copy_const_prop_runs[OF g assms(2,3)] show ?thesis by blast
qed

definition sample_copy :: mir_function where
  "sample_copy = sample_function [0, 0]
     [mk_block [S_Assign (P_Local 0) (R_Use (int_lit 5)),
                S_Assign (P_Local 1) (R_Binary B_Add (var 0) (var 0))] (T_Return (Some (var 1)))]"

theorem copy_const_prop_correct_witness:
  "\<exists>g c. copy_const_prop interner_new sample_copy = Some (g, c) \<and>
     (\<forall>b s r. runs sample_machine sample_copy b s r \<longleftrightarrow> runs sample_machine g b s r)"
proof (rule copy_const_prop_correct)
  have tys: "\<forall>d \<in> set (fn_locals sample_copy). ld_ty d < 17" by (simp add: sample_copy_def sample_function_def)
  then show "\<forall>d \<in> set (fn_locals sample_copy). ld_ty d < length (kinds interner_new)"
    by (simp add: fresh_interner length_preinterned)
  from tys show "machine_types sample_machine interner_new (fn_locals sample_copy)" by (rule sample_machine_types)
  show "copies_alike sample_machine sample_copy"
    by (simp add: copies_alike_def sample_copy_def sample_function_def typed_alike_def compared_alike_def
        sample_machine_def const_machine_def const_rvalue_def prop_is_int_const_def)
qed

section \<open>Constant folding\<close>

lemma sample_machine_folds: "machine_folds half_low tys (const_machine tys)"
  by (simp add: machine_folds_def const_machine_def const_rvalue_def rvalue_key_def)


lemma const_machine_alike: "typed_alike (const_machine tys) a b" "compared_alike (const_machine tys) a b"
  by (simp_all add: typed_alike_def compared_alike_def const_machine_def const_rvalue_def)


lemma sample_dead_input: "simplify_input interner_new sample_dead"
  by (rule sample_simplify_input)
    (simp_all add: sample_dead_def sample_function_def cfg_ok_def dests_declared_def)


section \<open>Conditional constant propagation\<close>

text \<open>
  C4: conditional constant propagation returns on every well-formed function; when its iteration has
  settled within the cap, without floating-point constants and without a constant for a value-typed
  local, and the function assigns its locals before it reads them, the result has exactly the runs
  of the original from the entry.
\<close>

theorem sccp_correct:
  assumes "simplify_input interner f" "sccp_solve h interner ptr_size f = Some (reach, lat)"
    and "sccp_result_ok m h interner ptr_size f reach lat" "assigned_before_read f D"
    and "machine_folds h tys m" "dest_types interner ptr_size f tys" "machine_consts m"
  shows "\<exists>g c. sccp h interner ptr_size f = Some (g, c) \<and> simplify_input interner g \<and>
    (\<forall>s r. runs m f (fn_entry f) s r \<longleftrightarrow> runs m g (fn_entry f) s r)"
proof -
  from sccp_keeps[of interner h ptr_size] assms(1) obtain g c where
    g: "sccp h interner ptr_size f = Some (g, c)" "simplify_input interner g" by (auto simp: keeps_input_def)
  with sccp_runs[OF g(1) assms(2,1,3,5,6,7,4)] show ?thesis by blast
qed

definition sample_branch :: mir_function where
  "sample_branch = sample_function [0, 0]
     [mk_block [S_Assign (P_Local 0) (R_Use (int_lit 3))] (T_Goto 1),
      mk_block [S_Assign (P_Local 1) (R_Binary B_Add (var 0) (int_lit 1))] (T_Switch (var 0) [(3, 2)] 3),
      mk_block [] (T_Return (Some (var 1))),
      mk_block [S_Assign (P_Local 0) (R_Use (int_lit 9))] (T_Goto 1)]"

lemma int_only_type: "int_ty_of int_only 0 8 = Some (Some IT_Int)" "is_value_type int_only 0 = Some False"
  by code_simp+

lemma int_only_input:
  assumes "cfg_ok f" "dests_declared f" "\<forall>d \<in> set (fn_locals f). ld_ty d = 0"
  shows "simplify_input int_only f" "dest_types int_only 8 f (\<lambda>_. Some IT_Int)" "machine_types sample_machine int_only (fn_locals f)"
  using assms int_only_type
  by (force simp: simplify_input_def locals_typed_def list_all_iff int_only_def interner_empty_def dest_types_def
      machine_types_def sample_machine_def)+

lemma sample_branch_input:
  "simplify_input int_only sample_branch" "dest_types int_only 8 sample_branch (\<lambda>_. Some IT_Int)"
  "machine_types sample_machine int_only (fn_locals sample_branch)"
proof -
  have "cfg_ok sample_branch" "dests_declared sample_branch" "\<forall>d \<in> set (fn_locals sample_branch). ld_ty d = 0"
    by (simp_all add: sample_branch_def sample_function_def cfg_ok_def dests_declared_def)
  then show "simplify_input int_only sample_branch" "dest_types int_only 8 sample_branch (\<lambda>_. Some IT_Int)"
    "machine_types sample_machine int_only (fn_locals sample_branch)" by (rule int_only_input)+
qed

lemma sample_branch_solve:
  "sccp_solve half_low int_only 8 sample_branch =
     Some ([True, True, True, False], [(0, L_Const (C_Int 3)), (1, L_Const (C_Int 4))])"
  by code_simp

lemma sample_branch_settled:
  "settled half_low int_only 8 sample_branch [True, True, True, False] [(0, L_Const (C_Int 3)), (1, L_Const (C_Int 4))]"
  by code_simp

theorem sccp_correct_witness:
  "\<exists>g c. sccp half_low int_only 8 sample_branch = Some (g, c) \<and> simplify_input int_only g \<and>
    (\<forall>s r. runs sample_machine sample_branch (fn_entry sample_branch) s r \<longleftrightarrow>
      runs sample_machine g (fn_entry sample_branch) s r)"
proof (rule sccp_correct)
  show "simplify_input int_only sample_branch" by (rule sample_branch_input)
  show "sccp_solve half_low int_only 8 sample_branch =
     Some ([True, True, True, False], [(0, L_Const (C_Int 3)), (1, L_Const (C_Int 4))])" by (rule sample_branch_solve)
  show "sccp_result_ok sample_machine half_low int_only 8 sample_branch [True, True, True, False]
     [(0, L_Const (C_Int 3)), (1, L_Const (C_Int 4))]"
    using sample_branch_settled
    by (simp add: sccp_result_ok_def exact_lat_def exact_const_def consts_alike_def const_machine_alike sample_machine_def)
  show "assigned_before_read sample_branch (\<lambda>b. if b = 0 then {} else if b = 1 then {0} else {0, 1})"
    by (simp add: assigned_before_read_def sample_branch_def sample_function_def assigned_after_def stmt_reads_def
        term_reads_def term_def_def stmt_def_def direct_local_def place_reads_def)
  show "machine_folds half_low (\<lambda>_. Some IT_Int) sample_machine"
    unfolding sample_machine_def by (rule sample_machine_folds)
  show "dest_types int_only 8 sample_branch (\<lambda>_. Some IT_Int)" by (rule sample_branch_input)
qed (rule sample_machine_consts)

section \<open>Global propagation\<close>

text \<open>
  C8: global copy and constant propagation, run with an analysis cache that is in step with the
  function, returns on every well-formed function: its iteration reaches a fixpoint. The cache stays
  in step, and the result has exactly the runs of the original from the entry, under the conditions
  of local propagation.
\<close>

theorem global_prop_correct:
  assumes "simplify_input interner f" "in_step a f"
    and "machine_types m interner (fn_locals f)" "copies_alike m f"
  shows "\<exists>g c a'. global_prop interner f a = Some (g, c, a') \<and> simplify_input interner g \<and> in_step a' g \<and>
    (\<forall>s r. runs m f (fn_entry f) s r \<longleftrightarrow> runs m g (fn_entry f) s r)"
proof -
  from global_prop_keeps[of interner] assms(1) obtain g c where
    g: "gp_result interner f = Some (g, c)" "simplify_input interner g" by (auto simp: keeps_input_def)
  from global_prop_contract.returned[OF assms(2) g(1)] obtain a' where
    "global_prop interner f a = Some (g, c, a')" "in_step a' g" by blast
  with g global_prop_runs[OF g(1) _ assms(3,4)] assms(1) show ?thesis by (auto simp: simplify_input_def)
qed

theorem global_prop_correct_witness:
  "\<exists>g c a'. global_prop int_only sample_branch analyses_default = Some (g, c, a') \<and> simplify_input int_only g \<and>
    in_step a' g \<and> (\<forall>s r. runs sample_machine sample_branch (fn_entry sample_branch) s r \<longleftrightarrow>
      runs sample_machine g (fn_entry sample_branch) s r)"
  by (rule global_prop_correct[OF sample_branch_input(1) in_step_default sample_branch_input(3)])
    (simp add: copies_alike_def const_machine_alike sample_machine_def)

section \<open>Common-subexpression elimination\<close>

text \<open>
  C7: common-subexpression elimination returns: its iteration reaches a fixpoint. The cache stays in
  step, and the result has exactly the runs of the original from the entry, for functions that do
  not jump to their entry, in which no numbered expression reads its own destination, and on
  machines where those expressions are arithmetic on registers.
\<close>

theorem gvn_correct:
  assumes "cfg_ok f" "no_edge_to_entry f" "in_step a f"
    and "local_flags interner (fn_locals f) = Some scalar" "keys_total f scalar" "gvn_input m f scalar"
  shows "\<exists>g c a'. gvn interner f a = Some (g, c, a') \<and> in_step a' g \<and>
    (\<forall>s r. runs m f (fn_entry f) s r \<longleftrightarrow> runs m g (fn_entry f) s r)"
proof -
  from gvn_result_total[OF assms(1,4,5)] obtain g c where g: "gvn_result interner f = Some (g, c)" by auto
  from gvn_contract.returned[OF assms(3) g] obtain a' where "gvn interner f a = Some (g, c, a')" "in_step a' g" by blast
  with gvn_runs[OF g assms(1,2,4-6)] show ?thesis by blast
qed

definition sample_cse :: mir_function where
  "sample_cse = sample_function [0, 0, 0]
     [mk_block [S_Assign (P_Local 0) (R_Use (int_lit 4)),
                S_Assign (P_Local 1) (R_Binary B_Mul (var 0) (var 0))] (T_Goto 1),
      mk_block [S_Assign (P_Local 2) (R_Binary B_Mul (var 0) (var 0))] (T_Return (Some (var 2)))]"

lemma sample_cse_rewritten:
  "map_option (\<lambda>(g, c, _). (stmts (fn_blocks g ! 1), c)) (gvn int_only sample_cse analyses_default) =
     Some ([S_Assign (P_Local 2) (R_Use (var 1))], True)"
  by code_simp

lemma sample_cse_keys:
  "assigned_keys sample_cse [True, True, True] =
     {(GK_Binary B_Mul (OK_Local 0) (OK_Local 0), 1), (GK_Binary B_Mul (OK_Local 0) (OK_Local 0), 2)}"
  by (auto simp: assigned_keys_def sample_cse_def sample_function_def key_of_def pair_key_def op_key_of_def nth_opt_in)

theorem gvn_correct_witness:
  "\<exists>g c a'. gvn int_only sample_cse analyses_default = Some (g, c, a') \<and> in_step a' g \<and>
    (\<forall>s r. runs sample_machine sample_cse (fn_entry sample_cse) s r \<longleftrightarrow>
      runs sample_machine g (fn_entry sample_cse) s r)"
proof (rule gvn_correct)
  show "cfg_ok sample_cse" "no_edge_to_entry sample_cse"
    by (simp_all add: sample_cse_def sample_function_def cfg_ok_def no_edge_to_entry_def)
  show "local_flags int_only (fn_locals sample_cse) = Some [True, True, True]" "keys_total sample_cse [True, True, True]"
    by code_simp+
  show "gvn_input sample_machine sample_cse [True, True, True]"
    unfolding gvn_input_def sample_cse_keys
    by (auto simp: sample_machine_def const_machine_def split: option.splits)
qed (rule in_step_default)

section \<open>Tail calls\<close>


text \<open>A machine whose callees return their first argument, and a function that returns a call.\<close>

definition int_and_void :: type_interner where
  "int_and_void = interner_empty\<lparr>kinds := [K_Prim PInt, K_Void], dedup := [K_Prim PInt \<mapsto> 0, K_Void \<mapsto> 1]\<rparr>"


definition sample_callee :: callee where
  "sample_callee = \<lparr>ca_borrowed_result = False, ca_def = def_root 1, ca_args = [], ca_ret = 0, ca_take_params = [False]\<rparr>"

definition sample_tail :: mir_function where
  "sample_tail = sample_function [0, 0]
     [mk_block [S_Assign (P_Local 0) (R_Use (int_lit 4)),
                S_Assign (P_Local 1) (R_Call sample_callee [var 0])] (T_Return (Some (var 1)))]"

lemma sample_tail_converted:
  "map_option (\<lambda>(g, c). (term_of (fn_blocks g ! 0), c)) (tco int_and_void sample_tail) =
     Some (T_TailCall sample_callee [var 0], True)"
  by code_simp


section \<open>Pipelines\<close>

text \<open>
  C11: the pass manager does what the plain fixpoint does: on passes with the contract of the pass
  interface, its skipping of passes whose input has not changed, its analysis cache and its debug
  assertions do not influence the result, nor whether the iteration cap was hit.
\<close>

theorem manager_matches_reference:
  assumes "\<forall>p \<in> set (pm_passes pm). mir_pass_contract p"
  shows "run_layouts_dumped verify pm f = plain_rounds (pm_passes pm) (pm_max_iterations pm) f"
  using assms by (intro run_layouts_plain) (simp add: contracts_def)

theorem manager_matches_reference_witness:
  "run_layouts_dumped True \<lparr>pm_passes = modelled_passes half_low interner_new 8, pm_max_iterations = 16\<rparr> sample_dead =
     plain_rounds (modelled_passes half_low interner_new 8) 16 sample_dead"
  using manager_matches_reference[of "\<lparr>pm_passes = modelled_passes half_low interner_new 8, pm_max_iterations = 16\<rparr>" True
      sample_dead] modelled_contract by simp



text \<open>
  C5: the debug pipelines, with and without debug information, return on every well-formed function
  and keep its runs: a run that does not panic is kept, and a run of the result is one of the
  original or the original panics. The function must not jump to its entry, must not await and must
  have no value-typed locals, and copies must be between locals an operation treats alike.
\<close>

theorem debug_pipeline_correct:
  assumes "debug_input m h interner ptr_size f tys"
  shows "\<exists>g hit. run_layouts_dumped verify (debug_pipeline h interner ptr_size debug_info) f = Some (g, hit) \<and>
    simplify_input interner g \<and> refines m f g"
  using assms by (rule debug_pipeline_runs)

theorem debug_pipeline_correct_witness:
  "\<exists>g hit. run_layouts_dumped True (debug_pipeline half_low int_only 8 False) sample_branch = Some (g, hit) \<and>
    simplify_input int_only g \<and> refines sample_machine sample_branch g"
proof (rule debug_pipeline_correct)
  have "no_edge_to_entry sample_branch" "await_free sample_branch"
    by (simp_all add: sample_branch_def sample_function_def no_edge_to_entry_def await_free_def)
  then show "debug_input sample_machine half_low int_only 8 sample_branch (\<lambda>_. Some IT_Int)"
    using sample_branch_input sample_machine_consts sample_machine_pure sample_machine_folds[of "\<lambda>_. Some IT_Int"]
    by (simp add: debug_input_def copies_alike_def const_machine_alike sample_machine_def)
qed

text \<open>
  C13: after any pass with the contract, run with a cache that is in step with the function, every
  analysis query on the new function and the cache the run leaves answers exactly as a fresh
  computation would.
\<close>

theorem cached_analyses_fresh:
  assumes "mir_pass_contract p" "in_step a f" "run_pass verify p a f = Some (g, c, a')"
  shows "map_option fst (query_predecessors a' g) = predecessors g \<and>
    map_option fst (query_reverse_postorder a' g) = reverse_postorder g \<and>
    map_option fst (query_dominators a' g) = fresh_dominators g \<and>
    map_option fst (query_postdominators a' g) = post_dom_new g \<and>
    map_option fst (query_natural_loops a' g) = fresh_loops g"
proof -
  have fst: "map_option fst q = fresh" if "answers g q fresh" for q :: "('r \<times> function_analyses) option" and fresh
    using that by (cases q) (auto simp: answers_def)
  have "in_step a' g" by (rule mir_pass_contract.run_pass_result(1)[OF assms])
  then show ?thesis
    by (intro conjI fst query_predecessors_answers query_reverse_postorder_answers query_dominators_answers
        query_postdominators_answers query_natural_loops_answers)
qed

theorem cached_analyses_fresh_witness:
  "\<exists>g c a'. run_pass True dce_pass analyses_default sample_dead = Some (g, c, a') \<and>
     map_option fst (query_natural_loops a' g) = fresh_loops g"
proof -
  have p: "mir_pass_contract dce_pass" using pass_contracts by (simp add: pass_defs)
  from dce_keeps[of interner_new] sample_dead_input obtain g c where "dce sample_dead = Some (g, c)"
    by (auto simp: keeps_input_def)
  then have "run_with_layouts True dce_pass sample_dead \<noteq> None"
    using mir_pass_contract.run_pass_no_assert[OF p in_step_default, of True sample_dead]
      run_plain_pass[of "''dce''" Preserves_None dce sample_dead]
    by (auto simp: run_with_layouts_def dce_pass_def)
  then obtain g c a' where r: "run_pass True dce_pass analyses_default sample_dead = Some (g, c, a')"
    by (auto simp: run_with_layouts_def)
  from cached_analyses_fresh[OF p in_step_default r] r show ?thesis by blast
qed

section \<open>Control-flow facts shared by the passes\<close>

text \<open>
  The reachability search of dead code elimination and the reverse postorder of the shared
  analyses agree: on a function with valid control flow both return, and both find exactly the
  blocks reachable from the entry.
\<close>

theorem reachable_blocks_agree:
  assumes "cfg_ok f"
  shows "\<exists>rpo. reachable_blocks f = Some (set rpo) \<and> reverse_postorder f = Some rpo \<and> set rpo = reachable f"
proof -
  from reverse_postorder_total[OF assms] obtain rpo where "reverse_postorder f = Some rpo"
    "set rpo = {b. (cfg_edge f)\<^sup>*\<^sup>* (fn_entry f) b}" by blast
  with reachable_blocks_total[OF assms] show ?thesis by (simp add: reachable_def)
qed

theorem reachable_blocks_agree_witness:
  "\<exists>rpo. reachable_blocks sample_loop = Some (set rpo) \<and> reverse_postorder sample_loop = Some rpo \<and>
     set rpo = reachable sample_loop"
  by (rule reachable_blocks_agree[OF sample_loop_ok])

end
